(* ===== verification/Moto_Prelude.thy ===== *)
theory Moto_Prelude
  imports Main "HOL-Library.Word" "HOL-Library.AList"
begin

text \<open>
  Shared vocabulary of the Moto development: Go's bytes, unsigned 64-bit integers,
  instants and durations; the blocking read \<^verbatim>\<open>io.ReadFull\<close>; the lemma collections
  of the components; and a few generic lemmas on lists and words.

  Conventions used by every component theory:
  \<^item> a Go \<^verbatim>\<open>int\<close> whose range is far from the 64-bit limits is an \<open>int\<close> (or a \<open>nat\<close>
    where it is a length); a \<^verbatim>\<open>uint64\<close> is a \<open>64 word\<close>; a \<^verbatim>\<open>byte\<close> is an \<open>8 word\<close>;
  \<^item> \<^verbatim>\<open>time.Time\<close> is the number of nanoseconds since the zero instant
    (January 1, year 1), so \<^verbatim>\<open>time.Time{}\<close> is \<open>0\<close> and \<^verbatim>\<open>IsZero\<close> is \<open>= 0\<close>;
    \<^verbatim>\<open>time.Duration\<close> is an \<open>int\<close> of nanoseconds; \<^verbatim>\<open>Time.Sub\<close> saturates as Go's does;
  \<^item> a mutex-protected critical section is one atomic state-passing function;
  \<^item> log lines and metric counters that no code reads back are left out.
\<close>

section \<open>Names for the types of the model\<close>

type_synonym byte = "8 word"
type_synonym u64 = "64 word"
type_synonym gotime = int
type_synonym duration = int

named_theorems go_consts \<open>values of the named constants of the program\<close>

section \<open>Instants and durations\<close>

definition nanosecond :: duration where "nanosecond = 1"
definition millisecond :: duration where "millisecond = 1000000"
definition second :: duration where "second = 1000000000"
definition minute :: duration where "minute = 60000000000"

lemmas duration_defs [go_consts] = nanosecond_def millisecond_def second_def minute_def

definition max_duration :: duration where "max_duration = 2 ^ 63 - 1"
definition min_duration :: duration where "min_duration = - (2 ^ 63)"

text \<open>\<^verbatim>\<open>t.Sub(u)\<close>: the difference, saturated at the range of \<^verbatim>\<open>time.Duration\<close>.\<close>

definition time_sub :: "gotime \<Rightarrow> gotime \<Rightarrow> duration" where
  "time_sub t u = max min_duration (min max_duration (t - u))"

lemma time_sub_ge_iff: "d \<le> max_duration \<Longrightarrow> min_duration < d \<Longrightarrow> d \<le> time_sub t u \<longleftrightarrow> d \<le> t - u"
  by (auto simp: time_sub_def)

lemma time_sub_nonneg: "0 \<le> t - u \<Longrightarrow> 0 \<le> time_sub t u"
  by (simp add: time_sub_def max_duration_def)

text \<open>The two errors \<^verbatim>\<open>ctx.Err()\<close> can return.\<close>

datatype ctxErr = Canceled | DeadlineExceeded

section \<open>Bytes, strings and big-endian integers\<close>

text \<open>\<^verbatim>\<open>string(bytes)\<close>: the conversion keeps the bytes.\<close>

definition bytes_string :: "byte list \<Rightarrow> string" where
  "bytes_string bs = map (\<lambda>b. char_of (unat b)) bs"

lemma bytes_string_simps [simp]:
  "bytes_string [] = []"
  "bytes_string (b # bs) = char_of (unat b) # bytes_string bs"
  "bytes_string (xs @ ys) = bytes_string xs @ bytes_string ys"
  "length (bytes_string bs) = length bs"
  "bytes_string bs = [] \<longleftrightarrow> bs = []"
  by (simp_all add: bytes_string_def)

lemma char_of_unat_inj: "char_of (unat (a::byte)) = char_of (unat (b::byte)) \<longleftrightarrow> a = b"
proof
  assume "char_of (unat a) = (char_of (unat b) :: char)"
  then have "(of_char (char_of (unat a) :: char) :: nat) = of_char (char_of (unat b) :: char)"
    by simp
  moreover have "unat a < 256" and "unat b < 256"
    using unsigned_less [of a, where 'a = nat] unsigned_less [of b, where 'a = nat] by simp_all
  ultimately have "unat a = unat b" by simp
  then show "a = b" by (simp add: word_unat_eq_iff)
qed simp

lemma bytes_string_inj [simp]: "bytes_string xs = bytes_string ys \<longleftrightarrow> xs = ys"
  unfolding bytes_string_def
  by (rule inj_map_eq_map) (auto intro: injI iffD1 [OF char_of_unat_inj])

text \<open>\<open>str_bytes\<close> is \<^verbatim>\<open>[]byte(s)\<close>.\<close>

definition str_bytes :: "string \<Rightarrow> byte list" where
  "str_bytes s = map (\<lambda>c. of_char c) s"

lemma unat_of_char: "unat (of_char c :: byte) = (of_char c :: nat)"
  by (cases c) (simp add: of_char_def)

lemma bytes_string_str_bytes [simp]: "bytes_string (str_bytes s) = s"
  by (induction s) (simp_all add: str_bytes_def bytes_string_def unat_of_char)

lemma str_bytes_append [simp]: "str_bytes (a @ b) = str_bytes a @ str_bytes b" "length (str_bytes a) = length a"
  by (simp_all add: str_bytes_def)

text \<open>\<^verbatim>\<open>binary.BigEndian.Uint16\<close> on a slice of two bytes, widened to \<^verbatim>\<open>int\<close>.\<close>

definition be16 :: "byte \<Rightarrow> byte \<Rightarrow> int" where
  "be16 hi lo = uint hi * 256 + uint lo"

lemma uint_byte_bounds: "0 \<le> uint (b::byte)" "uint (b::byte) < 256"
  using uint_lt2p [of b] by simp_all

lemma be16_bounds: "0 \<le> be16 a b" "be16 a b < 65536"
  using uint_byte_bounds [of a] uint_byte_bounds [of b] by (simp_all add: be16_def)

text \<open>The two bytes of a length below \<open>65536\<close>, most significant first.\<close>

definition enc16 :: "nat \<Rightarrow> byte list" where
  "enc16 n = [word_of_nat (n div 256), word_of_nat (n mod 256)]"

lemma uint_word_of_nat_byte: "n < 256 \<Longrightarrow> uint (word_of_nat n :: byte) = int n"
  by (simp add: uint_nat unat_of_nat)

lemma be16_enc16:
  "n < 65536 \<Longrightarrow> be16 (word_of_nat (n div 256)) (word_of_nat (n mod 256)) = int n"
proof -
  assume n: "n < 65536"
  then have "n div 256 < 256" by (simp add: less_mult_imp_div_less)
  moreover have "int (n div 256) * 256 + int (n mod 256) = int n"
    by (metis div_mult_mod_eq of_nat_add of_nat_mult of_nat_numeral)
  ultimately show ?thesis by (simp only: be16_def uint_word_of_nat_byte mod_less_divisor zero_less_numeral)
qed

lemma length_enc16 [simp]: "length (enc16 n) = 2"
  by (simp add: enc16_def)

section \<open>The string functions of the standard library\<close>

text \<open>
  \<^verbatim>\<open>strings.HasPrefix\<close>, \<^verbatim>\<open>strings.HasSuffix\<close> and \<^verbatim>\<open>strings.TrimSuffix\<close>, and \<^verbatim>\<open>strings.ToLower\<close> on
  ASCII text (the strings it is applied to are checked to be ASCII before they are used).
\<close>

definition has_prefix :: "'a list \<Rightarrow> 'a list \<Rightarrow> bool" where
  "has_prefix s p \<longleftrightarrow> take (length p) s = p"

definition has_suffix :: "'a list \<Rightarrow> 'a list \<Rightarrow> bool" where
  "has_suffix s p \<longleftrightarrow> length p \<le> length s \<and> drop (length s - length p) s = p"

definition trim_suffix :: "'a list \<Rightarrow> 'a list \<Rightarrow> 'a list" where
  "trim_suffix s p = (if has_suffix s p then take (length s - length p) s else s)"

lemma has_prefix_iff: "has_prefix s p \<longleftrightarrow> (\<exists>t. s = p @ t)"
  by (metis append_eq_conv_conj append_take_drop_id has_prefix_def)

lemma has_suffix_iff: "has_suffix s p \<longleftrightarrow> (\<exists>t. s = t @ p)"
proof
  assume "has_suffix s p"
  then show "\<exists>t. s = t @ p" unfolding has_suffix_def by (metis append_take_drop_id)
qed (auto simp: has_suffix_def)

lemma trim_suffix_append [simp]: "trim_suffix (t @ p) p = t"
  by (auto simp: trim_suffix_def has_suffix_iff)

definition lower_char :: "char \<Rightarrow> char" where
  "lower_char c = (if 65 \<le> (of_char c :: nat) \<and> (of_char c :: nat) \<le> 90 then char_of ((of_char c :: nat) + 32) else c)"

definition to_lower :: "string \<Rightarrow> string" where
  "to_lower s = map lower_char s"

lemma lower_char_idem [simp]: "lower_char (lower_char c) = lower_char c"
  by (auto simp: lower_char_def of_char_of)

lemma to_lower_idem [simp]: "to_lower (to_lower s) = to_lower s"
  by (simp add: to_lower_def)

section \<open>Blocking reads\<close>

text \<open>
  A reader is the list of bytes it still delivers before it fails (end of stream, deadline
  or connection error). \<^verbatim>\<open>io.ReadFull(r, buf)\<close> with \<open>n = len(buf)\<close> gives the bytes read,
  whether all \<open>n\<close> of them arrived, and the reader afterwards.
\<close>

definition read_full :: "nat \<Rightarrow> byte list \<Rightarrow> byte list \<times> bool \<times> byte list" where
  "read_full n s = (take n s, n \<le> length s, drop n s)"

lemma read_full_append [simp]: "read_full (length xs) (xs @ ys) = (xs, True, ys)"
  by (simp add: read_full_def)

lemma read_full_split: "read_full n s = (xs, ok, s') \<Longrightarrow> xs @ s' = s"
  by (auto simp: read_full_def)

lemma read_full_length: "read_full n s = (xs, ok, s') \<Longrightarrow> length xs \<le> n \<and> (ok \<longrightarrow> length xs = n)"
  by (auto simp: read_full_def)

lemma read_full_consumes: "read_full n s = (xs, True, s') \<Longrightarrow> length s' + n = length s"
  by (auto simp: read_full_def)

section \<open>Invariants of step relations\<close>

text \<open>
  The contract of a component whose critical sections interleave: its start states satisfy the
  invariant and every step keeps it. Every state a run can reach then satisfies it.
\<close>

locale invariant_system =
  fixes start :: "'s \<Rightarrow> bool" and step :: "'s \<Rightarrow> 's \<Rightarrow> bool" and inv :: "'s \<Rightarrow> bool"
  assumes start_inv: "start s \<Longrightarrow> inv s"
    and step_inv: "inv s \<Longrightarrow> step s t \<Longrightarrow> inv t"
begin

lemma run_inv: "step\<^sup>*\<^sup>* s t \<Longrightarrow> inv s \<Longrightarrow> inv t"
  by (induction rule: rtranclp_induct) (auto intro: step_inv)

lemma reachable_inv: "start s \<Longrightarrow> step\<^sup>*\<^sup>* s t \<Longrightarrow> inv t"
  using run_inv start_inv by blast

end

text \<open>An invariant system whose steps a specification explains: every step is a step of the
  specification, or changes nothing it sees.\<close>

locale refinement_system = invariant_system start step inv
  for start :: "'s \<Rightarrow> bool" and step :: "'s \<Rightarrow> 's \<Rightarrow> bool" and inv :: "'s \<Rightarrow> bool" +
  fixes abs :: "'s \<Rightarrow> 'a" and spec :: "'a \<Rightarrow> 'a \<Rightarrow> bool"
  assumes simulates: "inv s \<Longrightarrow> step s t \<Longrightarrow> abs s = abs t \<or> spec (abs s) (abs t)"
begin

lemma run_refines: "step\<^sup>*\<^sup>* s t \<Longrightarrow> inv s \<Longrightarrow> spec\<^sup>*\<^sup>* (abs s) (abs t)"
proof (induction rule: rtranclp_induct)
  case (step t u)
  have "abs t = abs u \<or> spec (abs t) (abs u)" using simulates run_inv step by blast
  then show ?case using step by (metis rtranclp.rtrancl_into_rtrancl)
qed simp

lemma reachable_refines: "start s \<Longrightarrow> step\<^sup>*\<^sup>* s t \<Longrightarrow> spec\<^sup>*\<^sup>* (abs s) (abs t)"
  using run_refines start_inv by blast

end

section \<open>Association lists\<close>

lemma length_AList_update:
  "length (AList.update k v xs) = (if k \<in> fst ` set xs then length xs else Suc (length xs))"
  by (induction xs) auto

section \<open>Counting\<close>

text \<open>How many elements of a list satisfy a predicate: the connections, waiters or goroutines a
  counter of the program is supposed to count.\<close>

definition cnt :: "('a \<Rightarrow> bool) \<Rightarrow> 'a list \<Rightarrow> nat" where
  "cnt P xs = length (filter P xs)"

lemma cnt_append [simp]: "cnt P (xs @ ys) = cnt P xs + cnt P ys" "cnt P [] = 0" "cnt P (x # xs) = (if P x then 1 else 0) + cnt P xs"
  by (simp_all add: cnt_def)

lemma cnt_update:
  assumes "n < length xs"
  shows "cnt P (xs[n := v]) + (if P (xs ! n) then 1 else 0) = cnt P xs + (if P v then 1 else 0)"
  using assms
proof (induction xs arbitrary: n)
  case (Cons x xs)
  then show ?case by (cases n) auto
qed simp

lemma cnt_pos: "n < length xs \<Longrightarrow> P (xs ! n) \<Longrightarrow> 0 < cnt P xs"
  by (auto simp: cnt_def filter_empty_conv)

lemma cnt_zero: "cnt P xs = 0 \<longleftrightarrow> (\<forall>x\<in>set xs. \<not> P x)"
  by (auto simp: cnt_def filter_empty_conv)

lemma cnt_mono: "(\<And>x. P x \<Longrightarrow> Q x) \<Longrightarrow> cnt P xs \<le> cnt Q xs"
  by (induction xs) auto

section \<open>Generic lemmas\<close>

lemma length_Suc_Suc_conv: "length xs = 2 \<longleftrightarrow> (\<exists>a b. xs = [a, b])"
  by (auto simp: numeral_2_eq_2 length_Suc_conv)

text \<open>The pieces of a list between the occurrences of a separator (\<^verbatim>\<open>strings.Split\<close>).\<close>

fun split_on :: "'a \<Rightarrow> 'a list \<Rightarrow> 'a list list" where
  "split_on s [] = [[]]"
| "split_on s (x # xs) =
     (if x = s then [] # split_on s xs
      else case split_on s xs of [] \<Rightarrow> [[x]] | p # ps \<Rightarrow> (x # p) # ps)"

lemma split_on_nonempty [simp]: "split_on s xs \<noteq> []"
  by (induction xs) (auto split: list.splits)

lemma split_on_no_sep: "s \<notin> set xs \<Longrightarrow> split_on s xs = [xs]"
  by (induction xs) auto

lemma split_on_append_sep: "s \<notin> set xs \<Longrightarrow> split_on s (xs @ s # ys) = xs # split_on s ys"
  by (induction xs) auto

lemma split_on_snoc_sep: "split_on s (xs @ [s]) = split_on s xs @ [[]]"
proof (induction xs)
  case (Cons x xs)
  then show ?case by (cases "split_on s xs") auto
qed simp

lemma split_on_pieces: "p \<in> set (split_on s xs) \<Longrightarrow> s \<notin> set p \<and> set p \<subseteq> set xs"
proof (induction xs arbitrary: p)
  case (Cons x xs)
  then show ?case by (cases "split_on s xs") (fastforce split: if_splits)+
qed simp

lemma sum_list_map_const_le: "(\<And>x. x \<in> set xs \<Longrightarrow> f x \<le> (c::nat)) \<Longrightarrow> sum_list (map f xs) \<le> c * length xs"
  by (induction xs) (auto simp: add_mono)

end
