(* ===== verification/Net_Text.thy ===== *)
theory Net_Text
  imports Moto_Prelude
begin

text \<open>
  The text of numbers, addresses and host-port pairs in Go's standard library, as far as the
  gateway uses it: \<^verbatim>\<open>strconv.Itoa\<close>, \<^verbatim>\<open>strconv.ParseUint(s, 10, 16)\<close>, \<^verbatim>\<open>net.IP.String\<close>,
  \<^verbatim>\<open>netip.Addr.String\<close>, \<^verbatim>\<open>netip.ParseAddr\<close> and \<^verbatim>\<open>net.JoinHostPort\<close>. Parsing is the inverse of
  printing for ports, IPv4 and IPv6 addresses.
\<close>

section \<open>Printing\<close>

function nat_string :: "nat \<Rightarrow> string" where
  "nat_string n = (if n < 10 then [char_of (48 + n)] else nat_string (n div 10) @ [char_of (48 + n mod 10)])"
  by pat_completeness auto
termination by (relation "measure id") auto

declare nat_string.simps [simp del]

definition hex_digit :: "nat \<Rightarrow> char" where
  "hex_digit d = (if d < 10 then char_of (48 + d) else char_of (87 + d))"

function hex_string :: "nat \<Rightarrow> string" where
  "hex_string n = (if n < 16 then [hex_digit n] else hex_string (n div 16) @ [hex_digit (n mod 16)])"
  by pat_completeness auto
termination by (relation "measure id") auto

declare hex_string.simps [simp del]

fun join_with :: "string \<Rightarrow> string list \<Rightarrow> string" where
  "join_with sep [] = ''''"
| "join_with sep [x] = x"
| "join_with sep (x # xs) = x @ sep @ join_with sep xs"

definition ipv4_string :: "byte list \<Rightarrow> string" where
  "ipv4_string bs = join_with ''.'' (map (nat_string \<circ> unat) bs)"

fun groups16 :: "byte list \<Rightarrow> nat list" where
  "groups16 (a # b # rest) = (unat a * 256 + unat b) # groups16 rest"
| "groups16 _ = []"

text \<open>The first longest run of at least two zero groups, as its bounds; \<open>(255, 255)\<close> when there is
  none.\<close>

definition zero_run_end :: "nat list \<Rightarrow> nat \<Rightarrow> nat" where
  "zero_run_end gs i = i + length (takeWhile (\<lambda>g. g = 0) (drop i gs))"

definition zero_run :: "nat list \<Rightarrow> nat \<times> nat" where
  "zero_run gs = fold (\<lambda>i (s, e). let j = zero_run_end gs i
     in if j - i \<ge> 2 \<and> j - i > e - s then (i, j) else (s, e)) [0..<8] (255, 255)"

definition ipv6_string :: "byte list \<Rightarrow> string" where
  "ipv6_string bs =
     (let gs = groups16 bs; (s, e) = zero_run gs; hex = map hex_string gs
      in if s = 255 then join_with '':'' hex
         else join_with '':'' (take s hex) @ ''::'' @ join_with '':'' (drop e hex))"

text \<open>\<^verbatim>\<open>net.IP.String\<close> on four or sixteen bytes; an IPv4-mapped address is printed as IPv4.\<close>

definition ip_string :: "byte list \<Rightarrow> string" where
  "ip_string bs =
     (if length bs = 4 then ipv4_string bs
      else if take 12 bs = replicate 10 0 @ [255, 255] then ipv4_string (drop 12 bs)
      else ipv6_string bs)"

definition joinHostPort :: "string \<Rightarrow> string \<Rightarrow> string" where
  "joinHostPort host port =
     (if CHR '':'' \<in> set host then ''['' @ host @ '']:'' @ port else host @ '':'' @ port)"

section \<open>Parsing\<close>

definition is_digit :: "char \<Rightarrow> bool" where
  "is_digit c \<longleftrightarrow> 48 \<le> (of_char c :: nat) \<and> (of_char c :: nat) \<le> 57"

definition digits_value :: "string \<Rightarrow> nat" where
  "digits_value s = foldl (\<lambda>n c. n * 10 + (of_char c - 48)) 0 s"

text \<open>\<^verbatim>\<open>strconv.ParseUint(s, 10, 16)\<close>: base ten takes digits only, no sign and no underscore.\<close>

definition parse_uint16 :: "string \<Rightarrow> nat option" where
  "parse_uint16 s = (if s = [] \<or> \<not> list_all is_digit s then None
     else let n = digits_value s in if n \<le> 65535 then Some n else None)"

text \<open>\<^verbatim>\<open>netip\<close>'s IPv4 fields: four decimal numbers below 256 without leading zeroes.\<close>

definition parse_octet :: "string \<Rightarrow> byte option" where
  "parse_octet s = (if s = [] \<or> \<not> list_all is_digit s \<or> length s > 1 \<and> hd s = CHR ''0'' \<or> digits_value s > 255
     then None else Some (word_of_nat (digits_value s)))"

fun all_some :: "'a option list \<Rightarrow> 'a list option" where
  "all_some [] = Some []"
| "all_some (None # xs) = None"
| "all_some (Some x # xs) = map_option ((#) x) (all_some xs)"

definition parse_ipv4 :: "string \<Rightarrow> byte list option" where
  "parse_ipv4 s = (let fields = split_on CHR ''.'' s
     in if length fields \<noteq> 4 then None else all_some (map parse_octet fields))"

text \<open>The loop of \<^verbatim>\<open>netip\<close>'s IPv6 parser: groups of one to four hex digits, at most one \<open>::\<close> whose
  place is remembered, and an IPv4 tail.\<close>

definition hex_value :: "char \<Rightarrow> nat option" where
  "hex_value c = (let n = (of_char c :: nat)
     in if 48 \<le> n \<and> n \<le> 57 then Some (n - 48)
        else if 97 \<le> n \<and> n \<le> 102 then Some (n - 87)
        else if 65 \<le> n \<and> n \<le> 70 then Some (n - 55) else None)"

definition is_hex :: "char \<Rightarrow> bool" where
  "is_hex c \<longleftrightarrow> hex_value c \<noteq> None"

definition group_value :: "string \<Rightarrow> nat" where
  "group_value s = foldl (\<lambda>n c. n * 16 + the (hex_value c)) 0 s"

function v6_loop :: "string \<Rightarrow> byte list \<Rightarrow> nat option \<Rightarrow> (byte list \<times> nat option) option" where
  "v6_loop s ip ell =
     (if length ip \<ge> 16 then (if s = [] then Some (ip, ell) else None)
      else
        let ds = takeWhile is_hex s; rest = dropWhile is_hex s
        in if ds = [] \<or> length ds > 4 then None
           else if rest \<noteq> [] \<and> hd rest = CHR ''.'' then
             (if ell = None \<and> length ip \<noteq> 12 \<or> length ip + 4 > 16 then None
              else map_option (\<lambda>q. (ip @ q, ell)) (parse_ipv4 s))
           else
             let ip = ip @ enc16 (group_value ds)
             in case rest of
               [] \<Rightarrow> Some (ip, ell)
             | c # rest \<Rightarrow>
                 if c \<noteq> CHR '':'' \<or> rest = [] then None
                 else if hd rest = CHR '':'' then
                   (if ell \<noteq> None then None
                    else if tl rest = [] then Some (ip, Some (length ip))
                    else v6_loop (tl rest) ip (Some (length ip)))
                 else v6_loop rest ip ell)"
  by pat_completeness auto
termination
proof (relation "measure (\<lambda>(s, _, _). length s)", goal_cases)
  case (2 s ip ell ds rest ip' c r)
  then have "c # r = dropWhile is_hex s" by simp
  then have "length (c # r) \<le> length s" by (simp only: length_dropWhile_le)
  then show ?case by (cases r) auto
next
  case (3 s ip ell ds rest ip' c r)
  then have "c # r = dropWhile is_hex s" by simp
  then have "length (c # r) \<le> length s" by (simp only: length_dropWhile_le)
  then show ?case by (cases r) auto
qed simp

declare v6_loop.simps [simp del]

definition v6_expand :: "byte list \<times> nat option \<Rightarrow> byte list option" where
  "v6_expand r = (case r of (ip, ell) \<Rightarrow>
     if length ip < 16 then
       (case ell of None \<Rightarrow> None | Some e \<Rightarrow> Some (take e ip @ replicate (16 - length ip) 0 @ drop e ip))
     else if ell = None then Some ip else None)"

definition parse_ipv6_bytes :: "string \<Rightarrow> byte list option" where
  "parse_ipv6_bytes s =
     (if has_prefix s ''::'' then
        (if length s = 2 then Some (replicate 16 0) else Option.bind (v6_loop (drop 2 s) [] (Some 0)) v6_expand)
      else Option.bind (v6_loop s [] None) v6_expand)"

text \<open>\<^verbatim>\<open>netip.Addr\<close>: the zero value is invalid; an IPv6 address may carry a zone.\<close>

datatype addr = NoAddr | Addr4 "byte list" | Addr6 "byte list" string

definition parse_ipv6 :: "string \<Rightarrow> addr option" where
  "parse_ipv6 s =
     (let host = takeWhile (\<lambda>c. c \<noteq> CHR ''%'') s; tail = dropWhile (\<lambda>c. c \<noteq> CHR ''%'') s
      in if length tail = 1 then None else map_option (\<lambda>b. Addr6 b (tl tail)) (parse_ipv6_bytes host))"

definition parse_addr :: "string \<Rightarrow> addr option" where
  "parse_addr s = (case find (\<lambda>c. c \<in> set ''.:%'') s of
       Some c \<Rightarrow> if c = CHR ''.'' then map_option Addr4 (parse_ipv4 s)
         else if c = CHR '':'' then parse_ipv6 s else None
     | None \<Rightarrow> None)"

definition is4 :: "addr \<Rightarrow> bool" where "is4 a = (case a of Addr4 b \<Rightarrow> True | _ \<Rightarrow> False)"
definition is6 :: "addr \<Rightarrow> bool" where "is6 a = (case a of Addr6 b z \<Rightarrow> True | _ \<Rightarrow> False)"
definition mapped4 :: "byte list \<Rightarrow> bool" where "mapped4 b \<longleftrightarrow> take 12 b = replicate 10 0 @ [255, 255]"
definition is4in6 :: "addr \<Rightarrow> bool" where "is4in6 a = (case a of Addr6 b z \<Rightarrow> mapped4 b | _ \<Rightarrow> False)"
definition zone_of :: "addr \<Rightarrow> string" where "zone_of a = (case a of Addr6 b z \<Rightarrow> z | _ \<Rightarrow> '''')"

lemmas addr_defs = is4_def is6_def is4in6_def zone_of_def

text \<open>A well-formed address has the length of its family.\<close>

fun addr_ok :: "addr \<Rightarrow> bool" where
  "addr_ok NoAddr = True"
| "addr_ok (Addr4 b) \<longleftrightarrow> length b = 4"
| "addr_ok (Addr6 b z) \<longleftrightarrow> length b = 16"

text \<open>\<^verbatim>\<open>netip.Addr.String\<close>.\<close>

fun addr_string :: "addr \<Rightarrow> string" where
  "addr_string NoAddr = ''invalid IP''"
| "addr_string (Addr4 b) = ipv4_string b"
| "addr_string (Addr6 b z) =
     (if mapped4 b then ''::ffff:'' @ ipv4_string (drop 12 b) else ipv6_string b)
     @ (if z = '''' then '''' else ''%'' @ z)"

section \<open>Parsing inverts printing\<close>

lemma digits_value_snoc [simp]: "digits_value (s @ [c]) = digits_value s * 10 + (of_char c - 48)"
  by (simp add: digits_value_def)

lemma nat_string_ok:
  "nat_string n \<noteq> [] \<and> list_all is_digit (nat_string n) \<and> digits_value (nat_string n) = n
   \<and> (length (nat_string n) > 1 \<longrightarrow> hd (nat_string n) \<noteq> CHR ''0'') \<and> (n > 0 \<longrightarrow> hd (nat_string n) \<noteq> CHR ''0'')"
proof (induction n rule: nat_string.induct)
  case (1 n)
  have d: "is_digit (char_of (48 + k))" "of_char (char_of (48 + k) :: char) - (48::nat) = k" if "k < 10" for k :: nat
    using that by (simp_all add: is_digit_def of_char_of)
  have z: "(char_of (48 + k) :: char) \<noteq> CHR ''0''" if "0 < k" "k < 10" for k :: nat
  proof
    assume "(char_of (48 + k) :: char) = CHR ''0''"
    then have "(of_char (char_of (48 + k) :: char) :: nat) = 48" by simp
    then show False using that by (simp add: of_char_of)
  qed
  show ?case
  proof (cases "n < 10")
    case True
    then show ?thesis using d z by (subst (1 2 3 4 5 6) nat_string.simps) (auto simp: digits_value_def)
  next
    case False
    then have IH: "nat_string (n div 10) \<noteq> []" "list_all is_digit (nat_string (n div 10))"
      "digits_value (nat_string (n div 10)) = n div 10" "hd (nat_string (n div 10)) \<noteq> CHR ''0''"
      using 1 by auto
    have s: "nat_string n = nat_string (n div 10) @ [char_of (48 + n mod 10)]"
      using False by (subst nat_string.simps) simp
    show ?thesis unfolding s using IH d[of "n mod 10"] by simp
  qed
qed

lemma parse_uint16_nat_string: "n \<le> 65535 \<Longrightarrow> parse_uint16 (nat_string n) = Some n"
  using nat_string_ok[of n] by (simp add: parse_uint16_def)

lemma parse_octet_nat_string: "parse_octet (nat_string (unat b)) = Some b"
proof -
  have "unat b < 256" using unsigned_less[of b, where 'a = nat] by simp
  then show ?thesis using nat_string_ok[of "unat b"] by (simp add: parse_octet_def)
qed

lemma is_digit_not_sep: "is_digit c \<Longrightarrow> c \<noteq> CHR ''.'' \<and> c \<noteq> CHR '':'' \<and> c \<noteq> CHR '' ''"
  by (auto simp: is_digit_def)

lemma nat_string_chars: "c \<in> set (nat_string n) \<Longrightarrow> is_digit c"
  using nat_string_ok[of n] by (simp add: list_all_iff)

lemma split_on_join:
  assumes "xs \<noteq> []" "\<And>x. x \<in> set xs \<Longrightarrow> c \<notin> set x"
  shows "split_on c (join_with [c] xs) = xs"
  using assms
proof (induction "[c]" xs rule: join_with.induct)
  case (3 x y ys)
  then show ?case by (simp add: split_on_append_sep del: join_with.simps(3)) (simp add: split_on_append_sep)
qed (auto simp: split_on_no_sep)

lemma all_some_map: "(\<And>x. x \<in> set xs \<Longrightarrow> f x = Some (g x)) \<Longrightarrow> all_some (map f xs) = Some (map g xs)"
  by (induction xs) auto

lemma parse_ipv4_string: "length b = 4 \<Longrightarrow> parse_ipv4 (ipv4_string b) = Some b"
proof -
  assume b: "length b = 4"
  have "split_on CHR ''.'' (ipv4_string b) = map (nat_string \<circ> unat) b"
    unfolding ipv4_string_def using b by (intro split_on_join) (auto dest!: nat_string_chars is_digit_not_sep)
  moreover have "all_some (map (parse_octet \<circ> (nat_string \<circ> unat)) b) = Some (map id b)"
    by (rule all_some_map) (simp add: parse_octet_nat_string)
  ultimately show ?thesis using b by (simp add: parse_ipv4_def)
qed

lemma set_join_with: "set (join_with sep xs) \<subseteq> set sep \<union> (\<Union>x\<in>set xs. set x)"
  by (induction sep xs rule: join_with.induct) auto

lemma ipv4_string_chars: "c \<in> set (ipv4_string b) \<Longrightarrow> is_digit c \<or> c = CHR ''.''"
  using set_join_with[of "''.''" "map (nat_string \<circ> unat) b"]
  by (auto simp: ipv4_string_def dest: nat_string_chars)

lemma find_first:
  "x \<in> set xs \<Longrightarrow> P x \<Longrightarrow> (\<And>y. y \<in> set xs \<Longrightarrow> P y \<Longrightarrow> y = x) \<Longrightarrow> find P xs = Some x"
proof (induction xs)
  case (Cons a xs)
  show ?case
  proof (cases "P a")
    case True
    then show ?thesis using Cons.prems(3)[of a] by simp
  next
    case False
    then have "x \<in> set xs" using Cons.prems(1,2) by auto
    moreover have "y = x" if "y \<in> set xs" "P y" for y using Cons.prems(3)[of y] that by simp
    ultimately have "find P xs = Some x" using Cons.IH Cons.prems(2) by blast
    then show ?thesis using False by simp
  qed
qed simp

lemma parse_addr4_string: "length b = 4 \<Longrightarrow> parse_addr (ipv4_string b) = Some (Addr4 b)"
proof -
  assume b: "length b = 4"
  have dot: "CHR ''.'' \<in> set (ipv4_string b)"
    using b by (auto simp: ipv4_string_def length_Suc_conv numeral_eq_Suc)
  have "find (\<lambda>c. c \<in> set ''.:%'') (ipv4_string b) = Some CHR ''.''"
    by (rule find_first[OF dot]) (auto dest!: ipv4_string_chars simp: is_digit_def)
  then show ?thesis by (simp add: parse_addr_def parse_ipv4_string[OF b])
qed

subsection \<open>IPv6\<close>

lemma group_value_snoc [simp]: "group_value (s @ [c]) = group_value s * 16 + the (hex_value c)"
  by (simp add: group_value_def)

lemma hex_digit_value: "d < 16 \<Longrightarrow> hex_value (hex_digit d) = Some d"
  by (auto simp: hex_value_def hex_digit_def of_char_of Let_def)

lemma hex_string_ok:
  "hex_string n \<noteq> [] \<and> list_all is_hex (hex_string n) \<and> group_value (hex_string n) = n"
proof (induction n rule: hex_string.induct)
  case (1 n)
  show ?case
  proof (cases "n < 16")
    case True
    then show ?thesis
      by (subst (1 2 3) hex_string.simps) (simp add: is_hex_def hex_digit_value group_value_def)
  next
    case False
    have s: "hex_string n = hex_string (n div 16) @ [hex_digit (n mod 16)]"
      using False by (subst hex_string.simps) simp
    show ?thesis unfolding s using 1[OF False] by (simp add: is_hex_def hex_digit_value)
  qed
qed

lemma hex_string_len: "n < 16 ^ Suc k \<Longrightarrow> length (hex_string n) \<le> Suc k"
proof (induction k arbitrary: n)
  case 0
  then show ?case by (subst hex_string.simps) simp
next
  case (Suc k)
  then have "n div 16 < 16 ^ Suc k" by (simp add: div_less_iff_less_mult mult.commute)
  then show ?case using Suc.IH by (subst hex_string.simps) fastforce
qed

lemma hex_string_len4: "n < 65536 \<Longrightarrow> length (hex_string n) \<le> 4"
proof -
  assume "n < 65536"
  moreover have "16 ^ Suc 3 = (65536::nat)" by simp
  ultimately have "length (hex_string n) \<le> Suc 3" by (intro hex_string_len) linarith
  then show ?thesis by simp
qed

lemma hex_string_chars: "c \<in> set (hex_string n) \<Longrightarrow> is_hex c"
  using hex_string_ok[of n] by (simp add: list_all_iff)

lemma colon_not_hex [simp]: "\<not> is_hex CHR '':''" "\<not> is_hex CHR ''.''" "\<not> is_hex CHR ''%''"
  by (simp_all add: is_hex_def hex_value_def)

lemma span_hex:
  "takeWhile is_hex (hex_string n @ CHR '':'' # t) = hex_string n"
  "dropWhile is_hex (hex_string n @ CHR '':'' # t) = CHR '':'' # t"
  "takeWhile is_hex (hex_string n) = hex_string n"
  "dropWhile is_hex (hex_string n) = []"
  using hex_string_chars by (simp_all add: takeWhile_append dropWhile_append)

lemma loop_last: "length ip < 16 \<Longrightarrow> g < 65536 \<Longrightarrow> v6_loop (hex_string g) ip ell = Some (ip @ enc16 g, ell)"
  using hex_string_ok[of g] hex_string_len4[of g] by (subst v6_loop.simps) (simp add: span_hex Let_def)

lemma loop_next:
  "length ip < 16 \<Longrightarrow> g < 65536 \<Longrightarrow> t \<noteq> [] \<Longrightarrow> hd t \<noteq> CHR '':'' \<Longrightarrow>
   v6_loop (hex_string g @ CHR '':'' # t) ip ell = v6_loop t (ip @ enc16 g) ell"
  using hex_string_ok[of g] hex_string_len4[of g] by (subst v6_loop.simps) (simp add: span_hex Let_def)

lemma loop_ellipsis:
  "length ip < 16 \<Longrightarrow> g < 65536 \<Longrightarrow> v6_loop (hex_string g @ CHR '':'' # CHR '':'' # t) ip None
     = (if t = [] then Some (ip @ enc16 g, Some (length ip + 2)) else v6_loop t (ip @ enc16 g) (Some (length ip + 2)))"
  using hex_string_ok[of g] hex_string_len4[of g] by (subst v6_loop.simps) (simp add: span_hex Let_def)

definition groups_bytes :: "nat list \<Rightarrow> byte list" where
  "groups_bytes gs = concat (map enc16 gs)"

lemma groups_bytes_simps [simp]:
  "groups_bytes [] = []" "groups_bytes (g # gs) = enc16 g @ groups_bytes gs"
  "groups_bytes (xs @ ys) = groups_bytes xs @ groups_bytes ys" "length (groups_bytes gs) = 2 * length gs"
  by (induction gs; simp add: groups_bytes_def)+

lemma join_hex_hd:
  "xs \<noteq> [] \<Longrightarrow> join_with '':'' (map hex_string xs) \<noteq> [] \<and> hd (join_with '':'' (map hex_string xs) @ t) \<noteq> CHR '':''"
proof (cases xs)
  case (Cons g gs)
  have "hd (hex_string g) \<noteq> CHR '':''" "hex_string g \<noteq> []"
    using hex_string_ok[of g] hex_string_chars[of "hd (hex_string g)" g] by auto
  then show ?thesis using Cons by (cases gs) auto
qed simp

lemma loop_groups:
  assumes "gs \<noteq> []" "length ip + 2 * length gs \<le> 16" "\<forall>g\<in>set gs. g < 65536"
  shows "v6_loop (join_with '':'' (map hex_string gs)) ip ell = Some (ip @ groups_bytes gs, ell)"
  using assms
proof (induction gs arbitrary: ip)
  case (Cons g gs)
  then show ?case using join_hex_hd[of gs "''''"] by (cases gs) (auto simp: loop_last loop_next)
qed simp

lemma loop_groups_ellipsis:
  assumes "gs \<noteq> []" "length ip + 2 * length gs \<le> 16" "\<forall>g\<in>set gs. g < 65536"
  shows "v6_loop (join_with '':'' (map hex_string gs) @ CHR '':'' # CHR '':'' # t) ip None
    = (let ip' = ip @ groups_bytes gs in if t = [] then Some (ip', Some (length ip')) else v6_loop t ip' (Some (length ip')))"
  using assms
proof (induction gs arbitrary: ip)
  case (Cons g gs)
  then show ?case using join_hex_hd[of gs "CHR '':'' # CHR '':'' # t"]
    by (cases gs) (auto simp: loop_ellipsis loop_next Let_def)
qed simp

lemma enc16_unat: "enc16 (unat a * 256 + unat b) = [a, b :: byte]"
proof -
  have "unat a < 256" "unat b < 256"
    using unsigned_less[of a, where 'a = nat] unsigned_less[of b, where 'a = nat] by simp_all
  then show ?thesis by (simp add: enc16_def)
qed

lemma groups16_ok:
  "even (length bs) \<Longrightarrow> groups_bytes (groups16 bs) = bs \<and> length (groups16 bs) = length bs div 2 \<and> (\<forall>g\<in>set (groups16 bs). g < 65536)"
proof (induction bs rule: groups16.induct)
  case (1 a b rest)
  have "unat a < 256" "unat b < 256"
    using unsigned_less[of a, where 'a = nat] unsigned_less[of b, where 'a = nat] by simp_all
  then show ?case using 1 by (simp add: enc16_unat)
qed auto

definition run_ok :: "nat list \<Rightarrow> nat \<times> nat \<Rightarrow> bool" where
  "run_ok gs r = (case r of (s, e) \<Rightarrow> s = 255 \<or>
     s < e \<and> e \<le> length gs \<and> gs = take s gs @ replicate (e - s) 0 @ drop e gs)"

lemma zero_run_end_ok:
  assumes "i < zero_run_end gs i" shows "run_ok gs (i, zero_run_end gs i)"
proof -
  let ?z = "takeWhile (\<lambda>g. g = 0) (drop i gs)"
  have e: "zero_run_end gs i = i + length ?z" by (simp add: zero_run_end_def)
  have z: "?z = replicate (length ?z) 0" by (rule replicate_eqI) (auto dest: set_takeWhileD)
  have d: "drop i gs = ?z @ drop (length ?z) (drop i gs)"
    by (metis append_take_drop_id takeWhile_eq_take)
  have l: "i + length ?z \<le> length gs"
    using length_takeWhile_le[of "\<lambda>g. g = 0" "drop i gs"] assms e by (cases "i \<le> length gs") auto
  have "gs = take i gs @ replicate (length ?z) 0 @ drop (i + length ?z) gs"
    using d z by (metis append_take_drop_id drop_drop add.commute)
  then show ?thesis using assms l unfolding run_ok_def e by simp
qed

lemma zero_run_ok: "run_ok gs (zero_run gs)"
proof -
  have "run_ok gs (fold (\<lambda>i (s, e). let j = zero_run_end gs i
     in if j - i \<ge> 2 \<and> j - i > e - s then (i, j) else (s, e)) xs (255, 255))" for xs
  proof (induction xs rule: rev_induct)
    case Nil
    then show ?case by (simp add: run_ok_def)
  next
    case (snoc i xs)
    then show ?case using zero_run_end_ok[of i gs] by (auto simp: Let_def split: prod.splits)
  qed
  then show ?thesis by (simp add: zero_run_def)
qed

lemma groups_bytes_zero: "groups_bytes (replicate n 0) = replicate (2 * n) 0"
  by (induction n) (auto simp: enc16_def)

lemma parse_ipv6_string:
  assumes b: "length b = 16" shows "parse_ipv6_bytes (ipv6_string b) = Some b"
proof -
  define gs where "gs = groups16 b"
  have gs: "groups_bytes gs = b" "length gs = 8" "\<forall>g\<in>set gs. g < 65536"
    using groups16_ok[of b] b by (auto simp: gs_def)
  obtain s e where r: "zero_run gs = (s, e)" by (cases "zero_run gs")
  have str: "ipv6_string b = (if s = 255 then join_with '':'' (map hex_string gs)
     else join_with '':'' (map hex_string (take s gs)) @ ''::'' @ join_with '':'' (map hex_string (drop e gs)))"
    by (simp add: ipv6_string_def gs_def[symmetric] r Let_def take_map drop_map)
  have no: "\<not> has_prefix (join_with '':'' (map hex_string xs) @ t) ''::''" if "xs \<noteq> []" for xs t
    using join_hex_hd[OF that, of t] by (auto simp: has_prefix_iff)
  show ?thesis
  proof (cases "s = 255")
    case True
    have "gs \<noteq> []" using gs by auto
    then show ?thesis using True str no[of gs "''''"] loop_groups[of gs "[]" None] gs b
      by (simp add: parse_ipv6_bytes_def v6_expand_def)
  next
    case False
    then have run: "s < e" "e \<le> 8" "gs = take s gs @ replicate (e - s) 0 @ drop e gs"
      using zero_run_ok[of gs] gs(2) unfolding r run_ok_def by auto
    have bb: "b = groups_bytes (take s gs) @ replicate (2 * (e - s)) 0 @ groups_bytes (drop e gs)"
      using arg_cong[OF run(3), of groups_bytes] gs(1) by (simp add: groups_bytes_zero)
    have sm: "\<forall>g\<in>set (take s gs). g < 65536" "\<forall>g\<in>set (drop e gs). g < 65536"
      using gs(3) set_take_subset[of s gs] set_drop_subset[of e gs] by blast+
    have tail: "v6_loop (join_with '':'' (map hex_string (drop e gs))) ip ell = Some (ip @ groups_bytes (drop e gs), ell)"
      if "drop e gs \<noteq> []" "length ip \<le> 2 * s" for ip ell
      using that run sm gs(2) by (intro loop_groups) auto
    have tail_ne: "join_with '':'' (map hex_string (drop e gs)) = [] \<longleftrightarrow> drop e gs = []"
      using join_hex_hd[of "drop e gs"] by (cases "drop e gs") auto
    show ?thesis
    proof (cases "s = 0")
      case True
      then have "ipv6_string b = ''::'' @ join_with '':'' (map hex_string (drop e gs))" using False str by simp
      then show ?thesis using True tail[of "[]"] tail_ne bb gs(2) run
        by (cases "drop e gs = []") (auto simp: parse_ipv6_bytes_def has_prefix_iff v6_expand_def)
    next
      case s: False
      then have ne: "take s gs \<noteq> []" using gs by auto
      have "v6_loop (ipv6_string b) [] None = Some (groups_bytes (take s gs) @ groups_bytes (drop e gs), Some (2 * s))"
        using loop_groups_ellipsis[OF ne _ sm(1), of "[]" "join_with '':'' (map hex_string (drop e gs))"]
          tail[of "groups_bytes (take s gs)" "Some (2 * s)"] tail_ne False str run gs(2)
        by (cases "drop e gs = []") (auto simp: min_def)
      moreover have "v6_expand (groups_bytes (take s gs) @ groups_bytes (drop e gs), Some (2 * s)) = Some b"
      proof -
        have "16 - 2 * (length (take s gs) + length (drop e gs)) = 2 * (e - s)" using run gs(2) by auto
        then show ?thesis using run gs(2) by (subst bb) (auto simp: v6_expand_def)
      qed
      moreover have "\<not> has_prefix (ipv6_string b) ''::''" using no[OF ne] False str by simp
      ultimately show ?thesis by (simp add: parse_ipv6_bytes_def)
    qed
  qed
qed

lemma ipv6_string_chars: "c \<in> set (ipv6_string b) \<Longrightarrow> is_hex c \<or> c = CHR '':''"
proof -
  assume c: "c \<in> set (ipv6_string b)"
  obtain s e where "zero_run (groups16 b) = (s, e)" by (cases "zero_run (groups16 b)")
  then obtain xs where "set xs \<subseteq> hex_string ` UNIV" "c \<in> set (join_with '':'' xs) \<or> c = CHR '':''"
    using c unfolding ipv6_string_def Let_def
    by (auto split: if_splits) (metis image_subsetI rangeI set_map set_take_subset set_drop_subset subset_trans)+
  then show ?thesis using set_join_with[of "'':''" xs] by (fastforce dest: hex_string_chars)
qed

lemma join_with_sep: "length xs > 1 \<Longrightarrow> sep = [c] \<Longrightarrow> c \<in> set (join_with sep xs)"
  by (induction sep xs rule: join_with.induct) auto

lemma ipv6_string_colon: "length b = 16 \<Longrightarrow> CHR '':'' \<in> set (ipv6_string b)"
  using groups16_ok[of b] by (cases "zero_run (groups16 b)") (auto simp: ipv6_string_def Let_def join_with_sep)

lemma parse_addr6_string: "length b = 16 \<Longrightarrow> parse_addr (ipv6_string b) = Some (Addr6 b [])"
proof -
  assume b: "length b = 16"
  have sep: "c \<noteq> CHR ''.'' \<and> c \<noteq> CHR ''%''" if "c \<in> set (ipv6_string b)" for c
    using ipv6_string_chars[OF that] by (auto simp: is_hex_def hex_value_def)
  have "find (\<lambda>c. c \<in> set ''.:%'') (ipv6_string b) = Some CHR '':''"
    by (rule find_first[OF ipv6_string_colon[OF b]]) (use sep in auto)
  moreover have "takeWhile (\<lambda>c. c \<noteq> CHR ''%'') (ipv6_string b) = ipv6_string b"
    "dropWhile (\<lambda>c. c \<noteq> CHR ''%'') (ipv6_string b) = []" using sep by auto
  ultimately show ?thesis
    by (simp add: parse_addr_def parse_ipv6_def parse_ipv6_string[OF b] Let_def del: takeWhile_eq_all_conv dropWhile_eq_Nil_conv)
qed

text \<open>Parsing the printed form of an address without a zone gives the address back, unless it is
  an IPv4-mapped one, which is printed in the mixed notation.\<close>

lemma parse_addr_string:
  "addr_ok a \<Longrightarrow> a \<noteq> NoAddr \<Longrightarrow> zone_of a = [] \<Longrightarrow> \<not> is4in6 a \<Longrightarrow> parse_addr (addr_string a) = Some a"
  by (cases a) (auto simp: addr_defs parse_addr4_string parse_addr6_string)

lemma addr_string_chars:
  "zone_of a = [] \<Longrightarrow> a \<noteq> NoAddr \<Longrightarrow> \<not> is4in6 a \<Longrightarrow> c \<in> set (addr_string a) \<Longrightarrow> is_hex c \<or> c = CHR '':'' \<or> c = CHR ''.''"
  by (cases a) (auto simp: addr_defs is_hex_def hex_value_def is_digit_def dest!: ipv4_string_chars ipv6_string_chars)

lemma nat_string_len: "n < 10 ^ Suc k \<Longrightarrow> length (nat_string n) \<le> Suc k"
proof (induction k arbitrary: n)
  case 0
  then show ?case by (subst nat_string.simps) simp
next
  case (Suc k)
  then have "n div 10 < 10 ^ Suc k" by (simp add: div_less_iff_less_mult mult.commute)
  then show ?case using Suc.IH by (subst nat_string.simps) fastforce
qed

lemma length_join_with: "(\<And>x. x \<in> set xs \<Longrightarrow> length x \<le> k) \<Longrightarrow> xs \<noteq> [] \<Longrightarrow> length (join_with [c] xs) < (k + 1) * length xs"
  by (induction "[c]" xs rule: join_with.induct) (auto simp: algebra_simps, fastforce)

lemma addr_string_len:
  "addr_ok a \<Longrightarrow> zone_of a = [] \<Longrightarrow> a \<noteq> NoAddr \<Longrightarrow> \<not> is4in6 a \<Longrightarrow> length (addr_string a) \<le> 39"
proof (cases a)
  case (Addr4 b)
  assume "addr_ok a"
  have "length (nat_string (unat x)) \<le> 3" for x :: byte
  proof -
    have "unat x < 256" using unsigned_less[of x, where 'a = nat] by simp
    then have "length (nat_string (unat x)) \<le> Suc 2" by (intro nat_string_len) simp
    then show ?thesis by simp
  qed
  then have "length (ipv4_string b) < (3 + 1) * length (map (nat_string \<circ> unat) b)"
    unfolding ipv4_string_def using Addr4 \<open>addr_ok a\<close> by (intro length_join_with) auto
  then show ?thesis using Addr4 \<open>addr_ok a\<close> by simp
next
  case (Addr6 b z)
  assume a: "addr_ok a" "zone_of a = []" "\<not> is4in6 a"
  have g: "length (groups16 b) = 8" "\<forall>g\<in>set (groups16 b). g < 65536" using groups16_ok[of b] a Addr6 by auto
  have len: "length (join_with '':'' xs) \<le> 5 * length xs - 1" if "set xs \<subseteq> set (map hex_string (groups16 b))" for xs
    using length_join_with[of xs 4 "CHR '':''"] that hex_string_len4 g(2) by (cases "xs = []") fastforce+
  have "length (ipv6_string b) \<le> 39"
  proof -
    obtain s e where r: "zero_run (groups16 b) = (s, e)" by (cases "zero_run (groups16 b)")
    have "s = 255 \<or> s < e \<and> e \<le> 8" using zero_run_ok[of "groups16 b"] g(1) by (auto simp: r run_ok_def)
    moreover have "length (join_with '':'' (take s (map hex_string (groups16 b)))) \<le> 5 * min s 8 - 1"
      using len[of "take s (map hex_string (groups16 b))"] set_take_subset[of s "map hex_string (groups16 b)"] g(1)
      by (simp add: min.commute)
    moreover have "length (join_with '':'' (drop e (map hex_string (groups16 b)))) \<le> 5 * (8 - e) - 1"
      using len[of "drop e (map hex_string (groups16 b))"] set_drop_subset[of e "map hex_string (groups16 b)"] g(1) by simp
    ultimately show ?thesis using len[of "map hex_string (groups16 b)"] g(1)
      by (auto simp: ipv6_string_def r Let_def min_def split: if_splits)
  qed
  then show ?thesis using Addr6 a by (simp add: addr_defs)
qed simp

section \<open>Parsed addresses are well formed\<close>

lemma all_some_length: "all_some xs = Some ys \<Longrightarrow> length ys = length xs"
  by (induction xs arbitrary: ys rule: all_some.induct) auto

lemma parse_ipv4_length: "parse_ipv4 s = Some b \<Longrightarrow> length b = 4"
  by (auto simp: parse_ipv4_def Let_def split: if_splits dest: all_some_length)

lemma v6_loop_length:
  "v6_loop s ip ell = Some (ip', ell') \<Longrightarrow> even (length ip) \<Longrightarrow> length ip \<le> 16 \<Longrightarrow> (\<forall>e. ell = Some e \<longrightarrow> e \<le> length ip) \<Longrightarrow>
   length ip' \<le> 16 \<and> (\<forall>e. ell' = Some e \<longrightarrow> e \<le> length ip')"
proof (induction s ip ell rule: v6_loop.induct)
  case (1 s ip ell)
  define ds rest where "ds = takeWhile is_hex s" and "rest = dropWhile is_hex s"
  note simps = v6_loop.simps[of s ip ell, folded ds_def rest_def]
  let ?ip = "ip @ enc16 (group_value ds)"
  consider (full) "16 \<le> length ip" | (dot) "length ip < 16" "rest \<noteq> []" "hd rest = CHR ''.''"
    | (last) "length ip < 16" "rest = []"
    | (step) c t where "length ip < 16" "rest = c # t" "hd rest \<noteq> CHR ''.''"
    by (cases "16 \<le> length ip"; cases rest) auto
  then show ?case
  proof cases
    case full
    then show ?thesis using 1 simps by (auto split: if_splits)
  next
    case dot
    then show ?thesis using 1(3-) simps
      by (auto simp: Let_def split: if_splits dest!: parse_ipv4_length)
  next
    case last
    then have "even (length ip) \<Longrightarrow> length ?ip \<le> 16" by simp presburger
    then show ?thesis using 1(3-) simps last by (auto simp: Let_def split: if_splits)
  next
    case step
    then have len: "length ?ip \<le> 16" "even (length ?ip)" using 1(4) by simp_all presburger
    have ds: "\<not> (ds = [] \<or> 4 < length ds)" "c = CHR '':''" "t \<noteq> []"
      using 1(3) simps step by (auto simp: Let_def split: if_splits)
    consider (ell) "hd t = CHR '':''" "ell = None" "tl t = []" "(ip', ell') = (?ip, Some (length ?ip))"
      | (el) "hd t = CHR '':''" "ell = None" "tl t \<noteq> []" "v6_loop (tl t) ?ip (Some (length ?ip)) = Some (ip', ell')"
      | (nx) "hd t \<noteq> CHR '':''" "v6_loop t ?ip ell = Some (ip', ell')"
      using 1(3) simps step ds by (auto simp: Let_def split: if_splits)
    then show ?thesis
    proof cases
      case ell
      then show ?thesis using len by auto
    next
      case el
      then show ?thesis using 1(1)[OF _ ds_def rest_def ds(1) _ refl step(2)] step ds len by auto
    next
      case nx
      have "\<forall>e. ell = Some e \<longrightarrow> e \<le> length ?ip" using 1(6) by auto
      then show ?thesis using nx 1(2)[OF _ ds_def rest_def ds(1) _ refl step(2)] step ds len by auto
    qed
  qed
qed

lemma v6_expand_length: "v6_expand (ip, ell) = Some b \<Longrightarrow> length ip \<le> 16 \<Longrightarrow> (\<forall>e. ell = Some e \<longrightarrow> e \<le> length ip) \<Longrightarrow> length b = 16"
  by (auto simp: v6_expand_def split: if_splits option.splits)

lemma parse_ipv6_length: "parse_ipv6_bytes s = Some b \<Longrightarrow> length b = 16"
proof -
  assume b: "parse_ipv6_bytes s = Some b"
  show ?thesis
  proof (cases "has_prefix s ''::'' \<and> length s = 2")
    case True
    then show ?thesis using b by (auto simp: parse_ipv6_bytes_def)
  next
    case False
    then obtain t ell r where "v6_loop t [] ell = Some r" "v6_expand r = Some b" "ell = None \<or> ell = Some 0"
      using b by (auto simp: parse_ipv6_bytes_def Option.bind_eq_Some_conv split: if_splits)
    then show ?thesis using v6_loop_length[of t "[]" ell "fst r" "snd r"] v6_expand_length[of "fst r" "snd r" b] by auto
  qed
qed

lemma parse_addr_ok: "parse_addr s = Some a \<Longrightarrow> addr_ok a \<and> a \<noteq> NoAddr"
  by (auto simp: parse_addr_def parse_ipv6_def Let_def dest!: parse_ipv4_length parse_ipv6_length split: option.splits if_splits)

section \<open>Address prefixes\<close>

text \<open>\<^verbatim>\<open>netip.Addr\<close>'s \<^verbatim>\<open>IsValid\<close>, \<^verbatim>\<open>Unmap\<close>, \<^verbatim>\<open>IsLoopback\<close>, \<^verbatim>\<open>IsUnspecified\<close> and \<^verbatim>\<open>netip.Prefix\<close>.\<close>

definition unmap :: "addr \<Rightarrow> addr" where
  "unmap a = (case a of Addr6 b z \<Rightarrow> if mapped4 b then Addr4 (drop 12 b) else a | _ \<Rightarrow> a)"

definition is_loopback :: "addr \<Rightarrow> bool" where
  "is_loopback a = (case a of
       NoAddr \<Rightarrow> False
     | Addr4 b \<Rightarrow> b ! 0 = 127
     | Addr6 b z \<Rightarrow> if mapped4 b then b ! 12 = 127 else b = replicate 15 0 @ [1])"

definition is_unspecified :: "addr \<Rightarrow> bool" where
  "is_unspecified a \<longleftrightarrow> a = Addr4 (replicate 4 0) \<or> a = Addr6 (replicate 16 0) ''''"

record prefix =
  paddr :: addr
  pbits :: nat

fun addr_bytes :: "addr \<Rightarrow> byte list" where
  "addr_bytes NoAddr = []"
| "addr_bytes (Addr4 b) = b"
| "addr_bytes (Addr6 b z) = b"

text \<open>The bits of an address, most significant first.\<close>

definition byte_bits :: "byte \<Rightarrow> bool list" where
  "byte_bits x = map (\<lambda>i. bit x i) [7, 6, 5, 4, 3, 2, 1, 0]"

definition addr_bits :: "addr \<Rightarrow> bool list" where
  "addr_bits a = concat (map byte_bits (addr_bytes a))"

definition with_bytes :: "byte list \<Rightarrow> addr \<Rightarrow> addr" where
  "with_bytes b a = (case a of NoAddr \<Rightarrow> NoAddr | Addr4 _ \<Rightarrow> Addr4 b | Addr6 _ _ \<Rightarrow> Addr6 b '''')"

text \<open>\<^verbatim>\<open>Masked\<close> clears the bits after the prefix; its result has no zone. \<open>keep_bits k x\<close> keeps the
  \<open>k\<close> highest bits of a byte.\<close>

definition keep_bits :: "nat \<Rightarrow> byte \<Rightarrow> byte" where
  "keep_bits k x = push_bit (8 - min k 8) (drop_bit (8 - min k 8) x)"

fun mask_bytes :: "nat \<Rightarrow> byte list \<Rightarrow> byte list" where
  "mask_bytes n [] = []"
| "mask_bytes n (x # xs) = keep_bits n x # mask_bytes (n - 8) xs"

definition masked :: "prefix \<Rightarrow> prefix" where
  "masked p = p\<lparr>paddr := with_bytes (mask_bytes (pbits p) (addr_bytes (paddr p))) (paddr p)\<rparr>"

definition prefix_contains :: "prefix \<Rightarrow> addr \<Rightarrow> bool" where
  "prefix_contains p a \<longleftrightarrow> a \<noteq> NoAddr \<and> zone_of a = '''' \<and> is4 (paddr p) = is4 a \<and> is6 (paddr p) = is6 a
     \<and> take (pbits p) (addr_bits (paddr p)) = take (pbits p) (addr_bits a)"

text \<open>\<^verbatim>\<open>netip.ParsePrefix\<close>: the part after the last slash is a number without sign or leading zero.\<close>

definition parse_prefix :: "string \<Rightarrow> prefix option" where
  "parse_prefix s =
     (let r = rev s; bits = rev (takeWhile (\<lambda>c. c \<noteq> CHR ''/'') r); tail = dropWhile (\<lambda>c. c \<noteq> CHR ''/'') r
      in case tail of
        [] \<Rightarrow> None
      | c # h \<Rightarrow> (case parse_addr (rev h) of
            None \<Rightarrow> None
          | Some a \<Rightarrow>
              if zone_of a \<noteq> '''' \<or> bits = [] \<or> \<not> list_all is_digit bits \<or> length bits > 1 \<and> hd bits = CHR ''0''
                 \<or> digits_value bits > (if is6 a then 128 else 32)
              then None else Some \<lparr>paddr = a, pbits = digits_value bits\<rparr>))"

text \<open>\<^verbatim>\<open>netip.ParseAddrPort\<close>: the port is what follows the last colon; brackets mark IPv6.\<close>

definition parse_addr_port :: "string \<Rightarrow> (addr \<times> nat) option" where
  "parse_addr_port s =
     (let r = rev s; port = rev (takeWhile (\<lambda>c. c \<noteq> CHR '':'') r); tail = dropWhile (\<lambda>c. c \<noteq> CHR '':'') r;
          ip = rev (tl tail)
      in if tail = [] \<or> ip = [] \<or> port = [] then None
         else
           let v6 = (hd ip = CHR ''['')
           in if v6 \<and> (length ip < 2 \<or> last ip \<noteq> CHR '']'') then None
              else case (parse_uint16 port, parse_addr (if v6 then butlast (tl ip) else ip)) of
                (Some p, Some a) \<Rightarrow> if v6 \<and> is4 a \<or> \<not> v6 \<and> is6 a then None else Some (a, p)
              | _ \<Rightarrow> None)"

lemma parse_addr_port_ok: "parse_addr_port s = Some (a, p) \<Longrightarrow> addr_ok a \<and> a \<noteq> NoAddr"
  by (auto simp: parse_addr_port_def Let_def split: if_splits option.splits dest: parse_addr_ok)

section \<open>White space\<close>

text \<open>\<^verbatim>\<open>strings.TrimSpace\<close>: the Unicode space characters in UTF-8.\<close>

definition ascii_space :: "char \<Rightarrow> bool" where
  "ascii_space c \<longleftrightarrow> (of_char c :: nat) \<in> {9, 10, 11, 12, 13, 32}"

definition utf8_spaces :: "string list" where
  "utf8_spaces = [[CHR 0xC2, CHR 0x85], [CHR 0xC2, CHR 0xA0], [CHR 0xE1, CHR 0x9A, CHR 0x80],
     [CHR 0xE2, CHR 0x80, CHR 0x80], [CHR 0xE2, CHR 0x80, CHR 0x81], [CHR 0xE2, CHR 0x80, CHR 0x82],
     [CHR 0xE2, CHR 0x80, CHR 0x83], [CHR 0xE2, CHR 0x80, CHR 0x84], [CHR 0xE2, CHR 0x80, CHR 0x85],
     [CHR 0xE2, CHR 0x80, CHR 0x86], [CHR 0xE2, CHR 0x80, CHR 0x87], [CHR 0xE2, CHR 0x80, CHR 0x88],
     [CHR 0xE2, CHR 0x80, CHR 0x89], [CHR 0xE2, CHR 0x80, CHR 0x8A], [CHR 0xE2, CHR 0x80, CHR 0xA8],
     [CHR 0xE2, CHR 0x80, CHR 0xA9], [CHR 0xE2, CHR 0x80, CHR 0xAF], [CHR 0xE2, CHR 0x81, CHR 0x9F],
     [CHR 0xE3, CHR 0x80, CHR 0x80]]"

text \<open>\<open>lead_space ss s\<close> is the length of the space character of \<open>ss\<close> that \<open>s\<close> begins with.\<close>

definition lead_space :: "string list \<Rightarrow> string \<Rightarrow> nat" where
  "lead_space ss s = (case s of
       [] \<Rightarrow> 0
     | c # _ \<Rightarrow> if ascii_space c then 1
         else (case find (has_prefix s) ss of Some p \<Rightarrow> length p | None \<Rightarrow> 0))"

function trim_left :: "string list \<Rightarrow> string \<Rightarrow> string" where
  "trim_left ss s = (let n = lead_space ss s in if n = 0 \<or> s = [] then s else trim_left ss (drop n s))"
  by pat_completeness auto
termination by (relation "measure (\<lambda>(_, s). length s)") auto

declare trim_left.simps [simp del]

definition trim_space :: "string \<Rightarrow> string" where
  "trim_space s = rev (trim_left (map rev utf8_spaces) (rev (trim_left utf8_spaces s)))"

section \<open>Fold, decimal integers and host/port pairs\<close>

text \<open>\<^verbatim>\<open>strings.EqualFold\<close> on ASCII text.\<close>

definition equal_fold :: "string \<Rightarrow> string \<Rightarrow> bool" where
  "equal_fold a b \<longleftrightarrow> to_lower a = to_lower b"

text \<open>\<^verbatim>\<open>strconv.Atoi\<close>: an optional sign, digits, in the range of a 64-bit integer.\<close>

definition atoi :: "string \<Rightarrow> int option" where
  "atoi s =
     (let neg = (s \<noteq> [] \<and> hd s = CHR ''-''); ds = (if s \<noteq> [] \<and> (hd s = CHR ''-'' \<or> hd s = CHR ''+'') then tl s else s)
      in if ds = [] \<or> \<not> list_all is_digit ds then None
         else
           let n = int (digits_value ds)
           in if neg then (if n \<le> 2 ^ 63 then Some (- n) else None)
              else if n < 2 ^ 63 then Some n else None)"

text \<open>\<^verbatim>\<open>net.SplitHostPort\<close>.\<close>

definition split_host_port :: "string \<Rightarrow> (string \<times> string) option" where
  "split_host_port s =
     (let port = rev (takeWhile (\<lambda>c. c \<noteq> CHR '':'') (rev s)); i = length s - length port - 1
      in if CHR '':'' \<notin> set s then None
         else if hd s = CHR ''['' then
           (let last = length (takeWhile (\<lambda>c. c \<noteq> CHR '']'') s)
            in if CHR '']'' \<notin> set s \<or> last + 1 \<noteq> i then None
               else if CHR ''['' \<in> set (drop 1 s) \<or> CHR '']'' \<in> set (drop (last + 1) s) then None
               else Some (take (last - 1) (drop 1 s), port))
         else if CHR '':'' \<in> set (take i s) \<or> CHR ''['' \<in> set s \<or> CHR '']'' \<in> set s then None
         else Some (take i s, port))"

end
