(* ===== verification/Moto_Config.thy ===== *)
theory Moto_Config
  imports Net_Text
begin

text \<open>
  The configuration data of \<^verbatim>\<open>config/setting.go\<close>: targets, rules and their optional parts, with
  the constants the routing code compares against. A pointer that may be nil is an \<open>option\<close>;
  a compiled regular expression is represented by the source it was compiled from.
\<close>

definition ModeNormal :: string where "ModeNormal = ''normal''"
definition ModeRegex :: string where "ModeRegex = ''regex''"
definition ModeBoost :: string where "ModeBoost = ''boost''"
definition ModeRoundRobin :: string where "ModeRoundRobin = ''roundrobin''"
definition ModeTLS :: string where "ModeTLS = ''tls''"
definition ProtocolTCP :: string where "ProtocolTCP = ''tcp''"
definition ProtocolSOCKS5 :: string where "ProtocolSOCKS5 = ''socks5''"
definition ProtocolHTTP :: string where "ProtocolHTTP = ''http''"
definition ConnectProxyH2 :: string where "ConnectProxyH2 = ''h2''"
definition ConnectProxyH3 :: string where "ConnectProxyH3 = ''h3''"

lemmas config_consts [go_consts] = ModeNormal_def ModeRegex_def ModeBoost_def ModeRoundRobin_def ModeTLS_def
  ProtocolTCP_def ProtocolSOCKS5_def ProtocolHTTP_def ConnectProxyH2_def ConnectProxyH3_def

definition IsConnectProtocol :: "string \<Rightarrow> bool" where
  "IsConnectProtocol protocol \<longleftrightarrow> protocol = ProtocolSOCKS5 \<or> protocol = ProtocolHTTP"

record BasicAuthConfig =
  Username :: string
  Password :: string

record ConnectProxyConfig =
  Protocols :: "string list"
  ProxyServerName :: string
  BasicAuth :: "BasicAuthConfig option"

record Target =
  Regexp :: string
  Re :: "string option"
  Address :: string
  ServerNames :: "string list"
  ALPN :: "string list"
  ConnectProxy :: "ConnectProxyConfig option"

text \<open>\<^verbatim>\<open>Rule\<close> and its optional parts. The last fields of \<^verbatim>\<open>ProxyProtocolConfig\<close> and \<^verbatim>\<open>Rule\<close> are
  derived by validation. The blacklist, a Go map, is the list of its entries in the order an
  iteration visits them.\<close>

record HealthCheckConfig =
  hcType :: string
  hcInterval :: u64
  hcTimeout :: u64
  FailureThreshold :: int
  SuccessThreshold :: int
  hcPath :: string
  StatusMin :: int
  StatusMax :: int

record HedgeConfig =
  MinDelay :: u64
  MaxDelay :: u64

record ProxyProtocolConfig =
  Accept :: bool
  TrustedCIDRs :: "string list"
  Send :: string
  trustedPrefixes :: "prefix list"

record Rule =
  Name :: string
  Listen :: string
  Mode :: string
  Protocol :: string
  Prewarm :: bool
  Targets :: "Target option list"
  Timeout :: u64
  Blacklist :: "(string \<times> bool) list"
  Allowlist :: "string list"
  MaxConnections :: int
  MaxConnectionsPerIP :: int
  HealthCheck :: "HealthCheckConfig option"
  Hedge :: "HedgeConfig option"
  ProxyProtocol :: "ProxyProtocolConfig option"
  UserAgent :: "string list"
  allowPrefixes :: "prefix list"
  blockedIPs :: "addr set"

definition ProxyProtocolV1 :: string where "ProxyProtocolV1 = ''v1''"
definition ProxyProtocolV2 :: string where "ProxyProtocolV2 = ''v2''"

text \<open>Whether the immediate peer may speak for the clients behind it.\<close>

definition Trusts :: "ProxyProtocolConfig \<Rightarrow> addr \<Rightarrow> bool" where
  "Trusts c a \<longleftrightarrow> Accept c \<and> a \<noteq> NoAddr \<and> list_ex (\<lambda>p. prefix_contains p (unmap a)) (trustedPrefixes c)"

text \<open>The access lists of a rule.\<close>

definition Allows :: "Rule \<Rightarrow> addr \<Rightarrow> bool" where
  "Allows r a \<longleftrightarrow> a \<noteq> NoAddr \<and> (Allowlist r = [] \<or> list_ex (\<lambda>p. prefix_contains p (unmap a)) (allowPrefixes r))"

definition Blocked :: "Rule \<Rightarrow> addr \<Rightarrow> bool" where
  "Blocked r a \<longleftrightarrow> a \<noteq> NoAddr \<and> unmap a \<in> blockedIPs r"

end
