(* ===== verification/TLS_ClientHello.thy ===== *)
theory TLS_ClientHello
  imports Moto_Prelude
begin

text \<open>
  The ClientHello probe of \<^verbatim>\<open>controller/tls_clienthello.go\<close>: an incremental reader of
  TLS handshake records (\<^verbatim>\<open>readTLSClientHello\<close>), the parser of the ClientHello body and
  of its SNI and ALPN extensions, and the validation of the offered host name.

  Every error of the source is one of three sentinel kinds; the model keeps the kind and
  the constant part of the message and leaves out the formatted numbers.
\<close>

section \<open>Constants, errors and the probe\<close>

definition tlsRecordHeaderLength :: nat where "tlsRecordHeaderLength = 5"
definition tlsHandshakeHeaderLength :: nat where "tlsHandshakeHeaderLength = 4"
definition tlsMaxPlaintextRecordLength :: int where "tlsMaxPlaintextRecordLength = 16384"
definition tlsRecordTypeHandshake :: byte where "tlsRecordTypeHandshake = 22"
definition tlsHandshakeTypeClientHello :: byte where "tlsHandshakeTypeClientHello = 1"
definition tlsExtensionServerName :: int where "tlsExtensionServerName = 0"
definition tlsExtensionALPN :: int where "tlsExtensionALPN = 16"
definition tlsServerNameTypeHostName :: int where "tlsServerNameTypeHostName = 0"
definition tlsClientHelloMaxExtensions :: int where "tlsClientHelloMaxExtensions = 256"
definition tlsClientHelloMaxALPN :: nat where "tlsClientHelloMaxALPN = 256"
definition tlsServerNameMaxLength :: nat where "tlsServerNameMaxLength = 253"
definition tlsDNSLabelMaxLength :: nat where "tlsDNSLabelMaxLength = 63"

lemmas tls_consts [go_consts] = tlsRecordHeaderLength_def tlsHandshakeHeaderLength_def
  tlsMaxPlaintextRecordLength_def tlsRecordTypeHandshake_def tlsHandshakeTypeClientHello_def
  tlsExtensionServerName_def tlsExtensionALPN_def tlsServerNameTypeHostName_def
  tlsClientHelloMaxExtensions_def tlsClientHelloMaxALPN_def tlsServerNameMaxLength_def
  tlsDNSLabelMaxLength_def

datatype tls_error = Malformed string | TooLarge string | Truncated

record tlsClientHelloProbe =
  ServerName :: "byte list"
  ALPNProtocols :: "byte list list"
  Raw :: "byte list"

definition empty_probe :: tlsClientHelloProbe where
  "empty_probe = \<lparr>ServerName = [], ALPNProtocols = [], Raw = []\<rparr>"

section \<open>The bounds-checked cursor\<close>

record tlsClientHelloCursor =
  cdata :: "byte list"
  offset :: nat

definition cursor_of :: "byte list \<Rightarrow> tlsClientHelloCursor" where
  "cursor_of bs = \<lparr>cdata = bs, offset = 0\<rparr>"

definition remaining :: "tlsClientHelloCursor \<Rightarrow> int" where
  "remaining c = int (length (cdata c)) - int (offset c)"

definition cursor_take :: "int \<Rightarrow> tlsClientHelloCursor \<Rightarrow> (byte list \<times> tlsClientHelloCursor) option" where
  "cursor_take len c =
     (if len < 0 \<or> len > remaining c then None
      else Some (take (nat len) (drop (offset c) (cdata c)), c\<lparr>offset := offset c + nat len\<rparr>))"

definition cursor_uint8 :: "tlsClientHelloCursor \<Rightarrow> (int \<times> tlsClientHelloCursor) option" where
  "cursor_uint8 c =
     (case cursor_take 1 c of
        None \<Rightarrow> None
      | Some (value, c') \<Rightarrow> Some (uint (value ! 0), c'))"

definition cursor_uint16 :: "tlsClientHelloCursor \<Rightarrow> (int \<times> tlsClientHelloCursor) option" where
  "cursor_uint16 c =
     (case cursor_take 2 c of
        None \<Rightarrow> None
      | Some (value, c') \<Rightarrow> Some (be16 (value ! 0) (value ! 1), c'))"

lemma cursor_take_remaining: "cursor_take n c = Some (v, c') \<Longrightarrow> remaining c' = remaining c - n \<and> 0 \<le> n \<and> 0 \<le> remaining c'"
  by (auto simp: cursor_take_def remaining_def split: if_splits)

lemma cursor_uint8_remaining: "cursor_uint8 c = Some (v, c') \<Longrightarrow> remaining c' = remaining c - 1 \<and> 0 \<le> remaining c'"
  by (auto simp: cursor_uint8_def split: option.splits dest: cursor_take_remaining)

lemma cursor_uint16_remaining: "cursor_uint16 c = Some (v, c') \<Longrightarrow> remaining c' = remaining c - 2 \<and> 0 \<le> remaining c'"
  by (auto simp: cursor_uint16_def split: option.splits dest: cursor_take_remaining)

lemmas cursor_remaining = cursor_take_remaining cursor_uint8_remaining cursor_uint16_remaining

section \<open>Host names\<close>

definition is_ldh :: "byte \<Rightarrow> bool" where
  "is_ldh b \<longleftrightarrow> \<not> ((b < 97 \<or> b > 122) \<and> (b < 65 \<or> b > 90) \<and> (b < 48 \<or> b > 57) \<and> b \<noteq> 45)"

text \<open>
  The loop over the bytes of the name: \<open>index\<close> counts up, \<open>labelLength\<close> is the length of
  the label read so far, the list is what \<^verbatim>\<open>range name\<close> has still to visit. \<open>None\<close> is the
  nil error.
\<close>

fun validate_loop :: "byte list \<Rightarrow> nat \<Rightarrow> nat \<Rightarrow> byte list \<Rightarrow> tls_error option" where
  "validate_loop name index labelLength [] =
     (if labelLength = 0 \<or> name ! (length name - 1) = 45
      then Some (Malformed ''host_name contains an invalid DNS label'') else None)"
| "validate_loop name index labelLength (b # rest) =
     (if b = 46 then
        (if labelLength = 0 \<or> name ! (index - 1) = 45
         then Some (Malformed ''host_name contains an invalid DNS label'')
         else validate_loop name (index + 1) 0 rest)
      else if \<not> is_ldh b then Some (Malformed ''host_name contains a non-DNS ASCII byte'')
      else if labelLength = 0 \<and> b = 45
        then Some (Malformed ''host_name contains an invalid DNS label'')
      else if labelLength + 1 > tlsDNSLabelMaxLength
        then Some (Malformed ''host_name contains a DNS label that is too long'')
      else validate_loop name (index + 1) (labelLength + 1) rest)"

definition validateTLSClientHelloServerName :: "byte list \<Rightarrow> tls_error option" where
  "validateTLSClientHelloServerName name =
     (if length name = 0 \<or> length name > tlsServerNameMaxLength
      then Some (Malformed ''host_name must be a non-empty DNS name'')
      else validate_loop name 0 0 name)"

section \<open>Extensions\<close>

function sni_loop ::
  "tlsClientHelloCursor \<Rightarrow> byte list \<Rightarrow> bool \<Rightarrow> tls_error + byte list" where
  "sni_loop c serverName hasHostName =
     (if remaining c > 0 then
        (case cursor_uint8 c of
           None \<Rightarrow> Inl (Malformed ''server_name type is truncated'')
         | Some (nameType, c1) \<Rightarrow>
        (case cursor_uint16 c1 of
           None \<Rightarrow> Inl (Malformed ''server_name length is truncated'')
         | Some (nameLength, c2) \<Rightarrow>
        if nameLength = 0 then Inl (Malformed ''server_name is empty'') else
        (case cursor_take nameLength c2 of
           None \<Rightarrow> Inl (Malformed ''server_name is truncated'')
         | Some (name, c3) \<Rightarrow>
        if nameType \<noteq> tlsServerNameTypeHostName then sni_loop c3 serverName hasHostName
        else if hasHostName then Inl (Malformed ''duplicate host_name entry'')
        else (case validateTLSClientHelloServerName name of
           Some err \<Rightarrow> Inl err
         | None \<Rightarrow> sni_loop c3 name True))))
      else Inr serverName)"
  by pat_completeness auto
termination
  by (relation "measure (\<lambda>(c, _, _). nat (remaining c))") (auto dest!: cursor_remaining)

definition parseTLSServerNameExtension :: "byte list \<Rightarrow> tls_error + byte list" where
  "parseTLSServerNameExtension ext =
     (case cursor_uint16 (cursor_of ext) of
        None \<Rightarrow> Inl (Malformed ''server_name list length is truncated'')
      | Some (listLength, c) \<Rightarrow>
          if listLength = 0 \<or> listLength \<noteq> remaining c
          then Inl (Malformed ''server_name list length does not match'')
          else sni_loop c [] False)"

function alpn_loop :: "tlsClientHelloCursor \<Rightarrow> byte list list \<Rightarrow> tls_error + byte list list" where
  "alpn_loop c protocols =
     (if remaining c > 0 then
        (case cursor_uint8 c of
           None \<Rightarrow> Inl (Malformed ''ALPN protocol length is truncated'')
         | Some (protocolLength, c1) \<Rightarrow>
        if length protocols \<ge> tlsClientHelloMaxALPN then Inl (TooLarge ''ALPN protocols'')
        else if protocolLength = 0 then Inl (Malformed ''ALPN protocol is empty'')
        else (case cursor_take protocolLength c1 of
           None \<Rightarrow> Inl (Malformed ''ALPN protocol is truncated'')
         | Some (protocol, c2) \<Rightarrow> alpn_loop c2 (protocols @ [protocol])))
      else Inr protocols)"
  by pat_completeness auto
termination
  by (relation "measure (\<lambda>(c, _). nat (remaining c))") (auto dest!: cursor_remaining)

definition parseTLSALPNExtension :: "byte list \<Rightarrow> tls_error + byte list list" where
  "parseTLSALPNExtension ext =
     (case cursor_uint16 (cursor_of ext) of
        None \<Rightarrow> Inl (Malformed ''ALPN list length is truncated'')
      | Some (listLength, c) \<Rightarrow>
          if listLength = 0 \<or> listLength \<noteq> remaining c
          then Inl (Malformed ''ALPN list length does not match'')
          else alpn_loop c [])"

text \<open>\<open>seen\<close> is the map of extension types met so far, as a list of its keys.\<close>

function extensions_loop ::
  "tlsClientHelloCursor \<Rightarrow> int list \<Rightarrow> byte list \<Rightarrow> byte list list \<Rightarrow> int \<Rightarrow>
     tls_error + byte list \<times> byte list list" where
  "extensions_loop c seen serverName protocols extensionCount =
     (if remaining c > 0 then
        (case cursor_uint16 c of
           None \<Rightarrow> Inl (Malformed ''truncated extension type'')
         | Some (extensionType, c1) \<Rightarrow>
        (case cursor_uint16 c1 of
           None \<Rightarrow> Inl (Malformed ''truncated extension length'')
         | Some (extensionLength, c2) \<Rightarrow>
        if extensionCount + 1 > tlsClientHelloMaxExtensions then Inl (TooLarge ''extensions'') else
        (case cursor_take extensionLength c2 of
           None \<Rightarrow> Inl (Malformed ''extension is truncated'')
         | Some (extension, c3) \<Rightarrow>
        if extensionType \<in> set seen then Inl (Malformed ''duplicate extension'')
        else if extensionType = tlsExtensionServerName then
          (case parseTLSServerNameExtension extension of
             Inl err \<Rightarrow> Inl err
           | Inr name \<Rightarrow>
               extensions_loop c3 (extensionType # seen) name protocols (extensionCount + 1))
        else if extensionType = tlsExtensionALPN then
          (case parseTLSALPNExtension extension of
             Inl err \<Rightarrow> Inl err
           | Inr ps \<Rightarrow>
               extensions_loop c3 (extensionType # seen) serverName ps (extensionCount + 1))
        else extensions_loop c3 (extensionType # seen) serverName protocols (extensionCount + 1))))
      else Inr (serverName, protocols))"
  by pat_completeness auto
termination
  by (relation "measure (\<lambda>(c, _, _, _, _). nat (remaining c))") (auto dest!: cursor_remaining)

declare sni_loop.simps [simp del] alpn_loop.simps [simp del] extensions_loop.simps [simp del]

definition parseTLSClientHelloExtensions ::
  "byte list \<Rightarrow> tls_error + byte list \<times> byte list list" where
  "parseTLSClientHelloExtensions extensions = extensions_loop (cursor_of extensions) [] [] [] 0"

section \<open>The ClientHello body\<close>

definition parseTLSClientHelloBody :: "byte list \<Rightarrow> tls_error + byte list \<times> byte list list" where
  "parseTLSClientHelloBody body =
     (case cursor_take 2 (cursor_of body) of
        None \<Rightarrow> Inl (Malformed ''missing legacy version'')
      | Some (legacyVersion, c1) \<Rightarrow>
      if legacyVersion ! 0 \<noteq> 3 then Inl (Malformed ''legacy version is not TLS'') else
      (case cursor_take 32 c1 of
        None \<Rightarrow> Inl (Malformed ''missing random'')
      | Some (_, c2) \<Rightarrow>
      (case cursor_uint8 c2 of
        None \<Rightarrow> Inl (Malformed ''missing session ID length'')
      | Some (sessionIDLength, c3) \<Rightarrow>
      if sessionIDLength > 32 then Inl (Malformed ''session ID length exceeds 32'') else
      (case cursor_take sessionIDLength c3 of
        None \<Rightarrow> Inl (Malformed ''truncated session ID'')
      | Some (_, c4) \<Rightarrow>
      (case cursor_uint16 c4 of
        None \<Rightarrow> Inl (Malformed ''missing cipher suites length'')
      | Some (cipherSuitesLength, c5) \<Rightarrow>
      if cipherSuitesLength = 0 \<or> cipherSuitesLength mod 2 \<noteq> 0
      then Inl (Malformed ''invalid cipher suites length'') else
      (case cursor_take cipherSuitesLength c5 of
        None \<Rightarrow> Inl (Malformed ''truncated cipher suites'')
      | Some (_, c6) \<Rightarrow>
      (case cursor_uint8 c6 of
        None \<Rightarrow> Inl (Malformed ''missing compression methods length'')
      | Some (compressionMethodsLength, c7) \<Rightarrow>
      if compressionMethodsLength = 0 then Inl (Malformed ''empty compression methods'') else
      (case cursor_take compressionMethodsLength c7 of
        None \<Rightarrow> Inl (Malformed ''truncated compression methods'')
      | Some (_, c8) \<Rightarrow>
      if remaining c8 = 0 then Inr ([], []) else
      (case cursor_uint16 c8 of
        None \<Rightarrow> Inl (Malformed ''truncated extensions length'')
      | Some (extensionsLength, c9) \<Rightarrow>
      if extensionsLength \<noteq> remaining c9
      then Inl (Malformed ''extensions length does not match'') else
      (case cursor_take extensionsLength c9 of
        None \<Rightarrow> parseTLSClientHelloExtensions []
      | Some (extensions, _) \<Rightarrow> parseTLSClientHelloExtensions extensions))))))))))"

section \<open>Reading records\<close>

text \<open>
  \<^verbatim>\<open>readTLSClientHelloBytes\<close>: the error (\<open>None\<close> for nil), the bytes placed in \<^verbatim>\<open>dst\<close>, the
  extended \<^verbatim>\<open>raw\<close> buffer and the reader afterwards.
\<close>

definition readTLSClientHelloBytes ::
  "byte list \<Rightarrow> nat \<Rightarrow> int \<Rightarrow> byte list \<Rightarrow> tls_error option \<times> byte list \<times> byte list \<times> byte list" where
  "readTLSClientHelloBytes r n maxBytes raw =
     (if int n > maxBytes - int (length raw) then (Some (TooLarge ''need more bytes''), [], raw, r)
      else (case read_full n r of
        (dst, ok, r') \<Rightarrow> (if ok then None else Some Truncated, dst, raw @ dst, r')))"

lemma readTLSClientHelloBytes_ok_consumes:
  "readTLSClientHelloBytes r n maxBytes raw = (None, dst, raw', r') \<Longrightarrow>
     length r' + n = length r \<and> length dst = n \<and> dst @ r' = r"
  by (auto simp: readTLSClientHelloBytes_def read_full_def split: if_splits)

text \<open>
  One turn of the record loop: it returns the probe, the error (\<open>None\<close> for nil) and the reader,
  or continues with the reader, the probe and the handshake bytes collected so far.
\<close>

datatype record_outcome =
    Return tlsClientHelloProbe "tls_error option" "byte list"
  | Continue "byte list" tlsClientHelloProbe "byte list"

text \<open>The end of the turn, from the test of the collected handshake bytes on.\<close>

definition handshake_step ::
  "int \<Rightarrow> tlsClientHelloProbe \<Rightarrow> byte list \<Rightarrow> byte list \<Rightarrow> record_outcome" where
  "handshake_step maxBytes probe handshake r =
     (if length handshake < tlsHandshakeHeaderLength then Continue r probe handshake
      else if handshake ! 0 \<noteq> tlsHandshakeTypeClientHello
      then Return probe (Some (Malformed ''handshake type is not ClientHello'')) r
      else let bodyLength =
             uint (handshake ! 1) * 65536 + uint (handshake ! 2) * 256 + uint (handshake ! 3);
           totalLength = int tlsHandshakeHeaderLength + bodyLength in
      if totalLength > maxBytes
      then Return probe (Some (TooLarge ''declared handshake length'')) r
      else if int (length handshake) < totalLength then Continue r probe handshake
      else (case parseTLSClientHelloBody
             (drop tlsHandshakeHeaderLength (take (nat totalLength) handshake)) of
          Inl err \<Rightarrow> Return probe (Some err) r
        | Inr (serverName, protocols) \<Rightarrow>
            Return (probe\<lparr>ServerName := serverName, ALPNProtocols := protocols\<rparr>) None r))"

definition record_step ::
  "byte list \<Rightarrow> int \<Rightarrow> tlsClientHelloProbe \<Rightarrow> byte list \<Rightarrow> record_outcome" where
  "record_step r maxBytes probe handshake =
     (case readTLSClientHelloBytes r tlsRecordHeaderLength maxBytes (Raw probe) of
        (Some err, _, raw, r1) \<Rightarrow> Return (probe\<lparr>Raw := raw\<rparr>) (Some err) r1
      | (None, header, raw, r1) \<Rightarrow>
        if header ! 0 \<noteq> tlsRecordTypeHandshake
        then Return (probe\<lparr>Raw := raw\<rparr>) (Some (Malformed ''record type is not handshake'')) r1
        else if header ! 1 \<noteq> 3
        then Return (probe\<lparr>Raw := raw\<rparr>) (Some (Malformed ''record version is not TLS'')) r1
        else let recordLength = be16 (header ! 3) (header ! 4) in
        if recordLength > tlsMaxPlaintextRecordLength
        then Return (probe\<lparr>Raw := raw\<rparr>) (Some (Malformed ''record length exceeds the maximum'')) r1
        else if recordLength > maxBytes - int (length raw)
        then Return (probe\<lparr>Raw := raw\<rparr>) (Some (TooLarge ''record requires more bytes'')) r1
        else (case readTLSClientHelloBytes r1 (nat recordLength) maxBytes raw of
            (Some err, _, raw2, r2) \<Rightarrow> Return (probe\<lparr>Raw := raw2\<rparr>) (Some err) r2
          | (None, payload, raw2, r2) \<Rightarrow>
              handshake_step maxBytes (probe\<lparr>Raw := raw2\<rparr>) (handshake @ payload) r2))"

lemma handshake_step_reader: "handshake_step m p h r = Continue r' p' h' \<Longrightarrow> r' = r \<and> p' = p \<and> h' = h"
  by (auto simp: handshake_step_def Let_def split: if_splits sum.splits)

lemma record_step_consumes: "record_step r m p h = Continue r' p' h' \<Longrightarrow> length r' < length r"
  by (auto simp: record_step_def tls_consts Let_def split: prod.splits option.splits if_splits
      dest!: handshake_step_reader readTLSClientHelloBytes_ok_consumes)

text \<open>Every turn that continues has consumed a whole record header, so the loop ends.\<close>

function read_records ::
  "byte list \<Rightarrow> int \<Rightarrow> tlsClientHelloProbe \<Rightarrow> byte list \<Rightarrow>
     tlsClientHelloProbe \<times> tls_error option \<times> byte list" where
  "read_records r maxBytes probe handshake =
     (case record_step r maxBytes probe handshake of
        Return probe' err r' \<Rightarrow> (probe', err, r')
      | Continue r' probe' handshake' \<Rightarrow> read_records r' maxBytes probe' handshake')"
  by pat_completeness auto
termination
  by (relation "measure (\<lambda>(r, _, _, _). length r)") (auto dest: record_step_consumes)

declare read_records.simps [simp del]

text \<open>A nil reader is \<open>None\<close>.\<close>

definition readTLSClientHello ::
  "byte list option \<Rightarrow> int \<Rightarrow> tlsClientHelloProbe \<times> tls_error option \<times> byte list" where
  "readTLSClientHello r maxBytes =
     (case r of
        None \<Rightarrow> (empty_probe, Some (Malformed ''nil reader''), [])
      | Some input \<Rightarrow>
          if maxBytes \<le> 0 then (empty_probe, Some (TooLarge ''limit must be positive''), input)
          else read_records input maxBytes empty_probe [])"

section \<open>The cursor as a view of the unread bytes\<close>

text \<open>
  What the parsers rely on: a cursor stands for the bytes it has not read yet, and a read
  either fails for want of bytes or returns a prefix of them.
\<close>

locale byte_cursor =
  fixes ok :: "'c \<Rightarrow> bool"
    and view :: "'c \<Rightarrow> byte list"
    and left :: "'c \<Rightarrow> int"
    and tk :: "int \<Rightarrow> 'c \<Rightarrow> (byte list \<times> 'c) option"
    and u8 :: "'c \<Rightarrow> (int \<times> 'c) option"
    and u16 :: "'c \<Rightarrow> (int \<times> 'c) option"
  assumes left_view: "ok c \<Longrightarrow> left c = int (length (view c))"
    and tk_view: "ok c \<Longrightarrow> 0 \<le> n \<Longrightarrow> n \<le> left c \<Longrightarrow>
      \<exists>c'. tk n c = Some (take (nat n) (view c), c') \<and> ok c' \<and> view c' = drop (nat n) (view c)"
    and u8_view: "ok c \<Longrightarrow> view c = b # bs \<Longrightarrow> \<exists>c'. u8 c = Some (uint b, c') \<and> ok c' \<and> view c' = bs"
    and u16_view: "ok c \<Longrightarrow> view c = a # b # bs \<Longrightarrow>
      \<exists>c'. u16 c = Some (be16 a b, c') \<and> ok c' \<and> view c' = bs"
begin

lemma tk_append:
  assumes "ok c" and "view c = xs @ ys"
  shows "\<exists>c'. tk (int (length xs)) c = Some (xs, c') \<and> ok c' \<and> view c' = ys"
  using tk_view [of c "int (length xs)"] left_view [of c] assms by simp

lemma u8_enc:
  assumes "ok c" and "view c = word_of_nat n # ys" and "n < 256"
  shows "\<exists>c'. u8 c = Some (int n, c') \<and> ok c' \<and> view c' = ys"
  using u8_view [OF assms(1,2)] assms(3) by (simp add: uint_word_of_nat_byte)

lemma u16_enc:
  assumes "ok c" and "view c = enc16 n @ ys" and "n < 65536"
  shows "\<exists>c'. u16 c = Some (int n, c') \<and> ok c' \<and> view c' = ys"
  using u16_view [of c "word_of_nat (n div 256)" "word_of_nat (n mod 256)" ys] assms
  by (simp add: enc16_def be16_enc16)

lemma left_pos_iff: "ok c \<Longrightarrow> 0 < left c \<longleftrightarrow> view c \<noteq> []"
  by (simp add: left_view)

end

definition cursor_ok :: "tlsClientHelloCursor \<Rightarrow> bool" where
  "cursor_ok c \<longleftrightarrow> offset c \<le> length (cdata c)"

definition cursor_view :: "tlsClientHelloCursor \<Rightarrow> byte list" where
  "cursor_view c = drop (offset c) (cdata c)"

lemma cursor_take_view:
  assumes "cursor_ok c" and "0 \<le> n" and "n \<le> remaining c"
  shows "\<exists>c'. cursor_take n c = Some (take (nat n) (cursor_view c), c') \<and> cursor_ok c' \<and>
    cursor_view c' = drop (nat n) (cursor_view c)"
  using assms by (auto simp: cursor_take_def cursor_ok_def cursor_view_def remaining_def add.commute)

lemma remaining_view: "cursor_ok c \<Longrightarrow> remaining c = int (length (cursor_view c))"
  by (simp add: remaining_def cursor_ok_def cursor_view_def)

interpretation tc: byte_cursor cursor_ok cursor_view remaining cursor_take cursor_uint8 cursor_uint16
proof
  show "\<exists>c'. cursor_uint8 c = Some (uint b, c') \<and> cursor_ok c' \<and> cursor_view c' = bs"
    if "cursor_ok c" and "cursor_view c = b # bs" for c b bs
    using cursor_take_view [of c 1] that by (auto simp: cursor_uint8_def remaining_view)
  show "\<exists>c'. cursor_uint16 c = Some (be16 a b, c') \<and> cursor_ok c' \<and> cursor_view c' = bs"
    if "cursor_ok c" and "cursor_view c = a # b # bs" for c a b bs
    using cursor_take_view [of c 2] that by (auto simp: cursor_uint16_def remaining_view numeral_2_eq_2)
qed (simp_all add: remaining_view cursor_take_view)

lemma cursor_of_view [simp]: "cursor_ok (cursor_of bs)" "cursor_view (cursor_of bs) = bs"
  by (simp_all add: cursor_of_def cursor_ok_def cursor_view_def)

section \<open>Host names: the loop decides the DNS rule\<close>

definition dns_alphabet :: "byte list" where
  "dns_alphabet = str_bytes ''abcdefghijklmnopqrstuvwxyzABCDEFGHIJKLMNOPQRSTUVWXYZ0123456789-''"

definition dns_label :: "byte list \<Rightarrow> bool" where
  "dns_label l \<longleftrightarrow> l \<noteq> [] \<and> length l \<le> 63 \<and> set l \<subseteq> set dns_alphabet \<and> hd l \<noteq> 45 \<and> last l \<noteq> 45"

text \<open>The code's character test, on all 256 bytes.\<close>

lemma is_ldh_alphabet: "is_ldh b \<longleftrightarrow> b \<in> set dns_alphabet"
proof -
  have "map unat dns_alphabet = [97..<123] @ [65..<91] @ [48..<58] @ [45]" by code_simp
  then have "unat ` set dns_alphabet = set ([97..<123] @ [65..<91] @ [48..<58] @ [45])" by (metis list.set_map)
  moreover have "b \<in> set dns_alphabet \<longleftrightarrow> unat b \<in> unat ` set dns_alphabet" by (auto simp: word_unat_eq_iff [symmetric])
  ultimately have "b \<in> set dns_alphabet \<longleftrightarrow> 97 \<le> unat b \<and> unat b < 123 \<or> 65 \<le> unat b \<and> unat b < 91 \<or> 48 \<le> unat b \<and> unat b < 58 \<or> unat b = 45"
    by (simp only: set_append set_upt atLeastLessThan_iff Un_iff list.set insert_iff empty_iff simp_thms)
  moreover have "b = 45 \<longleftrightarrow> unat b = 45" by (simp add: word_unat_eq_iff)
  ultimately show ?thesis by (auto simp: is_ldh_def word_less_nat_alt)
qed

lemma dns_label_ldh: "dns_label l \<longleftrightarrow> l \<noteq> [] \<and> length l \<le> 63 \<and> (\<forall>b \<in> set l. is_ldh b) \<and> hd l \<noteq> 45 \<and> last l \<noteq> 45"
  by (auto simp: dns_label_def is_ldh_alphabet)

definition dns_name :: "byte list \<Rightarrow> bool" where
  "dns_name name \<longleftrightarrow> length name \<le> 253 \<and> (\<forall>l \<in> set (split_on 46 name). dns_label l)"

definition label_prefix :: "byte list \<Rightarrow> bool" where
  "label_prefix l \<longleftrightarrow> length l \<le> 63 \<and> (\<forall>b \<in> set l. is_ldh b \<and> b \<noteq> 46) \<and> (l \<noteq> [] \<longrightarrow> hd l \<noteq> 45)"

lemma split_on_hd_prefix: "s \<notin> set xs \<Longrightarrow> \<exists>q ps. split_on s (xs @ ys) = (xs @ q) # ps"
proof (induction xs)
  case Nil
  then show ?case by (cases "split_on s ys") simp_all
next
  case (Cons x xs)
  then show ?case by auto
qed

lemma dns_label_fail:
  assumes "46 \<notin> set cur" and "\<And>q. \<not> dns_label (cur @ q)"
  shows "\<not> (\<forall>l \<in> set (split_on 46 (cur @ ys)). dns_label l)"
  using split_on_hd_prefix [OF assms(1), of ys] assms(2) by auto

lemma nth_last_of_middle:
  "ys \<noteq> [] \<Longrightarrow> (xs @ ys @ zs) ! (length xs + length ys - 1) = last ys"
  by (cases ys rule: rev_cases) (simp_all add: nth_append)

lemma is_ldh_dot: "\<not> is_ldh 46"
  by (simp add: is_ldh_def)

lemma validate_loop_iff:
  assumes "name = pre @ cur @ rest" and "label_prefix cur"
  shows "validate_loop name (length pre + length cur) (length cur) rest = None \<longleftrightarrow>
    (\<forall>l \<in> set (split_on 46 (cur @ rest)). dns_label l)"
  using assms
proof (induction rest arbitrary: pre cur)
  case Nil
  have nd: "46 \<notin> set cur" using Nil by (auto simp: label_prefix_def)
  have "name ! (length name - 1) = last cur" if "cur \<noteq> []"
    using Nil nth_last_of_middle [OF that, of pre "[]"] by simp
  then show ?case
    using Nil nd by (auto simp: split_on_no_sep label_prefix_def dns_label_ldh)
next
  case (Cons b rest)
  have nd: "46 \<notin> set cur" using Cons.prems by (auto simp: label_prefix_def)
  have prev: "name ! (length pre + length cur - 1) = last cur" if "cur \<noteq> []"
    using Cons.prems nth_last_of_middle [OF that, of pre "b # rest"] by simp
  show ?case
  proof (cases "b = 46")
    case True
    have IH: "validate_loop name (length pre + length cur + 1) 0 rest = None \<longleftrightarrow>
        (\<forall>l \<in> set (split_on 46 rest). dns_label l)"
      using Cons.IH [of "pre @ cur @ [b]" "[]"] Cons.prems by (simp add: label_prefix_def)
    show ?thesis
      using True IH prev Cons.prems(2) nd
      by (auto simp: split_on_append_sep label_prefix_def dns_label_ldh)
  next
    case False
    have IH: "validate_loop name (length pre + length cur + 1) (length cur + 1) rest = None \<longleftrightarrow>
        (\<forall>l \<in> set (split_on 46 ((cur @ [b]) @ rest)). dns_label l)"
      if "label_prefix (cur @ [b])"
      using Cons.IH [of pre "cur @ [b]"] Cons.prems that by simp
    show ?thesis
    proof (cases "label_prefix (cur @ [b])")
      case True
      then have "is_ldh b" and "length cur < 63" and "cur = [] \<longrightarrow> b \<noteq> 45"
        by (auto simp: label_prefix_def)
      then show ?thesis using IH [OF True] \<open>b \<noteq> 46\<close> by (auto simp: tls_consts)
    next
      case bad: False
      have "\<not> dns_label ((cur @ [b]) @ q)" for q
        using bad Cons.prems(2) False
        by (cases cur) (auto simp: label_prefix_def dns_label_ldh)
      then have fail: "\<not> (\<forall>l \<in> set (split_on 46 ((cur @ [b]) @ rest)). dns_label l)"
        using nd False by (intro dns_label_fail) auto
      have rej: "validate_loop name (length pre + length cur) (length cur) (b # rest) \<noteq> None"
        using bad Cons.prems(2) False by (cases cur) (auto simp: label_prefix_def tls_consts)
      from fail have "\<not> (\<forall>l \<in> set (split_on 46 (cur @ b # rest)). dns_label l)" by simp
      with rej show ?thesis by (simp only: simp_thms)
    qed
  qed
qed

lemma validate_iff: "validateTLSClientHelloServerName name = None \<longleftrightarrow> dns_name name"
proof -
  have "validate_loop name 0 0 name = None \<longleftrightarrow> (\<forall>l \<in> set (split_on 46 name). dns_label l)"
    using validate_loop_iff [of name "[]" "[]" name] by (simp add: label_prefix_def)
  then show ?thesis
    by (auto simp: validateTLSClientHelloServerName_def dns_name_def dns_label_ldh tls_consts)
qed


section \<open>Round trips through the extension parsers\<close>

text \<open>
  A reference encoder, the writer's side of RFC 8446 section 4: what a client sends for a host
  name, a list of ALPN protocols, or any other extension.
\<close>

datatype hello_ext = Ext_SNI "byte list" | Ext_ALPN "byte list list" | Ext_Other nat "byte list"

definition enc_alpn_list :: "byte list list \<Rightarrow> byte list" where
  "enc_alpn_list ps = concat (map (\<lambda>p. word_of_nat (length p) # p) ps)"

fun ext_type :: "hello_ext \<Rightarrow> nat" where
  "ext_type (Ext_SNI _) = 0"
| "ext_type (Ext_ALPN _) = 16"
| "ext_type (Ext_Other t _) = t"

fun ext_payload :: "hello_ext \<Rightarrow> byte list" where
  "ext_payload (Ext_SNI name) = enc16 (length name + 3) @ [0] @ enc16 (length name) @ name"
| "ext_payload (Ext_ALPN ps) = enc16 (length (enc_alpn_list ps)) @ enc_alpn_list ps"
| "ext_payload (Ext_Other _ bs) = bs"

definition enc_ext :: "hello_ext \<Rightarrow> byte list" where
  "enc_ext e = enc16 (ext_type e) @ enc16 (length (ext_payload e)) @ ext_payload e"

fun ext_valid :: "hello_ext \<Rightarrow> bool" where
  "ext_valid (Ext_SNI name) \<longleftrightarrow> dns_name name"
| "ext_valid (Ext_ALPN ps) \<longleftrightarrow> ps \<noteq> [] \<and> length ps \<le> 256 \<and> (\<forall>p \<in> set ps. p \<noteq> [] \<and> length p < 256)
     \<and> length (enc_alpn_list ps) + 2 < 65536"
| "ext_valid (Ext_Other t bs) \<longleftrightarrow> t < 65536 \<and> t \<noteq> 0 \<and> t \<noteq> 16 \<and> length bs < 65536"

fun ext_apply :: "hello_ext \<Rightarrow> byte list \<times> byte list list \<Rightarrow> byte list \<times> byte list list" where
  "ext_apply (Ext_SNI name) (sn, ps) = (name, ps)"
| "ext_apply (Ext_ALPN ps') (sn, ps) = (sn, ps')"
| "ext_apply (Ext_Other _ _) (sn, ps) = (sn, ps)"

lemma dns_name_bounds: "dns_name name \<Longrightarrow> name \<noteq> [] \<and> length name \<le> 253"
  by (auto simp: dns_name_def dns_label_ldh)

lemma sni_roundtrip:
  assumes "dns_name name"
  shows "parseTLSServerNameExtension (ext_payload (Ext_SNI name)) = Inr name"
proof -
  have len: "name \<noteq> []" "length name \<le> 253" using dns_name_bounds [OF assms] by auto
  let ?c = "cursor_of (ext_payload (Ext_SNI name))"
  obtain c1 where c1: "cursor_uint16 ?c = Some (int (length name + 3), c1)" "cursor_ok c1"
      "cursor_view c1 = 0 # enc16 (length name) @ name"
    using tc.u16_enc [of ?c "length name + 3" "0 # enc16 (length name) @ name"] len by auto
  obtain c2 where c2: "cursor_uint8 c1 = Some (0, c2)" "cursor_ok c2"
      "cursor_view c2 = enc16 (length name) @ name"
    using tc.u8_view [OF c1(2,3)] by auto
  obtain c3 where c3: "cursor_uint16 c2 = Some (int (length name), c3)" "cursor_ok c3"
      "cursor_view c3 = name @ []"
    using tc.u16_enc [OF c2(2,3)] len by auto
  obtain c4 where c4: "cursor_take (int (length name)) c3 = Some (name, c4)" "cursor_ok c4"
      "cursor_view c4 = []"
    using tc.tk_append [OF c3(2,3)] by auto
  have "validateTLSClientHelloServerName name = None" using assms by (simp add: validate_iff)
  then have "sni_loop c1 [] False = sni_loop c4 name True"
    using c1 c2 c3 c4 len
    by (subst sni_loop.simps) (simp add: tc.left_pos_iff tls_consts)
  also have "\<dots> = Inr name" using c4 by (subst sni_loop.simps) (simp add: tc.left_view)
  finally show ?thesis
    using c1 by (simp add: parseTLSServerNameExtension_def tc.left_view)
qed

lemma alpn_loop_enc:
  assumes "cursor_ok c" and "cursor_view c = enc_alpn_list ps"
    and "\<forall>p \<in> set ps. p \<noteq> [] \<and> length p < 256" and "length acc + length ps \<le> 256"
  shows "alpn_loop c acc = Inr (acc @ ps)"
  using assms
proof (induction ps arbitrary: c acc)
  case Nil
  then show ?case by (subst alpn_loop.simps) (simp add: tc.left_view enc_alpn_list_def)
next
  case (Cons p ps)
  have v: "cursor_view c = word_of_nat (length p) # p @ enc_alpn_list ps"
    using Cons.prems by (simp add: enc_alpn_list_def)
  obtain c1 where c1: "cursor_uint8 c = Some (int (length p), c1)" "cursor_ok c1"
      "cursor_view c1 = p @ enc_alpn_list ps"
    using tc.u8_enc [OF Cons.prems(1) v] Cons.prems by auto
  obtain c2 where c2: "cursor_take (int (length p)) c1 = Some (p, c2)" "cursor_ok c2"
      "cursor_view c2 = enc_alpn_list ps"
    using tc.tk_append [OF c1(2,3)] by auto
  have "cursor_view c \<noteq> []" using v by simp
  then have "alpn_loop c acc = alpn_loop c2 (acc @ [p])"
    using Cons.prems c1 c2 by (subst alpn_loop.simps) (simp add: tc.left_pos_iff tls_consts)
  also have "\<dots> = Inr ((acc @ [p]) @ ps)" using Cons.prems c2 by (intro Cons.IH) auto
  finally show ?case by simp
qed

lemma alpn_roundtrip:
  assumes "ext_valid (Ext_ALPN ps)"
  shows "parseTLSALPNExtension (ext_payload (Ext_ALPN ps)) = Inr ps"
proof -
  let ?c = "cursor_of (ext_payload (Ext_ALPN ps))"
  obtain c1 where c1: "cursor_uint16 ?c = Some (int (length (enc_alpn_list ps)), c1)" "cursor_ok c1"
      "cursor_view c1 = enc_alpn_list ps"
    using tc.u16_enc [of ?c "length (enc_alpn_list ps)" "enc_alpn_list ps"] assms by auto
  have "enc_alpn_list ps \<noteq> []" using assms by (cases ps) (auto simp: enc_alpn_list_def)
  then show ?thesis
    using c1 alpn_loop_enc [OF c1(2,3), of "[]"] assms
    by (simp add: parseTLSALPNExtension_def tc.left_view)
qed

lemma ext_payload_length: "ext_valid e \<Longrightarrow> length (ext_payload e) < 65536"
  by (cases e) (auto dest: dns_name_bounds)

lemma ext_type_bound: "ext_valid e \<Longrightarrow> ext_type e < 65536"
  by (cases e) auto

lemma extensions_loop_enc:
  assumes "cursor_ok c" and "cursor_view c = concat (map enc_ext es)"
    and "\<forall>e \<in> set es. ext_valid e" and "distinct (map ext_type es)"
    and "set seen \<inter> int ` ext_type ` set es = {}"
    and "count + int (length es) \<le> 256"
  shows "extensions_loop c seen sn ps count = Inr (fold ext_apply es (sn, ps))"
  using assms
proof (induction es arbitrary: c seen sn ps count)
  case Nil
  then show ?case by (subst extensions_loop.simps) (simp add: tc.left_view)
next
  case (Cons e es)
  let ?rest = "concat (map enc_ext es)"
  have b: "ext_type e < 65536" "length (ext_payload e) < 65536"
    using Cons.prems ext_type_bound ext_payload_length by auto
  have v: "cursor_view c = enc16 (ext_type e) @ enc16 (length (ext_payload e)) @ ext_payload e @ ?rest"
    using Cons.prems by (simp add: enc_ext_def [of e])
  obtain c1 where c1: "cursor_uint16 c = Some (int (ext_type e), c1)" "cursor_ok c1"
      "cursor_view c1 = enc16 (length (ext_payload e)) @ ext_payload e @ ?rest"
    using tc.u16_enc [OF Cons.prems(1) v b(1)] by auto
  obtain c2 where c2: "cursor_uint16 c1 = Some (int (length (ext_payload e)), c2)" "cursor_ok c2"
      "cursor_view c2 = ext_payload e @ ?rest"
    using tc.u16_enc [OF c1(2,3) b(2)] by auto
  obtain c3 where c3: "cursor_take (int (length (ext_payload e))) c2 = Some (ext_payload e, c3)"
      "cursor_ok c3" "cursor_view c3 = ?rest"
    using tc.tk_append [OF c2(2,3)] by auto
  have IH: "extensions_loop c3 (int (ext_type e) # seen) sn' ps' (count + 1) =
      Inr (fold ext_apply es (sn', ps'))" for sn' ps'
    using Cons.prems c3 by (intro Cons.IH) auto
  have fresh: "int (ext_type e) \<notin> set seen" using Cons.prems by auto
  have nonempty: "cursor_view c \<noteq> []" using v by (simp add: enc16_def)
  show ?case
  proof (cases e)
    case (Ext_SNI name)
    then show ?thesis
      using Cons.prems c1 c2 c3 fresh nonempty IH sni_roundtrip [of name]
      by (subst extensions_loop.simps) (simp add: tc.left_pos_iff tls_consts del: ext_payload.simps)
  next
    case (Ext_ALPN qs)
    then show ?thesis
      using Cons.prems c1 c2 c3 fresh nonempty IH alpn_roundtrip [of qs]
      by (subst extensions_loop.simps) (simp add: tc.left_pos_iff tls_consts del: ext_payload.simps)
  next
    case (Ext_Other t bs)
    then show ?thesis
      using Cons.prems c1 c2 c3 fresh nonempty IH
      by (subst extensions_loop.simps) (simp add: tc.left_pos_iff tls_consts)
  qed
qed


section \<open>Round trip of a whole ClientHello\<close>

record client_hello =
  ch_minor :: byte
  ch_random :: "byte list"
  ch_session :: "byte list"
  ch_suites :: "byte list"
  ch_compression :: "byte list"
  ch_extensions :: "hello_ext list"

definition enc_body :: "client_hello \<Rightarrow> byte list" where
  "enc_body h = [3, ch_minor h] @ ch_random h
     @ [word_of_nat (length (ch_session h))] @ ch_session h
     @ enc16 (length (ch_suites h)) @ ch_suites h
     @ [word_of_nat (length (ch_compression h))] @ ch_compression h
     @ enc16 (length (concat (map enc_ext (ch_extensions h)))) @ concat (map enc_ext (ch_extensions h))"

definition hello_valid :: "client_hello \<Rightarrow> bool" where
  "hello_valid h \<longleftrightarrow> length (ch_random h) = 32 \<and> length (ch_session h) \<le> 32
     \<and> 0 < length (ch_suites h) \<and> length (ch_suites h) < 65536 \<and> even (length (ch_suites h))
     \<and> 0 < length (ch_compression h) \<and> length (ch_compression h) < 256
     \<and> length (concat (map enc_ext (ch_extensions h))) < 65536
     \<and> length (ch_extensions h) \<le> 256 \<and> distinct (map ext_type (ch_extensions h))
     \<and> (\<forall>e \<in> set (ch_extensions h). ext_valid e)"

definition hello_fields :: "client_hello \<Rightarrow> byte list \<times> byte list list" where
  "hello_fields h = fold ext_apply (ch_extensions h) ([], [])"

lemma extensions_roundtrip:
  assumes "hello_valid h"
  shows "parseTLSClientHelloExtensions (concat (map enc_ext (ch_extensions h))) = Inr (hello_fields h)"
  unfolding parseTLSClientHelloExtensions_def hello_fields_def
  using assms by (intro extensions_loop_enc) (auto simp: hello_valid_def)

lemma body_roundtrip:
  assumes "hello_valid h"
  shows "parseTLSClientHelloBody (enc_body h) = Inr (hello_fields h)"
proof -
  note hv = assms [unfolded hello_valid_def]
  let ?es = "concat (map enc_ext (ch_extensions h))"
  define t8 where "t8 = enc16 (length ?es) @ ?es"
  define t7 where "t7 = ch_compression h @ t8"
  define t6 where "t6 = word_of_nat (length (ch_compression h)) # t7"
  define t5 where "t5 = ch_suites h @ t6"
  define t4 where "t4 = enc16 (length (ch_suites h)) @ t5"
  define t3 where "t3 = ch_session h @ t4"
  define t2 where "t2 = word_of_nat (length (ch_session h)) # t3"
  define t1 where "t1 = ch_random h @ t2"
  let ?c = "cursor_of (enc_body h)"
  have v0: "cursor_view ?c = [3, ch_minor h] @ t1"
    by (simp add: enc_body_def t1_def t2_def t3_def t4_def t5_def t6_def t7_def t8_def)
  obtain c1 where c1: "cursor_take 2 ?c = Some ([3, ch_minor h], c1)" "cursor_ok c1" "cursor_view c1 = t1"
    using tc.tk_append [OF _ v0] by auto
  obtain c2 where c2: "cursor_take 32 c1 = Some (ch_random h, c2)" "cursor_ok c2" "cursor_view c2 = t2"
    using tc.tk_append [OF c1(2) c1(3) [unfolded t1_def]] hv by auto
  obtain c3 where c3: "cursor_uint8 c2 = Some (int (length (ch_session h)), c3)" "cursor_ok c3" "cursor_view c3 = t3"
    using tc.u8_enc [OF c2(2) c2(3) [unfolded t2_def]] hv by auto
  obtain c4 where c4: "cursor_take (int (length (ch_session h))) c3 = Some (ch_session h, c4)" "cursor_ok c4" "cursor_view c4 = t4"
    using tc.tk_append [OF c3(2) c3(3) [unfolded t3_def]] by auto
  obtain c5 where c5: "cursor_uint16 c4 = Some (int (length (ch_suites h)), c5)" "cursor_ok c5" "cursor_view c5 = t5"
    using tc.u16_enc [OF c4(2) c4(3) [unfolded t4_def]] hv by auto
  obtain c6 where c6: "cursor_take (int (length (ch_suites h))) c5 = Some (ch_suites h, c6)" "cursor_ok c6" "cursor_view c6 = t6"
    using tc.tk_append [OF c5(2) c5(3) [unfolded t5_def]] by auto
  obtain c7 where c7: "cursor_uint8 c6 = Some (int (length (ch_compression h)), c7)" "cursor_ok c7" "cursor_view c7 = t7"
    using tc.u8_enc [OF c6(2) c6(3) [unfolded t6_def]] hv by auto
  obtain c8 where c8: "cursor_take (int (length (ch_compression h))) c7 = Some (ch_compression h, c8)" "cursor_ok c8" "cursor_view c8 = t8"
    using tc.tk_append [OF c7(2) c7(3) [unfolded t7_def]] by auto
  obtain c9 where c9: "cursor_uint16 c8 = Some (int (length ?es), c9)" "cursor_ok c9" "cursor_view c9 = ?es @ []"
    using tc.u16_enc [OF c8(2) c8(3) [unfolded t8_def]] hv by auto
  obtain c10 where c10: "cursor_take (int (length ?es)) c9 = Some (?es, c10)"
    using tc.tk_append [OF c9(2,3)] by auto
  have "remaining c8 \<noteq> 0" and "remaining c9 = int (length ?es)"
    using c8 c9 by (simp_all add: tc.left_view t8_def enc16_def)
  moreover have "int (length (ch_suites h)) mod 2 = 0" using hv by presburger
  ultimately show ?thesis
    unfolding parseTLSClientHelloBody_def
    using hv c1(1) c2(1) c3(1) c4(1) c5(1) c6(1) c7(1) c8(1) c9(1) c10 extensions_roundtrip [OF assms]
    by simp
qed

section \<open>The record loop keeps every byte\<close>

lemma readBytes_raw:
  "readTLSClientHelloBytes r n maxBytes raw = (err, dst, raw', r') \<Longrightarrow>
     raw' @ r' = raw @ r \<and> int (length raw') \<le> max (int (length raw)) maxBytes"
  by (auto simp: readTLSClientHelloBytes_def read_full_def split: if_splits)

text \<open>What a probe keeps of the one it started from: the bytes read so far and the bytes left
  make up the stream, and the limit holds.\<close>

definition probe_kept :: "int \<Rightarrow> tlsClientHelloProbe \<Rightarrow> byte list \<Rightarrow> tlsClientHelloProbe \<Rightarrow> byte list \<Rightarrow> bool" where
  "probe_kept maxBytes probe r probe' r' \<longleftrightarrow> Raw probe' @ r' = Raw probe @ r
     \<and> int (length (Raw probe')) \<le> max (int (length (Raw probe))) maxBytes"

definition same_fields :: "tlsClientHelloProbe \<Rightarrow> tlsClientHelloProbe \<Rightarrow> bool" where
  "same_fields p q \<longleftrightarrow> ServerName p = ServerName q \<and> ALPNProtocols p = ALPNProtocols q"

lemma handshake_step_kept:
  "handshake_step m p h r = Return p' e r' \<Longrightarrow> r' = r \<and> Raw p' = Raw p \<and> (e \<noteq> None \<longrightarrow> same_fields p' p)"
  by (auto simp: handshake_step_def same_fields_def Let_def split: if_splits sum.splits)

lemma record_step_return:
  "record_step r m p h = Return p' e r' \<Longrightarrow> probe_kept m p r p' r' \<and> (e \<noteq> None \<longrightarrow> same_fields p' p)"
  by (auto simp: record_step_def probe_kept_def same_fields_def Let_def
      split: prod.splits option.splits if_splits dest!: handshake_step_kept readBytes_raw)

lemma record_step_continue:
  "record_step r m p h = Continue r' p' h' \<Longrightarrow> probe_kept m p r p' r' \<and> same_fields p' p"
  by (auto simp: record_step_def probe_kept_def same_fields_def Let_def
      split: prod.splits option.splits if_splits dest!: handshake_step_reader readBytes_raw)

lemma read_records_kept:
  assumes "read_records r m p h = (p', e, r')"
  shows "probe_kept m p r p' r' \<and> (e \<noteq> None \<longrightarrow> same_fields p' p)"
  using assms
proof (induction r m p h rule: read_records.induct)
  case (1 r m p h)
  show ?case
  proof (cases "record_step r m p h")
    case (Return q f s)
    then show ?thesis
      using "1.prems" record_step_return [OF Return] by (simp add: read_records.simps)
  next
    case (Continue s q g)
    then have "read_records s m q g = (p', e, r')"
      using "1.prems" by (simp add: read_records.simps [of r])
    from "1.IH" [OF Continue this] record_step_continue [OF Continue] show ?thesis
      by (auto simp: probe_kept_def same_fields_def)
  qed
qed

lemma readTLSClientHello_kept:
  assumes "readTLSClientHello (Some input) maxBytes = (probe, err, rest)"
  shows "Raw probe @ rest = input" and "int (length (Raw probe)) \<le> max 0 maxBytes"
    and "err \<noteq> None \<Longrightarrow> ServerName probe = [] \<and> ALPNProtocols probe = []"
  using assms read_records_kept [of input maxBytes empty_probe "[]" probe err rest]
  by (auto simp: readTLSClientHello_def empty_probe_def probe_kept_def same_fields_def split: if_splits)

section \<open>Reading a ClientHello from any sequence of records\<close>

definition enc_handshake :: "byte list \<Rightarrow> byte list" where
  "enc_handshake body = [1, word_of_nat (length body div 65536)] @ enc16 (length body mod 65536) @ body"

definition enc_record :: "byte \<Rightarrow> byte list \<Rightarrow> byte list" where
  "enc_record minor frag = [22, 3, minor] @ enc16 (length frag) @ frag"

definition enc_records :: "byte \<Rightarrow> byte list list \<Rightarrow> byte list" where
  "enc_records minor frags = concat (map (enc_record minor) frags)"

lemma length_enc_record: "length (enc_record v f) = 5 + length f"
  by (simp add: enc_record_def)

lemma declared_length:
  assumes "length body < 16777216" and "enc_handshake body = pre @ suf" and "4 \<le> length pre"
  shows "pre ! 0 = 1" and "uint (pre ! 1) * 65536 + uint (pre ! 2) * 256 + uint (pre ! 3) = int (length body)"
proof -
  let ?n = "length body"
  have pre: "pre ! i = enc_handshake body ! i" if "i < 4" for i
    using that assms by (simp add: nth_append)
  show "pre ! 0 = 1" using pre [of 0] by (simp add: enc_handshake_def)
  have "?n div 65536 < 256" using assms(1) by (simp add: less_mult_imp_div_less)
  then have "uint (pre ! 1) = int (?n div 65536)"
    using pre [of 1] by (simp add: enc_handshake_def uint_word_of_nat_byte)
  moreover have "uint (pre ! 2) * 256 + uint (pre ! 3) = int (?n mod 65536)"
    using pre [of 2] pre [of 3] be16_enc16 [of "?n mod 65536"]
    by (simp add: enc_handshake_def be16_def enc16_def numeral_2_eq_2 numeral_3_eq_3)
  moreover have "int (?n div 65536) * 65536 + int (?n mod 65536) = int ?n"
    by (metis div_mult_mod_eq of_nat_add of_nat_mult of_nat_numeral)
  ultimately show "uint (pre ! 1) * 65536 + uint (pre ! 2) * 256 + uint (pre ! 3) = int ?n"
    by linarith
qed

lemma record_step_enc:
  assumes "length f \<le> 16384" and "int (length (Raw p) + 5 + length f) \<le> m"
  shows "record_step (enc_record v f @ s) m p h =
    handshake_step m (p\<lparr>Raw := Raw p @ enc_record v f\<rparr>) (h @ f) s"
proof -
  let ?n = "length f"
  have hd: "be16 (word_of_nat (?n div 256)) (word_of_nat (?n mod 256)) = int ?n"
    using assms by (intro be16_enc16) simp
  have "readTLSClientHelloBytes (enc_record v f @ s) 5 m (Raw p) =
      (None, [22, 3, v] @ enc16 ?n, Raw p @ [22, 3, v] @ enc16 ?n, f @ s)"
    using assms by (simp add: readTLSClientHelloBytes_def read_full_def enc_record_def enc16_def)
  moreover have "readTLSClientHelloBytes (f @ s) ?n m (Raw p @ [22, 3, v] @ enc16 ?n) =
      (None, f, Raw p @ enc_record v f, s)"
    using assms by (simp add: readTLSClientHelloBytes_def read_full_def enc_record_def)
  ultimately show ?thesis
    using assms hd by (simp add: record_step_def tls_consts enc16_def)
qed

lemma read_records_enc:
  assumes "frags \<noteq> []" and "\<forall>f \<in> set frags. f \<noteq> [] \<and> length f \<le> 16384"
    and "h @ concat frags = enc_handshake body" and "length body < 16777216"
    and "int (4 + length body) \<le> m" and "int (length (Raw p) + length (enc_records v frags)) \<le> m"
    and "parseTLSClientHelloBody body = Inr (sn, ps)"
  shows "read_records (enc_records v frags @ s) m p h =
    (p\<lparr>Raw := Raw p @ enc_records v frags, ServerName := sn, ALPNProtocols := ps\<rparr>, None, s)"
  using assms
proof (induction frags arbitrary: h p)
  case (Cons f frags)
  let ?p = "p\<lparr>Raw := Raw p @ enc_record v f\<rparr>"
  let ?s = "enc_records v frags @ s"
  have whole: "(h @ f) @ concat frags = enc_handshake body" using Cons.prems by simp
  have step: "record_step (enc_records v (f # frags) @ s) m p h = handshake_step m ?p (h @ f) ?s"
    using record_step_enc [of f p m v ?s h] Cons.prems
    by (simp add: enc_records_def length_enc_record)
  note decl = declared_length [OF Cons.prems(4) whole [symmetric]]
  show ?case
  proof (cases "frags = []")
    case True
    then have hf: "h @ f = enc_handshake body" using whole by simp
    then have len: "length (h @ f) = 4 + length body" by (simp add: enc_handshake_def)
    have "handshake_step m ?p (h @ f) ?s = Return (?p\<lparr>ServerName := sn, ALPNProtocols := ps\<rparr>) None s"
      using decl len Cons.prems(5,7) True hf
      by (simp add: handshake_step_def tls_consts enc_records_def nat_add_distrib)
        (simp add: enc_handshake_def enc16_def)
    then show ?thesis using True step by (subst read_records.simps) (simp add: enc_records_def)
  next
    case False
    then have "concat frags \<noteq> []" using Cons.prems(2) by (cases frags) auto
    then have "length (h @ f) < 4 + length body"
      using arg_cong [OF whole, of length] by (cases "concat frags") (simp_all add: enc_handshake_def)
    then have "handshake_step m ?p (h @ f) ?s = Continue ?s ?p (h @ f)"
      using decl Cons.prems(5) by (simp add: handshake_step_def tls_consts)
    then have "read_records (enc_records v (f # frags) @ s) m p h = read_records ?s m ?p (h @ f)"
      using step by (subst read_records.simps) simp
    also have "\<dots> = (?p\<lparr>Raw := Raw ?p @ enc_records v frags, ServerName := sn, ALPNProtocols := ps\<rparr>, None, s)"
      using Cons.prems whole False by (intro Cons.IH) (auto simp: enc_records_def)
    finally show ?thesis by (simp add: enc_records_def)
  qed
qed simp

lemma length_enc_records: "length (concat frags) \<le> length (enc_records v frags)"
  by (induction frags) (simp_all add: enc_records_def length_enc_record)

lemma enc_body_length: "hello_valid h \<Longrightarrow> length (enc_body h) < 16777216"
  by (simp add: hello_valid_def enc_body_def)

section \<open>Properties\<close>

text \<open>C18: whatever the client sends, the bytes retained in \<^verbatim>\<open>Raw\<close> followed by the bytes still in
  the reader are the input, on success and on every error path, and \<^verbatim>\<open>Raw\<close> never exceeds the
  probe limit.\<close>

theorem readTLSClientHello_transparent:
  "case readTLSClientHello (Some input) maxBytes of (probe, err, rest) \<Rightarrow>
     Raw probe @ rest = input \<and> int (length (Raw probe)) \<le> max 0 maxBytes"
  by (auto split: prod.split dest: readTLSClientHello_kept)

text \<open>C19: a ClientHello with any extensions, cut into any records a TLS peer may send, is
  recognised: the probe reports the server name and the ALPN list it carries, \<^verbatim>\<open>Raw\<close> is exactly the
  records, and nothing beyond them is consumed.\<close>

theorem readTLSClientHello_roundtrip:
  assumes "hello_valid h" and "frags \<noteq> []"
    and "\<forall>f \<in> set frags. f \<noteq> [] \<and> length f \<le> 16384"
    and "concat frags = enc_handshake (enc_body h)"
    and "int (length (enc_records v frags)) \<le> maxBytes"
  shows "readTLSClientHello (Some (enc_records v frags @ rest)) maxBytes =
    (\<lparr>ServerName = fst (hello_fields h), ALPNProtocols = snd (hello_fields h),
      Raw = enc_records v frags\<rparr>, None, rest)"
proof -
  have "length (concat frags) = 4 + length (enc_body h)"
    unfolding assms(4) by (simp add: enc_handshake_def)
  then have len: "int (4 + length (enc_body h)) \<le> maxBytes"
    using length_enc_records [of frags v] assms(5) by linarith
  have "read_records (enc_records v frags @ rest) maxBytes empty_probe [] =
      (empty_probe\<lparr>Raw := Raw empty_probe @ enc_records v frags,
         ServerName := fst (hello_fields h), ALPNProtocols := snd (hello_fields h)\<rparr>, None, rest)"
    using assms len enc_body_length [OF assms(1)] body_roundtrip [OF assms(1)]
    by (intro read_records_enc) (simp_all add: empty_probe_def)
  then show ?thesis using len by (simp add: readTLSClientHello_def empty_probe_def)
qed

definition sample_hello :: client_hello where
  "sample_hello = \<lparr>ch_minor = 3, ch_random = replicate 32 0, ch_session = [], ch_suites = [19, 1],
     ch_compression = [0], ch_extensions = [Ext_ALPN [[104, 50]], Ext_SNI [97, 46, 98]]\<rparr>"

theorem readTLSClientHello_roundtrip_witness:
  "readTLSClientHello (Some (enc_records 1 [take 3 (enc_handshake (enc_body sample_hello)),
       drop 3 (enc_handshake (enc_body sample_hello))] @ [7])) 1000 =
    (\<lparr>ServerName = [97, 46, 98], ALPNProtocols = [[104, 50]],
      Raw = enc_records 1 [take 3 (enc_handshake (enc_body sample_hello)),
        drop 3 (enc_handshake (enc_body sample_hello))]\<rparr>, None, [7])"
proof -
  let ?fs = "[take 3 (enc_handshake (enc_body sample_hello)), drop 3 (enc_handshake (enc_body sample_hello))]"
  have v: "hello_valid sample_hello"
    by (simp add: hello_valid_def sample_hello_def enc_ext_def enc_alpn_list_def dns_name_def
        dns_label_ldh is_ldh_def)
  have f: "\<forall>f \<in> set ?fs. f \<noteq> [] \<and> length f \<le> 16384"
    by (simp add: enc_handshake_def enc_body_def sample_hello_def enc_ext_def enc_alpn_list_def)
  have l: "int (length (enc_records 1 ?fs)) \<le> 1000"
    by (simp add: enc_records_def enc_record_def enc_handshake_def enc_body_def sample_hello_def
        enc_ext_def enc_alpn_list_def)
  have "hello_fields sample_hello = ([97, 46, 98], [[104, 50]])"
    by (simp add: hello_fields_def sample_hello_def)
  then show ?thesis
    using readTLSClientHello_roundtrip [OF v _ f _ l, of "[7]"] by simp
qed

text \<open>C20: the byte loop that validates an offered host name accepts exactly the DNS names: at
  most 253 bytes, every dot-separated label non-empty, at most 63 characters of the alphabet written
  out in \<open>dns_alphabet\<close> (letters, digits and the hyphen), with no hyphen at either end.\<close>

theorem validateTLSClientHelloServerName_iff_dns_name:
  "validateTLSClientHelloServerName name = None \<longleftrightarrow> dns_name name"
  by (rule validate_iff)

end
