(* ===== verification/TLS_Routing.thy ===== *)
theory TLS_Routing
  imports Moto_Config TLS_ClientHello
begin

text \<open>
  Target selection from a ClientHello probe (\<^verbatim>\<open>controller/tls_routing.go\<close>): the targets whose
  SNI and ALPN matchers accept the probe, in configuration order, then the targets without
  matchers, the fallbacks.
\<close>

fun matchesTLSServerName :: "string list \<Rightarrow> string \<Rightarrow> bool" where
  "matchesTLSServerName [] serverName = False"
| "matchesTLSServerName (pattern # patterns) serverName =
     (if serverName = [] then False
      else if pattern = serverName then True
      else if \<not> has_prefix pattern ''*.'' then matchesTLSServerName patterns serverName
      else let suff = drop 1 pattern in
        if \<not> has_suffix serverName suff then matchesTLSServerName patterns serverName
        else let left = trim_suffix serverName suff in
          if left \<noteq> [] \<and> CHR ''.'' \<notin> set left then True
          else matchesTLSServerName patterns serverName)"

fun matchesTLSALPN :: "string list \<Rightarrow> string set \<Rightarrow> bool" where
  "matchesTLSALPN [] offered = False"
| "matchesTLSALPN (candidate # wanted) offered =
     (if candidate \<in> offered then True else matchesTLSALPN wanted offered)"

text \<open>The loop over the targets of the rule; a nil target is \<open>None\<close>.\<close>

fun tls_targets_loop ::
  "string \<Rightarrow> string set \<Rightarrow> Target option list \<Rightarrow> Target list \<Rightarrow> Target list \<Rightarrow> Target list" where
  "tls_targets_loop serverName offered [] matched fallbacks = matched @ fallbacks"
| "tls_targets_loop serverName offered (None # targets) matched fallbacks =
     tls_targets_loop serverName offered targets matched fallbacks"
| "tls_targets_loop serverName offered (Some target # targets) matched fallbacks =
     (if length (ServerNames target) = 0 \<and> length (ALPN target) = 0
      then tls_targets_loop serverName offered targets matched (fallbacks @ [target])
      else if length (ServerNames target) > 0 \<and> \<not> matchesTLSServerName (ServerNames target) serverName
      then tls_targets_loop serverName offered targets matched fallbacks
      else if length (ALPN target) > 0 \<and> \<not> matchesTLSALPN (ALPN target) offered
      then tls_targets_loop serverName offered targets matched fallbacks
      else tls_targets_loop serverName offered targets (matched @ [target]) fallbacks)"

text \<open>The argument is \<^verbatim>\<open>rule.Targets\<close>; a nil rule is \<open>None\<close>.\<close>

definition matchingTLSTargets :: "Target option list option \<Rightarrow> tlsClientHelloProbe \<Rightarrow> Target list" where
  "matchingTLSTargets targets probe =
     (case targets of
        None \<Rightarrow> []
      | Some ts \<Rightarrow>
          tls_targets_loop (to_lower (bytes_string (ServerName probe)))
            (set (map bytes_string (ALPNProtocols probe))) ts [] [])"

section \<open>What the matchers decide\<close>

text \<open>A wildcard stands for exactly one non-empty left-most label.\<close>

definition sni_matches :: "string \<Rightarrow> string \<Rightarrow> bool" where
  "sni_matches pattern name \<longleftrightarrow> name \<noteq> [] \<and>
     (pattern = name \<or> (\<exists>rest label. pattern = ''*.'' @ rest \<and> label \<noteq> [] \<and> CHR ''.'' \<notin> set label
        \<and> name = label @ ''.'' @ rest))"

lemma wildcard_step:
  assumes "has_prefix pattern ''*.''"
  shows "(has_suffix name (drop 1 pattern) \<and> trim_suffix name (drop 1 pattern) \<noteq> []
      \<and> CHR ''.'' \<notin> set (trim_suffix name (drop 1 pattern))) \<longleftrightarrow>
    (\<exists>rest label. pattern = ''*.'' @ rest \<and> label \<noteq> [] \<and> CHR ''.'' \<notin> set label \<and> name = label @ ''.'' @ rest)"
proof -
  obtain rest where p: "pattern = ''*.'' @ rest" using assms by (auto simp: has_prefix_iff)
  show ?thesis
  proof
    assume l: "has_suffix name (drop 1 pattern) \<and> trim_suffix name (drop 1 pattern) \<noteq> []
      \<and> CHR ''.'' \<notin> set (trim_suffix name (drop 1 pattern))"
    then obtain t where "name = t @ drop 1 pattern" by (auto simp: has_suffix_iff)
    with l p show "\<exists>rest label. pattern = ''*.'' @ rest \<and> label \<noteq> [] \<and> CHR ''.'' \<notin> set label
        \<and> name = label @ ''.'' @ rest"
      by auto
  next
    assume "\<exists>rest label. pattern = ''*.'' @ rest \<and> label \<noteq> [] \<and> CHR ''.'' \<notin> set label
        \<and> name = label @ ''.'' @ rest"
    then obtain label where l: "label \<noteq> []" "CHR ''.'' \<notin> set label" "name = label @ drop 1 pattern"
      using p by auto
    then have "has_suffix name (drop 1 pattern)" "trim_suffix name (drop 1 pattern) = label"
      by (auto simp: has_suffix_iff)
    with l show "has_suffix name (drop 1 pattern) \<and> trim_suffix name (drop 1 pattern) \<noteq> []
      \<and> CHR ''.'' \<notin> set (trim_suffix name (drop 1 pattern))" by simp
  qed
qed

lemma matchesTLSServerName_iff:
  "matchesTLSServerName patterns name \<longleftrightarrow> (\<exists>p \<in> set patterns. sni_matches p name)"
proof (induction patterns)
  case (Cons p ps)
  show ?case
  proof (cases "has_prefix p ''*.''")
    case True
    then have "matchesTLSServerName (p # ps) name \<longleftrightarrow> name \<noteq> [] \<and>
        (p = name \<or> (has_suffix name (drop 1 p) \<and> trim_suffix name (drop 1 p) \<noteq> []
          \<and> CHR ''.'' \<notin> set (trim_suffix name (drop 1 p))) \<or> matchesTLSServerName ps name)"
      by (simp add: Let_def)
    also have "\<dots> \<longleftrightarrow> name \<noteq> [] \<and> (sni_matches p name \<or> matchesTLSServerName ps name)"
      unfolding wildcard_step [OF True, of name] sni_matches_def by blast
    also have "\<dots> \<longleftrightarrow> (\<exists>q \<in> set (p # ps). sni_matches q name)"
      unfolding Cons.IH by (auto simp: sni_matches_def)
    finally show ?thesis .
  next
    case False
    then have "\<not> (\<exists>rest. p = ''*.'' @ rest)" by (simp add: has_prefix_iff)
    then show ?thesis using False Cons.IH by (auto simp: sni_matches_def)
  qed
qed simp

lemma matchesTLSALPN_iff: "matchesTLSALPN wanted offered \<longleftrightarrow> set wanted \<inter> offered \<noteq> {}"
  by (induction wanted) auto

definition is_fallback :: "Target \<Rightarrow> bool" where
  "is_fallback t \<longleftrightarrow> ServerNames t = [] \<and> ALPN t = []"

definition accepts :: "string \<Rightarrow> string set \<Rightarrow> Target \<Rightarrow> bool" where
  "accepts name offered t \<longleftrightarrow> \<not> is_fallback t
     \<and> (ServerNames t \<noteq> [] \<longrightarrow> (\<exists>p \<in> set (ServerNames t). sni_matches p name))
     \<and> (ALPN t \<noteq> [] \<longrightarrow> set (ALPN t) \<inter> offered \<noteq> {})"

definition present :: "'a option list \<Rightarrow> 'a list" where
  "present xs = List.map_filter id xs"

lemma present_simps [simp]:
  "present [] = []" "present (None # xs) = present xs" "present (Some x # xs) = x # present xs"
  by (simp_all add: present_def map_filter_simps)

lemma tls_targets_loop_filter:
  "tls_targets_loop name offered ts matched fallbacks =
     matched @ filter (accepts name offered) (present ts) @ fallbacks @ filter is_fallback (present ts)"
  by (induction name offered ts matched fallbacks rule: tls_targets_loop.induct)
    (auto simp: accepts_def is_fallback_def matchesTLSServerName_iff matchesTLSALPN_iff)

lemma no_sni_no_alpn_accepts: "\<not> accepts [] {} t"
  by (auto simp: accepts_def is_fallback_def sni_matches_def)

section \<open>Properties\<close>

text \<open>target selection keeps the configuration order: the targets whose SNI and ALPN
  matchers accept the probe come first, the targets without matchers follow.\<close>

theorem matchingTLSTargets_explicit_then_fallback:
  "matchingTLSTargets (Some targets) probe =
     filter (accepts (to_lower (bytes_string (ServerName probe)))
       (set (map bytes_string (ALPNProtocols probe)))) (present targets)
     @ filter is_fallback (present targets)"
  by (simp add: matchingTLSTargets_def tls_targets_loop_filter)

text \<open>when the ClientHello cannot be parsed, explicit SNI and ALPN matchers never match: only
  fallback targets can carry the connection.\<close>

theorem tls_parse_failure_only_fallbacks:
  assumes "readTLSClientHello (Some input) maxBytes = (probe, Some err, rest)"
  shows "matchingTLSTargets (Some targets) probe = filter is_fallback (present targets)"
proof -
  have "ServerName probe = []" "ALPNProtocols probe = []"
    using readTLSClientHello_kept(3) [OF assms] by simp_all
  then show ?thesis
    by (simp add: matchingTLSTargets_def tls_targets_loop_filter no_sni_no_alpn_accepts to_lower_def)
qed

theorem tls_parse_failure_only_fallbacks_witness:
  "matchingTLSTargets (Some [Some \<lparr>Regexp = [], Re = None, Address = ''a:1'', ServerNames = [''x''], ALPN = [],
      ConnectProxy = None\<rparr>]) (fst (readTLSClientHello (Some [23, 3, 1, 0, 0]) 64)) = []"
proof -
  have "readTLSClientHello (Some [23, 3, 1, 0, 0]) 64 =
      (\<lparr>ServerName = [], ALPNProtocols = [], Raw = [23, 3, 1, 0, 0]\<rparr>,
       Some (Malformed ''record type is not handshake''), [])"
    by code_simp
  from tls_parse_failure_only_fallbacks [OF this] this show ?thesis
    by (simp add: is_fallback_def)
qed

end
