(* ===== verification/H3_Degradation.thy ===== *)
theory H3_Degradation
  imports Moto_Prelude Complex_Main
begin

text \<open>
  The degradation detector of one QUIC connection
  (\<^verbatim>\<open>controller/connect_proxy_h3_degradation.go\<close>). A sampler calls \<^verbatim>\<open>observe\<close> about every two
  seconds with the connection's counters; the detector keeps a sliding window of deltas, a
  baseline round-trip time and the state of the UDP-blackhole test, and latches the decision to
  rotate the connection.

  \<^verbatim>\<open>quic.ConnectionStats\<close> belongs to a library; the record below has the fields the detector
  reads. Counters are 64-bit words. The detector's \<^verbatim>\<open>float64\<close> rates are exact rationals here:
  rounding is left out. A connection error is a \<open>bool\<close> (whether it is non-nil).
\<close>

section \<open>Data\<close>

definition http3DegradationSampleInterval :: duration where "http3DegradationSampleInterval = 2 * second"
definition http3DegradationWindow :: duration where "http3DegradationWindow = 12 * second"
definition http3DegradationWarmup :: duration where "http3DegradationWarmup = 15 * second"
definition http3DegradationMinPackets :: u64 where "http3DegradationMinPackets = 256"
definition http3DegradationMinBytes :: u64 where "http3DegradationMinBytes = 524288"
definition http3DegradationRTTFactorNumerator :: int where "http3DegradationRTTFactorNumerator = 5"
definition http3DegradationRTTFactorDenominator :: int where "http3DegradationRTTFactorDenominator = 2"
definition http3DegradationRTTAdditive :: duration where "http3DegradationRTTAdditive = 100 * millisecond"
definition http3DegradationRTTFloor :: duration where "http3DegradationRTTFloor = 300 * millisecond"
definition http3DegradationSoftLossRate :: rat where "http3DegradationSoftLossRate = 5 / 100"
definition http3DegradationSevereLossRate :: rat where "http3DegradationSevereLossRate = 15 / 100"
definition http3DegradationLowThroughput :: rat where "http3DegradationLowThroughput = 20 / 100"
definition http3DegradationWireEfficiency :: rat where "http3DegradationWireEfficiency = 20 / 100"
definition http3DegradationSingleWriteBlock :: duration where "http3DegradationSingleWriteBlock = 8 * second"
definition http3DegradationMultiWriteBlock :: duration where "http3DegradationMultiWriteBlock = 4 * second"
definition http3UDPBlackholeStallTimeout :: duration where "http3UDPBlackholeStallTimeout = 8 * second"
definition http3UDPBlackholeConfirmations :: int where "http3UDPBlackholeConfirmations = 2"
definition http3UDPBlackholeMaxSampleGap :: duration where
  "http3UDPBlackholeMaxSampleGap = 3 * http3DegradationSampleInterval"
definition http3UDPBlackholeRecentReadMinBytes :: u64 where "http3UDPBlackholeRecentReadMinBytes = 65536"
definition http3DegradationRequiredSignals :: int where "http3DegradationRequiredSignals = 2"
definition http3DegradationRequiredWindows :: int where "http3DegradationRequiredWindows = 3"

lemmas degradation_consts [go_consts] = http3DegradationSampleInterval_def http3DegradationWindow_def
  http3DegradationWarmup_def http3DegradationMinPackets_def http3DegradationMinBytes_def
  http3DegradationRTTFactorNumerator_def http3DegradationRTTFactorDenominator_def
  http3DegradationRTTAdditive_def http3DegradationRTTFloor_def http3DegradationSoftLossRate_def
  http3DegradationSevereLossRate_def http3DegradationLowThroughput_def
  http3DegradationWireEfficiency_def http3DegradationSingleWriteBlock_def
  http3DegradationMultiWriteBlock_def http3UDPBlackholeStallTimeout_def
  http3UDPBlackholeConfirmations_def http3UDPBlackholeMaxSampleGap_def
  http3UDPBlackholeRecentReadMinBytes_def http3DegradationRequiredSignals_def
  http3DegradationRequiredWindows_def duration_defs

datatype http3DegradationReason =
    ReasonNone | ReasonConnectionError | ReasonSevereLossAndWrite | ReasonSustainedSignals
  | ReasonUDPBlackhole | ReasonOther string

record ConnectionStats =
  MinRTT :: duration
  SmoothedRTT :: duration
  BytesSent :: u64
  PacketsSent :: u64
  BytesReceived :: u64
  PacketsReceived :: u64
  BytesLost :: u64
  PacketsLost :: u64

record http3DegradationSample =
  At :: gotime
  Stats :: ConnectionStats
  PayloadBytes :: u64
  PayloadReadBytes :: u64
  BlockedWrites :: int
  PeakBlockedWrites :: int
  LongBlockedWrites :: int
  OldestBlockedFor :: duration
  LastPayloadProgressAt :: gotime
  BlockedReads :: int
  OldestReadBlockedFor :: duration
  RecentReadDemand :: bool
  HistoricalBaselineRTT :: duration
  ConnectionErr :: bool

record http3DegradationSignals =
  Sampled :: bool
  Warmup :: bool
  EnoughTraffic :: bool
  LossCounterReset :: bool
  BaselineRTT :: duration
  sSmoothedRTT :: duration
  RTTThreshold :: duration
  RTTBad :: bool
  LossRate :: rat
  LossBad :: bool
  SevereLoss :: bool
  PayloadDemand :: bool
  ReadDemand :: bool
  PayloadStalled :: bool
  BlockedWrite :: bool
  ClearWriteBlock :: bool
  ThroughputLow :: bool
  WireWaste :: bool
  UDPBlackhole :: bool
  SentNoReceive :: bool
  sBlockedWrites :: int
  sBlockedReads :: int
  sPeakBlockedWrites :: int
  sOldestBlockedFor :: duration
  sOldestReadBlockedFor :: duration
  LastProgressFor :: duration
  PayloadBytesPerSecond :: rat
  HealthyBytesPerSecond :: rat
  BadSignalCount :: int
  ConsecutiveWindows :: int
  BlackholeWindows :: int
  NoReceiveFor :: duration

record http3DegradationDecision =
  Rotate :: bool
  Reason :: http3DegradationReason
  Signals :: http3DegradationSignals

record http3DegradationWindowDelta =
  dat :: gotime
  bytesSent :: u64
  packetsSent :: u64
  bytesReceived :: u64
  packetsReceived :: u64
  bytesLost :: u64
  packetsLost :: u64
  payloadBytes :: u64
  payloadRead :: u64

record http3DegradationDetector =
  establishedAt :: gotime
  baselineRTT :: duration
  initialized :: bool
  lastAt :: gotime
  lastStats :: ConnectionStats
  lastPayload :: u64
  lastPayloadRead :: u64
  window :: "http3DegradationWindowDelta list"
  consecutiveBadWindows :: int
  healthyPayloadRate :: rat
  latched :: http3DegradationDecision
  wasBidirectional :: bool
  blackholeNoReceiveSince :: gotime
  blackholeSentBytes :: u64
  blackholeSentPackets :: u64
  blackholeSendSamples :: int
  blackholeWindows :: int
  blackholeReadDemand :: bool

text \<open>The zero values of the record types.\<close>

definition zero_stats :: ConnectionStats where
  "zero_stats = \<lparr>MinRTT = 0, SmoothedRTT = 0, BytesSent = 0, PacketsSent = 0, BytesReceived = 0,
     PacketsReceived = 0, BytesLost = 0, PacketsLost = 0\<rparr>"

definition zero_signals :: http3DegradationSignals where
  "zero_signals = \<lparr>Sampled = False, Warmup = False, EnoughTraffic = False, LossCounterReset = False,
     BaselineRTT = 0, sSmoothedRTT = 0, RTTThreshold = 0, RTTBad = False, LossRate = 0,
     LossBad = False, SevereLoss = False, PayloadDemand = False, ReadDemand = False,
     PayloadStalled = False, BlockedWrite = False, ClearWriteBlock = False, ThroughputLow = False,
     WireWaste = False, UDPBlackhole = False, SentNoReceive = False, sBlockedWrites = 0,
     sBlockedReads = 0, sPeakBlockedWrites = 0, sOldestBlockedFor = 0, sOldestReadBlockedFor = 0,
     LastProgressFor = 0, PayloadBytesPerSecond = 0, HealthyBytesPerSecond = 0,
     BadSignalCount = 0, ConsecutiveWindows = 0, BlackholeWindows = 0, NoReceiveFor = 0\<rparr>"

definition zero_decision :: http3DegradationDecision where
  "zero_decision = \<lparr>Rotate = False, Reason = ReasonNone, Signals = zero_signals\<rparr>"

definition zero_delta :: http3DegradationWindowDelta where
  "zero_delta = \<lparr>dat = 0, bytesSent = 0, packetsSent = 0, bytesReceived = 0, packetsReceived = 0,
     bytesLost = 0, packetsLost = 0, payloadBytes = 0, payloadRead = 0\<rparr>"

definition newHTTP3DegradationDetector :: "gotime \<Rightarrow> http3DegradationDetector" where
  "newHTTP3DegradationDetector established =
     \<lparr>establishedAt = established, baselineRTT = 0, initialized = False, lastAt = 0, lastStats = zero_stats,
      lastPayload = 0, lastPayloadRead = 0, window = [], consecutiveBadWindows = 0,
      healthyPayloadRate = 0, latched = zero_decision, wasBidirectional = False,
      blackholeNoReceiveSince = 0, blackholeSentBytes = 0, blackholeSentPackets = 0,
      blackholeSendSamples = 0, blackholeWindows = 0, blackholeReadDemand = False\<rparr>"

section \<open>Helpers\<close>

definition saturatingAdd :: "u64 \<Rightarrow> u64 \<Rightarrow> u64" where
  "saturatingAdd l r = (if (- 1) - l < r then - 1 else l + r)"

definition countersMovedBackward ::
  "http3DegradationSample \<Rightarrow> ConnectionStats \<Rightarrow> u64 \<Rightarrow> u64 \<Rightarrow> bool" where
  "countersMovedBackward sample previous previousPayload previousPayloadRead \<longleftrightarrow>
     BytesSent (Stats sample) < BytesSent previous
     \<or> PacketsSent (Stats sample) < PacketsSent previous
     \<or> BytesReceived (Stats sample) < BytesReceived previous
     \<or> PacketsReceived (Stats sample) < PacketsReceived previous
     \<or> BytesLost (Stats sample) < BytesLost previous
     \<or> PacketsLost (Stats sample) < PacketsLost previous
     \<or> PayloadBytes sample < previousPayload
     \<or> PayloadReadBytes sample < previousPayloadRead"

text \<open>Go's integer division truncates; the dividend is positive here.\<close>

definition http3DegradationRTTThreshold :: "duration \<Rightarrow> duration" where
  "http3DegradationRTTThreshold baseline =
     (if baseline \<le> 0 then 0
      else let factor = baseline * http3DegradationRTTFactorNumerator div http3DegradationRTTFactorDenominator
        in max factor (max (baseline + http3DegradationRTTAdditive) http3DegradationRTTFloor))"

definition http3DegradationLossRate :: "http3DegradationWindowDelta \<Rightarrow> rat" where
  "http3DegradationLossRate w =
     (let packetRate = (if packetsSent w > 0 then rat_of_int (uint (packetsLost w)) / rat_of_int (uint (packetsSent w)) else 0);
          byteRate = (if bytesSent w > 0 then rat_of_int (uint (bytesLost w)) / rat_of_int (uint (bytesSent w)) else 0)
      in min (max packetRate byteRate) 1)"

fun sum_window :: "http3DegradationWindowDelta \<Rightarrow> http3DegradationWindowDelta list \<Rightarrow> http3DegradationWindowDelta" where
  "sum_window acc [] = acc"
| "sum_window acc (delta # rest) =
     sum_window (acc\<lparr>bytesSent := saturatingAdd (bytesSent acc) (bytesSent delta),
       packetsSent := saturatingAdd (packetsSent acc) (packetsSent delta),
       bytesReceived := saturatingAdd (bytesReceived acc) (bytesReceived delta),
       packetsReceived := saturatingAdd (packetsReceived acc) (packetsReceived delta),
       bytesLost := saturatingAdd (bytesLost acc) (bytesLost delta),
       packetsLost := saturatingAdd (packetsLost acc) (packetsLost delta),
       payloadBytes := saturatingAdd (payloadBytes acc) (payloadBytes delta),
       payloadRead := saturatingAdd (payloadRead acc) (payloadRead delta)\<rparr>) rest"

definition sumHTTP3DegradationWindow :: "http3DegradationWindowDelta list \<Rightarrow> http3DegradationWindowDelta" where
  "sumHTTP3DegradationWindow ws = sum_window zero_delta ws"

definition http3DegradationPayloadRate :: "http3DegradationWindowDelta list \<Rightarrow> rat" where
  "http3DegradationPayloadRate ws =
     (if length ws = 0 then 0
      else let bytes = payloadBytes (sumHTTP3DegradationWindow ws);
          dur = (if length ws > 1
            then time_sub (dat (ws ! (length ws - 1))) (dat (ws ! 0)) + http3DegradationSampleInterval
            else http3DegradationSampleInterval)
        in if dur \<le> 0 then 0 else rat_of_int (uint bytes) / (rat_of_int dur / rat_of_int second))"

definition trimWindow :: "gotime \<Rightarrow> http3DegradationDetector \<Rightarrow> http3DegradationDetector" where
  "trimWindow now det =
     det\<lparr>window := dropWhile (\<lambda>d. \<not> (dat d > now - http3DegradationWindow)) (window det)\<rparr>"

definition updateBaseline :: "ConnectionStats \<Rightarrow> duration \<Rightarrow> http3DegradationDetector \<Rightarrow> http3DegradationDetector" where
  "updateBaseline stats historical det =
     (let candidate = (if MinRTT stats \<le> 0 then SmoothedRTT stats else MinRTT stats);
          det = (if candidate > 0 \<and> (baselineRTT det \<le> 0 \<or> candidate < baselineRTT det)
                 then det\<lparr>baselineRTT := candidate\<rparr> else det)
      in if historical > 0 \<and> (baselineRTT det \<le> 0 \<or> historical < baselineRTT det)
         then det\<lparr>baselineRTT := historical\<rparr> else det)"

definition baseSignals :: "http3DegradationDetector \<Rightarrow> http3DegradationSample \<Rightarrow> bool \<Rightarrow> http3DegradationSignals" where
  "baseSignals det sample sampled =
     zero_signals\<lparr>Sampled := sampled,
       Warmup := (At sample < establishedAt det + http3DegradationWarmup),
       BaselineRTT := baselineRTT det,
       sSmoothedRTT := SmoothedRTT (Stats sample),
       RTTThreshold := http3DegradationRTTThreshold (baselineRTT det)\<rparr>"

definition resetUDPBlackhole :: "http3DegradationDetector \<Rightarrow> http3DegradationDetector" where
  "resetUDPBlackhole det =
     det\<lparr>blackholeNoReceiveSince := 0, blackholeSentBytes := 0, blackholeSentPackets := 0,
       blackholeSendSamples := 0, blackholeWindows := 0, blackholeReadDemand := False\<rparr>"

definition liveDecision :: "http3DegradationDetector \<Rightarrow> http3DegradationSignals \<Rightarrow> http3DegradationDecision" where
  "liveDecision det signals =
     (if Rotate (latched det) then \<lparr>Rotate = True, Reason = Reason (latched det), Signals = signals\<rparr>
      else \<lparr>Rotate = False, Reason = ReasonNone, Signals = signals\<rparr>)"

definition initialize :: "http3DegradationSample \<Rightarrow> http3DegradationDetector \<Rightarrow> http3DegradationDetector" where
  "initialize sample det =
     (let det = det\<lparr>initialized := True, lastAt := At sample, lastStats := Stats sample,
            lastPayload := PayloadBytes sample, lastPayloadRead := PayloadReadBytes sample\<rparr>;
          det = (if establishedAt det = 0 then det\<lparr>establishedAt := At sample\<rparr> else det);
          det = updateBaseline (Stats sample) (HistoricalBaselineRTT sample) det
      in det\<lparr>wasBidirectional := (PacketsSent (Stats sample) > 0 \<and> PacketsReceived (Stats sample) > 0)\<rparr>)"

definition resetWindow :: "http3DegradationSample \<Rightarrow> http3DegradationDetector \<Rightarrow> http3DegradationDetector" where
  "resetWindow sample det =
     resetUDPBlackhole (updateBaseline (Stats sample) (HistoricalBaselineRTT sample)
       (det\<lparr>window := [], consecutiveBadWindows := 0, lastAt := At sample, lastStats := Stats sample,
          lastPayload := PayloadBytes sample, lastPayloadRead := PayloadReadBytes sample\<rparr>))"

section \<open>The UDP blackhole test\<close>

text \<open>Demand from a read that was active before it stalled.\<close>

definition blackhole_demand :: "http3DegradationSample \<Rightarrow> http3DegradationDetector \<Rightarrow> http3DegradationDetector" where
  "blackhole_demand sample det =
     (if BlockedReads sample \<le> 0 then det\<lparr>blackholeReadDemand := False\<rparr>
      else if RecentReadDemand sample then det\<lparr>blackholeReadDemand := True\<rparr> else det)"

text \<open>The no-receive clock and the outbound counters.\<close>

definition blackhole_clock ::
  "http3DegradationSample \<Rightarrow> http3DegradationWindowDelta \<Rightarrow> duration \<Rightarrow> http3DegradationDetector \<Rightarrow>
     http3DegradationDetector" where
  "blackhole_clock sample delta sampleGap det =
     (let det = (if blackholeNoReceiveSince det = 0
            then det\<lparr>blackholeNoReceiveSince := At sample - sampleGap\<rparr> else det)
      in if bytesSent delta > 0 \<or> packetsSent delta > 0
         then det\<lparr>blackholeSentBytes := saturatingAdd (blackholeSentBytes det) (bytesSent delta),
           blackholeSentPackets := saturatingAdd (blackholeSentPackets det) (packetsSent delta),
           blackholeSendSamples := blackholeSendSamples det + 1\<rparr> else det)"

definition blackhole_eligible :: "http3DegradationSignals \<Rightarrow> bool" where
  "blackhole_eligible signals =
     (let writeStalled = (PayloadDemand signals \<and> sOldestBlockedFor signals \<ge> http3UDPBlackholeStallTimeout);
          readStalled = (ReadDemand signals \<and> sBlockedReads signals > 0
            \<and> NoReceiveFor signals \<ge> http3UDPBlackholeStallTimeout)
      in \<not> Warmup signals \<and> SentNoReceive signals \<and> (writeStalled \<or> readStalled)
         \<and> LastProgressFor signals \<ge> http3UDPBlackholeStallTimeout
         \<and> NoReceiveFor signals \<ge> http3UDPBlackholeStallTimeout)"

definition blackhole_verdict ::
  "http3DegradationSample \<Rightarrow> http3DegradationDetector \<Rightarrow> http3DegradationSignals \<Rightarrow>
     http3DegradationDetector \<times> http3DegradationSignals" where
  "blackhole_verdict sample det signals =
     (let signals = signals\<lparr>SentNoReceive := (blackholeSendSamples det \<ge> 2
            \<and> (blackholeSentBytes det > 0 \<or> blackholeSentPackets det > 0)),
            NoReceiveFor := time_sub (At sample) (blackholeNoReceiveSince det)\<rparr>
      in if \<not> blackhole_eligible signals
         then (det\<lparr>blackholeWindows := 0\<rparr>, signals\<lparr>BlackholeWindows := 0\<rparr>)
         else let det = det\<lparr>blackholeWindows := blackholeWindows det + 1\<rparr>
           in (det, signals\<lparr>BlackholeWindows := blackholeWindows det,
                UDPBlackhole := (blackholeWindows det \<ge> http3UDPBlackholeConfirmations)\<rparr>))"

definition observeUDPBlackhole ::
  "http3DegradationSample \<Rightarrow> http3DegradationWindowDelta \<Rightarrow> duration \<Rightarrow> http3DegradationDetector \<Rightarrow>
     http3DegradationSignals \<Rightarrow> http3DegradationDetector \<times> http3DegradationSignals" where
  "observeUDPBlackhole sample delta sampleGap det signals =
     (let reset = (\<lambda>det signals. (resetUDPBlackhole det, signals\<lparr>BlackholeWindows := 0, NoReceiveFor := 0\<rparr>))
      in if sampleGap > http3UDPBlackholeMaxSampleGap \<or> bytesReceived delta > 0
            \<or> packetsReceived delta > 0 \<or> payloadBytes delta > 0
      then reset det signals
      else if \<not> wasBidirectional det then reset det signals
      else
        let det = blackhole_demand sample det;
            signals = signals\<lparr>ReadDemand := blackholeReadDemand det\<rparr>
        in if \<not> PayloadDemand signals \<and> \<not> ReadDemand signals then reset det signals
        else
          let det = blackhole_clock sample delta sampleGap det
          in if blackholeNoReceiveSince det = 0 then reset det signals
             else blackhole_verdict sample det signals)"

section \<open>One observation\<close>

text \<open>The signals a sample gives, from the summed window (the detector already holds the new
  delta).\<close>

definition window_signals ::
  "http3DegradationDetector \<Rightarrow> http3DegradationSample \<Rightarrow> http3DegradationSignals \<Rightarrow> http3DegradationSignals" where
  "window_signals det sample signals =
     (let w = sumHTTP3DegradationWindow (window det);
          wireBytes = saturatingAdd (bytesSent w) (bytesReceived w);
          signals = signals\<lparr>
            EnoughTraffic := (packetsSent w \<ge> http3DegradationMinPackets \<or> bytesSent w \<ge> http3DegradationMinBytes),
            BlockedWrite := (BlockedWrites sample > 0),
            sBlockedWrites := BlockedWrites sample,
            sBlockedReads := BlockedReads sample,
            sPeakBlockedWrites := max (BlockedWrites sample) (PeakBlockedWrites sample),
            sOldestBlockedFor := OldestBlockedFor sample,
            sOldestReadBlockedFor := OldestReadBlockedFor sample\<rparr>;
          signals = (if LastPayloadProgressAt sample \<noteq> 0 \<and> \<not> (LastPayloadProgressAt sample > At sample)
            then signals\<lparr>LastProgressFor := time_sub (At sample) (LastPayloadProgressAt sample)\<rparr> else signals);
          signals = signals\<lparr>PayloadDemand := BlockedWrite signals, LossRate := http3DegradationLossRate w\<rparr>;
          signals = (if EnoughTraffic signals
            then signals\<lparr>LossBad := (LossRate signals > http3DegradationSoftLossRate),
              SevereLoss := (LossRate signals > http3DegradationSevereLossRate)\<rparr> else signals);
          signals = signals\<lparr>RTTBad := (RTTThreshold signals > 0 \<and> sSmoothedRTT signals > RTTThreshold signals),
            PayloadBytesPerSecond := http3DegradationPayloadRate (window det),
            HealthyBytesPerSecond := healthyPayloadRate det\<rparr>;
          signals = (if PayloadDemand signals \<and> healthyPayloadRate det > 0
              \<and> sOldestBlockedFor signals \<ge> http3DegradationMultiWriteBlock
            then signals\<lparr>ThroughputLow := (PayloadBytesPerSecond signals
                < healthyPayloadRate det * http3DegradationLowThroughput)\<rparr> else signals);
          signals = (if PayloadDemand signals \<and> wireBytes \<ge> http3DegradationMinBytes
              \<and> sOldestBlockedFor signals \<ge> http3DegradationMultiWriteBlock
            then signals\<lparr>WireWaste := (rat_of_int (uint (payloadBytes w))
                < rat_of_int (uint wireBytes) * http3DegradationWireEfficiency)\<rparr> else signals);
          explicitBlock = (LongBlockedWrites sample \<ge> 2
            \<or> sBlockedWrites signals \<ge> 1 \<and> sOldestBlockedFor signals \<ge> http3DegradationSingleWriteBlock);
          progressStalled = (LongBlockedWrites sample \<ge> 2 \<and> LastProgressFor signals \<ge> http3DegradationMultiWriteBlock
            \<or> sBlockedWrites signals \<ge> 1 \<and> LastProgressFor signals \<ge> http3DegradationSingleWriteBlock);
          signals = signals\<lparr>ClearWriteBlock := (explicitBlock \<or> progressStalled)\<rparr>
      in signals\<lparr>PayloadStalled := (PayloadDemand signals
           \<and> (ClearWriteBlock signals \<or> ThroughputLow signals \<or> WireWaste signals))\<rparr>)"

text \<open>Learning the throughput of busy, unblocked and otherwise healthy intervals.\<close>

definition learn_rate ::
  "http3DegradationDetector \<Rightarrow> http3DegradationSignals \<Rightarrow> http3DegradationDetector \<times> http3DegradationSignals" where
  "learn_rate det signals =
     (if \<not> Warmup signals \<and> \<not> BlockedWrite signals \<and> \<not> RTTBad signals \<and> \<not> LossBad signals
         \<and> PayloadBytesPerSecond signals > 0
      then let rate = (if healthyPayloadRate det = 0 then PayloadBytesPerSecond signals
             else healthyPayloadRate det * (8 / 10) + PayloadBytesPerSecond signals * (2 / 10))
        in (det\<lparr>healthyPayloadRate := rate\<rparr>, signals\<lparr>HealthyBytesPerSecond := rate\<rparr>)
      else (det, signals))"

definition count_bad :: "http3DegradationSignals \<Rightarrow> http3DegradationSignals" where
  "count_bad signals = signals\<lparr>BadSignalCount := BadSignalCount signals
     + (if RTTBad signals then 1 else 0) + (if LossBad signals then 1 else 0)
     + (if PayloadStalled signals then 1 else 0)\<rparr>"

definition latch ::
  "http3DegradationReason \<Rightarrow> http3DegradationSignals \<Rightarrow> http3DegradationDetector \<Rightarrow>
     http3DegradationDecision \<times> http3DegradationDetector" where
  "latch reason signals det =
     (let d = \<lparr>Rotate = True, Reason = reason, Signals = signals\<rparr> in (d, det\<lparr>latched := d\<rparr>))"

text \<open>The decision from the complete signals.\<close>

definition decide ::
  "http3DegradationDetector \<Rightarrow> http3DegradationSignals \<Rightarrow> http3DegradationDecision \<times> http3DegradationDetector" where
  "decide det signals =
     (if Warmup signals then
        let det = det\<lparr>consecutiveBadWindows := 0\<rparr>; signals = signals\<lparr>ConsecutiveWindows := 0\<rparr>
        in (liveDecision det signals, det)
      else if UDPBlackhole signals then latch ReasonUDPBlackhole signals det
      else if Rotate (latched det) then (liveDecision det signals, det)
      else if SevereLoss signals \<and> ClearWriteBlock signals then
        latch ReasonSevereLossAndWrite (signals\<lparr>ConsecutiveWindows := consecutiveBadWindows det\<rparr>) det
      else
        let det = (if BadSignalCount signals \<ge> http3DegradationRequiredSignals
              then det\<lparr>consecutiveBadWindows := consecutiveBadWindows det + 1\<rparr>
              else det\<lparr>consecutiveBadWindows := 0\<rparr>);
            signals = signals\<lparr>ConsecutiveWindows := consecutiveBadWindows det\<rparr>
        in if consecutiveBadWindows det \<ge> http3DegradationRequiredWindows
           then latch ReasonSustainedSignals signals det
           else (\<lparr>Rotate = False, Reason = ReasonNone, Signals = signals\<rparr>, det))"

definition sample_delta :: "http3DegradationSample \<Rightarrow> http3DegradationDetector \<Rightarrow> http3DegradationWindowDelta" where
  "sample_delta sample det =
     \<lparr>dat = At sample,
      bytesSent = BytesSent (Stats sample) - BytesSent (lastStats det),
      packetsSent = PacketsSent (Stats sample) - PacketsSent (lastStats det),
      bytesReceived = BytesReceived (Stats sample) - BytesReceived (lastStats det),
      packetsReceived = PacketsReceived (Stats sample) - PacketsReceived (lastStats det),
      bytesLost = BytesLost (Stats sample) - BytesLost (lastStats det),
      packetsLost = PacketsLost (Stats sample) - PacketsLost (lastStats det),
      payloadBytes = PayloadBytes sample - lastPayload det,
      payloadRead = PayloadReadBytes sample - lastPayloadRead det\<rparr>"

text \<open>A sample that arrives at least one interval after the last one.\<close>

definition observe_interval ::
  "http3DegradationSample \<Rightarrow> http3DegradationDetector \<Rightarrow> http3DegradationDecision \<times> http3DegradationDetector" where
  "observe_interval sample det =
     (let sampleGap = time_sub (At sample) (lastAt det);
          det = (if sampleGap > http3UDPBlackholeMaxSampleGap then resetUDPBlackhole det else det);
          det = updateBaseline (Stats sample) (HistoricalBaselineRTT sample) det;
          signals = baseSignals det sample True
      in if countersMovedBackward sample (lastStats det) (lastPayload det) (lastPayloadRead det) then
           let lossReset = (BytesLost (Stats sample) < BytesLost (lastStats det)
                 \<or> PacketsLost (Stats sample) < PacketsLost (lastStats det));
               det = resetWindow sample det;
               signals = signals\<lparr>LossCounterReset := lossReset, ConsecutiveWindows := 0\<rparr>
           in (liveDecision det signals, det)
         else
           let delta = sample_delta sample det;
               det = trimWindow (At sample) (det\<lparr>lastAt := At sample, lastStats := Stats sample,
                 lastPayload := PayloadBytes sample, lastPayloadRead := PayloadReadBytes sample,
                 window := window det @ [delta]\<rparr>);
               det = (if PacketsSent (Stats sample) > 0 \<and> PacketsReceived (Stats sample) > 0
                 then det\<lparr>wasBidirectional := True\<rparr> else det);
               sample = (if BlockedReads sample > 0
                   \<and> payloadRead (sumHTTP3DegradationWindow (window det)) \<ge> http3UDPBlackholeRecentReadMinBytes
                 then sample\<lparr>RecentReadDemand := True\<rparr> else sample);
               signals = window_signals det sample signals;
               (det, signals) = observeUDPBlackhole sample delta sampleGap det signals;
               (det, signals) = learn_rate det signals
           in decide det (count_bad signals))"

definition observe ::
  "http3DegradationSample \<Rightarrow> http3DegradationDetector \<Rightarrow> http3DegradationDecision \<times> http3DegradationDetector" where
  "observe sample det =
     (if ConnectionErr sample then
        if \<not> Rotate (latched det) then latch ReasonConnectionError zero_signals det
        else (latched det, det)
      else if At sample = 0 then
        (if Rotate (latched det) then latched det else zero_decision, det)
      else if \<not> initialized det then
        let det = initialize sample det in (liveDecision det (baseSignals det sample True), det)
      else if \<not> (At sample > lastAt det) \<or> time_sub (At sample) (lastAt det) < http3DegradationSampleInterval
      then (liveDecision det (baseSignals det sample False), det)
      else observe_interval sample det)"

section \<open>Frame lemmas\<close>

text \<open>The fields each helper leaves alone, so that the proofs below never unfold a record twice.\<close>

lemma updateBaseline_frame [simp]:
  "initialized (updateBaseline st h d) = initialized d"
  "lastAt (updateBaseline st h d) = lastAt d"
  "lastStats (updateBaseline st h d) = lastStats d"
  "lastPayload (updateBaseline st h d) = lastPayload d"
  "lastPayloadRead (updateBaseline st h d) = lastPayloadRead d"
  "window (updateBaseline st h d) = window d"
  "latched (updateBaseline st h d) = latched d"
  "establishedAt (updateBaseline st h d) = establishedAt d"
  "wasBidirectional (updateBaseline st h d) = wasBidirectional d"
  "blackholeNoReceiveSince (updateBaseline st h d) = blackholeNoReceiveSince d"
  "blackholeSendSamples (updateBaseline st h d) = blackholeSendSamples d"
  "consecutiveBadWindows (updateBaseline st h d) = consecutiveBadWindows d"
  by (simp_all add: updateBaseline_def Let_def)

lemma trimWindow_frame [simp]:
  "initialized (trimWindow t d) = initialized d"
  "lastAt (trimWindow t d) = lastAt d"
  "lastStats (trimWindow t d) = lastStats d"
  "lastPayload (trimWindow t d) = lastPayload d"
  "latched (trimWindow t d) = latched d"
  "establishedAt (trimWindow t d) = establishedAt d"
  "blackholeNoReceiveSince (trimWindow t d) = blackholeNoReceiveSince d"
  "blackholeSendSamples (trimWindow t d) = blackholeSendSamples d"
  "consecutiveBadWindows (trimWindow t d) = consecutiveBadWindows d"
  "window (trimWindow t d) = dropWhile (\<lambda>e. dat e \<le> t - http3DegradationWindow) (window d)"
  by (simp_all add: trimWindow_def not_less)

lemma resetUDPBlackhole_frame [simp]:
  "initialized (resetUDPBlackhole d) = initialized d"
  "lastAt (resetUDPBlackhole d) = lastAt d"
  "lastStats (resetUDPBlackhole d) = lastStats d"
  "lastPayload (resetUDPBlackhole d) = lastPayload d"
  "lastPayloadRead (resetUDPBlackhole d) = lastPayloadRead d"
  "window (resetUDPBlackhole d) = window d"
  "latched (resetUDPBlackhole d) = latched d"
  "establishedAt (resetUDPBlackhole d) = establishedAt d"
  "consecutiveBadWindows (resetUDPBlackhole d) = consecutiveBadWindows d"
  "blackholeNoReceiveSince (resetUDPBlackhole d) = 0"
  "blackholeSendSamples (resetUDPBlackhole d) = 0"
  by (simp_all add: resetUDPBlackhole_def)

lemma baseSignals_fields [simp]:
  "UDPBlackhole (baseSignals d s b) = False"
  "Warmup (baseSignals d s b) \<longleftrightarrow> At s < establishedAt d + http3DegradationWarmup"
  by (simp_all add: baseSignals_def zero_signals_def)

lemma window_signals_frame [simp]:
  "UDPBlackhole (window_signals d s g) = UDPBlackhole g"
  "Warmup (window_signals d s g) = Warmup g"
  by (simp_all add: window_signals_def Let_def)

lemma learn_rate_frame [simp]:
  "initialized (fst (learn_rate d g)) = initialized d"
  "lastAt (fst (learn_rate d g)) = lastAt d"
  "lastStats (fst (learn_rate d g)) = lastStats d"
  "lastPayload (fst (learn_rate d g)) = lastPayload d"
  "window (fst (learn_rate d g)) = window d"
  "latched (fst (learn_rate d g)) = latched d"
  "establishedAt (fst (learn_rate d g)) = establishedAt d"
  "blackholeNoReceiveSince (fst (learn_rate d g)) = blackholeNoReceiveSince d"
  "blackholeSendSamples (fst (learn_rate d g)) = blackholeSendSamples d"
  "consecutiveBadWindows (fst (learn_rate d g)) = consecutiveBadWindows d"
  "UDPBlackhole (snd (learn_rate d g)) = UDPBlackhole g"
  "Warmup (snd (learn_rate d g)) = Warmup g"
  by (simp_all add: learn_rate_def Let_def)

lemma count_bad_frame [simp]:
  "UDPBlackhole (count_bad g) = UDPBlackhole g" "Warmup (count_bad g) = Warmup g"
  by (simp_all add: count_bad_def)

lemma decide_frame [simp]:
  "initialized (snd (decide d g)) = initialized d"
  "lastAt (snd (decide d g)) = lastAt d"
  "lastStats (snd (decide d g)) = lastStats d"
  "lastPayload (snd (decide d g)) = lastPayload d"
  "window (snd (decide d g)) = window d"
  "establishedAt (snd (decide d g)) = establishedAt d"
  "blackholeNoReceiveSince (snd (decide d g)) = blackholeNoReceiveSince d"
  "blackholeSendSamples (snd (decide d g)) = blackholeSendSamples d"
  "UDPBlackhole (Signals (fst (decide d g))) = UDPBlackhole g"
  "Warmup (Signals (fst (decide d g))) = Warmup g"
  by (simp_all add: decide_def latch_def liveDecision_def Let_def)

text \<open>The same for the parts of the blackhole test.\<close>

lemma blackhole_demand_frame [simp]:
  "initialized (blackhole_demand s d) = initialized d"
  "lastAt (blackhole_demand s d) = lastAt d"
  "lastStats (blackhole_demand s d) = lastStats d"
  "lastPayload (blackhole_demand s d) = lastPayload d"
  "window (blackhole_demand s d) = window d"
  "latched (blackhole_demand s d) = latched d"
  "establishedAt (blackhole_demand s d) = establishedAt d"
  "consecutiveBadWindows (blackhole_demand s d) = consecutiveBadWindows d"
  "blackholeNoReceiveSince (blackhole_demand s d) = blackholeNoReceiveSince d"
  "blackholeSendSamples (blackhole_demand s d) = blackholeSendSamples d"
  by (simp_all add: blackhole_demand_def)

lemma blackhole_clock_frame [simp]:
  "initialized (blackhole_clock s e gap d) = initialized d"
  "lastAt (blackhole_clock s e gap d) = lastAt d"
  "lastStats (blackhole_clock s e gap d) = lastStats d"
  "lastPayload (blackhole_clock s e gap d) = lastPayload d"
  "window (blackhole_clock s e gap d) = window d"
  "latched (blackhole_clock s e gap d) = latched d"
  "establishedAt (blackhole_clock s e gap d) = establishedAt d"
  "consecutiveBadWindows (blackhole_clock s e gap d) = consecutiveBadWindows d"
  "blackholeNoReceiveSince (blackhole_clock s e gap d)
     = (if blackholeNoReceiveSince d = 0 then At s - gap else blackholeNoReceiveSince d)"
  "blackholeSendSamples (blackhole_clock s e gap d)
     = blackholeSendSamples d + (if bytesSent e > 0 \<or> packetsSent e > 0 then 1 else 0)"
  by (simp_all add: blackhole_clock_def Let_def)

lemma blackhole_verdict_frame [simp]:
  "initialized (fst (blackhole_verdict s d g)) = initialized d"
  "lastAt (fst (blackhole_verdict s d g)) = lastAt d"
  "lastStats (fst (blackhole_verdict s d g)) = lastStats d"
  "lastPayload (fst (blackhole_verdict s d g)) = lastPayload d"
  "window (fst (blackhole_verdict s d g)) = window d"
  "latched (fst (blackhole_verdict s d g)) = latched d"
  "establishedAt (fst (blackhole_verdict s d g)) = establishedAt d"
  "consecutiveBadWindows (fst (blackhole_verdict s d g)) = consecutiveBadWindows d"
  "blackholeNoReceiveSince (fst (blackhole_verdict s d g)) = blackholeNoReceiveSince d"
  "blackholeSendSamples (fst (blackhole_verdict s d g)) = blackholeSendSamples d"
  "Warmup (snd (blackhole_verdict s d g)) = Warmup g"
  by (simp_all add: blackhole_verdict_def Let_def)

lemma blackhole_verdict_evidence:
  "UDPBlackhole (snd (blackhole_verdict s d g)) \<Longrightarrow> \<not> UDPBlackhole g \<Longrightarrow>
     \<not> Warmup g \<and> blackholeSendSamples d \<ge> 2
     \<and> time_sub (At s) (blackholeNoReceiveSince d) \<ge> http3UDPBlackholeStallTimeout"
  by (auto simp: blackhole_verdict_def blackhole_eligible_def Let_def split: if_splits)

lemma observeUDPBlackhole_frame [simp]:
  "initialized (fst (observeUDPBlackhole s e gap d g)) = initialized d"
  "lastAt (fst (observeUDPBlackhole s e gap d g)) = lastAt d"
  "lastStats (fst (observeUDPBlackhole s e gap d g)) = lastStats d"
  "lastPayload (fst (observeUDPBlackhole s e gap d g)) = lastPayload d"
  "window (fst (observeUDPBlackhole s e gap d g)) = window d"
  "latched (fst (observeUDPBlackhole s e gap d g)) = latched d"
  "establishedAt (fst (observeUDPBlackhole s e gap d g)) = establishedAt d"
  "consecutiveBadWindows (fst (observeUDPBlackhole s e gap d g)) = consecutiveBadWindows d"
  "Warmup (snd (observeUDPBlackhole s e gap d g)) = Warmup g"
  by (simp_all add: observeUDPBlackhole_def Let_def)

text \<open>What the blackhole test does with its own fields: it starts over, or the sample shows no
  inbound traffic and the clock and the send counter go on.\<close>

lemma observeUDPBlackhole_cases:
  "(blackholeNoReceiveSince (fst (observeUDPBlackhole s e gap d g)) = 0
      \<and> blackholeSendSamples (fst (observeUDPBlackhole s e gap d g)) = 0)
   \<or> (bytesReceived e = 0 \<and> packetsReceived e = 0 \<and> payloadBytes e = 0
      \<and> gap \<le> http3UDPBlackholeMaxSampleGap
      \<and> blackholeNoReceiveSince (fst (observeUDPBlackhole s e gap d g)) \<noteq> 0
      \<and> blackholeNoReceiveSince (fst (observeUDPBlackhole s e gap d g))
          = (if blackholeNoReceiveSince d = 0 then At s - gap else blackholeNoReceiveSince d)
      \<and> blackholeSendSamples (fst (observeUDPBlackhole s e gap d g))
          = blackholeSendSamples d + (if bytesSent e > 0 \<or> packetsSent e > 0 then 1 else 0))"
  by (simp add: observeUDPBlackhole_def Let_def word_gt_0 not_less del: if_weak_cong)

lemma observeUDPBlackhole_verdict:
  assumes "UDPBlackhole (snd (observeUDPBlackhole s e gap d g))" "\<not> UDPBlackhole g"
  shows "blackholeNoReceiveSince (fst (observeUDPBlackhole s e gap d g)) \<noteq> 0
     \<and> blackholeSendSamples (fst (observeUDPBlackhole s e gap d g)) \<ge> 2
     \<and> time_sub (At s) (blackholeNoReceiveSince (fst (observeUDPBlackhole s e gap d g)))
           \<ge> http3UDPBlackholeStallTimeout
     \<and> \<not> Warmup g"
  using assms unfolding observeUDPBlackhole_def Let_def
  by (auto dest!: blackhole_verdict_evidence split: if_splits)

section \<open>Runs of the detector\<close>

text \<open>The owner serialises the calls: a run is a list of samples, newest first, with the
  detector they lead to.\<close>

type_synonym run_state = "http3DegradationSample list \<times> http3DegradationDetector"

definition run_start :: "run_state \<Rightarrow> bool" where
  "run_start r \<longleftrightarrow> fst r = [] \<and> (\<exists>t. snd r = newHTTP3DegradationDetector t)"

definition run_step :: "run_state \<Rightarrow> run_state \<Rightarrow> bool" where
  "run_step r r' \<longleftrightarrow> (\<exists>s. r' = (s # fst r, snd (observe s (snd r))))"

definition observes :: "http3DegradationSample list \<Rightarrow> http3DegradationDetector \<Rightarrow> http3DegradationDetector" where
  "observes ss d = fold (\<lambda>s d. snd (observe s d)) ss d"

lemma observes_run: "run_step\<^sup>*\<^sup>* (ss, d) (rev ts @ ss, observes ts d)"
proof (induction ts arbitrary: ss d)
  case (Cons t ts)
  have "run_step (ss, d) (t # ss, snd (observe t d))" by (simp add: run_step_def)
  also have "run_step\<^sup>*\<^sup>* \<dots> (rev ts @ t # ss, observes ts (snd (observe t d)))" by (rule Cons.IH)
  finally show ?case by (simp add: observes_def)
qed (simp add: observes_def)

text \<open>The detector remembers a sample it saw; a running no-receive clock starts at a sample since
  when the inbound counters and the payload counter stand still.\<close>

definition silent_since :: "http3DegradationSample \<Rightarrow> http3DegradationDetector \<Rightarrow> bool" where
  "silent_since s0 d \<longleftrightarrow>
     At s0 = blackholeNoReceiveSince d
     \<and> BytesReceived (Stats s0) = BytesReceived (lastStats d)
     \<and> PacketsReceived (Stats s0) = PacketsReceived (lastStats d)
     \<and> PayloadBytes s0 = lastPayload d
     \<and> BytesSent (Stats s0) \<le> BytesSent (lastStats d)
     \<and> PacketsSent (Stats s0) \<le> PacketsSent (lastStats d)
     \<and> (blackholeSendSamples d > 0 \<longrightarrow>
          BytesSent (Stats s0) < BytesSent (lastStats d) \<or> PacketsSent (Stats s0) < PacketsSent (lastStats d))"

definition run_inv :: "run_state \<Rightarrow> bool" where
  "run_inv r \<longleftrightarrow> (let d = snd r in
     (initialized d \<longrightarrow> (\<exists>s\<in>set (fst r). At s = lastAt d \<and> Stats s = lastStats d \<and> PayloadBytes s = lastPayload d))
     \<and> (\<not> initialized d \<longrightarrow> blackholeNoReceiveSince d = 0)
     \<and> (blackholeNoReceiveSince d = 0 \<longrightarrow> blackholeSendSamples d = 0)
     \<and> blackholeSendSamples d \<ge> 0
     \<and> (blackholeNoReceiveSince d \<noteq> 0 \<longrightarrow> (\<exists>s\<in>set (fst r). silent_since s d)))"

lemma time_sub_exact:
  "t > u \<Longrightarrow> time_sub t u \<le> http3UDPBlackholeMaxSampleGap \<Longrightarrow> time_sub t u = t - u"
  by (simp add: time_sub_def max_duration_def min_duration_def degradation_consts min_def max_def
      split: if_splits)

lemma sample_delta_zero:
  "bytesReceived (sample_delta s d) = 0 \<longleftrightarrow> BytesReceived (Stats s) = BytesReceived (lastStats d)"
  "packetsReceived (sample_delta s d) = 0 \<longleftrightarrow> PacketsReceived (Stats s) = PacketsReceived (lastStats d)"
  "payloadBytes (sample_delta s d) = 0 \<longleftrightarrow> PayloadBytes s = lastPayload d"
  "bytesSent (sample_delta s d) > 0 \<longleftrightarrow> BytesSent (Stats s) \<noteq> BytesSent (lastStats d)"
  "packetsSent (sample_delta s d) > 0 \<longleftrightarrow> PacketsSent (Stats s) \<noteq> PacketsSent (lastStats d)"
  by (simp_all add: sample_delta_def word_gt_0)

text \<open>The detector just before the blackhole test of a sample, and the signals it is given.\<close>

definition before_blackhole :: "http3DegradationSample \<Rightarrow> http3DegradationDetector \<Rightarrow> http3DegradationDetector" where
  "before_blackhole s d =
     (let d = (if time_sub (At s) (lastAt d) > http3UDPBlackholeMaxSampleGap then resetUDPBlackhole d else d);
          d = updateBaseline (Stats s) (HistoricalBaselineRTT s) d;
          d' = trimWindow (At s) (d\<lparr>lastAt := At s, lastStats := Stats s,
                 lastPayload := PayloadBytes s, lastPayloadRead := PayloadReadBytes s,
                 window := window d @ [sample_delta s d]\<rparr>)
      in if PacketsSent (Stats s) > 0 \<and> PacketsReceived (Stats s) > 0
         then d'\<lparr>wasBidirectional := True\<rparr> else d')"

lemma before_blackhole_fields [simp]:
  "initialized (before_blackhole s d) = initialized d"
  "lastAt (before_blackhole s d) = At s"
  "lastStats (before_blackhole s d) = Stats s"
  "lastPayload (before_blackhole s d) = PayloadBytes s"
  "latched (before_blackhole s d) = latched d"
  "establishedAt (before_blackhole s d) = establishedAt d"
  "consecutiveBadWindows (before_blackhole s d) = consecutiveBadWindows d"
  "window (before_blackhole s d) =
     dropWhile (\<lambda>e. dat e \<le> At s - http3DegradationWindow) (window d @ [sample_delta s d])"
  "blackholeNoReceiveSince (before_blackhole s d) =
     (if time_sub (At s) (lastAt d) > http3UDPBlackholeMaxSampleGap then 0 else blackholeNoReceiveSince d)"
  "blackholeSendSamples (before_blackhole s d) =
     (if time_sub (At s) (lastAt d) > http3UDPBlackholeMaxSampleGap then 0 else blackholeSendSamples d)"
  by (simp_all add: before_blackhole_def Let_def sample_delta_def)

text \<open>A sample whose counters moved backward only resets; any other one runs the blackhole test
  on these and decides.\<close>

lemma observe_interval_forms:
  obtains (backward) g where
    "countersMovedBackward s (lastStats d) (lastPayload d) (lastPayloadRead d)"
    "\<not> UDPBlackhole g"
    "observe_interval s d = (liveDecision d g, snd (observe_interval s d))"
    "lastAt (snd (observe_interval s d)) = At s" "lastStats (snd (observe_interval s d)) = Stats s"
    "lastPayload (snd (observe_interval s d)) = PayloadBytes s"
    "initialized (snd (observe_interval s d)) = initialized d"
    "latched (snd (observe_interval s d)) = latched d"
    "window (snd (observe_interval s d)) = []"
    "consecutiveBadWindows (snd (observe_interval s d)) = 0"
    "blackholeNoReceiveSince (snd (observe_interval s d)) = 0"
    "blackholeSendSamples (snd (observe_interval s d)) = 0"
    "establishedAt (snd (observe_interval s d)) = establishedAt d"
  | (forward) s' g where
    "\<not> countersMovedBackward s (lastStats d) (lastPayload d) (lastPayloadRead d)"
    "At s' = At s" "\<not> UDPBlackhole g" "Warmup g \<longleftrightarrow> At s < establishedAt d + http3DegradationWarmup"
    "observe_interval s d =
       (let b = observeUDPBlackhole s' (sample_delta s d) (time_sub (At s) (lastAt d)) (before_blackhole s d) g;
            l = learn_rate (fst b) (snd b)
        in decide (fst l) (count_bad (snd l)))"
proof (cases "countersMovedBackward s (lastStats d) (lastPayload d) (lastPayloadRead d)")
  case True
  show ?thesis
    by (rule backward[where g = "(baseSignals (updateBaseline (Stats s) (HistoricalBaselineRTT s)
            (if time_sub (At s) (lastAt d) > http3UDPBlackholeMaxSampleGap then resetUDPBlackhole d else d)) s True)
          \<lparr>LossCounterReset := (BytesLost (Stats s) < BytesLost (lastStats d)
                 \<or> PacketsLost (Stats s) < PacketsLost (lastStats d)), ConsecutiveWindows := 0\<rparr>"])
      (use True in \<open>simp_all add: observe_interval_def Let_def resetWindow_def liveDecision_def\<close>)
next
  case False
  let ?s' = "if BlockedReads s > 0 \<and> payloadRead (sumHTTP3DegradationWindow (window (before_blackhole s d)))
       \<ge> http3UDPBlackholeRecentReadMinBytes then s\<lparr>RecentReadDemand := True\<rparr> else s"
  let ?d1 = "updateBaseline (Stats s) (HistoricalBaselineRTT s)
            (if time_sub (At s) (lastAt d) > http3UDPBlackholeMaxSampleGap then resetUDPBlackhole d else d)"
  show ?thesis
    by (rule forward[where s' = ?s' and g = "window_signals (before_blackhole s d) ?s' (baseSignals ?d1 s True)"])
      (use False in \<open>simp_all add: observe_interval_def Let_def before_blackhole_def sample_delta_def
          split_beta cong: if_cong\<close>)
qed

lemma run_inv_start: "run_start r \<Longrightarrow> run_inv r"
  by (auto simp: run_start_def run_inv_def newHTTP3DegradationDetector_def)

lemma run_inv_unchanged:
  "run_inv (ss, d) \<Longrightarrow> run_inv (s # ss, d)"
  by (auto simp: run_inv_def Let_def)

lemma silent_since_cong:
  "blackholeNoReceiveSince d' = blackholeNoReceiveSince d \<Longrightarrow> blackholeSendSamples d' = blackholeSendSamples d \<Longrightarrow>
   lastStats d' = lastStats d \<Longrightarrow> lastPayload d' = lastPayload d \<Longrightarrow> silent_since s d' = silent_since s d"
  by (simp add: silent_since_def)

lemma run_inv_cong:
  "run_inv (ss, d) \<Longrightarrow> initialized d' = initialized d \<Longrightarrow> lastAt d' = lastAt d \<Longrightarrow>
   blackholeNoReceiveSince d' = blackholeNoReceiveSince d \<Longrightarrow> blackholeSendSamples d' = blackholeSendSamples d \<Longrightarrow>
   lastStats d' = lastStats d \<Longrightarrow> lastPayload d' = lastPayload d \<Longrightarrow> run_inv (ss, d')"
  by (simp add: run_inv_def Let_def silent_since_cong[of d' d])

text \<open>The invariant is carried through the blackhole test of an accepted sample.\<close>

lemma run_inv_blackhole:
  assumes inv: "run_inv (ss, d)" and init: "initialized d" and later: "At s > lastAt d"
    and fwd: "\<not> countersMovedBackward s (lastStats d) (lastPayload d) (lastPayloadRead d)"
    and at: "At s' = At s"
  shows "run_inv (s # ss, fst (observeUDPBlackhole s' (sample_delta s d) (time_sub (At s) (lastAt d))
           (before_blackhole s d) g))" (is "run_inv (_, ?d')")
proof -
  let ?gap = "time_sub (At s) (lastAt d)"
  have init': "initialized ?d'" "lastAt ?d' = At s" "lastStats ?d' = Stats s" "lastPayload ?d' = PayloadBytes s"
    using init by simp_all
  from observeUDPBlackhole_cases[of s' "sample_delta s d" ?gap "before_blackhole s d" g]
  show ?thesis
  proof
    assume "blackholeNoReceiveSince ?d' = 0 \<and> blackholeSendSamples ?d' = 0"
    then show ?thesis using init' by (auto simp: run_inv_def Let_def)
  next
    assume A: "bytesReceived (sample_delta s d) = 0 \<and> packetsReceived (sample_delta s d) = 0
        \<and> payloadBytes (sample_delta s d) = 0 \<and> ?gap \<le> http3UDPBlackholeMaxSampleGap
        \<and> blackholeNoReceiveSince ?d' \<noteq> 0
        \<and> blackholeNoReceiveSince ?d' = (if blackholeNoReceiveSince (before_blackhole s d) = 0 then At s' - ?gap
            else blackholeNoReceiveSince (before_blackhole s d))
        \<and> blackholeSendSamples ?d' = blackholeSendSamples (before_blackhole s d)
            + (if bytesSent (sample_delta s d) > 0 \<or> packetsSent (sample_delta s d) > 0 then 1 else 0)"
    have gap: "?gap = At s - lastAt d" using time_sub_exact[OF later] A by blast
    have since: "blackholeNoReceiveSince ?d' = (if blackholeNoReceiveSince d = 0 then lastAt d else blackholeNoReceiveSince d)"
      using A gap at by simp
    have sent: "blackholeSendSamples ?d' = blackholeSendSamples d
        + (if BytesSent (Stats s) \<noteq> BytesSent (lastStats d) \<or> PacketsSent (Stats s) \<noteq> PacketsSent (lastStats d) then 1 else 0)"
      using A by (simp add: sample_delta_zero)
    have recv: "BytesReceived (Stats s) = BytesReceived (lastStats d)"
      "PacketsReceived (Stats s) = PacketsReceived (lastStats d)" "PayloadBytes s = lastPayload d"
      using A by (simp_all add: sample_delta_zero)
    have mono: "BytesSent (lastStats d) \<le> BytesSent (Stats s)" "PacketsSent (lastStats d) \<le> PacketsSent (Stats s)"
      using fwd by (auto simp: countersMovedBackward_def not_less)
    obtain s1 where s1: "s1 \<in> set ss" "At s1 = lastAt d" "Stats s1 = lastStats d" "PayloadBytes s1 = lastPayload d"
      using inv init by (auto simp: run_inv_def Let_def)
    have pos: "blackholeSendSamples d \<ge> 0" "blackholeNoReceiveSince d = 0 \<longrightarrow> blackholeSendSamples d = 0"
      using inv by (auto simp: run_inv_def Let_def)
    have "\<exists>s0\<in>set ss. silent_since s0 ?d'" if "blackholeNoReceiveSince ?d' \<noteq> 0"
    proof (cases "blackholeNoReceiveSince d = 0")
      case True
      then have "silent_since s1 ?d'"
        using s1 since sent recv mono pos by (auto simp: silent_since_def split: if_splits)
      then show ?thesis using s1 by blast
    next
      case False
      then obtain s0 where s0: "s0 \<in> set ss" "silent_since s0 d"
        using inv by (auto simp: run_inv_def Let_def)
      have "BytesSent (Stats s) \<noteq> BytesSent (lastStats d) \<or> PacketsSent (Stats s) \<noteq> PacketsSent (lastStats d) \<longrightarrow>
          BytesSent (Stats s0) < BytesSent (Stats s) \<or> PacketsSent (Stats s0) < PacketsSent (Stats s)"
        using s0(2) mono unfolding silent_since_def by (metis order_le_less_trans order_le_less)
      then have "silent_since s0 ?d'"
        using s0(2) False since sent recv mono by (auto simp: silent_since_def split: if_splits)
      then show ?thesis using s0(1) by blast
    qed
    then show ?thesis using init' sent pos A since at gap unfolding run_inv_def Let_def
      by (auto split: if_splits)
  qed
qed

lemma run_inv_observe:
  assumes "run_inv (ss, d)" shows "run_inv (s # ss, snd (observe s d))"
proof -
  note unchanged = run_inv_unchanged[OF assms, of s]
  consider (err) "ConnectionErr s" | (zero) "\<not> ConnectionErr s" "At s = 0"
    | (init) "\<not> ConnectionErr s" "At s \<noteq> 0" "\<not> initialized d"
    | (early) "\<not> ConnectionErr s" "At s \<noteq> 0" "initialized d"
       "\<not> (At s > lastAt d) \<or> time_sub (At s) (lastAt d) < http3DegradationSampleInterval"
    | (interval) "\<not> ConnectionErr s" "At s \<noteq> 0" "initialized d" "At s > lastAt d"
       "observe s d = observe_interval s d"
    by (cases "ConnectionErr s"; cases "At s = 0"; cases "initialized d";
        cases "At s > lastAt d"; cases "time_sub (At s) (lastAt d) < http3DegradationSampleInterval")
      (auto simp: observe_def)
  then show ?thesis
  proof cases
    case err
    show ?thesis using unchanged by (rule run_inv_cong) (auto simp: observe_def err latch_def Let_def)
  next
    case init
    then have "blackholeNoReceiveSince d = 0" "blackholeSendSamples d = 0"
      using assms by (auto simp: run_inv_def Let_def)
    then show ?thesis using init by (auto simp: observe_def initialize_def run_inv_def Let_def)
  next
    case interval
    show ?thesis unfolding interval(5)
    proof (cases rule: observe_interval_forms[of s d])
      case (backward g)
      then show "run_inv (s # ss, snd (observe_interval s d))" using interval by (auto simp: run_inv_def Let_def)
    next
      case (forward s' g)
      have inv: "run_inv (s # ss, fst (observeUDPBlackhole s' (sample_delta s d) (time_sub (At s) (lastAt d))
           (before_blackhole s d) g))"
        using assms interval(3,4) forward(1,2) by (rule run_inv_blackhole)
      show "run_inv (s # ss, snd (observe_interval s d))"
        unfolding forward(5) Let_def using inv by (rule run_inv_cong) simp_all
    qed
  qed (auto simp: observe_def intro: unchanged)
qed

interpretation dg: invariant_system run_start run_step run_inv
  by unfold_locales (auto simp: run_inv_start run_step_def run_inv_observe)

lemma observes_inv: "run_inv (rev ss, observes ss (newHTTP3DegradationDetector t))"
  using dg.reachable_inv[of "([], newHTTP3DegradationDetector t)"] observes_run[of "[]" _ ss]
  by (auto simp: run_start_def)

lemma decide_blackhole:
  "Reason (latched d) \<noteq> ReasonUDPBlackhole \<Longrightarrow> Reason (fst (decide d g)) = ReasonUDPBlackhole \<Longrightarrow> UDPBlackhole g"
  by (auto simp: decide_def latch_def liveDecision_def Let_def split: if_splits)

lemma initialize_latched [simp]: "latched (initialize s d) = latched d"
  by (simp add: initialize_def Let_def)

lemma observe_new_blackhole:
  assumes "Reason (latched d) \<noteq> ReasonUDPBlackhole" "Reason (fst (observe s d)) = ReasonUDPBlackhole"
  shows "observe s d = observe_interval s d \<and> initialized d \<and> At s > lastAt d"
  using assms by (auto simp: observe_def liveDecision_def latch_def zero_decision_def Let_def split: if_splits)

section \<open>Properties\<close>

text \<open>C23: a connection is judged a UDP blackhole only on evidence. When an observation newly gives
  that reason, an earlier sample of the run is at least eight seconds older, neither a byte nor a
  packet nor any payload has come in since, packets or bytes went out in between, and the warm-up
  of the connection is over.\<close>

theorem udp_blackhole_evidence:
  assumes d: "d = observes ss (newHTTP3DegradationDetector t)"
    and old: "Reason (latched d) \<noteq> ReasonUDPBlackhole"
    and new: "Reason (fst (observe s d)) = ReasonUDPBlackhole"
  shows "establishedAt d + http3DegradationWarmup \<le> At s
    \<and> (\<exists>s0\<in>set ss. At s0 + http3UDPBlackholeStallTimeout \<le> At s
        \<and> BytesReceived (Stats s0) = BytesReceived (Stats s)
        \<and> PacketsReceived (Stats s0) = PacketsReceived (Stats s)
        \<and> PayloadBytes s0 = PayloadBytes s
        \<and> (BytesSent (Stats s0) < BytesSent (Stats s) \<or> PacketsSent (Stats s0) < PacketsSent (Stats s)))"
proof -
  have inv: "run_inv (rev ss, d)" unfolding d by (rule observes_inv)
  have iv: "observe s d = observe_interval s d" "initialized d" "At s > lastAt d"
    using observe_new_blackhole[OF old new] by auto
  show ?thesis
  proof (cases rule: observe_interval_forms[of s d])
    case (backward g)
    then have "fst (observe s d) = liveDecision d g" unfolding iv(1) by (metis fst_conv)
    then show ?thesis using old new by (auto simp: liveDecision_def split: if_splits)
  next
    case (forward s' g)
    let ?b = "observeUDPBlackhole s' (sample_delta s d) (time_sub (At s) (lastAt d)) (before_blackhole s d) g"
    have "Reason (fst (decide (fst (learn_rate (fst ?b) (snd ?b))) (count_bad (snd (learn_rate (fst ?b) (snd ?b))))))
        = ReasonUDPBlackhole"
      using new unfolding iv(1) forward(5) Let_def .
    then have "UDPBlackhole (snd ?b)" using old decide_blackhole[of "fst (learn_rate (fst ?b) (snd ?b))"
        "count_bad (snd (learn_rate (fst ?b) (snd ?b)))"] by simp
    note ev = observeUDPBlackhole_verdict[OF this forward(3)]
    have "run_inv (s # rev ss, fst ?b)" using inv iv(2,3) forward(1,2) by (rule run_inv_blackhole)
    then obtain s0 where s0: "s0 \<in> insert s (set ss)" "silent_since s0 (fst ?b)"
      using ev by (auto simp: run_inv_def Let_def)
    have "http3UDPBlackholeStallTimeout \<le> time_sub (At s) (At s0)"
      using ev s0(2) forward(2) by (simp add: silent_since_def)
    then have "At s0 + http3UDPBlackholeStallTimeout \<le> At s"
      by (simp add: time_sub_def min_duration_def max_duration_def degradation_consts split: if_splits)
    moreover from this have "s0 \<in> set ss" using s0(1) by (auto simp: degradation_consts)
    ultimately show ?thesis using s0(2) ev forward(4)
      by (intro conjI bexI[of _ s0]) (auto simp: silent_since_def)
  qed
qed

definition wit_sample :: "gotime \<Rightarrow> u64 \<Rightarrow> duration \<Rightarrow> http3DegradationSample" where
  "wit_sample t sent blocked = \<lparr>At = t * second,
     Stats = zero_stats\<lparr>BytesSent := sent, PacketsSent := sent, BytesReceived := 10, PacketsReceived := 10\<rparr>,
     PayloadBytes = 0, PayloadReadBytes = 0, BlockedWrites = 1, PeakBlockedWrites = 1,
     LongBlockedWrites = 0, OldestBlockedFor = blocked * second, LastPayloadProgressAt = second, BlockedReads = 0,
     OldestReadBlockedFor = 0, RecentReadDemand = False, HistoricalBaselineRTT = 0, ConnectionErr = False\<rparr>"

definition wit_run :: "http3DegradationSample list" where
  "wit_run = [wit_sample 20 1 8, wit_sample 22 2 10, wit_sample 24 3 12, wit_sample 26 4 14, wit_sample 28 5 16]"

theorem udp_blackhole_evidence_witness:
  "\<exists>s0\<in>set wit_run. At s0 + http3UDPBlackholeStallTimeout \<le> At (wit_sample 30 6 20)
     \<and> BytesReceived (Stats s0) = BytesReceived (Stats (wit_sample 30 6 20))"
proof -
  let ?d = "observes wit_run (newHTTP3DegradationDetector 1)"
  have "Reason (latched ?d) \<noteq> ReasonUDPBlackhole" by code_simp
  moreover have "Reason (fst (observe (wit_sample 30 6 20) ?d)) = ReasonUDPBlackhole" by code_simp
  ultimately show ?thesis using udp_blackhole_evidence[OF refl] by blast
qed

text \<open>The decision is latched: what an observation returns is what the detector keeps.\<close>

lemma latch_fields [simp]:
  "Rotate (fst (latch r g d))" "latched (snd (latch r g d)) = fst (latch r g d)"
  "Reason (fst (latch r g d)) = r"
  by (simp_all add: latch_def Let_def)

lemma liveDecision_fields [simp]:
  "Rotate (liveDecision d g) = Rotate (latched d)"
  "Rotate (latched d) \<Longrightarrow> Reason (liveDecision d g) = Reason (latched d)"
  by (simp_all add: liveDecision_def)

lemma decide_latch:
  "Rotate (fst (decide d g)) = Rotate (latched (snd (decide d g)))"
  "Rotate (latched (snd (decide d g))) \<Longrightarrow> Reason (fst (decide d g)) = Reason (latched (snd (decide d g)))"
  "Rotate (latched d) \<Longrightarrow> Rotate (latched (snd (decide d g)))"
  "Rotate (latched d) \<Longrightarrow> Reason (latched (snd (decide d g))) \<in> {Reason (latched d), ReasonUDPBlackhole}"
  by (auto simp: decide_def Let_def)

lemma observe_interval_latch:
  "Rotate (fst (observe_interval s d)) = Rotate (latched (snd (observe_interval s d)))
   \<and> (Rotate (latched (snd (observe_interval s d))) \<longrightarrow>
        Reason (fst (observe_interval s d)) = Reason (latched (snd (observe_interval s d))))
   \<and> (Rotate (latched d) \<longrightarrow> Rotate (latched (snd (observe_interval s d)))
       \<and> Reason (latched (snd (observe_interval s d))) \<in> {Reason (latched d), ReasonUDPBlackhole})"
proof (cases rule: observe_interval_forms[of s d])
  case (backward g)
  have "fst (observe_interval s d) = liveDecision d g" using backward(3) by (metis fst_conv)
  then show ?thesis using backward(8) by simp
next
  case (forward s' g)
  let ?b = "observeUDPBlackhole s' (sample_delta s d) (time_sub (At s) (lastAt d)) (before_blackhole s d) g"
  let ?d = "fst (learn_rate (fst ?b) (snd ?b))"
  have "latched ?d = latched d" by simp
  then show ?thesis unfolding forward(5) Let_def using decide_latch[of ?d] by simp
qed

text \<open>the decision to rotate is latched. An observation returns a rotation exactly when the
  detector holds one afterwards, with the same reason; once held it stays held, and its reason can
  only be upgraded to the UDP blackhole.\<close>

theorem rotation_latched:
  "Rotate (fst (observe s d)) = Rotate (latched (snd (observe s d)))
   \<and> (Rotate (latched (snd (observe s d))) \<longrightarrow> Reason (fst (observe s d)) = Reason (latched (snd (observe s d))))
   \<and> (Rotate (latched d) \<longrightarrow> Rotate (latched (snd (observe s d)))
       \<and> Reason (latched (snd (observe s d))) \<in> {Reason (latched d), ReasonUDPBlackhole})"
  using observe_interval_latch[of s d]
  by (auto simp: observe_def Let_def zero_decision_def split: if_splits)

theorem rotation_latched_witness:
  "Rotate (latched (snd (observe (wit_sample 30 6 20) (snd (observe (wit_sample 28 5 16)
      (snd (observe ((wit_sample 20 1 8)\<lparr>ConnectionErr := True\<rparr>) (newHTTP3DegradationDetector 1))))))))"
proof -
  let ?d = "snd (observe ((wit_sample 20 1 8)\<lparr>ConnectionErr := True\<rparr>) (newHTTP3DegradationDetector 1))"
  have "Rotate (latched ?d)" by code_simp
  then show ?thesis using rotation_latched by blast
qed

section \<open>The sliding window\<close>

definition spaced :: "http3DegradationWindowDelta list \<Rightarrow> bool" where
  "spaced ws \<longleftrightarrow> sorted_wrt (\<lambda>a b. dat a + http3DegradationSampleInterval \<le> dat b) ws"

definition window_inv :: "http3DegradationDetector \<Rightarrow> bool" where
  "window_inv d \<longleftrightarrow> spaced (window d)
     \<and> (\<forall>e\<in>set (window d). lastAt d - http3DegradationWindow < dat e \<and> dat e \<le> lastAt d)"

lemma spaced_span:
  "spaced (a # ws) \<Longrightarrow> dat a + int (length ws) * http3DegradationSampleInterval \<le> dat (last (a # ws))"
proof (induction ws arbitrary: a)
  case (Cons b ws)
  have "spaced (b # ws)" using Cons.prems by (simp add: spaced_def)
  then show ?case using Cons.IH[of b] Cons.prems
    by (simp add: spaced_def algebra_simps split: if_splits)
qed simp

lemma window_inv_length:
  assumes "window_inv d" shows "length (window d) \<le> 6"
proof (cases "window d")
  case (Cons a ws)
  have "dat a + int (length ws) * http3DegradationSampleInterval \<le> dat (last (a # ws))"
    using assms Cons spaced_span by (simp add: window_inv_def)
  moreover have "lastAt d - http3DegradationWindow < dat a" "dat (last (a # ws)) \<le> lastAt d"
    using assms Cons unfolding window_inv_def by (metis list.set_intros(1), metis last_in_set list.distinct(1))
  ultimately have "int (length ws) * http3DegradationSampleInterval < http3DegradationWindow" by linarith
  then have "int (length ws) < 6" by (simp add: degradation_consts)
  then show ?thesis using Cons by simp
qed simp

lemma window_inv_append:
  assumes "window_inv d" "At s > lastAt d" "time_sub (At s) (lastAt d) \<ge> http3DegradationSampleInterval"
  shows "window_inv (before_blackhole s d)"
proof -
  have gap: "lastAt d + http3DegradationSampleInterval \<le> At s"
    using assms(2,3) by (simp add: time_sub_def max_duration_def min_duration_def degradation_consts split: if_splits)
  have at: "dat (sample_delta s d) = At s" by (simp add: sample_delta_def)
  have sp: "spaced (window d @ [sample_delta s d])"
    using assms(1) gap by (fastforce simp: window_inv_def spaced_def sorted_wrt_append at)
  let ?P = "\<lambda>e. dat e \<le> At s - http3DegradationWindow"
  have keep: "sorted_wrt R (dropWhile ?P xs)" if "sorted_wrt R xs" for R xs
    using that by (induction xs) auto
  have late: "dat e > At s - http3DegradationWindow"
    if "e \<in> set (dropWhile ?P xs)" "spaced xs" for e xs
    using that by (induction xs) (auto simp: spaced_def degradation_consts split: if_splits)
  have "dat e \<le> At s" if "e \<in> set (window d @ [sample_delta s d])" for e
    using that assms(1,2) at by (fastforce simp: window_inv_def)
  then show ?thesis unfolding window_inv_def before_blackhole_fields
    using late[OF _ sp] keep[OF sp[unfolded spaced_def]] set_dropWhileD by (fastforce simp: spaced_def)
qed

lemma window_inv_start: "window d = [] \<Longrightarrow> window_inv d"
  by (simp add: window_inv_def spaced_def)

lemma window_inv_cong:
  "window_inv d \<Longrightarrow> window d' = window d \<Longrightarrow> lastAt d' = lastAt d \<Longrightarrow> window_inv d'"
  by (simp add: window_inv_def)

lemma window_inv_observe:
  assumes inv: "window_inv d" and fresh: "\<not> initialized d \<longrightarrow> window d = []"
  shows "window_inv (snd (observe s d))"
proof (cases "ConnectionErr s \<or> At s = 0 \<or> \<not> initialized d
    \<or> \<not> (At s > lastAt d) \<or> time_sub (At s) (lastAt d) < http3DegradationSampleInterval")
  case True
  then show ?thesis using inv fresh
    by (auto simp: observe_def latch_def initialize_def Let_def intro: window_inv_start window_inv_cong)
next
  case False
  then have iv: "observe s d = observe_interval s d" by (simp add: observe_def)
  show ?thesis
  proof (cases rule: observe_interval_forms[of s d])
    case (backward g)
    then show ?thesis unfolding iv by (intro window_inv_start)
  next
    case (forward s' g)
    have "window_inv (before_blackhole s d)" using inv False by (intro window_inv_append) auto
    then show ?thesis unfolding iv forward(5) Let_def by (rule window_inv_cong) simp_all
  qed
qed

definition window_ok :: "run_state \<Rightarrow> bool" where
  "window_ok r \<longleftrightarrow> window_inv (snd r) \<and> (\<not> initialized (snd r) \<longrightarrow> window (snd r) = [])"

lemma observe_uninitialized:
  "\<not> initialized (snd (observe s d)) \<Longrightarrow> \<not> initialized d \<and> window (snd (observe s d)) = window d"
  by (cases rule: observe_interval_forms[of s d])
    (auto simp: observe_def latch_def initialize_def Let_def split: if_splits)

interpretation dw: invariant_system run_start run_step window_ok
proof unfold_locales
  show "run_start r \<Longrightarrow> window_ok r" for r
    by (auto simp: run_start_def window_ok_def newHTTP3DegradationDetector_def intro: window_inv_start)
  show "window_ok r \<Longrightarrow> run_step r r' \<Longrightarrow> window_ok r'" for r r'
    using window_inv_observe observe_uninitialized by (auto simp: run_step_def window_ok_def)
qed

text \<open>the window the rates are taken over is bounded. After any run it holds at most six
  deltas, all from the twelve seconds before the last accepted sample, in order and at least one
  sampling interval apart.\<close>

theorem window_bounded:
  "let d = observes ss (newHTTP3DegradationDetector t) in
     length (window d) \<le> 6
     \<and> (\<forall>e\<in>set (window d). lastAt d - http3DegradationWindow < dat e \<and> dat e \<le> lastAt d)
     \<and> sorted_wrt (\<lambda>a b. dat a + http3DegradationSampleInterval \<le> dat b) (window d)"
proof -
  let ?d = "observes ss (newHTTP3DegradationDetector t)"
  have "window_ok (rev ss, ?d)"
    using dw.reachable_inv[of "([], newHTTP3DegradationDetector t)"] observes_run[of "[]" _ ss]
    by (auto simp: run_start_def)
  then have "window_inv ?d" by (simp add: window_ok_def)
  then show ?thesis by (simp add: window_inv_length Let_def) (simp add: window_inv_def spaced_def)
qed

theorem window_bounded_witness:
  "length (window (observes wit_run (newHTTP3DegradationDetector 1))) = 4
   \<and> (let d = observes wit_run (newHTTP3DegradationDetector 1) in
        \<forall>e\<in>set (window d). lastAt d - http3DegradationWindow < dat e)"
proof
  show "length (window (observes wit_run (newHTTP3DegradationDetector 1))) = 4" by code_simp
  show "let d = observes wit_run (newHTTP3DegradationDetector 1) in
        \<forall>e\<in>set (window d). lastAt d - http3DegradationWindow < dat e"
    using window_bounded[of wit_run 1] unfolding Let_def by blast
qed

end
