(* ===== verification/H3_Rule_Breaker.thy ===== *)
theory H3_Rule_Breaker
  imports Moto_Config H3_Degradation
begin

unbundle bit_operations_syntax

text \<open>
  The rule-level HTTP/3 circuit breaker (\<^verbatim>\<open>controller/connect_proxy_h3_rule_breaker.go\<close>,
  \<^verbatim>\<open>connect_proxy_h3_blackhole.go\<close>, \<^verbatim>\<open>connect_proxy_h3_recovery_result.go\<close>). Each rule is Closed
  (HTTP/3 first), Evaluating (an HTTP/2 fallback is being validated), in Cooldown (HTTP/2 only) or
  in Probation (one connection tests HTTP/3 again).

  Every method of \<^verbatim>\<open>http3RuleBreaker\<close> takes the mutex for its whole body, so it is a function of
  the breaker. Each reading of the injected clock is an argument: \<open>now\<close>, and \<open>now2\<close> where the
  method reads it again. A Go map iterated by \<^verbatim>\<open>range\<close> has no order: the two methods that do so
  take the order as an argument. A transport slot pointer is a number.
\<close>

section \<open>Data\<close>

definition http3RuleDegradationWindow :: duration where "http3RuleDegradationWindow = minute"
definition http3RuleValidationGrace :: duration where "http3RuleValidationGrace = 30 * second"
definition http3RuleProbationAbortDelay :: duration where "http3RuleProbationAbortDelay = 30 * second"
definition http3RuleProbationMinDuration :: duration where "http3RuleProbationMinDuration = 30 * second"
definition http3RuleProbationMaxDuration :: duration where "http3RuleProbationMaxDuration = 90 * second"
definition http3RuleProbationMinPayload :: u64 where "http3RuleProbationMinPayload = 524288"
definition http3RuleProbationMinPackets :: u64 where "http3RuleProbationMinPackets = 256"
definition http3RuleProbationHealthyCount :: int where "http3RuleProbationHealthyCount = 3"
definition http3RuleRouteProbeTokenMask :: u64 where "http3RuleRouteProbeTokenMask = push_bit 63 1"
definition http3UDPBlackholeH2ProbeTimeout :: duration where "http3UDPBlackholeH2ProbeTimeout = 3 * second"
definition http3RuleCooldownSteps :: "duration list" where
  "http3RuleCooldownSteps = [5 * minute, 10 * minute, 20 * minute, 30 * minute]"

lemmas breaker_consts [go_consts] = http3RuleDegradationWindow_def http3RuleValidationGrace_def
  http3RuleProbationAbortDelay_def http3RuleProbationMinDuration_def http3RuleProbationMaxDuration_def
  http3RuleProbationMinPayload_def http3RuleProbationMinPackets_def http3RuleProbationHealthyCount_def
  http3UDPBlackholeH2ProbeTimeout_def http3RuleCooldownSteps_def duration_defs

record http3ConnectTransportKey =
  address :: string
  serverName :: string

definition zero_key :: http3ConnectTransportKey where
  "zero_key = \<lparr>address = '''', serverName = ''''\<rparr>"

record http3RuleDegradationEvent =
  de_key :: http3ConnectTransportKey
  de_remoteIP :: string
  de_generationID :: u64
  de_at :: gotime
  de_reason :: http3DegradationReason

record http3RuleSampleEvent =
  se_key :: http3ConnectTransportKey
  se_remoteIP :: string
  se_generationID :: u64
  se_at :: gotime
  se_stats :: ConnectionStats
  se_payloadBytes :: u64
  se_decision :: http3DegradationDecision
  se_connectionErr :: bool

record http3RuleProbationBinding =
  bi_generationID :: u64
  bi_remoteIP :: string
  bi_stats :: ConnectionStats
  bi_payloadBytes :: u64

datatype http3RuleBreakerPhase = Closed | Evaluating | Cooldown | Probation

record http3RuleProbationState =
  pb_token :: u64
  pb_key :: http3ConnectTransportKey
  pb_generationID :: u64
  pb_remoteIP :: string
  pb_establishedAt :: gotime
  pb_initialStats :: ConnectionStats
  pb_initialPayload :: u64
  pb_payloadBytes :: u64
  pb_packetsSent :: u64
  pb_healthySamples :: int
  pb_lastHealthyAt :: gotime
  pb_established :: bool

definition zero_probation :: http3RuleProbationState where
  "zero_probation = \<lparr>pb_token = 0, pb_key = zero_key, pb_generationID = 0, pb_remoteIP = '''',
     pb_establishedAt = 0, pb_initialStats = zero_stats, pb_initialPayload = 0, pb_payloadBytes = 0,
     pb_packetsSent = 0, pb_healthySamples = 0, pb_lastHealthyAt = 0, pb_established = False\<rparr>"

record http3RuleRecoveryResult =
  rr_result :: string
  rr_reason :: string
  rr_completedAt :: gotime
  rr_elapsed :: duration
  rr_evidence :: bool
  rr_payloadBytes :: u64
  rr_packetsSent :: u64
  rr_healthySamples :: int

definition zero_recovery :: http3RuleRecoveryResult where
  "zero_recovery = \<lparr>rr_result = '''', rr_reason = '''', rr_completedAt = 0, rr_elapsed = 0,
     rr_evidence = False, rr_payloadBytes = 0, rr_packetsSent = 0, rr_healthySamples = 0\<rparr>"

record http3UDPBlackholeScope =
  sc_key :: http3ConnectTransportKey
  sc_slot :: "nat option"
  sc_connectionID :: u64

datatype http3UDPBlackholeValidationResult =
    ValidationStale | ValidationPending | ValidationFailedOpen | ValidationCommitted | ValidationAlreadyCommitted

record http3RuleBreakerState =
  phase :: http3RuleBreakerPhase
  failures :: int
  retryAt :: gotime
  recent :: "http3RuleDegradationEvent list"
  probation :: http3RuleProbationState
  lastRecovery :: http3RuleRecoveryResult
  evaluationToken :: u64
  evaluationInFlight :: int
  evaluationReachable :: bool
  evaluationDeadline :: gotime
  evaluationBlackholes :: "http3UDPBlackholeScope list"
  evaluationBlackholeOwned :: bool
  committedBlackholes :: "http3UDPBlackholeScope list"
  udpBlackholeCommitToken :: u64
  udpBlackholeArmInFlight :: int
  udpBlackholeArmed :: bool
  routeProbeToken :: u64
  routeProbeKey :: http3ConnectTransportKey
  events :: "string \<Rightarrow> u64"

record http3RuleBreaker =
  nextToken :: u64
  rules :: "string \<Rightarrow> http3RuleBreakerState option"
  endpointRules :: "http3ConnectTransportKey \<Rightarrow> string list"

definition zero_state :: http3RuleBreakerState where
  "zero_state = \<lparr>phase = Closed, failures = 0, retryAt = 0, recent = [], probation = zero_probation,
     lastRecovery = zero_recovery, evaluationToken = 0, evaluationInFlight = 0,
     evaluationReachable = False, evaluationDeadline = 0, evaluationBlackholes = [],
     evaluationBlackholeOwned = False, committedBlackholes = [], udpBlackholeCommitToken = 0,
     udpBlackholeArmInFlight = 0, udpBlackholeArmed = False, routeProbeToken = 0,
     routeProbeKey = zero_key, events = (\<lambda>_. 0)\<rparr>"

definition newHTTP3RuleBreaker :: http3RuleBreaker where
  "newHTTP3RuleBreaker = \<lparr>nextToken = 0, rules = (\<lambda>_. None), endpointRules = (\<lambda>_. [])\<rparr>"

section \<open>Transitions of one rule\<close>

text \<open>Groups of assignments several methods share.\<close>

definition clear_blackholes :: "http3RuleBreakerState \<Rightarrow> http3RuleBreakerState" where
  "clear_blackholes st = st\<lparr>evaluationBlackholes := [], evaluationBlackholeOwned := False,
     committedBlackholes := [], udpBlackholeCommitToken := 0, udpBlackholeArmInFlight := 0,
     udpBlackholeArmed := False\<rparr>"

definition clear_route :: "http3RuleBreakerState \<Rightarrow> http3RuleBreakerState" where
  "clear_route st = st\<lparr>routeProbeToken := 0, routeProbeKey := zero_key\<rparr>"

definition count_event :: "string \<Rightarrow> http3RuleBreakerState \<Rightarrow> http3RuleBreakerState" where
  "count_event e st = st\<lparr>events := (events st)(e := events st e + 1)\<rparr>"

definition resetUDPBlackholeEvaluationLocked :: "http3RuleBreakerState \<Rightarrow> http3RuleBreakerState" where
  "resetUDPBlackholeEvaluationLocked st =
     clear_route (clear_blackholes (st\<lparr>phase := Closed, failures := 0, retryAt := 0,
       evaluationToken := 0, evaluationInFlight := 0, evaluationReachable := False,
       evaluationDeadline := 0\<rparr>))"

definition expireEvaluationLocked :: "gotime \<Rightarrow> http3RuleBreakerState \<Rightarrow> bool \<times> http3RuleBreakerState" where
  "expireEvaluationLocked now st =
     (if phase st \<noteq> Evaluating \<or> evaluationDeadline st = 0 \<or> now < evaluationDeadline st then (False, st)
      else (True, count_event ''validation_failed'' (clear_route (clear_blackholes
        (st\<lparr>phase := Closed, failures := 0, retryAt := 0, evaluationToken := 0,
           evaluationInFlight := 0, evaluationReachable := False, evaluationDeadline := 0\<rparr>)))))"

definition reenterCooldownLocked :: "gotime \<Rightarrow> http3RuleBreakerState \<Rightarrow> duration \<times> http3RuleBreakerState" where
  "reenterCooldownLocked now st =
     (let st = (if failures st < int (length http3RuleCooldownSteps) then st\<lparr>failures := failures st + 1\<rparr> else st);
          st = (if failures st < 1 then st\<lparr>failures := 1\<rparr> else st);
          delay = http3RuleCooldownSteps ! nat (min (failures st) (int (length http3RuleCooldownSteps)) - 1)
      in (delay, clear_route (clear_blackholes
            (st\<lparr>phase := Cooldown, retryAt := now + delay, probation := zero_probation\<rparr>))))"

definition http3RecoveryClassification :: "string \<Rightarrow> bool \<Rightarrow> string \<times> string" where
  "http3RecoveryClassification reason aborted =
     (if aborted then
        if reason \<in> {''canceled'', ''capacity'', ''protocol_unavailable'', ''target_cooldown'', ''no_network''}
        then (''aborted'', reason) else (''aborted'', ''unknown'')
      else if reason = ''recovered'' then (''recovered'', reason)
      else if reason = ''probe_closed'' \<or> reason = ''observation_timeout'' then (''insufficient_evidence'', reason)
      else if reason = ''insufficient_evidence'' then (''insufficient_evidence'', ''unknown'')
      else if reason = ''transport_degraded'' then (''transport_degraded'', reason)
      else if reason = ''missing_transport_evidence'' then (''setup_failed'', reason)
      else (''setup_failed'', ''setup_failed''))"

definition finishRecoveryLocked ::
  "gotime \<Rightarrow> string \<Rightarrow> bool \<Rightarrow> http3RuleBreakerState \<Rightarrow> http3RuleRecoveryResult \<times> http3RuleBreakerState" where
  "finishRecoveryLocked t reason aborted st =
     (let (result, detail) = http3RecoveryClassification reason aborted;
          probe = probation st;
          last = \<lparr>rr_result = result, rr_reason = detail, rr_completedAt = t,
            rr_elapsed = (if pb_established probe then max 0 (time_sub t (pb_establishedAt probe)) else 0),
            rr_evidence = pb_established probe, rr_payloadBytes = pb_payloadBytes probe,
            rr_packetsSent = pb_packetsSent probe, rr_healthySamples = pb_healthySamples probe\<rparr>
      in (last, st\<lparr>lastRecovery := last\<rparr>))"

definition requirementsMet :: "http3RuleRecoveryResult \<Rightarrow> bool \<times> bool \<times> bool" where
  "requirementsMet r =
     (if rr_result r = ''recovered'' then (True, True, True)
      else (rr_elapsed r \<ge> http3RuleProbationMinDuration,
        rr_payloadBytes r \<ge> http3RuleProbationMinPayload \<or> rr_packetsSent r \<ge> http3RuleProbationMinPackets,
        rr_healthySamples r \<ge> http3RuleProbationHealthyCount))"

definition updateEvidence :: "http3RuleSampleEvent \<Rightarrow> http3RuleProbationState \<Rightarrow> http3RuleProbationState" where
  "updateEvidence event probe =
     (let probe = (if se_payloadBytes event \<ge> pb_initialPayload probe
            then probe\<lparr>pb_payloadBytes := max (pb_payloadBytes probe) (se_payloadBytes event - pb_initialPayload probe)\<rparr>
            else probe)
      in if PacketsSent (se_stats event) \<ge> PacketsSent (pb_initialStats probe)
         then probe\<lparr>pb_packetsSent := max (pb_packetsSent probe)
                (PacketsSent (se_stats event) - PacketsSent (pb_initialStats probe))\<rparr>
         else probe)"

definition appendUDPBlackholeScopeLocked :: "http3UDPBlackholeScope \<Rightarrow> http3RuleBreakerState \<Rightarrow> http3RuleBreakerState" where
  "appendUDPBlackholeScopeLocked scope st =
     (if sc_slot scope = None then st
      else if list_ex (\<lambda>e. sc_key e = sc_key scope \<and> sc_slot e = sc_slot scope
          \<and> sc_connectionID e = sc_connectionID scope) (evaluationBlackholes st) then st
      else st\<lparr>evaluationBlackholes := evaluationBlackholes st @ [scope]\<rparr>)"

definition http3RuleShouldOpen :: "http3RuleDegradationEvent list \<Rightarrow> http3RuleDegradationEvent \<Rightarrow> bool" where
  "http3RuleShouldOpen evs current = list_ex (\<lambda>previous.
     \<not> (de_generationID previous = de_generationID current \<and> de_key previous = de_key current)
     \<and> \<not> (let distance = time_sub (de_at current) (de_at previous)
           in (if distance < 0 then - distance else distance) > http3RuleDegradationWindow)
     \<and> (de_remoteIP current \<noteq> '''' \<and> de_remoteIP previous \<noteq> '''' \<and> de_remoteIP current \<noteq> de_remoteIP previous
        \<or> de_generationID previous \<noteq> 0 \<and> de_generationID current \<noteq> 0
          \<and> de_generationID previous \<noteq> de_generationID current
          \<and> (de_key previous = de_key current
             \<or> de_remoteIP current \<noteq> '''' \<and> de_remoteIP current = de_remoteIP previous))) evs"

section \<open>The methods\<close>

definition nextTokenLocked :: "http3RuleBreaker \<Rightarrow> u64 \<times> http3RuleBreaker" where
  "nextTokenLocked b =
     (let b = b\<lparr>nextToken := nextToken b + 1\<rparr>;
          b = (if nextToken b = 0 then b\<lparr>nextToken := nextToken b + 1\<rparr> else b)
      in (nextToken b, b))"

definition put :: "string \<Rightarrow> http3RuleBreakerState \<Rightarrow> http3RuleBreaker \<Rightarrow> http3RuleBreaker" where
  "put rule st b = b\<lparr>rules := (rules b)(rule \<mapsto> st)\<rparr>"

definition targetUsesMixedHTTP3First :: "Target \<Rightarrow> bool" where
  "targetUsesMixedHTTP3First target = (case ConnectProxy target of
       None \<Rightarrow> False
     | Some p \<Rightarrow> (case Protocols p of
         [] \<Rightarrow> False
       | q # qs \<Rightarrow> q = ConnectProxyH3 \<and> ConnectProxyH2 \<in> set qs))"

definition register :: "string \<Rightarrow> http3ConnectTransportKey \<Rightarrow> http3RuleBreaker \<Rightarrow> http3RuleBreaker" where
  "register rule key b =
     (if rule = '''' then b
      else let b = b\<lparr>endpointRules := (endpointRules b)(key := List.insert rule (endpointRules b key))\<rparr>
        in case rules b rule of None \<Rightarrow> put rule zero_state b | Some _ \<Rightarrow> b)"

definition start_probation :: "u64 \<Rightarrow> http3ConnectTransportKey \<Rightarrow> gotime \<Rightarrow> http3RuleBreakerState \<Rightarrow> http3RuleBreakerState" where
  "start_probation token key now st =
     count_event ''probation_started'' (clear_blackholes (st\<lparr>phase := Probation, retryAt := 0,
       probation := zero_probation\<lparr>pb_token := token, pb_key := key, pb_establishedAt := now\<rparr>\<rparr>))"

definition beginWithLease ::
  "gotime \<Rightarrow> string \<Rightarrow> http3ConnectTransportKey \<Rightarrow> u64 \<Rightarrow> http3RuleBreaker \<Rightarrow> (u64 \<times> bool \<times> bool) \<times> http3RuleBreaker" where
  "beginWithLease now rule key lease b =
     (if rule = '''' then ((0, False, True), b)
      else case rules b rule of
        None \<Rightarrow> ((0, False, True), b)
      | Some st \<Rightarrow>
          if phase st = Closed then ((0, False, True), b)
          else if phase st = Evaluating then
            let (expired, st) = expireEvaluationLocked now st
            in if expired then ((0, False, True), put rule st b)
               else let st = (if evaluationDeadline st = 0
                      then st\<lparr>evaluationDeadline := now + http3RuleValidationGrace\<rparr> else st);
                    st = st\<lparr>evaluationInFlight := evaluationInFlight st + 1\<rparr>
                 in ((evaluationToken st, False, False), put rule st b)
          else if phase st = Probation \<or> now < retryAt st then ((0, False, False), b)
          else if routeProbeToken st \<noteq> 0 \<and> (routeProbeToken st \<noteq> lease \<or> routeProbeKey st \<noteq> key)
          then ((0, False, False), b)
          else let (token, b) = nextTokenLocked b
            in ((token, True, True), put rule (start_probation token key now (clear_route st)) b))"

definition begin_attempt ::
  "gotime \<Rightarrow> string \<Rightarrow> http3ConnectTransportKey \<Rightarrow> http3RuleBreaker \<Rightarrow> (u64 \<times> bool \<times> bool) \<times> http3RuleBreaker" where
  "begin_attempt now rule key b = beginWithLease now rule key 0 b"

definition bypassing :: "gotime \<Rightarrow> gotime \<Rightarrow> string \<Rightarrow> http3RuleBreaker \<Rightarrow> bool \<times> http3RuleBreaker" where
  "bypassing now now2 rule b =
     (if rule = '''' then (False, b)
      else case rules b rule of
        None \<Rightarrow> (False, b)
      | Some st \<Rightarrow> let st = snd (expireEvaluationLocked now st)
          in (phase st = Evaluating \<or> phase st = Cooldown \<and> (now2 < retryAt st \<or> routeProbeToken st \<noteq> 0)
                \<or> phase st = Probation, put rule st b))"

definition recoveryProbeDue :: "gotime \<Rightarrow> string \<Rightarrow> http3RuleBreaker \<Rightarrow> bool" where
  "recoveryProbeDue now rule b =
     (if rule = '''' then False
      else case rules b rule of
        None \<Rightarrow> False
      | Some st \<Rightarrow> phase st = Cooldown \<and> \<not> now < retryAt st \<and> routeProbeToken st = 0)"

definition restrictsOrdinaryH3 :: "gotime \<Rightarrow> string \<Rightarrow> http3RuleBreaker \<Rightarrow> bool \<times> http3RuleBreaker" where
  "restrictsOrdinaryH3 now rule b =
     (if rule = '''' then (False, b)
      else case rules b rule of
        None \<Rightarrow> (False, b)
      | Some st \<Rightarrow> let st = snd (expireEvaluationLocked now st)
          in (phase st = Evaluating \<or> phase st = Cooldown \<or> phase st = Probation, put rule st b))"

definition claimRecoveryRouteProbe ::
  "gotime \<Rightarrow> string \<Rightarrow> http3ConnectTransportKey \<Rightarrow> http3RuleBreaker \<Rightarrow> (u64 \<times> bool) \<times> http3RuleBreaker" where
  "claimRecoveryRouteProbe now rule key b =
     (if rule = '''' then ((0, False), b)
      else case rules b rule of
        None \<Rightarrow> ((0, False), b)
      | Some st \<Rightarrow>
          if phase st \<noteq> Cooldown \<or> now < retryAt st \<or> routeProbeToken st \<noteq> 0 then ((0, False), b)
          else let (t, b) = nextTokenLocked b; token = t OR http3RuleRouteProbeTokenMask
            in ((token, True), put rule (st\<lparr>routeProbeToken := token, routeProbeKey := key\<rparr>) b))"

definition releaseRecoveryRouteProbe ::
  "gotime \<Rightarrow> gotime \<Rightarrow> string \<Rightarrow> u64 \<Rightarrow> http3RuleBreaker \<Rightarrow> bool \<times> http3RuleBreaker" where
  "releaseRecoveryRouteProbe now now2 rule token b =
     (if rule = '''' \<or> token AND http3RuleRouteProbeTokenMask = 0 then (False, b)
      else case rules b rule of
        None \<Rightarrow> (True, b)
      | Some st \<Rightarrow>
          if routeProbeToken st \<noteq> token then (True, b)
          else let st = count_event ''probation_aborted''
                 ((clear_route st)\<lparr>retryAt := now + http3RuleProbationAbortDelay\<rparr>)
            in (True, put rule (snd (finishRecoveryLocked now2 ''no_network'' True st)) b))"

definition establish ::
  "gotime \<Rightarrow> string \<Rightarrow> u64 \<Rightarrow> http3ConnectTransportKey \<Rightarrow> http3RuleProbationBinding \<Rightarrow> http3RuleBreaker \<Rightarrow>
     bool \<times> http3RuleBreaker" where
  "establish now rule token key binding b = (case rules b rule of
       None \<Rightarrow> (False, b)
     | Some st \<Rightarrow>
         if phase st \<noteq> Probation \<or> pb_token (probation st) \<noteq> token \<or> pb_key (probation st) \<noteq> key
            \<or> bi_generationID binding = 0 then (False, b)
         else (True, put rule (st\<lparr>probation := (probation st)\<lparr>pb_generationID := bi_generationID binding,
             pb_remoteIP := bi_remoteIP binding, pb_initialStats := bi_stats binding,
             pb_initialPayload := bi_payloadBytes binding, pb_establishedAt := now,
             pb_established := True\<rparr>\<rparr>) b))"

definition abortProbation :: "gotime \<Rightarrow> gotime \<Rightarrow> string \<Rightarrow> u64 \<Rightarrow> string \<Rightarrow> http3RuleBreaker \<Rightarrow> http3RuleBreaker" where
  "abortProbation now now2 rule token reason b =
     (if rule = '''' \<or> token = 0 then b
      else case rules b rule of
        None \<Rightarrow> b
      | Some st \<Rightarrow>
          if phase st \<noteq> Probation \<or> pb_token (probation st) \<noteq> token then b
          else let st = snd (finishRecoveryLocked now reason True st)
            in put rule (count_event ''probation_aborted'' (clear_route (clear_blackholes
                 (st\<lparr>phase := Cooldown, retryAt := now2 + http3RuleProbationAbortDelay,
                    probation := zero_probation\<rparr>)))) b)"

text \<open>An HTTP/2 response commits the cooldown.\<close>

definition commit_validation :: "gotime \<Rightarrow> http3RuleBreakerState \<Rightarrow> http3RuleBreakerState" where
  "commit_validation now st =
     (let committingToken = evaluationToken st;
          st = st\<lparr>phase := Cooldown, failures := 1, retryAt := now + http3RuleCooldownSteps ! 0,
            evaluationToken := 0, evaluationInFlight := 0, evaluationReachable := False,
            evaluationDeadline := 0, committedBlackholes := evaluationBlackholes st,
            evaluationBlackholes := [], evaluationBlackholeOwned := False\<rparr>;
          st = (if committedBlackholes st \<noteq> []
            then st\<lparr>udpBlackholeCommitToken := committingToken, udpBlackholeArmInFlight := 1, udpBlackholeArmed := False\<rparr>
            else st\<lparr>udpBlackholeCommitToken := 0, udpBlackholeArmInFlight := 0, udpBlackholeArmed := False\<rparr>)
      in count_event ''opened'' (clear_route st))"

definition observeValidation ::
  "gotime \<Rightarrow> gotime \<Rightarrow> string \<Rightarrow> u64 \<Rightarrow> bool \<Rightarrow> http3RuleBreaker \<Rightarrow> bool \<times> http3RuleBreaker" where
  "observeValidation now now2 rule token h2Reachable b =
     (if rule = '''' \<or> token = 0 then (False, b)
      else case rules b rule of
        None \<Rightarrow> (False, b)
      | Some st \<Rightarrow>
          if phase st \<noteq> Evaluating \<or> evaluationToken st \<noteq> token \<or> evaluationInFlight st \<le> 0 then (False, b)
          else let (expired, st) = expireEvaluationLocked now st
            in if expired then (False, put rule st b)
               else let st = st\<lparr>evaluationInFlight := evaluationInFlight st - 1\<rparr>;
                    st = (if h2Reachable then st\<lparr>evaluationReachable := True\<rparr> else st)
                 in if evaluationReachable st then (True, put rule (commit_validation now2 st) b)
                    else (False, put rule (snd (expireEvaluationLocked now2 st)) b))"

definition failProbationWithEvidence ::
  "gotime \<Rightarrow> gotime \<Rightarrow> string \<Rightarrow> u64 \<Rightarrow> string \<Rightarrow> http3RuleSampleEvent option \<Rightarrow> http3RuleBreaker \<Rightarrow> http3RuleBreaker" where
  "failProbationWithEvidence now now2 rule token reason evidence b =
     (if rule = '''' \<or> token = 0 then b
      else case rules b rule of
        None \<Rightarrow> b
      | Some st \<Rightarrow>
          if phase st \<noteq> Probation \<or> pb_token (probation st) \<noteq> token then b
          else let (reason, st) = (case evidence of
                     Some ev \<Rightarrow>
                       if pb_established (probation st) \<and> pb_key (probation st) = se_key ev
                          \<and> pb_generationID (probation st) = se_generationID ev
                       then let probe = updateEvidence ev (probation st)
                         in if se_connectionErr ev \<or> Rotate (se_decision ev)
                            then (''transport_degraded'', st\<lparr>probation := probe\<lparr>pb_healthySamples := 0\<rparr>\<rparr>)
                            else (reason, st\<lparr>probation := probe\<rparr>)
                       else (reason, st)
                   | None \<Rightarrow> (reason, st));
                 st = snd (finishRecoveryLocked now reason False st);
                 st = snd (reenterCooldownLocked now2 st)
            in put rule (count_event ''probation_failed'' st) b)"

definition failProbation :: "gotime \<Rightarrow> gotime \<Rightarrow> string \<Rightarrow> u64 \<Rightarrow> string \<Rightarrow> http3RuleBreaker \<Rightarrow> http3RuleBreaker" where
  "failProbation now now2 rule token reason b = failProbationWithEvidence now now2 rule token reason None b"

text \<open>A degradation event, on one rule that has the endpoint. \<open>now\<close> is the clock reading of
  \<^verbatim>\<open>reenterCooldownLocked\<close>.\<close>

definition keep_recent :: "http3RuleDegradationEvent \<Rightarrow> http3RuleDegradationEvent list \<Rightarrow> http3RuleDegradationEvent list" where
  "keep_recent event evs =
     filter (\<lambda>previous. \<not> de_at previous < de_at event - http3RuleDegradationWindow) evs"

definition duplicate_generation :: "http3RuleDegradationEvent \<Rightarrow> http3RuleDegradationEvent list \<Rightarrow> bool" where
  "duplicate_generation event kept = list_ex (\<lambda>previous. de_key previous = de_key event
     \<and> de_generationID previous \<noteq> 0 \<and> de_generationID previous = de_generationID event) kept"

definition start_evaluation :: "u64 \<Rightarrow> http3RuleBreakerState \<Rightarrow> http3RuleBreakerState" where
  "start_evaluation token st =
     count_event ''validation_started'' (clear_route (clear_blackholes
       (st\<lparr>failures := 0, phase := Evaluating, retryAt := 0, probation := zero_probation,
          evaluationToken := token, evaluationInFlight := 0, evaluationReachable := False,
          evaluationDeadline := 0\<rparr>)))"

text \<open>The transport of a probation degraded: it fails at once.\<close>

definition fail_degraded :: "gotime \<Rightarrow> gotime \<Rightarrow> string \<Rightarrow> http3RuleBreakerState \<Rightarrow> http3RuleBreakerState" where
  "fail_degraded t now reason st =
     count_event ''probation_failed'' (snd (reenterCooldownLocked now (snd (finishRecoveryLocked t reason False st))))"

definition zero_healthy :: "http3RuleBreakerState \<Rightarrow> http3RuleBreakerState" where
  "zero_healthy st = st\<lparr>probation := (probation st)\<lparr>pb_healthySamples := 0\<rparr>\<rparr>"

definition noteDegradation_rule ::
  "gotime \<Rightarrow> http3RuleDegradationEvent \<Rightarrow> string \<Rightarrow> http3RuleBreaker \<Rightarrow> string list \<times> http3RuleBreaker" where
  "noteDegradation_rule now event rule b = (case rules b rule of
       None \<Rightarrow> ([], b)
     | Some st \<Rightarrow>
         let st = snd (expireEvaluationLocked (de_at event) st)
         in if phase st = Probation \<and> pb_generationID (probation st) = de_generationID event
               \<and> pb_key (probation st) = de_key event
            then ([rule], put rule (fail_degraded (de_at event) now ''transport_degraded'' (zero_healthy st)) b)
            else if phase st \<noteq> Closed then ([], put rule st b)
            else
              let kept = keep_recent event (recent st)
              in if duplicate_generation event kept then ([], put rule (st\<lparr>recent := kept\<rparr>) b)
                 else let st = st\<lparr>recent := kept @ [event]\<rparr>
                   in if \<not> http3RuleShouldOpen (recent st) event then ([], put rule st b)
                      else let (token, b) = nextTokenLocked b
                        in ([], put rule (start_evaluation token st) b))"

fun noteDegradation_loop ::
  "(string \<Rightarrow> gotime) \<Rightarrow> http3RuleDegradationEvent \<Rightarrow> string list \<Rightarrow> http3RuleBreaker \<Rightarrow> string list \<times> http3RuleBreaker" where
  "noteDegradation_loop clock event [] b = ([], b)"
| "noteDegradation_loop clock event (rule # rest) b =
     (let (opened, b) = noteDegradation_rule (clock rule) event rule b;
          (more, b) = noteDegradation_loop clock event rest b
      in (opened @ more, b))"

text \<open>The result lists the rules whose probation failed; a rule that starts an evaluation is only
  logged. \<open>order\<close> lists the rules of the endpoint in the order the map iteration gives them.\<close>

definition noteDegradation ::
  "gotime \<Rightarrow> (string \<Rightarrow> gotime) \<Rightarrow> string list \<Rightarrow> http3RuleDegradationEvent \<Rightarrow> http3RuleBreaker \<Rightarrow>
     string list \<times> http3RuleBreaker" where
  "noteDegradation now clock order event b =
     (if address (de_key event) = '''' then ([], b)
      else let event = (if de_at event = 0 then event\<lparr>de_at := now\<rparr> else event)
        in noteDegradation_loop clock event order b)"

definition endpointKeysForRules ::
  "http3ConnectTransportKey list \<Rightarrow> string list \<Rightarrow> http3RuleBreaker \<Rightarrow> http3ConnectTransportKey list" where
  "endpointKeysForRules keys wanted b =
     (if wanted = [] then [] else filter (\<lambda>key. list_ex (\<lambda>rule. rule \<in> set wanted) (endpointRules b key)) keys)"

text \<open>A sample of the probation's connection.\<close>

definition sample_healthy :: "http3DegradationSignals \<Rightarrow> bool" where
  "sample_healthy g \<longleftrightarrow> \<not> Warmup g \<and> \<not> RTTBad g \<and> \<not> LossBad g \<and> \<not> PayloadStalled g \<and> sBlockedWrites g = 0"

definition count_healthy :: "http3RuleSampleEvent \<Rightarrow> http3RuleProbationState \<Rightarrow> http3RuleProbationState" where
  "count_healthy event probe =
     (let healthy = sample_healthy (Signals (se_decision event))
      in if healthy \<and> (pb_lastHealthyAt probe = 0
           \<or> time_sub (se_at event) (pb_lastHealthyAt probe) \<ge> http3DegradationSampleInterval)
         then probe\<lparr>pb_healthySamples := pb_healthySamples probe + 1, pb_lastHealthyAt := se_at event\<rparr>
         else if \<not> healthy then probe\<lparr>pb_healthySamples := 0, pb_lastHealthyAt := 0\<rparr>
         else probe)"

definition recover :: "gotime \<Rightarrow> http3RuleBreakerState \<Rightarrow> http3RuleBreakerState" where
  "recover t st =
     (let st = snd (finishRecoveryLocked t ''recovered'' False st)
      in count_event ''recovered'' (clear_route (clear_blackholes
           (st\<lparr>phase := Closed, failures := 0, retryAt := 0, recent := [], probation := zero_probation\<rparr>))))"

definition probation_passed :: "gotime \<Rightarrow> http3RuleProbationState \<Rightarrow> bool" where
  "probation_passed t probe \<longleftrightarrow>
     time_sub t (pb_establishedAt probe) \<ge> http3RuleProbationMinDuration
     \<and> (pb_payloadBytes probe \<ge> http3RuleProbationMinPayload \<or> pb_packetsSent probe \<ge> http3RuleProbationMinPackets)
     \<and> pb_healthySamples probe \<ge> http3RuleProbationHealthyCount"

definition noteSample_state :: "gotime \<Rightarrow> http3RuleSampleEvent \<Rightarrow> http3RuleBreakerState \<Rightarrow> http3RuleBreakerState" where
  "noteSample_state now event st =
     (if phase st \<noteq> Probation \<or> \<not> pb_established (probation st) \<or> pb_key (probation st) \<noteq> se_key event
         \<or> pb_generationID (probation st) \<noteq> se_generationID event
      then st
      else
        let st = st\<lparr>probation := updateEvidence event (probation st)\<rparr>
        in if se_connectionErr event \<or> Rotate (se_decision event)
           then fail_degraded (se_at event) now ''transport_degraded'' (zero_healthy st)
           else if \<not> Sampled (Signals (se_decision event)) then st
           else
             let st = st\<lparr>probation := count_healthy event (probation st)\<rparr>
             in if probation_passed (se_at event) (probation st) then recover (se_at event) st
                else if time_sub (se_at event) (pb_establishedAt (probation st)) \<ge> http3RuleProbationMaxDuration
                then fail_degraded (se_at event) now ''observation_timeout'' st
                else st)"

fun noteSample_loop ::
  "(string \<Rightarrow> gotime) \<Rightarrow> http3RuleSampleEvent \<Rightarrow> string list \<Rightarrow> http3RuleBreaker \<Rightarrow> http3RuleBreaker" where
  "noteSample_loop clock event [] b = b"
| "noteSample_loop clock event (rule # rest) b =
     noteSample_loop clock event rest (case rules b rule of
         None \<Rightarrow> b
       | Some st \<Rightarrow> put rule (noteSample_state (clock rule) event st) b)"

definition noteSample ::
  "gotime \<Rightarrow> (string \<Rightarrow> gotime) \<Rightarrow> string list \<Rightarrow> http3RuleSampleEvent \<Rightarrow> http3RuleBreaker \<Rightarrow> http3RuleBreaker" where
  "noteSample now clock order event b =
     (if se_generationID event = 0 then b
      else let event = (if se_at event = 0 then event\<lparr>se_at := now\<rparr> else event)
        in noteSample_loop clock event order b)"

text \<open>The gauges of one rule.\<close>

definition phase_string :: "http3RuleBreakerPhase \<Rightarrow> string" where
  "phase_string p = (case p of Evaluating \<Rightarrow> ''evaluating'' | Cooldown \<Rightarrow> ''cooldown''
     | Probation \<Rightarrow> ''probation'' | Closed \<Rightarrow> ''closed'')"

record http3RuleBreakerGauge =
  g_rule :: string
  g_phase :: string
  g_cooldown :: bool
  g_remaining :: duration
  g_probeDue :: bool
  g_probeInFlight :: bool
  g_evaluating :: bool
  g_probation :: bool
  g_healthySamples :: int
  g_payloadBytes :: u64
  g_packetsSent :: u64
  g_lastRecovery :: http3RuleRecoveryResult
  g_events :: "string \<Rightarrow> u64"

definition snapshot_rule :: "gotime \<Rightarrow> string \<Rightarrow> http3RuleBreakerState \<Rightarrow> http3RuleBreakerGauge" where
  "snapshot_rule now rule st =
     (let cooldown = (phase st = Cooldown \<and> now < retryAt st)
      in \<lparr>g_rule = rule, g_phase = phase_string (phase st), g_cooldown = cooldown,
          g_remaining = (if cooldown \<and> now < retryAt st then time_sub (retryAt st) now else 0),
          g_probeDue = (phase st = Cooldown \<and> \<not> now < retryAt st \<and> routeProbeToken st = 0),
          g_probeInFlight = (routeProbeToken st \<noteq> 0), g_evaluating = (phase st = Evaluating),
          g_probation = (phase st = Probation), g_healthySamples = pb_healthySamples (probation st),
          g_payloadBytes = pb_payloadBytes (probation st), g_packetsSent = pb_packetsSent (probation st),
          g_lastRecovery = lastRecovery st, g_events = events st\<rparr>)"

fun snapshot_loop ::
  "gotime \<Rightarrow> string list \<Rightarrow> http3RuleBreaker \<Rightarrow> http3RuleBreakerGauge list \<times> http3RuleBreaker" where
  "snapshot_loop now [] b = ([], b)"
| "snapshot_loop now (rule # rest) b = (case rules b rule of
       None \<Rightarrow> snapshot_loop now rest b
     | Some st \<Rightarrow>
         let st = snd (expireEvaluationLocked now st);
             (gauges, b) = snapshot_loop now rest (put rule st b)
         in (snapshot_rule now rule st # gauges, b))"

section \<open>UDP blackhole validation\<close>

definition join_blackhole ::
  "gotime \<Rightarrow> http3UDPBlackholeScope \<Rightarrow> http3RuleBreakerState \<Rightarrow> (u64 \<times> bool \<times> bool) \<times> http3RuleBreakerState" where
  "join_blackhole now scope st =
     (let st = appendUDPBlackholeScopeLocked scope st;
          st = st\<lparr>evaluationInFlight := evaluationInFlight st + 1,
            evaluationDeadline := now + http3UDPBlackholeH2ProbeTimeout\<rparr>
      in ((evaluationToken st, True, False), st))"

definition start_blackhole_evaluation :: "u64 \<Rightarrow> http3RuleBreakerState \<Rightarrow> http3RuleBreakerState" where
  "start_blackhole_evaluation token st =
     count_event ''validation_started'' (st\<lparr>phase := Evaluating, evaluationToken := token,
       evaluationInFlight := 0, evaluationReachable := False, evaluationDeadline := 0,
       evaluationBlackholes := [], committedBlackholes := [], evaluationBlackholeOwned := True\<rparr>)"

definition beginUDPBlackholeValidation ::
  "gotime \<Rightarrow> gotime \<Rightarrow> string \<Rightarrow> http3UDPBlackholeScope \<Rightarrow> http3RuleBreaker \<Rightarrow> (u64 \<times> bool \<times> bool) \<times> http3RuleBreaker" where
  "beginUDPBlackholeValidation now now2 rule scope b =
     (if rule = '''' then ((0, False, False), b)
      else case rules b rule of
        None \<Rightarrow> ((0, False, False), b)
      | Some st \<Rightarrow>
          if sc_slot scope = None then ((0, False, False), b)
          else if rule \<notin> set (endpointRules b (sc_key scope)) then ((0, False, False), b)
          else let st = snd (expireEvaluationLocked now st) in
            case phase st of
              Closed \<Rightarrow>
                let (token, b) = nextTokenLocked b;
                    (r, st) = join_blackhole now scope (start_blackhole_evaluation token st)
                in (r, put rule st b)
            | Evaluating \<Rightarrow>
                let st = appendUDPBlackholeScopeLocked scope st
                in if evaluationInFlight st > 0 then ((evaluationToken st, False, False), put rule st b)
                   else let (r, st) = join_blackhole now scope st in (r, put rule st b)
            | Cooldown \<Rightarrow>
                if \<not> now < retryAt st
                then ((0, False, True), put rule (count_event ''cooldown_extended'' (snd (reenterCooldownLocked now2 st))) b)
                else if udpBlackholeCommitToken st \<noteq> 0
                then ((udpBlackholeCommitToken st, False, True),
                      put rule (st\<lparr>udpBlackholeArmInFlight := udpBlackholeArmInFlight st + 1\<rparr>) b)
                else ((0, False, True), put rule st b)
            | Probation \<Rightarrow>
                ((0, False, True), put rule (count_event ''probation_failed'' (snd (reenterCooldownLocked now2 st))) b))"

definition commit_blackhole :: "gotime \<Rightarrow> u64 \<Rightarrow> http3RuleBreakerState \<Rightarrow> http3RuleBreakerState" where
  "commit_blackhole now token st =
     count_event ''opened'' (clear_route (st\<lparr>committedBlackholes := evaluationBlackholes st,
       phase := Cooldown, failures := 1, retryAt := now + http3RuleCooldownSteps ! 0, evaluationToken := 0,
       evaluationInFlight := 0, evaluationReachable := False, evaluationDeadline := 0,
       evaluationBlackholes := [], evaluationBlackholeOwned := False, udpBlackholeCommitToken := token,
       udpBlackholeArmInFlight := 1, udpBlackholeArmed := False\<rparr>))"

definition fail_open :: "http3RuleBreakerState \<Rightarrow> http3RuleBreakerState" where
  "fail_open st =
     count_event ''validation_failed'' (clear_route (clear_blackholes (st\<lparr>phase := Closed, failures := 0,
       retryAt := 0, evaluationToken := 0, evaluationReachable := False, evaluationDeadline := 0\<rparr>)))"

definition completeUDPBlackholeValidation ::
  "gotime \<Rightarrow> gotime \<Rightarrow> string \<Rightarrow> u64 \<Rightarrow> bool \<Rightarrow> http3RuleBreaker \<Rightarrow>
     http3UDPBlackholeValidationResult \<times> http3RuleBreaker" where
  "completeUDPBlackholeValidation now now2 rule token h2Reachable b =
     (if rule = '''' \<or> token = 0 then (ValidationStale, b)
      else case rules b rule of
        None \<Rightarrow> (ValidationStale, b)
      | Some st \<Rightarrow>
          if phase st = Cooldown then (ValidationAlreadyCommitted, b)
          else if phase st \<noteq> Evaluating \<or> evaluationToken st \<noteq> token \<or> evaluationInFlight st \<le> 0
          then (ValidationStale, b)
          else let (expired, st) = expireEvaluationLocked now st
            in if expired then (ValidationStale, put rule st b)
               else let st = st\<lparr>evaluationInFlight := evaluationInFlight st - 1\<rparr>
                 in if h2Reachable then (ValidationCommitted, put rule (commit_blackhole now2 token st) b)
                    else if evaluationInFlight st > 0 then (ValidationPending, put rule st b)
                    else (ValidationFailedOpen, put rule (fail_open st) b))"

definition udpBlackholeCommitMatches :: "string \<Rightarrow> u64 \<Rightarrow> http3RuleBreaker \<Rightarrow> bool" where
  "udpBlackholeCommitMatches rule token b =
     (if rule = '''' \<or> token = 0 then False
      else case rules b rule of
        None \<Rightarrow> False | Some st \<Rightarrow> phase st = Cooldown \<and> udpBlackholeCommitToken st = token)"

definition takeCommittedUDPBlackholes :: "string \<Rightarrow> http3RuleBreaker \<Rightarrow> http3UDPBlackholeScope list \<times> http3RuleBreaker" where
  "takeCommittedUDPBlackholes rule b =
     (if rule = '''' then ([], b)
      else case rules b rule of
        None \<Rightarrow> ([], b)
      | Some st \<Rightarrow> if length (committedBlackholes st) = 0 then ([], b)
          else (committedBlackholes st, put rule (st\<lparr>committedBlackholes := []\<rparr>) b))"

definition udpBlackholeEvaluationScopes :: "string \<Rightarrow> u64 \<Rightarrow> http3RuleBreaker \<Rightarrow> http3UDPBlackholeScope list" where
  "udpBlackholeEvaluationScopes rule token b =
     (if rule = '''' \<or> token = 0 then []
      else case rules b rule of
        None \<Rightarrow> []
      | Some st \<Rightarrow> if phase st \<noteq> Evaluating \<or> evaluationToken st \<noteq> token then [] else evaluationBlackholes st)"

text \<open>Give up a place among the validations, and the evaluation if the blackhole owns it.\<close>

definition leave_evaluation :: "http3RuleBreakerState \<Rightarrow> http3RuleBreakerState" where
  "leave_evaluation st =
     (let st = (if evaluationInFlight st > 0 then st\<lparr>evaluationInFlight := evaluationInFlight st - 1\<rparr> else st)
      in if evaluationBlackholeOwned st then resetUDPBlackholeEvaluationLocked st else st)"

definition retainUDPBlackholeEvaluationScopes ::
  "string \<Rightarrow> u64 \<Rightarrow> http3UDPBlackholeScope list \<Rightarrow> http3UDPBlackholeScope list \<Rightarrow> http3RuleBreaker \<Rightarrow>
     bool \<times> http3RuleBreaker" where
  "retainUDPBlackholeEvaluationScopes rule token evaluated active b =
     (if rule = '''' \<or> token = 0 then (False, b)
      else case rules b rule of
        None \<Rightarrow> (False, b)
      | Some st \<Rightarrow>
          if phase st \<noteq> Evaluating \<or> evaluationToken st \<noteq> token then (False, b)
          else let stale = set evaluated - set active;
                   retained = filter (\<lambda>scope. scope \<notin> stale) (evaluationBlackholes st);
                   st = st\<lparr>evaluationBlackholes := retained\<rparr>
            in if length retained > 0 then (True, put rule st b)
               else (False, put rule (leave_evaluation st) b))"

definition abandonUDPBlackholeProbe :: "string \<Rightarrow> u64 \<Rightarrow> http3RuleBreaker \<Rightarrow> http3RuleBreaker" where
  "abandonUDPBlackholeProbe rule token b =
     (if rule = '''' \<or> token = 0 then b
      else case rules b rule of
        None \<Rightarrow> b
      | Some st \<Rightarrow>
          if phase st \<noteq> Evaluating \<or> evaluationToken st \<noteq> token then b else put rule (leave_evaluation st) b)"

definition finishUDPBlackholeArming :: "string \<Rightarrow> u64 \<Rightarrow> bool \<Rightarrow> http3RuleBreaker \<Rightarrow> bool \<times> http3RuleBreaker" where
  "finishUDPBlackholeArming rule token armed b =
     (if token = 0 then (True, b)
      else if rule = '''' then (False, b)
      else case rules b rule of
        None \<Rightarrow> (False, b)
      | Some st \<Rightarrow>
          if phase st \<noteq> Cooldown \<or> udpBlackholeCommitToken st \<noteq> token then (False, b)
          else let st = (if udpBlackholeArmInFlight st > 0
                     then st\<lparr>udpBlackholeArmInFlight := udpBlackholeArmInFlight st - 1\<rparr> else st);
                   st = (if armed then st\<lparr>udpBlackholeArmed := True\<rparr> else st)
            in if udpBlackholeArmInFlight st = 0 \<and> \<not> udpBlackholeArmed st
               then (False, put rule (count_event ''validation_stale'' (resetUDPBlackholeEvaluationLocked st)) b)
               else (True, put rule st b))"

section \<open>Sequences of operations\<close>

text \<open>The mutex serialises the methods, so a history of the breaker is a list of calls with their
  arguments and clock readings.\<close>

datatype breaker_op =
    Register string http3ConnectTransportKey
  | Begin gotime string http3ConnectTransportKey u64
  | Bypassing gotime gotime string
  | RestrictsOrdinaryH3 gotime string
  | ClaimRouteProbe gotime string http3ConnectTransportKey
  | ReleaseRouteProbe gotime gotime string u64
  | Establish gotime string u64 http3ConnectTransportKey http3RuleProbationBinding
  | AbortProbation gotime gotime string u64 string
  | ObserveValidation gotime gotime string u64 bool
  | FailProbation gotime gotime string u64 string "http3RuleSampleEvent option"
  | NoteDegradation gotime "string \<Rightarrow> gotime" "string list" http3RuleDegradationEvent
  | NoteSample gotime "string \<Rightarrow> gotime" "string list" http3RuleSampleEvent
  | Snapshot gotime "string list"
  | BeginBlackhole gotime gotime string http3UDPBlackholeScope
  | CompleteBlackhole gotime gotime string u64 bool
  | TakeCommitted string
  | RetainScopes string u64 "http3UDPBlackholeScope list" "http3UDPBlackholeScope list"
  | AbandonBlackhole string u64
  | FinishArming string u64 bool

fun run_op :: "breaker_op \<Rightarrow> http3RuleBreaker \<Rightarrow> http3RuleBreaker" where
  "run_op (Register r k) b = register r k b"
| "run_op (Begin n r k t) b = snd (beginWithLease n r k t b)"
| "run_op (Bypassing n n2 r) b = snd (bypassing n n2 r b)"
| "run_op (RestrictsOrdinaryH3 n r) b = snd (restrictsOrdinaryH3 n r b)"
| "run_op (ClaimRouteProbe n r k) b = snd (claimRecoveryRouteProbe n r k b)"
| "run_op (ReleaseRouteProbe n n2 r t) b = snd (releaseRecoveryRouteProbe n n2 r t b)"
| "run_op (Establish n r t k bi) b = snd (establish n r t k bi b)"
| "run_op (AbortProbation n n2 r t why) b = abortProbation n n2 r t why b"
| "run_op (ObserveValidation n n2 r t ok) b = snd (observeValidation n n2 r t ok b)"
| "run_op (FailProbation n n2 r t why ev) b = failProbationWithEvidence n n2 r t why ev b"
| "run_op (NoteDegradation n c order ev) b = snd (noteDegradation n c order ev b)"
| "run_op (NoteSample n c order ev) b = noteSample n c order ev b"
| "run_op (Snapshot n order) b = snd (snapshot_loop n order b)"
| "run_op (BeginBlackhole n n2 r sc) b = snd (beginUDPBlackholeValidation n n2 r sc b)"
| "run_op (CompleteBlackhole n n2 r t ok) b = snd (completeUDPBlackholeValidation n n2 r t ok b)"
| "run_op (TakeCommitted r) b = snd (takeCommittedUDPBlackholes r b)"
| "run_op (RetainScopes r t ev ac) b = snd (retainUDPBlackholeEvaluationScopes r t ev ac b)"
| "run_op (AbandonBlackhole r t) b = abandonUDPBlackholeProbe r t b"
| "run_op (FinishArming r t armed) b = snd (finishUDPBlackholeArming r t armed b)"

definition run_ops :: "breaker_op list \<Rightarrow> http3RuleBreaker \<Rightarrow> http3RuleBreaker" where
  "run_ops = fold run_op"

section \<open>The invariant of a rule\<close>

text \<open>A token lives exactly in its phase, the back-off counter is that of the phase, and what
  belongs to one phase is gone in the others.\<close>

definition state_ok :: "http3RuleBreakerState \<Rightarrow> bool" where
  "state_ok st \<longleftrightarrow>
     (phase st = Evaluating \<longleftrightarrow> evaluationToken st \<noteq> 0)
     \<and> (phase st = Probation \<longleftrightarrow> pb_token (probation st) \<noteq> 0)
     \<and> (phase st \<in> {Closed, Evaluating} \<longrightarrow> failures st = 0)
     \<and> (phase st \<in> {Cooldown, Probation} \<longrightarrow> 1 \<le> failures st \<and> failures st \<le> 4)
     \<and> (phase st \<noteq> Cooldown \<longrightarrow> retryAt st = 0 \<and> routeProbeToken st = 0
          \<and> udpBlackholeCommitToken st = 0 \<and> committedBlackholes st = [])
     \<and> (phase st \<noteq> Evaluating \<longrightarrow> evaluationInFlight st = 0 \<and> evaluationBlackholes st = [])
     \<and> \<not> evaluationReachable st
     \<and> evaluationInFlight st \<ge> 0 \<and> udpBlackholeArmInFlight st \<ge> 0
     \<and> distinct (evaluationBlackholes st)
     \<and> (routeProbeToken st = 0 \<or> routeProbeToken st AND http3RuleRouteProbeTokenMask \<noteq> 0)"

definition breaker_ok :: "http3RuleBreaker \<Rightarrow> bool" where
  "breaker_ok b \<longleftrightarrow> (\<forall>rule st. rules b rule = Some st \<longrightarrow> state_ok st)"

lemma breaker_ok_get: "breaker_ok b \<Longrightarrow> rules b rule = Some st \<Longrightarrow> state_ok st"
  by (simp add: breaker_ok_def)

lemma breaker_ok_put: "breaker_ok b \<Longrightarrow> state_ok st \<Longrightarrow> breaker_ok (put rule st b)"
  by (simp add: breaker_ok_def put_def)

lemma put_sel [simp]:
  "rules (put rule st b) = (rules b)(rule \<mapsto> st)" "nextToken (put rule st b) = nextToken b"
  "endpointRules (put rule st b) = endpointRules b"
  by (simp_all add: put_def)

lemma nextTokenLocked_sel [simp]:
  "rules (snd (nextTokenLocked b)) = rules b" "fst (nextTokenLocked b) \<noteq> 0"
  "endpointRules (snd (nextTokenLocked b)) = endpointRules b"
  "nextToken (snd (nextTokenLocked b)) = fst (nextTokenLocked b)"
  by (simp_all add: nextTokenLocked_def Let_def)

lemma breaker_ok_nextToken [simp]: "breaker_ok (snd (nextTokenLocked b)) = breaker_ok b"
  by (simp add: breaker_ok_def)

text \<open>The state transitions keep it.\<close>

lemmas transition_defs = clear_blackholes_def clear_route_def count_event_def finishRecoveryLocked_def
  Let_def split_beta

lemma state_ok_zero [simp]: "state_ok zero_state"
  by (simp add: state_ok_def zero_state_def zero_probation_def)

lemma zero_probation_token [simp]: "pb_token zero_probation = 0"
  by (simp add: zero_probation_def)

lemma state_ok_expire: "state_ok st \<Longrightarrow> state_ok (snd (expireEvaluationLocked now st))"
  by (auto simp: state_ok_def expireEvaluationLocked_def transition_defs)

lemma expire_phase:
  "phase (snd (expireEvaluationLocked now st)) = (if fst (expireEvaluationLocked now st) then Closed else phase st)"
  "fst (expireEvaluationLocked now st) \<Longrightarrow> phase st = Evaluating"
  "\<not> fst (expireEvaluationLocked now st) \<Longrightarrow> snd (expireEvaluationLocked now st) = st"
  by (auto simp: expireEvaluationLocked_def transition_defs split: if_splits)

lemma state_ok_reenter:
  "state_ok st \<Longrightarrow> phase st \<in> {Cooldown, Probation} \<Longrightarrow> state_ok (snd (reenterCooldownLocked now st))"
  by (auto simp: state_ok_def reenterCooldownLocked_def http3RuleCooldownSteps_def transition_defs)

lemma state_ok_finish [simp]: "state_ok (snd (finishRecoveryLocked t why a st)) = state_ok st"
  by (simp add: state_ok_def finishRecoveryLocked_def Let_def split_beta)

lemma finish_phase [simp]:
  "phase (snd (finishRecoveryLocked t why a st)) = phase st"
  "probation (snd (finishRecoveryLocked t why a st)) = probation st"
  by (simp_all add: finishRecoveryLocked_def Let_def split_beta)

lemma state_ok_count [simp]: "state_ok (count_event e st) = state_ok st" "phase (count_event e st) = phase st"
  by (simp_all add: state_ok_def count_event_def)

lemma state_ok_probation_cong:
  "state_ok st \<Longrightarrow> pb_token p = pb_token (probation st) \<Longrightarrow> state_ok (st\<lparr>probation := p\<rparr>)"
  by (simp add: state_ok_def)

lemma state_ok_recent: "state_ok (st\<lparr>recent := r\<rparr>) = state_ok st"
  by (simp add: state_ok_def)

lemma updateEvidence_token [simp]: "pb_token (updateEvidence ev p) = pb_token p"
  by (simp add: updateEvidence_def Let_def)

lemma count_healthy_token [simp]: "pb_token (count_healthy ev p) = pb_token p"
  by (simp add: count_healthy_def Let_def)

lemma state_ok_start_probation:
  "state_ok st \<Longrightarrow> phase st = Cooldown \<Longrightarrow> token \<noteq> 0 \<Longrightarrow> state_ok (start_probation token key now (clear_route st))"
  by (simp add: state_ok_def start_probation_def transition_defs)

lemma state_ok_start_evaluation: "state_ok st \<Longrightarrow> phase st = Closed \<Longrightarrow> token \<noteq> 0 \<Longrightarrow> state_ok (start_evaluation token st)"
  by (simp add: state_ok_def start_evaluation_def transition_defs)

lemma state_ok_commit_validation:
  "state_ok (st\<lparr>evaluationReachable := False\<rparr>) \<Longrightarrow> phase st = Evaluating \<Longrightarrow> state_ok (commit_validation now st)"
  by (auto simp: state_ok_def commit_validation_def transition_defs)

lemma state_ok_fail_degraded: "state_ok st \<Longrightarrow> phase st = Probation \<Longrightarrow> state_ok (fail_degraded t now why st)"
  by (simp add: fail_degraded_def state_ok_reenter)

lemma state_ok_zero_healthy [simp]: "state_ok (zero_healthy st) = state_ok st" "phase (zero_healthy st) = phase st"
  by (simp_all add: state_ok_def zero_healthy_def)

lemma state_ok_recover: "state_ok st \<Longrightarrow> phase st = Probation \<Longrightarrow> state_ok (recover t st)"
  by (simp add: state_ok_def recover_def transition_defs)

lemma state_ok_append: "state_ok st \<Longrightarrow> phase st = Evaluating \<Longrightarrow> state_ok (appendUDPBlackholeScopeLocked sc st)"
  by (auto simp: state_ok_def appendUDPBlackholeScopeLocked_def list_ex_iff)

lemma append_frame [simp]:
  "phase (appendUDPBlackholeScopeLocked sc st) = phase st"
  "evaluationInFlight (appendUDPBlackholeScopeLocked sc st) = evaluationInFlight st"
  "evaluationToken (appendUDPBlackholeScopeLocked sc st) = evaluationToken st"
  by (simp_all add: appendUDPBlackholeScopeLocked_def)

lemma state_ok_join: "state_ok st \<Longrightarrow> phase st = Evaluating \<Longrightarrow> state_ok (snd (join_blackhole now sc st))"
  using state_ok_append[of st sc] by (simp add: join_blackhole_def Let_def state_ok_def)

lemma state_ok_start_blackhole:
  "state_ok st \<Longrightarrow> phase st = Closed \<Longrightarrow> token \<noteq> 0 \<Longrightarrow> state_ok (start_blackhole_evaluation token st)"
  by (simp add: state_ok_def start_blackhole_evaluation_def transition_defs)

lemma state_ok_commit_blackhole: "state_ok st \<Longrightarrow> phase st = Evaluating \<Longrightarrow> state_ok (commit_blackhole now token st)"
  by (auto simp: state_ok_def commit_blackhole_def transition_defs)

lemma state_ok_fail_open:
  "state_ok st \<Longrightarrow> phase st = Evaluating \<Longrightarrow> evaluationInFlight st = 0 \<Longrightarrow> state_ok (fail_open st)"
  by (auto simp: state_ok_def fail_open_def transition_defs)

lemma state_ok_reset: "state_ok st \<Longrightarrow> phase st \<in> {Cooldown, Evaluating} \<Longrightarrow> state_ok (resetUDPBlackholeEvaluationLocked st)"
  by (auto simp: state_ok_def resetUDPBlackholeEvaluationLocked_def transition_defs)

lemma state_ok_inflight:
  "state_ok st \<Longrightarrow> phase st = Evaluating \<Longrightarrow> n \<ge> 0 \<Longrightarrow> state_ok (st\<lparr>evaluationInFlight := n\<rparr>)"
  by (simp add: state_ok_def)

lemma state_ok_leave: "state_ok st \<Longrightarrow> phase st = Evaluating \<Longrightarrow> state_ok (leave_evaluation st)"
  by (auto simp: leave_evaluation_def Let_def intro!: state_ok_reset state_ok_inflight)

lemma state_ok_noteSample: "state_ok st \<Longrightarrow> state_ok (noteSample_state now ev st)"
  by (auto simp: noteSample_state_def Let_def
      intro!: state_ok_fail_degraded state_ok_recover state_ok_probation_cong)

lemma breaker_ok_noteDegradation_rule:
  assumes "breaker_ok b" shows "breaker_ok (snd (noteDegradation_rule now ev rule b))"
proof (cases "rules b rule")
  case (Some st)
  note ok = state_ok_expire[OF breaker_ok_get[OF assms Some]]
  show ?thesis unfolding noteDegradation_rule_def Some option.case Let_def
    using assms ok
    by (auto simp: split_beta state_ok_recent
        intro!: breaker_ok_put state_ok_fail_degraded state_ok_start_evaluation)
qed (simp add: noteDegradation_rule_def assms)

lemma breaker_ok_noteDegradation_loop:
  "breaker_ok b \<Longrightarrow> breaker_ok (snd (noteDegradation_loop clock ev order b))"
  by (induction order arbitrary: b) (auto simp: Let_def split_beta intro: breaker_ok_noteDegradation_rule)

lemma breaker_ok_noteSample_loop: "breaker_ok b \<Longrightarrow> breaker_ok (noteSample_loop clock ev order b)"
  by (induction order arbitrary: b)
    (auto split: option.split dest: breaker_ok_get intro!: breaker_ok_put state_ok_noteSample)

lemma breaker_ok_snapshot_loop: "breaker_ok b \<Longrightarrow> breaker_ok (snd (snapshot_loop now order b))"
  by (induction order arbitrary: b)
    (auto simp: Let_def split_beta split: option.split dest: breaker_ok_get intro!: breaker_ok_put state_ok_expire)

lemma breaker_ok_begin:
  assumes "breaker_ok b" shows "breaker_ok (snd (beginWithLease now rule key lease b))"
proof (cases "rules b rule")
  case (Some st)
  note ok = breaker_ok_get[OF assms Some] 
  note oke = state_ok_expire[OF ok, of now]
  have upd: "state_ok (st\<lparr>evaluationDeadline := d, evaluationInFlight := evaluationInFlight st + 1\<rparr>)"
    "state_ok (st\<lparr>evaluationInFlight := evaluationInFlight st + 1\<rparr>)"
    if "phase st = Evaluating" for d
    using ok that by (simp_all add: state_ok_def)
  show ?thesis
  proof (cases "phase st")
    case Cooldown
    then show ?thesis unfolding beginWithLease_def Some option.case Let_def using assms ok
      by (auto simp: split_beta intro!: breaker_ok_put state_ok_start_probation)
  next
    case Evaluating
    then show ?thesis unfolding beginWithLease_def Some option.case Let_def
      using assms oke upd expire_phase(3)[of now st] by (auto simp: split_beta intro!: breaker_ok_put)
  qed (simp_all add: beginWithLease_def Some assms)
qed (simp add: beginWithLease_def assms)

lemma breaker_ok_observeValidation:
  assumes "breaker_ok b" shows "breaker_ok (snd (observeValidation now now2 rule token h2 b))"
proof (cases "rules b rule")
  case (Some st)
  note ok = breaker_ok_get[OF assms Some]
  have *: "state_ok (commit_validation now2 (st\<lparr>evaluationInFlight := evaluationInFlight st - 1, evaluationReachable := True\<rparr>))"
    "state_ok (st\<lparr>evaluationInFlight := evaluationInFlight st - 1\<rparr>)" "\<not> evaluationReachable st"
    if "phase st = Evaluating" "evaluationInFlight st > 0"
    using ok that by (auto intro!: state_ok_commit_validation) (auto simp: state_ok_def)
  show ?thesis unfolding observeValidation_def Some option.case Let_def
    using assms * state_ok_expire[OF ok, of now] expire_phase(3)[of now st]
    by (auto simp: split_beta intro!: breaker_ok_put state_ok_expire)
qed (simp add: observeValidation_def assms)

lemma breaker_ok_completeBlackhole:
  assumes "breaker_ok b" shows "breaker_ok (snd (completeUDPBlackholeValidation now now2 rule token h2 b))"
proof (cases "rules b rule")
  case (Some st)
  note ok = breaker_ok_get[OF assms Some]
  have *: "state_ok (st\<lparr>evaluationInFlight := evaluationInFlight st - 1\<rparr>)"
    if "phase st = Evaluating" "evaluationInFlight st > 0"
    using ok that by (auto simp: state_ok_def)
  show ?thesis unfolding completeUDPBlackholeValidation_def Some option.case Let_def
    using assms * state_ok_expire[OF ok, of now] expire_phase(3)[of now st]
    by (auto simp: split_beta intro!: breaker_ok_put state_ok_commit_blackhole state_ok_fail_open)
qed (simp add: completeUDPBlackholeValidation_def assms)

lemma breaker_ok_beginBlackhole:
  assumes "breaker_ok b" shows "breaker_ok (snd (beginUDPBlackholeValidation now now2 rule sc b))"
proof (cases "rules b rule")
  case (Some st)
  let ?st = "snd (expireEvaluationLocked now st)"
  note ok = state_ok_expire[OF breaker_ok_get[OF assms Some], of now]
  have arm: "state_ok (?st\<lparr>udpBlackholeArmInFlight := udpBlackholeArmInFlight ?st + 1\<rparr>)"
    using ok by (simp add: state_ok_def)
  have start: "phase (start_blackhole_evaluation t s) = Evaluating" for t s
    by (simp add: start_blackhole_evaluation_def count_event_def)
  show ?thesis unfolding beginUDPBlackholeValidation_def Some option.case Let_def
    using assms ok arm
    by (auto simp: split_beta start split: http3RuleBreakerPhase.split
        intro!: breaker_ok_put state_ok_join state_ok_start_blackhole state_ok_append state_ok_reenter)
qed (simp add: beginUDPBlackholeValidation_def assms)

lemma breaker_ok_failProbation:
  assumes "breaker_ok b" shows "breaker_ok (failProbationWithEvidence now now2 rule token why ev b)"
proof (cases "rules b rule")
  case (Some st)
  note ok = breaker_ok_get[OF assms Some]
  show ?thesis unfolding failProbationWithEvidence_def Some option.case Let_def
    using assms ok
    by (auto simp: split_beta split: option.split intro!: breaker_ok_put state_ok_reenter state_ok_probation_cong)
qed (simp add: failProbationWithEvidence_def assms)

lemma mask_or_nonzero: "(t OR http3RuleRouteProbeTokenMask) AND http3RuleRouteProbeTokenMask \<noteq> 0"
proof -
  have "bit ((t OR http3RuleRouteProbeTokenMask) AND http3RuleRouteProbeTokenMask) 63"
    by (simp add: http3RuleRouteProbeTokenMask_def bit_and_iff bit_or_iff bit_push_bit_iff)
  then show ?thesis by fastforce
qed

lemma breaker_ok_claim:
  assumes "breaker_ok b" shows "breaker_ok (snd (claimRecoveryRouteProbe now rule key b))"
proof (cases "rules b rule")
  case (Some st)
  have "state_ok (st\<lparr>routeProbeToken := t OR http3RuleRouteProbeTokenMask, routeProbeKey := key\<rparr>)"
    if "phase st = Cooldown" for t
    using breaker_ok_get[OF assms Some] that mask_or_nonzero by (simp add: state_ok_def)
  then show ?thesis unfolding claimRecoveryRouteProbe_def Some option.case Let_def
    using assms by (auto simp: split_beta intro!: breaker_ok_put)
qed (simp add: claimRecoveryRouteProbe_def assms)

lemma breaker_ok_release:
  assumes "breaker_ok b" shows "breaker_ok (snd (releaseRecoveryRouteProbe now now2 rule token b))"
proof (cases "rules b rule")
  case (Some st)
  have "state_ok ((clear_route st)\<lparr>retryAt := now + d\<rparr>)" if "routeProbeToken st \<noteq> 0" for d
    using breaker_ok_get[OF assms Some] that by (auto simp: state_ok_def clear_route_def)
  moreover have "token \<noteq> 0" if "token AND http3RuleRouteProbeTokenMask \<noteq> 0" using that by auto
  ultimately show ?thesis unfolding releaseRecoveryRouteProbe_def Some option.case Let_def
    using assms by (auto intro!: breaker_ok_put)
qed (simp add: releaseRecoveryRouteProbe_def assms)

lemma breaker_ok_register: "breaker_ok b \<Longrightarrow> breaker_ok (register rule key b)"
  by (auto simp: register_def Let_def breaker_ok_def split: option.split)

lemma breaker_ok_bypassing: "breaker_ok b \<Longrightarrow> breaker_ok (snd (bypassing now now2 rule b))"
  by (auto simp: bypassing_def Let_def split: option.split dest: breaker_ok_get intro!: breaker_ok_put state_ok_expire)

lemma breaker_ok_restricts: "breaker_ok b \<Longrightarrow> breaker_ok (snd (restrictsOrdinaryH3 now rule b))"
  by (auto simp: restrictsOrdinaryH3_def Let_def split: option.split dest: breaker_ok_get intro!: breaker_ok_put state_ok_expire)

lemma breaker_ok_establish: "breaker_ok b \<Longrightarrow> breaker_ok (snd (establish now rule token key bi b))"
  by (auto simp: establish_def split: option.split dest: breaker_ok_get intro!: breaker_ok_put state_ok_probation_cong)

lemma state_ok_abort:
  "state_ok st \<Longrightarrow> phase st = Probation \<Longrightarrow>
   state_ok (clear_route (clear_blackholes (st\<lparr>phase := Cooldown, retryAt := t, probation := zero_probation\<rparr>)))"
  by (simp add: state_ok_def clear_route_def clear_blackholes_def)

lemma breaker_ok_abort:
  assumes "breaker_ok b" shows "breaker_ok (abortProbation now now2 rule token why b)"
proof (cases "rules b rule")
  case (Some st)
  note ok = breaker_ok_get[OF assms Some]
  show ?thesis unfolding abortProbation_def Some option.case Let_def
    using assms ok by (auto intro!: breaker_ok_put state_ok_abort)
qed (simp add: abortProbation_def assms)

lemma state_ok_taken: "state_ok st \<Longrightarrow> state_ok (st\<lparr>committedBlackholes := []\<rparr>)"
  by (simp add: state_ok_def)

lemma breaker_ok_take: "breaker_ok b \<Longrightarrow> breaker_ok (snd (takeCommittedUDPBlackholes rule b))"
  by (auto simp: takeCommittedUDPBlackholes_def split: option.split dest: breaker_ok_get
      intro!: breaker_ok_put state_ok_taken)

lemma breaker_ok_retain:
  assumes "breaker_ok b" shows "breaker_ok (snd (retainUDPBlackholeEvaluationScopes rule token ev ac b))"
proof (cases "rules b rule")
  case (Some st)
  have "state_ok (st\<lparr>evaluationBlackholes := filter P (evaluationBlackholes st)\<rparr>)"
    "state_ok (st\<lparr>evaluationBlackholes := []\<rparr>)" for P
    using breaker_ok_get[OF assms Some] by (simp_all add: state_ok_def)
  then show ?thesis unfolding retainUDPBlackholeEvaluationScopes_def Some option.case Let_def
    using assms by (auto intro!: breaker_ok_put state_ok_leave)
qed (simp add: retainUDPBlackholeEvaluationScopes_def assms)

lemma breaker_ok_abandon: "breaker_ok b \<Longrightarrow> breaker_ok (abandonUDPBlackholeProbe rule token b)"
  by (auto simp: abandonUDPBlackholeProbe_def split: option.split dest: breaker_ok_get intro!: breaker_ok_put state_ok_leave)

lemma state_ok_arming: "state_ok st \<Longrightarrow> phase st = Cooldown \<Longrightarrow> n \<ge> 0 \<Longrightarrow>
   state_ok (st\<lparr>udpBlackholeArmInFlight := n\<rparr>)" "state_ok (st\<lparr>udpBlackholeArmed := a\<rparr>) = state_ok st"
  by (simp_all add: state_ok_def)

lemma breaker_ok_finishArming:
  assumes "breaker_ok b" shows "breaker_ok (snd (finishUDPBlackholeArming rule token armed b))"
proof (cases "rules b rule")
  case (Some st)
  note ok = breaker_ok_get[OF assms Some]
  show ?thesis unfolding finishUDPBlackholeArming_def Some option.case Let_def
    using assms ok by (auto simp: state_ok_arming intro!: breaker_ok_put state_ok_reset)
qed (simp add: finishUDPBlackholeArming_def assms)

lemma breaker_ok_run_op: "breaker_ok b \<Longrightarrow> breaker_ok (run_op op b)"
  by (cases op)
    (auto simp: noteDegradation_def noteSample_def Let_def breaker_ok_register breaker_ok_begin breaker_ok_bypassing
      breaker_ok_restricts breaker_ok_claim breaker_ok_release breaker_ok_establish breaker_ok_abort
      breaker_ok_observeValidation breaker_ok_failProbation breaker_ok_noteDegradation_loop
      breaker_ok_noteSample_loop breaker_ok_snapshot_loop breaker_ok_beginBlackhole
      breaker_ok_completeBlackhole breaker_ok_take breaker_ok_retain breaker_ok_abandon breaker_ok_finishArming)

interpretation rb: invariant_system "\<lambda>b. b = newHTTP3RuleBreaker" "\<lambda>b b'. \<exists>op. b' = run_op op b" breaker_ok
  by unfold_locales (auto simp: breaker_ok_run_op, simp add: breaker_ok_def newHTTP3RuleBreaker_def)

lemma run_ops_reach: "(\<lambda>b b'. \<exists>op. b' = run_op op b)\<^sup>*\<^sup>* b (run_ops ops b)"
proof (induction ops arbitrary: b)
  case (Cons op ops)
  then show ?case by (auto simp: run_ops_def intro: converse_rtranclp_into_rtranclp)
qed (simp add: run_ops_def)

lemma run_ops_ok: "breaker_ok (run_ops ops newHTTP3RuleBreaker)"
  using rb.reachable_inv[OF refl run_ops_reach] .

section \<open>Which operation makes which transition\<close>

text \<open>A map iteration visits every rule once.\<close>

definition op_ok :: "http3RuleBreaker \<Rightarrow> breaker_op \<Rightarrow> bool" where
  "op_ok b op = (case op of
       NoteDegradation n c order ev \<Rightarrow> distinct order \<and> set order = set (endpointRules b (de_key ev))
     | NoteSample n c order ev \<Rightarrow> distinct order \<and> set order = set (endpointRules b (se_key ev))
     | Snapshot n order \<Rightarrow> distinct order \<and> set order = dom (rules b)
     | _ \<Rightarrow> True)"

lemma noteSample_loop_rule:
  "distinct order \<Longrightarrow> rules (noteSample_loop c ev order b) r =
     (if r \<in> set order then map_option (noteSample_state (c r) ev) (rules b r) else rules b r)"
  by (induction order arbitrary: b) (auto split: option.split)

lemma noteDegradation_rule_other: "r \<noteq> rule \<Longrightarrow> rules (snd (noteDegradation_rule now ev rule b)) r = rules b r"
  by (simp add: noteDegradation_rule_def Let_def split_beta split: option.split)

lemma noteDegradation_loop_other:
  "r \<notin> set order \<Longrightarrow> rules (snd (noteDegradation_loop c ev order b)) r = rules b r"
  by (induction order arbitrary: b) (auto simp: Let_def split_beta noteDegradation_rule_other)

lemma noteDegradation_loop_rule:
  assumes "distinct order" "r \<in> set order"
  obtains b' where "rules b' r = rules b r"
    "rules (snd (noteDegradation_loop c ev order b)) r = rules (snd (noteDegradation_rule (c r) ev r b')) r"
  using assms
proof (induction order arbitrary: b thesis)
  case (Cons rule rest)
  let ?b = "snd (noteDegradation_rule (c rule) ev rule b)"
  show ?case
  proof (cases "r = rule")
    case True
    then show ?thesis using Cons.prems by (intro Cons.prems(1)[of b])
        (auto simp: Let_def split_beta noteDegradation_loop_other)
  next
    case False
    then obtain b' where "rules b' r = rules ?b r"
      "rules (snd (noteDegradation_loop c ev rest ?b)) r = rules (snd (noteDegradation_rule (c r) ev r b')) r"
      using Cons.IH[of ?b] Cons.prems by auto
    then show ?thesis using Cons.prems False
      by (intro Cons.prems(1)[of b']) (auto simp: Let_def split_beta noteDegradation_rule_other)
  qed
qed simp

lemma snapshot_loop_rule:
  "distinct order \<Longrightarrow> rules (snd (snapshot_loop now order b)) r =
     (if r \<in> set order then map_option (\<lambda>st. snd (expireEvaluationLocked now st)) (rules b r) else rules b r)"
  by (induction order arbitrary: b) (auto simp: Let_def split_beta split: option.split)

text \<open>The phases the transitions lead to.\<close>

lemma transition_phase [simp]:
  "phase (clear_route st) = phase st" "phase (clear_blackholes st) = phase st"
  "phase (snd (reenterCooldownLocked now st)) = Cooldown"
  "phase (start_probation token key now st) = Probation"
  "phase (start_evaluation token st) = Evaluating"
  "phase (start_blackhole_evaluation token st) = Evaluating"
  "phase (snd (join_blackhole now sc st)) = phase st"
  "phase (commit_validation now st) = Cooldown"
  "phase (commit_blackhole now token st) = Cooldown"
  "phase (fail_degraded t now why st) = Cooldown"
  "phase (recover t st) = Closed" "phase (fail_open st) = Closed"
  "phase (resetUDPBlackholeEvaluationLocked st) = Closed"
  by (simp_all add: clear_route_def clear_blackholes_def reenterCooldownLocked_def start_probation_def
      start_evaluation_def start_blackhole_evaluation_def join_blackhole_def commit_validation_def
      commit_blackhole_def fail_degraded_def recover_def fail_open_def resetUDPBlackholeEvaluationLocked_def
      count_event_def Let_def)

lemma leave_phase: "phase (leave_evaluation st) \<in> {phase st, Closed}"
  by (simp add: leave_evaluation_def Let_def)

lemma expire_other: "phase st \<noteq> Evaluating \<Longrightarrow> expireEvaluationLocked now st = (False, st)"
  by (simp add: expireEvaluationLocked_def)

lemma expire_not_cooldown: "phase st \<noteq> Cooldown \<Longrightarrow> phase (snd (expireEvaluationLocked now st)) \<noteq> Cooldown"
  by (simp add: expire_phase)

text \<open>From Probation every operation but a sample leads to Cooldown or stays.\<close>

lemma noteDegradation_rule_probation:
  "rules b r = Some st \<Longrightarrow> phase st = Probation \<Longrightarrow>
   \<exists>st'. rules (snd (noteDegradation_rule now ev r b)) r = Some st' \<and> phase st' \<in> {Cooldown, Probation}"
  by (simp add: noteDegradation_rule_def Let_def expire_other)

lemma probation_kept:
  assumes st: "rules b r = Some st" "phase st = Probation" and ok: "op_ok b op"
    and op: "\<not> (\<exists>n c order ev. op = NoteSample n c order ev)"
  shows "\<exists>st'. rules (run_op op b) r = Some st' \<and> phase st' \<in> {Cooldown, Probation}"
proof (cases op)
  case (NoteDegradation n c order ev)
  then have d: "distinct order" using ok by (simp add: op_ok_def)
  let ?ev = "if de_at ev = 0 then ev\<lparr>de_at := n\<rparr> else ev"
  have "\<exists>st'. rules (snd (noteDegradation_loop c ?ev order b)) r = Some st' \<and> phase st' \<in> {Cooldown, Probation}"
  proof (cases "r \<in> set order")
    case True
    obtain b' where "rules b' r = rules b r" "rules (snd (noteDegradation_loop c ?ev order b)) r
        = rules (snd (noteDegradation_rule (c r) ?ev r b')) r"
      using noteDegradation_loop_rule[OF d True] .
    then show ?thesis using noteDegradation_rule_probation[of b' r st] st by simp
  qed (simp add: noteDegradation_loop_other st)
  then show ?thesis using NoteDegradation st by (simp add: noteDegradation_def)
next
  case (BeginBlackhole n n2 r' sc)
  then show ?thesis using st
    by (cases "r = r'") (auto simp: beginUDPBlackholeValidation_def Let_def split_beta expire_other
        split: option.split http3RuleBreakerPhase.split)
next
  case (FailProbation n n2 r' t why ev)
  then show ?thesis using st
    by (cases "r = r'") (auto simp: failProbationWithEvidence_def Let_def split_beta split: option.split)
next
  case (ReleaseRouteProbe n n2 r' t)
  then show ?thesis using st
    by (cases "r = r'") (auto simp: releaseRecoveryRouteProbe_def Let_def split: option.split)
next
  case (Begin n r' k t)
  then show ?thesis using st
    by (cases "r = r'") (auto simp: beginWithLease_def Let_def split_beta split: option.split)
next
  case (AbortProbation n n2 r' t why)
  then show ?thesis using st
    by (cases "r = r'") (auto simp: abortProbation_def Let_def split: option.split)
next
  case (ObserveValidation n n2 r' t h)
  then show ?thesis using st
    by (cases "r = r'") (auto simp: observeValidation_def Let_def split_beta split: option.split)
next
  case (CompleteBlackhole n n2 r' t h)
  then show ?thesis using st
    by (cases "r = r'") (auto simp: completeUDPBlackholeValidation_def Let_def split_beta split: option.split)
next
  case (Snapshot n order)
  then show ?thesis using st ok by (simp add: op_ok_def snapshot_loop_rule expire_other)
qed (use st op in \<open>auto simp: register_def bypassing_def restrictsOrdinaryH3_def claimRecoveryRouteProbe_def
    establish_def takeCommittedUDPBlackholes_def retainUDPBlackholeEvaluationScopes_def
    abandonUDPBlackholeProbe_def finishUDPBlackholeArming_def Let_def split_beta expire_other
    split: option.split\<close>)

lemma updateEvidence_frame [simp]:
  "pb_healthySamples (updateEvidence ev p) = pb_healthySamples p"
  "pb_lastHealthyAt (updateEvidence ev p) = pb_lastHealthyAt p"
  "pb_establishedAt (updateEvidence ev p) = pb_establishedAt p"
  by (simp_all add: updateEvidence_def Let_def)

lemma count_healthy_frame [simp]:
  "pb_establishedAt (count_healthy ev p) = pb_establishedAt p"
  "pb_payloadBytes (count_healthy ev p) = pb_payloadBytes p"
  "pb_packetsSent (count_healthy ev p) = pb_packetsSent p"
  by (simp_all add: count_healthy_def Let_def)

lemma probation_frame [simp]:
  "probation (snd (finishRecoveryLocked t why a st)) = probation st"
  "probation (clear_route st) = probation st" "probation (count_event e st) = probation st"
  by (simp_all add: finishRecoveryLocked_def clear_route_def count_event_def Let_def split_beta)

lemma noteDegradation_rule_same:
  "rules b r = Some st \<Longrightarrow> phase st = Probation \<Longrightarrow> rules (snd (noteDegradation_rule now ev r b)) r = Some st' \<Longrightarrow>
   phase st' = Cooldown \<or> st' = st"
  by (auto simp: noteDegradation_rule_def Let_def expire_other split: if_splits)

text \<open>During a probation only a sample and the establishment change what it has seen.\<close>

lemma probation_same:
  assumes st: "rules b r = Some st" "phase st = Probation" and ok: "op_ok b op"
    and op: "\<not> (\<exists>n c order ev. op = NoteSample n c order ev)" "\<not> (\<exists>n r t k bi. op = Establish n r t k bi)"
    and st': "rules (run_op op b) r = Some st'"
  shows "phase st' = Cooldown \<or> probation st' = probation st"
proof (cases op)
  case (NoteDegradation n c order ev)
  then have d: "distinct order" using ok by (simp add: op_ok_def)
  let ?ev = "if de_at ev = 0 then ev\<lparr>de_at := n\<rparr> else ev"
  have "phase st' = Cooldown \<or> st' = st" if s: "rules (snd (noteDegradation_loop c ?ev order b)) r = Some st'"
  proof (cases "r \<in> set order")
    case True
    obtain b' where "rules b' r = rules b r" "rules (snd (noteDegradation_loop c ?ev order b)) r
        = rules (snd (noteDegradation_rule (c r) ?ev r b')) r"
      using noteDegradation_loop_rule[OF d True] .
    then show ?thesis using noteDegradation_rule_same[of b' r st "c r" ?ev st'] st s by simp
  next
    case False
    then show ?thesis using s noteDegradation_loop_other[OF False, of c ?ev b] st by simp
  qed
  then show ?thesis using NoteDegradation st st' by (auto simp: noteDegradation_def split: if_splits)
next
  case (BeginBlackhole n n2 r' sc)
  then show ?thesis using st st'
    by (cases "r = r'") (auto simp: beginUDPBlackholeValidation_def Let_def split_beta expire_other
        split: option.splits http3RuleBreakerPhase.splits if_splits)
next
  case (FailProbation n n2 r' t why ev)
  then show ?thesis using st st'
    by (cases "r = r'") (auto simp: failProbationWithEvidence_def Let_def split_beta split: option.splits if_splits)
next
  case (ReleaseRouteProbe n n2 r' t)
  then show ?thesis using st st'
    by (cases "r = r'") (auto simp: releaseRecoveryRouteProbe_def Let_def split: option.splits if_splits)
next
  case (Begin n r' k t)
  then show ?thesis using st st'
    by (cases "r = r'") (auto simp: beginWithLease_def Let_def split_beta split: option.splits if_splits)
next
  case (AbortProbation n n2 r' t why)
  then show ?thesis using st st'
    by (cases "r = r'") (auto simp: abortProbation_def Let_def split: option.splits if_splits)
next
  case (ObserveValidation n n2 r' t h)
  then show ?thesis using st st'
    by (cases "r = r'") (auto simp: observeValidation_def Let_def split_beta split: option.splits if_splits)
next
  case (CompleteBlackhole n n2 r' t h)
  then show ?thesis using st st'
    by (cases "r = r'") (auto simp: completeUDPBlackholeValidation_def Let_def split_beta split: option.splits if_splits)
next
  case (Snapshot n order)
  then show ?thesis using st ok st' by (auto simp: op_ok_def snapshot_loop_rule expire_other split: if_splits)
qed (use st st' op in \<open>auto simp: register_def bypassing_def restrictsOrdinaryH3_def claimRecoveryRouteProbe_def
    takeCommittedUDPBlackholes_def retainUDPBlackholeEvaluationScopes_def
    abandonUDPBlackholeProbe_def finishUDPBlackholeArming_def Let_def split_beta expire_other
    split: option.splits if_splits\<close>)

text \<open>A probation begins with nothing seen.\<close>

definition fresh_probation :: "http3RuleProbationState \<Rightarrow> bool" where
  "fresh_probation p \<longleftrightarrow> \<not> pb_established p \<and> pb_payloadBytes p = 0 \<and> pb_packetsSent p = 0 \<and> pb_healthySamples p = 0 \<and> pb_lastHealthyAt p = 0"

lemma start_probation_fresh: "fresh_probation (probation (start_probation token key now st))"
  by (simp add: start_probation_def fresh_probation_def clear_blackholes_def count_event_def zero_probation_def)

definition outside :: "http3RuleBreaker \<Rightarrow> string \<Rightarrow> bool" where
  "outside b r \<longleftrightarrow> (case rules b r of None \<Rightarrow> True | Some st \<Rightarrow> phase st \<noteq> Probation)"

lemma expire_not_probation: "phase st \<noteq> Probation \<Longrightarrow> phase (snd (expireEvaluationLocked now st)) \<noteq> Probation"
  by (simp add: expire_phase)

lemma noteDegradation_rule_outside:
  "outside b r \<Longrightarrow> rules (snd (noteDegradation_rule now ev r b)) r = Some st' \<Longrightarrow> phase st' \<noteq> Probation"
  using expire_not_probation[of "the (rules b r)" "de_at ev"]
  by (auto simp: outside_def noteDegradation_rule_def Let_def split_beta split: if_splits option.splits)

lemma probation_enters:
  assumes out: "outside b r" and ok: "op_ok b op" and st': "rules (run_op op b) r = Some st'" "phase st' = Probation"
  shows "fresh_probation (probation st')"
proof (cases op)
  case (NoteDegradation n c order ev)
  then have d: "distinct order" using ok by (simp add: op_ok_def)
  let ?ev = "if de_at ev = 0 then ev\<lparr>de_at := n\<rparr> else ev"
  have "phase st' \<noteq> Probation" if s: "rules (snd (noteDegradation_loop c ?ev order b)) r = Some st'"
  proof (cases "r \<in> set order")
    case True
    obtain b' where "rules b' r = rules b r" "rules (snd (noteDegradation_loop c ?ev order b)) r
        = rules (snd (noteDegradation_rule (c r) ?ev r b')) r"
      using noteDegradation_loop_rule[OF d True] .
    then show ?thesis using noteDegradation_rule_outside[of b' r "c r" ?ev st'] out s by (simp add: outside_def)
  next
    case False
    then show ?thesis using s noteDegradation_loop_other[OF False, of c ?ev b] out by (simp add: outside_def)
  qed
  then show ?thesis using NoteDegradation out st' by (auto simp: noteDegradation_def outside_def split: if_splits)
next
  case (NoteSample n c order ev)
  then have d: "distinct order" using ok by (simp add: op_ok_def)
  then show ?thesis using NoteSample out st'
    by (auto simp: noteSample_def Let_def noteSample_loop_rule[OF d] noteSample_state_def outside_def split: if_splits option.splits)
next
  case (Begin n r' k t)
  then show ?thesis using out st' expire_not_probation[of "the (rules b r)" n]
    by (cases "r = r'") (auto simp: beginWithLease_def Let_def split_beta outside_def start_probation_fresh split: option.splits if_splits)
next
  case (BeginBlackhole n n2 r' sc)
  then show ?thesis using out st' expire_not_probation[of "the (rules b r)" n]
    by (cases "r = r'") (auto simp: beginUDPBlackholeValidation_def Let_def split_beta outside_def appendUDPBlackholeScopeLocked_def join_blackhole_def
        split: option.splits http3RuleBreakerPhase.splits if_splits)
next
  case (Snapshot n order)
  then show ?thesis using out ok st' expire_not_probation[of "the (rules b r)" n] by (auto simp: op_ok_def snapshot_loop_rule outside_def split: if_splits option.splits)
next
  case (ObserveValidation n n2 r' t h)
  then show ?thesis using out st' expire_not_probation[of "the (rules b r)" n]
      expire_not_probation[of "(the (rules b r))\<lparr>evaluationInFlight := evaluationInFlight (the (rules b r)) - 1\<rparr>" n2]
    by (cases "r = r'") (auto simp: observeValidation_def Let_def split_beta outside_def expire_phase split: option.splits if_splits)
next
  case (CompleteBlackhole n n2 r' t h)
  then show ?thesis using out st' expire_not_probation[of "the (rules b r)" n]
    by (cases "r = r'") (auto simp: completeUDPBlackholeValidation_def Let_def split_beta outside_def split: option.splits if_splits)
next
  case (FailProbation n n2 r' t why ev)
  then show ?thesis using out st'
    by (cases "r = r'") (auto simp: failProbationWithEvidence_def Let_def split_beta outside_def split: option.splits if_splits)
next
  case (RetainScopes r' t ev ac)
  then show ?thesis using out st' leave_phase[of "(the (rules b r))\<lparr>evaluationBlackholes := []\<rparr>"]
    by (cases "r = r'") (auto simp: retainUDPBlackholeEvaluationScopes_def Let_def outside_def split: option.splits if_splits)
next
  case (AbandonBlackhole r' t)
  then show ?thesis using out st' leave_phase[of "the (rules b r)"]
    by (cases "r = r'") (auto simp: abandonUDPBlackholeProbe_def Let_def outside_def split: option.splits if_splits)
next
  case (Bypassing n n2 r')
  then show ?thesis using out st' expire_not_probation[of "the (rules b r)" n]
    by (cases "r = r'") (auto simp: bypassing_def Let_def outside_def split: option.splits if_splits)
next
  case (RestrictsOrdinaryH3 n r')
  then show ?thesis using out st' expire_not_probation[of "the (rules b r)" n]
    by (cases "r = r'") (auto simp: restrictsOrdinaryH3_def Let_def outside_def split: option.splits if_splits)
next
  case (ReleaseRouteProbe n n2 r' t)
  have "phase (snd (finishRecoveryLocked a w f s)) = phase s" for a w f s by (simp add: finishRecoveryLocked_def Let_def split_beta)
  then show ?thesis using ReleaseRouteProbe out st'
    by (cases "r = r'") (auto simp: releaseRecoveryRouteProbe_def Let_def outside_def count_event_def split: option.splits if_splits)
next
  case (AbortProbation n n2 r' t why)
  then show ?thesis using out st'
    by (cases "r = r'") (auto simp: abortProbation_def Let_def outside_def split: option.splits if_splits)
qed (use out st' in \<open>auto simp: register_def zero_state_def claimRecoveryRouteProbe_def establish_def outside_def
    takeCommittedUDPBlackholes_def finishUDPBlackholeArming_def Let_def split_beta split: option.splits if_splits\<close>)

section \<open>What a probation has seen\<close>

text \<open>The history of a rule's current probation, told by the operations alone: the connection it was
  bound to (when, to which endpoint, and with which counters), and the samples of that connection
  since, each with the binding it was taken under. It starts again with every probation.\<close>

type_synonym probation_history =
  "(gotime \<times> http3ConnectTransportKey \<times> http3RuleProbationBinding) option \<times> (http3RuleProbationBinding \<times> http3RuleSampleEvent) list"

definition stamped :: "gotime \<Rightarrow> http3RuleSampleEvent \<Rightarrow> http3RuleSampleEvent" where
  "stamped now ev = (if se_at ev = 0 then ev\<lparr>se_at := now\<rparr> else ev)"

definition witnessed :: "string \<Rightarrow> breaker_op \<Rightarrow> http3RuleProbationState \<Rightarrow> probation_history \<Rightarrow> probation_history" where
  "witnessed rule op p h = (case op of
       Establish now r token key bi \<Rightarrow>
         if r = rule \<and> token = pb_token p \<and> key = pb_key p \<and> bi_generationID bi \<noteq> 0 then (Some (now, key, bi), snd h) else h
     | NoteSample now clock order ev \<Rightarrow> (case fst h of
           None \<Rightarrow> h
         | Some (t, key, bi) \<Rightarrow>
             if rule \<in> set order \<and> se_key ev = key \<and> se_generationID ev = bi_generationID bi
             then (fst h, snd h @ [(bi, stamped now ev)]) else h)
     | _ \<Rightarrow> h)"

definition watch :: "string \<Rightarrow> breaker_op \<Rightarrow> http3RuleBreaker \<Rightarrow> probation_history \<Rightarrow> probation_history" where
  "watch rule op b h = (case rules b rule of
       None \<Rightarrow> (None, [])
     | Some st \<Rightarrow> if phase st = Probation then witnessed rule op (probation st) h else (None, []))"

fun probation_history :: "string \<Rightarrow> breaker_op list \<Rightarrow> http3RuleBreaker \<Rightarrow> probation_history \<Rightarrow> probation_history" where
  "probation_history rule [] b h = h"
| "probation_history rule (op # ops) b h = probation_history rule ops (run_op op b) (watch rule op b h)"

text \<open>Three healthy samples, at least two seconds apart (unless a sample carries the zero time), and no
  unhealthy one among or after them. A sample the detector did not take says nothing.\<close>

definition healthy_sample :: "http3RuleSampleEvent \<Rightarrow> bool" where
  "healthy_sample ev \<longleftrightarrow> (case Signals (se_decision ev) of g \<Rightarrow>
     Sampled g \<and> \<not> Warmup g \<and> \<not> RTTBad g \<and> \<not> LossBad g \<and> \<not> PayloadStalled g \<and> sBlockedWrites g = 0)"

definition unhealthy_sample :: "http3RuleSampleEvent \<Rightarrow> bool" where
  "unhealthy_sample ev \<longleftrightarrow> (case Signals (se_decision ev) of g \<Rightarrow>
     Sampled g \<and> (Warmup g \<or> RTTBad g \<or> LossBad g \<or> PayloadStalled g \<or> sBlockedWrites g \<noteq> 0))"

definition apart :: "gotime \<Rightarrow> gotime \<Rightarrow> bool" where
  "apart t t' \<longleftrightarrow> t = 0 \<or> 2 * second \<le> time_sub t' t"

definition three_healthy :: "http3RuleSampleEvent list \<Rightarrow> bool" where
  "three_healthy evs \<longleftrightarrow> (\<exists>before e1 between e2 between' e3 after.
     evs = before @ e1 # between @ e2 # between' @ e3 # after
     \<and> list_all healthy_sample [e1, e2, e3] \<and> apart (se_at e1) (se_at e2) \<and> apart (se_at e2) (se_at e3)
     \<and> \<not> list_ex unhealthy_sample (between @ between' @ after))"

definition enough_traffic :: "(http3RuleProbationBinding \<times> http3RuleSampleEvent) list \<Rightarrow> bool" where
  "enough_traffic seen \<longleftrightarrow> list_ex (\<lambda>(bi, ev).
     unat (bi_payloadBytes bi) + 524288 \<le> unat (se_payloadBytes ev)
     \<or> unat (PacketsSent (bi_stats bi)) + 256 \<le> unat (PacketsSent (se_stats ev))) seen"

text \<open>The counter of healthy samples stands for a streak of the samples seen.\<close>

fun streak :: "nat \<Rightarrow> http3RuleSampleEvent list \<Rightarrow> gotime \<Rightarrow> bool" where
  "streak 0 evs t = True"
| "streak (Suc n) evs t = (\<exists>before ev after. evs = before @ ev # after \<and> healthy_sample ev \<and> se_at ev = t
     \<and> \<not> list_ex unhealthy_sample after \<and> (n = 0 \<or> (\<exists>t'. streak n before t' \<and> apart t' t)))"

lemma streak_snoc: "streak n evs t \<Longrightarrow> \<not> unhealthy_sample ev \<Longrightarrow> streak n (evs @ [ev]) t"
proof (cases n)
  case (Suc m)
  assume s: "streak n evs t" and u: "\<not> unhealthy_sample ev"
  then obtain before e after where "evs = before @ e # after" "healthy_sample e" "se_at e = t"
    "\<not> list_ex unhealthy_sample after" "m = 0 \<or> (\<exists>t'. streak m before t' \<and> apart t' t)" by (auto simp: Suc)
  then show ?thesis using u by (simp add: Suc) (intro exI[of _ before] exI[of _ e] exI[of _ "after @ [ev]"], simp)
qed simp

lemma streak_grow: "streak n evs t \<Longrightarrow> healthy_sample ev \<Longrightarrow> n = 0 \<or> apart t (se_at ev) \<Longrightarrow> streak (Suc n) (evs @ [ev]) (se_at ev)"
  by simp (intro exI[of _ evs] exI[of _ ev] exI[of _ "[]"], auto)

lemma streak_less: "streak (Suc n) evs t \<Longrightarrow> streak n evs t"
proof (induction n arbitrary: evs t)
  case (Suc n)
  then obtain before e after t' where s: "evs = before @ e # after" "healthy_sample e" "se_at e = t"
    "\<not> list_ex unhealthy_sample after" "streak (Suc n) before t'" "apart t' t"
    by (simp only: streak.simps(2)[of "Suc n"]) blast
  then have "streak n before t'" using Suc.IH by blast
  then show ?case using s(1-4,6) by auto
qed simp

lemma streak_le: "m \<le> n \<Longrightarrow> streak n evs t \<Longrightarrow> streak m evs t"
  by (induction rule: inc_induct) (auto intro: streak_less simp del: streak.simps)

lemma streak_three: "streak 3 evs t \<Longrightarrow> three_healthy evs"
proof -
  assume "streak 3 evs t"
  then obtain b1 e1 a1 e2 a2 e3 a3 where "evs = ((b1 @ e1 # a1) @ e2 # a2) @ e3 # a3" "healthy_sample e1" "healthy_sample e2" "healthy_sample e3"
    "apart (se_at e1) (se_at e2)" "apart (se_at e2) (se_at e3)"
    "\<not> list_ex unhealthy_sample a1" "\<not> list_ex unhealthy_sample a2" "\<not> list_ex unhealthy_sample a3"
    by (auto simp: numeral_3_eq_3)
  then show ?thesis unfolding three_healthy_def
    by (intro exI[of _ b1] exI[of _ e1] exI[of _ a1] exI[of _ e2] exI[of _ a2] exI[of _ e3] exI[of _ a3]) auto
qed

section \<open>The counters tell the history\<close>

definition bound_ok :: "http3RuleProbationState \<Rightarrow> probation_history \<Rightarrow> bool" where
  "bound_ok p h \<longleftrightarrow> (case fst h of
       None \<Rightarrow> \<not> pb_established p
     | Some (t, key, bi) \<Rightarrow> pb_established p \<and> pb_establishedAt p = t \<and> pb_key p = key \<and> pb_generationID p = bi_generationID bi
         \<and> bi_generationID bi \<noteq> 0 \<and> pb_initialStats p = bi_stats bi \<and> pb_initialPayload p = bi_payloadBytes bi)"

definition seen_ok :: "http3RuleProbationState \<Rightarrow> (http3RuleProbationBinding \<times> http3RuleSampleEvent) list \<Rightarrow> bool" where
  "seen_ok p seen \<longleftrightarrow>
     (pb_payloadBytes p = 0 \<or> list_ex (\<lambda>(bi, ev). bi_payloadBytes bi \<le> se_payloadBytes ev \<and> pb_payloadBytes p = se_payloadBytes ev - bi_payloadBytes bi) seen)
     \<and> (pb_packetsSent p = 0 \<or> list_ex (\<lambda>(bi, ev). PacketsSent (bi_stats bi) \<le> PacketsSent (se_stats ev)
          \<and> pb_packetsSent p = PacketsSent (se_stats ev) - PacketsSent (bi_stats bi)) seen)"

definition history_ok :: "http3RuleProbationState \<Rightarrow> probation_history \<Rightarrow> bool" where
  "history_ok p h \<longleftrightarrow> bound_ok p h \<and> seen_ok p (snd h)
     \<and> 0 \<le> pb_healthySamples p \<and> streak (nat (pb_healthySamples p)) (map snd (snd h)) (pb_lastHealthyAt p)"

lemma history_fresh: "fresh_probation p \<Longrightarrow> history_ok p (None, [])"
  by (simp add: history_ok_def bound_ok_def seen_ok_def fresh_probation_def)

lemma seen_update:
  assumes "seen_ok p seen" "pb_initialStats p = bi_stats bi" "pb_initialPayload p = bi_payloadBytes bi"
  shows "seen_ok (updateEvidence ev p) (seen @ [(bi, ev)])"
  using assms by (auto simp: seen_ok_def updateEvidence_def Let_def max_def)

lemma seen_count: "seen_ok (count_healthy ev p) seen = seen_ok p seen"
  by (simp add: seen_ok_def count_healthy_def Let_def)

lemma streak_count:
  assumes "Sampled (Signals (se_decision ev))"
    and "0 \<le> pb_healthySamples p" "streak (nat (pb_healthySamples p)) evs (pb_lastHealthyAt p)"
  shows "0 \<le> pb_healthySamples (count_healthy ev p)
    \<and> streak (nat (pb_healthySamples (count_healthy ev p))) (evs @ [ev]) (pb_lastHealthyAt (count_healthy ev p))"
proof (cases "sample_healthy (Signals (se_decision ev))")
  case True
  then have h: "healthy_sample ev" "\<not> unhealthy_sample ev"
    using assms(1) by (auto simp: sample_healthy_def healthy_sample_def unhealthy_sample_def)
  show ?thesis
  proof (cases "pb_lastHealthyAt p = 0 \<or> time_sub (se_at ev) (pb_lastHealthyAt p) \<ge> http3DegradationSampleInterval")
    case far: True
    then have "apart (pb_lastHealthyAt p) (se_at ev)" by (simp add: apart_def go_consts)
    then have "streak (Suc (nat (pb_healthySamples p))) (evs @ [ev]) (se_at ev)"
      using streak_grow[OF assms(3) h(1)] by blast
    moreover have "nat (pb_healthySamples p + 1) = Suc (nat (pb_healthySamples p))" using assms(2) by simp
    ultimately show ?thesis using True far assms(2) by (simp add: count_healthy_def Let_def del: streak.simps)
  next
    case False
    then show ?thesis using True assms(2) streak_snoc[OF assms(3) h(2)] by (simp add: count_healthy_def Let_def del: streak.simps)
  qed
next
  case False
  then show ?thesis by (simp add: count_healthy_def Let_def)
qed

lemma history_sample:
  assumes h: "history_ok p h" "fst h = Some (t, key, bi)"
    and ev: "Sampled (Signals (se_decision ev))"
  shows "history_ok (count_healthy ev (updateEvidence ev p)) (fst h, snd h @ [(bi, ev)])"
proof -
  have b: "pb_initialStats p = bi_stats bi" "pb_initialPayload p = bi_payloadBytes bi"
    using h by (simp_all add: history_ok_def bound_ok_def)
  have "bound_ok (count_healthy ev (updateEvidence ev p)) (fst h, snd h @ [(bi, ev)])"
    using h by (simp add: history_ok_def bound_ok_def count_healthy_def updateEvidence_def Let_def)
  moreover have "seen_ok (count_healthy ev (updateEvidence ev p)) (snd h @ [(bi, ev)])"
    using seen_update[OF _ b] h(1) by (simp add: seen_count history_ok_def)
  moreover have "0 \<le> pb_healthySamples (updateEvidence ev p)"
    "streak (nat (pb_healthySamples (updateEvidence ev p))) (map snd (snd h)) (pb_lastHealthyAt (updateEvidence ev p))"
    using h(1) by (simp_all add: history_ok_def)
  ultimately show ?thesis using streak_count[OF ev, of "updateEvidence ev p" "map snd (snd h)"] by (simp add: history_ok_def)
qed

lemma history_unsampled:
  assumes h: "history_ok p h" "fst h = Some (t, key, bi)"
    and ev: "\<not> Sampled (Signals (se_decision ev))"
  shows "history_ok (updateEvidence ev p) (fst h, snd h @ [(bi, ev)])"
proof -
  have b: "pb_initialStats p = bi_stats bi" "pb_initialPayload p = bi_payloadBytes bi"
    using h by (simp_all add: history_ok_def bound_ok_def)
  have "bound_ok (updateEvidence ev p) (fst h, snd h @ [(bi, ev)])"
    using h by (simp add: history_ok_def bound_ok_def updateEvidence_def Let_def)
  moreover have "\<not> unhealthy_sample ev" using ev by (simp add: unhealthy_sample_def)
  ultimately show ?thesis using seen_update[OF _ b, of "snd h" ev] h(1) streak_snoc by (simp add: history_ok_def)
qed

lemma noteSample_rule:
  assumes "op_ok b (NoteSample n c order ev)" "rules b r = Some st"
  shows "rules (run_op (NoteSample n c order ev) b) r =
     Some (if se_generationID ev \<noteq> 0 \<and> r \<in> set order then noteSample_state (c r) (stamped n ev) st else st)"
proof -
  have d: "distinct order" using assms(1) by (simp add: op_ok_def)
  show ?thesis using assms(2) by (simp add: noteSample_def stamped_def Let_def noteSample_loop_rule[OF d])
qed

lemma stamped_frame [simp]:
  "se_key (stamped n ev) = se_key ev" "se_generationID (stamped n ev) = se_generationID ev"
  "se_connectionErr (stamped n ev) = se_connectionErr ev" "se_decision (stamped n ev) = se_decision ev"
  by (simp_all add: stamped_def)

text \<open>Whether a sample is one of the probation's own is what its history says.\<close>

lemma own_sample:
  assumes "bound_ok p h"
  shows "(se_generationID ev \<noteq> 0 \<and> pb_established p \<and> pb_key p = se_key ev \<and> pb_generationID p = se_generationID ev)
     \<longleftrightarrow> (\<exists>t key bi. fst h = Some (t, key, bi) \<and> se_key ev = key \<and> se_generationID ev = bi_generationID bi)"
  using assms by (auto simp: bound_ok_def split: option.splits)

lemma witnessed_sample:
  assumes "bound_ok p h"
  shows "witnessed r (NoteSample n c order ev) p h =
     (if r \<in> set order \<and> se_generationID ev \<noteq> 0 \<and> pb_established p \<and> pb_key p = se_key ev \<and> pb_generationID p = se_generationID ev
      then (fst h, snd h @ [(snd (snd (the (fst h))), stamped n ev)]) else h)"
  using assms by (auto simp: witnessed_def bound_ok_def split: option.splits)

lemma bound_established: "bound_ok p h \<Longrightarrow> pb_established p \<Longrightarrow> \<exists>t key bi. fst h = Some (t, key, bi)"
  by (auto simp: bound_ok_def split: option.splits)

lemma history_step_sample:
  assumes st: "rules b r = Some st" "phase st = Probation" and h: "history_ok (probation st) h"
    and ok: "op_ok b (NoteSample n c order ev)"
    and st': "rules (run_op (NoteSample n c order ev) b) r = Some st'" "phase st' = Probation"
  shows "history_ok (probation st') (witnessed r (NoteSample n c order ev) (probation st) h)"
proof -
  let ?p = "probation st"
  let ?own = "r \<in> set order \<and> se_generationID ev \<noteq> 0 \<and> pb_established ?p \<and> pb_key ?p = se_key ev \<and> pb_generationID ?p = se_generationID ev"
  have bo: "bound_ok ?p h" using h by (simp add: history_ok_def)
  have s': "st' = (if se_generationID ev \<noteq> 0 \<and> r \<in> set order then noteSample_state (c r) (stamped n ev) st else st)"
    using noteSample_rule[OF ok st(1)] st'(1) by simp
  show ?thesis
  proof (cases ?own)
    case False
    then have "st' = st" using s' by (auto simp: noteSample_state_def)
    then show ?thesis using h by (simp only: witnessed_sample[OF bo] False if_False)
  next
    case True
    then obtain t key bi where b: "fst h = Some (t, key, bi)" using bound_established[OF bo] by blast
    have w: "witnessed r (NoteSample n c order ev) ?p h = (fst h, snd h @ [(bi, stamped n ev)])"
      using witnessed_sample[OF bo, of r n c order ev] True b by (simp only: if_True simp_thms) simp
    have own: "st' = noteSample_state (c r) (stamped n ev) st" using s' True by simp
    have good: "\<not> se_connectionErr ev \<and> \<not> Rotate (se_decision ev)"
      using own st'(2) True by (auto simp: noteSample_state_def Let_def split: if_splits)
    show ?thesis
    proof (cases "Sampled (Signals (se_decision ev))")
      case False
      then have "probation st' = updateEvidence (stamped n ev) ?p" using own True good st(2) by (simp add: noteSample_state_def)
      then show ?thesis using history_unsampled[OF h b, of "stamped n ev"] False w by simp
    next
      case sampled: True
      then have "probation st' = count_healthy (stamped n ev) (updateEvidence (stamped n ev) ?p)"
        using own True good st(2) st'(2) by (auto simp: noteSample_state_def Let_def split: if_splits)
      then show ?thesis using history_sample[OF h b, of "stamped n ev"] sampled w by simp
    qed
  qed
qed

lemma history_step:
  assumes h: "\<And>st. rules b r = Some st \<Longrightarrow> phase st = Probation \<Longrightarrow> history_ok (probation st) h"
    and ok: "op_ok b op" and st': "rules (run_op op b) r = Some st'" "phase st' = Probation"
  shows "history_ok (probation st') (watch r op b h)"
proof (cases "outside b r")
  case True
  then have "watch r op b h = (None, [])" by (auto simp: watch_def outside_def split: option.splits)
  then show ?thesis using history_fresh[OF probation_enters[OF True ok st']] by simp
next
  case False
  then obtain st where st: "rules b r = Some st" "phase st = Probation" by (auto simp: outside_def split: option.splits)
  have w: "watch r op b h = witnessed r op (probation st) h" using st by (simp add: watch_def)
  note hp = h[OF st]
  consider (sample) n c order ev where "op = NoteSample n c order ev" | (bind) n r' t k bi where "op = Establish n r' t k bi"
    | (rest) "\<not> (\<exists>n c order ev. op = NoteSample n c order ev)" "\<not> (\<exists>n r t k bi. op = Establish n r t k bi)" by blast
  then show ?thesis
  proof cases
    case sample
    then show ?thesis using history_step_sample[OF st hp, of n c order ev st'] ok st' unfolding w by simp
  next
    case bind
    then show ?thesis using st st' hp unfolding w
      by (auto simp: establish_def witnessed_def history_ok_def bound_ok_def seen_ok_def split: if_splits option.splits)
  next
    case rest
    have "witnessed r op (probation st) h = h" using rest by (cases op) (auto simp: witnessed_def)
    moreover have "probation st' = probation st" using probation_same[OF st ok rest st'(1)] st'(2) by simp
    ultimately show ?thesis using hp w by simp
  qed
qed

text \<open>Every map iteration of a run visits each rule once.\<close>

fun iterations_ok :: "breaker_op list \<Rightarrow> http3RuleBreaker \<Rightarrow> bool" where
  "iterations_ok [] b = True"
| "iterations_ok (op # ops) b = (op_ok b op \<and> iterations_ok ops (run_op op b))"

lemma iterations_snoc: "iterations_ok (ops @ [op]) b \<longleftrightarrow> iterations_ok ops b \<and> op_ok (run_ops ops b) op"
  by (induction ops arbitrary: b) (simp_all add: run_ops_def)

lemma history_snoc: "probation_history r (ops @ [op]) b h = watch r op (run_ops ops b) (probation_history r ops b h)"
  by (induction ops arbitrary: b h) (simp_all add: run_ops_def)

lemma history_run:
  assumes "iterations_ok ops newHTTP3RuleBreaker" "rules (run_ops ops newHTTP3RuleBreaker) r = Some st" "phase st = Probation"
  shows "history_ok (probation st) (probation_history r ops newHTTP3RuleBreaker (None, []))"
  using assms
proof (induction ops arbitrary: st rule: rev_induct)
  case Nil
  then show ?case by (simp add: run_ops_def newHTTP3RuleBreaker_def)
next
  case (snoc op ops)
  have s: "run_ops (ops @ [op]) newHTTP3RuleBreaker = run_op op (run_ops ops newHTTP3RuleBreaker)" by (simp add: run_ops_def)
  show ?case unfolding history_snoc
    using snoc.prems snoc.IH by (intro history_step) (simp_all add: iterations_snoc s)
qed

lemma enough_seen:
  assumes "seen_ok p seen" "http3RuleProbationMinPayload \<le> pb_payloadBytes p \<or> http3RuleProbationMinPackets \<le> pb_packetsSent p"
  shows "enough_traffic seen"
proof -
  have sub: "unat a + unat c \<le> unat b" if "a \<le> b" "c \<le> b - a" for a b c :: u64
    using that by (simp add: word_le_nat_alt unat_sub)
  have k: "(524288 :: u64) \<noteq> 0" "(256 :: u64) \<noteq> 0" "unat (524288 :: u64) = 524288" "unat (256 :: u64) = 256" by simp_all
  from assms(2) show ?thesis
  proof
    assume p: "http3RuleProbationMinPayload \<le> pb_payloadBytes p"
    then have "pb_payloadBytes p \<noteq> 0" using k(1) by (auto simp: http3RuleProbationMinPayload_def)
    then obtain bi ev where "(bi, ev) \<in> set seen" "bi_payloadBytes bi \<le> se_payloadBytes ev" "pb_payloadBytes p = se_payloadBytes ev - bi_payloadBytes bi"
      using assms(1) by (auto simp: seen_ok_def list_ex_iff)
    then show ?thesis using sub[of "bi_payloadBytes bi" "se_payloadBytes ev" 524288] p k(3)
      by (auto simp: enough_traffic_def list_ex_iff http3RuleProbationMinPayload_def intro!: bexI[of _ "(bi, ev)"])
  next
    assume p: "http3RuleProbationMinPackets \<le> pb_packetsSent p"
    then have "pb_packetsSent p \<noteq> 0" using k(2) by (auto simp: http3RuleProbationMinPackets_def)
    then obtain bi ev where "(bi, ev) \<in> set seen" "PacketsSent (bi_stats bi) \<le> PacketsSent (se_stats ev)"
      "pb_packetsSent p = PacketsSent (se_stats ev) - PacketsSent (bi_stats bi)"
      using assms(1) by (auto simp: seen_ok_def list_ex_iff)
    then show ?thesis using sub[of "PacketsSent (bi_stats bi)" "PacketsSent (se_stats ev)" 256] p k(4)
      by (auto simp: enough_traffic_def list_ex_iff http3RuleProbationMinPackets_def intro!: bexI[of _ "(bi, ev)"])
  qed
qed

text \<open>C26: in any history, a rule in Probation goes back to Closed (HTTP/3 first again) in exactly one
  way: by a sample of the connection the probation was last bound to, without an error or a rotation,
  at least thirty seconds after it was bound. By then some sample of the probation has shown 512 KiB
  more payload or 256 more packets sent than its binding began with, and its samples contain three
  healthy ones at least two seconds apart with no unhealthy one among or after them. What was bound
  and seen is read off the operations, not off the breaker's counters.\<close>

theorem probation_closes_only_on_evidence:
  assumes run: "iterations_ok (ops @ [op]) newHTTP3RuleBreaker"
    and st: "rules (run_ops ops newHTTP3RuleBreaker) rule = Some st" "phase st = Probation"
    and closed: "rules (run_ops (ops @ [op]) newHTTP3RuleBreaker) rule = Some st'" "phase st' = Closed"
  shows "\<exists>t key bi seen now clock order ev.
       probation_history rule (ops @ [op]) newHTTP3RuleBreaker (None, []) = (Some (t, key, bi), seen)
     \<and> op = NoteSample now clock order ev \<and> rule \<in> set order \<and> se_key ev = key \<and> se_generationID ev = bi_generationID bi
     \<and> \<not> se_connectionErr ev \<and> \<not> Rotate (se_decision ev)
     \<and> 30 * second \<le> time_sub (se_at (stamped now ev)) t
     \<and> enough_traffic seen \<and> three_healthy (map snd seen)"
proof -
  let ?b = "run_ops ops newHTTP3RuleBreaker" and ?h = "probation_history rule ops newHTTP3RuleBreaker (None, [])" and ?p = "probation st"
  have ok: "op_ok ?b op" and before: "iterations_ok ops newHTTP3RuleBreaker" using run by (simp_all add: iterations_snoc)
  have st': "rules (run_op op ?b) rule = Some st'" using closed(1) by (simp add: run_ops_def)
  obtain now clock order ev where op: "op = NoteSample now clock order ev"
    using probation_kept[OF st ok] st' closed(2) by fastforce
  let ?ev = "stamped now ev"
  have h: "history_ok ?p ?h" by (rule history_run[OF before st])
  then have bo: "bound_ok ?p ?h" by (simp add: history_ok_def)
  have s: "st' = (if se_generationID ev \<noteq> 0 \<and> rule \<in> set order then noteSample_state (clock rule) ?ev st else st)"
    using noteSample_rule[OF ok[unfolded op] st(1)] st' op by simp
  then have gen: "se_generationID ev \<noteq> 0" "rule \<in> set order" and s': "st' = noteSample_state (clock rule) ?ev st"
    using closed(2) st(2) by (auto split: if_splits)
  have own: "pb_established ?p" "pb_key ?p = se_key ev" "pb_generationID ?p = se_generationID ev"
    "\<not> se_connectionErr ev \<and> \<not> Rotate (se_decision ev)" "Sampled (Signals (se_decision ev))"
    "probation_passed (se_at ?ev) (count_healthy ?ev (updateEvidence ?ev ?p))"
    using s' closed(2) st(2) by (auto simp: noteSample_state_def Let_def split: if_splits)
  obtain t key bi where b: "fst ?h = Some (t, key, bi)" using bound_established[OF bo own(1)] by blast
  then have key: "se_key ev = key" "se_generationID ev = bi_generationID bi" "pb_establishedAt ?p = t"
    using bo own by (simp_all add: bound_ok_def)
  let ?q = "count_healthy ?ev (updateEvidence ?ev ?p)"
  have q: "history_ok ?q (fst ?h, snd ?h @ [(bi, ?ev)])" using history_sample[OF h b, of ?ev] own(5) by simp
  have hist: "probation_history rule (ops @ [op]) newHTTP3RuleBreaker (None, []) = (Some (t, key, bi), snd ?h @ [(bi, ?ev)])"
    unfolding history_snoc using st b key gen op by (simp add: watch_def witnessed_def)
  have "30 * second \<le> time_sub (se_at ?ev) t" using own(6) key(3) by (simp add: probation_passed_def go_consts)
  moreover have "enough_traffic (snd ?h @ [(bi, ?ev)])"
    using q own(6) by (intro enough_seen[of ?q]) (auto simp: history_ok_def probation_passed_def)
  moreover have "three_healthy (map snd (snd ?h @ [(bi, ?ev)]))"
  proof (rule streak_three)
    have "3 \<le> pb_healthySamples ?q" using own(6) by (simp add: probation_passed_def breaker_consts)
    then have "3 \<le> nat (pb_healthySamples ?q)" by linarith
    then show "streak 3 (map snd (snd ?h @ [(bi, ?ev)])) (pb_lastHealthyAt ?q)"
      using q streak_le by (auto simp: history_ok_def simp del: streak.simps)
  qed
  ultimately show ?thesis using hist op key(1,2) gen own(4) by blast
qed

definition wit_key :: http3ConnectTransportKey where
  "wit_key = \<lparr>address = ''proxy:443'', serverName = ''proxy''\<rparr>"

definition wit_scope :: http3UDPBlackholeScope where
  "wit_scope = \<lparr>sc_key = wit_key, sc_slot = Some 1, sc_connectionID = 1\<rparr>"

definition wit_event :: "gotime \<Rightarrow> http3RuleSampleEvent" where
  "wit_event t = \<lparr>se_key = wit_key, se_remoteIP = '''', se_generationID = 7, se_at = t,
     se_stats = zero_stats\<lparr>PacketsSent := 300\<rparr>, se_payloadBytes = 0,
     se_decision = zero_decision\<lparr>Signals := zero_signals\<lparr>Sampled := True\<rparr>\<rparr>, se_connectionErr = False\<rparr>"

definition wit_cooldown :: http3RuleBreaker where
  "wit_cooldown = run_ops [Register ''r'' wit_key, BeginBlackhole second second ''r'' wit_scope,
     CompleteBlackhole (2 * second) (2 * second) ''r'' 1 True] newHTTP3RuleBreaker"

definition wit_probation :: "breaker_op list" where
  "wit_probation = [Register ''r'' wit_key, BeginBlackhole second second ''r'' wit_scope,
     CompleteBlackhole (2 * second) (2 * second) ''r'' 1 True, Begin (400 * second) ''r'' wit_key 0,
     Establish (401 * second) ''r'' 2 wit_key \<lparr>bi_generationID = 7, bi_remoteIP = '''', bi_stats = zero_stats, bi_payloadBytes = 0\<rparr>,
     NoteSample 0 (\<lambda>_. 0) [''r''] (wit_event (410 * second)),
     NoteSample 0 (\<lambda>_. 0) [''r''] (wit_event (420 * second))]"

lemma option_phase: "map_option phase x = Some p \<Longrightarrow> \<exists>st. x = Some st \<and> phase st = p"
  by (cases x) auto

lemma wit_iterations:
  "iterations_ok (wit_probation @ [NoteSample 0 (\<lambda>_. 0) [''r''] (wit_event (440 * second))]) newHTTP3RuleBreaker"
proof -
  let ?b = "\<lambda>n. run_ops (take n wit_probation) newHTTP3RuleBreaker"
  have "endpointRules (?b 5) wit_key = [''r'']" "endpointRules (?b 6) wit_key = [''r'']" "endpointRules (?b 7) wit_key = [''r'']"
    by code_simp+
  then show ?thesis by (simp add: wit_probation_def op_ok_def wit_event_def run_ops_def)
qed

theorem probation_closes_only_on_evidence_witness:
  "\<exists>t bi seen. probation_history ''r'' (wit_probation @ [NoteSample 0 (\<lambda>_. 0) [''r''] (wit_event (440 * second))]) newHTTP3RuleBreaker (None, [])
       = (Some (t, wit_key, bi), seen)
     \<and> 30 * second \<le> time_sub (440 * second) t \<and> enough_traffic seen \<and> three_healthy (map snd seen)"
proof -
  let ?op = "NoteSample 0 (\<lambda>_. 0) [''r''] (wit_event (440 * second))"
  have "map_option phase (rules (run_ops wit_probation newHTTP3RuleBreaker) ''r'') = Some Probation" by code_simp
  then obtain st where st: "rules (run_ops wit_probation newHTTP3RuleBreaker) ''r'' = Some st" "phase st = Probation"
    using option_phase by blast
  have "map_option phase (rules (run_ops (wit_probation @ [?op]) newHTTP3RuleBreaker) ''r'') = Some Closed" by code_simp
  then obtain st' where st': "rules (run_ops (wit_probation @ [?op]) newHTTP3RuleBreaker) ''r'' = Some st'" "phase st' = Closed"
    using option_phase by blast
  have ev: "se_at (stamped 0 (wit_event (440 * second))) = 440 * second" "se_key (wit_event (440 * second)) = wit_key"
    by (simp_all add: stamped_def wit_event_def)
  show ?thesis using probation_closes_only_on_evidence[OF wit_iterations st st'] ev by auto
qed

text \<open>Leaving Closed or Evaluating for Cooldown.\<close>

definition h2_evidence :: "breaker_op \<Rightarrow> string \<Rightarrow> http3RuleBreakerState \<Rightarrow> bool" where
  "h2_evidence op rule st \<longleftrightarrow> phase st = Evaluating \<and> evaluationInFlight st > 0
     \<and> (\<exists>now now2. (op = ObserveValidation now now2 rule (evaluationToken st) True
          \<or> op = CompleteBlackhole now now2 rule (evaluationToken st) True)
        \<and> (evaluationDeadline st = 0 \<or> now < evaluationDeadline st))"

lemma not_expired:
  "\<not> fst (expireEvaluationLocked now st) \<Longrightarrow> phase st = Evaluating \<Longrightarrow>
   evaluationDeadline st = 0 \<or> now < evaluationDeadline st"
  by (auto simp: expireEvaluationLocked_def split: if_splits)

lemma noteDegradation_rule_open:
  "rules b r = Some st \<Longrightarrow> phase st \<in> {Closed, Evaluating} \<Longrightarrow>
   \<exists>st'. rules (snd (noteDegradation_rule now ev r b)) r = Some st' \<and> phase st' \<in> {Closed, Evaluating}"
  using expire_phase(1)[of "de_at ev" st]
  by (auto simp: noteDegradation_rule_def Let_def split_beta)

lemma observeValidation_open:
  assumes "rules b r = Some st" "phase st \<in> {Closed, Evaluating}" "\<not> evaluationReachable st"
    and "rules (snd (observeValidation n n2 r' t h b)) r = Some st'" "phase st' = Cooldown"
  shows "h2_evidence (ObserveValidation n n2 r' t h) r st"
proof (cases "r = r'")
  case True
  then show ?thesis
    using assms not_expired[of n st] expire_phase[of n st]
      expire_not_cooldown[of "st\<lparr>evaluationInFlight := evaluationInFlight st - 1\<rparr>" n2]
    by (auto simp: observeValidation_def h2_evidence_def Let_def split_beta split: if_splits)
next
  case False
  then have "st' = st" using assms
    by (auto simp: observeValidation_def Let_def split_beta split: if_splits option.splits)
  then show ?thesis using assms by auto
qed

lemma completeBlackhole_open:
  assumes "rules b r = Some st" "phase st \<in> {Closed, Evaluating}"
    and "rules (snd (completeUDPBlackholeValidation n n2 r' t h b)) r = Some st'" "phase st' = Cooldown"
  shows "h2_evidence (CompleteBlackhole n n2 r' t h) r st"
proof (cases "r = r'")
  case True
  then show ?thesis
    using assms not_expired[of n st] expire_phase[of n st]
    by (auto simp: completeUDPBlackholeValidation_def h2_evidence_def Let_def split_beta split: if_splits)
next
  case False
  then have "st' = st" using assms
    by (auto simp: completeUDPBlackholeValidation_def Let_def split_beta split: if_splits option.splits)
  then show ?thesis using assms by auto
qed

lemma open_kept:
  assumes st: "rules b r = Some st" "phase st \<in> {Closed, Evaluating}" and ok: "op_ok b op" "state_ok st"
    and op: "\<not> (\<exists>n n2 r t h. op = ObserveValidation n n2 r t h)" "\<not> (\<exists>n n2 r t h. op = CompleteBlackhole n n2 r t h)"
  shows "\<exists>st'. rules (run_op op b) r = Some st' \<and> phase st' \<in> {Closed, Evaluating}"
proof (cases op)
  case (NoteDegradation n c order ev)
  then have d: "distinct order" using ok by (simp add: op_ok_def)
  let ?ev = "if de_at ev = 0 then ev\<lparr>de_at := n\<rparr> else ev"
  have "\<exists>st'. rules (snd (noteDegradation_loop c ?ev order b)) r = Some st' \<and> phase st' \<in> {Closed, Evaluating}"
  proof (cases "r \<in> set order")
    case True
    obtain b' where "rules b' r = rules b r" "rules (snd (noteDegradation_loop c ?ev order b)) r
        = rules (snd (noteDegradation_rule (c r) ?ev r b')) r"
      using noteDegradation_loop_rule[OF d True] .
    then show ?thesis using noteDegradation_rule_open[of b' r st] st by simp
  qed (use st noteDegradation_loop_other in auto)
  then show ?thesis using NoteDegradation st by (simp add: noteDegradation_def)
next
  case (NoteSample n c order ev)
  then have "distinct order" using ok by (simp add: op_ok_def)
  then show ?thesis using st NoteSample
    by (auto simp: noteSample_def noteSample_loop_rule noteSample_state_def Let_def)
next
  case (BeginBlackhole n n2 r' sc)
  then show ?thesis using st expire_phase(1)[of n st]
    by (cases "r = r'") (auto simp: beginUDPBlackholeValidation_def Let_def split_beta
        split: option.split http3RuleBreakerPhase.split)
next
  case (FailProbation n n2 r' t why ev)
  then show ?thesis using st
    by (cases "r = r'") (auto simp: failProbationWithEvidence_def Let_def split_beta split: option.split)
next
  case (ReleaseRouteProbe n n2 r' t)
  then show ?thesis using st
    by (cases "r = r'") (auto simp: releaseRecoveryRouteProbe_def Let_def split: option.split)
next
  case (Begin n r' k t)
  then show ?thesis using st expire_phase(1)[of n st]
    by (cases "r = r'") (auto simp: beginWithLease_def Let_def split_beta split: option.split)
next
  case (AbortProbation n n2 r' t why)
  then show ?thesis using st
    by (cases "r = r'") (auto simp: abortProbation_def Let_def split: option.split)
next
  case (Snapshot n order)
  then show ?thesis using st ok expire_phase(1)[of n st] by (auto simp: op_ok_def snapshot_loop_rule)
next
  case (Bypassing n n2 r')
  then show ?thesis using st expire_phase(1)[of n st]
    by (cases "r = r'") (auto simp: bypassing_def Let_def split: option.split)
next
  case (RestrictsOrdinaryH3 n r')
  then show ?thesis using st expire_phase(1)[of n st]
    by (cases "r = r'") (auto simp: restrictsOrdinaryH3_def Let_def split: option.split)
next
  case (RetainScopes r' t ev ac)
  then show ?thesis using st leave_phase[of "st\<lparr>evaluationBlackholes := []\<rparr>"]
    by (cases "r = r'") (auto simp: retainUDPBlackholeEvaluationScopes_def Let_def split: option.split)
next
  case (AbandonBlackhole r' t)
  then show ?thesis using st leave_phase[of st]
    by (cases "r = r'") (auto simp: abandonUDPBlackholeProbe_def Let_def split: option.split)
qed (use st op in \<open>auto simp: register_def claimRecoveryRouteProbe_def establish_def
    takeCommittedUDPBlackholes_def finishUDPBlackholeArming_def Let_def split_beta split: option.split\<close>)

text \<open>C25: a rule is moved off HTTP/3 only on positive HTTP/2 evidence. In any history, the operation
  that takes a rule from Closed or Evaluating into Cooldown is the report of a reachable HTTP/2
  fallback by a participant of the running evaluation (a real request or the blackhole probe), with
  the evaluation's current token and before its deadline.\<close>

theorem cooldown_needs_h2_evidence:
  assumes b: "b = run_ops ops newHTTP3RuleBreaker" and ok: "op_ok b op"
    and st: "rules b rule = Some st" "phase st \<in> {Closed, Evaluating}"
    and st': "rules (run_op op b) rule = Some st'" "phase st' = Cooldown"
  shows "h2_evidence op rule st"
proof -
  have "state_ok st" using run_ops_ok[of ops] st(1) unfolding b by (rule breaker_ok_get)
  then have nr: "\<not> evaluationReachable st" by (simp add: state_ok_def)
  show ?thesis
  proof (cases "(\<exists>n n2 r t h. op = ObserveValidation n n2 r t h) \<or> (\<exists>n n2 r t h. op = CompleteBlackhole n n2 r t h)")
    case True
    then show ?thesis using st st' nr observeValidation_open completeBlackhole_open by fastforce
  next
    case False
    then show ?thesis using open_kept[OF st ok \<open>state_ok st\<close>] st' by fastforce
  qed
qed

definition wit_evaluating :: "breaker_op list" where
  "wit_evaluating = [Register ''r'' wit_key, BeginBlackhole second second ''r'' wit_scope]"

theorem cooldown_needs_h2_evidence_witness:
  "\<exists>st. rules (run_ops wit_evaluating newHTTP3RuleBreaker) ''r'' = Some st
     \<and> h2_evidence (CompleteBlackhole (2 * second) (2 * second) ''r'' 1 True) ''r'' st"
proof -
  let ?b = "run_ops wit_evaluating newHTTP3RuleBreaker"
  let ?op = "CompleteBlackhole (2 * second) (2 * second) ''r'' 1 True"
  have "map_option phase (rules ?b ''r'') = Some Evaluating" by code_simp
  then obtain st where st: "rules ?b ''r'' = Some st" "phase st = Evaluating" using option_phase by blast
  have "map_option phase (rules (run_op ?op ?b) ''r'') = Some Cooldown" by code_simp
  then obtain st' where st': "rules (run_op ?op ?b) ''r'' = Some st'" "phase st' = Cooldown" using option_phase by blast
  have "op_ok ?b ?op" by (simp add: op_ok_def)
  then show ?thesis using cooldown_needs_h2_evidence[OF refl _ st(1) _ st'] st by blast
qed

text \<open>C24: in every history each rule's state is coherent. An evaluation token is live exactly while
  the rule evaluates, a probation token exactly during the probation; Cooldown and Probation carry
  between one and four failures and the other phases none; a retry time, a route lease, a committed
  blackhole or its token exist only in Cooldown; a route lease has the lease bit; the counts of
  participants are never negative and only an evaluation has any.\<close>

theorem breaker_invariant:
  assumes "rules (run_ops ops newHTTP3RuleBreaker) rule = Some st"
  shows "(phase st = Evaluating \<longleftrightarrow> evaluationToken st \<noteq> 0)
     \<and> (phase st = Probation \<longleftrightarrow> pb_token (probation st) \<noteq> 0)
     \<and> (if phase st \<in> {Cooldown, Probation} then 1 \<le> failures st \<and> failures st \<le> 4 else failures st = 0)
     \<and> (phase st \<noteq> Cooldown \<longrightarrow> retryAt st = 0 \<and> routeProbeToken st = 0
          \<and> udpBlackholeCommitToken st = 0 \<and> committedBlackholes st = [])
     \<and> (phase st \<noteq> Evaluating \<longrightarrow> evaluationInFlight st = 0 \<and> evaluationBlackholes st = [])
     \<and> evaluationInFlight st \<ge> 0 \<and> udpBlackholeArmInFlight st \<ge> 0
     \<and> distinct (evaluationBlackholes st)
     \<and> (routeProbeToken st = 0 \<or> routeProbeToken st AND http3RuleRouteProbeTokenMask \<noteq> 0)"
  using breaker_ok_get[OF run_ops_ok assms] unfolding state_ok_def by (cases "phase st") simp_all

theorem breaker_invariant_witness:
  "\<exists>st. rules (run_ops wit_evaluating newHTTP3RuleBreaker) ''r'' = Some st \<and> evaluationToken st \<noteq> 0"
proof -
  have "map_option phase (rules (run_ops wit_evaluating newHTTP3RuleBreaker) ''r'') = Some Evaluating" by code_simp
  then obtain st where "rules (run_ops wit_evaluating newHTTP3RuleBreaker) ''r'' = Some st" "phase st = Evaluating"
    using option_phase by blast
  then show ?thesis using breaker_invariant by blast
qed

lemma beginWithLease_cooldown:
  assumes "rules b rule = Some st" "phase st = Cooldown" "rule \<noteq> ''''"
  shows "fst (beginWithLease now rule key lease b) =
     (if retryAt st \<le> now \<and> (routeProbeToken st = 0 \<or> routeProbeToken st = lease \<and> routeProbeKey st = key)
      then (fst (nextTokenLocked b), True, True) else (0, False, False))"
  using assms by (auto simp: beginWithLease_def Let_def split_beta)

lemma begin_admits_iff:
  "(\<exists>token. fst (beginWithLease now rule key lease b) = (token, True, True)) \<longleftrightarrow>
     rule \<noteq> '''' \<and> (\<exists>st. rules b rule = Some st \<and> phase st = Cooldown \<and> retryAt st \<le> now
        \<and> (routeProbeToken st = 0 \<or> routeProbeToken st = lease \<and> routeProbeKey st = key))"
  (is "?admitted \<longleftrightarrow> ?due")
proof
  assume ?admitted
  then obtain st where "rule \<noteq> ''''" "rules b rule = Some st" "phase st = Cooldown"
    by (auto simp: beginWithLease_def Let_def split_beta split: option.splits if_splits http3RuleBreakerPhase.splits)
      (metis http3RuleBreakerPhase.exhaust)+
  then show ?due using \<open>?admitted\<close> by (auto simp: beginWithLease_cooldown split: if_splits)
next
  assume ?due
  then show ?admitted by (auto simp: beginWithLease_cooldown)
qed

text \<open>at most one connection tests HTTP/3. An attempt admitted as the probation finds the rule in
  Cooldown with its retry time reached and the route lease free or its own for this endpoint; the
  rule is then in Probation under the caller's fresh non-zero token, and while it is, every further
  attempt for the rule is refused HTTP/3 and changes nothing, and no route lease is given.\<close>

theorem single_probation:
  assumes "fst (beginWithLease now rule key lease b) = (token, True, True)"
    and b': "b' = snd (beginWithLease now rule key lease b)"
  shows "(\<exists>st. rules b rule = Some st \<and> phase st = Cooldown \<and> retryAt st \<le> now
        \<and> (routeProbeToken st = 0 \<or> routeProbeToken st = lease \<and> routeProbeKey st = key))
     \<and> (\<exists>st. rules b' rule = Some st \<and> phase st = Probation \<and> pb_token (probation st) = token \<and> token \<noteq> 0)
     \<and> beginWithLease now' rule key' lease' b' = ((0, False, False), b')
     \<and> claimRecoveryRouteProbe now' rule key' b' = ((0, False), b')"
proof -
  obtain st where st: "rule \<noteq> ''''" "rules b rule = Some st" "phase st = Cooldown" "retryAt st \<le> now"
    "routeProbeToken st = 0 \<or> routeProbeToken st = lease \<and> routeProbeKey st = key"
    using begin_admits_iff[of now rule key lease b] assms(1) by auto
  then have t: "token = fst (nextTokenLocked b)" using assms(1) by (simp add: beginWithLease_cooldown)
  have "b' = put rule (start_probation token key now (clear_route st)) (snd (nextTokenLocked b))"
    using st b' t by (auto simp: beginWithLease_def Let_def split_beta)
  then have "rules b' rule = Some (start_probation token key now (clear_route st))" by simp
  moreover have "pb_token (probation (start_probation token key now (clear_route st))) = token"
    by (simp add: start_probation_def transition_defs)
  ultimately show ?thesis using st t
    by (auto simp: beginWithLease_def claimRecoveryRouteProbe_def)
qed

theorem single_probation_witness:
  "fst (beginWithLease (400 * second) ''r'' wit_key 0 wit_cooldown) = (2, True, True)
   \<and> fst (beginWithLease (401 * second) ''r'' wit_key 0 (snd (beginWithLease (400 * second) ''r'' wit_key 0 wit_cooldown)))
       = (0, False, False)"
proof
  show a: "fst (beginWithLease (400 * second) ''r'' wit_key 0 wit_cooldown) = (2, True, True)" by code_simp
  show "fst (beginWithLease (401 * second) ''r'' wit_key 0 (snd (beginWithLease (400 * second) ''r'' wit_key 0 wit_cooldown)))
       = (0, False, False)"
    using single_probation[OF a refl] by simp
qed

text \<open>an evaluation cannot hold the rule on HTTP/2 for long: from its deadline on, the next attempt
  fails open to HTTP/3 and closes the breaker, and a late HTTP/2 report, reachable or not, with any
  token, commits nothing.\<close>

theorem evaluation_fails_open:
  assumes "rules b rule = Some st" "rule \<noteq> ''''" "phase st = Evaluating"
    and "evaluationDeadline st \<noteq> 0" "evaluationDeadline st \<le> now"
  shows "fst (beginWithLease now rule key lease b) = (0, False, True)
     \<and> (\<exists>st'. rules (snd (beginWithLease now rule key lease b)) rule = Some st' \<and> phase st' = Closed)
     \<and> \<not> fst (observeValidation now now2 rule token h2 b)
     \<and> fst (completeUDPBlackholeValidation now now2 rule token h2 b) = ValidationStale"
proof -
  have ex: "fst (expireEvaluationLocked now st)" using assms by (simp add: expireEvaluationLocked_def)
  then have "phase (snd (expireEvaluationLocked now st)) = Closed" by (simp add: expire_phase)
  then show ?thesis using assms ex
    by (simp add: beginWithLease_def observeValidation_def completeUDPBlackholeValidation_def Let_def split_beta)
qed

theorem evaluation_fails_open_witness:
  "\<not> fst (observeValidation (9 * second) (9 * second) ''r'' 1 True (run_ops wit_evaluating newHTTP3RuleBreaker))"
proof -
  let ?b = "run_ops wit_evaluating newHTTP3RuleBreaker"
  have "map_option (\<lambda>st. (phase st, evaluationDeadline st)) (rules ?b ''r'') = Some (Evaluating, 4 * second)" by code_simp
  then obtain st where st: "rules ?b ''r'' = Some st" "phase st = Evaluating" "evaluationDeadline st = 4 * second" by auto
  show ?thesis
    using evaluation_fails_open[OF st(1) _ st(2), of "9 * second"] st(3) by (simp add: duration_defs)
qed

text \<open>the cooldowns back off. A probation that fails in any history sends the rule back to Cooldown
  with one more failure, at most four, and the retry time is ten, twenty or thirty minutes away
  according to that count.\<close>

theorem failed_probation_backs_off:
  assumes b: "b = run_ops ops newHTTP3RuleBreaker" and st: "rules b rule = Some st" "phase st = Probation"
    and "rule \<noteq> ''''" and ev: "token = pb_token (probation st)"
  shows "\<exists>st'. rules (failProbation now now2 rule token reason b) rule = Some st'
     \<and> phase st' = Cooldown \<and> failures st' = min (failures st + 1) 4
     \<and> retryAt st' = now2 + [5, 10, 20, 30] ! nat (failures st' - 1) * minute
     \<and> 10 * minute \<le> retryAt st' - now2 \<and> retryAt st' - now2 \<le> 30 * minute"
proof -
  have ok: "state_ok st" using run_ops_ok[of ops] st(1) unfolding b by (rule breaker_ok_get)
  then have tok: "pb_token (probation st) \<noteq> 0" and f: "1 \<le> failures st" "failures st \<le> 4"
    using st(2) by (auto simp: state_ok_def)
  have [simp]: "failures (snd (finishRecoveryLocked t w a s)) = failures s" for t w a s
    by (simp add: finishRecoveryLocked_def Let_def split_beta)
  have "failures st \<in> {1, 2, 3, 4}" using f by auto
  then show ?thesis using st ev tok \<open>rule \<noteq> ''''\<close>
    by (auto simp: failProbation_def failProbationWithEvidence_def reenterCooldownLocked_def
        http3RuleCooldownSteps_def clear_route_def clear_blackholes_def count_event_def duration_defs Let_def)
qed

theorem failed_probation_backs_off_witness:
  "\<exists>st'. rules (failProbation 0 (500 * second) ''r'' 2 ''x''
      (run_ops [Register ''r'' wit_key, BeginBlackhole second second ''r'' wit_scope,
     CompleteBlackhole (2 * second) (2 * second) ''r'' 1 True, Begin (400 * second) ''r'' wit_key 0] newHTTP3RuleBreaker)) ''r'' = Some st'
     \<and> retryAt st' - 500 * second \<le> 30 * minute"
proof -
  let ?b = "run_ops [Register ''r'' wit_key, BeginBlackhole second second ''r'' wit_scope,
     CompleteBlackhole (2 * second) (2 * second) ''r'' 1 True, Begin (400 * second) ''r'' wit_key 0] newHTTP3RuleBreaker"
  have "map_option (\<lambda>st. (phase st, pb_token (probation st))) (rules ?b ''r'') = Some (Probation, 2)" by code_simp
  then obtain st where st: "rules ?b ''r'' = Some st" "phase st = Probation" "2 = pb_token (probation st)" by auto
  show ?thesis using failed_probation_backs_off[OF refl st(1,2) _ st(3)] by blast
qed

text \<open>Two connection generations are needed to doubt HTTP/3.\<close>

definition degradation_run :: "http3RuleDegradationEvent list \<Rightarrow> string \<Rightarrow> http3RuleBreaker \<Rightarrow> http3RuleBreaker" where
  "degradation_run evs rule b = fold (\<lambda>ev b. snd (noteDegradation_rule 0 ev rule b)) evs b"

lemma should_open_distinct:
  "http3RuleShouldOpen evs current \<Longrightarrow>
   \<exists>p\<in>set evs. de_generationID p \<noteq> de_generationID current \<or> de_key p \<noteq> de_key current"
  by (auto simp: http3RuleShouldOpen_def list_ex_iff)

lemma one_generation_step:
  assumes "rules b rule = Some st" "phase st = Closed"
    and "\<forall>p\<in>set (recent st). de_generationID p = g \<and> de_key p = k" "de_generationID ev = g" "de_key ev = k"
  shows "\<exists>st'. rules (snd (noteDegradation_rule now ev rule b)) rule = Some st' \<and> phase st' = Closed
     \<and> (\<forall>p\<in>set (recent st'). de_generationID p = g \<and> de_key p = k)"
proof -
  have "\<not> http3RuleShouldOpen (keep_recent ev (recent st) @ [ev]) ev"
    using assms(3-5) should_open_distinct by (fastforce simp: keep_recent_def)
  then show ?thesis using assms
    by (auto simp: noteDegradation_rule_def Let_def expire_other keep_recent_def)
qed

text \<open>one connection generation never trips a rule, however often it degrades. Starting from a
  closed rule with no recent events, any number of degradation events of the same endpoint and the
  same generation leaves the rule Closed.\<close>

theorem one_generation_never_opens:
  assumes "rules b rule = Some st" "phase st = Closed" "recent st = []"
    and "\<forall>ev\<in>set evs. de_generationID ev = g \<and> de_key ev = k"
  shows "\<exists>st'. rules (degradation_run evs rule b) rule = Some st' \<and> phase st' = Closed"
proof -
  have "\<exists>st'. rules (degradation_run evs rule b) rule = Some st' \<and> phase st' = Closed"
    if "rules b rule = Some st" "phase st = Closed"
      "\<forall>p\<in>set (recent st). de_generationID p = g \<and> de_key p = k" for b st
    using that assms(4)
  proof (induction evs arbitrary: b st)
    case (Cons ev evs)
    have ev: "de_generationID ev = g" "de_key ev = k" "\<forall>ev\<in>set evs. de_generationID ev = g \<and> de_key ev = k"
      using Cons.prems(4) by simp_all
    from one_generation_step[OF Cons.prems(1,2,3) ev(1,2), of 0] obtain st1 where
      st1: "rules (snd (noteDegradation_rule 0 ev rule b)) rule = Some st1" "phase st1 = Closed"
      "\<forall>p\<in>set (recent st1). de_generationID p = g \<and> de_key p = k" by blast
    show ?case using Cons.IH[OF st1 ev(3)] by (simp add: degradation_run_def)
  qed (simp add: degradation_run_def)
  then show ?thesis using assms by simp
qed

definition wit_degradation :: "gotime \<Rightarrow> u64 \<Rightarrow> http3RuleDegradationEvent" where
  "wit_degradation t g = \<lparr>de_key = wit_key, de_remoteIP = ''192.0.2.1'', de_generationID = g, de_at = t,
     de_reason = ReasonSustainedSignals\<rparr>"

theorem one_generation_never_opens_witness:
  "(\<exists>st. rules (degradation_run [wit_degradation second 7, wit_degradation (70 * second) 7] ''r''
      (register ''r'' wit_key newHTTP3RuleBreaker)) ''r'' = Some st \<and> phase st = Closed)
   \<and> map_option phase (rules (degradation_run [wit_degradation second 7, wit_degradation (50 * second) 8] ''r''
      (register ''r'' wit_key newHTTP3RuleBreaker)) ''r'') = Some Evaluating"
proof
  have "rules (register ''r'' wit_key newHTTP3RuleBreaker) ''r'' = Some zero_state"
    by (simp add: register_def newHTTP3RuleBreaker_def Let_def)
  then show "\<exists>st. rules (degradation_run [wit_degradation second 7, wit_degradation (70 * second) 7] ''r''
      (register ''r'' wit_key newHTTP3RuleBreaker)) ''r'' = Some st \<and> phase st = Closed"
    by (rule one_generation_never_opens[where g = 7 and k = wit_key]) (simp_all add: zero_state_def wit_degradation_def)
  show "map_option phase (rules (degradation_run [wit_degradation second 7, wit_degradation (50 * second) 8] ''r''
      (register ''r'' wit_key newHTTP3RuleBreaker)) ''r'') = Some Evaluating" by code_simp
qed

end
