(* ===== verification/Dial_Bulkhead.thy ===== *)
theory Dial_Bulkhead
  imports Moto_Prelude "HOL-Library.Multiset" "HOL-Library.Sublist"
begin

text \<open>
  The foreground dial bulkhead of \<^verbatim>\<open>controller/dial_bulkhead.go\<close>: a limit on all dials and a
  limit per target, with a queue of waiters that releases serve in order.

  The Go code holds \<^verbatim>\<open>bulkhead.mu\<close> in short critical sections; each is one function here. A waiter
  object is named by the number that stands for its pointer, and \<open>wobj\<close> is the heap of waiter
  objects; the channel \<^verbatim>\<open>ready\<close> is closed exactly when \<open>granted\<close> is set. The time spent waiting,
  which only feeds metrics, is left out.
\<close>

section \<open>State\<close>

datatype dialSaturationScope = dialSaturationUnknown | dialSaturationGlobal | dialSaturationTarget

text \<open>\<open>cause\<close> is the context error; a saturated error has none.\<close>

record dialBulkheadError =
  errTarget :: string
  cause :: "ctxErr option"
  saturated :: bool
  scope :: dialSaturationScope

record dialBulkheadWaiter =
  wtarget :: string
  queued :: bool \<comment> \<open>\<^verbatim>\<open>waiter.element != nil\<close>\<close>
  granted :: bool

record dialBulkhead =
  globalLimit :: int
  perTargetLimit :: int
  waitLimit :: duration
  active :: int
  waiting :: int
  activeByTarget :: "string \<rightharpoonup> int"
  waiters :: "nat list"
  wobj :: "nat \<rightharpoonup> dialBulkheadWaiter"

record dialPermit =
  owner :: bool \<comment> \<open>\<^verbatim>\<open>permit.bulkhead != nil\<close>\<close>
  ptarget :: string
  released :: bool \<comment> \<open>\<^verbatim>\<open>once\<close> has run\<close>

definition trafficDialGlobalLimit :: int where "trafficDialGlobalLimit = 256"
definition trafficDialPerTargetLimit :: int where "trafficDialPerTargetLimit = 64"
definition trafficDialWaitLimit :: duration where "trafficDialWaitLimit = 250 * millisecond"

definition newDialBulkhead :: "int \<Rightarrow> int \<Rightarrow> duration \<Rightarrow> dialBulkhead" where
  "newDialBulkhead gLimit tLimit wLimit =
     (let gLimit = (if gLimit < 1 then 1 else gLimit);
          tLimit = (if tLimit < 1 then 1 else tLimit);
          tLimit = (if tLimit > gLimit then gLimit else tLimit);
          wLimit = (if wLimit < 0 then 0 else wLimit)
      in \<lparr>globalLimit = gLimit, perTargetLimit = tLimit, waitLimit = wLimit, active = 0,
          waiting = 0, activeByTarget = Map.empty, waiters = [], wobj = Map.empty\<rparr>)"

definition newTrafficDialBulkhead :: dialBulkhead where
  "newTrafficDialBulkhead =
     newDialBulkhead trafficDialGlobalLimit trafficDialPerTargetLimit trafficDialWaitLimit"

section \<open>Critical sections\<close>

text \<open>Reading a Go map of integers: a missing key is zero.\<close>

definition get0 :: "(string \<rightharpoonup> int) \<Rightarrow> string \<Rightarrow> int" where
  "get0 m k = (case m k of None \<Rightarrow> 0 | Some n \<Rightarrow> n)"

definition canAdmitLocked :: "dialBulkhead \<Rightarrow> string \<Rightarrow> bool" where
  "canAdmitLocked b target \<longleftrightarrow>
     active b < globalLimit b \<and> get0 (activeByTarget b) target < perTargetLimit b"

definition saturationScopeLocked :: "dialBulkhead \<Rightarrow> string \<Rightarrow> dialSaturationScope" where
  "saturationScopeLocked b target =
     (if active b \<ge> globalLimit b then dialSaturationGlobal
      else if get0 (activeByTarget b) target \<ge> perTargetLimit b then dialSaturationTarget
      else dialSaturationUnknown)"

definition admitLocked :: "dialBulkhead \<Rightarrow> string \<Rightarrow> dialPermit \<times> dialBulkhead" where
  "admitLocked b target =
     (\<lparr>owner = True, ptarget = target, released = False\<rparr>,
      b\<lparr>active := active b + 1,
        activeByTarget := (activeByTarget b)(target \<mapsto> get0 (activeByTarget b) target + 1)\<rparr>)"

definition releaseLocked :: "dialBulkhead \<Rightarrow> string \<Rightarrow> dialBulkhead" where
  "releaseLocked b target =
     (let b = (if active b > 0 then b\<lparr>active := active b - 1\<rparr> else b);
          count = get0 (activeByTarget b) target
      in if count > 1 then b\<lparr>activeByTarget := (activeByTarget b)(target \<mapsto> count - 1)\<rparr>
         else b\<lparr>activeByTarget := (activeByTarget b)(target := None)\<rparr>)"

text \<open>
  The loop of \<^verbatim>\<open>grantWaitersLocked\<close>: \<open>kept\<close> holds the elements already passed over, the list is
  what \<^verbatim>\<open>element.Next()\<close> has still to visit. A nil waiter is a name with no object.
\<close>

fun grant_loop :: "dialBulkhead \<Rightarrow> nat list \<Rightarrow> nat list \<Rightarrow> dialBulkhead" where
  "grant_loop b kept [] = b\<lparr>waiters := kept\<rparr>"
| "grant_loop b kept (w # ws) =
     (if active b < globalLimit b then
        (case wobj b w of
           None \<Rightarrow> grant_loop (b\<lparr>waiting := waiting b - 1\<rparr>) kept ws
         | Some waiter \<Rightarrow>
             if get0 (activeByTarget b) (wtarget waiter) \<ge> perTargetLimit b
             then grant_loop b (kept @ [w]) ws
             else grant_loop
               (b\<lparr>wobj := (wobj b)(w \<mapsto> waiter\<lparr>queued := False, granted := True\<rparr>),
                  waiting := waiting b - 1,
                  active := active b + 1,
                  activeByTarget := (activeByTarget b)
                    (wtarget waiter \<mapsto> get0 (activeByTarget b) (wtarget waiter) + 1)\<rparr>)
               kept ws)
      else b\<lparr>waiters := kept @ w # ws\<rparr>)"

definition grantWaitersLocked :: "dialBulkhead \<Rightarrow> dialBulkhead" where
  "grantWaitersLocked b = grant_loop b [] (waiters b)"

text \<open>\<^verbatim>\<open>cancelWaiter\<close>: a nil bulkhead is not modelled; a nil waiter is a name with no object.\<close>

definition cancelWaiter :: "dialBulkhead \<Rightarrow> nat \<Rightarrow> dialSaturationScope \<times> dialBulkhead" where
  "cancelWaiter b w =
     (case wobj b w of
        None \<Rightarrow> (dialSaturationUnknown, b)
      | Some waiter \<Rightarrow>
          (saturationScopeLocked b (wtarget waiter),
           if granted waiter then grantWaitersLocked (releaseLocked b (wtarget waiter))
           else if queued waiter then
             b\<lparr>waiters := remove1 w (waiters b),
               wobj := (wobj b)(w \<mapsto> waiter\<lparr>queued := False\<rparr>),
               waiting := waiting b - 1\<rparr>
           else b))"

definition release :: "dialBulkhead \<Rightarrow> dialPermit \<Rightarrow> dialPermit \<times> dialBulkhead" where
  "release b permit =
     (if \<not> owner permit \<or> released permit then (permit, b)
      else (permit\<lparr>released := True\<rparr>, grantWaitersLocked (releaseLocked b (ptarget permit))))"

section \<open>Acquiring\<close>

text \<open>
  A call ends with a permit, with an error, or (in the first critical section of \<^verbatim>\<open>acquire\<close> only)
  goes on to wait as the waiter it enqueued.
\<close>

datatype acquired = Permit dialPermit | Failed dialBulkheadError | Enqueued nat

definition context_error :: "string \<Rightarrow> ctxErr \<Rightarrow> dialBulkheadError" where
  "context_error target err =
     \<lparr>errTarget = target, cause = Some err, saturated = False, scope = dialSaturationUnknown\<rparr>"

definition saturated_error :: "string \<Rightarrow> dialSaturationScope \<Rightarrow> dialBulkheadError" where
  "saturated_error target sc = \<lparr>errTarget = target, cause = None, saturated = True, scope = sc\<rparr>"

text \<open>
  \<^verbatim>\<open>acquire\<close> up to the end of its first critical section: \<open>ctxErr\<close> is \<^verbatim>\<open>ctx.Err()\<close> at entry,
  \<open>b = None\<close> the nil bulkhead, \<open>w\<close> the new waiter object's name.
\<close>

definition acquire_enter ::
  "ctxErr option \<Rightarrow> string \<Rightarrow> nat \<Rightarrow> dialBulkhead option \<Rightarrow> acquired \<times> dialBulkhead option" where
  "acquire_enter ctxErr target w b =
     (case ctxErr of
        Some err \<Rightarrow> (Failed (context_error target err), b)
      | None \<Rightarrow>
        (case b of
           None \<Rightarrow> (Permit \<lparr>owner = False, ptarget = '''', released = False\<rparr>, None)
         | Some b \<Rightarrow>
             if canAdmitLocked b target
             then (case admitLocked b target of (permit, b') \<Rightarrow> (Permit permit, Some b'))
             else (Enqueued w,
                   Some (b\<lparr>waiters := waiters b @ [w],
                     wobj := (wobj b)(w \<mapsto> \<lparr>wtarget = target, queued = True, granted = False\<rparr>),
                     waiting := waiting b + 1\<rparr>))))"

text \<open>After an immediate admission \<^verbatim>\<open>ctx.Err()\<close> is read again and an expired context gives the
  slot back.\<close>

definition acquire_admitted ::
  "ctxErr option \<Rightarrow> string \<Rightarrow> dialPermit \<Rightarrow> dialBulkhead \<Rightarrow> acquired \<times> dialBulkhead" where
  "acquire_admitted ctxErr target permit b =
     (case ctxErr of
        Some err \<Rightarrow> (Failed (context_error target err), snd (release b permit))
      | None \<Rightarrow> (Permit permit, b))"

text \<open>The three branches of the \<^verbatim>\<open>select\<close>, and the branch for a zero wait limit, which is the
  branch of an expired timer.\<close>

definition acquire_ready ::
  "ctxErr option \<Rightarrow> string \<Rightarrow> nat \<Rightarrow> dialBulkhead \<Rightarrow> acquired \<times> dialBulkhead" where
  "acquire_ready ctxErr target w b =
     (case ctxErr of
        Some err \<Rightarrow> (Failed (context_error target err), snd (cancelWaiter b w))
      | None \<Rightarrow> (Permit \<lparr>owner = True, ptarget = target, released = False\<rparr>, b))"

definition acquire_done ::
  "ctxErr \<Rightarrow> string \<Rightarrow> nat \<Rightarrow> dialBulkhead \<Rightarrow> acquired \<times> dialBulkhead" where
  "acquire_done err target w b = (Failed (context_error target err), snd (cancelWaiter b w))"

definition acquire_timeout ::
  "ctxErr option \<Rightarrow> string \<Rightarrow> nat \<Rightarrow> dialBulkhead \<Rightarrow> acquired \<times> dialBulkhead" where
  "acquire_timeout ctxErr target w b =
     (case cancelWaiter b w of (sc, b') \<Rightarrow>
        (case ctxErr of
           Some err \<Rightarrow> (Failed (context_error target err), b')
         | None \<Rightarrow> (Failed (saturated_error target sc), b')))"

text \<open>\<^verbatim>\<open>tryAcquire\<close>: \<open>ctxErr\<close> at entry, \<open>ctxErr2\<close> after a refusal. An admission is followed by
  \<open>acquire_admitted\<close>, as in \<^verbatim>\<open>acquire\<close>.\<close>

definition tryAcquire ::
  "ctxErr option \<Rightarrow> ctxErr option \<Rightarrow> string \<Rightarrow> dialBulkhead option \<Rightarrow> acquired \<times> dialBulkhead option" where
  "tryAcquire ctxErr ctxErr2 target b =
     (case ctxErr of
        Some err \<Rightarrow> (Failed (context_error target err), b)
      | None \<Rightarrow>
        (case b of
           None \<Rightarrow> (Permit \<lparr>owner = False, ptarget = '''', released = False\<rparr>, None)
         | Some b \<Rightarrow>
             if \<not> canAdmitLocked b target then
               (case ctxErr2 of
                  Some err \<Rightarrow> (Failed (context_error target err), Some b)
                | None \<Rightarrow> (Failed (saturated_error target (saturationScopeLocked b target)), Some b))
             else (case admitLocked b target of (permit, b') \<Rightarrow> (Permit permit, Some b'))))"

definition isDialTargetBulkheadSaturation :: "dialBulkheadError \<Rightarrow> bool" where
  "isDialTargetBulkheadSaturation err \<longleftrightarrow> saturated err \<and> scope err = dialSaturationTarget"

record dialBulkheadSnapshot =
  GlobalLimit :: int
  PerTargetLimit :: int
  Active :: int
  Waiting :: int
  ActiveByTarget :: "string \<rightharpoonup> int"

definition snapshot :: "dialBulkhead option \<Rightarrow> dialBulkheadSnapshot" where
  "snapshot b = (case b of
      None \<Rightarrow> \<lparr>GlobalLimit = 0, PerTargetLimit = 0, Active = 0, Waiting = 0, ActiveByTarget = Map.empty\<rparr>
    | Some b \<Rightarrow> \<lparr>GlobalLimit = globalLimit b, PerTargetLimit = perTargetLimit b, Active = active b,
        Waiting = waiting b, ActiveByTarget = activeByTarget b\<rparr>)"

section \<open>The interleaving of callers\<close>

text \<open>
  A system state is the bulkhead, the targets of the permits callers hold, and the waiters whose
  callers are blocked in the \<^verbatim>\<open>select\<close> of \<^verbatim>\<open>acquire\<close>.
\<close>

record bulkhead_sys =
  bh :: dialBulkhead
  permits :: "string multiset"
  pend :: "nat list"

inductive bulkhead_step :: "bulkhead_sys \<Rightarrow> bulkhead_sys \<Rightarrow> bool" where
  acquire_admit:
    "acquire_enter None target w (Some (bh s)) = (Permit p, Some b') \<Longrightarrow>
     bulkhead_step s (s\<lparr>bh := b', permits := add_mset target (permits s)\<rparr>)"
| acquire_wait:
    "acquire_enter None target w (Some (bh s)) = (Enqueued w, Some b') \<Longrightarrow> wobj (bh s) w = None \<Longrightarrow>
     bulkhead_step s (s\<lparr>bh := b', pend := w # pend s\<rparr>)"
| try_admit:
    "tryAcquire None e2 target (Some (bh s)) = (Permit p, Some b') \<Longrightarrow>
     bulkhead_step s (s\<lparr>bh := b', permits := add_mset target (permits s)\<rparr>)"
| wait_ready:
    "w \<in> set (pend s) \<Longrightarrow> wobj (bh s) w = Some o' \<Longrightarrow> granted o' \<Longrightarrow>
     acquire_ready None (wtarget o') w (bh s) = (Permit p, b') \<Longrightarrow>
     bulkhead_step s (s\<lparr>bh := b', pend := remove1 w (pend s),
       permits := add_mset (wtarget o') (permits s)\<rparr>)"
| wait_ready_expired:
    "w \<in> set (pend s) \<Longrightarrow> wobj (bh s) w = Some o' \<Longrightarrow> granted o' \<Longrightarrow>
     acquire_ready (Some err) (wtarget o') w (bh s) = (r, b') \<Longrightarrow>
     bulkhead_step s (s\<lparr>bh := b', pend := remove1 w (pend s)\<rparr>)"
| wait_done:
    "w \<in> set (pend s) \<Longrightarrow> wobj (bh s) w = Some o' \<Longrightarrow>
     acquire_done err (wtarget o') w (bh s) = (r, b') \<Longrightarrow>
     bulkhead_step s (s\<lparr>bh := b', pend := remove1 w (pend s)\<rparr>)"
| wait_timeout:
    "w \<in> set (pend s) \<Longrightarrow> wobj (bh s) w = Some o' \<Longrightarrow>
     acquire_timeout ctxErr (wtarget o') w (bh s) = (r, b') \<Longrightarrow>
     bulkhead_step s (s\<lparr>bh := b', pend := remove1 w (pend s)\<rparr>)"
| permit_release:
    "target \<in># permits s \<Longrightarrow>
     release (bh s) \<lparr>owner = True, ptarget = target, released = False\<rparr> = (p, b') \<Longrightarrow>
     bulkhead_step s (s\<lparr>bh := b', permits := permits s - {#target#}\<rparr>)"

definition bulkhead_start :: "bulkhead_sys \<Rightarrow> bool" where
  "bulkhead_start s \<longleftrightarrow> (\<exists>g t w. s = \<lparr>bh = newDialBulkhead g t w, permits = {#}, pend = []\<rparr>)"

section \<open>Accounting\<close>

definition granted_of :: "dialBulkhead \<Rightarrow> nat \<Rightarrow> bool" where
  "granted_of b w = (case wobj b w of None \<Rightarrow> False | Some x \<Rightarrow> granted x)"

definition target_of :: "dialBulkhead \<Rightarrow> nat \<Rightarrow> string" where
  "target_of b w = (case wobj b w of None \<Rightarrow> '''' | Some x \<Rightarrow> wtarget x)"

text \<open>The slots in use: the permits held, and the slots granted to waiters that have not picked
  them up yet.\<close>

definition holders :: "dialBulkhead \<Rightarrow> string multiset \<Rightarrow> nat list \<Rightarrow> string multiset" where
  "holders b P ps = P + mset (map (target_of b) (filter (granted_of b) ps))"

definition counted :: "dialBulkhead \<Rightarrow> string multiset \<Rightarrow> bool" where
  "counted b H \<longleftrightarrow> 1 \<le> perTargetLimit b \<and> perTargetLimit b \<le> globalLimit b
     \<and> active b = int (size H) \<and> active b \<le> globalLimit b
     \<and> (\<forall>t. get0 (activeByTarget b) t = int (count H t) \<and> int (count H t) \<le> perTargetLimit b)
     \<and> (\<forall>t n. activeByTarget b t = Some n \<longrightarrow> 0 < n)"

definition queue_ok :: "dialBulkhead \<Rightarrow> nat list \<Rightarrow> nat list \<Rightarrow> bool" where
  "queue_ok b ps q \<longleftrightarrow> waiting b = int (length q) \<and> distinct q \<and> distinct ps \<and> set q \<subseteq> set ps
     \<and> (\<forall>w \<in> set ps. \<exists>x. wobj b w = Some x \<and> queued x = (w \<in> set q) \<and> granted x = (w \<notin> set q))"

text \<open>No waiter in the queue could be admitted now: nothing that should have been granted is
  still waiting.\<close>

definition no_lost_wakeup :: "dialBulkhead \<Rightarrow> bool" where
  "no_lost_wakeup b \<longleftrightarrow> (\<forall>w \<in> set (waiters b). \<not> canAdmitLocked b (target_of b w))"

definition bulkhead_inv :: "bulkhead_sys \<Rightarrow> bool" where
  "bulkhead_inv s \<longleftrightarrow> counted (bh s) (holders (bh s) (permits s) (pend s))
     \<and> queue_ok (bh s) (pend s) (waiters (bh s)) \<and> no_lost_wakeup (bh s)"

lemma get0_upd [simp]: "get0 (m(k \<mapsto> n)) t = (if t = k then n else get0 m t)"
  "get0 (m(k := None)) t = (if t = k then 0 else get0 m t)"
  by (simp_all add: get0_def)

lemma counted_admit:
  assumes "counted b H" and "canAdmitLocked b t"
  shows "counted (snd (admitLocked b t)) (add_mset t H)"
  using assms by (auto simp: counted_def canAdmitLocked_def admitLocked_def)

lemma counted_release:
  assumes "counted b (add_mset t H)"
  shows "counted (releaseLocked b t) H"
  using assms by (auto simp: counted_def releaseLocked_def Let_def split: if_splits)

lemma releaseLocked_frame [simp]:
  "waiters (releaseLocked b t) = waiters b" "wobj (releaseLocked b t) = wobj b"
  "waiting (releaseLocked b t) = waiting b"
  by (simp_all add: releaseLocked_def Let_def)

lemma admitLocked_frame [simp]:
  "waiters (snd (admitLocked b t)) = waiters b" "wobj (snd (admitLocked b t)) = wobj b"
  "waiting (snd (admitLocked b t)) = waiting b"
  by (simp_all add: admitLocked_def)

lemma wobj_same:
  assumes "wobj b' = wobj b"
  shows "holders b' P ps = holders b P ps" and "target_of b' = target_of b"
proof -
  have "granted_of b' = granted_of b" and t: "target_of b' = target_of b"
    by (rule ext, simp add: granted_of_def target_of_def assms)+
  then show "holders b' P ps = holders b P ps" and "target_of b' = target_of b"
    by (simp_all add: holders_def)
qed

lemma counted_set_waiters [simp]:
  "holders (b\<lparr>waiters := q\<rparr>) P ps = holders b P ps" "target_of (b\<lparr>waiters := q\<rparr>) = target_of b"
  "counted (b\<lparr>waiters := q\<rparr>) H = counted b H" "queue_ok (b\<lparr>waiters := q\<rparr>) ps r = queue_ok b ps r"
  by (rule wobj_same, simp)+ (simp_all add: counted_def queue_ok_def)

lemma queue_ok_same:
  "wobj b' = wobj b \<Longrightarrow> waiting b' = waiting b \<Longrightarrow> queue_ok b' ps q = queue_ok b ps q"
  by (simp add: queue_ok_def)

section \<open>Granting\<close>

abbreviation grant_one :: "dialBulkhead \<Rightarrow> nat \<Rightarrow> dialBulkheadWaiter \<Rightarrow> dialBulkhead" where
  "grant_one b w x \<equiv> b\<lparr>wobj := (wobj b)(w \<mapsto> x\<lparr>queued := False, granted := True\<rparr>),
     waiting := waiting b - 1, active := active b + 1,
     activeByTarget := (activeByTarget b)(wtarget x \<mapsto> get0 (activeByTarget b) (wtarget x) + 1)\<rparr>"

lemma mset_filter_grant:
  "distinct ps \<Longrightarrow> w \<in> set ps \<Longrightarrow> \<not> g w \<Longrightarrow>
     mset (map f (filter (g(w := True)) ps)) = add_mset (f w) (mset (map f (filter g ps)))"
proof (induction ps)
  case (Cons p ps)
  have "{#x \<in># mset ps. x \<noteq> w \<longrightarrow> g x#} = filter_mset g (mset ps)" if "w \<notin> set ps"
    using that by (intro filter_mset_cong) auto
  with Cons show ?case by (cases "p = w") auto
qed simp

lemma holders_grant:
  assumes "wobj b w = Some x" and "\<not> granted x" and "distinct ps" and "w \<in> set ps"
  shows "holders (grant_one b w x) P ps = add_mset (wtarget x) (holders b P ps)"
proof -
  have g: "granted_of (grant_one b w x) = (granted_of b)(w := True)"
    by (auto simp: granted_of_def fun_eq_iff)
  have t: "target_of (grant_one b w x) = target_of b"
    using assms(1) by (auto simp: target_of_def fun_eq_iff)
  have "\<not> granted_of b w" and "target_of b w = wtarget x"
    using assms by (simp_all add: granted_of_def target_of_def)
  then show ?thesis
    using mset_filter_grant [OF assms(3,4), of "granted_of b" "target_of b"]
    by (simp add: holders_def g t)
qed

lemma grant_one_inv:
  assumes "counted b (holders b P ps)" and "queue_ok b ps (kept @ w # ws)"
    and "wobj b w = Some x" and "active b < globalLimit b"
    and "get0 (activeByTarget b) (wtarget x) < perTargetLimit b"
  shows "counted (grant_one b w x) (holders (grant_one b w x) P ps)"
    and "queue_ok (grant_one b w x) ps (kept @ ws)"
proof -
  have w: "w \<in> set ps" "distinct ps" "\<not> granted x" "w \<notin> set kept" "w \<notin> set ws"
    using assms(2,3) by (auto simp: queue_ok_def)
  show "counted (grant_one b w x) (holders (grant_one b w x) P ps)"
    unfolding holders_grant [OF assms(3) w(3,2,1)]
    using assms(1,4,5) by (auto simp: counted_def)
  show "queue_ok (grant_one b w x) ps (kept @ ws)"
    using assms(2,3) w by (auto simp: queue_ok_def)
qed

text \<open>The loop keeps the accounting, and leaves no waiter that could still be admitted, provided
  the waiters passed over so far are blocked.\<close>

lemma target_of_grant: "wobj b w = Some x \<Longrightarrow> target_of (grant_one b w x) = target_of b"
  by (auto simp: target_of_def fun_eq_iff)

lemma grant_loop_inv:
  assumes "counted b (holders b P ps)" and "queue_ok b ps (kept @ ws)"
    and "\<forall>w \<in> set kept. perTargetLimit b \<le> get0 (activeByTarget b) (target_of b w)"
  shows "counted (grant_loop b kept ws) (holders (grant_loop b kept ws) P ps) \<and>
    queue_ok (grant_loop b kept ws) ps (waiters (grant_loop b kept ws)) \<and>
    no_lost_wakeup (grant_loop b kept ws)"
  using assms
proof (induction b kept ws rule: grant_loop.induct)
  case (1 b kept)
  then show ?case by (auto simp: no_lost_wakeup_def canAdmitLocked_def)
next
  case (2 b kept w ws)
  obtain x where x: "wobj b w = Some x" using "2.prems"(2) by (auto simp: queue_ok_def)
  then have t: "target_of b w = wtarget x" by (simp add: target_of_def)
  consider (full) "\<not> active b < globalLimit b"
    | (blocked) "active b < globalLimit b" "perTargetLimit b \<le> get0 (activeByTarget b) (wtarget x)"
    | (grant) "active b < globalLimit b" "get0 (activeByTarget b) (wtarget x) < perTargetLimit b"
    by linarith
  then show ?case
  proof cases
    case full
    then show ?thesis using "2.prems" by (simp add: no_lost_wakeup_def canAdmitLocked_def)
  next
    case blocked
    have "grant_loop b kept (w # ws) = grant_loop b (kept @ [w]) ws" using blocked x by simp
    moreover have "\<forall>v \<in> set (kept @ [w]). perTargetLimit b \<le> get0 (activeByTarget b) (target_of b v)"
      using "2.prems"(3) blocked t by simp
    ultimately show ?thesis using "2.IH"(2) [OF _ x] blocked "2.prems" by simp
  next
    case grant
    have "grant_loop b kept (w # ws) = grant_loop (grant_one b w x) kept ws" using grant x by simp
    moreover have kept: "\<forall>v \<in> set kept. perTargetLimit (grant_one b w x) \<le>
        get0 (activeByTarget (grant_one b w x)) (target_of (grant_one b w x) v)"
      using "2.prems"(3) by (auto simp: target_of_grant [OF x])
    have "\<not> perTargetLimit b \<le> get0 (activeByTarget b) (wtarget x)" using grant by simp
    note IH = "2.IH"(3) [OF grant(1) x this grant_one_inv [OF "2.prems"(1,2) x grant] kept]
    ultimately show ?thesis using IH by (simp only:)
  qed
qed

lemma grantWaitersLocked_inv:
  assumes "counted b (holders b P ps)" and "queue_ok b ps (waiters b)"
  shows "counted (grantWaitersLocked b) (holders (grantWaitersLocked b) P ps)"
    and "queue_ok (grantWaitersLocked b) ps (waiters (grantWaitersLocked b))"
    and "no_lost_wakeup (grantWaitersLocked b)"
  using grant_loop_inv [of b P ps "[]" "waiters b"] assms by (simp_all add: grantWaitersLocked_def)


section \<open>Every step keeps the invariant\<close>

lemma holders_permit [simp]: "holders b (add_mset t P) ps = add_mset t (holders b P ps)"
  by (simp add: holders_def)

lemma holders_remove1:
  "distinct ps \<Longrightarrow> w \<in> set ps \<Longrightarrow> holders b P ps =
     (if granted_of b w then add_mset (target_of b w) (holders b P (remove1 w ps))
      else holders b P (remove1 w ps))"
proof (induction ps)
  case (Cons p ps)
  then show ?case by (cases "p = w") (auto simp: holders_def)
qed simp

lemma queue_ok_remove1:
  "queue_ok b ps q \<Longrightarrow> w \<in> set ps \<Longrightarrow> w \<notin> set q \<Longrightarrow> queue_ok b (remove1 w ps) q"
  by (auto simp: queue_ok_def)

lemma inv_admit:
  assumes "bulkhead_inv s" and "canAdmitLocked (bh s) t"
  shows "bulkhead_inv (s\<lparr>bh := snd (admitLocked (bh s) t), permits := add_mset t (permits s)\<rparr>)"
proof -
  let ?b = "snd (admitLocked (bh s) t)"
  have "canAdmitLocked ?b v \<Longrightarrow> canAdmitLocked (bh s) v" for v
    by (auto simp: canAdmitLocked_def admitLocked_def split: if_splits)
  then have "no_lost_wakeup ?b"
    using assms(1) wobj_same(2) [of ?b "bh s"] by (auto simp: bulkhead_inv_def no_lost_wakeup_def)
  then show ?thesis
    using assms counted_admit [OF _ assms(2)] wobj_same(1) [of ?b "bh s"]
      queue_ok_same [of ?b "bh s"]
    by (simp add: bulkhead_inv_def)
qed

lemma inv_enqueue:
  assumes "bulkhead_inv s" and "\<not> canAdmitLocked (bh s) t" and "wobj (bh s) w = None"
  shows "bulkhead_inv (s\<lparr>bh := (bh s)\<lparr>waiters := waiters (bh s) @ [w],
      wobj := (wobj (bh s))(w \<mapsto> \<lparr>wtarget = t, queued = True, granted = False\<rparr>),
      waiting := waiting (bh s) + 1\<rparr>, pend := w # pend s\<rparr>)" (is "bulkhead_inv (s\<lparr>bh := ?b, pend := _\<rparr>)")
proof -
  have fresh: "w \<notin> set (pend s)" "w \<notin> set (waiters (bh s))"
    using assms(1,3) unfolding bulkhead_inv_def queue_ok_def by fastforce+
  have same: "granted_of ?b v = granted_of (bh s) v" "target_of ?b v = target_of (bh s) v"
    if "v \<noteq> w" for v
    using that by (simp_all add: granted_of_def target_of_def)
  have ne: "v \<noteq> w" if "v \<in> set (pend s)" for v using fresh(1) that by blast
  have "\<not> granted_of ?b w" by (simp add: granted_of_def)
  moreover have "filter (granted_of ?b) (pend s) = filter (granted_of (bh s)) (pend s)"
    using same(1) [OF ne] by (intro filter_cong) auto
  moreover have "map (target_of ?b) (filter (granted_of (bh s)) (pend s)) =
      map (target_of (bh s)) (filter (granted_of (bh s)) (pend s))"
    using same(2) [OF ne] by (intro map_cong) auto
  ultimately have "map (target_of ?b) (filter (granted_of ?b) (w # pend s)) =
      map (target_of (bh s)) (filter (granted_of (bh s)) (pend s))"
    by (simp only: filter.simps if_False)
  then have h: "holders ?b (permits s) (w # pend s) = holders (bh s) (permits s) (pend s)"
    by (simp only: holders_def)
  moreover have "no_lost_wakeup ?b"
  proof -
    have "canAdmitLocked ?b u = canAdmitLocked (bh s) u" for u by (simp add: canAdmitLocked_def)
    moreover have "target_of ?b w = t" by (simp add: target_of_def)
    moreover have "target_of ?b v = target_of (bh s) v" if "v \<in> set (waiters (bh s))" for v
      using fresh(2) that by (intro same(2)) auto
    ultimately show ?thesis
      using assms(1,2) by (simp add: bulkhead_inv_def no_lost_wakeup_def)
  qed
  moreover have "queue_ok ?b (w # pend s) (waiters ?b)"
    using assms(1) fresh by (auto simp: bulkhead_inv_def queue_ok_def)
  ultimately show ?thesis
    using assms(1) by (simp add: bulkhead_inv_def counted_def)
qed

lemma inv_ready:
  assumes "bulkhead_inv s" and "w \<in> set (pend s)" and "wobj (bh s) w = Some x" and "granted x"
  shows "bulkhead_inv (s\<lparr>pend := remove1 w (pend s), permits := add_mset (wtarget x) (permits s)\<rparr>)"
proof -
  have q: "queue_ok (bh s) (pend s) (waiters (bh s))" using assms(1) by (simp add: bulkhead_inv_def)
  then have "w \<notin> set (waiters (bh s))" and "distinct (pend s)"
    using assms(2-4) by (auto simp: queue_ok_def)
  then show ?thesis
    using assms holders_remove1 [of "pend s" w "bh s" "permits s"] queue_ok_remove1 [OF q]
    by (simp add: bulkhead_inv_def granted_of_def target_of_def)
qed

lemma inv_release_slot:
  assumes "counted b (add_mset t (holders b P ps))" and "queue_ok b ps (waiters b)"
  shows "counted (grantWaitersLocked (releaseLocked b t)) (holders (grantWaitersLocked (releaseLocked b t)) P ps)"
    and "queue_ok (grantWaitersLocked (releaseLocked b t)) ps (waiters (grantWaitersLocked (releaseLocked b t)))"
    and "no_lost_wakeup (grantWaitersLocked (releaseLocked b t))"
proof -
  have "counted (releaseLocked b t) (holders (releaseLocked b t) P ps)"
    using counted_release [OF assms(1)] wobj_same(1) [of "releaseLocked b t" b] by simp
  moreover have "queue_ok (releaseLocked b t) ps (waiters (releaseLocked b t))"
    using assms(2) queue_ok_same [of "releaseLocked b t" b] by simp
  ultimately show "counted (grantWaitersLocked (releaseLocked b t)) (holders (grantWaitersLocked (releaseLocked b t)) P ps)"
    and "queue_ok (grantWaitersLocked (releaseLocked b t)) ps (waiters (grantWaitersLocked (releaseLocked b t)))"
    and "no_lost_wakeup (grantWaitersLocked (releaseLocked b t))"
    using grantWaitersLocked_inv by blast+
qed

lemma queue_ok_cancel:
  assumes "queue_ok b ps q" and "w \<in> set ps" and "wobj b w = Some x" and "w \<in> set q"
  shows "queue_ok (b\<lparr>waiters := q', wobj := (wobj b)(w \<mapsto> x\<lparr>queued := False\<rparr>), waiting := waiting b - 1\<rparr>)
    (remove1 w ps) (remove1 w q)"
proof -
  have "int (length (remove1 w q)) = int (length q) - 1"
    using assms(4) length_pos_if_in_set [OF assms(4)] by (simp add: length_remove1 of_nat_diff Suc_leI del: length_greater_0_conv)
  then show ?thesis using assms by (auto simp: queue_ok_def)
qed

lemma inv_cancel:
  assumes inv: "bulkhead_inv s" and w: "w \<in> set (pend s)"
  shows "bulkhead_inv (s\<lparr>bh := snd (cancelWaiter (bh s) w), pend := remove1 w (pend s)\<rparr>)"
proof -
  have c: "counted (bh s) (holders (bh s) (permits s) (pend s))"
    and q: "queue_ok (bh s) (pend s) (waiters (bh s))" and n: "no_lost_wakeup (bh s)"
    using inv by (simp_all add: bulkhead_inv_def)
  obtain x where x: "wobj (bh s) w = Some x" "queued x = (w \<in> set (waiters (bh s)))"
      "granted x = (w \<notin> set (waiters (bh s)))"
    using q w by (auto simp: queue_ok_def)
  have d: "distinct (pend s)" using q by (simp add: queue_ok_def)
  note split = holders_remove1 [OF d w, of "bh s" "permits s"]
  show ?thesis
  proof (cases "granted x")
    case True
    have "counted (bh s) (add_mset (wtarget x) (holders (bh s) (permits s) (remove1 w (pend s))))"
      using c split True x by (simp add: granted_of_def target_of_def)
    moreover have "queue_ok (bh s) (remove1 w (pend s)) (waiters (bh s))"
      using queue_ok_remove1 [OF q w] True x by simp
    ultimately show ?thesis
      using True x inv_release_slot by (simp add: bulkhead_inv_def cancelWaiter_def)
  next
    case False
    let ?b = "(bh s)\<lparr>waiters := remove1 w (waiters (bh s)),
      wobj := (wobj (bh s))(w \<mapsto> x\<lparr>queued := False\<rparr>), waiting := waiting (bh s) - 1\<rparr>"
    have same: "granted_of ?b = granted_of (bh s)" "target_of ?b = target_of (bh s)"
      using x by (auto simp: granted_of_def target_of_def fun_eq_iff)
    have "holders ?b (permits s) (remove1 w (pend s)) = holders (bh s) (permits s) (pend s)"
    proof -
      have "\<not> granted_of (bh s) w" using False x by (simp add: granted_of_def)
      then have "holders (bh s) (permits s) (pend s) = holders (bh s) (permits s) (remove1 w (pend s))"
        using split by (simp only: if_False)
      then show ?thesis by (simp only: holders_def same)
    qed
    moreover have "queue_ok ?b (remove1 w (pend s)) (remove1 w (waiters (bh s)))"
      using queue_ok_cancel [OF q w x(1)] x(3) False by simp
    moreover have "no_lost_wakeup ?b"
    proof -
      have "canAdmitLocked ?b u = canAdmitLocked (bh s) u" for u by (simp add: canAdmitLocked_def)
      moreover have "set (remove1 w (waiters (bh s))) \<subseteq> set (waiters (bh s))"
        by (rule set_remove1_subset)
      ultimately show ?thesis using n by (auto simp: no_lost_wakeup_def same(2))
    qed
    moreover have "counted ?b H = counted (bh s) H" for H by (simp add: counted_def)
    moreover have "snd (cancelWaiter (bh s) w) = ?b" using False x by (simp add: cancelWaiter_def)
    ultimately show ?thesis using c by (simp add: bulkhead_inv_def)
  qed
qed

lemma inv_release:
  assumes "bulkhead_inv s" and "t \<in># permits s"
  shows "bulkhead_inv (s\<lparr>bh := grantWaitersLocked (releaseLocked (bh s) t), permits := permits s - {#t#}\<rparr>)"
proof -
  have "counted (bh s) (add_mset t (holders (bh s) (permits s - {#t#}) (pend s)))"
    using assms by (simp add: bulkhead_inv_def flip: holders_permit)
  then show ?thesis
    using assms(1) inv_release_slot by (simp add: bulkhead_inv_def)
qed

lemma bulkhead_start_inv: "bulkhead_start s \<Longrightarrow> bulkhead_inv s"
  by (auto simp: bulkhead_start_def bulkhead_inv_def newDialBulkhead_def Let_def counted_def
      queue_ok_def no_lost_wakeup_def holders_def get0_def)

lemma bulkhead_step_inv: "bulkhead_step s t \<Longrightarrow> bulkhead_inv s \<Longrightarrow> bulkhead_inv t"
proof (induction rule: bulkhead_step.induct)
  case (acquire_admit target w s p b')
  then show ?case
    using inv_admit [of s target] by (auto simp: acquire_enter_def split: if_splits prod.splits)
next
  case (acquire_wait target w s b')
  then show ?case
    using inv_enqueue [of s target w] by (auto simp: acquire_enter_def split: if_splits prod.splits)
next
  case (try_admit e2 target s p b')
  then show ?case
    using inv_admit [of s target] by (auto simp: tryAcquire_def split: if_splits prod.splits option.splits)
next
  case (wait_ready w s x p b')
  then have "b' = bh s" by (simp add: acquire_ready_def)
  then show ?case using inv_ready [of s w x] wait_ready by simp
next
  case (wait_ready_expired w s x err r b')
  then show ?case using inv_cancel [of s w] by (auto simp: acquire_ready_def)
next
  case (wait_done w s x err r b')
  then show ?case using inv_cancel [of s w] by (auto simp: acquire_done_def)
next
  case (wait_timeout w s x ctxErr r b')
  then show ?case
    using inv_cancel [of s w] by (auto simp: acquire_timeout_def split: prod.splits option.splits)
next
  case (permit_release target s p b')
  then show ?case using inv_release [of s target] by (auto simp: release_def)
qed

interpretation bk: invariant_system bulkhead_start bulkhead_step bulkhead_inv
  by unfold_locales (auto intro: bulkhead_start_inv bulkhead_step_inv)

section \<open>Order of grants\<close>

lemma grant_loop_subseq: "subseq (waiters (grant_loop b kept ws)) (kept @ ws)"
proof (induction b kept ws rule: grant_loop.induct)
  case (2 b kept w ws)
  have drop_w: "subseq (kept @ ws) (kept @ w # ws)" by (rule list_emb_append_mono) auto
  have "subseq (waiters (grant_loop b' kept ws)) (kept @ w # ws)"
    if "subseq (waiters (grant_loop b' kept ws)) (kept @ ws)" for b'
    using that drop_w by (rule subseq_order.trans)
  then show ?case using 2 by (auto split: option.split)
qed simp

lemma subseq_set: "subseq xs ys \<Longrightarrow> set xs \<subseteq> set ys"
  by (auto elim: list_emb_set)

lemma grant_loop_kept: "set kept \<subseteq> set (waiters (grant_loop b kept ws))"
  by (induction b kept ws rule: grant_loop.induct) (auto split: option.split)

lemma grant_loop_blocked:
  assumes "perTargetLimit b \<le> get0 (activeByTarget b) t" and "w \<in> set ws"
    and "wobj b w = Some x" and "wtarget x = t"
  shows "w \<in> set (waiters (grant_loop b kept ws))"
  using assms
proof (induction b kept ws arbitrary: x rule: grant_loop.induct)
  case (2 b kept v ws)
  show ?case
  proof (cases "v = w")
    case True
    then show ?thesis
      using "2.prems" grant_loop_kept [of "kept @ [w]" b ws] by (auto split: option.split)
  next
    case False
    then have w: "w \<in> set ws" using "2.prems" by simp
    show ?thesis
    proof (cases "active b < globalLimit b")
      case True
      show ?thesis
      proof (cases "wobj b v")
        case None
        then show ?thesis using True "2.IH"(1) [OF True None _ w] "2.prems" by simp
      next
        case (Some y)
        have "w \<in> set (waiters (grant_loop (grant_one b v y) kept ws))"
          if "\<not> perTargetLimit b \<le> get0 (activeByTarget b) (wtarget y)"
        proof (rule "2.IH"(3) [OF True Some that _ w])
          show "perTargetLimit (grant_one b v y) \<le> get0 (activeByTarget (grant_one b v y)) t"
            using "2.prems"(1) by auto
        qed (use "2.prems" False in simp_all)
        then show ?thesis
          using True Some "2.IH"(2) [OF True Some _ _ w] "2.prems" by simp
      qed
    qed (use w in simp)
  qed
qed simp

lemma grant_loop_fifo:
  assumes "distinct (kept @ xs @ v # ys)" and "wobj b v = Some x" and "w \<in> set ys"
    and "wobj b w = Some y" and "wtarget y = wtarget x"
    and "v \<in> set (waiters (grant_loop b kept (xs @ v # ys)))"
  shows "w \<in> set (waiters (grant_loop b kept (xs @ v # ys)))"
  using assms
proof (induction b kept "xs @ v # ys" arbitrary: xs rule: grant_loop.induct)
  case (2 b kept u ws)
  show ?case
  proof (cases xs)
    case Nil
    then have [simp]: "u = v" "ws = ys" using "2.hyps"(4) by simp_all
    consider (full) "\<not> active b < globalLimit b"
      | (blocked) "active b < globalLimit b" "perTargetLimit b \<le> get0 (activeByTarget b) (wtarget x)"
      | (grant) "active b < globalLimit b" "\<not> perTargetLimit b \<le> get0 (activeByTarget b) (wtarget x)"
      by linarith
    then show ?thesis
    proof cases
      case full
      then show ?thesis using "2.prems" Nil by simp
    next
      case blocked
      then show ?thesis
        using "2.prems" Nil grant_loop_blocked [OF blocked(2) "2.prems"(3,4)] by simp
    next
      case grant
      then have "v \<in> set (waiters (grant_loop (grant_one b v x) kept ys))"
        using "2.prems" Nil by simp
      then have "v \<in> set (kept @ ys)"
        using subseq_set [OF grant_loop_subseq [of "grant_one b v x" kept ys]] by blast
      then show ?thesis using "2.prems"(1) Nil by auto
    qed
  next
    case (Cons a xs')
    then have [simp]: "a = u" "ws = xs' @ v # ys" using "2.hyps"(4) by simp_all
    have ne: "u \<noteq> v" "u \<noteq> w" using "2.prems"(1,3) Cons by auto
    show ?thesis
    proof (cases "active b < globalLimit b")
      case act: True
      show ?thesis
      proof (cases "wobj b u")
        case None
        then show ?thesis using act "2.hyps"(1) [OF act None, of xs'] "2.prems" Cons by simp
      next
        case (Some z)
        show ?thesis
        proof (cases "perTargetLimit b \<le> get0 (activeByTarget b) (wtarget z)")
          case True
          then show ?thesis
            using act Some "2.hyps"(2) [OF act Some True, of xs'] "2.prems" Cons by simp
        next
          case False
          then show ?thesis
            using act Some ne "2.hyps"(3) [OF act Some False, of xs'] "2.prems" Cons by simp
        qed
      qed
    qed (use "2.prems" Cons in simp)
  qed
qed simp

section \<open>Properties\<close>

text \<open>C21: in every state that any interleaving of callers can reach, the active count is the
  number of permits held plus the slots granted to waiters that have not picked them up, for each
  target and in total, and neither limit is exceeded; the waiting count is the queue's length.\<close>

theorem bulkhead_limits_respected:
  assumes "bulkhead_start s0" and "bulkhead_step\<^sup>*\<^sup>* s0 s"
  shows "active (bh s) = int (size (permits s) + length (filter (granted_of (bh s)) (pend s)))
    \<and> active (bh s) \<le> globalLimit (bh s)
    \<and> (\<forall>t. get0 (activeByTarget (bh s)) t =
          int (count (permits s) t + length (filter (\<lambda>w. granted_of (bh s) w \<and> target_of (bh s) w = t) (pend s)))
        \<and> get0 (activeByTarget (bh s)) t \<le> perTargetLimit (bh s))
    \<and> waiting (bh s) = int (length (waiters (bh s)))"
proof -
  have inv: "bulkhead_inv s" by (rule bk.reachable_inv [OF assms])
  have "count (mset (map (target_of (bh s)) (filter (granted_of (bh s)) ps))) t =
      length (filter (\<lambda>w. granted_of (bh s) w \<and> target_of (bh s) w = t) ps)" for t ps
    by (induction ps) auto
  moreover have "size (filter_mset g (mset ps)) = length (filter g ps)" for g and ps :: "nat list"
    by (metis mset_filter size_mset)
  ultimately show ?thesis using inv
    by (simp add: bulkhead_inv_def counted_def queue_ok_def holders_def)
qed

theorem bulkhead_limits_respected_witness:
  "\<exists>s. bulkhead_step\<^sup>*\<^sup>* \<lparr>bh = newDialBulkhead 1 1 0, permits = {#}, pend = []\<rparr> s
     \<and> permits s = {#''a''#} \<and> active (bh s) = 1 \<and> active (bh s) \<le> globalLimit (bh s)"
proof -
  let ?init = "\<lparr>bh = newDialBulkhead 1 1 0, permits = {#}, pend = []\<rparr>"
  let ?b = "snd (admitLocked (newDialBulkhead 1 1 0) ''a'')"
  let ?s = "?init\<lparr>bh := ?b, permits := {#''a''#}\<rparr>"
  have start: "bulkhead_start ?init" unfolding bulkhead_start_def by blast
  have "bulkhead_step ?init ?s"
    using bulkhead_step.acquire_admit [of "''a''" 0 ?init "fst (admitLocked (newDialBulkhead 1 1 0) ''a'')" ?b]
    by (simp add: acquire_enter_def canAdmitLocked_def newDialBulkhead_def get0_def admitLocked_def)
  then have run: "bulkhead_step\<^sup>*\<^sup>* ?init ?s" by blast
  from bulkhead_limits_respected [OF start run] run show ?thesis by (intro exI [of _ ?s]) simp
qed

text \<open>C22: no wake-up is lost. In every reachable state a caller still in the queue could not be
  admitted: the server-wide limit or its target's limit is exhausted.\<close>

theorem bulkhead_no_lost_wakeup:
  assumes "bulkhead_start s0" and "bulkhead_step\<^sup>*\<^sup>* s0 s"
    and "w \<in> set (waiters (bh s))" and "wobj (bh s) w = Some x"
  shows "saturationScopeLocked (bh s) (wtarget x) \<noteq> dialSaturationUnknown"
proof -
  have "bulkhead_inv s" by (rule bk.reachable_inv [OF assms(1,2)])
  then have "\<not> canAdmitLocked (bh s) (target_of (bh s) w)"
    using assms(3) by (simp add: bulkhead_inv_def no_lost_wakeup_def)
  then show ?thesis
    using assms(4) by (auto simp: canAdmitLocked_def saturationScopeLocked_def target_of_def)
qed

text \<open>grants are first come, first served for each target, and a pass over the queue keeps
  the order of those that go on waiting: a waiter that stays is not overtaken by a later one for
  the same target.\<close>

theorem grantWaiters_fifo:
  assumes "waiters b = xs @ v # ys" and "distinct (waiters b)" and "w \<in> set ys"
    and "wobj b v = Some x" and "wobj b w = Some y" and "wtarget y = wtarget x"
    and "v \<in> set (waiters (grantWaitersLocked b))"
  shows "w \<in> set (waiters (grantWaitersLocked b))
    \<and> subseq (waiters (grantWaitersLocked b)) (waiters b)"
  using grant_loop_fifo [of "[]" xs v ys b x w y] grant_loop_subseq [of b "[]" "waiters b"] assms
  by (simp add: grantWaitersLocked_def)

definition sample_bulkhead :: dialBulkhead where
  "sample_bulkhead = \<lparr>globalLimit = 2, perTargetLimit = 1, waitLimit = 0, active = 1, waiting = 3,
     activeByTarget = [''a'' \<mapsto> 1], waiters = [0, 1, 2],
     wobj = [0 \<mapsto> \<lparr>wtarget = ''a'', queued = True, granted = False\<rparr>,
             1 \<mapsto> \<lparr>wtarget = ''b'', queued = True, granted = False\<rparr>,
             2 \<mapsto> \<lparr>wtarget = ''a'', queued = True, granted = False\<rparr>]\<rparr>"

theorem bulkhead_no_lost_wakeup_witness:
  "\<exists>s. bulkhead_step\<^sup>*\<^sup>* \<lparr>bh = newDialBulkhead 1 1 0, permits = {#}, pend = []\<rparr> s
     \<and> waiters (bh s) = [7] \<and> saturationScopeLocked (bh s) ''b'' \<noteq> dialSaturationUnknown"
proof -
  let ?init = "\<lparr>bh = newDialBulkhead 1 1 0, permits = {#}, pend = []\<rparr>"
  let ?b = "snd (admitLocked (newDialBulkhead 1 1 0) ''a'')"
  let ?s = "?init\<lparr>bh := ?b, permits := {#''a''#}\<rparr>"
  let ?x = "\<lparr>wtarget = ''b'', queued = True, granted = False\<rparr>"
  let ?c = "?b\<lparr>waiters := [7], wobj := [7 \<mapsto> ?x], waiting := 1\<rparr>"
  have start: "bulkhead_start ?init" unfolding bulkhead_start_def by blast
  have "bulkhead_step ?init ?s"
    using bulkhead_step.acquire_admit [of "''a''" 0 ?init "fst (admitLocked (newDialBulkhead 1 1 0) ''a'')" ?b]
    by (simp add: acquire_enter_def canAdmitLocked_def newDialBulkhead_def get0_def admitLocked_def)
  moreover have "bulkhead_step ?s (?s\<lparr>bh := ?c, pend := [7]\<rparr>)"
    using bulkhead_step.acquire_wait [of "''b''" 7 ?s ?c]
    by (simp add: acquire_enter_def canAdmitLocked_def newDialBulkhead_def get0_def admitLocked_def)
  ultimately have run: "bulkhead_step\<^sup>*\<^sup>* ?init (?s\<lparr>bh := ?c, pend := [7]\<rparr>)" by auto
  from bulkhead_no_lost_wakeup [OF start run, of 7 ?x] run show ?thesis
    by (intro exI [of _ "?s\<lparr>bh := ?c, pend := [7]\<rparr>"]) simp
qed

theorem grantWaiters_fifo_witness:
  "2 \<in> set (waiters (grantWaitersLocked sample_bulkhead))
    \<and> subseq (waiters (grantWaitersLocked sample_bulkhead)) (waiters sample_bulkhead)"
proof (rule grantWaiters_fifo [where xs = "[]" and v = 0 and ys = "[1, 2]"])
  show "wobj sample_bulkhead 0 = Some \<lparr>wtarget = ''a'', queued = True, granted = False\<rparr>"
    and "wobj sample_bulkhead 2 = Some \<lparr>wtarget = ''a'', queued = True, granted = False\<rparr>"
    by (simp_all add: sample_bulkhead_def)
  show "0 \<in> set (waiters (grantWaitersLocked sample_bulkhead))"
    by (simp add: sample_bulkhead_def grantWaitersLocked_def get0_def)
qed (simp_all add: sample_bulkhead_def)

end
