(* ===== verification/Connect_Policy.thy ===== *)
theory Connect_Policy
  imports Moto_Config Net_Text Dial_Bulkhead "HOL-Library.List_Lexorder" "HOL-Library.Char_ord"
    "HOL-Library.Product_Lexorder"
begin

text \<open>
  How one inbound CONNECT tries its targets and which failure it reports
  (\<^verbatim>\<open>controller/connect_proxy_policy.go\<close>, \<^verbatim>\<open>connect_proxy_error.go\<close>).

  A Go error is a value of \<open>goerr\<close>: a sentinel, an error type of the program, a wrapped error or
  \<^verbatim>\<open>errors.Join\<close> of several. \<open>unwrap\<close>, \<open>err_is\<close>, \<open>as_status\<close> and \<open>as_bulkhead\<close> are
  \<^verbatim>\<open>errors.Unwrap\<close>, \<^verbatim>\<open>errors.Is\<close> and \<^verbatim>\<open>errors.As\<close>. Go compares strings bytewise, which is the
  lexicographic order of the character lists.
\<close>

section \<open>Errors and their classes\<close>

datatype connectProxyFailureClass =
    ClassUnset | FailurePolicyDenied | FailureProxyAuth | FailureRateLimited
  | FailureDestinationConnect | FailureServiceUnavailable | FailureProtocolUnsupported
  | FailureStatusUnknown

record connectProxyStatusError =
  protocol :: string
  target :: string
  statusCode :: int
  errclass :: connectProxyFailureClass
  retryAfter :: duration
  hasRetryAfter :: bool

datatype goerr =
    ErrText string
  | ErrNet string bool \<comment> \<open>a \<^verbatim>\<open>net.Error\<close> of a socket operation and its \<^verbatim>\<open>Timeout()\<close>\<close>
  | ErrWrap string goerr
  | ErrJoin "goerr list"
  | ErrStatus connectProxyStatusError
  | ErrBulkhead dialBulkheadError
  | ErrCtx ctxErr
  | ErrCircuitOpen
  | ErrActiveHealthUnhealthy
  | ErrBulkheadSaturated
  | ErrProtocolCapacity
  | ErrRouteReachable
  | ErrRouteFailure goerr "nat option" \<comment> \<open>\<^verbatim>\<open>routeFailureObservation\<close>: its cause and its group\<close>
  | ErrSetup goerr "nat option" \<comment> \<open>\<^verbatim>\<open>http2SetupError\<close> and \<^verbatim>\<open>http3SetupError\<close>: the cause and the group of requests that shared the setup\<close>

text \<open>\<^verbatim>\<open>errors.Unwrap\<close>; the result of the bulkhead error is its \<^verbatim>\<open>Unwrap\<close> method.\<close>

definition bulkhead_unwrap :: "dialBulkheadError \<Rightarrow> goerr option" where
  "bulkhead_unwrap b = (if saturated b then Some ErrBulkheadSaturated else map_option ErrCtx (cause b))"

fun unwrap :: "goerr \<Rightarrow> goerr option" where
  "unwrap (ErrWrap s e) = Some e"
| "unwrap (ErrBulkhead b) = bulkhead_unwrap b"
| "unwrap (ErrRouteFailure e g) = Some e"
| "unwrap (ErrSetup e g) = Some e"
| "unwrap _ = None"

fun err_is :: "goerr \<Rightarrow> goerr \<Rightarrow> bool" where
  "err_is (ErrWrap s e) t \<longleftrightarrow> ErrWrap s e = t \<or> err_is e t"
| "err_is (ErrRouteFailure e g) t \<longleftrightarrow> ErrRouteFailure e g = t \<or> err_is e t"
| "err_is (ErrSetup e g) t \<longleftrightarrow> ErrSetup e g = t \<or> err_is e t"
| "err_is (ErrJoin es) t \<longleftrightarrow> ErrJoin es = t \<or> list_ex (\<lambda>e. err_is e t) es"
| "err_is (ErrBulkhead b) t \<longleftrightarrow> ErrBulkhead b = t \<or> bulkhead_unwrap b = Some t"
| "err_is e t \<longleftrightarrow> e = t"

fun as_bulkhead :: "goerr \<Rightarrow> dialBulkheadError option" and as_bulkheads :: "goerr list \<Rightarrow> dialBulkheadError option" where
  "as_bulkhead (ErrBulkhead b) = Some b"
| "as_bulkhead (ErrWrap s e) = as_bulkhead e"
| "as_bulkhead (ErrRouteFailure e g) = as_bulkhead e"
| "as_bulkhead (ErrSetup e g) = as_bulkhead e"
| "as_bulkhead (ErrJoin es) = as_bulkheads es"
| "as_bulkhead _ = None"
| "as_bulkheads [] = None"
| "as_bulkheads (e # es) = (case as_bulkhead e of Some b \<Rightarrow> Some b | None \<Rightarrow> as_bulkheads es)"

definition isDialBulkheadError :: "goerr \<Rightarrow> bool" where
  "isDialBulkheadError e \<longleftrightarrow> as_bulkhead e \<noteq> None"

definition isDialTargetBulkheadSaturationErr :: "goerr \<Rightarrow> bool" where
  "isDialTargetBulkheadSaturationErr e =
     (case as_bulkhead e of Some b \<Rightarrow> isDialTargetBulkheadSaturation b | None \<Rightarrow> False)"

definition classifyConnectProxyStatus :: "int \<Rightarrow> connectProxyFailureClass" where
  "classifyConnectProxyStatus code =
     (if code = 401 \<or> code = 407 then FailureProxyAuth
      else if code = 429 then FailureRateLimited
      else if code = 405 \<or> code = 501 \<or> code = 505 then FailureProtocolUnsupported
      else if code = 403 then FailurePolicyDenied
      else if code = 502 \<or> code = 504 then FailureDestinationConnect
      else if code = 503 then FailureServiceUnavailable
      else FailureStatusUnknown)"

definition connectProxyRetryAfterMaxBytes :: nat where "connectProxyRetryAfterMaxBytes = 128"
definition connectProxyRetryAfterMax :: duration where "connectProxyRetryAfterMax = minute"

text \<open>\<^verbatim>\<open>strconv.ParseUint(value, 10, 64)\<close>.\<close>

definition parse_uint :: "string \<Rightarrow> nat option" where
  "parse_uint s =
     (if s = [] \<or> \<not> list_all is_digit s then None
      else let n = digits_value s
        in if n < 2 ^ 64 then Some n else None)"

text \<open>\<open>parseTime\<close> stands for \<^verbatim>\<open>http.ParseTime\<close>.\<close>

definition parseConnectProxyRetryAfter ::
  "(string \<Rightarrow> gotime option) \<Rightarrow> string \<Rightarrow> gotime \<Rightarrow> duration \<times> bool" where
  "parseConnectProxyRetryAfter parseTime raw now =
     (let value = trim_space raw
      in if value = '''' \<or> length value > connectProxyRetryAfterMaxBytes then (0, False)
         else case parse_uint value of
           Some seconds \<Rightarrow>
             let maximumSeconds = connectProxyRetryAfterMax div second;
                 seconds = (if int seconds > maximumSeconds then maximumSeconds else int seconds)
             in (seconds * second, True)
         | None \<Rightarrow> (case parseTime value of
             None \<Rightarrow> (0, False)
           | Some retryAt \<Rightarrow>
               let delay = time_sub retryAt now;
                   delay = (if delay < 0 then 0 else delay);
                   delay = (if delay > connectProxyRetryAfterMax then connectProxyRetryAfterMax else delay)
               in (delay, True)))"

text \<open>The response as the program reads it: its status and its \<^verbatim>\<open>Retry-After\<close> header (empty when
  absent).\<close>

definition newConnectProxyStatusErrorAt ::
  "(string \<Rightarrow> gotime option) \<Rightarrow> string \<Rightarrow> string \<Rightarrow> (int \<times> string) option \<Rightarrow> gotime \<Rightarrow> connectProxyStatusError" where
  "newConnectProxyStatusErrorAt parseTime proto tgt response now =
     (case response of
        None \<Rightarrow> \<lparr>protocol = proto, target = tgt, statusCode = 500, errclass = FailureStatusUnknown,
            retryAfter = 0, hasRetryAfter = False\<rparr>
      | Some (code, header) \<Rightarrow>
          let (delay, present) = parseConnectProxyRetryAfter parseTime header now
          in \<lparr>protocol = proto, target = tgt, statusCode = code, errclass = classifyConnectProxyStatus code,
              retryAfter = delay, hasRetryAfter = present\<rparr>)"

section \<open>Choosing the failure to report\<close>

definition connectProxyStatusFailureClass :: "connectProxyStatusError option \<Rightarrow> connectProxyFailureClass" where
  "connectProxyStatusFailureClass statusErr = (case statusErr of
       None \<Rightarrow> FailureStatusUnknown
     | Some s \<Rightarrow> if errclass s \<noteq> ClassUnset then errclass s else classifyConnectProxyStatus (statusCode s))"

definition connectProxyStatusDecisionPriority :: "connectProxyFailureClass \<Rightarrow> int" where
  "connectProxyStatusDecisionPriority c = (case c of
       FailureProxyAuth \<Rightarrow> 7 | FailurePolicyDenied \<Rightarrow> 6 | FailureRateLimited \<Rightarrow> 5
     | FailureDestinationConnect \<Rightarrow> 4 | FailureServiceUnavailable \<Rightarrow> 3
     | FailureProtocolUnsupported \<Rightarrow> 2 | _ \<Rightarrow> 1)"

definition connectProxyStatusDecisionBetter ::
  "connectProxyStatusError option \<Rightarrow> connectProxyStatusError option \<Rightarrow> bool" where
  "connectProxyStatusDecisionBetter candidate current = (case candidate of
       None \<Rightarrow> False
     | Some c \<Rightarrow> (case current of
         None \<Rightarrow> True
       | Some b \<Rightarrow>
           let candidatePriority = connectProxyStatusDecisionPriority (connectProxyStatusFailureClass candidate);
               currentPriority = connectProxyStatusDecisionPriority (connectProxyStatusFailureClass current)
           in if candidatePriority \<noteq> currentPriority then candidatePriority > currentPriority
              else if statusCode c \<noteq> statusCode b then statusCode c < statusCode b
              else if target c \<noteq> target b then target c < target b
              else protocol c < protocol b))"

fun connectProxyFinalStatusError :: "goerr \<Rightarrow> connectProxyStatusError option"
  and final_status_children :: "goerr list \<Rightarrow> connectProxyStatusError option \<Rightarrow> connectProxyStatusError option" where
  "connectProxyFinalStatusError (ErrJoin es) = final_status_children es None"
| "connectProxyFinalStatusError (ErrWrap s e) = connectProxyFinalStatusError e"
| "connectProxyFinalStatusError (ErrRouteFailure e g) = connectProxyFinalStatusError e"
| "connectProxyFinalStatusError (ErrSetup e g) = connectProxyFinalStatusError e"
| "connectProxyFinalStatusError (ErrStatus s) = Some s"
| "connectProxyFinalStatusError _ = None"
| "final_status_children [] best = best"
| "final_status_children (e # es) best =
     (let statusErr = connectProxyFinalStatusError e
      in final_status_children es (if connectProxyStatusDecisionBetter statusErr best then statusErr else best))"

fun connectProxySequentialFailureIsLocal :: "goerr \<Rightarrow> bool" where
  "connectProxySequentialFailureIsLocal (ErrJoin es) \<longleftrightarrow>
     es \<noteq> [] \<and> list_all connectProxySequentialFailureIsLocal es"
| "connectProxySequentialFailureIsLocal (ErrBulkhead b) \<longleftrightarrow> True"
| "connectProxySequentialFailureIsLocal (ErrWrap s e) \<longleftrightarrow> connectProxySequentialFailureIsLocal e"
| "connectProxySequentialFailureIsLocal (ErrRouteFailure e g) \<longleftrightarrow> connectProxySequentialFailureIsLocal e"
| "connectProxySequentialFailureIsLocal (ErrSetup e g) \<longleftrightarrow> connectProxySequentialFailureIsLocal e"
| "connectProxySequentialFailureIsLocal e \<longleftrightarrow>
     err_is e (ErrCtx Canceled) \<or> err_is e ErrCircuitOpen \<or> err_is e ErrActiveHealthUnhealthy"

definition class_string :: "connectProxyFailureClass \<Rightarrow> string" where
  "class_string c = (case c of ClassUnset \<Rightarrow> '''' | FailurePolicyDenied \<Rightarrow> ''policy_denied''
     | FailureProxyAuth \<Rightarrow> ''proxy_auth'' | FailureRateLimited \<Rightarrow> ''rate_limited''
     | FailureDestinationConnect \<Rightarrow> ''destination_connect'' | FailureServiceUnavailable \<Rightarrow> ''service_unavailable''
     | FailureProtocolUnsupported \<Rightarrow> ''protocol_unsupported'' | FailureStatusUnknown \<Rightarrow> ''status_unknown'')"

definition connectProxyErrorIdentity :: "goerr \<Rightarrow> string \<Rightarrow> string \<times> string \<times> string" where
  "connectProxyErrorIdentity e fallbackTarget = (case connectProxyFinalStatusError e of
       Some s \<Rightarrow> (if target s = '''' then fallbackTarget else target s, protocol s,
         class_string (connectProxyStatusFailureClass (Some s)))
     | None \<Rightarrow> (fallbackTarget, '''',
         if err_is e ErrProtocolCapacity then ''capacity''
         else if err_is e (ErrCtx DeadlineExceeded) then ''timeout''
         else if err_is e (ErrCtx Canceled) then ''canceled''
         else ''transport_error''))"

section \<open>Trying the targets in turn\<close>

definition connectProxyMaxTargetAttempts :: nat where "connectProxyMaxTargetAttempts = 2"

definition connectProxyTargetAttemptLimit :: "Rule \<Rightarrow> nat" where
  "connectProxyTargetAttemptLimit rule =
     (if Targets rule = [] then 0
      else if \<not> IsConnectProtocol (Protocol rule) \<or> length (Targets rule) < connectProxyMaxTargetAttempts
      then length (Targets rule)
      else connectProxyMaxTargetAttempts)"

text \<open>
  The outside world is a value \<open>'w\<close>: \<open>ctxErr\<close> reads \<^verbatim>\<open>ctx.Err()\<close> in it, and \<open>dial\<close> is
  \<^verbatim>\<open>outboundDialRouteWithOptions\<close>, which tells whether it ran the start callback, returns a
  connection or an error, and leaves a new world.
\<close>

type_synonym ('w, 'c) dialer = "'w \<Rightarrow> string \<Rightarrow> bool \<Rightarrow> bool \<times> (goerr + 'c) \<times> 'w"

record seq_state =
  failures :: "goerr list"
  lastAddress :: string
  started :: nat
  visited :: "string list"
  tryOnly :: bool

text \<open>One iteration either returns (with a connection or by breaking out of the loop) or goes on.\<close>

datatype ('w, 'c) seq_next = Continue seq_state 'w | Return "('c \<times> string) option" seq_state 'w

definition after_failure :: "goerr \<Rightarrow> seq_state \<Rightarrow> 'w \<Rightarrow> ('w, 'c) seq_next" where
  "after_failure e st w =
     (let st = st\<lparr>failures := failures st @ [e]\<rparr>
      in if isDialBulkheadError e then
           if \<not> isDialTargetBulkheadSaturationErr e then Return None st w
           else Continue (st\<lparr>tryOnly := True\<rparr>) w
         else Continue st w)"

definition dial_candidate :: "('w, 'c) dialer \<Rightarrow> string \<Rightarrow> seq_state \<Rightarrow> 'w \<Rightarrow> ('w, 'c) seq_next" where
  "dial_candidate dial addr st w =
     (let st = st\<lparr>visited := visited st @ [addr], lastAddress := addr\<rparr>;
          (onStart, r, w) = dial w addr (tryOnly st);
          st = (if onStart then st\<lparr>started := started st + 1\<rparr> else st)
      in case r of
           Inr connection \<Rightarrow> Return (Some (connection, addr)) st w
         | Inl e \<Rightarrow> after_failure e st w)"

definition sequential_step ::
  "('w \<Rightarrow> ctxErr option) \<Rightarrow> ('w, 'c) dialer \<Rightarrow> nat \<Rightarrow> Target option \<Rightarrow> seq_state \<Rightarrow> 'w \<Rightarrow> ('w, 'c) seq_next" where
  "sequential_step ctxErr dial limit candidate st w =
     (if \<not> started st < limit then Return None st w
      else case ctxErr w of
        Some e \<Rightarrow> Return None (st\<lparr>failures := failures st @ [ErrCtx e]\<rparr>) w
      | None \<Rightarrow> (case candidate of
          None \<Rightarrow> Continue st w
        | Some t \<Rightarrow>
            if Address t = '''' then Continue st w
            else if Address t \<in> set (visited st) then Continue st w
            else dial_candidate dial (Address t) st w))"

fun sequential_loop ::
  "('w \<Rightarrow> ctxErr option) \<Rightarrow> ('w, 'c) dialer \<Rightarrow> nat \<Rightarrow> Target option list \<Rightarrow> seq_state \<Rightarrow> 'w \<Rightarrow>
     ('c \<times> string) option \<times> seq_state \<times> 'w" where
  "sequential_loop ctxErr dial limit [] st w = (None, st, w)"
| "sequential_loop ctxErr dial limit (candidate # rest) st w =
     (case sequential_step ctxErr dial limit candidate st w of
        Return r st w \<Rightarrow> (r, st, w)
      | Continue st w \<Rightarrow> sequential_loop ctxErr dial limit rest st w)"

text \<open>The targets in the order of the offsets: Go's \<^verbatim>\<open>%\<close> truncates, so a negative start is moved
  into range.\<close>

definition start_index :: "int \<Rightarrow> int \<Rightarrow> int" where
  "start_index start n =
     (let s = (if start \<ge> 0 then start mod n else - ((- start) mod n)) in if s < 0 then s + n else s)"

definition candidates :: "int \<Rightarrow> Target option list \<Rightarrow> Target option list" where
  "candidates start ts =
     map (\<lambda>offset. ts ! nat ((start_index start (int (length ts)) + int offset) mod int (length ts))) [0..<length ts]"

definition seq_start :: seq_state where
  "seq_start = \<lparr>failures = [], lastAddress = '''', started = 0, visited = [], tryOnly = False\<rparr>"

definition dialSequentialConnectProxyTargets ::
  "('w \<Rightarrow> ctxErr option) \<Rightarrow> ('w, 'c) dialer \<Rightarrow> Rule \<Rightarrow> int \<Rightarrow> 'w \<Rightarrow> (goerr \<times> string + 'c \<times> string) \<times> 'w" where
  "dialSequentialConnectProxyTargets ctxErr dial rule start w =
     (if Targets rule = [] then (Inl (ErrText ''CONNECT proxy has no targets'', ''''), w)
      else case sequential_loop ctxErr dial (connectProxyTargetAttemptLimit rule) (candidates start (Targets rule)) seq_start w of
        (Some (connection, address), st, w) \<Rightarrow> (Inr (connection, address), w)
      | (None, st, w) \<Rightarrow>
          let fs = (if failures st = [] then [ErrText ''CONNECT proxy has no usable targets''] else failures st)
          in (Inl (ErrJoin fs, lastAddress st), w))"

section \<open>The reported status does not depend on the order of completion\<close>

text \<open>The concrete statuses in an error, in the order they were joined, and the key the decision
  compares.\<close>

fun status_leaves :: "goerr \<Rightarrow> connectProxyStatusError list" where
  "status_leaves (ErrJoin es) = concat (map status_leaves es)"
| "status_leaves (ErrWrap s e) = status_leaves e"
| "status_leaves (ErrRouteFailure e g) = status_leaves e"
| "status_leaves (ErrSetup e g) = status_leaves e"
| "status_leaves (ErrStatus s) = [s]"
| "status_leaves _ = []"

definition status_key :: "connectProxyStatusError \<Rightarrow> int \<times> int \<times> string \<times> string" where
  "status_key s = (- connectProxyStatusDecisionPriority (connectProxyStatusFailureClass (Some s)),
     statusCode s, target s, protocol s)"

lemma better_iff_key: "connectProxyStatusDecisionBetter (Some a) (Some b) \<longleftrightarrow> status_key a < status_key b"
  by (auto simp: connectProxyStatusDecisionBetter_def status_key_def Let_def less_prod_simp)

lemma better_none [simp]: "connectProxyStatusDecisionBetter None x = False"
  "connectProxyStatusDecisionBetter (Some a) None = True"
  by (simp_all add: connectProxyStatusDecisionBetter_def)

text \<open>A result is best for a list of statuses: it is one of them and none has a smaller key.\<close>

definition is_best :: "connectProxyStatusError list \<Rightarrow> connectProxyStatusError option \<Rightarrow> bool" where
  "is_best ss r = (case r of None \<Rightarrow> ss = []
     | Some s \<Rightarrow> s \<in> set ss \<and> (\<forall>x\<in>set ss. status_key s \<le> status_key x))"

lemma is_best_combine:
  assumes "is_best ss r" "is_best ts q"
  shows "is_best (ss @ ts) (if connectProxyStatusDecisionBetter q r then q else r)"
proof (cases r)
  case None
  then show ?thesis using assms by (cases q) (auto simp: is_best_def)
next
  case (Some a)
  show ?thesis
  proof (cases q)
    case (Some b)
    then show ?thesis using assms \<open>r = Some a\<close>
      by (auto simp: is_best_def better_iff_key not_less intro: order_trans less_imp_le)
  qed (use assms Some in \<open>auto simp: is_best_def\<close>)
qed

lemma final_status_best:
  "is_best (status_leaves e) (connectProxyFinalStatusError e)"
  "is_best ss best \<Longrightarrow> is_best (ss @ concat (map status_leaves es)) (final_status_children es best)"
proof (induction e and es best arbitrary: and ss rule: connectProxyFinalStatusError_final_status_children.induct)
  case (1 es)
  then show ?case using 1[of "[]"] by (simp add: is_best_def)
next
  case (7 best)
  then show ?case by simp
next
  case (8 e es best)
  show ?case using 8(2)[OF refl is_best_combine[OF 8(3) 8(1)]] by (simp add: Let_def)
qed (simp_all add: is_best_def)

lemma is_best_unique:
  assumes "is_best ss r" "is_best ts q" "set ss = set ts"
  shows "map_option status_key r = map_option status_key q"
  using assms by (cases r; cases q) (auto simp: is_best_def intro: order_antisym)

lemma priority_inj:
  "connectProxyStatusDecisionPriority a = connectProxyStatusDecisionPriority b \<Longrightarrow>
   a \<noteq> ClassUnset \<Longrightarrow> b \<noteq> ClassUnset \<Longrightarrow> a = b"
  by (cases a; cases b) (simp_all add: connectProxyStatusDecisionPriority_def)

lemma failure_class_set: "connectProxyStatusFailureClass x \<noteq> ClassUnset"
  by (auto simp: connectProxyStatusFailureClass_def classifyConnectProxyStatus_def split: option.split)

text \<open>What the callers take from the chosen status.\<close>

definition decision :: "goerr \<Rightarrow> (connectProxyFailureClass \<times> int \<times> string \<times> string) option" where
  "decision e = map_option (\<lambda>s. (connectProxyStatusFailureClass (Some s), statusCode s, target s, protocol s))
     (connectProxyFinalStatusError e)"

lemma decision_of_key:
  assumes "map_option status_key r = map_option status_key q"
  shows "map_option (\<lambda>s. (connectProxyStatusFailureClass (Some s), statusCode s, target s, protocol s)) r
       = map_option (\<lambda>s. (connectProxyStatusFailureClass (Some s), statusCode s, target s, protocol s)) q"
  using assms priority_inj[OF _ failure_class_set failure_class_set]
  by (cases r; cases q) (auto simp: status_key_def)

text \<open>C27: the failure reported for a request does not depend on the order in which its attempts failed
  or how their errors were joined and wrapped: two errors with the same set of concrete HTTP
  statuses give the same failure class, status code, target and protocol, and these are of one of
  the statuses, none of which has a higher priority.\<close>

theorem final_status_order_independent:
  assumes "set (status_leaves e) = set (status_leaves e')"
  shows "decision e = decision e'
     \<and> (\<forall>s. connectProxyFinalStatusError e = Some s \<longrightarrow> s \<in> set (status_leaves e)
          \<and> (\<forall>x\<in>set (status_leaves e).
               connectProxyStatusDecisionPriority (connectProxyStatusFailureClass (Some x))
               \<le> connectProxyStatusDecisionPriority (connectProxyStatusFailureClass (Some s))))
     \<and> (connectProxyFinalStatusError e = None \<longleftrightarrow> status_leaves e = [])"
proof -
  have "decision e = decision e'" unfolding decision_def
    using is_best_unique[OF final_status_best(1) final_status_best(1) assms] by (rule decision_of_key)
  moreover have "is_best (status_leaves e) (connectProxyFinalStatusError e)" by (rule final_status_best(1))
  ultimately show ?thesis by (auto simp: is_best_def status_key_def split: option.splits)
qed

definition wit_status :: "int \<Rightarrow> string \<Rightarrow> goerr" where
  "wit_status code tgt = ErrStatus \<lparr>protocol = ''h2'', target = tgt, statusCode = code, errclass = ClassUnset,
     retryAfter = 0, hasRetryAfter = False\<rparr>"

theorem final_status_order_independent_witness:
  "decision (ErrJoin [wit_status 503 ''a'', ErrWrap ''x'' (wit_status 403 ''b'')])
     = decision (ErrJoin [wit_status 403 ''b'', ErrJoin [wit_status 503 ''a'']])
   \<and> decision (ErrJoin [wit_status 403 ''b'', ErrJoin [wit_status 503 ''a'']])
     = Some (FailurePolicyDenied, 403, ''b'', ''h2'')"
proof
  show "decision (ErrJoin [wit_status 503 ''a'', ErrWrap ''x'' (wit_status 403 ''b'')])
     = decision (ErrJoin [wit_status 403 ''b'', ErrJoin [wit_status 503 ''a'']])"
    by (rule final_status_order_independent[THEN conjunct1]) (auto simp: wit_status_def)
  show "decision (ErrJoin [wit_status 403 ''b'', ErrJoin [wit_status 503 ''a'']])
     = Some (FailurePolicyDenied, 403, ''b'', ''h2'')" by code_simp
qed

section \<open>The attempts of one request\<close>

text \<open>The addresses a rule can be dialled at.\<close>

definition addresses :: "Target option list \<Rightarrow> string set" where
  "addresses ts = {Address t |t. Some t \<in> set ts \<and> Address t \<noteq> ''''}"

lemma start_index_mod: "n > 0 \<Longrightarrow> start_index start n = start mod n"
proof -
  assume n: "n > 0"
  show ?thesis
  proof (cases "start \<ge> 0")
    case False
    then show ?thesis using n by (simp add: start_index_def Let_def zmod_zminus1_eq_if[of "- start" n, simplified])
        (smt (verit) pos_mod_bound pos_mod_sign zmod_zminus1_eq_if)
  qed (use n in \<open>simp add: start_index_def Let_def not_less\<close>)
qed

lemma set_candidates: "set (candidates start ts) = set ts"
proof (cases "ts = []")
  case False
  let ?n = "length ts"
  have n: "int ?n > 0" using False by simp
  have "set (candidates start ts) = (\<lambda>j. ts ! nat ((start + int j) mod int ?n)) ` {0..<?n}"
    by (auto simp: candidates_def start_index_mod[OF n] mod_simps)
  also have "\<dots> = (!) ts ` {0..<?n}"
  proof safe
    fix k assume "k \<in> {0..<?n}"
    then have k: "k < ?n" by simp
    let ?j = "nat ((int k - start) mod int ?n)"
    have "int ?j = (int k - start) mod int ?n" using n by simp
    then have "(start + int ?j) mod int ?n = int k mod int ?n"
      by (simp add: mod_simps)
    then have "nat ((start + int ?j) mod int ?n) = k" using k by simp
    moreover have "?j < ?n" using n by (simp add: nat_less_iff)
    ultimately show "ts ! k \<in> (\<lambda>j. ts ! nat ((start + int j) mod int ?n)) ` {0..<?n}"
      by (intro image_eqI[of _ _ ?j]) auto
  next
    fix k assume "k \<in> {0..<?n}"
    show "ts ! nat ((start + int k) mod int ?n) \<in> (!) ts ` {0..<?n}"
      using n by (intro imageI) (simp add: nat_less_iff)
  qed
  also have "\<dots> = set ts" by (auto simp: set_conv_nth)
  finally show ?thesis .
qed (simp add: candidates_def)

text \<open>What an iteration keeps: the addresses dialled are distinct addresses of the rule, and the
  started attempts stay within the limit.\<close>

definition seq_ok :: "Target option list \<Rightarrow> nat \<Rightarrow> seq_state \<Rightarrow> bool" where
  "seq_ok ts limit st \<longleftrightarrow> distinct (visited st) \<and> set (visited st) \<subseteq> addresses ts \<and> started st \<le> limit
     \<and> started st \<le> length (visited st)"

lemma seq_ok_upd [simp]:
  "seq_ok ts limit (st\<lparr>failures := f\<rparr>) = seq_ok ts limit st"
  "seq_ok ts limit (st\<lparr>tryOnly := b\<rparr>) = seq_ok ts limit st"
  by (simp_all add: seq_ok_def)

lemma after_failure_ok:
  "after_failure e st w = Continue st' w' \<Longrightarrow> seq_ok ts limit st \<Longrightarrow> seq_ok ts limit st'"
  "after_failure e st w = Return r st' w' \<Longrightarrow> seq_ok ts limit st \<Longrightarrow> seq_ok ts limit st' \<and> r = None"
  by (auto simp: after_failure_def Let_def split: if_splits)

lemma dial_candidate_ok:
  assumes "seq_ok ts limit st" "started st < limit" "a \<in> addresses ts" "a \<notin> set (visited st)"
  shows "dial_candidate dial a st w = Continue st' w' \<Longrightarrow> seq_ok ts limit st'"
    and "dial_candidate dial a st w = Return r st' w' \<Longrightarrow>
      seq_ok ts limit st' \<and> (\<forall>c b. r = Some (c, b) \<longrightarrow> b \<in> addresses ts)"
proof -
  let ?st = "st\<lparr>visited := visited st @ [a], lastAddress := a\<rparr>"
  have ok: "seq_ok ts limit ?st" "seq_ok ts limit (?st\<lparr>started := started st + 1\<rparr>)"
    using assms by (auto simp: seq_ok_def)
  show "dial_candidate dial a st w = Continue st' w' \<Longrightarrow> seq_ok ts limit st'"
    using ok by (auto simp: dial_candidate_def Let_def split_beta split: sum.splits if_splits
        dest: after_failure_ok(1))
  show "dial_candidate dial a st w = Return r st' w' \<Longrightarrow>
      seq_ok ts limit st' \<and> (\<forall>c b. r = Some (c, b) \<longrightarrow> b \<in> addresses ts)"
    using ok assms(3) by (auto simp: dial_candidate_def Let_def split_beta split: sum.splits if_splits
        dest: after_failure_ok(2))
qed

lemma sequential_step_cases:
  obtains (stop) "sequential_step ctxErr dial limit candidate st w = Return None st w"
  | (ctx) e where "sequential_step ctxErr dial limit candidate st w = Return None (st\<lparr>failures := failures st @ [ErrCtx e]\<rparr>) w"
  | (skip) "sequential_step ctxErr dial limit candidate st w = Continue st w"
  | (dial) t where "candidate = Some t" "Address t \<noteq> ''''" "Address t \<notin> set (visited st)" "started st < limit"
      "sequential_step ctxErr dial limit candidate st w = dial_candidate dial (Address t) st w"
  unfolding sequential_step_def
  by (cases "ctxErr w"; cases candidate; cases "started st < limit"; cases "Address (the candidate) = ''''";
      cases "Address (the candidate) \<in> set (visited st)") auto

lemma sequential_step_ok:
  assumes "seq_ok ts limit st" "candidate \<in> set ts"
  shows "sequential_step ctxErr dial limit candidate st w = Continue st' w' \<Longrightarrow> seq_ok ts limit st'"
    and "sequential_step ctxErr dial limit candidate st w = Return r st' w' \<Longrightarrow>
      seq_ok ts limit st' \<and> (\<forall>c b. r = Some (c, b) \<longrightarrow> b \<in> addresses ts)"
proof -
  have "(sequential_step ctxErr dial limit candidate st w = Continue st' w' \<longrightarrow> seq_ok ts limit st')
    \<and> (sequential_step ctxErr dial limit candidate st w = Return r st' w' \<longrightarrow>
      seq_ok ts limit st' \<and> (\<forall>c b. r = Some (c, b) \<longrightarrow> b \<in> addresses ts))"
  proof (cases rule: sequential_step_cases[of ctxErr dial limit candidate st w])
    case (dial t)
    then have "Address t \<in> addresses ts" using assms(2) by (auto simp: addresses_def)
    then show ?thesis
      unfolding dial(5) using dial_candidate_ok(1)[OF assms(1) dial(4) _ dial(3), of dial w st' w']
        dial_candidate_ok(2)[OF assms(1) dial(4) _ dial(3), of dial w r st' w'] by blast
  qed (use assms(1) in auto)
  then show "sequential_step ctxErr dial limit candidate st w = Continue st' w' \<Longrightarrow> seq_ok ts limit st'"
    "sequential_step ctxErr dial limit candidate st w = Return r st' w' \<Longrightarrow>
      seq_ok ts limit st' \<and> (\<forall>c b. r = Some (c, b) \<longrightarrow> b \<in> addresses ts)" by blast+
qed

lemma sequential_loop_ok:
  "sequential_loop ctxErr dial limit cs st w = (r, st', w') \<Longrightarrow> seq_ok ts limit st \<Longrightarrow> set cs \<subseteq> set ts \<Longrightarrow>
   seq_ok ts limit st' \<and> (\<forall>c a. r = Some (c, a) \<longrightarrow> a \<in> addresses ts)"
proof (induction cs arbitrary: st w)
  case (Cons candidate rest)
  have c: "candidate \<in> set ts" using Cons.prems(3) by simp
  show ?case
  proof (cases "sequential_step ctxErr dial limit candidate st w")
    case (Continue st1 w1)
    then have "sequential_loop ctxErr dial limit rest st1 w1 = (r, st', w')" using Cons.prems(1) by simp
    then show ?thesis
      using sequential_step_ok(1)[OF Cons.prems(2) c Continue] Cons.prems(3) by (intro Cons.IH) simp_all
  next
    case (Return r1 st1 w1)
    then show ?thesis using Cons.prems(1) sequential_step_ok(2)[OF Cons.prems(2) c Return] by simp
  qed
qed simp

text \<open>Why the loop can end without a connection.\<close>

definition exhausted :: "('w \<Rightarrow> ctxErr option) \<Rightarrow> nat \<Rightarrow> Target option list \<Rightarrow> seq_state \<Rightarrow> 'w \<Rightarrow> bool" where
  "exhausted ctxErr limit cs st w \<longleftrightarrow>
     started st = limit \<or> ctxErr w \<noteq> None
     \<or> (failures st \<noteq> [] \<and> isDialBulkheadError (last (failures st)) \<and> \<not> isDialTargetBulkheadSaturationErr (last (failures st)))
     \<or> addresses cs \<subseteq> set (visited st)"

lemma dial_candidate_visits:
  "dial_candidate dial a st w = Continue st' w' \<Longrightarrow> set (visited st') = insert a (set (visited st))"
  by (auto simp: dial_candidate_def after_failure_def Let_def split_beta split: sum.splits if_splits)

lemma dial_candidate_stops:
  "dial_candidate dial a st w = Return None st' w' \<Longrightarrow> failures st' \<noteq> []
     \<and> isDialBulkheadError (last (failures st')) \<and> \<not> isDialTargetBulkheadSaturationErr (last (failures st'))"
  by (auto simp: dial_candidate_def after_failure_def Let_def split_beta split: sum.splits if_splits)

lemma sequential_loop_visits:
  "sequential_loop ctxErr dial limit cs st w = (r, st', w') \<Longrightarrow> set (visited st) \<subseteq> set (visited st')"
proof (induction cs arbitrary: st w)
  case (Cons candidate rest)
  have "set (visited st) \<subseteq> set (visited st1)"
    if "sequential_step ctxErr dial limit candidate st w \<in> {Continue st1 w1, Return r1 st1 w1}" for st1 w1 r1
    using that by (auto simp: sequential_step_def dial_candidate_def after_failure_def Let_def split_beta
        split: sum.splits if_splits option.splits)
  then show ?case using Cons by (fastforce split: seq_next.splits)
qed simp

lemma sequential_loop_exhausted:
  "sequential_loop ctxErr dial limit cs st w = (None, st', w') \<Longrightarrow> started st \<le> limit \<Longrightarrow>
   exhausted ctxErr limit cs st' w'"
proof (induction cs arbitrary: st w)
  case Nil
  then show ?case by (simp add: exhausted_def addresses_def)
next
  case (Cons candidate rest)
  show ?case
  proof (cases "sequential_step ctxErr dial limit candidate st w")
    case (Return r1 st1 w1)
    then have "r1 = None" "st1 = st'" "w1 = w'" using Cons.prems(1) by auto
    then show ?thesis using Return Cons.prems(2) dial_candidate_stops
      by (fastforce simp: exhausted_def sequential_step_def split: if_splits option.splits)
  next
    case (Continue st1 w1)
    then have loop: "sequential_loop ctxErr dial limit rest st1 w1 = (None, st', w')" using Cons.prems(1) by simp
    have lim: "started st1 \<le> limit"
      using Continue Cons.prems(2) by (auto simp: sequential_step_def dial_candidate_def after_failure_def Let_def split_beta
          split: if_splits option.splits sum.splits)
    have "addresses [candidate] \<subseteq> set (visited st1)"
      using Continue dial_candidate_visits
      by (fastforce simp: sequential_step_def addresses_def split: if_splits option.splits)
    moreover have "addresses (candidate # rest) = addresses [candidate] \<union> addresses rest"
      by (auto simp: addresses_def)
    ultimately show ?thesis
      using Cons.IH[OF loop lim] sequential_loop_visits[OF loop] by (auto simp: exhausted_def)
  qed
qed

lemma seq_ok_start: "seq_ok ts limit seq_start"
  by (simp add: seq_ok_def seq_start_def)

lemma attempt_limit_le: "IsConnectProtocol (Protocol rule) \<Longrightarrow> connectProxyTargetAttemptLimit rule \<le> 2"
  by (auto simp: connectProxyTargetAttemptLimit_def connectProxyMaxTargetAttempts_def)

text \<open>one inbound CONNECT starts at most two target attempts, and never dials an address twice.
  Whatever the network does, the addresses dialled are distinct addresses of the rule, a returned
  connection is to one of them, and the attempts whose dial really began are at most two (and at
  most the addresses dialled).\<close>

theorem sequential_attempts_bounded:
  assumes "IsConnectProtocol (Protocol rule)"
    and "sequential_loop ctxErr dial (connectProxyTargetAttemptLimit rule) (candidates start (Targets rule)) seq_start w
      = (r, st, w')"
  shows "started st \<le> 2 \<and> started st \<le> length (visited st) \<and> distinct (visited st)
     \<and> set (visited st) \<subseteq> addresses (Targets rule)
     \<and> (\<forall>c a. r = Some (c, a) \<longrightarrow> a \<in> addresses (Targets rule))"
proof -
  have "seq_ok (Targets rule) (connectProxyTargetAttemptLimit rule) st
     \<and> (\<forall>c a. r = Some (c, a) \<longrightarrow> a \<in> addresses (Targets rule))"
    using assms(2) seq_ok_start by (rule sequential_loop_ok) (simp add: set_candidates)
  then show ?thesis using attempt_limit_le[OF assms(1)] by (auto simp: seq_ok_def)
qed

text \<open>a request gives up only for a reason. When the loop ends with no connection, the attempt
  budget is used up, or the context is done, or the local dial capacity of the whole server is
  saturated, or every address of the rule has been dialled: rejections before a dial begins (a
  circuit, an unhealthy target, a saturated target) do not use up the budget.\<close>

theorem sequential_failure_exhausts:
  assumes "sequential_loop ctxErr dial limit (candidates start ts) seq_start w = (None, st, w')"
  shows "started st = limit \<or> ctxErr w' \<noteq> None
     \<or> (failures st \<noteq> [] \<and> isDialBulkheadError (last (failures st)) \<and> \<not> isDialTargetBulkheadSaturationErr (last (failures st)))
     \<or> addresses ts \<subseteq> set (visited st)"
proof -
  have "addresses (candidates start ts) = addresses ts" by (simp add: addresses_def set_candidates)
  then show ?thesis
    using sequential_loop_exhausted[OF assms] by (simp add: exhausted_def seq_start_def)
qed

text \<open>A rule with three targets; every dial starts and fails.\<close>

definition wit_target :: "string \<Rightarrow> Target option" where
  "wit_target a = Some \<lparr>Regexp = '''', Re = None, Address = a, ServerNames = [], ALPN = [], ConnectProxy = None\<rparr>"

definition wit_rule :: Rule where
  "wit_rule = \<lparr>Name = ''r'', Listen = '''', Mode = ModeNormal, Protocol = ProtocolSOCKS5, Prewarm = False,
     Targets = [wit_target ''a'', wit_target ''b'', wit_target ''c''], Timeout = 0, Blacklist = [],
     Allowlist = [], MaxConnections = 0, MaxConnectionsPerIP = 0, HealthCheck = None, Hedge = None,
     ProxyProtocol = None, UserAgent = [], allowPrefixes = [], blockedIPs = {}\<rparr>"

definition wit_dial :: "(unit, unit) dialer" where
  "wit_dial w a only = (a \<noteq> ''a'', Inl (if a = ''a'' then ErrCircuitOpen else ErrText ''refused''), w)"

definition wit_loop :: "(unit \<times> string) option \<times> seq_state \<times> unit" where
  "wit_loop = sequential_loop (\<lambda>_. None) wit_dial (connectProxyTargetAttemptLimit wit_rule)
     (candidates (- 4) (Targets wit_rule)) seq_start ()"

lemma wit_loop_value:
  "wit_loop = (None, \<lparr>failures = [ErrText ''refused'', ErrCircuitOpen, ErrText ''refused''], lastAddress = ''b'',
     started = 2, visited = [''c'', ''a'', ''b''], tryOnly = False\<rparr>, ())"
  by code_simp

theorem sequential_attempts_bounded_witness:
  "started (fst (snd wit_loop)) \<le> 2 \<and> visited (fst (snd wit_loop)) = [''c'', ''a'', ''b'']"
proof
  have "IsConnectProtocol (Protocol wit_rule)" by code_simp
  then show "started (fst (snd wit_loop)) \<le> 2"
    using sequential_attempts_bounded[OF _ wit_loop_value[unfolded wit_loop_def]] by (simp add: wit_loop_value)
  show "visited (fst (snd wit_loop)) = [''c'', ''a'', ''b'']" by (simp add: wit_loop_value)
qed

theorem sequential_failure_exhausts_witness:
  "started (fst (snd wit_loop)) = 2 \<or> addresses (Targets wit_rule) \<subseteq> set (visited (fst (snd wit_loop)))"
  using sequential_failure_exhausts[OF wit_loop_value[unfolded wit_loop_def]]
  by (simp add: wit_loop_value isDialBulkheadError_def)

text \<open>A \<^verbatim>\<open>Retry-After\<close> header can hold a target back for at most a minute, whatever its value and
  however dates are parsed.\<close>

lemma retry_after_bounded:
  "0 \<le> fst (parseConnectProxyRetryAfter parseTime value now)
   \<and> fst (parseConnectProxyRetryAfter parseTime value now) \<le> connectProxyRetryAfterMax"
  by (auto simp: parseConnectProxyRetryAfter_def connectProxyRetryAfterMax_def duration_defs Let_def split: option.split)

end
