(* ===== verification/Route_Health.thy ===== *)
theory Route_Health
  imports Connect_Policy
begin

text \<open>
  The passive health of the routes of a rule (\<^verbatim>\<open>controller/route_health.go\<close>): a circuit breaker
  per target with a single half-open probe, leases for exploration and recovery, and the choice of
  the targets a request tries.

  The registry's mutex covers each method, so a method is a function of the registry; the clock
  reading is an argument. A \<^verbatim>\<open>routeAttempt\<close> carries its key and its number. A
  \<^verbatim>\<open>routeFailureGroup\<close> is a number, and the claims made on it for this registry are kept with
  the registry. A rule's targets are not nil here (validation rejects a nil target, and
  \<^verbatim>\<open>boostRuleKey\<close> would panic on one); a nil entry contributes nothing to a key.
\<close>

section \<open>Data\<close>

definition routeFailureThreshold :: int where "routeFailureThreshold = 3"
definition routeInitialCooldown :: duration where "routeInitialCooldown = 5 * second"
definition routeMaximumCooldown :: duration where "routeMaximumCooldown = 60 * second"
definition routeFailurePenalty :: duration where "routeFailurePenalty = second"
definition routeExplorationAfter :: duration where "routeExplorationAfter = 30 * second"
definition routeExplorationLeaseMinimum :: duration where "routeExplorationLeaseMinimum = 5 * second"
definition routeExplorationLeaseGrace :: duration where "routeExplorationLeaseGrace = second"
definition routeRecoveryProbeInterval :: duration where "routeRecoveryProbeInterval = 5 * second"
definition dialTimeout :: duration where "dialTimeout = 3 * second"

lemmas route_consts [go_consts] = routeFailureThreshold_def routeInitialCooldown_def routeMaximumCooldown_def
  routeFailurePenalty_def routeExplorationAfter_def routeExplorationLeaseMinimum_def
  routeExplorationLeaseGrace_def routeRecoveryProbeInterval_def duration_defs

record routeHealthState =
  ruleName :: string
  mode :: string
  observed :: bool
  hasEWMA :: bool
  ewma :: duration
  lastAttempt :: gotime
  consecutiveFailures :: int
  relayFailures :: int
  circuitOpen :: bool
  openUntil :: gotime
  cooldown :: duration
  halfOpen :: bool
  halfOpenAttempt :: u64
  minValidAttempt :: u64
  lastRecovery :: gotime

record routeHealthKey =
  krule :: string
  kaddr :: string

record routeAttempt =
  akey :: routeHealthKey
  aid :: u64
  valid :: bool

record routeExplorationLease =
  xl_ruleKey :: string
  xl_address :: string
  xl_token :: u64

record routeClaim =
  cl_address :: string
  cl_token :: u64
  cl_expires :: gotime

record routeHealthRegistry =
  states :: "routeHealthKey \<rightharpoonup> routeHealthState"
  nextAttempt :: u64
  exploration :: "string \<rightharpoonup> routeClaim"
  nextExploration :: u64
  recovery :: "string \<rightharpoonup> routeClaim"
  recoveryNext :: "string \<rightharpoonup> gotime"
  nextRecovery :: u64
  claimed :: "(nat \<times> routeHealthKey) list"

definition newRouteHealthRegistry :: routeHealthRegistry where
  "newRouteHealthRegistry = \<lparr>states = Map.empty, nextAttempt = 0, exploration = Map.empty,
     nextExploration = 0, recovery = Map.empty, recoveryNext = Map.empty, nextRecovery = 0, claimed = []\<rparr>"

definition newRouteHealthState :: "Rule \<Rightarrow> routeHealthState" where
  "newRouteHealthState rule = \<lparr>ruleName = Name rule, mode = Mode rule, observed = False, hasEWMA = False,
     ewma = 0, lastAttempt = 0, consecutiveFailures = 0, relayFailures = 0, circuitOpen = False,
     openUntil = 0, cooldown = 0, halfOpen = False, halfOpenAttempt = 0, minValidAttempt = 0,
     lastRecovery = 0\<rparr>"

text \<open>The key of a rule in every per-rule table: its name, listener, mode and target addresses,
  each after a NUL byte.\<close>

definition target_key :: "Target option \<Rightarrow> string" where
  "target_key t = (case t of None \<Rightarrow> '''' | Some t \<Rightarrow> CHR 0x00 # Address t)"

definition boostRuleKey :: "Rule \<Rightarrow> string" where
  "boostRuleKey rule =
     Name rule @ [CHR 0x00] @ Listen rule @ [CHR 0x00] @ Mode rule @ concat (map target_key (Targets rule))"

definition boostDecisionTimeout :: "Rule \<Rightarrow> duration" where
  "boostDecisionTimeout rule = (if Timeout rule = 0 then dialTimeout else sint (Timeout rule * 1000000))"

definition routeKey :: "Rule \<Rightarrow> string \<Rightarrow> routeHealthKey option" where
  "routeKey rule addr = (if addr = '''' then None else Some \<lparr>krule = boostRuleKey rule, kaddr = addr\<rparr>)"

section \<open>The circuit of one route\<close>

definition nextRouteCooldown :: "duration \<Rightarrow> duration" where
  "nextRouteCooldown previous =
     (if previous < routeInitialCooldown then routeInitialCooldown
      else let next = previous * 2 in if next > routeMaximumCooldown then routeMaximumCooldown else next)"

definition putState :: "routeHealthKey \<Rightarrow> routeHealthState \<Rightarrow> routeHealthRegistry \<Rightarrow> routeHealthRegistry" where
  "putState k st r = r\<lparr>states := (states r)(k \<mapsto> st)\<rparr>"

definition routeBegin :: "Rule \<Rightarrow> string \<Rightarrow> gotime \<Rightarrow> routeHealthRegistry \<Rightarrow> (goerr + routeAttempt) \<times> routeHealthRegistry" where
  "routeBegin rule addr now r = (case routeKey rule addr of
       None \<Rightarrow> (Inr \<lparr>akey = \<lparr>krule = '''', kaddr = ''''\<rparr>, aid = 0, valid = False\<rparr>, r)
     | Some key \<Rightarrow>
         let (st, r) = (case states r key of
               Some st \<Rightarrow> (st, r)
             | None \<Rightarrow> (newRouteHealthState rule, putState key (newRouteHealthState rule) r))
         in if circuitOpen st \<and> (now < openUntil st \<or> halfOpen st) then (Inl ErrCircuitOpen, r)
            else
              let r = r\<lparr>nextAttempt := nextAttempt r + 1\<rparr>;
                  attempt = \<lparr>akey = key, aid = nextAttempt r, valid = True\<rparr>;
                  st = st\<lparr>lastAttempt := now\<rparr>;
                  st = (if circuitOpen st then st\<lparr>halfOpen := True, halfOpenAttempt := aid attempt\<rparr> else st)
              in (Inr attempt, putState key st r))"

text \<open>\<^verbatim>\<open>errors.As\<close> for the shared-failure group of an error.\<close>

fun routeObservationFailureGroup :: "goerr \<Rightarrow> nat option" and failure_groups :: "goerr list \<Rightarrow> nat option" where
  "routeObservationFailureGroup (ErrRouteFailure e g) = g"
| "routeObservationFailureGroup (ErrWrap s e) = routeObservationFailureGroup e"
| "routeObservationFailureGroup (ErrSetup e g) = routeObservationFailureGroup e"
| "routeObservationFailureGroup (ErrJoin es) = failure_groups es"
| "routeObservationFailureGroup _ = None"
| "failure_groups [] = None"
| "failure_groups (e # es) = (case routeObservationFailureGroup e of Some g \<Rightarrow> Some g | None \<Rightarrow> failure_groups es)"

definition claim :: "nat \<Rightarrow> routeHealthKey \<Rightarrow> routeHealthRegistry \<Rightarrow> bool \<times> routeHealthRegistry" where
  "claim g key r = (if (g, key) \<in> set (claimed r) then (False, r)
     else (True, r\<lparr>claimed := (g, key) # claimed r\<rparr>))"

definition release_probe :: "routeHealthState \<Rightarrow> routeHealthState" where
  "release_probe st = st\<lparr>halfOpen := False, halfOpenAttempt := 0\<rparr>"

definition trip :: "gotime \<Rightarrow> routeHealthState \<Rightarrow> routeHealthState" where
  "trip now st = (let c = nextRouteCooldown (cooldown st)
     in st\<lparr>circuitOpen := True, cooldown := c, openUntil := now + c\<rparr>)"

text \<open>The three conclusive outcomes of an attempt whose result counts.\<close>

definition observe_reachable :: "u64 \<Rightarrow> bool \<Rightarrow> gotime \<Rightarrow> routeHealthState \<Rightarrow> routeHealthState" where
  "observe_reachable i probe now st =
     (let st = release_probe (st\<lparr>consecutiveFailures := 0, relayFailures := 0, circuitOpen := False,
            openUntil := 0, cooldown := 0\<rparr>)
      in if probe then st\<lparr>lastRecovery := now, minValidAttempt := i\<rparr> else st)"

definition observe_success :: "u64 \<Rightarrow> bool \<Rightarrow> duration \<Rightarrow> gotime \<Rightarrow> routeHealthState \<Rightarrow> routeHealthState" where
  "observe_success i probe latency now st =
     (let latency = (if latency < 0 then 0 else latency);
          st = (if \<not> hasEWMA st then st\<lparr>ewma := latency, hasEWMA := True\<rparr>
                else st\<lparr>ewma := (4 * ewma st + latency) div 5\<rparr>);
          st = st\<lparr>consecutiveFailures := 0, circuitOpen := False, openUntil := 0\<rparr>;
          st = (if \<not> probe then st\<lparr>cooldown := 0\<rparr> else st);
          st = release_probe st
      in if probe then st\<lparr>lastRecovery := now, minValidAttempt := i\<rparr> else st)"

definition observe_failure :: "gotime \<Rightarrow> routeHealthState \<Rightarrow> routeHealthState" where
  "observe_failure now st =
     (let st = st\<lparr>consecutiveFailures := consecutiveFailures st + 1\<rparr>
      in if circuitOpen st then trip now (release_probe st)
         else if consecutiveFailures st \<ge> routeFailureThreshold then trip now st
         else st)"

text \<open>\<open>None\<close> is the nil error.\<close>

definition routeObserve ::
  "routeAttempt \<Rightarrow> duration \<Rightarrow> goerr option \<Rightarrow> gotime \<Rightarrow> routeHealthRegistry \<Rightarrow> routeHealthRegistry" where
  "routeObserve attempt latency err now r =
     (if \<not> valid attempt then r
      else case states r (akey attempt) of
        None \<Rightarrow> r
      | Some st \<Rightarrow>
          let probe = (circuitOpen st \<and> halfOpen st \<and> halfOpenAttempt st = aid attempt);
              is = (\<lambda>t. case err of Some e \<Rightarrow> err_is e t | None \<Rightarrow> False);
              bulkhead = (case err of Some e \<Rightarrow> isDialBulkheadError e | None \<Rightarrow> False)
          in if is (ErrCtx Canceled) \<or> bulkhead
             then (if probe then putState (akey attempt) (release_probe st) r else r)
             else if aid attempt < minValidAttempt st then r
             else if circuitOpen st \<and> \<not> probe then r
             else
               let (fresh, r) = (case Option.bind err routeObservationFailureGroup of
                     Some g \<Rightarrow> claim g (akey attempt) r
                   | None \<Rightarrow> (True, r))
               in if \<not> fresh
                  then (if probe then putState (akey attempt) (release_probe st) r else r)
                  else
                    let st = st\<lparr>observed := True\<rparr>
                    in putState (akey attempt)
                         (if is ErrRouteReachable then observe_reachable (aid attempt) probe now st
                          else case err of
                            None \<Rightarrow> observe_success (aid attempt) probe latency now st
                          | Some e \<Rightarrow> observe_failure now st) r)"

definition routeReportFailure ::
  "routeAttempt \<Rightarrow> goerr option \<Rightarrow> gotime \<Rightarrow> routeHealthRegistry \<Rightarrow> routeHealthRegistry" where
  "routeReportFailure attempt err now r = (case err of
       None \<Rightarrow> r
     | Some e \<Rightarrow>
         if \<not> valid attempt \<or> err_is e (ErrCtx Canceled) then r
         else case states r (akey attempt) of
           None \<Rightarrow> r
         | Some st \<Rightarrow>
             if aid attempt < minValidAttempt st \<or> circuitOpen st then r
             else
               let st = st\<lparr>observed := True, relayFailures := relayFailures st + 1\<rparr>
               in putState (akey attempt)
                    (if relayFailures st \<ge> routeFailureThreshold then trip now st else st) r)"

definition routeReportSuccess :: "routeAttempt \<Rightarrow> routeHealthRegistry \<Rightarrow> routeHealthRegistry" where
  "routeReportSuccess attempt r =
     (if \<not> valid attempt then r
      else case states r (akey attempt) of
        None \<Rightarrow> r
      | Some st \<Rightarrow>
          if aid attempt < minValidAttempt st \<or> circuitOpen st then r
          else putState (akey attempt)
                 (st\<lparr>observed := True, consecutiveFailures := 0, relayFailures := 0, cooldown := 0\<rparr>) r)"

record routeHealthSnapshot =
  Observed :: bool
  HasEWMA :: bool
  EWMA :: duration
  LastAttempt :: gotime
  ConsecutiveFailures :: int
  CircuitOpen :: bool
  HalfOpen :: bool
  ProbeRequired :: bool
  OpenUntil :: gotime
  snCooldown :: duration
  LastRecovery :: gotime

definition zero_snapshot :: routeHealthSnapshot where
  "zero_snapshot = \<lparr>Observed = False, HasEWMA = False, EWMA = 0, LastAttempt = 0, ConsecutiveFailures = 0,
     CircuitOpen = False, HalfOpen = False, ProbeRequired = False, OpenUntil = 0, snCooldown = 0,
     LastRecovery = 0\<rparr>"

definition route_snapshot :: "Rule \<Rightarrow> string \<Rightarrow> gotime \<Rightarrow> routeHealthRegistry \<Rightarrow> routeHealthSnapshot" where
  "route_snapshot rule addr now r = (case Option.bind (routeKey rule addr) (states r) of
       None \<Rightarrow> zero_snapshot
     | Some st \<Rightarrow> \<lparr>Observed = observed st, HasEWMA = hasEWMA st, EWMA = ewma st, LastAttempt = lastAttempt st,
         ConsecutiveFailures = max (consecutiveFailures st) (relayFailures st), CircuitOpen = circuitOpen st,
         HalfOpen = halfOpen st, ProbeRequired = (circuitOpen st \<and> \<not> halfOpen st \<and> \<not> now < openUntil st),
         OpenUntil = openUntil st, snCooldown = cooldown st, LastRecovery = lastRecovery st\<rparr>)"

definition clear_registry :: "Rule option list \<Rightarrow> routeHealthRegistry \<Rightarrow> routeHealthRegistry" where
  "clear_registry rs r =
     (let keys = set (map boostRuleKey (List.map_filter id rs))
      in r\<lparr>states := (\<lambda>k. if krule k \<in> keys then None else states r k),
           exploration := (\<lambda>k. if k \<in> keys then None else exploration r k),
           recovery := (\<lambda>k. if k \<in> keys then None else recovery r k),
           recoveryNext := (\<lambda>k. if k \<in> keys then None else recoveryNext r k)\<rparr>)"

section \<open>Leases\<close>

definition routeExplorationLeaseDuration :: "Rule \<Rightarrow> duration" where
  "routeExplorationLeaseDuration rule =
     (let d = boostDecisionTimeout rule + routeExplorationLeaseGrace
      in if d < routeExplorationLeaseMinimum then routeExplorationLeaseMinimum else d)"

definition next_id :: "u64 \<Rightarrow> u64" where
  "next_id n = (let m = n + 1 in if m = 0 then m + 1 else m)"

definition claimExploration ::
  "Rule \<Rightarrow> Target \<Rightarrow> gotime \<Rightarrow> routeHealthRegistry \<Rightarrow> routeExplorationLease option \<times> routeHealthRegistry" where
  "claimExploration rule tgt now r =
     (if Address tgt = '''' then (None, r)
      else
        let ruleID = boostRuleKey rule;
            live = (case exploration r ruleID of Some c \<Rightarrow> now < cl_expires c | None \<Rightarrow> False)
        in if live then (None, r)
           else
             let r = r\<lparr>exploration := (exploration r)(ruleID := None)\<rparr>
             in case states r \<lparr>krule = ruleID, kaddr = Address tgt\<rparr> of
               None \<Rightarrow> (None, r)
             | Some st \<Rightarrow>
                 if \<not> observed st \<or> circuitOpen st \<or> lastAttempt st = 0
                    \<or> time_sub now (lastAttempt st) < routeExplorationAfter
                 then (None, r)
                 else
                   let token = next_id (nextExploration r)
                   in (Some \<lparr>xl_ruleKey = ruleID, xl_address = Address tgt, xl_token = token\<rparr>,
                       r\<lparr>nextExploration := token,
                         exploration := (exploration r)(ruleID \<mapsto> \<lparr>cl_address = Address tgt, cl_token = token,
                           cl_expires = now + routeExplorationLeaseDuration rule\<rparr>)\<rparr>))"

definition release_claim :: "routeExplorationLease \<Rightarrow> (string \<rightharpoonup> routeClaim) \<Rightarrow> (string \<rightharpoonup> routeClaim)" where
  "release_claim lease m =
     (case m (xl_ruleKey lease) of
        Some c \<Rightarrow> if cl_address c = xl_address lease \<and> cl_token c = xl_token lease
          then m(xl_ruleKey lease := None) else m
      | None \<Rightarrow> m)"

definition lease_empty :: "routeExplorationLease \<Rightarrow> bool" where
  "lease_empty lease \<longleftrightarrow> xl_ruleKey lease = '''' \<or> xl_address lease = '''' \<or> xl_token lease = 0"

definition releaseExploration :: "routeExplorationLease \<Rightarrow> routeHealthRegistry \<Rightarrow> routeHealthRegistry" where
  "releaseExploration lease r =
     (if lease_empty lease then r else r\<lparr>exploration := release_claim lease (exploration r)\<rparr>)"

text \<open>The circuit whose cooldown expired first, then the least recently attempted, then the first.\<close>

definition recovery_ready :: "gotime \<Rightarrow> routeHealthState \<Rightarrow> bool" where
  "recovery_ready now st \<longleftrightarrow> circuitOpen st \<and> \<not> halfOpen st \<and> \<not> now < openUntil st"

definition better_recovery :: "nat \<times> routeHealthState \<Rightarrow> nat \<times> routeHealthState \<Rightarrow> bool" where
  "better_recovery c b = (case (c, b) of ((i, st), (j, best)) \<Rightarrow>
     openUntil st < openUntil best
     \<or> openUntil st = openUntil best \<and> lastAttempt st < lastAttempt best
     \<or> openUntil st = openUntil best \<and> lastAttempt st = lastAttempt best \<and> i < j)"

fun recovery_loop ::
  "(string \<rightharpoonup> routeHealthState) \<Rightarrow> string set \<Rightarrow> gotime \<Rightarrow> nat \<Rightarrow> Target option list \<Rightarrow>
     (string \<times> nat \<times> routeHealthState) option \<Rightarrow> (string \<times> nat \<times> routeHealthState) option" where
  "recovery_loop look excluded now i [] best = best"
| "recovery_loop look excluded now i (t # ts) best =
     recovery_loop look excluded now (i + 1) ts (case t of
       None \<Rightarrow> best
     | Some t \<Rightarrow>
         if Address t = '''' \<or> Address t \<in> excluded then best
         else case look (Address t) of
           None \<Rightarrow> best
         | Some st \<Rightarrow>
             if \<not> recovery_ready now st then best
             else case best of
               None \<Rightarrow> Some (Address t, i, st)
             | Some (a, j, b) \<Rightarrow> if better_recovery (i, st) (j, b) then Some (Address t, i, st) else best)"

text \<open>A recovery lease has the same fields as an exploration lease (and a protocol lease that is
  empty when it is claimed).\<close>

definition claimRecoveryProbe ::
  "Rule \<Rightarrow> gotime \<Rightarrow> string set \<Rightarrow> routeHealthRegistry \<Rightarrow> routeExplorationLease option \<times> routeHealthRegistry" where
  "claimRecoveryProbe rule now excluded r =
     (if Targets rule = [] then (None, r)
      else
        let ruleID = boostRuleKey rule;
            live = (case recovery r ruleID of Some c \<Rightarrow> now < cl_expires c | None \<Rightarrow> False)
        in if live then (None, r)
           else
             let r = r\<lparr>recovery := (recovery r)(ruleID := None)\<rparr>
             in if now < (case recoveryNext r ruleID of Some t \<Rightarrow> t | None \<Rightarrow> 0) then (None, r)
                else case recovery_loop (\<lambda>a. states r \<lparr>krule = ruleID, kaddr = a\<rparr>) excluded now 0 (Targets rule) None of
                  None \<Rightarrow> (None, r)
                | Some (a, i, st) \<Rightarrow>
                    let token = next_id (nextRecovery r)
                    in (Some \<lparr>xl_ruleKey = ruleID, xl_address = a, xl_token = token\<rparr>,
                        r\<lparr>nextRecovery := token,
                          recovery := (recovery r)(ruleID \<mapsto> \<lparr>cl_address = a, cl_token = token,
                            cl_expires = now + routeExplorationLeaseDuration rule\<rparr>),
                          recoveryNext := (recoveryNext r)(ruleID \<mapsto> now + routeRecoveryProbeInterval)\<rparr>))"

definition releaseRecoveryProbe :: "routeExplorationLease \<Rightarrow> routeHealthRegistry \<Rightarrow> routeHealthRegistry" where
  "releaseRecoveryProbe lease r =
     (if lease_empty lease then r else r\<lparr>recovery := release_claim lease (recovery r)\<rparr>)"

definition recoveryProbeDue :: "Rule \<Rightarrow> gotime \<Rightarrow> routeHealthRegistry \<Rightarrow> bool" where
  "recoveryProbeDue rule now r =
     (let ruleID = boostRuleKey rule
      in if Targets rule = [] then False
         else if (case recovery r ruleID of Some c \<Rightarrow> now < cl_expires c | None \<Rightarrow> False) then False
         else if now < (case recoveryNext r ruleID of Some t \<Rightarrow> t | None \<Rightarrow> 0) then False
         else list_ex (\<lambda>t. case t of
              None \<Rightarrow> False
            | Some t \<Rightarrow> Address t \<noteq> '''' \<and> (case states r \<lparr>krule = ruleID, kaddr = Address t\<rparr> of
                None \<Rightarrow> False | Some st \<Rightarrow> recovery_ready now st)) (Targets rule))"

section \<open>Choosing targets\<close>

record routeCandidate =
  ctarget :: Target
  index :: nat
  score :: duration
  penalty :: duration
  clastAttempt :: gotime
  chasEWMA :: bool
  ccircuitOpen :: bool

record routeTargetSelection =
  starget :: Target
  protocolProbe :: u64
  periodicExplorer :: bool

text \<open>The candidates among the targets: those never observed and those observed with a closed
  circuit, and whether one of them has no protocol penalty. The result lists are built in order.\<close>

definition unobserved_candidate :: "nat \<Rightarrow> Target \<Rightarrow> duration \<Rightarrow> gotime \<Rightarrow> routeCandidate" where
  "unobserved_candidate i t pen attempted = \<lparr>ctarget = t, index = i, score = pen, penalty = pen, clastAttempt = attempted,
     chasEWMA = False, ccircuitOpen = False\<rparr>"

definition observed_candidate :: "nat \<Rightarrow> Target \<Rightarrow> duration \<Rightarrow> routeHealthState \<Rightarrow> routeCandidate" where
  "observed_candidate i t pen st =
     \<lparr>ctarget = t, index = i,
      score = (if hasEWMA st then ewma st else routeFailurePenalty)
        + max (consecutiveFailures st) (relayFailures st) * routeFailurePenalty + pen,
      penalty = pen, clastAttempt = lastAttempt st, chasEWMA = hasEWMA st, ccircuitOpen = circuitOpen st\<rparr>"

fun collect ::
  "(string \<rightharpoonup> routeHealthState) \<Rightarrow> (Target \<Rightarrow> duration) \<Rightarrow> string set \<Rightarrow> nat \<Rightarrow> string list \<Rightarrow> Target option list \<Rightarrow>
     routeCandidate list \<times> routeCandidate list" where
  "collect look pen excluded i seen [] = ([], [])"
| "collect look pen excluded i seen (t # ts) = (case t of
       None \<Rightarrow> collect look pen excluded (i + 1) seen ts
     | Some t \<Rightarrow>
         if Address t = '''' \<or> Address t \<in> excluded \<or> Address t \<in> set seen
         then collect look pen excluded (i + 1) seen ts
         else
           let (un, ob) = collect look pen excluded (i + 1) (Address t # seen) ts
           in case look (Address t) of
             None \<Rightarrow> (unobserved_candidate i t (pen t) 0 # un, ob)
           | Some st \<Rightarrow>
               if \<not> observed st then (unobserved_candidate i t (pen t) (lastAttempt st) # un, ob)
               else if circuitOpen st then (un, ob)
               else (un, observed_candidate i t (pen t) st # ob))"

definition has_unpenalized :: "routeCandidate list \<Rightarrow> bool" where
  "has_unpenalized cs = list_ex (\<lambda>c. penalty c = 0) cs"

definition filterUnpenalizedRouteCandidates :: "routeCandidate list \<Rightarrow> routeCandidate list" where
  "filterUnpenalizedRouteCandidates cs = filter (\<lambda>c. penalty c = 0) cs"

definition filterRouteCandidateAddress :: "string \<Rightarrow> routeCandidate list \<Rightarrow> routeCandidate list" where
  "filterRouteCandidateAddress a cs = filter (\<lambda>c. Address (ctarget c) \<noteq> a) cs"

text \<open>The two orders. Both end with the index, so a stable sort has one result.\<close>

definition sort_observed :: "routeCandidate list \<Rightarrow> routeCandidate list" where
  "sort_observed cs = sort_key (\<lambda>c. (score c, index c)) cs"

definition sort_unobserved :: "routeCandidate list \<Rightarrow> routeCandidate list" where
  "sort_unobserved cs = sort_key (\<lambda>c. (score c, clastAttempt c \<noteq> 0, clastAttempt c, index c)) cs"

text \<open>Claiming the protocol canary: the claim source has a state of its own. The first candidate
  whose claim succeeds with a non-zero token wins.\<close>

type_synonym 'p claimer = "Target \<Rightarrow> 'p \<Rightarrow> (u64 \<times> bool) \<times> 'p"

fun claim_loop :: "'p claimer \<Rightarrow> routeCandidate list \<Rightarrow> 'p \<Rightarrow> routeTargetSelection option \<times> 'p" where
  "claim_loop clm [] p = (None, p)"
| "claim_loop clm (c # cs) p =
     (let ((token, ok), p) = clm (ctarget c) p
      in if ok \<and> token \<noteq> 0
         then (Some \<lparr>starget = ctarget c, protocolProbe = token, periodicExplorer = False\<rparr>, p)
         else claim_loop clm cs p)"

definition refresh :: "(Target \<Rightarrow> duration) \<Rightarrow> routeCandidate list \<Rightarrow> routeCandidate list" where
  "refresh pen cs = map (\<lambda>c. c\<lparr>score := score c + (pen (ctarget c) - penalty c), penalty := pen (ctarget c)\<rparr>) cs"

text \<open>\<open>pen\<close> is the penalty snapshot, \<open>pen2\<close> the refreshed one.\<close>

definition narrow ::
  "'p claimer \<Rightarrow> (Target \<Rightarrow> duration) \<Rightarrow> bool \<Rightarrow> routeCandidate list \<Rightarrow> routeCandidate list \<Rightarrow> 'p \<Rightarrow>
     routeTargetSelection option \<times> routeCandidate list \<times> routeCandidate list \<times> 'p" where
  "narrow clm pen2 reserve un ob p =
     (if reserve then
        let candidates = sort_observed (filter (\<lambda>c. penalty c > 0) un @ filter (\<lambda>c. penalty c > 0) ob);
            (probe, p) = claim_loop clm candidates p;
            (un, ob) = (if probe = None \<and> candidates \<noteq> [] then (refresh pen2 un, refresh pen2 ob) else (un, ob));
            free = has_unpenalized (un @ ob);
            (un, ob) = (case probe of
                Some s \<Rightarrow> (filterRouteCandidateAddress (Address (starget s)) un,
                           filterRouteCandidateAddress (Address (starget s)) ob)
              | None \<Rightarrow> (un, ob))
        in if free then (probe, filterUnpenalizedRouteCandidates un, filterUnpenalizedRouteCandidates ob, p)
           else (probe, un, ob, p)
      else if has_unpenalized (un @ ob)
      then (None, filterUnpenalizedRouteCandidates un, filterUnpenalizedRouteCandidates ob, p)
      else (None, un, ob, p))"

definition plain :: "routeCandidate \<Rightarrow> routeTargetSelection" where
  "plain c = \<lparr>starget = ctarget c, protocolProbe = 0, periodicExplorer = False\<rparr>"

text \<open>The ordered selection: the canary, the best known route when unknown ones follow, the unknown
  routes, the other known routes, cut off at the limit.\<close>

definition best_known :: "routeCandidate list \<Rightarrow> nat option" where
  "best_known ob = find (\<lambda>i. chasEWMA (ob ! i)) [0..<length ob]"

definition assemble ::
  "routeTargetSelection option \<Rightarrow> routeCandidate list \<Rightarrow> routeCandidate list \<Rightarrow> nat \<Rightarrow> routeTargetSelection list" where
  "assemble probe un ob limit =
     (let available = length un + length ob + (if probe = None then 0 else 1);
          limit = min limit available;
          first = (case probe of Some s \<Rightarrow> [s] | None \<Rightarrow> []);
          best = best_known ob;
          first = (case best of
              Some i \<Rightarrow> if length first < limit \<and> un \<noteq> [] then first @ [plain (ob ! i)] else first
            | None \<Rightarrow> first);
          rest = map plain un @ map (\<lambda>i. plain (ob ! i))
            (filter (\<lambda>i. \<not> (best = Some i \<and> un \<noteq> [])) [0..<length ob])
      in first @ take (limit - length first) rest)"

text \<open>The stalest route due for exploration takes the second place.\<close>

definition explorer_due :: "gotime \<Rightarrow> string \<Rightarrow> routeCandidate \<Rightarrow> bool" where
  "explorer_due now best c \<longleftrightarrow> Address (ctarget c) \<noteq> best \<and> \<not> ccircuitOpen c
     \<and> \<not> (clastAttempt c \<noteq> 0 \<and> time_sub now (clastAttempt c) < routeExplorationAfter)"

fun explorer_loop :: "routeCandidate list \<Rightarrow> routeCandidate option \<Rightarrow> routeCandidate option" where
  "explorer_loop [] e = e"
| "explorer_loop (c # cs) e = explorer_loop cs (case e of
       None \<Rightarrow> Some c
     | Some b \<Rightarrow> if clastAttempt c < clastAttempt b \<or> clastAttempt c = clastAttempt b \<and> index c < index b
         then Some c else Some b)"

definition place_explorer :: "Target \<Rightarrow> routeTargetSelection list \<Rightarrow> routeTargetSelection list" where
  "place_explorer t selected =
     (case find (\<lambda>i. Address (starget (selected ! i)) = Address t) [1..<length selected] of
        Some i \<Rightarrow> if i = 1 then selected
          else selected[1 := (selected ! i)\<lparr>periodicExplorer := True\<rparr>, i := selected ! 1]
      | None \<Rightarrow> selected[1 := \<lparr>starget = t, protocolProbe = 0, periodicExplorer = True\<rparr>])"

definition explore ::
  "gotime \<Rightarrow> routeTargetSelection option \<Rightarrow> routeCandidate list \<Rightarrow> routeCandidate list \<Rightarrow>
     routeTargetSelection list \<Rightarrow> routeTargetSelection list" where
  "explore now probe un ob selected =
     (if probe = None \<and> un = [] \<and> length selected > 1 then
        case explorer_loop (filter (explorer_due now (Address (starget (selected ! 0)))) ob) None of
          None \<Rightarrow> selected
        | Some c \<Rightarrow> place_explorer (ctarget c) selected
      else selected)"

definition selectTargetSelections ::
  "'p claimer \<Rightarrow> (Target \<Rightarrow> duration) \<Rightarrow> (Target \<Rightarrow> duration) \<Rightarrow> Rule \<Rightarrow> int \<Rightarrow> gotime \<Rightarrow> string set \<Rightarrow> bool \<Rightarrow>
     routeHealthRegistry \<Rightarrow> 'p \<Rightarrow> routeTargetSelection list \<times> 'p" where
  "selectTargetSelections clm pen pen2 rule limit now excluded reserve r p =
     (if limit \<le> 0 \<or> Targets rule = [] then ([], p)
      else
        let ruleID = boostRuleKey rule;
            (un, ob) = collect (\<lambda>a. states r \<lparr>krule = ruleID, kaddr = a\<rparr>) pen excluded 0 [] (Targets rule);
            (probe, un, ob, p) = narrow clm pen2 reserve un ob p;
            ob = sort_observed ob;
            un = sort_unobserved un
        in (explore now probe un ob (assemble probe un ob (nat limit)), p))"

definition protocolPenalty :: "(Rule \<Rightarrow> Target \<Rightarrow> gotime \<Rightarrow> duration) \<Rightarrow> Rule \<Rightarrow> Target \<Rightarrow> gotime \<Rightarrow> duration" where
  "protocolPenalty source rule tgt now = (let pen = source rule tgt now in if pen < 0 then 0 else pen)"

definition selectTargetsExcluding ::
  "(Target \<Rightarrow> duration) \<Rightarrow> Rule \<Rightarrow> int \<Rightarrow> gotime \<Rightarrow> string set \<Rightarrow> routeHealthRegistry \<Rightarrow> Target list" where
  "selectTargetsExcluding pen rule limit now excluded r =
     map starget (fst (selectTargetSelections (\<lambda>t u. ((0, False), u)) pen pen rule limit now excluded False r ()))"

section \<open>Histories of a registry\<close>

datatype route_op =
    RBegin Rule string gotime
  | RObserve routeAttempt duration "goerr option" gotime
  | RFail routeAttempt "goerr option" gotime
  | RSuccess routeAttempt
  | RClear "Rule option list"

fun route_step :: "route_op \<Rightarrow> routeHealthRegistry \<Rightarrow> routeHealthRegistry" where
  "route_step (RBegin rule addr now) r = snd (routeBegin rule addr now r)"
| "route_step (RObserve a l e now) r = routeObserve a l e now r"
| "route_step (RFail a e now) r = routeReportFailure a e now r"
| "route_step (RSuccess a) r = routeReportSuccess a r"
| "route_step (RClear rs) r = clear_registry rs r"

definition route_run :: "route_op list \<Rightarrow> routeHealthRegistry \<Rightarrow> routeHealthRegistry" where
  "route_run = fold route_step"

text \<open>The invariant of a circuit.\<close>

definition circuit_ok :: "routeHealthState \<Rightarrow> bool" where
  "circuit_ok st \<longleftrightarrow>
     (halfOpen st \<longrightarrow> circuitOpen st)
     \<and> (\<not> halfOpen st \<longrightarrow> halfOpenAttempt st = 0)
     \<and> (circuitOpen st \<longrightarrow> routeInitialCooldown \<le> cooldown st)
     \<and> (\<not> circuitOpen st \<longrightarrow> consecutiveFailures st < routeFailureThreshold \<and> openUntil st = 0)
     \<and> 0 \<le> cooldown st \<and> cooldown st \<le> routeMaximumCooldown
     \<and> 0 \<le> consecutiveFailures st \<and> 0 \<le> relayFailures st \<and> 0 \<le> ewma st"

definition registry_ok :: "routeHealthRegistry \<Rightarrow> bool" where
  "registry_ok r \<longleftrightarrow> (\<forall>k st. states r k = Some st \<longrightarrow> circuit_ok st)"

lemma putState_sel [simp]:
  "states (putState k st r) = (states r)(k \<mapsto> st)" "claimed (putState k st r) = claimed r"
  "nextAttempt (putState k st r) = nextAttempt r"
  by (simp_all add: putState_def)

lemma registry_ok_put: "registry_ok r \<Longrightarrow> circuit_ok st \<Longrightarrow> registry_ok (putState k st r)"
  by (simp add: registry_ok_def)

lemma registry_ok_states: "states r' = states r \<Longrightarrow> registry_ok r' = registry_ok r"
  by (simp add: registry_ok_def)

lemma registry_ok_get: "registry_ok r \<Longrightarrow> states r k = Some st \<Longrightarrow> circuit_ok st"
  by (simp add: registry_ok_def)

lemma nextRouteCooldown_bounds:
  "routeInitialCooldown \<le> nextRouteCooldown c \<and> nextRouteCooldown c \<le> routeMaximumCooldown"
  by (simp add: nextRouteCooldown_def route_consts Let_def)

lemma claim_states [simp]: "states (snd (claim g k r)) = states r"
  by (simp add: claim_def)

lemma circuit_ok_new: "circuit_ok (newRouteHealthState rule)"
  by (simp add: circuit_ok_def newRouteHealthState_def route_consts)

lemma circuit_ok_release: "circuit_ok st \<Longrightarrow> circuit_ok (release_probe st)"
  by (simp add: circuit_ok_def release_probe_def)

lemma circuit_ok_trip: "circuit_ok (st\<lparr>circuitOpen := True, cooldown := routeInitialCooldown\<rparr>) \<Longrightarrow> circuit_ok (trip now st)"
  using nextRouteCooldown_bounds[of "cooldown st"]
  by (simp add: circuit_ok_def trip_def Let_def route_consts)

lemma circuit_ok_reachable: "circuit_ok st \<Longrightarrow> circuit_ok (observe_reachable i p now st)"
  by (simp add: circuit_ok_def observe_reachable_def release_probe_def Let_def route_consts)

lemma circuit_ok_success: "circuit_ok st \<Longrightarrow> circuit_ok (observe_success i p l now st)"
  by (simp add: circuit_ok_def observe_success_def release_probe_def Let_def route_consts pos_imp_zdiv_nonneg_iff)

lemma circuit_ok_failure:
  assumes "circuit_ok st" "circuitOpen st \<longrightarrow> halfOpen st"
  shows "circuit_ok (observe_failure now st)"
proof -
  let ?st = "st\<lparr>consecutiveFailures := consecutiveFailures st + 1\<rparr>"
  have "circuit_ok (trip now (release_probe ?st))" if "circuitOpen st"
    using assms(1) that by (intro circuit_ok_trip) (simp add: circuit_ok_def release_probe_def route_consts)
  moreover have "circuit_ok (trip now ?st)" if "\<not> circuitOpen st"
    using assms(1) that by (intro circuit_ok_trip) (simp add: circuit_ok_def route_consts)
  moreover have "circuit_ok ?st" if "\<not> circuitOpen st" "\<not> consecutiveFailures ?st \<ge> routeFailureThreshold"
    using assms(1) that by (simp add: circuit_ok_def)
  ultimately show ?thesis by (simp add: observe_failure_def Let_def)
qed

lemma registry_ok_nextAttempt [simp]: "registry_ok (r\<lparr>nextAttempt := n\<rparr>) = registry_ok r"
  by (simp add: registry_ok_def)

lemma circuit_ok_attempt:
  "circuit_ok st \<Longrightarrow> circuit_ok (st\<lparr>lastAttempt := t\<rparr>)"
  "circuit_ok st \<Longrightarrow> circuitOpen st \<Longrightarrow> circuit_ok (st\<lparr>lastAttempt := t, halfOpen := True, halfOpenAttempt := i\<rparr>)"
  by (simp_all add: circuit_ok_def)

lemma registry_ok_begin:
  assumes "registry_ok r" shows "registry_ok (snd (routeBegin rule addr now r))"
proof (cases "routeKey rule addr")
  case (Some key)
  show ?thesis
  proof (cases "states r key")
    case None
    have "circuit_ok (newRouteHealthState rule)" "\<not> circuitOpen (newRouteHealthState rule)"
      using circuit_ok_new by (auto simp: newRouteHealthState_def)
    then show ?thesis using assms
      by (simp add: routeBegin_def Some None Let_def registry_ok_put circuit_ok_attempt)
  next
    case (Some st)
    then show ?thesis using assms registry_ok_get[OF assms Some] \<open>routeKey rule addr = Some key\<close>
      by (simp add: routeBegin_def Let_def registry_ok_put circuit_ok_attempt)
  qed
qed (simp add: routeBegin_def assms)

lemma registry_ok_observe: "registry_ok r \<Longrightarrow> registry_ok (routeObserve a l e now r)"
proof (cases "states r (akey a)")
  case (Some st)
  assume ok: "registry_ok r"
  have st: "circuit_ok st" using ok Some by (rule registry_ok_get)
  then have st': "circuit_ok (st\<lparr>observed := True\<rparr>)" by (simp add: circuit_ok_def)
  have claim: "registry_ok (snd (case Option.bind e routeObservationFailureGroup of
      Some g \<Rightarrow> claim g (akey a) r | None \<Rightarrow> (True, r)))"
    using ok by (auto split: option.split simp: registry_ok_states[of "snd (claim _ _ _)" r])
  show ?thesis unfolding routeObserve_def Some option.case Let_def split_beta
    using ok claim st st'
    by (auto intro!: registry_ok_put circuit_ok_release circuit_ok_reachable circuit_ok_success circuit_ok_failure
        split: option.split)
qed (simp add: routeObserve_def)

lemma registry_ok_fail: "registry_ok r \<Longrightarrow> registry_ok (routeReportFailure a e now r)"
proof (cases "states r (akey a)")
  case (Some st)
  assume ok: "registry_ok r"
  have st: "circuit_ok st" using ok Some by (rule registry_ok_get)
  let ?st = "st\<lparr>observed := True, relayFailures := relayFailures st + 1\<rparr>"
  have "circuit_ok ?st" using st by (simp add: circuit_ok_def)
  moreover have "circuit_ok (trip now ?st)" if "\<not> circuitOpen st"
    using st that by (intro circuit_ok_trip) (simp add: circuit_ok_def route_consts)
  ultimately show ?thesis using ok
    by (auto simp: routeReportFailure_def Some Let_def split: option.split intro!: registry_ok_put)
qed (auto simp: routeReportFailure_def split: option.split)

lemma registry_ok_success: "registry_ok r \<Longrightarrow> registry_ok (routeReportSuccess a r)"
proof (cases "states r (akey a)")
  case (Some st)
  assume ok: "registry_ok r"
  have "circuit_ok (st\<lparr>observed := True, consecutiveFailures := 0, relayFailures := 0, cooldown := 0\<rparr>)" if "\<not> circuitOpen st"
    using registry_ok_get[OF ok Some] that by (simp add: circuit_ok_def route_consts)
  then show ?thesis using ok by (auto simp: routeReportSuccess_def Some intro!: registry_ok_put)
qed (simp add: routeReportSuccess_def)

lemma registry_ok_clear: "registry_ok r \<Longrightarrow> registry_ok (clear_registry rs r)"
  by (auto simp: clear_registry_def registry_ok_def Let_def split: if_splits)

lemma registry_ok_step: "registry_ok r \<Longrightarrow> registry_ok (route_step op r)"
  by (cases op) (simp_all add: registry_ok_begin registry_ok_observe registry_ok_fail registry_ok_success
      registry_ok_clear)

interpretation rh: invariant_system "\<lambda>r. r = newRouteHealthRegistry" "\<lambda>r r'. \<exists>op. r' = route_step op r" registry_ok
  by unfold_locales (auto simp: registry_ok_step, simp add: registry_ok_def newRouteHealthRegistry_def)

lemma route_run_reach: "(\<lambda>r r'. \<exists>op. r' = route_step op r)\<^sup>*\<^sup>* r (route_run ops r)"
proof (induction ops arbitrary: r)
  case (Cons op ops)
  then show ?case by (auto simp: route_run_def intro: converse_rtranclp_into_rtranclp)
qed (simp add: route_run_def)

lemma route_run_ok: "registry_ok (route_run ops newRouteHealthRegistry)"
  using rh.reachable_inv[OF refl route_run_reach] .

text \<open>C29: in every history every circuit is coherent: a half-open probe exists only while the circuit
  is open, an open circuit cools down for between five and sixty seconds, a closed one has fewer
  than three consecutive dial failures and no cooling time, and no counter is negative.\<close>

theorem circuit_invariant:
  assumes "states (route_run ops newRouteHealthRegistry) k = Some st"
  shows "(halfOpen st \<longrightarrow> circuitOpen st)
     \<and> (circuitOpen st \<longrightarrow> routeInitialCooldown \<le> cooldown st)
     \<and> cooldown st \<le> routeMaximumCooldown
     \<and> (\<not> circuitOpen st \<longrightarrow> consecutiveFailures st < routeFailureThreshold \<and> openUntil st = 0)
     \<and> 0 \<le> consecutiveFailures st \<and> 0 \<le> relayFailures st \<and> 0 \<le> ewma st"
  using registry_ok_get[OF route_run_ok assms] by (simp add: circuit_ok_def)

section \<open>Opening and closing\<close>

text \<open>The part of a state a decision rests on.\<close>

definition circuit :: "routeHealthState \<Rightarrow> bool \<times> int \<times> int \<times> gotime \<times> duration" where
  "circuit st = (circuitOpen st, consecutiveFailures st, relayFailures st, openUntil st, cooldown st)"

lemma circuit_release [simp]: "circuit (release_probe st) = circuit st"
  by (simp add: circuit_def release_probe_def)

lemma begin_circuit:
  assumes "states r k = Some st" "states (snd (routeBegin rule addr now r)) k = Some st'"
  shows "circuit st' = circuit st"
  using assms by (auto simp: routeBegin_def Let_def circuit_def split: option.splits if_splits)

text \<open>What an observation can do to its route.\<close>

definition is_probe :: "routeAttempt \<Rightarrow> routeHealthState \<Rightarrow> bool" where
  "is_probe a st \<longleftrightarrow> circuitOpen st \<and> halfOpen st \<and> halfOpenAttempt st = aid a"

lemma observe_other: "k \<noteq> akey a \<Longrightarrow> states (routeObserve a l e now r) k = states r k"
  by (auto simp: routeObserve_def Let_def split_beta split: option.splits)

lemma observe_cases:
  assumes "states r (akey a) = Some st" "states (routeObserve a l e now r) (akey a) = Some st'"
  obtains (neutral) "circuit st' = circuit st"
  | (reachable) err where "valid a" "aid a \<ge> minValidAttempt st" "circuitOpen st \<longrightarrow> is_probe a st" "e = Some err"
      "err_is err ErrRouteReachable"
      "st' = observe_reachable (aid a) (is_probe a st) now (st\<lparr>observed := True\<rparr>)"
  | (success) "valid a" "aid a \<ge> minValidAttempt st" "circuitOpen st \<longrightarrow> is_probe a st" "e = None"
      "st' = observe_success (aid a) (is_probe a st) l now (st\<lparr>observed := True\<rparr>)"
  | (failure) err where "valid a" "aid a \<ge> minValidAttempt st" "circuitOpen st \<longrightarrow> is_probe a st" "e = Some err"
      "\<not> err_is err (ErrCtx Canceled)" "\<not> isDialBulkheadError err" "\<not> err_is err ErrRouteReachable"
      "st' = observe_failure now (st\<lparr>observed := True\<rparr>)"
proof -
  have "circuit st' = circuit st
    \<or> (valid a \<and> aid a \<ge> minValidAttempt st \<and> (circuitOpen st \<longrightarrow> is_probe a st)
       \<and> ((\<exists>err. e = Some err \<and> err_is err ErrRouteReachable
             \<and> st' = observe_reachable (aid a) (is_probe a st) now (st\<lparr>observed := True\<rparr>))
          \<or> (e = None \<and> st' = observe_success (aid a) (is_probe a st) l now (st\<lparr>observed := True\<rparr>))
          \<or> (\<exists>err. e = Some err \<and> \<not> err_is err (ErrCtx Canceled) \<and> \<not> isDialBulkheadError err
               \<and> \<not> err_is err ErrRouteReachable \<and> st' = observe_failure now (st\<lparr>observed := True\<rparr>))))"
    using assms(2) unfolding routeObserve_def assms(1) option.case Let_def is_probe_def[symmetric] split_beta
    by (insert assms(1), cases e) (auto simp: not_less split: if_splits option.splits)
  then show ?thesis using neutral reachable success failure by blast
qed

lemma observe_failure_open: "circuitOpen st \<Longrightarrow> circuitOpen (observe_failure now st)"
  by (simp add: observe_failure_def trip_def Let_def)

lemma fail_success_open:
  "states r k = Some st \<Longrightarrow> circuitOpen st \<Longrightarrow> states (routeReportFailure a e now r) k = Some st"
  "states r k = Some st \<Longrightarrow> circuitOpen st \<Longrightarrow> states (routeReportSuccess a r) k = Some st"
  by (auto simp: routeReportFailure_def routeReportSuccess_def Let_def split: option.splits)

text \<open>C30: only its own probe closes an open circuit. The single operation that turns an open circuit
  into a closed one is the observation of the attempt that owns the half-open probe, with success or
  with proof that the upstream answered. Results of attempts admitted before it opened, relay
  reports and new attempts cannot.\<close>

theorem open_circuit_closes_only_by_probe:
  assumes st: "states r k = Some st" "circuitOpen st"
    and st': "states (route_step op r) k = Some st'" "\<not> circuitOpen st'"
  shows "\<exists>a l e now. op = RObserve a l e now \<and> valid a \<and> akey a = k \<and> halfOpen st \<and> halfOpenAttempt st = aid a
     \<and> (e = None \<or> (\<exists>err. e = Some err \<and> err_is err ErrRouteReachable))"
proof (cases op)
  case (RBegin rule addr now)
  then show ?thesis using begin_circuit[OF st(1), of rule addr now st'] st st' by (simp add: circuit_def)
next
  case (RObserve a l e now)
  have k: "k = akey a" using observe_other[of k a l e now r] st st' RObserve by (cases "k = akey a") auto
  have obs: "states (routeObserve a l e now r) (akey a) = Some st'" using st' RObserve k by simp
  show ?thesis
  proof (cases rule: observe_cases[OF st(1)[unfolded k] obs])
    case 1
    then show ?thesis using st st' by (simp add: circuit_def)
  next
    case (2 err)
    then show ?thesis using st(2) RObserve k by (auto simp: is_probe_def)
  next
    case 3
    then show ?thesis using st(2) RObserve k by (auto simp: is_probe_def)
  next
    case (4 err)
    then show ?thesis using st(2) st'(2) observe_failure_open[of "st\<lparr>observed := True\<rparr>" now] by simp
  qed
next
  case (RClear rs)
  then show ?thesis using st st' by (auto simp: clear_registry_def Let_def split: if_splits)
qed (use fail_success_open[OF st] st' st in auto)

text \<open>a circuit opens only on the third failure. The operation that opens a closed circuit is a
  failed observation of a current attempt when two consecutive dial failures stand, or a relay
  failure of one when two relay failures stand; cancelled and locally rejected attempts never
  count. The circuit then cools for the doubled cooldown, between five and sixty seconds.\<close>

theorem circuit_opens_on_third_failure:
  assumes st: "states r k = Some st" "\<not> circuitOpen st"
    and st': "states (route_step op r) k = Some st'" "circuitOpen st'"
  shows "cooldown st' = nextRouteCooldown (cooldown st)
     \<and> ((\<exists>a l err now. op = RObserve a l (Some err) now \<and> akey a = k \<and> aid a \<ge> minValidAttempt st
           \<and> \<not> err_is err (ErrCtx Canceled) \<and> \<not> isDialBulkheadError err \<and> consecutiveFailures st \<ge> 2
           \<and> openUntil st' = now + cooldown st')
        \<or> (\<exists>a err now. op = RFail a (Some err) now \<and> akey a = k \<and> aid a \<ge> minValidAttempt st
           \<and> \<not> err_is err (ErrCtx Canceled) \<and> relayFailures st \<ge> 2 \<and> openUntil st' = now + cooldown st'))"
proof (cases op)
  case (RBegin rule addr now)
  then show ?thesis using begin_circuit[OF st(1), of rule addr now st'] st st' by (simp add: circuit_def)
next
  case (RObserve a l e now)
  have k: "k = akey a" using observe_other[of k a l e now r] st st' RObserve by (cases "k = akey a") auto
  have obs: "states (routeObserve a l e now r) (akey a) = Some st'" using st' RObserve k by simp
  show ?thesis
  proof (cases rule: observe_cases[OF st(1)[unfolded k] obs])
    case 1
    then show ?thesis using st st' by (simp add: circuit_def)
  next
    case (2 err)
    then show ?thesis using st' by (simp add: observe_reachable_def release_probe_def Let_def split: if_splits)
  next
    case 3
    then show ?thesis using st' by (simp add: observe_success_def release_probe_def Let_def split: if_splits)
  next
    case (4 err)
    then show ?thesis using st(2) st'(2) RObserve k
      by (auto simp: observe_failure_def trip_def Let_def route_consts split: if_splits)
  qed
next
  case (RFail a e now)
  then show ?thesis using st st'
    by (auto simp: routeReportFailure_def trip_def Let_def route_consts not_less split: option.splits if_splits)
next
  case (RSuccess a)
  then show ?thesis using st st'
    by (auto simp: routeReportSuccess_def split: option.splits if_splits)
next
  case (RClear rs)
  then show ?thesis using st st' by (auto simp: clear_registry_def Let_def split: if_splits)
qed

text \<open>A route that fails three times, then is probed.\<close>

definition wit_key_a :: routeHealthKey where
  "wit_key_a = \<lparr>krule = boostRuleKey wit_rule, kaddr = ''a''\<rparr>"

definition wit_attempt :: "u64 \<Rightarrow> routeAttempt" where
  "wit_attempt i = \<lparr>akey = wit_key_a, aid = i, valid = True\<rparr>"

definition wit_two_failures :: "route_op list" where
  "wit_two_failures = [RBegin wit_rule ''a'' second, RObserve (wit_attempt 1) 0 (Some (ErrText ''x'')) second,
     RBegin wit_rule ''a'' second, RObserve (wit_attempt 2) 0 (Some (ErrText ''x'')) second]"

definition wit_third :: route_op where
  "wit_third = RObserve (wit_attempt 3) 0 (Some (ErrText ''x'')) (2 * second)"

definition wit_probe_ops :: "route_op list" where
  "wit_probe_ops = wit_two_failures @ [RBegin wit_rule ''a'' second, wit_third, RBegin wit_rule ''a'' (10 * second)]"

definition circuit_of :: "routeHealthRegistry \<Rightarrow> routeHealthKey \<Rightarrow> (bool \<times> bool) option" where
  "circuit_of r k = map_option (\<lambda>st. (circuitOpen st, halfOpen st)) (states r k)"

lemma circuit_of_SomeD:
  "circuit_of r k = Some (p, q) \<Longrightarrow> \<exists>st. states r k = Some st \<and> circuitOpen st = p \<and> halfOpen st = q"
  by (auto simp: circuit_of_def)

theorem circuit_invariant_witness:
  "\<exists>st. states (route_run wit_probe_ops newRouteHealthRegistry) wit_key_a = Some st \<and> halfOpen st \<and> circuitOpen st"
proof -
  have "circuit_of (route_run wit_probe_ops newRouteHealthRegistry) wit_key_a = Some (True, True)" by code_simp
  then obtain st where "states (route_run wit_probe_ops newRouteHealthRegistry) wit_key_a = Some st" "halfOpen st"
    using circuit_of_SomeD by blast
  then show ?thesis using circuit_invariant by blast
qed

theorem open_circuit_closes_only_by_probe_witness:
  "\<exists>st. states (route_run wit_probe_ops newRouteHealthRegistry) wit_key_a = Some st \<and> halfOpenAttempt st = 4"
proof -
  let ?r = "route_run wit_probe_ops newRouteHealthRegistry" and ?op = "RObserve (wit_attempt 4) 0 None (11 * second)"
  have "circuit_of ?r wit_key_a = Some (True, True)" by code_simp
  then obtain st where st: "states ?r wit_key_a = Some st" "circuitOpen st" using circuit_of_SomeD by blast
  have "circuit_of (route_step ?op ?r) wit_key_a = Some (False, False)" by code_simp
  then obtain st' where st': "states (route_step ?op ?r) wit_key_a = Some st'" "\<not> circuitOpen st'"
    using circuit_of_SomeD by blast
  show ?thesis using open_circuit_closes_only_by_probe[OF st st'] st by (auto simp: wit_attempt_def)
qed

theorem circuit_opens_on_third_failure_witness:
  "\<exists>st st'. states (route_run wit_two_failures newRouteHealthRegistry) wit_key_a = Some st
     \<and> states (route_step wit_third (route_run wit_two_failures newRouteHealthRegistry)) wit_key_a = Some st'
     \<and> cooldown st' = nextRouteCooldown (cooldown st)"
proof -
  let ?r = "route_run wit_two_failures newRouteHealthRegistry"
  have "circuit_of ?r wit_key_a = Some (False, False)" by code_simp
  then obtain st where st: "states ?r wit_key_a = Some st" "\<not> circuitOpen st" using circuit_of_SomeD by blast
  have "circuit_of (route_step wit_third ?r) wit_key_a = Some (True, False)" by code_simp
  then obtain st' where st': "states (route_step wit_third ?r) wit_key_a = Some st'" "circuitOpen st'"
    using circuit_of_SomeD by blast
  show ?thesis using circuit_opens_on_third_failure[OF st st'] st st' by blast
qed

section \<open>Half-open exclusivity and shared failures\<close>

text \<open>An open circuit admits exactly one attempt. While it is open, an attempt is admitted only
  after the cooldown and when no probe is running; it then owns the probe, and every further
  attempt, at any time, is refused and changes nothing until that probe ends.\<close>

lemma half_open_exclusive:
  assumes k: "routeKey rule addr = Some k" and st: "states r k = Some st" "circuitOpen st"
    and adm: "routeBegin rule addr now r = (Inr a, r')"
  shows "openUntil st \<le> now \<and> \<not> halfOpen st
     \<and> (\<exists>st'. states r' k = Some st' \<and> circuitOpen st' \<and> halfOpen st' \<and> halfOpenAttempt st' = aid a)
     \<and> routeBegin rule addr now' r' = (Inl ErrCircuitOpen, r')"
  using assms by (auto simp: routeBegin_def Let_def split: if_splits)

lemma half_open_exclusive_witness:
  "fst (routeBegin wit_rule ''a'' (12 * second) (route_run wit_probe_ops newRouteHealthRegistry)) = Inl ErrCircuitOpen"
proof -
  let ?r = "route_run (wit_two_failures @ [RBegin wit_rule ''a'' second, wit_third]) newRouteHealthRegistry"
  have "circuit_of ?r wit_key_a = Some (True, False)" by code_simp
  then obtain st where st: "states ?r wit_key_a = Some st" "circuitOpen st" using circuit_of_SomeD by blast
  have k: "routeKey wit_rule ''a'' = Some wit_key_a" by (simp add: routeKey_def wit_key_a_def)
  have "case fst (routeBegin wit_rule ''a'' (10 * second) ?r) of Inl _ \<Rightarrow> False | Inr _ \<Rightarrow> True" by code_simp
  then obtain a where "fst (routeBegin wit_rule ''a'' (10 * second) ?r) = Inr a" by (auto split: sum.splits)
  then have a: "routeBegin wit_rule ''a'' (10 * second) ?r = (Inr a, snd (routeBegin wit_rule ''a'' (10 * second) ?r))"
    by (metis prod.collapse)
  have "route_run wit_probe_ops newRouteHealthRegistry = snd (routeBegin wit_rule ''a'' (10 * second) ?r)"
    by (simp add: wit_probe_ops_def route_run_def)
  then show ?thesis using half_open_exclusive[OF k st a, of "12 * second"] by simp
qed

text \<open>a physical failure shared by many logical attempts counts once. Once a failure group has
  been counted for a route, further results of the group leave its circuit and its failure counts
  as they were (a probe it owned is given back); and a failure that did count leaves its group
  marked.\<close>

theorem shared_failure_counted_once:
  assumes st: "states r (akey a) = Some st" and g: "routeObservationFailureGroup err = Some g"
    and st': "states (routeObserve a l (Some err) now r) (akey a) = Some st'"
  shows "((g, akey a) \<in> set (claimed r) \<longrightarrow> circuit st' = circuit st)
     \<and> (circuit st' \<noteq> circuit st \<longrightarrow> (g, akey a) \<in> set (claimed (routeObserve a l (Some err) now r)))"
proof -
  note h = st'[unfolded routeObserve_def st option.case Let_def split_beta]
  show ?thesis unfolding routeObserve_def st option.case Let_def split_beta
    using h st by (auto simp: g claim_def split: if_splits)
qed

definition wit_shared :: goerr where
  "wit_shared = ErrRouteFailure (ErrText ''h2 setup'') (Some 7)"

theorem shared_failure_counted_once_witness:
  "\<exists>st st'. states (route_run [RBegin wit_rule ''a'' second, RBegin wit_rule ''a'' second,
        RObserve (wit_attempt 1) 0 (Some wit_shared) second] newRouteHealthRegistry) wit_key_a = Some st
     \<and> states (routeObserve (wit_attempt 2) 0 (Some wit_shared) second (route_run [RBegin wit_rule ''a'' second,
        RBegin wit_rule ''a'' second, RObserve (wit_attempt 1) 0 (Some wit_shared) second] newRouteHealthRegistry)) wit_key_a = Some st'
     \<and> circuit st' = circuit st"
proof -
  let ?r = "route_run [RBegin wit_rule ''a'' second, RBegin wit_rule ''a'' second,
        RObserve (wit_attempt 1) 0 (Some wit_shared) second] newRouteHealthRegistry"
  have "circuit_of ?r wit_key_a = Some (False, False)" by code_simp
  then obtain st where "states ?r wit_key_a = Some st" using circuit_of_SomeD by blast
  then have st: "states ?r (akey (wit_attempt 2)) = Some st" by (simp add: wit_attempt_def)
  have "circuit_of (routeObserve (wit_attempt 2) 0 (Some wit_shared) second ?r) wit_key_a = Some (False, False)" by code_simp
  then obtain st' where "states (routeObserve (wit_attempt 2) 0 (Some wit_shared) second ?r) wit_key_a = Some st'"
    using circuit_of_SomeD by blast
  then have st': "states (routeObserve (wit_attempt 2) 0 (Some wit_shared) second ?r) (akey (wit_attempt 2)) = Some st'"
    by (simp add: wit_attempt_def)
  have "claimed ?r = [(7, wit_key_a)]" by code_simp
  then have "(7, akey (wit_attempt 2)) \<in> set (claimed ?r)" by (simp add: wit_attempt_def)
  then show ?thesis
    using shared_failure_counted_once[OF st _ st', of 7] \<open>states ?r wit_key_a = Some st\<close>
      \<open>states (routeObserve (wit_attempt 2) 0 (Some wit_shared) second ?r) wit_key_a = Some st'\<close>
    by (simp add: wit_shared_def)
qed

section \<open>Keys and leases\<close>

lemma split_on_target_keys:
  assumes "CHR 0x00 \<notin> set m" "\<forall>a\<in>set as. CHR 0x00 \<notin> set a"
  shows "split_on (CHR 0x00) (m @ concat (map (\<lambda>a. CHR 0x00 # a) as)) = m # as"
  using assms
proof (induction as arbitrary: m)
  case Nil
  then show ?case by (simp add: split_on_no_sep)
next
  case (Cons a as)
  then show ?case by (simp add: split_on_append_sep)
qed

definition plain_rule :: "Rule \<Rightarrow> bool" where
  "plain_rule rule \<longleftrightarrow> CHR 0x00 \<notin> set (Name rule) \<and> CHR 0x00 \<notin> set (Listen rule) \<and> CHR 0x00 \<notin> set (Mode rule)
     \<and> (\<forall>t\<in>set (Targets rule). \<exists>u. t = Some u \<and> CHR 0x00 \<notin> set (Address u))"

lemma boostRuleKey_split:
  assumes "plain_rule rule"
  shows "split_on (CHR 0x00) (boostRuleKey rule) =
     Name rule # Listen rule # Mode rule # map (\<lambda>t. Address (the t)) (Targets rule)"
proof -
  have "concat (map target_key (Targets rule)) = concat (map (\<lambda>a. CHR 0x00 # a) (map (\<lambda>t. Address (the t)) (Targets rule)))"
    using assms by (fastforce simp: plain_rule_def target_key_def intro!: arg_cong[where f = concat])
  moreover have "\<forall>a\<in>set (map (\<lambda>t. Address (the t)) (Targets rule)). CHR 0x00 \<notin> set a"
    using assms by (auto simp: plain_rule_def)
  ultimately have "split_on (CHR 0x00) (Mode rule @ concat (map target_key (Targets rule)))
      = Mode rule # map (\<lambda>t. Address (the t)) (Targets rule)"
    using split_on_target_keys[of "Mode rule" "map (\<lambda>t. Address (the t)) (Targets rule)"] assms
    unfolding plain_rule_def by presburger
  then show ?thesis using assms by (simp add: boostRuleKey_def plain_rule_def split_on_append_sep)
qed

text \<open>rules never share state by accident. The key of a rule in the circuit, lease and winner
  tables determines its name, listener, mode and target addresses, as long as none of them contains
  a NUL byte.\<close>

theorem boostRuleKey_injective:
  assumes "plain_rule a" "plain_rule b" "boostRuleKey a = boostRuleKey b"
  shows "Name a = Name b \<and> Listen a = Listen b \<and> Mode a = Mode b
     \<and> map (\<lambda>t. Address (the t)) (Targets a) = map (\<lambda>t. Address (the t)) (Targets b)"
  using boostRuleKey_split[OF assms(1)] boostRuleKey_split[OF assms(2)] assms(3) by simp

theorem boostRuleKey_injective_witness:
  "boostRuleKey wit_rule \<noteq> boostRuleKey (wit_rule\<lparr>Name := ''s''\<rparr>)"
proof
  assume eq: "boostRuleKey wit_rule = boostRuleKey (wit_rule\<lparr>Name := ''s''\<rparr>)"
  have "plain_rule wit_rule" "plain_rule (wit_rule\<lparr>Name := ''s''\<rparr>)"
    by (simp_all add: plain_rule_def wit_rule_def wit_target_def ModeNormal_def)
  from boostRuleKey_injective[OF this eq] show False by (simp add: wit_rule_def)
qed

lemma recovery_loop_ready:
  assumes "recovery_loop look excluded now i ts best = Some (a, j, st)"
    and "\<And>a j st. best = Some (a, j, st) \<Longrightarrow> recovery_ready now st \<and> look a = Some st \<and> a \<notin> excluded"
  shows "recovery_ready now st \<and> look a = Some st \<and> a \<notin> excluded"
  using assms
proof (induction look excluded now i ts best rule: recovery_loop.induct)
  case (2 look excluded now i t ts best)
  show ?case
  proof (rule "2.IH"[OF "2.prems"(1)[unfolded recovery_loop.simps]])
    fix a j st
    assume "(case t of None \<Rightarrow> best
     | Some t \<Rightarrow> if Address t = '''' \<or> Address t \<in> excluded then best
         else case look (Address t) of None \<Rightarrow> best
           | Some st \<Rightarrow> if \<not> recovery_ready now st then best
             else case best of None \<Rightarrow> Some (Address t, i, st)
             | Some (a, j, b) \<Rightarrow> if better_recovery (i, st) (j, b) then Some (Address t, i, st) else best) = Some (a, j, st)"
    then show "recovery_ready now st \<and> look a = Some st \<and> a \<notin> excluded"
      using "2.prems"(2) by (auto split: option.splits if_splits prod.splits)
  qed
qed simp

text \<open>recovery probing of a rule is exclusive and rate limited. A lease is given only for a target
  whose circuit is open, has cooled down, runs no probe and is not excluded; after it no other
  lease of the rule is given for five seconds, even once it is released, nor while it is unreleased
  and unexpired.\<close>

theorem recovery_lease_exclusive:
  assumes "claimRecoveryProbe rule now excluded r = (Some lease, r')"
  shows "(\<exists>st. states r \<lparr>krule = boostRuleKey rule, kaddr = xl_address lease\<rparr> = Some st \<and> circuitOpen st
        \<and> \<not> halfOpen st \<and> openUntil st \<le> now) \<and> xl_address lease \<notin> excluded \<and> xl_token lease \<noteq> 0
     \<and> (now' < now + routeExplorationLeaseDuration rule \<longrightarrow> fst (claimRecoveryProbe rule now' excluded' r') = None)
     \<and> (now' < now + routeRecoveryProbeInterval \<longrightarrow>
          fst (claimRecoveryProbe rule now' excluded' (releaseRecoveryProbe lease r')) = None)"
proof -
  let ?id = "boostRuleKey rule" and ?look = "\<lambda>a. states r \<lparr>krule = boostRuleKey rule, kaddr = a\<rparr>"
  obtain a i st where loop: "recovery_loop ?look excluded now 0 (Targets rule) None = Some (a, i, st)"
    and lease: "lease = \<lparr>xl_ruleKey = ?id, xl_address = a, xl_token = next_id (nextRecovery r)\<rparr>"
    and r': "recovery r' = (recovery r)(?id \<mapsto> \<lparr>cl_address = a, cl_token = next_id (nextRecovery r),
        cl_expires = now + routeExplorationLeaseDuration rule\<rparr>)"
      "recoveryNext r' = (recoveryNext r)(?id \<mapsto> now + routeRecoveryProbeInterval)"
    using assms by (auto simp: claimRecoveryProbe_def Let_def split: if_splits option.splits prod.splits)
  have tok: "xl_token lease \<noteq> 0" using lease by (simp add: next_id_def Let_def)
  have "recovery_ready now st \<and> ?look a = Some st \<and> a \<notin> excluded" using loop by (rule recovery_loop_ready) simp
  then have first: "(\<exists>st. states r \<lparr>krule = ?id, kaddr = xl_address lease\<rparr> = Some st \<and> circuitOpen st
        \<and> \<not> halfOpen st \<and> openUntil st \<le> now) \<and> xl_address lease \<notin> excluded"
    using lease by (auto simp: recovery_ready_def not_less)
  have next_none: "fst (claimRecoveryProbe rule now' excluded' q) = None"
    if "recoveryNext q ?id = Some t" "now' < t" for q t
    using that by (simp add: claimRecoveryProbe_def Let_def)
  have "fst (claimRecoveryProbe rule now' excluded' r') = None" if "now' < now + routeExplorationLeaseDuration rule"
    using that r' by (simp add: claimRecoveryProbe_def Let_def)
  moreover have "recoveryNext (releaseRecoveryProbe lease r') = recoveryNext r'"
    by (simp add: releaseRecoveryProbe_def)
  then have "fst (claimRecoveryProbe rule now' excluded' (releaseRecoveryProbe lease r')) = None"
    if "now' < now + routeRecoveryProbeInterval" using that r' next_none by simp
  ultimately show ?thesis using first tok by blast
qed

theorem recovery_lease_exclusive_witness:
  "fst (claimRecoveryProbe wit_rule (11 * second) {} (snd (claimRecoveryProbe wit_rule (10 * second) {}
     (route_run (wit_two_failures @ [RBegin wit_rule ''a'' second, wit_third]) newRouteHealthRegistry)))) = None"
proof -
  let ?r = "route_run (wit_two_failures @ [RBegin wit_rule ''a'' second, wit_third]) newRouteHealthRegistry"
  have "fst (claimRecoveryProbe wit_rule (10 * second) {} ?r) \<noteq> None" by code_simp
  then obtain lease where "fst (claimRecoveryProbe wit_rule (10 * second) {} ?r) = Some lease" by blast
  then have l: "claimRecoveryProbe wit_rule (10 * second) {} ?r = (Some lease, snd (claimRecoveryProbe wit_rule (10 * second) {} ?r))"
    by (metis prod.collapse)
  have "(11 * second :: int) < 10 * second + routeExplorationLeaseDuration wit_rule" by code_simp
  then show ?thesis using recovery_lease_exclusive[OF l, of "11 * second" "{}"] by blast
qed

section \<open>The selection is safe\<close>

definition adr :: "routeCandidate \<Rightarrow> string" where
  "adr c = Address (ctarget c)"

text \<open>A target a request may try: it has an address, is not excluded, and its circuit is not known
  to be open.\<close>

definition admissible :: "(string \<rightharpoonup> routeHealthState) \<Rightarrow> string set \<Rightarrow> Target option list \<Rightarrow> Target \<Rightarrow> bool" where
  "admissible look excluded ts t \<longleftrightarrow> Some t \<in> set ts \<and> Address t \<noteq> '''' \<and> Address t \<notin> excluded
     \<and> (case look (Address t) of None \<Rightarrow> True | Some st \<Rightarrow> observed st \<longrightarrow> \<not> circuitOpen st)"

lemma collect_admissible:
  "collect look pen excluded i seen ts = (un, ob) \<Longrightarrow> c \<in> set un \<union> set ob \<Longrightarrow>
   admissible look excluded ts (ctarget c) \<and> adr c \<notin> set seen"
proof (induction look pen excluded i seen ts arbitrary: un ob rule: collect.induct)
  case (2 look pen excluded i seen t ts)
  have mono: "admissible look excluded ts u \<Longrightarrow> admissible look excluded (t # ts) u" for u
    by (auto simp: admissible_def)
  show ?case
  proof (cases t)
    case None
    then show ?thesis using "2.IH"(1)[OF None] "2.prems" mono by auto
  next
    case (Some u)
    show ?thesis
    proof (cases "Address u = '''' \<or> Address u \<in> excluded \<or> Address u \<in> set seen")
      case True
      then show ?thesis using "2.IH"(2)[OF Some True] "2.prems" mono Some by auto
    next
      case False
      obtain un' ob' where rest: "collect look pen excluded (i + 1) (Address u # seen) ts = (un', ob')"
        by (cases "collect look pen excluded (i + 1) (Address u # seen) ts")
      note IH = "2.IH"(3)[OF Some False rest]
      consider "c \<in> set un' \<union> set ob'" | "ctarget c = u" "admissible look excluded (t # ts) u"
        using "2.prems" Some False rest
        by (auto simp: admissible_def unobserved_candidate_def observed_candidate_def split: option.splits if_splits)
      then show ?thesis
      proof cases
        case 1
        then show ?thesis using IH mono by auto
      next
        case 2
        then show ?thesis using False by (auto simp: adr_def)
      qed
    qed
  qed
qed simp

lemma collect_distinct: "collect look pen excluded i seen ts = (un, ob) \<Longrightarrow> distinct (map adr (un @ ob))"
proof (induction look pen excluded i seen ts arbitrary: un ob rule: collect.induct)
  case (2 look pen excluded i seen t ts)
  show ?case
  proof (cases t)
    case None
    then show ?thesis using "2.IH"(1)[OF None] "2.prems" by auto
  next
    case (Some u)
    show ?thesis
    proof (cases "Address u = '''' \<or> Address u \<in> excluded \<or> Address u \<in> set seen")
      case True
      then show ?thesis using "2.IH"(2)[OF Some True] "2.prems" Some by auto
    next
      case False
      obtain un' ob' where rest: "collect look pen excluded (i + 1) (Address u # seen) ts = (un', ob')"
        by (cases "collect look pen excluded (i + 1) (Address u # seen) ts")
      note IH = "2.IH"(3)[OF Some False rest]
      have new: "\<forall>c\<in>set un' \<union> set ob'. adr c \<noteq> Address u" using collect_admissible[OF rest] by fastforce
      have dis: "distinct (map adr un')" "distinct (map adr ob')" "\<forall>c\<in>set un'. \<forall>d\<in>set ob'. adr c \<noteq> adr d"
        using IH by (auto simp: disjoint_iff)
      have [simp]: "adr (unobserved_candidate j u p l) = Address u" "adr (observed_candidate j u p s) = Address u" for j p l s
        by (simp_all add: adr_def unobserved_candidate_def observed_candidate_def)
      show ?thesis using "2.prems" Some False rest dis new by (fastforce split: option.splits if_splits)
    qed
  qed
qed simp

lemma collect_complete:
  "collect look pen excluded i seen ts = (un, ob) \<Longrightarrow> admissible look excluded ts t \<Longrightarrow> Address t \<notin> set seen \<Longrightarrow>
   Address t \<in> adr ` (set un \<union> set ob)"
proof (induction look pen excluded i seen ts arbitrary: un ob rule: collect.induct)
  case (1 look pen excluded i seen)
  then show ?case by (simp add: admissible_def)
next
  case (2 look pen excluded i seen s ts)
  show ?case
  proof (cases s)
    case None
    then show ?thesis using "2.IH"(1)[OF None] "2.prems" by (auto simp: admissible_def)
  next
    case (Some u)
    show ?thesis
    proof (cases "Address u = '''' \<or> Address u \<in> excluded \<or> Address u \<in> set seen")
      case True
      then have "admissible look excluded ts t" using "2.prems"(2,3) Some by (auto simp: admissible_def)
      then show ?thesis using "2.IH"(2)[OF Some True] "2.prems" Some True by auto
    next
      case False
      obtain un' ob' where rest: "collect look pen excluded (i + 1) (Address u # seen) ts = (un', ob')"
        by (cases "collect look pen excluded (i + 1) (Address u # seen) ts")
      have [simp]: "adr (unobserved_candidate j u p l) = Address u" "adr (observed_candidate j u p s) = Address u" for j p l s
        by (simp_all add: adr_def unobserved_candidate_def observed_candidate_def)
      show ?thesis
      proof (cases "Address t = Address u")
        case True
        then show ?thesis using "2.prems" Some False rest
          by (auto simp: admissible_def split: option.splits if_splits)
      next
        case neq: False
        then have "admissible look excluded ts t" using "2.prems"(2) Some by (auto simp: admissible_def)
        then have "Address t \<in> adr ` (set un' \<union> set ob')"
          using "2.IH"(3)[OF Some False rest] neq "2.prems"(3) by auto
        then show ?thesis using "2.prems"(1) Some False rest by (auto split: option.splits if_splits)
      qed
    qed
  qed
qed

definition sadr :: "routeTargetSelection \<Rightarrow> string" where
  "sadr s = Address (starget s)"

lemma refresh_adr [simp]: "map adr (refresh pen cs) = map adr cs" "ctarget ` set (refresh pen cs) = ctarget ` set cs"
  "refresh pen cs = [] \<longleftrightarrow> cs = []" "adr ` set (refresh pen cs) = adr ` set cs"
  by (simp_all add: refresh_def adr_def image_image)

lemma distinct_map_filter_append:
  "distinct (map f (xs @ ys)) \<Longrightarrow> distinct (map f (filter P xs @ filter Q ys))"
  by (induction xs) (auto simp: distinct_map_filter)

lemma sort_mset [simp]:
  "set (sort_observed cs) = set cs" "distinct (map adr (sort_observed cs)) = distinct (map adr cs)"
  "set (sort_unobserved cs) = set cs" "distinct (map adr (sort_unobserved cs)) = distinct (map adr cs)"
  "length (sort_observed cs) = length cs" "length (sort_unobserved cs) = length cs"
  by (simp_all add: sort_observed_def sort_unobserved_def distinct_map)

lemma claim_loop_target:
  "claim_loop clm cs p = (Some s, p') \<Longrightarrow> starget s \<in> ctarget ` set cs \<and> \<not> periodicExplorer s"
  by (induction clm cs p arbitrary: p' rule: claim_loop.induct) (auto simp: Let_def split: prod.splits if_splits)

text \<open>Narrowing only removes candidates, and takes the canary's address out of the lists.\<close>

definition narrowed ::
  "routeCandidate list \<Rightarrow> routeCandidate list \<Rightarrow> routeTargetSelection option \<Rightarrow> routeCandidate list \<Rightarrow> routeCandidate list \<Rightarrow> bool" where
  "narrowed un ob probe un' ob' \<longleftrightarrow>
     distinct (map adr (un' @ ob')) \<and> ctarget ` (set un' \<union> set ob') \<subseteq> ctarget ` (set un \<union> set ob)
     \<and> (case probe of Some s \<Rightarrow> starget s \<in> ctarget ` (set un \<union> set ob) \<and> sadr s \<notin> adr ` (set un' \<union> set ob')
        | None \<Rightarrow> True)"

lemma narrowed_filter:
  "narrowed un ob probe un' ob' \<Longrightarrow> narrowed un ob probe (filter P un') (filter P ob')"
  by (auto simp: narrowed_def distinct_map_filter disjoint_iff split: option.splits)

lemma narrow_narrowed:
  assumes "narrow clm pen2 reserve un ob p = (probe, un', ob', p')" "distinct (map adr (un @ ob))"
  shows "narrowed un ob probe un' ob'"
proof (cases reserve)
  case False
  have "narrowed un ob None un ob" using assms(2) by (simp add: narrowed_def)
  then show ?thesis using assms(1) False narrowed_filter
    by (auto simp: narrow_def filterUnpenalizedRouteCandidates_def split: if_splits)
next
  case True
  let ?cs = "sort_observed (filter (\<lambda>c. penalty c > 0) un @ filter (\<lambda>c. penalty c > 0) ob)"
  obtain pr q where cl: "claim_loop clm ?cs p = (pr, q)" by (cases "claim_loop clm ?cs p")
  let ?r = "pr = None \<and> ?cs \<noteq> []"
  let ?un = "if ?r then refresh pen2 un else un" and ?ob = "if ?r then refresh pen2 ob else ob"
  let ?un1 = "case pr of Some s \<Rightarrow> filterRouteCandidateAddress (Address (starget s)) ?un | None \<Rightarrow> ?un"
  let ?ob1 = "case pr of Some s \<Rightarrow> filterRouteCandidateAddress (Address (starget s)) ?ob | None \<Rightarrow> ?ob"
  have base: "distinct (map adr (?un @ ?ob))" "ctarget ` (set ?un \<union> set ?ob) = ctarget ` (set un \<union> set ob)"
    using assms(2) by (auto simp: image_Un)
  have nar: "narrowed un ob pr ?un1 ?ob1"
  proof (cases pr)
    case None
    then show ?thesis using base by (simp add: narrowed_def)
  next
    case (Some s)
    have "starget s \<in> ctarget ` (set un \<union> set ob)" using claim_loop_target cl Some by fastforce
    then show ?thesis using Some base distinct_map_filter_append[OF base(1)]
      by (auto simp: narrowed_def filterRouteCandidateAddress_def sadr_def adr_def)
  qed
  have "pr = probe \<and> (un' = ?un1 \<and> ob' = ?ob1
      \<or> un' = filterUnpenalizedRouteCandidates ?un1 \<and> ob' = filterUnpenalizedRouteCandidates ?ob1)"
    using assms(1) True cl unfolding narrow_def Let_def by (auto split: if_splits option.splits)
  then show ?thesis using nar narrowed_filter unfolding filterUnpenalizedRouteCandidates_def by blast
qed

lemma best_known_some: "best_known ob = Some i \<Longrightarrow> i < length ob \<and> chasEWMA (ob ! i)"
  by (auto simp: best_known_def find_Some_iff)

lemma plain_adr [simp]: "sadr (plain c) = adr c" "starget (plain c) = ctarget c" "periodicExplorer (plain c) = False"
  by (simp_all add: sadr_def plain_def adr_def)

lemma map_nth_distinct:
  assumes "distinct (map f xs)" shows "distinct (map (\<lambda>i. f (xs ! i)) (filter P [0..<length xs]))"
proof -
  have "inj_on (\<lambda>i. f (xs ! i)) {0..<length xs}"
    using nth_eq_iff_index_eq[OF assms] by (simp add: inj_on_def)
  then show ?thesis by (auto simp: distinct_map intro: inj_on_subset)
qed

text \<open>The assembled list: the addresses are distinct, the targets come from the canary and the
  candidates, and the length is the limit or everything there is.\<close>

definition head_of :: "routeTargetSelection option \<Rightarrow> routeTargetSelection list" where
  "head_of probe = (case probe of Some s \<Rightarrow> [s] | None \<Rightarrow> [])"

definition ranked :: "routeCandidate list \<Rightarrow> routeCandidate list \<Rightarrow> routeCandidate list" where
  "ranked un ob = (case best_known ob of
       Some i \<Rightarrow> if un = [] then ob else ob ! i # un @ map ((!) ob) (filter (\<lambda>j. j \<noteq> i) [0..<length ob])
     | None \<Rightarrow> un @ ob)"

lemma ranked_set: "set (ranked un ob) = set un \<union> set ob"
proof (cases "best_known ob")
  case (Some i)
  then have i: "i < length ob" by (simp add: best_known_some)
  then have "set ob = insert (ob ! i) ((!) ob ` {j. j < length ob \<and> j \<noteq> i})" by (auto simp: in_set_conv_nth)
  then show ?thesis using Some by (auto simp: ranked_def)
qed (simp add: ranked_def)

lemma ranked_distinct:
  assumes "distinct (map adr (un @ ob))" shows "distinct (map adr (ranked un ob))"
proof (cases "best_known ob")
  case (Some i)
  then have i: "i < length ob" by (simp add: best_known_some)
  have ob: "distinct (map adr ob)" "adr ` set un \<inter> adr ` set ob = {}" "distinct (map adr un)" using assms by auto
  have 1: "distinct (map (\<lambda>j. adr (ob ! j)) (filter (\<lambda>j. j \<noteq> i) [0..<length ob]))"
    by (rule map_nth_distinct[OF ob(1)])
  have 2: "adr (ob ! i) \<noteq> adr (ob ! j)" if "j < length ob" "j \<noteq> i" for j
    using nth_eq_iff_index_eq[OF ob(1)] that i by simp
  have 3: "adr (ob ! j) \<notin> adr ` set un" if "j < length ob" for j
    using ob(2) nth_mem[OF that] by blast
  have 4: "adr (ob ! i) \<notin> (\<lambda>j. adr (ob ! j)) ` {j. j < length ob \<and> j \<noteq> i}" using 2 by blast
  have 5: "adr ` set un \<inter> (\<lambda>j. adr (ob ! j)) ` {j. j < length ob \<and> j \<noteq> i} = {}" using 3 by (intro equals0I) (elim IntE imageE CollectE conjE, metis imageI)
  have 6: "adr (ob ! i) \<notin> adr ` set un" using 3[OF i] .
  show ?thesis using Some 1 4 5 6 ob(1,3) by (simp add: ranked_def comp_def image_image)
qed (use assms in \<open>simp add: ranked_def\<close>)

lemma ranked_length: "length (ranked un ob) = length un + length ob"
proof (cases "best_known ob")
  case (Some i)
  then have i: "i < length ob" by (simp add: best_known_some)
  have "length (filter (\<lambda>j. j \<noteq> i) [0..<length ob]) = length ob - 1"
  proof -
    have "length (filter (\<lambda>j. j \<noteq> i) [0..<length ob]) = card ({0..<length ob} - {i})"
      by (subst distinct_card[symmetric]) (auto intro: arg_cong[where f = card])
    then show ?thesis using i by simp
  qed
  then show ?thesis using Some i by (simp add: ranked_def)
qed (simp add: ranked_def)

lemma assemble_ranked:
  assumes "limit \<ge> 1"
  shows "assemble probe un ob limit = take limit (head_of probe @ map plain (ranked un ob))"
proof (cases "best_known ob")
  case None
  have "map (\<lambda>i. plain (ob ! i)) [0..<length ob] = map plain ob"
    by (rule nth_equalityI) simp_all
  then show ?thesis using assms None
    by (cases probe) (auto simp: assemble_def ranked_def head_of_def Let_def min_def take_Cons')
next
  case (Some i)
  then have i: "i < length ob" by (simp add: best_known_some)
  have nth: "map (\<lambda>i. plain (ob ! i)) [0..<length ob] = map plain ob"
    by (rule nth_equalityI) simp_all
  have len: "length (head_of probe @ map plain (ranked un ob)) = length un + length ob + (if probe = None then 0 else 1)"
    by (simp add: ranked_length head_of_def split: option.splits)
  let ?n = "min limit (length un + length ob + (if probe = None then 0 else 1))"
  have n: "take limit (head_of probe @ map plain (ranked un ob)) = take ?n (head_of probe @ map plain (ranked un ob))"
    unfolding len[symmetric] by (metis min_def nle_le take_all_iff take_all)
  have n1: "?n \<ge> 1" using assms i by auto
  show ?thesis
  proof (cases "un = []")
    case True
    have "ranked un ob = ob" using True Some by (simp add: ranked_def)
    moreover have "assemble probe un ob limit = head_of probe @ take (?n - length (head_of probe)) (map plain ob)"
      using True Some nth by (simp add: assemble_def Let_def head_of_def)
    ultimately show ?thesis unfolding n using n1 by (cases probe) (auto simp: head_of_def take_Cons')
  next
    case False
    let ?rest = "map plain un @ map (\<lambda>j. plain (ob ! j)) (filter (\<lambda>j. j \<noteq> i) [0..<length ob])"
    have r: "map plain (ranked un ob) = plain (ob ! i) # ?rest" using False Some by (simp add: ranked_def)
    have f: "filter (\<lambda>j. \<not> (best_known ob = Some j \<and> un \<noteq> [])) [0..<length ob] = filter (\<lambda>j. j \<noteq> i) [0..<length ob]"
      using False Some by (auto intro: filter_cong)
    define first where "first = (if length (head_of probe) < ?n then head_of probe @ [plain (ob ! i)] else head_of probe)"
    have "assemble probe un ob limit = first @ take (?n - length first) ?rest"
      using False Some unfolding assemble_def Let_def f first_def by (simp add: head_of_def)
    then show ?thesis unfolding n unfolding r using n1 using False by (cases probe) (auto simp: head_of_def first_def take_Cons' min_def Suc_le_eq split: if_splits)
  qed
qed


text \<open>Moving the explorer to the second place is a swap, or replaces the second selection by a
  target that is not selected.\<close>

lemma sadr_mark [simp]: "sadr (s\<lparr>periodicExplorer := b\<rparr>) = sadr s"
  by (simp add: sadr_def)

lemma swap_distinct:
  assumes "distinct xs" "i < length xs" "j < length xs" shows "distinct (xs[i := xs ! j, j := xs ! i])"
  using assms by (simp add: distinct_swap)

lemma place_explorer_distinct:
  assumes dis: "distinct (map sadr xs)" and len: "1 < length xs" and hd: "sadr (xs ! 0) \<noteq> Address t"
  shows "distinct (map sadr (place_explorer t xs))"
proof (cases "find (\<lambda>i. Address (starget (xs ! i)) = Address t) [1..<length xs]")
  case None
  have "Address t \<notin> set (map sadr xs)"
  proof
    assume "Address t \<in> set (map sadr xs)"
    then obtain i where i: "i < length xs" "sadr (xs ! i) = Address t" by (auto simp: in_set_conv_nth)
    then have "i \<noteq> 0" using hd by (cases i) auto
    then have "i \<in> set [1..<length xs]" using i by simp
    then show False using None i(2) by (simp add: find_None_iff sadr_def)
  qed
  then show ?thesis using None dis
    by (simp add: place_explorer_def map_update distinct_list_update sadr_def)
next
  case (Some i)
  then have i: "i < length xs" "1 \<le> i" by (auto simp: find_Some_iff)
  have "map sadr (place_explorer t xs) = (if i = 1 then map sadr xs else (map sadr xs)[1 := map sadr xs ! i, i := map sadr xs ! 1])"
    using Some i len by (simp add: place_explorer_def map_update)
  then show ?thesis using swap_distinct[OF dis, of 1 i] i len dis by simp
qed

lemma place_explorer_set:
  assumes len: "1 < length xs"
  shows "starget ` set (place_explorer t xs) \<subseteq> insert t (starget ` set xs)" "length (place_explorer t xs) = length xs"
proof -
  show "length (place_explorer t xs) = length xs" by (simp add: place_explorer_def split: option.splits)
  have mem: "xs ! 1 \<in> set xs" using len by simp
  have sub: "set (ys[i := y]) \<subseteq> insert y (set ys)" for ys :: "routeTargetSelection list" and i y by (rule set_update_subset_insert)
  show "starget ` set (place_explorer t xs) \<subseteq> insert t (starget ` set xs)"
  proof (cases "find (\<lambda>i. Address (starget (xs ! i)) = Address t) [1..<length xs]")
    case None
    then show ?thesis using sub[of xs 1] by (fastforce simp: place_explorer_def)
  next
    case (Some i)
    then have "xs ! i \<in> set xs" by (auto simp: find_Some_iff)
    moreover have "starget ` set (xs[1 := (xs ! i)\<lparr>periodicExplorer := True\<rparr>, i := xs ! 1])
        \<subseteq> starget ` insert (xs ! 1) (insert ((xs ! i)\<lparr>periodicExplorer := True\<rparr>) (set xs))"
      using sub[of "xs[1 := (xs ! i)\<lparr>periodicExplorer := True\<rparr>]" i] sub[of xs 1] by blast
    ultimately show ?thesis using Some mem by (auto simp: place_explorer_def)
  qed
qed

lemma explorer_loop_mem: "explorer_loop cs e = Some c \<Longrightarrow> c \<in> set cs \<or> e = Some c"
  by (induction cs e rule: explorer_loop.induct) (auto split: option.splits if_splits)

lemma explore_safe:
  assumes "distinct (map sadr xs)"
  shows "distinct (map sadr (explore now probe un ob xs))"
    "starget ` set (explore now probe un ob xs) \<subseteq> starget ` set xs \<union> ctarget ` set ob"
    "length (explore now probe un ob xs) = length xs"
proof -
  show "distinct (map sadr (explore now probe un ob xs))"
    using assms place_explorer_distinct[OF assms]
    by (auto simp: explore_def explorer_due_def sadr_def dest!: explorer_loop_mem split: option.splits)
  show "starget ` set (explore now probe un ob xs) \<subseteq> starget ` set xs \<union> ctarget ` set ob"
  proof (cases "explore now probe un ob xs = xs")
    case False
    then obtain c where c: "explorer_loop (filter (explorer_due now (Address (starget (xs ! 0)))) ob) None = Some c"
      "explore now probe un ob xs = place_explorer (ctarget c) xs" "1 < length xs"
      by (auto simp: explore_def split: if_splits option.splits)
    then have "c \<in> set ob" by (auto dest: explorer_loop_mem)
    then show ?thesis using place_explorer_set(1)[OF c(3), of "ctarget c"] c(2) by auto
  qed simp
  show "length (explore now probe un ob xs) = length xs"
    using place_explorer_set[of xs] by (simp add: explore_def split: option.splits)
qed


section \<open>What a selection promises\<close>

lemma narrow_nonempty:
  assumes "narrow clm pen2 reserve un ob p = (probe, un', ob', p')" "un @ ob \<noteq> []"
  shows "probe \<noteq> None \<or> un' @ ob' \<noteq> []"
proof -
  have f: "has_unpenalized cs \<Longrightarrow> filterUnpenalizedRouteCandidates cs \<noteq> []" for cs
    by (auto simp: has_unpenalized_def filterUnpenalizedRouteCandidates_def list_ex_iff filter_empty_conv)
  have app: "filterUnpenalizedRouteCandidates (xs @ ys) = filterUnpenalizedRouteCandidates xs @ filterUnpenalizedRouteCandidates ys" for xs ys
    by (simp add: filterUnpenalizedRouteCandidates_def)
  show ?thesis using assms f[of "un @ ob"] f[of "refresh pen2 un @ refresh pen2 ob"] unfolding app
    by (auto simp: narrow_def Let_def split: if_splits option.splits prod.splits)
qed

lemma selection_parts:
  assumes "limit > 0" "Targets rule \<noteq> []"
    "selectTargetSelections clm pen pen2 rule limit now excluded reserve r p = (sel, p')"
  obtains un ob un' ob' probe where
    "collect (\<lambda>a. states r \<lparr>krule = boostRuleKey rule, kaddr = a\<rparr>) pen excluded 0 [] (Targets rule) = (un, ob)"
    "narrow clm pen2 reserve un ob p = (probe, un', ob', p')"
    "sel = explore now probe (sort_unobserved un') (sort_observed ob')
       (take (nat limit) (head_of probe @ map plain (ranked (sort_unobserved un') (sort_observed ob'))))"
proof -
  obtain un ob where c: "collect (\<lambda>a. states r \<lparr>krule = boostRuleKey rule, kaddr = a\<rparr>) pen excluded 0 [] (Targets rule) = (un, ob)"
    by (cases "collect (\<lambda>a. states r \<lparr>krule = boostRuleKey rule, kaddr = a\<rparr>) pen excluded 0 [] (Targets rule)")
  obtain probe un' ob' q where n: "narrow clm pen2 reserve un ob p = (probe, un', ob', q)"
    by (cases "narrow clm pen2 reserve un ob p")
  have l: "nat limit \<ge> 1" using assms(1) by simp
  show thesis
    using that[OF c] n assms by (simp add: selectTargetSelections_def c n assemble_ranked[OF l] Let_def)
qed


definition route_states :: "Rule \<Rightarrow> routeHealthRegistry \<Rightarrow> string \<rightharpoonup> routeHealthState" where
  "route_states rule r = (\<lambda>a. states r \<lparr>krule = boostRuleKey rule, kaddr = a\<rparr>)"

lemma selection_promises:
  assumes "selectTargetSelections clm pen pen2 rule limit now excluded reserve r p = (sel, p')"
  shows "distinct (map (Address \<circ> starget) sel)
    \<and> (\<forall>s\<in>set sel. admissible (route_states rule r) excluded (Targets rule) (starget s))
    \<and> int (length sel) \<le> max 0 limit
    \<and> (0 < limit \<and> (\<exists>t. admissible (route_states rule r) excluded (Targets rule) t) \<longrightarrow> sel \<noteq> [])"
proof (cases "limit \<le> 0 \<or> Targets rule = []")
  case True
  then show ?thesis using assms(1) by (auto simp: selectTargetSelections_def admissible_def)
next
  case False
  then have lim: "limit > 0" "Targets rule \<noteq> []" by auto
  obtain un ob un' ob' probe where c: "collect (route_states rule r) pen excluded 0 [] (Targets rule) = (un, ob)"
    and n: "narrow clm pen2 reserve un ob p = (probe, un', ob', p')"
    and sel: "sel = explore now probe (sort_unobserved un') (sort_observed ob')
       (take (nat limit) (head_of probe @ map plain (ranked (sort_unobserved un') (sort_observed ob'))))"
    using selection_parts[OF lim assms(1)] unfolding route_states_def by metis
  let ?all = "head_of probe @ map plain (ranked (sort_unobserved un') (sort_observed ob'))"
  note nar = narrow_narrowed[OF n collect_distinct[OF c], unfolded narrowed_def]
  have dis: "distinct (map sadr ?all)"
    using nar ranked_distinct[of "sort_unobserved un'" "sort_observed ob'"]
    by (auto simp: head_of_def comp_def ranked_set split: option.splits)
  have src: "starget ` set ?all \<subseteq> ctarget ` (set un \<union> set ob)" "ctarget ` set (sort_observed ob') \<subseteq> ctarget ` (set un \<union> set ob)"
    using nar by (auto simp: head_of_def ranked_set image_image split: option.splits)
  note ex = explore_safe[OF distinct_take[OF dis, of "nat limit", unfolded take_map], of now probe "sort_unobserved un'" "sort_observed ob'", folded sel]
  have adm: "admissible (route_states rule r) excluded (Targets rule) (starget s)" if "s \<in> set sel" for s
  proof -
    have "starget s \<in> ctarget ` (set un \<union> set ob)"
      using ex(2) that src set_take_subset[of "nat limit" ?all] by blast
    then obtain d where "d \<in> set un \<union> set ob" "starget s = ctarget d" by auto
    then show ?thesis using collect_admissible[OF c] by simp
  qed
  have ne: "sel \<noteq> []" if "admissible (route_states rule r) excluded (Targets rule) t" for t
  proof -
    have "un @ ob \<noteq> []" using collect_complete[OF c that] by auto
    then have "?all \<noteq> []" using narrow_nonempty[OF n] ranked_set[of "sort_unobserved un'" "sort_observed ob'"]
      by (auto simp: head_of_def split: option.splits)
    then have "length (take (nat limit) ?all) \<noteq> 0" using lim by simp
    then show ?thesis unfolding ex(3)[symmetric] by simp
  qed
  have "length sel \<le> nat limit" unfolding ex(3) length_take by (rule min.cobounded2)
  then show ?thesis using ex(1) adm ne lim by (auto simp: sadr_def[abs_def] comp_def)
qed

text \<open>C31: The targets chosen for a request are pairwise different addresses, each of them of a
  target of the rule that is not excluded and whose circuit is not known to be open; they are at
  most as many as asked for, and there is one whenever the rule has an admissible target. This holds
  for every source of protocol penalties and of protocol canaries.\<close>

theorem selection_safe:
  assumes "selectTargetSelections clm pen pen2 rule limit now excluded reserve r p = (sel, p')"
  shows "distinct (map (Address \<circ> starget) sel)
    \<and> (\<forall>s\<in>set sel. admissible (route_states rule r) excluded (Targets rule) (starget s))
    \<and> int (length sel) \<le> max 0 limit
    \<and> (0 < limit \<and> (\<exists>t. admissible (route_states rule r) excluded (Targets rule) t) \<longrightarrow> sel \<noteq> [])"
  by (rule selection_promises[OF assms])

text \<open>An open circuit on the first target: the two others are chosen.\<close>

definition wit_selection :: "routeTargetSelection list \<times> unit" where
  "wit_selection = selectTargetSelections (\<lambda>t u. ((0, False), u)) (\<lambda>t. 0) (\<lambda>t. 0) wit_rule 2 0 {} True
     (route_run (wit_two_failures @ [RBegin wit_rule ''a'' second, wit_third]) newRouteHealthRegistry) ()"

theorem selection_safe_witness:
  "map (Address \<circ> starget) (fst wit_selection) = [''b'', ''c''] \<and> distinct (map (Address \<circ> starget) (fst wit_selection))"
proof -
  have "map (Address \<circ> starget) (fst wit_selection) = [''b'', ''c'']" by code_simp
  moreover have "distinct (map (Address \<circ> starget) (fst wit_selection))"
    using selection_safe[OF surjective_pairing[of wit_selection, unfolded wit_selection_def]]
    unfolding wit_selection_def by blast
  ultimately show ?thesis by blast
qed

end
