(* ===== verification/Proxy_Protocol.thy ===== *)
theory Proxy_Protocol
  imports Moto_Config
begin

text \<open>
  The PROXY protocol codec (\<^verbatim>\<open>controller/proxy_protocol.go\<close>) and its use at the two ends of the
  gateway (\<^verbatim>\<open>controller/proxy_integration.go\<close>): detection of the v1 text and v2 binary headers
  without losing application bytes, parsing, canonical encoding, and the decision which client
  address an inbound connection is given.

  A reader is the bytes it delivers and the error it ends with. Every operation that reads returns
  the bytes it left unread, on errors too. Ports are 16-bit words.
\<close>

section \<open>Readers\<close>

datatype ioerr = EOF | UnexpectedEOF | IOErr string

definition io_read_full :: "nat \<Rightarrow> ioerr \<Rightarrow> byte list \<Rightarrow> (ioerr + byte list) \<times> byte list" where
  "io_read_full n fin s =
     (if n \<le> length s then (Inr (take n s), drop n s)
      else (Inl (if s \<noteq> [] \<and> fin = EOF then UnexpectedEOF else fin), []))"

section \<open>Data\<close>

definition proxyProtocolV1MaxHeaderLength :: nat where "proxyProtocolV1MaxHeaderLength = 108"
definition proxyProtocolV2MaxPayloadLength :: int where "proxyProtocolV2MaxPayloadLength = 4096"

definition proxyProtocolV1Signature :: "byte list" where
  "proxyProtocolV1Signature = str_bytes ''PROXY ''"

definition proxyProtocolV2Signature :: "byte list" where
  "proxyProtocolV2Signature = [0x0d, 0x0a, 0x0d, 0x0a, 0x00, 0x0d, 0x0a, 0x51, 0x55, 0x49, 0x54, 0x0a]"

definition proxyProtocolVersion1 :: byte where "proxyProtocolVersion1 = 1"
definition proxyProtocolVersion2 :: byte where "proxyProtocolVersion2 = 2"
definition proxyProtocolCommandLocal :: byte where "proxyProtocolCommandLocal = 0"
definition proxyProtocolCommandProxy :: byte where "proxyProtocolCommandProxy = 1"

lemmas pp_consts [go_consts] = proxyProtocolV1MaxHeaderLength_def proxyProtocolV2MaxPayloadLength_def
  proxyProtocolVersion1_def proxyProtocolVersion2_def proxyProtocolCommandLocal_def proxyProtocolCommandProxy_def

record addrPort =
  apAddr :: addr
  apPort :: "16 word"

definition noAddrPort :: addrPort where
  "noAddrPort = \<lparr>apAddr = NoAddr, apPort = 0\<rparr>"

record proxyProtocolHeader =
  Version :: byte
  Command :: byte
  Source :: addrPort
  Destination :: addrPort

record proxyProtocolReadResult =
  Header :: "proxyProtocolHeader option"
  Replay :: "byte list"

datatype pp_error =
    PPReader ioerr
  | PPSignature ioerr
  | PPV1Read ioerr
  | PPV1TooLong
  | PPV1Framing
  | PPV1Tuple
  | PPV1Address string
  | PPV1Port string
  | PPV2Fixed ioerr
  | PPV2Version byte
  | PPV2Command byte
  | PPV2Length int
  | PPV2Payload ioerr
  | PPV2Family byte
  | PPV2Short int
  | PPV2TLV
  | PPCommand byte
  | PPVersion byte
  | PPEndpoints
  | PPWrite string
  | PPShortWrite
  | PPUntrusted
  | PPDeadline
  | PPRequired
  | PPCanceled ctxErr
  | PPNoAddress

definition proxyProtocolReadError :: "ioerr \<Rightarrow> ioerr" where
  "proxyProtocolReadError e = (if e = EOF \<or> e = UnexpectedEOF then UnexpectedEOF else e)"

section \<open>Version 1\<close>

definition parseProxyProtocolV1Address :: "string \<Rightarrow> string \<Rightarrow> addr option" where
  "parseProxyProtocolV1Address value family = (case parse_addr value of
       None \<Rightarrow> None
     | Some a \<Rightarrow>
         if zone_of a \<noteq> '''' then None
         else if family = ''TCP4'' \<and> \<not> is4 a then None
         else if family = ''TCP6'' \<and> (\<not> is6 a \<or> is4in6 a) then None
         else Some a)"

definition parseProxyProtocolPort :: "string \<Rightarrow> 16 word option" where
  "parseProxyProtocolPort value =
     (if length value > 1 \<and> hd value = CHR ''0'' then None
      else map_option word_of_nat (parse_uint16 value))"

definition v1_header :: "string list \<Rightarrow> pp_error + proxyProtocolHeader" where
  "v1_header fs =
     (if length fs \<noteq> 5 \<or> fs ! 0 \<noteq> ''TCP4'' \<and> fs ! 0 \<noteq> ''TCP6'' then Inl PPV1Tuple
      else case parseProxyProtocolV1Address (fs ! 1) (fs ! 0) of
        None \<Rightarrow> Inl (PPV1Address (fs ! 1))
      | Some src \<Rightarrow> (case parseProxyProtocolV1Address (fs ! 2) (fs ! 0) of
          None \<Rightarrow> Inl (PPV1Address (fs ! 2))
        | Some dst \<Rightarrow> (case parseProxyProtocolPort (fs ! 3) of
            None \<Rightarrow> Inl (PPV1Port (fs ! 3))
          | Some sp \<Rightarrow> (case parseProxyProtocolPort (fs ! 4) of
              None \<Rightarrow> Inl (PPV1Port (fs ! 4))
            | Some dp \<Rightarrow> Inr \<lparr>Version = proxyProtocolVersion1, Command = proxyProtocolCommandProxy,
                Source = \<lparr>apAddr = src, apPort = sp\<rparr>, Destination = \<lparr>apAddr = dst, apPort = dp\<rparr>\<rparr>))))"

definition parseProxyProtocolV1 :: "byte list \<Rightarrow> pp_error + proxyProtocolHeader" where
  "parseProxyProtocolV1 line =
     (if length line < length proxyProtocolV1Signature + 2 \<or> \<not> has_prefix line proxyProtocolV1Signature
         \<or> \<not> has_suffix line [0x0d, 0x0a]
      then Inl PPV1Framing
      else
        let body = bytes_string (take (length line - 2 - length proxyProtocolV1Signature)
              (drop (length proxyProtocolV1Signature) line))
        in if body = ''UNKNOWN'' \<or> has_prefix body ''UNKNOWN ''
           then Inr \<lparr>Version = proxyProtocolVersion1, Command = proxyProtocolCommandLocal,
             Source = noAddrPort, Destination = noAddrPort\<rparr>
           else v1_header (split_on CHR '' '' body))"

fun v1_loop :: "ioerr \<Rightarrow> byte list \<Rightarrow> byte list \<Rightarrow> (pp_error + proxyProtocolHeader) \<times> byte list" where
  "v1_loop fin line [] =
     (if length line < proxyProtocolV1MaxHeaderLength then (Inl (PPV1Read (proxyProtocolReadError fin)), [])
      else (Inl PPV1TooLong, []))"
| "v1_loop fin line (b # s) =
     (if length line < proxyProtocolV1MaxHeaderLength then
        let line = line @ [b]
        in if has_suffix line [0x0d, 0x0a] then (parseProxyProtocolV1 line, s) else v1_loop fin line s
      else (Inl PPV1TooLong, b # s))"

definition readProxyProtocolV1 :: "ioerr \<Rightarrow> byte list \<Rightarrow> (pp_error + proxyProtocolHeader) \<times> byte list" where
  "readProxyProtocolV1 fin s = v1_loop fin proxyProtocolV1Signature s"

section \<open>Version 2\<close>

definition proxyProtocolV2AddressLength :: "byte \<Rightarrow> byte \<Rightarrow> pp_error + nat" where
  "proxyProtocolV2AddressLength command family =
     (if family = 0x00 then (if command = proxyProtocolCommandProxy then Inl (PPV2Family family) else Inr 0)
      else if family = 0x11 then Inr 12
      else if family = 0x21 then Inr 36
      else Inl (PPV2Family family))"

fun validateProxyProtocolV2TLVs :: "byte list \<Rightarrow> pp_error option" where
  "validateProxyProtocolV2TLVs [] = None"
| "validateProxyProtocolV2TLVs (t # hi # lo # rest) =
     (if be16 hi lo > int (length rest) then Some PPV2TLV
      else validateProxyProtocolV2TLVs (drop (nat (be16 hi lo)) rest))"
| "validateProxyProtocolV2TLVs _ = Some PPV2TLV"

definition be_port :: "byte list \<Rightarrow> nat \<Rightarrow> 16 word" where
  "be_port p i = word_of_int (be16 (p ! i) (p ! (i + 1)))"

definition slice :: "nat \<Rightarrow> nat \<Rightarrow> 'a list \<Rightarrow> 'a list" where
  "slice i j xs = take (j - i) (drop i xs)"

definition v2_endpoints :: "byte \<Rightarrow> byte list \<Rightarrow> addrPort \<times> addrPort" where
  "v2_endpoints family p =
     (if family = 0x11 then
        (\<lparr>apAddr = Addr4 (slice 0 4 p), apPort = be_port p 8\<rparr>, \<lparr>apAddr = Addr4 (slice 4 8 p), apPort = be_port p 10\<rparr>)
      else if family = 0x21 then
        (\<lparr>apAddr = Addr6 (slice 0 16 p) '''', apPort = be_port p 32\<rparr>,
         \<lparr>apAddr = Addr6 (slice 16 32 p) '''', apPort = be_port p 34\<rparr>)
      else (noAddrPort, noAddrPort))"

text \<open>The result's \<^verbatim>\<open>Version\<close> is the zero value; the caller sets it.\<close>

definition parseProxyProtocolV2 :: "byte \<Rightarrow> byte \<Rightarrow> byte list \<Rightarrow> pp_error + proxyProtocolHeader" where
  "parseProxyProtocolV2 command family payload =
     (case proxyProtocolV2AddressLength command family of
        Inl e \<Rightarrow> Inl e
      | Inr n \<Rightarrow>
          if length payload < n then Inl (PPV2Short (int (length payload)))
          else case validateProxyProtocolV2TLVs (drop n payload) of
            Some e \<Rightarrow> Inl e
          | None \<Rightarrow>
              let (src, dst) = v2_endpoints family payload
              in if command = proxyProtocolCommandLocal
                 then Inr \<lparr>Version = 0, Command = proxyProtocolCommandLocal, Source = noAddrPort, Destination = noAddrPort\<rparr>
                 else Inr \<lparr>Version = 0, Command = proxyProtocolCommandProxy, Source = src, Destination = dst\<rparr>)"

definition v2_payload :: "byte \<Rightarrow> byte \<Rightarrow> byte list \<Rightarrow> pp_error + proxyProtocolHeader" where
  "v2_payload command family payload =
     (if command = proxyProtocolCommandLocal
      then Inr \<lparr>Version = proxyProtocolVersion2, Command = proxyProtocolCommandLocal, Source = noAddrPort, Destination = noAddrPort\<rparr>
      else case proxyProtocolV2AddressLength command family of
        Inl e \<Rightarrow> Inl e
      | Inr n \<Rightarrow>
          if length payload < n then Inl (PPV2Short (int (length payload)))
          else map_sum id (\<lambda>h. h\<lparr>Version := proxyProtocolVersion2\<rparr>) (parseProxyProtocolV2 command family payload))"

definition readProxyProtocolV2 :: "ioerr \<Rightarrow> byte list \<Rightarrow> (pp_error + proxyProtocolHeader) \<times> byte list" where
  "readProxyProtocolV2 fin s =
     (case io_read_full 4 fin s of
        (Inl e, s) \<Rightarrow> (Inl (PPV2Fixed (proxyProtocolReadError e)), s)
      | (Inr fixed, s) \<Rightarrow>
          let version = drop_bit 4 (fixed ! 0); command = take_bit 4 (fixed ! 0);
              payloadLength = be16 (fixed ! 2) (fixed ! 3)
          in if version \<noteq> 2 then (Inl (PPV2Version version), s)
             else if command \<noteq> proxyProtocolCommandLocal \<and> command \<noteq> proxyProtocolCommandProxy
             then (Inl (PPV2Command command), s)
             else if payloadLength > proxyProtocolV2MaxPayloadLength then (Inl (PPV2Length payloadLength), s)
             else case io_read_full (nat payloadLength) fin s of
               (Inl e, s) \<Rightarrow> (Inl (PPV2Payload (proxyProtocolReadError e)), s)
             | (Inr payload, s) \<Rightarrow> (v2_payload command (fixed ! 1) payload, s))"

section \<open>Detection\<close>

definition with_header :: "(pp_error + proxyProtocolHeader) \<times> byte list \<Rightarrow> (pp_error + proxyProtocolReadResult) \<times> byte list" where
  "with_header r = map_prod (map_sum id (\<lambda>h. \<lparr>Header = Some h, Replay = []\<rparr>)) id r"

definition sig_match :: "byte list \<Rightarrow> nat \<Rightarrow> byte \<Rightarrow> bool" where
  "sig_match sig i b \<longleftrightarrow> i < length sig \<and> b = sig ! i"

text \<open>One byte at a time while either signature is possible.\<close>

fun detect :: "ioerr \<Rightarrow> byte list \<Rightarrow> bool \<Rightarrow> bool \<Rightarrow> byte list \<Rightarrow> (pp_error + proxyProtocolReadResult) \<times> byte list" where
  "detect fin prefix v1 v2 [] =
     (if \<not> (v1 \<or> v2) then (Inr \<lparr>Header = None, Replay = prefix\<rparr>, [])
      else if prefix = [] \<and> fin = EOF then (Inl (PPReader EOF), [])
      else (Inl (PPSignature (proxyProtocolReadError fin)), []))"
| "detect fin prefix v1 v2 (b # s) =
     (if \<not> (v1 \<or> v2) then (Inr \<lparr>Header = None, Replay = prefix\<rparr>, b # s)
      else
        let v1 = (v1 \<and> sig_match proxyProtocolV1Signature (length prefix) b);
            v2 = (v2 \<and> sig_match proxyProtocolV2Signature (length prefix) b);
            prefix = prefix @ [b]
        in if v1 \<and> length prefix = length proxyProtocolV1Signature then with_header (readProxyProtocolV1 fin s)
           else if v2 \<and> length prefix = length proxyProtocolV2Signature then with_header (readProxyProtocolV2 fin s)
           else detect fin prefix v1 v2 s)"

definition readProxyProtocolHeader :: "ioerr \<Rightarrow> byte list \<Rightarrow> (pp_error + proxyProtocolReadResult) \<times> byte list" where
  "readProxyProtocolHeader fin s = detect fin [] True True s"

section \<open>Writing\<close>

text \<open>A writer says how many bytes a call accepts and with which error; the result pairs the error
  of the operation with the bytes that went out.\<close>

type_synonym writer = "byte list \<Rightarrow> nat \<times> string option"

definition writeProxyProtocolBytes :: "writer \<Rightarrow> byte list \<Rightarrow> pp_error option \<times> byte list" where
  "writeProxyProtocolBytes w payload = (case w payload of (n, err) \<Rightarrow>
     (case err of Some e \<Rightarrow> Some (PPWrite e) | None \<Rightarrow> if n \<noteq> length payload then Some PPShortWrite else None,
      take n payload))"

definition validateProxyProtocolEndpoints :: "addrPort \<Rightarrow> addrPort \<Rightarrow> pp_error + string" where
  "validateProxyProtocolEndpoints src dst =
     (let a = apAddr src; b = apAddr dst
      in if a = NoAddr \<or> b = NoAddr then Inl PPEndpoints
         else if zone_of a \<noteq> '''' \<or> zone_of b \<noteq> '''' then Inl PPEndpoints
         else if is4 a \<and> is4 b then Inr ''TCP4''
         else if is6 a \<and> \<not> is4in6 a \<and> is6 b \<and> \<not> is4in6 b then Inr ''TCP6''
         else Inl PPEndpoints)"

definition v1_line :: "string \<Rightarrow> proxyProtocolHeader \<Rightarrow> string" where
  "v1_line family h = ''PROXY '' @ family @ '' '' @ addr_string (apAddr (Source h)) @ '' ''
     @ addr_string (apAddr (Destination h)) @ '' '' @ nat_string (unat (apPort (Source h))) @ '' ''
     @ nat_string (unat (apPort (Destination h))) @ [CHR 0x0d, CHR 0x0a]"

definition writeProxyProtocolV1 :: "writer \<Rightarrow> proxyProtocolHeader \<Rightarrow> pp_error option \<times> byte list" where
  "writeProxyProtocolV1 w h =
     (if Command h = proxyProtocolCommandLocal
      then writeProxyProtocolBytes w (str_bytes (''PROXY UNKNOWN'' @ [CHR 0x0d, CHR 0x0a]))
      else case validateProxyProtocolEndpoints (Source h) (Destination h) of
        Inl e \<Rightarrow> (Some e, [])
      | Inr family \<Rightarrow>
          let line = v1_line family h
          in if length line > proxyProtocolV1MaxHeaderLength then (Some PPV1TooLong, [])
             else writeProxyProtocolBytes w (str_bytes line))"

definition port_bytes :: "16 word \<Rightarrow> byte list" where
  "port_bytes p = enc16 (unat p)"

definition writeProxyProtocolV2 :: "writer \<Rightarrow> proxyProtocolHeader \<Rightarrow> pp_error option \<times> byte list" where
  "writeProxyProtocolV2 w h =
     (let start = proxyProtocolV2Signature @ [or 0x20 (Command h)]
      in if Command h = proxyProtocolCommandLocal then writeProxyProtocolBytes w (start @ [0, 0, 0])
         else case validateProxyProtocolEndpoints (Source h) (Destination h) of
           Inl e \<Rightarrow> (Some e, [])
         | Inr family \<Rightarrow>
             let fixed = (if family = ''TCP4'' then [0x11] @ enc16 12 else if family = ''TCP6'' then [0x21] @ enc16 36 else [0, 0, 0]);
                 addresses = addr_bytes (apAddr (Source h)) @ addr_bytes (apAddr (Destination h))
             in writeProxyProtocolBytes w
                  (start @ fixed @ addresses @ port_bytes (apPort (Source h)) @ port_bytes (apPort (Destination h))))"

definition writeProxyProtocolHeader :: "writer \<Rightarrow> proxyProtocolHeader \<Rightarrow> pp_error option \<times> byte list" where
  "writeProxyProtocolHeader w h =
     (if Command h \<noteq> proxyProtocolCommandLocal \<and> Command h \<noteq> proxyProtocolCommandProxy then (Some (PPCommand (Command h)), [])
      else if Version h = proxyProtocolVersion1 then writeProxyProtocolV1 w h
      else if Version h = proxyProtocolVersion2 then writeProxyProtocolV2 w h
      else (Some (PPVersion (Version h)), []))"

section \<open>The two ends of the gateway\<close>

text \<open>What an inbound connection presents once its header is read: the addresses it reports in
  place of the socket's, the client address used for access control, and the bytes to replay.\<close>

record inbound =
  inRemote :: "addrPort option"
  inLocal :: "addrPort option"
  inClient :: addr
  inReplay :: "byte list"

definition prepareInboundProxyProtocol ::
  "bool \<Rightarrow> bool \<Rightarrow> ioerr \<Rightarrow> byte list \<Rightarrow> Rule \<Rightarrow> addr \<Rightarrow> (pp_error + inbound) \<times> byte list" where
  "prepareInboundProxyProtocol setOK clearOK fin s rule peer =
     (let direct = \<lparr>inRemote = None, inLocal = None, inClient = peer, inReplay = []\<rparr>
      in case ProxyProtocol rule of
        None \<Rightarrow> (Inr direct, s)
      | Some pp \<Rightarrow>
          if \<not> Accept pp then (Inr direct, s)
          else if \<not> Trusts pp peer then (Inl PPUntrusted, s)
          else if \<not> setOK then (Inl PPDeadline, s)
          else case readProxyProtocolHeader fin s of
            (Inl e, s) \<Rightarrow> (Inl e, s)
          | (Inr res, s) \<Rightarrow> (case Header res of
                None \<Rightarrow> (Inl PPRequired, s)
              | Some h \<Rightarrow>
                  if \<not> clearOK then (Inl PPDeadline, s)
                  else if Command h = proxyProtocolCommandProxy
                  then (Inr \<lparr>inRemote = Some (Source h), inLocal = Some (Destination h),
                         inClient = unmap (apAddr (Source h)), inReplay = Replay res\<rparr>, s)
                  else (Inr (direct\<lparr>inReplay := Replay res\<rparr>), s)))"

text \<open>The address of a connection, as \<^verbatim>\<open>addrPortFromNetAddr\<close> reads it: a TCP address has the IP's
  bytes and a port, any other address its text.\<close>

datatype netaddr = TCPAddr "byte list" int | TextAddr string

definition addrPortFromNetAddr :: "netaddr option \<Rightarrow> addrPort option" where
  "addrPortFromNetAddr address = (case address of
       None \<Rightarrow> None
     | Some (TCPAddr ip port) \<Rightarrow>
         if length ip \<noteq> 4 \<and> length ip \<noteq> 16 \<or> port < 0 \<or> port > 65535 then None
         else Some \<lparr>apAddr = unmap (if length ip = 4 then Addr4 ip else Addr6 ip []), apPort = word_of_int port\<rparr>
     | Some (TextAddr s) \<Rightarrow> map_option (\<lambda>(a, p). \<lparr>apAddr = unmap a, apPort = word_of_nat p\<rparr>) (parse_addr_port s))"

text \<open>The write under a context: \<open>before\<close> and \<open>after\<close> are the context's errors before and after the
  write, \<open>setOK\<close> and \<open>clearOK\<close> whether the deadline calls succeed.\<close>

definition writeProxyProtocolWithContext ::
  "ctxErr option \<Rightarrow> ctxErr option \<Rightarrow> bool \<Rightarrow> bool \<Rightarrow> pp_error option \<times> byte list \<Rightarrow> pp_error option \<times> byte list" where
  "writeProxyProtocolWithContext before after setOK clearOK written =
     (case before of
        Some e \<Rightarrow> (Some (PPCanceled e), [])
      | None \<Rightarrow>
          if \<not> setOK then (Some PPDeadline, [])
          else case after of
            Some e \<Rightarrow> (Some (PPCanceled e), snd written)
          | None \<Rightarrow> (case fst written of
                Some e \<Rightarrow> (Some e, snd written)
              | None \<Rightarrow> (if clearOK then None else Some PPDeadline, snd written)))"

definition writeOutboundProxyProtocolContext ::
  "ctxErr option \<Rightarrow> ctxErr option \<Rightarrow> bool \<Rightarrow> bool \<Rightarrow> writer \<Rightarrow> netaddr option \<Rightarrow> netaddr option \<Rightarrow>
     Rule \<Rightarrow> pp_error option \<times> byte list" where
  "writeOutboundProxyProtocolContext before after setOK clearOK w remote local rule =
     (case ProxyProtocol rule of
        None \<Rightarrow> (None, [])
      | Some pp \<Rightarrow>
          if Send pp = '''' then (None, [])
          else case (addrPortFromNetAddr remote, addrPortFromNetAddr local) of
            (Some src, Some dst) \<Rightarrow>
              writeProxyProtocolWithContext before after setOK clearOK
                (writeProxyProtocolHeader w
                  \<lparr>Version = (if Send pp = ProxyProtocolV2 then proxyProtocolVersion2 else proxyProtocolVersion1),
                   Command = proxyProtocolCommandProxy, Source = src, Destination = dst\<rparr>)
          | _ \<Rightarrow> (Some PPNoAddress, []))"

text \<open>The header an active probe sends: the probe's own addresses in version 1, no addresses in
  version 2.\<close>

definition writeActiveHealthProxyProtocol ::
  "writer \<Rightarrow> netaddr option \<Rightarrow> netaddr option \<Rightarrow> string \<Rightarrow> pp_error option \<times> byte list" where
  "writeActiveHealthProxyProtocol w local remote version =
     (if version = '''' then (None, [])
      else if version = ProxyProtocolV1 then
        (case (addrPortFromNetAddr local, addrPortFromNetAddr remote) of
           (Some src, Some dst) \<Rightarrow> writeProxyProtocolHeader w
             \<lparr>Version = proxyProtocolVersion1, Command = proxyProtocolCommandProxy, Source = src, Destination = dst\<rparr>
         | _ \<Rightarrow> (Some PPNoAddress, []))
      else if version = ProxyProtocolV2 then writeProxyProtocolHeader w
             \<lparr>Version = proxyProtocolVersion2, Command = proxyProtocolCommandLocal, Source = noAddrPort, Destination = noAddrPort\<rparr>
      else (Some (PPVersion 0), []))"

section \<open>Detection is transparent\<close>

lemma sig_lengths [simp]: "length proxyProtocolV1Signature = 6" "length proxyProtocolV2Signature = 12"
  by (simp_all add: proxyProtocolV1Signature_def proxyProtocolV2Signature_def str_bytes_def)

lemma has_prefix_snoc: "has_prefix sig (p @ [b]) \<longleftrightarrow> has_prefix sig p \<and> sig_match sig (length p) b"
proof (cases "length p < length sig")
  case True
  then show ?thesis by (auto simp: has_prefix_def sig_match_def take_Suc_conv_app_nth)
next
  case False
  have "\<not> has_prefix sig (p @ [b])" using False by (auto simp: has_prefix_iff)
  then show ?thesis using False by (simp add: sig_match_def)
qed

lemma has_prefix_append_cases:
  assumes "has_prefix (p @ s) sig" shows "has_prefix p sig \<or> has_prefix sig p"
proof -
  obtain t where "p @ s = sig @ t" using assms by (auto simp: has_prefix_iff)
  then show ?thesis by (auto simp: has_prefix_iff append_eq_append_conv2)
qed

text \<open>The state of the detection after the bytes \<open>p\<close>: neither signature is complete, and the flags
  say which is still possible.\<close>

definition detecting :: "byte list \<Rightarrow> bool \<Rightarrow> bool \<Rightarrow> bool" where
  "detecting p v1 v2 \<longleftrightarrow> (v1 \<longleftrightarrow> has_prefix proxyProtocolV1Signature p) \<and> (v2 \<longleftrightarrow> has_prefix proxyProtocolV2Signature p)
     \<and> \<not> has_prefix p proxyProtocolV1Signature \<and> \<not> has_prefix p proxyProtocolV2Signature \<and> length p \<le> 12"

lemma detecting_start: "detecting [] True True"
  by (simp add: detecting_def has_prefix_def) (metis list.size(3) sig_lengths zero_neq_numeral)

lemma has_prefix_same_length: "has_prefix a b \<Longrightarrow> length a = length b \<Longrightarrow> a = b"
  by (simp add: has_prefix_def)

lemma detecting_step:
  assumes d: "detecting p v1 v2" "v1 \<or> v2"
    and v: "v1' \<longleftrightarrow> v1 \<and> sig_match proxyProtocolV1Signature (length p) b" "v2' \<longleftrightarrow> v2 \<and> sig_match proxyProtocolV2Signature (length p) b"
    and n: "\<not> (v1' \<and> length p + 1 = 6)" "\<not> (v2' \<and> length p + 1 = 12)"
  shows "detecting (p @ [b]) v1' v2'"
proof -
  have flags: "v1' \<longleftrightarrow> has_prefix proxyProtocolV1Signature (p @ [b])" "v2' \<longleftrightarrow> has_prefix proxyProtocolV2Signature (p @ [b])"
    using d v by (auto simp: detecting_def has_prefix_snoc)
  have less: "length p < 12"
  proof -
    have "length p \<le> 12" "\<not> has_prefix p proxyProtocolV2Signature" using d by (auto simp: detecting_def)
    moreover have "p = proxyProtocolV2Signature" if "length p = 12" "v2"
      using that d by (metis detecting_def has_prefix_same_length sig_lengths(2))
    moreover have "length p \<le> 6" if "v1" using that d by (auto simp: detecting_def has_prefix_iff dest!: arg_cong[of _ _ length])
    ultimately show ?thesis using d(2) by (metis has_prefix_iff le_neq_implies_less append_Nil2 numeral_le_iff semiring_norm(69,71,72) less_le_not_le linorder_not_less order_trans)
  qed
  have no: "\<not> has_prefix (p @ [b]) sig" if "\<not> has_prefix p sig" "length p + 1 = length sig \<longrightarrow> \<not> has_prefix sig (p @ [b])" for sig
  proof
    assume h: "has_prefix (p @ [b]) sig"
    then obtain t where t: "p @ [b] = sig @ t" by (auto simp: has_prefix_iff)
    show False
    proof (cases t rule: rev_cases)
      case Nil
      then show ?thesis using t that(2) by (auto simp: has_prefix_def dest: arg_cong[of _ _ length])
    next
      case (snoc t' x)
      then show ?thesis using t that(1) by (auto simp: has_prefix_iff)
    qed
  qed
  show ?thesis using flags less no[of proxyProtocolV1Signature] no[of proxyProtocolV2Signature] n d(1)
    unfolding detecting_def by auto
qed

lemma detect_outcome:
  assumes "detecting p v1 v2" "detect fin p v1 v2 s = (Inr r, s')"
  shows "(Header r = None \<and> Replay r @ s' = p @ s \<and> length (Replay r) \<le> 12
      \<and> \<not> has_prefix (p @ s) proxyProtocolV1Signature \<and> \<not> has_prefix (p @ s) proxyProtocolV2Signature)
    \<or> (\<exists>h t. Header r = Some h \<and> Replay r = []
      \<and> (p @ s = proxyProtocolV1Signature @ t \<and> readProxyProtocolV1 fin t = (Inr h, s')
        \<or> p @ s = proxyProtocolV2Signature @ t \<and> readProxyProtocolV2 fin t = (Inr h, s')))"
  using assms
proof (induction fin p v1 v2 s rule: detect.induct)
  case (1 fin p v1 v2)
  then show ?case by (auto simp: detecting_def split: if_splits)
next
  case (2 fin p v1 v2 b s)
  show ?case
  proof (cases "v1 \<or> v2")
    case False
    then have "Header r = None \<and> Replay r = p \<and> s' = b # s" using "2.prems"(2) by auto
    moreover have "\<not> has_prefix (p @ b # s) sig" if "\<not> has_prefix p sig" "\<not> has_prefix sig p" for sig
      using has_prefix_append_cases that by blast
    ultimately show ?thesis using "2.prems"(1) False by (auto simp: detecting_def)
  next
    case True
    define w1 w2 where "w1 = (v1 \<and> sig_match proxyProtocolV1Signature (length p) b)"
      and "w2 = (v2 \<and> sig_match proxyProtocolV2Signature (length p) b)"
    have eq: "detect fin p v1 v2 (b # s) = (if w1 \<and> length p + 1 = 6 then with_header (readProxyProtocolV1 fin s)
        else if w2 \<and> length p + 1 = 12 then with_header (readProxyProtocolV2 fin s) else detect fin (p @ [b]) w1 w2 s)"
      using True by (auto simp: Let_def w1_def w2_def)
    have full: "p @ [b] = sig" if "has_prefix sig p" "sig_match sig (length p) b" "length p + 1 = length sig" for sig
      using has_prefix_snoc[of sig p b] that has_prefix_same_length[of sig "p @ [b]"] by simp
    consider (one) "w1" "length p + 1 = 6" | (two) "\<not> (w1 \<and> length p + 1 = 6)" "w2" "length p + 1 = 12"
      | (more) "\<not> (w1 \<and> length p + 1 = 6)" "\<not> (w2 \<and> length p + 1 = 12)" by blast
    then show ?thesis
    proof cases
      case one
      then have "p @ [b] = proxyProtocolV1Signature" using full[of proxyProtocolV1Signature] "2.prems"(1)
        by (auto simp: w1_def detecting_def)
      then have "p @ b # s = proxyProtocolV1Signature @ s" by simp
      moreover have "with_header (readProxyProtocolV1 fin s) = (Inr r, s')"
        using "2.prems"(2) one eq by simp
      ultimately show ?thesis by (cases "readProxyProtocolV1 fin s") (auto simp: with_header_def map_sum_def split: sum.splits)
    next
      case two
      then have "p @ [b] = proxyProtocolV2Signature" using full[of proxyProtocolV2Signature] "2.prems"(1)
        by (auto simp: w2_def detecting_def)
      then have "p @ b # s = proxyProtocolV2Signature @ s" by simp
      moreover have "with_header (readProxyProtocolV2 fin s) = (Inr r, s')"
        using "2.prems"(2) two eq by auto
      ultimately show ?thesis by (cases "readProxyProtocolV2 fin s") (auto simp: with_header_def map_sum_def split: sum.splits)
    next
      case more
      have "detecting (p @ [b]) w1 w2"
        using detecting_step[OF "2.prems"(1) True w1_def w2_def] more by blast
      moreover have "detect fin (p @ [b]) w1 w2 s = (Inr r, s')"
        using "2.prems"(2) more eq by auto
      ultimately show ?thesis
        using "2.IH"[OF _ w1_def w2_def refl] True more by (simp add: w1_def w2_def)
    qed
  qed
qed

section \<open>What is read is a prefix of the stream\<close>

lemma v1_loop_reads:
  "v1_loop fin line s = (r, s') \<Longrightarrow> length line \<le> 108 \<Longrightarrow>
   \<exists>l. s = l @ s' \<and> length line + length l \<le> 108 \<and> (\<forall>h. r = Inr h \<longrightarrow> parseProxyProtocolV1 (line @ l) = Inr h)"
proof (induction fin line s rule: v1_loop.induct)
  case (1 fin line)
  then show ?case by (auto split: if_splits)
next
  case (2 fin line b s)
  show ?case
  proof (cases "length line < proxyProtocolV1MaxHeaderLength \<and> \<not> has_suffix (line @ [b]) [0x0d, 0x0a]")
    case True
    then have "v1_loop fin (line @ [b]) s = (r, s')" "length (line @ [b]) \<le> 108"
      using "2.prems" by (auto simp: Let_def pp_consts)
    then obtain l where l: "s = l @ s'" "length (line @ [b]) + length l \<le> 108"
      "\<forall>h. r = Inr h \<longrightarrow> parseProxyProtocolV1 ((line @ [b]) @ l) = Inr h"
      using "2.IH" True by blast
    then show ?thesis by (intro exI[of _ "b # l"]) auto
  next
    case False
    then consider "\<not> length line < proxyProtocolV1MaxHeaderLength" "r = Inl PPV1TooLong" "s' = b # s"
      | "length line < proxyProtocolV1MaxHeaderLength" "r = parseProxyProtocolV1 (line @ [b])" "s' = s"
      using "2.prems"(1) by (auto simp: Let_def split: if_splits)
    then show ?thesis
    proof cases
      case 1
      then show ?thesis using "2.prems"(2) by (intro exI[of _ "[]"]) auto
    next
      case 2
      then show ?thesis by (intro exI[of _ "[b]"]) (auto simp: pp_consts)
    qed
  qed
qed

lemma io_read_full_split: "io_read_full n fin s = (r, s') \<Longrightarrow> \<exists>l. s = l @ s' \<and> length l \<le> n \<and> (\<forall>b. r = Inr b \<longrightarrow> b = l \<and> length l = n)"
  by (auto simp: io_read_full_def split: if_splits intro: exI[of _ "take n s"])

lemma readV2_reads:
  assumes "readProxyProtocolV2 fin s = (r, s')"
  shows "\<exists>l. s = l @ s' \<and> length l \<le> 4 + 4096"
proof -
  obtain r1 s1 where f: "io_read_full 4 fin s = (r1, s1)" by (cases "io_read_full 4 fin s")
  obtain l1 where l1: "s = l1 @ s1" "length l1 \<le> 4" using io_read_full_split[OF f] by blast
  show ?thesis
  proof (cases r1)
    case (Inl e)
    then show ?thesis using assms f l1 by (auto simp: readProxyProtocolV2_def)
  next
    case (Inr fixed)
    let ?n = "be16 (fixed ! 2) (fixed ! 3)"
    obtain r2 s2 where g: "io_read_full (nat ?n) fin s1 = (r2, s2)" by (cases "io_read_full (nat ?n) fin s1")
    obtain l2 where l2: "s1 = l2 @ s2" "length l2 \<le> nat ?n" using io_read_full_split[OF g] by blast
    have "s' = s1 \<or> s' = s2 \<and> ?n \<le> 4096"
      using assms f g Inr by (auto simp: readProxyProtocolV2_def Let_def pp_consts split: if_splits sum.splits)
    then show ?thesis
    proof
      assume "s' = s1"
      then show ?thesis using l1 by auto
    next
      assume "s' = s2 \<and> ?n \<le> 4096"
      then show ?thesis using l1 l2 by (intro exI[of _ "l1 @ l2"]) auto
    qed
  qed
qed

section \<open>Reading inverts writing\<close>

lemma str_bytes_cr: "0x0d \<in> set (str_bytes s) \<longleftrightarrow> CHR 0x0d \<in> set s"
proof -
  have "(0x0d :: byte) = of_char c \<longleftrightarrow> c = CHR 0x0d" for c
  proof
    assume "(0x0d :: byte) = of_char c"
    then have "(of_char c :: nat) = of_char (CHR 0x0d)" using unat_of_char[of c] by simp
    then show "c = CHR 0x0d" by (simp only: of_char_eq_iff)
  qed simp
  then show ?thesis by (auto simp: str_bytes_def image_iff)
qed

lemma detect_v1: "readProxyProtocolHeader fin (proxyProtocolV1Signature @ t) = with_header (readProxyProtocolV1 fin t)"
  by (simp add: readProxyProtocolHeader_def proxyProtocolV1Signature_def proxyProtocolV2Signature_def str_bytes_def sig_match_def Let_def)

lemma detect_v2: "readProxyProtocolHeader fin (proxyProtocolV2Signature @ t) = with_header (readProxyProtocolV2 fin t)"
  by (simp add: readProxyProtocolHeader_def proxyProtocolV1Signature_def proxyProtocolV2Signature_def str_bytes_def sig_match_def Let_def)

lemma v1_loop_line:
  assumes "0x0d \<notin> set body" "length line + length body + 2 \<le> 108" "line \<noteq> []" "last line \<noteq> 0x0d"
  shows "v1_loop fin line (body @ [0x0d, 0x0a] @ rest) = (parseProxyProtocolV1 (line @ body @ [0x0d, 0x0a]), rest)"
  using assms
proof (induction body arbitrary: line)
  case Nil
  have "\<not> has_suffix (line @ [0x0d]) [0x0d, 0x0a]" by (auto simp: has_suffix_iff)
  moreover have "has_suffix (line @ [0x0d, 0x0a]) [0x0d, 0x0a]" by (auto simp: has_suffix_iff)
  ultimately show ?case using Nil.prems(2) by (simp add: Let_def pp_consts)
next
  case (Cons b body)
  have "\<not> has_suffix (line @ [b]) [0x0d, 0x0a]"
  proof
    assume "has_suffix (line @ [b]) [0x0d, 0x0a]"
    then obtain t where "line @ [b] = (t @ [0x0d]) @ [0x0a]" by (auto simp: has_suffix_iff)
    then have "line = t @ [0x0d]" by simp
    then show False using Cons.prems(4) by simp
  qed
  moreover have "v1_loop fin (line @ [b]) (body @ [0x0d, 0x0a] @ rest) = (parseProxyProtocolV1 ((line @ [b]) @ body @ [0x0d, 0x0a]), rest)"
    using Cons.prems by (intro Cons.IH) auto
  ultimately show ?case using Cons.prems(2) by (simp add: Let_def pp_consts)
qed

lemma v1_parse_frame:
  "parseProxyProtocolV1 (proxyProtocolV1Signature @ str_bytes body @ [0x0d, 0x0a]) =
     (if body = ''UNKNOWN'' \<or> has_prefix body ''UNKNOWN ''
      then Inr \<lparr>Version = proxyProtocolVersion1, Command = proxyProtocolCommandLocal, Source = noAddrPort, Destination = noAddrPort\<rparr>
      else v1_header (split_on CHR '' '' body))"
proof -
  have "has_suffix (proxyProtocolV1Signature @ str_bytes body @ [0x0d, 0x0a]) [0x0d, 0x0a]"
    by (auto simp: has_suffix_iff)
  moreover have "has_prefix (proxyProtocolV1Signature @ str_bytes body @ [0x0d, 0x0a]) proxyProtocolV1Signature"
    by (simp add: has_prefix_iff)
  ultimately show ?thesis by (simp add: parseProxyProtocolV1_def Let_def)
qed

lemma readV1_body:
  assumes "CHR 0x0d \<notin> set body" "length body \<le> 100"
  shows "readProxyProtocolV1 fin (str_bytes body @ [0x0d, 0x0a] @ rest)
    = (parseProxyProtocolV1 (proxyProtocolV1Signature @ str_bytes body @ [0x0d, 0x0a]), rest)"
proof -
  have "proxyProtocolV1Signature \<noteq> []" "last proxyProtocolV1Signature \<noteq> 0x0d"
    by (simp_all add: proxyProtocolV1Signature_def str_bytes_def)
  then show ?thesis unfolding readProxyProtocolV1_def using assms
    by (intro v1_loop_line) (simp_all add: str_bytes_cr)
qed

text \<open>The endpoints a header may carry, and the header its encoding denotes.\<close>

definition endpoint_ok :: "addrPort \<Rightarrow> bool" where
  "endpoint_ok e \<longleftrightarrow> addr_ok (apAddr e) \<and> apAddr e \<noteq> NoAddr \<and> zone_of (apAddr e) = '''' \<and> \<not> is4in6 (apAddr e)"

definition canonical :: "proxyProtocolHeader \<Rightarrow> proxyProtocolHeader" where
  "canonical h = (if Command h = proxyProtocolCommandLocal then h\<lparr>Source := noAddrPort, Destination := noAddrPort\<rparr> else h)"

lemma endpoints_cases:
  assumes "validateProxyProtocolEndpoints src dst = Inr fam" "addr_ok (apAddr src)" "addr_ok (apAddr dst)"
  shows "endpoint_ok src \<and> endpoint_ok dst \<and> (fam = ''TCP4'' \<and> is4 (apAddr src) \<and> is4 (apAddr dst)
    \<or> fam = ''TCP6'' \<and> is6 (apAddr src) \<and> is6 (apAddr dst))"
  using assms unfolding validateProxyProtocolEndpoints_def endpoint_ok_def Let_def
  by (auto simp: is4in6_def is4_def split: if_splits addr.splits)

lemma port_bound: "unat (p :: 16 word) \<le> 65535"
  using unsigned_less[of p, where 'a = nat] by simp

lemma parse_port: "parseProxyProtocolPort (nat_string (unat p)) = Some p"
  using nat_string_ok[of "unat p"] parse_uint16_nat_string[OF port_bound[of p]]
  by (auto simp: parseProxyProtocolPort_def)

lemma nat_string_port_len: "length (nat_string (unat (p :: 16 word))) \<le> 5"
proof -
  have "unat p < 10 ^ Suc 4" using port_bound[of p] by simp
  then show ?thesis using nat_string_len[of "unat p" 4] by simp
qed

lemma parse_v1_addr:
  assumes "endpoint_ok e" "fam = ''TCP4'' \<and> is4 (apAddr e) \<or> fam = ''TCP6'' \<and> is6 (apAddr e)"
  shows "parseProxyProtocolV1Address (addr_string (apAddr e)) fam = Some (apAddr e)"
  using assms parse_addr_string[of "apAddr e"] unfolding parseProxyProtocolV1Address_def endpoint_ok_def by auto

definition v1_body :: "string \<Rightarrow> proxyProtocolHeader \<Rightarrow> string" where
  "v1_body fam h = fam @ '' '' @ addr_string (apAddr (Source h)) @ '' '' @ addr_string (apAddr (Destination h)) @ '' ''
     @ nat_string (unat (apPort (Source h))) @ '' '' @ nat_string (unat (apPort (Destination h)))"

lemma v1_line_body: "str_bytes (v1_line fam h) = proxyProtocolV1Signature @ str_bytes (v1_body fam h) @ [0x0d, 0x0a]"
  by (simp add: v1_line_def v1_body_def proxyProtocolV1Signature_def str_bytes_def)

lemma endpoint_text:
  assumes "endpoint_ok e"
  shows "CHR '' '' \<notin> set (addr_string (apAddr e))" "CHR 0x0d \<notin> set (addr_string (apAddr e))" "length (addr_string (apAddr e)) \<le> 39"
proof -
  have c: "is_hex c \<or> c = CHR '':'' \<or> c = CHR ''.''" if "c \<in> set (addr_string (apAddr e))" for c
    using assms addr_string_chars that by (auto simp: endpoint_ok_def)
  show "CHR '' '' \<notin> set (addr_string (apAddr e))" using c[of "CHR '' ''"] by (auto simp: is_hex_def hex_value_def)
  show "CHR 0x0d \<notin> set (addr_string (apAddr e))" using c[of "CHR 0x0d"] by (auto simp: is_hex_def hex_value_def)
  show "length (addr_string (apAddr e)) \<le> 39" using assms addr_string_len by (simp add: endpoint_ok_def)
qed

lemma port_text: "CHR '' '' \<notin> set (nat_string n)" "CHR 0x0d \<notin> set (nat_string n)"
  by (auto dest: nat_string_chars simp: is_digit_def)

lemma v1_roundtrip:
  assumes val: "validateProxyProtocolEndpoints (Source h) (Destination h) = Inr fam"
    and ok: "addr_ok (apAddr (Source h))" "addr_ok (apAddr (Destination h))"
    and v: "Version h = proxyProtocolVersion1" "Command h = proxyProtocolCommandProxy"
  shows "readProxyProtocolHeader fin (str_bytes (v1_line fam h) @ rest) = (Inr \<lparr>Header = Some h, Replay = []\<rparr>, rest)"
    and "length (v1_line fam h) \<le> 108"
proof -
  note ep = endpoints_cases[OF val ok]
  have src: "endpoint_ok (Source h)" and dst: "endpoint_ok (Destination h)" using ep by auto
  have fam: "fam = ''TCP4'' \<or> fam = ''TCP6''" using ep by auto
  have fs: "split_on CHR '' '' (v1_body fam h) = [fam, addr_string (apAddr (Source h)), addr_string (apAddr (Destination h)),
      nat_string (unat (apPort (Source h))), nat_string (unat (apPort (Destination h)))]"
    using fam endpoint_text(1)[OF src] endpoint_text(1)[OF dst] port_text(1)
    by (auto simp: v1_body_def split_on_append_sep split_on_no_sep)
  have "v1_header (split_on CHR '' '' (v1_body fam h)) = Inr \<lparr>Version = proxyProtocolVersion1, Command = proxyProtocolCommandProxy,
      Source = \<lparr>apAddr = apAddr (Source h), apPort = apPort (Source h)\<rparr>,
      Destination = \<lparr>apAddr = apAddr (Destination h), apPort = apPort (Destination h)\<rparr>\<rparr>"
    unfolding fs v1_header_def using fam parse_v1_addr[OF src, of fam] parse_v1_addr[OF dst, of fam] ep
    by (auto simp: parse_port)
  then have hdr: "v1_header (split_on CHR '' '' (v1_body fam h)) = Inr h" using v by simp
  have nu: "\<not> (v1_body fam h = ''UNKNOWN'' \<or> has_prefix (v1_body fam h) ''UNKNOWN '')"
    using fam by (auto simp: v1_body_def has_prefix_iff)
  have len: "length (v1_body fam h) \<le> 96"
    using fam endpoint_text(3)[OF src] endpoint_text(3)[OF dst]
      nat_string_port_len[of "apPort (Source h)"] nat_string_port_len[of "apPort (Destination h)"]
    by (auto simp: v1_body_def)
  have cr: "CHR 0x0d \<notin> set (v1_body fam h)"
    using fam endpoint_text(2)[OF src] endpoint_text(2)[OF dst] port_text(2) by (auto simp: v1_body_def)
  have "readProxyProtocolV1 fin (str_bytes (v1_body fam h) @ [0x0d, 0x0a] @ rest) = (Inr h, rest)"
    using readV1_body[OF cr, of fin rest] len nu hdr unfolding v1_parse_frame by auto
  then show "readProxyProtocolHeader fin (str_bytes (v1_line fam h) @ rest) = (Inr \<lparr>Header = Some h, Replay = []\<rparr>, rest)"
    unfolding v1_line_body append_assoc detect_v1 by (simp add: with_header_def)
  have "length (str_bytes (v1_line fam h)) \<le> 108" unfolding v1_line_body using len by simp
  then show "length (v1_line fam h) \<le> 108" by simp
qed

lemma v1_local_roundtrip:
  "readProxyProtocolHeader fin (str_bytes (''PROXY UNKNOWN'' @ [CHR 0x0d, CHR 0x0a]) @ rest) =
   (Inr \<lparr>Header = Some \<lparr>Version = proxyProtocolVersion1, Command = proxyProtocolCommandLocal, Source = noAddrPort, Destination = noAddrPort\<rparr>,
      Replay = []\<rparr>, rest)"
proof -
  have e: "str_bytes (''PROXY UNKNOWN'' @ [CHR 0x0d, CHR 0x0a]) = proxyProtocolV1Signature @ str_bytes ''UNKNOWN'' @ [0x0d, 0x0a]"
    by (simp add: proxyProtocolV1Signature_def str_bytes_def)
  have cr: "CHR 0x0d \<notin> set ''UNKNOWN''" "length ''UNKNOWN'' \<le> 100" by simp_all
  show ?thesis unfolding e append_assoc detect_v1 readV1_body[OF cr] v1_parse_frame by (simp add: with_header_def)
qed

lemma be_port_bytes:
  assumes "length a = i" shows "be_port (a @ port_bytes p @ t) i = p"
proof -
  have "(a @ port_bytes p @ t) ! i = word_of_nat (unat p div 256)" "(a @ port_bytes p @ t) ! (i + 1) = word_of_nat (unat p mod 256)"
    using assms by (simp_all add: nth_append port_bytes_def enc16_def)
  moreover have "be16 (word_of_nat (unat p div 256)) (word_of_nat (unat p mod 256)) = int (unat p)"
    using port_bound[of p] by (intro be16_enc16) simp
  ultimately show ?thesis by (simp add: be_port_def)
qed

lemma v2_endpoints_enc:
  assumes a: "is4 (apAddr src) \<and> is4 (apAddr dst) \<and> fam = 0x11 \<or> is6 (apAddr src) \<and> is6 (apAddr dst) \<and> fam = 0x21"
    and ok: "endpoint_ok src" "endpoint_ok dst"
  shows "v2_endpoints fam (addr_bytes (apAddr src) @ addr_bytes (apAddr dst) @ port_bytes (apPort src) @ port_bytes (apPort dst)) = (src, dst)"
    (is "v2_endpoints fam ?p = _")
proof -
  have pb: "length (port_bytes p) = 2" for p by (simp add: port_bytes_def)
  have ports: "be_port ?p (length (addr_bytes (apAddr src)) + length (addr_bytes (apAddr dst))) = apPort src"
    "be_port ?p (length (addr_bytes (apAddr src)) + length (addr_bytes (apAddr dst)) + 2) = apPort dst"
    using be_port_bytes[of "addr_bytes (apAddr src) @ addr_bytes (apAddr dst)" _ "apPort src" "port_bytes (apPort dst)"]
      be_port_bytes[of "addr_bytes (apAddr src) @ addr_bytes (apAddr dst) @ port_bytes (apPort src)" _ "apPort dst" "[]"]
    by (simp_all add: pb)
  show ?thesis
  proof (cases "fam = 0x11")
    case True
    then obtain x y where xy: "apAddr src = Addr4 x" "apAddr dst = Addr4 y" using a by (auto simp: is4_def split: addr.splits)
    then have "length x = 4" "length y = 4" using ok by (auto simp: endpoint_ok_def)
    then show ?thesis using True xy ports by (auto simp: v2_endpoints_def slice_def intro: addrPort.equality)
  next
    case False
    then obtain x y where xy: "apAddr src = Addr6 x ''''" "apAddr dst = Addr6 y ''''"
      using a ok by (auto simp: is6_def endpoint_ok_def zone_of_def split: addr.splits)
    then have "length x = 16" "length y = 16" using ok by (auto simp: endpoint_ok_def)
    then show ?thesis using False a xy ports by (auto simp: v2_endpoints_def slice_def intro: addrPort.equality)
  qed
qed

lemma nibbles: "drop_bit 4 (or 0x20 (1 :: byte)) = 2" "take_bit 4 (or 0x20 (1 :: byte)) = 1"
  "drop_bit 4 (or 0x20 (0 :: byte)) = 2" "take_bit 4 (or 0x20 (0 :: byte)) = 0"
  by simp_all

lemma readV2_frame:
  assumes c: "c = proxyProtocolCommandLocal \<or> c = proxyProtocolCommandProxy" and n: "length payload \<le> 4096"
  shows "readProxyProtocolV2 fin ([or 0x20 c, fam] @ enc16 (length payload) @ payload @ rest) = (v2_payload c fam payload, rest)"
proof -
  have fixed: "io_read_full 4 fin ([or 0x20 c, fam] @ enc16 (length payload) @ payload @ rest)
      = (Inr ([or 0x20 c, fam] @ enc16 (length payload)), payload @ rest)"
    by (simp add: io_read_full_def enc16_def)
  have len: "be16 (([or 0x20 c, fam] @ enc16 (length payload)) ! 2) (([or 0x20 c, fam] @ enc16 (length payload)) ! 3) = int (length payload)"
    using n by (simp add: enc16_def be16_enc16)
  have nib: "drop_bit 4 (([or 0x20 c, fam] @ enc16 (length payload)) ! 0) = 2" "take_bit 4 (([or 0x20 c, fam] @ enc16 (length payload)) ! 0) = c"
    using c nibbles by (auto simp: pp_consts)
  have load: "io_read_full (nat (int (length payload))) fin (payload @ rest) = (Inr payload, rest)"
    by (simp add: io_read_full_def)
  have p: "int (length payload) \<le> proxyProtocolV2MaxPayloadLength" using n by (simp add: pp_consts)
  show ?thesis unfolding readProxyProtocolV2_def fixed prod.case sum.case Let_def len nib load
    using c p by (auto simp: enc16_def)
qed

lemma v2_roundtrip:
  assumes val: "validateProxyProtocolEndpoints (Source h) (Destination h) = Inr fam"
    and ok: "addr_ok (apAddr (Source h))" "addr_ok (apAddr (Destination h))"
    and v: "Version h = proxyProtocolVersion2" "Command h = proxyProtocolCommandProxy"
    and w: "writeProxyProtocolV2 (\<lambda>b. (length b, None)) h = (None, out)"
  shows "readProxyProtocolHeader fin (out @ rest) = (Inr \<lparr>Header = Some h, Replay = []\<rparr>, rest)"
proof -
  note ep = endpoints_cases[OF val ok]
  have eok: "endpoint_ok (Source h)" "endpoint_ok (Destination h)" using ep by auto
  define payload where "payload = addr_bytes (apAddr (Source h)) @ addr_bytes (apAddr (Destination h))
     @ port_bytes (apPort (Source h)) @ port_bytes (apPort (Destination h))"
  define f :: byte where "f = (if fam = ''TCP4'' then 0x11 else 0x21)"
  have sz: "length payload = (if fam = ''TCP4'' then 12 else 36)"
  proof -
    have "length (addr_bytes (apAddr (Source h))) = (if fam = ''TCP4'' then 4 else 16)"
      "length (addr_bytes (apAddr (Destination h))) = (if fam = ''TCP4'' then 4 else 16)"
      using ep ok by (auto simp: is4_def is6_def split: addr.splits)
    then show ?thesis by (simp add: payload_def port_bytes_def)
  qed
  have out: "out = proxyProtocolV2Signature @ [or 0x20 proxyProtocolCommandProxy, f] @ enc16 (length payload) @ payload"
    using w val v ep sz
    by (auto simp: writeProxyProtocolV2_def writeProxyProtocolBytes_def Let_def f_def payload_def pp_consts split: if_splits)
  have en: "v2_endpoints f payload = (Source h, Destination h)"
    unfolding payload_def using ep eok by (intro v2_endpoints_enc) (auto simp: f_def)
  have pl: "v2_payload proxyProtocolCommandProxy f payload = Inr h"
    using en sz v by (auto simp: v2_payload_def proxyProtocolV2AddressLength_def parseProxyProtocolV2_def f_def pp_consts
        intro: proxyProtocolHeader.equality)
  have "readProxyProtocolV2 fin ([or 0x20 proxyProtocolCommandProxy, f] @ enc16 (length payload) @ payload @ rest) = (Inr h, rest)"
    using sz pl by (subst readV2_frame) auto
  then show ?thesis unfolding out append_assoc detect_v2 by (simp add: with_header_def)
qed

lemma v2_local_roundtrip:
  "readProxyProtocolHeader fin ((proxyProtocolV2Signature @ [or 0x20 proxyProtocolCommandLocal] @ [0, 0, 0]) @ rest) =
   (Inr \<lparr>Header = Some \<lparr>Version = proxyProtocolVersion2, Command = proxyProtocolCommandLocal, Source = noAddrPort, Destination = noAddrPort\<rparr>,
      Replay = []\<rparr>, rest)"
proof -
  have "readProxyProtocolV2 fin ([or 0x20 proxyProtocolCommandLocal, 0] @ enc16 (length ([] :: byte list)) @ [] @ rest)
      = (v2_payload proxyProtocolCommandLocal 0 [], rest)"
    by (rule readV2_frame) auto
  then show ?thesis by (simp add: detect_v2 with_header_def v2_payload_def enc16_def)
qed

lemma write_complete:
  "writeProxyProtocolHeader w h = (None, out) \<Longrightarrow> writeProxyProtocolHeader (\<lambda>b. (length b, None)) h = (None, out)"
  by (auto simp: writeProxyProtocolHeader_def writeProxyProtocolV1_def writeProxyProtocolV2_def writeProxyProtocolBytes_def Let_def
      split: if_splits sum.splits prod.splits option.splits)

lemma roundtrip_any:
  assumes w: "writeProxyProtocolHeader w h = (None, out)"
    and ok: "addr_ok (apAddr (Source h))" "addr_ok (apAddr (Destination h))"
  shows "readProxyProtocolHeader fin (out @ rest) = (Inr \<lparr>Header = Some (canonical h), Replay = []\<rparr>, rest)"
proof -
  note wf = write_complete[OF w]
  have cmd: "Command h = proxyProtocolCommandLocal \<or> Command h = proxyProtocolCommandProxy"
    and ver: "Version h = proxyProtocolVersion1 \<or> Version h = proxyProtocolVersion2"
    using w by (auto simp: writeProxyProtocolHeader_def split: if_splits)
  consider (l1) "Command h = proxyProtocolCommandLocal" "Version h = proxyProtocolVersion1"
    | (l2) "Command h = proxyProtocolCommandLocal" "Version h = proxyProtocolVersion2"
    | (p1) "Command h = proxyProtocolCommandProxy" "Version h = proxyProtocolVersion1"
    | (p2) "Command h = proxyProtocolCommandProxy" "Version h = proxyProtocolVersion2"
    using cmd ver by blast
  then show ?thesis
  proof cases
    case l1
    then have "out = str_bytes (''PROXY UNKNOWN'' @ [CHR 0x0d, CHR 0x0a])"
      using wf by (auto simp: writeProxyProtocolHeader_def writeProxyProtocolV1_def writeProxyProtocolBytes_def)
    moreover have "canonical h = \<lparr>Version = proxyProtocolVersion1, Command = proxyProtocolCommandLocal, Source = noAddrPort, Destination = noAddrPort\<rparr>"
      using l1 by (simp add: canonical_def)
    ultimately show ?thesis using v1_local_roundtrip by simp
  next
    case l2
    then have "out = proxyProtocolV2Signature @ [or 0x20 proxyProtocolCommandLocal] @ [0, 0, 0]"
      using wf by (auto simp: writeProxyProtocolHeader_def writeProxyProtocolV2_def writeProxyProtocolBytes_def pp_consts Let_def)
    moreover have "canonical h = \<lparr>Version = proxyProtocolVersion2, Command = proxyProtocolCommandLocal, Source = noAddrPort, Destination = noAddrPort\<rparr>"
      using l2 by (simp add: canonical_def)
    ultimately show ?thesis using v2_local_roundtrip by simp
  next
    case p1
    then obtain fam where fam: "validateProxyProtocolEndpoints (Source h) (Destination h) = Inr fam" "out = str_bytes (v1_line fam h)"
      using wf by (auto simp: writeProxyProtocolHeader_def writeProxyProtocolV1_def writeProxyProtocolBytes_def pp_consts Let_def
          split: sum.splits if_splits)
    then show ?thesis using v1_roundtrip(1)[OF fam(1) ok p1(2,1)] p1 by (simp add: canonical_def pp_consts)
  next
    case p2
    have w2: "writeProxyProtocolV2 (\<lambda>b. (length b, None)) h = (None, out)"
      using wf p2 by (simp add: writeProxyProtocolHeader_def pp_consts)
    then obtain fam where fam: "validateProxyProtocolEndpoints (Source h) (Destination h) = Inr fam"
      using p2 by (auto simp: writeProxyProtocolV2_def pp_consts Let_def split: sum.splits)
    then show ?thesis using v2_roundtrip[OF fam ok p2(2,1) w2] p2 by (simp add: canonical_def pp_consts)
  qed
qed

text \<open>C32: reading inverts writing. Whatever header was written without an error, over any writer,
  reading it from a stream gives that header (a LOCAL or UNKNOWN header without addresses), with
  nothing to replay and with every byte after it still unread.\<close>

theorem proxy_header_roundtrip:
  assumes w: "writeProxyProtocolHeader w h = (None, out)"
    and ok: "addr_ok (apAddr (Source h))" "addr_ok (apAddr (Destination h))"
  shows "readProxyProtocolHeader fin (out @ rest) = (Inr \<lparr>Header = Some (canonical h), Replay = []\<rparr>, rest)"
  using w ok by (rule roundtrip_any)

section \<open>Headers and addresses that are accepted\<close>

text \<open>What a header may say: a LOCAL header carries no address, a PROXY header two addresses of one
  family without zones.\<close>

definition header_ok :: "proxyProtocolHeader \<Rightarrow> bool" where
  "header_ok h \<longleftrightarrow> (Version h = proxyProtocolVersion1 \<or> Version h = proxyProtocolVersion2)
     \<and> (Command h = proxyProtocolCommandLocal \<and> Source h = noAddrPort \<and> Destination h = noAddrPort
       \<or> Command h = proxyProtocolCommandProxy
         \<and> (\<forall>e\<in>{Source h, Destination h}. addr_ok (apAddr e) \<and> apAddr e \<noteq> NoAddr \<and> zone_of (apAddr e) = '''')
         \<and> is4 (apAddr (Source h)) = is4 (apAddr (Destination h)))"

lemma v1_address_ok:
  "parseProxyProtocolV1Address s fam = Some a \<Longrightarrow> fam = ''TCP4'' \<or> fam = ''TCP6'' \<Longrightarrow>
   addr_ok a \<and> a \<noteq> NoAddr \<and> zone_of a = '''' \<and> is4 a = (fam = ''TCP4'')"
proof -
  assume a: "parseProxyProtocolV1Address s fam = Some a" and fam: "fam = ''TCP4'' \<or> fam = ''TCP6''"
  obtain a' where p: "parse_addr s = Some a'"
    using a by (cases "parse_addr s") (simp_all add: parseProxyProtocolV1Address_def)
  note h = a[unfolded parseProxyProtocolV1Address_def p option.case]
  have z: "a' = a \<and> zone_of a = []" using h by (metis option.distinct(1) option.inject)
  have "is4 a \<and> fam = ''TCP4'' \<or> is6 a \<and> fam = ''TCP6''" using h z fam by (metis option.distinct(1))
  then show ?thesis using parse_addr_ok[OF p] z by (cases a) (auto simp: is4_def is6_def)
qed

lemma v1_header_ok: assumes "v1_header fs = Inr h" shows "header_ok h"
proof -
  have g: "\<not> (length fs \<noteq> 5 \<or> fs ! 0 \<noteq> ''TCP4'' \<and> fs ! 0 \<noteq> ''TCP6'')"
    using assms unfolding v1_header_def by (metis Inl_Inr_False)
  then have fam: "fs ! 0 = ''TCP4'' \<or> fs ! 0 = ''TCP6''" by blast
  note eq = assms[unfolded v1_header_def if_not_P[OF g]]
  obtain src dst sp dp where "parseProxyProtocolV1Address (fs ! 1) (fs ! 0) = Some src" "parseProxyProtocolV1Address (fs ! 2) (fs ! 0) = Some dst"
    "h = \<lparr>Version = proxyProtocolVersion1, Command = proxyProtocolCommandProxy,
                Source = \<lparr>apAddr = src, apPort = sp\<rparr>, Destination = \<lparr>apAddr = dst, apPort = dp\<rparr>\<rparr>"
    using eq that by (auto split: option.splits)
  then show ?thesis using v1_address_ok[OF _ fam, of "fs ! 1" src] v1_address_ok[OF _ fam, of "fs ! 2" dst]
    by (simp add: header_ok_def)
qed

lemma v1_parse_ok: "parseProxyProtocolV1 line = Inr h \<Longrightarrow> header_ok h"
  unfolding parseProxyProtocolV1_def Let_def
  by (simp split: if_split_asm) (auto simp: header_ok_def dest: v1_header_ok)

lemma v2_endpoints_ok:
  "fam = 0x11 \<and> 12 \<le> length p \<or> fam = 0x21 \<and> 36 \<le> length p \<Longrightarrow> v2_endpoints fam p = (src, dst) \<Longrightarrow>
   (\<forall>e\<in>{src, dst}. addr_ok (apAddr e) \<and> apAddr e \<noteq> NoAddr \<and> zone_of (apAddr e) = '''') \<and> is4 (apAddr src) = is4 (apAddr dst)"
  by (auto simp: v2_endpoints_def slice_def addr_defs split: if_splits)

lemma v2_payload_ok: "v2_payload c fam p = Inr h \<Longrightarrow> c = proxyProtocolCommandLocal \<or> c = proxyProtocolCommandProxy \<Longrightarrow> header_ok h"
  using v2_endpoints_ok[of fam p "fst (v2_endpoints fam p)" "snd (v2_endpoints fam p)"]
  by (auto simp: v2_payload_def parseProxyProtocolV2_def proxyProtocolV2AddressLength_def header_ok_def pp_consts split_beta Let_def
      split: if_splits sum.splits option.splits)

lemma readV2_ok: "readProxyProtocolV2 fin s = (Inr h, s') \<Longrightarrow> header_ok h"
  by (auto simp: readProxyProtocolV2_def Let_def split: if_splits sum.splits prod.splits dest!: v2_payload_ok)

lemma readV1_ok: "readProxyProtocolV1 fin s = (Inr h, s') \<Longrightarrow> header_ok h"
  using v1_loop_reads[of fin proxyProtocolV1Signature s "Inr h" s'] v1_parse_ok by (auto simp: readProxyProtocolV1_def)

lemma detect_reads:
  "detect fin p v1 v2 s = (r, s') \<Longrightarrow> detecting p v1 v2 \<Longrightarrow> \<exists>l. s = l @ s' \<and> length p + length l \<le> 12 + 4100"
proof (induction fin p v1 v2 s rule: detect.induct)
  case (1 fin p v1 v2)
  then show ?case by (auto simp: detecting_def split: if_splits)
next
  case (2 fin p v1 v2 b s)
  have len: "length p \<le> 12" using "2.prems"(2) by (simp add: detecting_def)
  define w1 w2 where "w1 = (v1 \<and> sig_match proxyProtocolV1Signature (length p) b)"
    and "w2 = (v2 \<and> sig_match proxyProtocolV2Signature (length p) b)"
  consider (stop) "s' = b # s" | (one) "w1" "length p + 1 = 6" "with_header (readProxyProtocolV1 fin s) = (r, s')"
    | (two) "length p + 1 = 12" "with_header (readProxyProtocolV2 fin s) = (r, s')"
    | (more) "v1 \<or> v2" "\<not> (w1 \<and> length p + 1 = 6)" "\<not> (w2 \<and> length p + 1 = 12)" "detect fin (p @ [b]) w1 w2 s = (r, s')"
    using "2.prems"(1) by (auto simp: Let_def w1_def w2_def split: if_splits)
  then show ?case
  proof cases
    case stop
    then show ?thesis using len by (intro exI[of _ "[]"]) auto
  next
    case one
    obtain r' where "readProxyProtocolV1 fin s = (r', s')" using one(3)
      by (cases "readProxyProtocolV1 fin s") (auto simp: with_header_def)
    then obtain l where "s = l @ s'" "6 + length l \<le> 108"
      using v1_loop_reads[of fin proxyProtocolV1Signature s r' s'] by (auto simp: readProxyProtocolV1_def)
    then show ?thesis using one by (intro exI[of _ "b # l"]) auto
  next
    case two
    obtain r' where "readProxyProtocolV2 fin s = (r', s')" using two
      by (cases "readProxyProtocolV2 fin s") (auto simp: with_header_def)
    then obtain l where "s = l @ s'" "length l \<le> 4 + 4096" using readV2_reads by blast
    then show ?thesis using two by (intro exI[of _ "b # l"]) auto
  next
    case more
    have "detecting (p @ [b]) w1 w2"
      using detecting_step[OF "2.prems"(2) more(1) w1_def w2_def] more by blast
    then obtain l where "s = l @ s'" "length (p @ [b]) + length l \<le> 12 + 4100"
      using "2.IH"[OF _ w1_def w2_def refl] more by (auto simp: w1_def w2_def)
    then show ?thesis by (intro exI[of _ "b # l"]) auto
  qed
qed

text \<open>detecting a header loses no byte and never guesses. A read that reports no header gives
  back, in front of the unread stream, every byte it took, at most twelve, and only for a stream
  that begins with neither signature; a read that reports a header has nothing to replay, its
  stream begins with the header's signature, and the header is well formed. Whatever the outcome,
  errors included, what was consumed is a prefix of the stream of at most 4112 bytes.\<close>

theorem proxy_detection_transparent:
  assumes "readProxyProtocolHeader fin s = (r, s')"
  shows "(\<exists>l. s = l @ s' \<and> length l \<le> 4112)
    \<and> (\<forall>res. r = Inr res \<longrightarrow> (case Header res of
          None \<Rightarrow> Replay res @ s' = s \<and> length (Replay res) \<le> 12
            \<and> \<not> has_prefix s proxyProtocolV1Signature \<and> \<not> has_prefix s proxyProtocolV2Signature
        | Some h \<Rightarrow> Replay res = [] \<and> header_ok h
            \<and> (has_prefix s proxyProtocolV1Signature \<or> has_prefix s proxyProtocolV2Signature)))"
proof (intro conjI allI impI)
  show "\<exists>l. s = l @ s' \<and> length l \<le> 4112"
    using detect_reads[OF assms[unfolded readProxyProtocolHeader_def] detecting_start] by simp
  fix res
  assume "r = Inr res"
  then have d: "detect fin [] True True s = (Inr res, s')" using assms by (simp add: readProxyProtocolHeader_def)
  show "case Header res of
          None \<Rightarrow> Replay res @ s' = s \<and> length (Replay res) \<le> 12
            \<and> \<not> has_prefix s proxyProtocolV1Signature \<and> \<not> has_prefix s proxyProtocolV2Signature
        | Some h \<Rightarrow> Replay res = [] \<and> header_ok h
            \<and> (has_prefix s proxyProtocolV1Signature \<or> has_prefix s proxyProtocolV2Signature)"
    using detect_outcome[OF detecting_start d] readV1_ok readV2_ok
    by (auto simp: has_prefix_iff split: option.splits)
qed

section \<open>What the bytes of a header say\<close>

text \<open>What the bytes of a header say, independently of the code that reads them: a version 1 line with
  the texts of two plain addresses of one family and two ports, or a version 2 block with the addresses
  and ports in network order, whatever extensions follow. A local header says nothing.\<close>

definition plain_pair :: "addr \<Rightarrow> addr \<Rightarrow> bool" where
  "plain_pair a b \<longleftrightarrow> (\<exists>x y. a = Addr4 x \<and> b = Addr4 y)
     \<or> (\<exists>x y. a = Addr6 x '''' \<and> b = Addr6 y ''''
         \<and> take 12 x \<noteq> [0, 0, 0, 0, 0, 0, 0, 0, 0, 0, 0xff, 0xff] \<and> take 12 y \<noteq> [0, 0, 0, 0, 0, 0, 0, 0, 0, 0, 0xff, 0xff])"

definition v1_announces :: "byte list \<Rightarrow> addrPort \<Rightarrow> addrPort \<Rightarrow> bool" where
  "v1_announces l src dst \<longleftrightarrow> plain_pair (apAddr src) (apAddr dst)
     \<and> (\<exists>s d sp dp. l = str_bytes (''PROXY TCP'' @ (if \<exists>x. apAddr src = Addr4 x then ''4'' else ''6'') @ '' '' @ s @ '' '' @ d @ '' '' @ sp @ '' '' @ dp @ [CHR 0x0d, CHR 0x0a])
         \<and> parse_addr s = Some (apAddr src) \<and> parse_addr d = Some (apAddr dst)
         \<and> parse_uint16 sp = Some (unat (apPort src)) \<and> parse_uint16 dp = Some (unat (apPort dst)))"

definition v2_announces :: "byte list \<Rightarrow> addrPort \<Rightarrow> addrPort \<Rightarrow> bool" where
  "v2_announces l src dst \<longleftrightarrow> (\<exists>fam hi lo s d sp1 sp2 dp1 dp2 tlvs.
     l = [0x0d, 0x0a, 0x0d, 0x0a, 0, 0x0d, 0x0a, 0x51, 0x55, 0x49, 0x54, 0x0a, 0x21, fam, hi, lo] @ s @ d @ [sp1, sp2, dp1, dp2] @ tlvs
     \<and> 256 * unat hi + unat lo = length s + length d + 4 + length tlvs
     \<and> (fam = 0x11 \<and> length s = 4 \<and> length d = 4 \<and> apAddr src = Addr4 s \<and> apAddr dst = Addr4 d
       \<or> fam = 0x21 \<and> length s = 16 \<and> length d = 16 \<and> apAddr src = Addr6 s '''' \<and> apAddr dst = Addr6 d '''')
     \<and> unat (apPort src) = 256 * unat sp1 + unat sp2 \<and> unat (apPort dst) = 256 * unat dp1 + unat dp2)"

definition local_header :: "byte list \<Rightarrow> bool" where
  "local_header l \<longleftrightarrow> (\<exists>t. (t = '''' \<or> hd t = CHR '' '') \<and> l = str_bytes (''PROXY UNKNOWN'' @ t @ [CHR 0x0d, CHR 0x0a]))
     \<or> (\<exists>fam hi lo payload. l = [0x0d, 0x0a, 0x0d, 0x0a, 0, 0x0d, 0x0a, 0x51, 0x55, 0x49, 0x54, 0x0a, 0x20, fam, hi, lo] @ payload
         \<and> 256 * unat hi + unat lo = length payload)"

lemma str_bytes_bytes_string: "str_bytes (bytes_string bs) = bs"
  using bytes_string_str_bytes[of "bytes_string bs"] by (simp only: bytes_string_inj)

lemma split_on_concat: "join_with [c] (split_on c xs) = xs"
proof (induction xs)
  case (Cons x xs)
  obtain p ps where ps: "split_on c xs = p # ps" by (cases "split_on c xs") simp_all
  then show ?case using Cons by (cases ps) auto
qed simp

lemma v1_line_says:
  assumes "v1_header fs = Inr h"
  shows "\<exists>s d sp dp fam. fs = [fam, s, d, sp, dp] \<and> fam = (if \<exists>x. apAddr (Source h) = Addr4 x then ''TCP4'' else ''TCP6'')
    \<and> plain_pair (apAddr (Source h)) (apAddr (Destination h)) \<and> Command h = proxyProtocolCommandProxy
    \<and> parse_addr s = Some (apAddr (Source h)) \<and> parse_addr d = Some (apAddr (Destination h))
    \<and> parse_uint16 sp = Some (unat (apPort (Source h))) \<and> parse_uint16 dp = Some (unat (apPort (Destination h)))"
proof -
  have g: "\<not> (length fs \<noteq> 5 \<or> fs ! 0 \<noteq> ''TCP4'' \<and> fs ! 0 \<noteq> ''TCP6'')"
    using assms unfolding v1_header_def by (metis Inl_Inr_False)
  then obtain fam s d sp dp where fs: "fs = [fam, s, d, sp, dp]" and fam: "fam = ''TCP4'' \<or> fam = ''TCP6''"
    by (auto simp: numeral_eq_Suc length_Suc_conv)
  note eq = assms[unfolded v1_header_def if_not_P[OF g]]
  obtain a b x y where h: "parseProxyProtocolV1Address s fam = Some a" "parseProxyProtocolV1Address d fam = Some b"
    "parseProxyProtocolPort sp = Some x" "parseProxyProtocolPort dp = Some y"
    "h = \<lparr>Version = proxyProtocolVersion1, Command = proxyProtocolCommandProxy,
                Source = \<lparr>apAddr = a, apPort = x\<rparr>, Destination = \<lparr>apAddr = b, apPort = y\<rparr>\<rparr>"
    using eq by (auto simp: fs split: option.splits)
  have port: "parse_uint16 t = Some (unat q)" if "parseProxyProtocolPort t = Some q" for t q
    using that by (auto simp: parseProxyProtocolPort_def parse_uint16_def Let_def unsigned_of_nat take_bit_nat_eq_self split: if_splits)
  have addr: "parse_addr t = Some c \<and> (fam = ''TCP4'' \<and> (\<exists>x. c = Addr4 x)
      \<or> fam = ''TCP6'' \<and> (\<exists>x. c = Addr6 x '''' \<and> take 12 x \<noteq> [0, 0, 0, 0, 0, 0, 0, 0, 0, 0, 0xff, 0xff]))"
    if c: "parseProxyProtocolV1Address t fam = Some c" for t c
  proof -
    obtain c' where p: "parse_addr t = Some c'"
      using c by (cases "parse_addr t") (simp_all add: parseProxyProtocolV1Address_def)
    note u = c[unfolded parseProxyProtocolV1Address_def p option.case]
    have "c' = c" "zone_of c = []" using u by (metis option.distinct(1) option.inject)+
    moreover have "fam = ''TCP4'' \<and> is4 c \<or> fam = ''TCP6'' \<and> is6 c \<and> \<not> is4in6 c" using u fam calculation by (metis option.distinct(1))
    ultimately show ?thesis using p
      by (cases c) (auto simp: addr_defs mapped4_def numeral_eq_Suc)
  qed
  show ?thesis using addr[OF h(1)] addr[OF h(2)] port[OF h(3)] port[OF h(4)]
    by (auto simp: fs h(5) plain_pair_def)
qed

lemma v1_says:
  assumes "parseProxyProtocolV1 (proxyProtocolV1Signature @ l) = Inr h"
  shows "Command h = proxyProtocolCommandProxy \<and> v1_announces (proxyProtocolV1Signature @ l) (Source h) (Destination h)
    \<or> Command h = proxyProtocolCommandLocal \<and> local_header (proxyProtocolV1Signature @ l)"
proof -
  let ?line = "proxyProtocolV1Signature @ l"
  have "has_suffix ?line [0x0d, 0x0a]" "2 \<le> length l"
    using assms by (auto simp: parseProxyProtocolV1_def split: if_splits)
  then obtain b where b: "?line = b @ [0x0d, 0x0a]" by (auto simp: has_suffix_iff)
  have "length b + 2 = 6 + length l" using arg_cong[OF b, of length] by simp
  then have "6 \<le> length b" using \<open>2 \<le> length l\<close> by simp
  then obtain bs where l: "l = bs @ [0x0d, 0x0a]" using arg_cong[OF b, of "drop 6"] by simp
  define body where "body = bytes_string bs"
  have bs: "bs = str_bytes body" by (simp add: body_def str_bytes_bytes_string)
  have crlf: "[0x0d, 0x0a] = str_bytes [CHR 0x0d, CHR 0x0a]" by code_simp
  have sig: "proxyProtocolV1Signature = str_bytes ''PROXY ''" by (simp add: proxyProtocolV1Signature_def)
  have line: "?line = str_bytes (''PROXY '' @ body @ [CHR 0x0d, CHR 0x0a])"
    by (simp only: l bs sig crlf str_bytes_def map_append)
  have p: "(if body = ''UNKNOWN'' \<or> has_prefix body ''UNKNOWN ''
      then Inr \<lparr>Version = proxyProtocolVersion1, Command = proxyProtocolCommandLocal, Source = noAddrPort, Destination = noAddrPort\<rparr>
      else v1_header (split_on CHR '' '' body)) = Inr h"
    using assms unfolding l bs v1_parse_frame .
  show ?thesis
  proof (cases "body = ''UNKNOWN'' \<or> has_prefix body ''UNKNOWN ''")
    case True
    then have "\<exists>t. (t = '''' \<or> hd t = CHR '' '') \<and> body = ''UNKNOWN'' @ t"
    proof
      assume "has_prefix body ''UNKNOWN ''"
      then obtain u where "body = ''UNKNOWN '' @ u" by (auto simp: has_prefix_iff)
      then show ?thesis by (intro exI[of _ "CHR '' '' # u"]) simp
    qed simp
    then obtain t where t: "t = '''' \<or> hd t = CHR '' ''" "body = ''UNKNOWN'' @ t" by blast
    have "?line = str_bytes (''PROXY UNKNOWN'' @ t @ [CHR 0x0d, CHR 0x0a])" unfolding line t(2) by simp
    then have "local_header ?line" unfolding local_header_def using t(1) by blast
    moreover have "Command h = proxyProtocolCommandLocal" using p True by auto
    ultimately show ?thesis by blast
  next
    case False
    then have "v1_header (split_on CHR '' '' body) = Inr h" using p by simp
    from v1_line_says[OF this] obtain s d sp dp fam where
      f: "split_on CHR '' '' body = [fam, s, d, sp, dp]" "fam = (if \<exists>x. apAddr (Source h) = Addr4 x then ''TCP4'' else ''TCP6'')"
      "plain_pair (apAddr (Source h)) (apAddr (Destination h))" "Command h = proxyProtocolCommandProxy"
      "parse_addr s = Some (apAddr (Source h))" "parse_addr d = Some (apAddr (Destination h))"
      "parse_uint16 sp = Some (unat (apPort (Source h)))" "parse_uint16 dp = Some (unat (apPort (Destination h)))" by blast
    have "body = fam @ '' '' @ s @ '' '' @ d @ '' '' @ sp @ '' '' @ dp"
      using split_on_concat[of "CHR '' ''" body] unfolding f(1) by simp
    then have "?line = str_bytes (''PROXY TCP'' @ (if \<exists>x. apAddr (Source h) = Addr4 x then ''4'' else ''6'') @ '' '' @ s @ '' '' @ d
        @ '' '' @ sp @ '' '' @ dp @ [CHR 0x0d, CHR 0x0a])"
      unfolding line f(2) by simp
    then show ?thesis unfolding v1_announces_def using f(3-) by blast
  qed
qed

lemma unat_be16: "be16 hi lo = int (256 * unat hi + unat lo)"
  by (simp add: be16_def)

lemma unat_be_port: "unat (be_port p i) = 256 * unat (p ! i) + unat (p ! (i + 1))"
proof -
  have "int (256 * unat (p ! i) + unat (p ! (i + 1))) < 65536" using be16_bounds(2)[of "p ! i" "p ! (i + 1)"] unfolding unat_be16 .
  then have "256 * unat (p ! i) + unat (p ! (i + 1)) < 65536" by (metis of_nat_less_iff of_nat_numeral)
  then show ?thesis unfolding be_port_def unat_be16 of_int_of_nat_eq by (subst unsigned_of_nat) (simp add: take_bit_nat_eq_self)
qed

lemma first_byte: "drop_bit 4 (b :: byte) = 2 \<Longrightarrow> take_bit 4 b = c \<Longrightarrow> b = 0x20 + c"
  using bits_ident[of 4 b] by simp

lemma v2_endpoints_say:
  assumes "fam = 0x11 \<and> 12 \<le> length p \<or> fam = 0x21 \<and> 36 \<le> length p" "v2_endpoints fam p = (src, dst)"
  shows "\<exists>s d sp1 sp2 dp1 dp2 tlvs. p = s @ d @ [sp1, sp2, dp1, dp2] @ tlvs
     \<and> (fam = 0x11 \<and> length s = 4 \<and> length d = 4 \<and> apAddr src = Addr4 s \<and> apAddr dst = Addr4 d
       \<or> fam = 0x21 \<and> length s = 16 \<and> length d = 16 \<and> apAddr src = Addr6 s '''' \<and> apAddr dst = Addr6 d '''')
     \<and> unat (apPort src) = 256 * unat sp1 + unat sp2 \<and> unat (apPort dst) = 256 * unat dp1 + unat dp2"
proof -
  have cut: "\<exists>s d sp1 sp2 dp1 dp2 tlvs. p = s @ d @ [sp1, sp2, dp1, dp2] @ tlvs \<and> length s = n \<and> length d = n" if "2 * n + 4 \<le> length p" for n
  proof -
    have "drop (2 * n) p = [p ! (2 * n), p ! Suc (2 * n), p ! Suc (Suc (2 * n)), p ! Suc (Suc (Suc (2 * n)))] @ drop (Suc (Suc (Suc (Suc (2 * n))))) p"
      using that by (simp add: Cons_nth_drop_Suc)
    moreover have "p = take n p @ take n (drop n p) @ drop (2 * n) p" by (metis append_take_drop_id drop_drop mult_2)
    moreover have "length (take n p) = n" "length (take n (drop n p)) = n" using that by simp_all
    ultimately show ?thesis by metis
  qed
  have "\<exists>n. 2 * n + 4 \<le> length p \<and> (fam = 0x11 \<and> n = 4 \<or> fam = 0x21 \<and> n = 16)" using assms(1) by auto
  then obtain n where n: "2 * n + 4 \<le> length p" "fam = 0x11 \<and> n = 4 \<or> fam = 0x21 \<and> n = 16" by blast
  obtain s d sp1 sp2 dp1 dp2 tlvs where p: "p = s @ d @ [sp1, sp2, dp1, dp2] @ tlvs" "length s = n" "length d = n" using cut[OF n(1)] by blast
  have port: "unat (be_port p (2 * n)) = 256 * unat sp1 + unat sp2" "unat (be_port p (2 * n + 2)) = 256 * unat dp1 + unat dp2"
    using p by (simp_all add: unat_be_port nth_append)
  have ends: "apAddr src = (if fam = 0x11 then Addr4 s else Addr6 s '''') \<and> apAddr dst = (if fam = 0x11 then Addr4 d else Addr6 d '''')
      \<and> apPort src = be_port p (2 * n) \<and> apPort dst = be_port p (2 * n + 2)"
    using n(2) assms(2) p by (auto simp: v2_endpoints_def slice_def)
  have family: "fam = 0x11 \<and> length s = 4 \<and> length d = 4 \<and> apAddr src = Addr4 s \<and> apAddr dst = Addr4 d
       \<or> fam = 0x21 \<and> length s = 16 \<and> length d = 16 \<and> apAddr src = Addr6 s '''' \<and> apAddr dst = Addr6 d ''''"
    using ends p(2,3) n(2) by auto
  have "unat (apPort src) = 256 * unat sp1 + unat sp2" "unat (apPort dst) = 256 * unat dp1 + unat dp2" using ends port by simp_all
  then show ?thesis using p(1) family by blast
qed

lemma v2_says:
  assumes "readProxyProtocolV2 fin t = (Inr h, s')"
  shows "\<exists>l. t = l @ s'
    \<and> (Command h = proxyProtocolCommandProxy \<and> v2_announces (proxyProtocolV2Signature @ l) (Source h) (Destination h)
      \<or> Command h = proxyProtocolCommandLocal \<and> local_header (proxyProtocolV2Signature @ l))"
proof -
  obtain r1 t1 where f: "io_read_full 4 fin t = (r1, t1)" by (cases "io_read_full 4 fin t")
  obtain fixed where r1: "r1 = Inr fixed" using assms f by (cases r1) (simp_all add: readProxyProtocolV2_def)
  have t: "t = fixed @ t1" "length fixed = 4" using io_read_full_split[OF f] r1 by auto
  then obtain b fam hi lo where fixed: "fixed = [b, fam, hi, lo]" by (auto simp: numeral_eq_Suc length_Suc_conv)
  let ?n = "be16 hi lo"
  obtain r2 t2 where g: "io_read_full (nat ?n) fin t1 = (r2, t2)" by (cases "io_read_full (nat ?n) fin t1")
  have q: "drop_bit 4 b = 2" "take_bit 4 b = proxyProtocolCommandLocal \<or> take_bit 4 b = proxyProtocolCommandProxy"
    using assms f g r1 fixed by (auto simp: readProxyProtocolV2_def Let_def split: if_splits)
  obtain payload where r2: "r2 = Inr payload" and v: "v2_payload (take_bit 4 b) fam payload = Inr h" "t2 = s'"
    using assms f g r1 fixed by (cases r2) (auto simp: readProxyProtocolV2_def Let_def split: if_splits)
  have t1: "t1 = payload @ s'" "length payload = nat ?n" using io_read_full_split[OF g] r2 v(2) by auto
  have len: "256 * unat hi + unat lo = length payload" using t1(2) by (simp only: unat_be16 nat_int)
  have tl: "t = ([b, fam, hi, lo] @ payload) @ s'" using t(1) t1(1) fixed by simp
  have sig: "proxyProtocolV2Signature @ [b, fam, hi, lo] @ payload
      = [0x0d, 0x0a, 0x0d, 0x0a, 0, 0x0d, 0x0a, 0x51, 0x55, 0x49, 0x54, 0x0a, b, fam, hi, lo] @ payload"
    by (simp add: proxyProtocolV2Signature_def)
  from q(2) show ?thesis
  proof
    assume c: "take_bit 4 b = proxyProtocolCommandLocal"
    have "b = 0x20" using first_byte[OF q(1) c] by (simp add: pp_consts)
    moreover have "Command h = proxyProtocolCommandLocal" using v(1) c by (auto simp: v2_payload_def)
    ultimately show ?thesis using tl len sig unfolding local_header_def by blast
  next
    assume c: "take_bit 4 b = proxyProtocolCommandProxy"
    have b: "b = 0x21" using first_byte[OF q(1) c] by (simp add: pp_consts)
    obtain src dst where e: "v2_endpoints fam payload = (src, dst)" by (cases "v2_endpoints fam payload")
    have h: "Command h = proxyProtocolCommandProxy \<and> Source h = src \<and> Destination h = dst" and
      fam: "fam = 0x11 \<and> 12 \<le> length payload \<or> fam = 0x21 \<and> 36 \<le> length payload"
      using v(1) c e by (auto simp: v2_payload_def parseProxyProtocolV2_def proxyProtocolV2AddressLength_def pp_consts split: if_splits option.splits)
    obtain s d sp1 sp2 dp1 dp2 tlvs where p: "payload = s @ d @ [sp1, sp2, dp1, dp2] @ tlvs"
      and family: "fam = 0x11 \<and> length s = 4 \<and> length d = 4 \<and> apAddr src = Addr4 s \<and> apAddr dst = Addr4 d
       \<or> fam = 0x21 \<and> length s = 16 \<and> length d = 16 \<and> apAddr src = Addr6 s '''' \<and> apAddr dst = Addr6 d ''''"
      and ports: "unat (apPort src) = 256 * unat sp1 + unat sp2" "unat (apPort dst) = 256 * unat dp1 + unat dp2"
      using v2_endpoints_say[OF fam e] by blast
    have "v2_announces (proxyProtocolV2Signature @ [b, fam, hi, lo] @ payload) src dst"
      unfolding v2_announces_def
    proof (intro exI conjI)
      show "proxyProtocolV2Signature @ [b, fam, hi, lo] @ payload
        = [0x0d, 0x0a, 0x0d, 0x0a, 0, 0x0d, 0x0a, 0x51, 0x55, 0x49, 0x54, 0x0a, 0x21, fam, hi, lo] @ s @ d @ [sp1, sp2, dp1, dp2] @ tlvs"
        unfolding b p by (simp add: proxyProtocolV2Signature_def)
      show "256 * unat hi + unat lo = length s + length d + 4 + length tlvs" using len unfolding p by simp
    qed (rule family ports)+
    then show ?thesis using tl h by blast
  qed
qed

lemma header_says:
  assumes "readProxyProtocolHeader fin s = (Inr \<lparr>Header = Some h, Replay = rp\<rparr>, s')"
  shows "rp = [] \<and> (\<exists>l. s = l @ s'
    \<and> (Command h = proxyProtocolCommandProxy \<and> (v1_announces l (Source h) (Destination h) \<or> v2_announces l (Source h) (Destination h))
      \<or> Command h = proxyProtocolCommandLocal \<and> local_header l))"
proof -
  have "detect fin [] True True s = (Inr \<lparr>Header = Some h, Replay = rp\<rparr>, s')" using assms by (simp add: readProxyProtocolHeader_def)
  from detect_outcome[OF detecting_start this] obtain t where rp: "rp = []"
    and t: "s = proxyProtocolV1Signature @ t \<and> readProxyProtocolV1 fin t = (Inr h, s')
      \<or> s = proxyProtocolV2Signature @ t \<and> readProxyProtocolV2 fin t = (Inr h, s')" by auto
  from t show ?thesis
  proof
    assume one: "s = proxyProtocolV1Signature @ t \<and> readProxyProtocolV1 fin t = (Inr h, s')"
    then obtain l where "t = l @ s'" "parseProxyProtocolV1 (proxyProtocolV1Signature @ l) = Inr h"
      using v1_loop_reads[of fin proxyProtocolV1Signature t "Inr h" s'] by (auto simp: readProxyProtocolV1_def)
    then show ?thesis using rp one v1_says[of l h] by (metis append_assoc)
  next
    assume "s = proxyProtocolV2Signature @ t \<and> readProxyProtocolV2 fin t = (Inr h, s')"
    then show ?thesis using rp v2_says[of fin t h s'] by (metis append_assoc)
  qed
qed

text \<open>C33: the client address used for access control is the socket's own peer, unless the rule accepts
  PROXY headers and the peer is in its trusted networks: then the stream begins with a complete header,
  which is consumed and nothing more, and the client is the source that header's bytes announce (its
  destination is the local end), or, for a local header, the peer. No header byte is ever passed on to
  the application.\<close>

theorem proxy_client_trusted:
  assumes "prepareInboundProxyProtocol setOK clearOK fin s rule peer = (Inr i, s')"
  shows "(case ProxyProtocol rule of None \<Rightarrow> True | Some pp \<Rightarrow> \<not> Accept pp)
      \<and> i = \<lparr>inRemote = None, inLocal = None, inClient = peer, inReplay = []\<rparr> \<and> s' = s
    \<or> (\<exists>pp l. ProxyProtocol rule = Some pp \<and> Accept pp \<and> peer \<noteq> NoAddr \<and> list_ex (\<lambda>p. prefix_contains p (unmap peer)) (trustedPrefixes pp)
      \<and> s = l @ s'
      \<and> ((\<exists>src dst. (v1_announces l src dst \<or> v2_announces l src dst) \<and> apAddr src \<noteq> NoAddr
            \<and> i = \<lparr>inRemote = Some src, inLocal = Some dst, inClient = unmap (apAddr src), inReplay = []\<rparr>)
        \<or> local_header l \<and> i = \<lparr>inRemote = None, inLocal = None, inClient = peer, inReplay = []\<rparr>))"
proof (cases "\<exists>pp. ProxyProtocol rule = Some pp \<and> Accept pp")
  case False
  then show ?thesis using assms by (auto simp: prepareInboundProxyProtocol_def Let_def split: option.splits)
next
  case True
  then obtain pp where pp: "ProxyProtocol rule = Some pp" "Accept pp" by blast
  obtain r t where rd: "readProxyProtocolHeader fin s = (r, t)" by (cases "readProxyProtocolHeader fin s")
  obtain res h where ok: "Trusts pp peer" "r = Inr res" "Header res = Some h" "t = s'"
    "i = (if Command h = proxyProtocolCommandProxy
          then \<lparr>inRemote = Some (Source h), inLocal = Some (Destination h), inClient = unmap (apAddr (Source h)), inReplay = Replay res\<rparr>
          else \<lparr>inRemote = None, inLocal = None, inClient = peer, inReplay = Replay res\<rparr>)"
    using assms pp rd by (auto simp: prepareInboundProxyProtocol_def Let_def split: if_splits sum.splits option.splits)
  have "res = \<lparr>Header = Some h, Replay = Replay res\<rparr>" using ok(3) by simp
  then have read: "readProxyProtocolHeader fin s = (Inr \<lparr>Header = Some h, Replay = Replay res\<rparr>, s')" using rd ok(2,4) by metis
  have trust: "peer \<noteq> NoAddr \<and> list_ex (\<lambda>p. prefix_contains p (unmap peer)) (trustedPrefixes pp)" using ok(1) by (simp add: Trusts_def)
  have known: "apAddr src \<noteq> NoAddr" if "v1_announces l src dst \<or> v2_announces l src dst" for l src dst
    using that by (auto simp: v1_announces_def v2_announces_def plain_pair_def)
  have commands: "proxyProtocolCommandProxy \<noteq> proxyProtocolCommandLocal" by (simp add: pp_consts)
  from header_says[OF read] obtain l where l: "Replay res = []" "s = l @ s'"
    "Command h = proxyProtocolCommandProxy \<and> (v1_announces l (Source h) (Destination h) \<or> v2_announces l (Source h) (Destination h))
      \<or> Command h = proxyProtocolCommandLocal \<and> local_header l" by blast
  from l(3) show ?thesis
  proof
    assume a: "Command h = proxyProtocolCommandProxy \<and> (v1_announces l (Source h) (Destination h) \<or> v2_announces l (Source h) (Destination h))"
    then have "i = \<lparr>inRemote = Some (Source h), inLocal = Some (Destination h), inClient = unmap (apAddr (Source h)), inReplay = []\<rparr>"
      using ok(5) l(1) by simp
    then show ?thesis using a known pp trust l(2) by blast
  next
    assume a: "Command h = proxyProtocolCommandLocal \<and> local_header l"
    then have "i = \<lparr>inRemote = None, inLocal = None, inClient = peer, inReplay = []\<rparr>" using ok(5) l(1) commands by simp
    then show ?thesis using a pp trust l(2) by blast
  qed
qed

lemma withContext_None: "writeProxyProtocolWithContext before after setOK clearOK q = (None, out) \<Longrightarrow> q = (None, out)"
  by (cases q) (auto simp: writeProxyProtocolWithContext_def split: option.splits if_splits)

lemma unmap_ok: "addr_ok a \<Longrightarrow> a \<noteq> NoAddr \<Longrightarrow> addr_ok (unmap a) \<and> unmap a \<noteq> NoAddr \<and> unmap (unmap a) = unmap a"
  by (auto simp: unmap_def split: addr.splits)

lemma addrPortFromNetAddr_ok:
  assumes "addrPortFromNetAddr a = Some e"
  shows "addr_ok (apAddr e) \<and> apAddr e \<noteq> NoAddr \<and> unmap (apAddr e) = apAddr e"
proof -
  obtain b where "addr_ok b" "b \<noteq> NoAddr" "apAddr e = unmap b"
    using assms by (auto simp: addrPortFromNetAddr_def split: option.splits netaddr.splits if_splits dest: parse_addr_port_ok)
      (metis addr_ok.simps(2) addr.distinct(1), metis addr_ok.simps(3) addr.distinct(3))
  then show ?thesis using unmap_ok by simp
qed

text \<open>chained gateways preserve the client. When one gateway has announced a connection without
  an error, a gateway behind it that trusts it reads exactly that announcement, treats the
  connection as coming from the original client, and leaves the application bytes in place.\<close>

theorem proxy_chain_preserves_client:
  assumes "writeOutboundProxyProtocolContext before after setOK clearOK w remote local rule = (None, out)"
    and "ProxyProtocol rule = Some pp" "Send pp \<noteq> ''''"
    and "ProxyProtocol rule2 = Some pp2" "Accept pp2" "Trusts pp2 peer"
  shows "\<exists>src dst. addrPortFromNetAddr remote = Some src \<and> addrPortFromNetAddr local = Some dst
    \<and> prepareInboundProxyProtocol True True fin (out @ app) rule2 peer
      = (Inr \<lparr>inRemote = Some src, inLocal = Some dst, inClient = apAddr src, inReplay = []\<rparr>, app)"
proof -
  let ?v = "if Send pp = ProxyProtocolV2 then proxyProtocolVersion2 else proxyProtocolVersion1"
  obtain src dst where e: "addrPortFromNetAddr remote = Some src" "addrPortFromNetAddr local = Some dst"
    and w: "writeProxyProtocolHeader w \<lparr>Version = ?v, Command = proxyProtocolCommandProxy, Source = src, Destination = dst\<rparr> = (None, out)"
    using assms(1-3)
    by (auto simp: writeOutboundProxyProtocolContext_def split: option.splits if_splits dest!: withContext_None)
  note src = addrPortFromNetAddr_ok[OF e(1)] and dst = addrPortFromNetAddr_ok[OF e(2)]
  have "readProxyProtocolHeader fin (out @ app) = (Inr \<lparr>Header = Some \<lparr>Version = ?v, Command = proxyProtocolCommandProxy,
      Source = src, Destination = dst\<rparr>, Replay = []\<rparr>, app)"
    using roundtrip_any[OF w, of fin app] src dst by (simp add: canonical_def pp_consts)
  then have "prepareInboundProxyProtocol True True fin (out @ app) rule2 peer
      = (Inr \<lparr>inRemote = Some src, inLocal = Some dst, inClient = apAddr src, inReplay = []\<rparr>, app)"
    using assms(4-6) src by (simp add: prepareInboundProxyProtocol_def)
  then show ?thesis using e by blast
qed

lemma endpoints_plain:
  "(\<exists>fam. validateProxyProtocolEndpoints src dst = Inr fam) \<longleftrightarrow> plain_pair (apAddr src) (apAddr dst)"
proof -
  have "take 12 x = [0, 0, 0, 0, 0, 0, 0, 0, 0, 0, 0xff, 0xff] \<longleftrightarrow> mapped4 x" for x
    by (simp add: mapped4_def numeral_eq_Suc)
  then show ?thesis
    by (cases "apAddr src"; cases "apAddr dst") (auto simp: validateProxyProtocolEndpoints_def plain_pair_def addr_defs Let_def)
qed

text \<open>C34: writing a header fails only for a reason. Over a writer that takes everything, a header is
  written exactly when its version is 1 or 2 and its command is 0 (local), or 1 (proxy) with two
  addresses both IPv4, or both IPv6 without zones and not IPv4-mapped; the length limit of version 1 is
  never the reason, and a refused header leaves nothing on the wire.\<close>

theorem proxy_write_errors:
  assumes "addr_ok (apAddr (Source h))" "addr_ok (apAddr (Destination h))"
    and w: "writeProxyProtocolHeader (\<lambda>b. (length b, None)) h = (err, out)"
  shows "(err = None \<longleftrightarrow> (Version h = 1 \<or> Version h = 2)
      \<and> (Command h = 0 \<or> Command h = 1 \<and> plain_pair (apAddr (Source h)) (apAddr (Destination h))))
    \<and> (err \<noteq> None \<longrightarrow> out = [])"
proof (cases "Version h = proxyProtocolVersion1 \<and> Command h = proxyProtocolCommandProxy")
  case True
  have "length (v1_line fam h) \<le> proxyProtocolV1MaxHeaderLength"
    if "validateProxyProtocolEndpoints (Source h) (Destination h) = Inr fam" for fam
    using v1_roundtrip(2)[OF that assms(1,2)] True by (simp add: pp_consts)
  then show ?thesis using w True unfolding endpoints_plain[symmetric]
    by (auto simp: writeProxyProtocolHeader_def writeProxyProtocolV1_def writeProxyProtocolBytes_def pp_consts Let_def
        split: sum.splits if_splits)
next
  case False
  then show ?thesis using w unfolding endpoints_plain[symmetric]
    by (auto simp: writeProxyProtocolHeader_def writeProxyProtocolV1_def writeProxyProtocolV2_def writeProxyProtocolBytes_def
        pp_consts Let_def split: sum.splits if_splits)
qed

section \<open>Concrete headers\<close>

definition wit_header :: "byte \<Rightarrow> proxyProtocolHeader" where
  "wit_header v = \<lparr>Version = v, Command = proxyProtocolCommandProxy,
     Source = \<lparr>apAddr = Addr4 [1, 2, 3, 4], apPort = 80\<rparr>, Destination = \<lparr>apAddr = Addr4 [10, 0, 0, 1], apPort = 53\<rparr>\<rparr>"

definition wit_out :: "byte \<Rightarrow> byte list" where
  "wit_out v = snd (writeProxyProtocolHeader (\<lambda>b. (length b, None)) (wit_header v))"

lemma wit_write: "writeProxyProtocolHeader (\<lambda>b. (length b, None)) (wit_header 1) = (None, wit_out 1)"
proof -
  have "fst (writeProxyProtocolHeader (\<lambda>b. (length b, None)) (wit_header 1)) = None" by code_simp
  then show ?thesis unfolding wit_out_def by (metis prod.collapse)
qed

theorem proxy_header_roundtrip_witness:
  "readProxyProtocolHeader EOF (wit_out 1 @ [1, 2]) = (Inr \<lparr>Header = Some (wit_header 1), Replay = []\<rparr>, [1, 2])
   \<and> bytes_string (wit_out 1) = ''PROXY TCP4 1.2.3.4 10.0.0.1 80 53'' @ [CHR 0x0d, CHR 0x0a]"
proof
  have "addr_ok (apAddr (Source (wit_header 1)))" "addr_ok (apAddr (Destination (wit_header 1)))" "canonical (wit_header 1) = wit_header 1"
    by (simp_all add: wit_header_def canonical_def pp_consts)
  then show "readProxyProtocolHeader EOF (wit_out 1 @ [1, 2]) = (Inr \<lparr>Header = Some (wit_header 1), Replay = []\<rparr>, [1, 2])"
    using proxy_header_roundtrip[OF wit_write, of EOF "[1, 2]"] by simp
  show "bytes_string (wit_out 1) = ''PROXY TCP4 1.2.3.4 10.0.0.1 80 53'' @ [CHR 0x0d, CHR 0x0a]" by code_simp
qed

definition wit_hello :: "byte list" where
  "wit_hello = str_bytes ''PROXX''"

theorem proxy_detection_transparent_witness:
  "readProxyProtocolHeader EOF wit_hello = (Inr \<lparr>Header = None, Replay = wit_hello\<rparr>, []) \<and> \<not> has_prefix wit_hello proxyProtocolV1Signature"
proof -
  have "readProxyProtocolHeader EOF wit_hello = (Inr \<lparr>Header = None, Replay = wit_hello\<rparr>, [])" by code_simp
  from this proxy_detection_transparent[OF this] show ?thesis by simp
qed

definition wit_pp :: ProxyProtocolConfig where
  "wit_pp = \<lparr>Accept = True, TrustedCIDRs = [''10.0.0.0/8''], Send = ''v1'', trustedPrefixes = [\<lparr>paddr = Addr4 [10, 0, 0, 0], pbits = 8\<rparr>]\<rparr>"

definition wit_pp_rule :: Rule where
  "wit_pp_rule = \<lparr>Name = ''r'', Listen = '''', Mode = ModeNormal, Protocol = ProtocolTCP, Prewarm = False,
     Targets = [], Timeout = 0, Blacklist = [], Allowlist = [], MaxConnections = 0, MaxConnectionsPerIP = 0,
     HealthCheck = None, Hedge = None, ProxyProtocol = Some wit_pp, UserAgent = [], allowPrefixes = [], blockedIPs = {}\<rparr>"

lemma wit_trusts: "Trusts wit_pp (Addr4 [10, 1, 2, 3])"
  by code_simp

lemma wit_outbound:
  "writeOutboundProxyProtocolContext None None True True (\<lambda>b. (length b, None)) (Some (TCPAddr [1, 2, 3, 4] 80)) (Some (TCPAddr [10, 0, 0, 1] 53)) wit_pp_rule
   = (None, wit_out 1)"
  by code_simp

theorem proxy_chain_preserves_client_witness:
  "prepareInboundProxyProtocol True True EOF (wit_out 1 @ [1, 2]) wit_pp_rule (Addr4 [10, 1, 2, 3])
   = (Inr \<lparr>inRemote = Some (Source (wit_header 1)), inLocal = Some (Destination (wit_header 1)),
        inClient = Addr4 [1, 2, 3, 4], inReplay = []\<rparr>, [1, 2])"
proof -
  have "ProxyProtocol wit_pp_rule = Some wit_pp" "Send wit_pp \<noteq> ''''" "Accept wit_pp" by (simp_all add: wit_pp_rule_def wit_pp_def)
  then obtain src dst where "addrPortFromNetAddr (Some (TCPAddr [1, 2, 3, 4] 80)) = Some src" "addrPortFromNetAddr (Some (TCPAddr [10, 0, 0, 1] 53)) = Some dst"
    "prepareInboundProxyProtocol True True EOF (wit_out 1 @ [1, 2]) wit_pp_rule (Addr4 [10, 1, 2, 3])
      = (Inr \<lparr>inRemote = Some src, inLocal = Some dst, inClient = apAddr src, inReplay = []\<rparr>, [1, 2])"
    using proxy_chain_preserves_client[OF wit_outbound _ _ _ _ wit_trusts, of wit_pp wit_pp_rule EOF "[1, 2]"] by blast
  then show ?thesis by (auto simp: addrPortFromNetAddr_def unmap_def wit_header_def)
qed

theorem proxy_client_trusted_witness:
  "\<exists>src dst. (v1_announces (wit_out 2) src dst \<or> v2_announces (wit_out 2) src dst)
     \<and> prepareInboundProxyProtocol True True EOF (wit_out 2 @ [9]) wit_pp_rule (Addr4 [10, 1, 2, 3])
       = (Inr \<lparr>inRemote = Some src, inLocal = Some dst, inClient = unmap (apAddr src), inReplay = []\<rparr>, [9])
     \<and> apAddr src = Addr4 [1, 2, 3, 4] \<and> apAddr dst = Addr4 [10, 0, 0, 1]"
proof -
  let ?i = "\<lparr>inRemote = Some (Source (wit_header 2)), inLocal = Some (Destination (wit_header 2)), inClient = Addr4 [1, 2, 3, 4], inReplay = []\<rparr>"
  have r: "prepareInboundProxyProtocol True True EOF (wit_out 2 @ [9]) wit_pp_rule (Addr4 [10, 1, 2, 3]) = (Inr ?i, [9])" by code_simp
  have "ProxyProtocol wit_pp_rule = Some wit_pp" "Accept wit_pp" by (simp_all add: wit_pp_rule_def wit_pp_def)
  then obtain src dst where "v1_announces (wit_out 2) src dst \<or> v2_announces (wit_out 2) src dst"
    "?i = \<lparr>inRemote = Some src, inLocal = Some dst, inClient = unmap (apAddr src), inReplay = []\<rparr>"
    using proxy_client_trusted[OF r] by auto
  then show ?thesis using r by (intro exI[of _ src] exI[of _ dst]) (auto simp: wit_header_def)
qed

theorem proxy_write_errors_witness:
  "writeProxyProtocolHeader (\<lambda>b. (length b, None)) ((wit_header 2)\<lparr>Source := noAddrPort\<rparr>) = (Some PPEndpoints, []) \<and> fst (writeProxyProtocolHeader (\<lambda>b. (length b, None)) (wit_header 2)) = None"
proof
  show "writeProxyProtocolHeader (\<lambda>b. (length b, None)) ((wit_header 2)\<lparr>Source := noAddrPort\<rparr>) = (Some PPEndpoints, [])" by code_simp
  have "addr_ok (apAddr (Source (wit_header 2)))" "addr_ok (apAddr (Destination (wit_header 2)))" by (simp_all add: wit_header_def)
  moreover have "plain_pair (apAddr (Source (wit_header 2))) (apAddr (Destination (wit_header 2)))"
    "Version (wit_header 2) = 2" "Command (wit_header 2) = 1" by (simp_all add: wit_header_def plain_pair_def pp_consts)
  ultimately show "fst (writeProxyProtocolHeader (\<lambda>b. (length b, None)) (wit_header 2)) = None"
    using proxy_write_errors[of "wit_header 2" "fst (writeProxyProtocolHeader (\<lambda>b. (length b, None)) (wit_header 2))"
        "snd (writeProxyProtocolHeader (\<lambda>b. (length b, None)) (wit_header 2))"] by simp
qed

end
