(* ===== verification/Config_Validation.thy ===== *)
theory Config_Validation
  imports Moto_Config
begin

text \<open>
  Validation of the configuration (\<^verbatim>\<open>config/setting.go\<close>): defaults, normalisation, bounds, the
  compiled access lists, and the checks across rules. A validator returns the normalised value or
  an error, named by the constant part of the program's message. The program updates its argument
  in place; what a failed validation leaves behind is not modelled, since no caller uses it.

  The syntax check of \<^verbatim>\<open>regexp.Compile\<close> and the file system behind \<^verbatim>\<open>os.Stat\<close> are arguments.
  \<^verbatim>\<open>strings.ToLower\<close> and \<^verbatim>\<open>strings.EqualFold\<close> are modelled on ASCII text.
\<close>

section \<open>Standard library\<close>

text \<open>\<^verbatim>\<open>filepath.Clean\<close> of a path that is not empty.\<close>

fun clean_parts :: "bool \<Rightarrow> string list \<Rightarrow> string list \<Rightarrow> string list" where
  "clean_parts rooted acc [] = rev acc"
| "clean_parts rooted acc (p # ps) =
     (if p = '''' \<or> p = ''.'' then clean_parts rooted acc ps
      else if p = ''..'' then
        (case acc of
           a # as \<Rightarrow> if a = ''..'' then clean_parts rooted (p # acc) ps else clean_parts rooted as ps
         | [] \<Rightarrow> clean_parts rooted (if rooted then [] else [p]) ps)
      else clean_parts rooted (p # acc) ps)"

definition clean_path :: "string \<Rightarrow> string" where
  "clean_path s =
     (let rooted = (hd s = CHR ''/''); body = join_with ''/'' (clean_parts rooted [] (split_on CHR ''/'' s))
      in if rooted then CHR ''/'' # body else if body = '''' then ''.'' else body)"

text \<open>\<^verbatim>\<open>url.ParseRequestURI\<close> on a text that begins with a slash: no control byte, and every percent
  sign of the path before a question mark starts an escape.\<close>

fun escapes_ok :: "string \<Rightarrow> bool" where
  "escapes_ok [] = True"
| "escapes_ok (c # s) =
     (if c = CHR ''%'' then (case s of a # b # t \<Rightarrow> is_hex a \<and> is_hex b \<and> escapes_ok t | _ \<Rightarrow> False)
      else escapes_ok s)"

definition request_uri_ok :: "string \<Rightarrow> bool" where
  "request_uri_ok s \<longleftrightarrow> list_all (\<lambda>c. 32 \<le> (of_char c :: nat) \<and> (of_char c :: nat) \<noteq> 127) s
     \<and> escapes_ok (takeWhile (\<lambda>c. c \<noteq> CHR ''?'') s)"

section \<open>Limits and defaults\<close>

definition DefaultMaxConnections :: int where "DefaultMaxConnections = 4096"
definition DefaultMaxConnectionsPerIP :: int where "DefaultMaxConnectionsPerIP = 256"
definition DefaultMetricsListen :: string where "DefaultMetricsListen = ''127.0.0.1:9090''"
definition DefaultHealthCheckInterval :: u64 where "DefaultHealthCheckInterval = 10000"
definition DefaultHealthCheckTimeout :: u64 where "DefaultHealthCheckTimeout = 2000"
definition DefaultHealthCheckFailures :: int where "DefaultHealthCheckFailures = 3"
definition DefaultHealthCheckSuccesses :: int where "DefaultHealthCheckSuccesses = 2"
definition DefaultHedgeMinDelay :: u64 where "DefaultHedgeMinDelay = 25"
definition DefaultHedgeMaxDelay :: u64 where "DefaultHedgeMaxDelay = 250"
definition HealthCheckTCP :: string where "HealthCheckTCP = ''tcp''"
definition HealthCheckHTTP :: string where "HealthCheckHTTP = ''http''"

text \<open>The time limits, in milliseconds.\<close>

definition maxRuleTimeout :: u64 where "maxRuleTimeout = 300000"
definition minHealthInterval :: u64 where "minHealthInterval = 250"
definition maxHealthInterval :: u64 where "maxHealthInterval = 600000"
definition minHealthTimeout :: u64 where "minHealthTimeout = 50"
definition maxHealthTimeout :: u64 where "maxHealthTimeout = 30000"
definition maxHealthThreshold :: int where "maxHealthThreshold = 20"
definition minHedgeDelay :: u64 where "minHedgeDelay = 10"
definition maxHedgeDelay :: u64 where "maxHedgeDelay = 5000"
definition maxHealthPath :: nat where "maxHealthPath = 2048"
definition maxRules :: nat where "maxRules = 256"
definition maxTargets :: nat where "maxTargets = 128"
definition maxPrewarmTargets :: nat where "maxPrewarmTargets = 256"
definition maxActiveHealthJobs :: nat where "maxActiveHealthJobs = 1024"
definition maxConnections :: int where "maxConnections = 1000000"
definition maxAccessItems :: nat where "maxAccessItems = 4096"
definition maxTLSMatchers :: nat where "maxTLSMatchers = 64"
definition maxBasicCredential :: nat where "maxBasicCredential = 4096"
definition maxUserAgents :: nat where "maxUserAgents = 64"
definition maxUserAgentBytes :: nat where "maxUserAgentBytes = 1024"

definition validLogLevels :: "string list" where
  "validLogLevels = [''debug'', ''info'', ''warn'', ''error'', ''dpanic'', ''panic'', ''fatal'']"
definition validModes :: "string list" where
  "validModes = [ModeNormal, ModeRegex, ModeBoost, ModeRoundRobin, ModeTLS]"
definition validProtocols :: "string list" where
  "validProtocols = [ProtocolTCP, ProtocolSOCKS5, ProtocolHTTP]"

lemmas limit_defs [go_consts] = DefaultMaxConnections_def DefaultMaxConnectionsPerIP_def DefaultHealthCheckInterval_def
  DefaultHealthCheckTimeout_def DefaultHealthCheckFailures_def DefaultHealthCheckSuccesses_def DefaultHedgeMinDelay_def
  DefaultHedgeMaxDelay_def maxRuleTimeout_def minHealthInterval_def maxHealthInterval_def minHealthTimeout_def
  maxHealthTimeout_def maxHealthThreshold_def minHedgeDelay_def maxHedgeDelay_def maxHealthPath_def maxConnections_def

section \<open>Endpoints\<close>

definition validateEndpointPort :: "string \<Rightarrow> bool \<Rightarrow> string option" where
  "validateEndpointPort value allowZero =
     (if trim_space value = '''' then Some ''must not be empty''
      else if value \<noteq> trim_space value then Some ''must not have leading or trailing whitespace''
      else case split_host_port value of
        None \<Rightarrow> Some ''invalid''
      | Some (host, portText) \<Rightarrow> (case atoi portText of
            None \<Rightarrow> Some ''port out of range''
          | Some port \<Rightarrow>
              if port < (if allowZero then 0 else 1) \<or> port > 65535 then Some ''port out of range'' else None))"

definition validateEndpoint :: "string \<Rightarrow> string option" where
  "validateEndpoint value = validateEndpointPort value False"

definition endpointUsesPortZero :: "string \<Rightarrow> bool" where
  "endpointUsesPortZero value = (case split_host_port value of
       None \<Rightarrow> False | Some (host, portText) \<Rightarrow> atoi portText = Some 0)"

definition hosts_conflict :: "string \<Rightarrow> string \<Rightarrow> bool" where
  "hosts_conflict h1 h2 =
     (let a1 = parse_addr h1; a2 = parse_addr h2;
          unspec = (\<lambda>a. case a of Some a \<Rightarrow> is_unspecified a | None \<Rightarrow> False)
      in if h1 = '''' \<or> h2 = '''' \<or> unspec a1 \<or> unspec a2 then True
         else case (a1, a2) of
           (Some a, Some b) \<Rightarrow> unmap a = unmap b
         | (None, Some b) \<Rightarrow> equal_fold h1 h2 \<or> equal_fold h1 ''localhost'' \<and> is_loopback (unmap b)
         | (Some a, None) \<Rightarrow> equal_fold h1 h2 \<or> equal_fold h2 ''localhost'' \<and> is_loopback (unmap a)
         | (None, None) \<Rightarrow> equal_fold h1 h2)"

definition endpointsConflict :: "string \<Rightarrow> string \<Rightarrow> bool" where
  "endpointsConflict a b = (case (split_host_port a, split_host_port b) of
       (Some (h1, p1), Some (h2, p2)) \<Rightarrow>
         (case (atoi p1, atoi p2) of
            (Some n1, Some n2) \<Rightarrow> n1 = n2 \<and> hosts_conflict h1 h2
          | _ \<Rightarrow> False)
     | _ \<Rightarrow> False)"

definition loopback_host :: "string \<Rightarrow> bool" where
  "loopback_host value = (case split_host_port value of
       None \<Rightarrow> False
     | Some (host, port) \<Rightarrow> (case parse_addr host of None \<Rightarrow> False | Some a \<Rightarrow> is_loopback (unmap a)))"

section \<open>The parts of a configuration\<close>

record LogConfig =
  Level :: string
  Path :: string

record MetricsConfig =
  Enabled :: bool
  MListen :: string

record Config =
  Log :: LogConfig
  Metrics :: MetricsConfig
  Rules :: "Rule option list"

datatype stat_result = StatDir | StatFile | StatNotExist | StatError

definition validateLogConfig :: "(string \<Rightarrow> stat_result) \<Rightarrow> LogConfig \<Rightarrow> string + LogConfig" where
  "validateLogConfig stat c =
     (let level = to_lower (trim_space (Level c))
      in if level \<notin> set validLogLevels then Inl ''invalid level''
         else
           let c = c\<lparr>Level := level\<rparr>
           in if CHR 0x00 \<in> set (Path c) then Inl ''path contains a NUL byte''
              else if Path c = '''' then Inr c
              else if trim_space (Path c) = '''' then Inl ''path must not be blank''
              else
                let c = c\<lparr>Path := clean_path (Path c)\<rparr>
                in case stat (Path c) of
                  StatDir \<Rightarrow> Inl ''path is a directory''
                | StatError \<Rightarrow> Inl ''inspect path''
                | _ \<Rightarrow> Inr c)"

definition validateMetricsConfig :: "MetricsConfig \<Rightarrow> string + MetricsConfig" where
  "validateMetricsConfig c =
     (if MListen c = '''' then Inr (if Enabled c then c\<lparr>MListen := DefaultMetricsListen\<rparr> else c)
      else case validateEndpoint (MListen c) of
        Some e \<Rightarrow> Inl e
      | None \<Rightarrow> if loopback_host (MListen c) then Inr c else Inl ''must use a numeric loopback address'')"

definition validateBasicAuthConfig :: "BasicAuthConfig \<Rightarrow> string option" where
  "validateBasicAuthConfig c =
     (if Username c = '''' then Some ''username must not be empty''
      else if CHR '':'' \<in> set (Username c) then Some ''username must not contain a colon''
      else if set (Username c @ Password c) \<inter> {CHR 0x00, CHR 0x0d, CHR 0x0a} \<noteq> {}
      then Some ''credentials must not contain NUL, CR, or LF''
      else if length (Username c) + length (Password c) > maxBasicCredential then Some ''credentials too long''
      else None)"

definition label_char :: "char \<Rightarrow> bool" where
  "label_char c \<longleftrightarrow> (let n = (of_char c :: nat) in 97 \<le> n \<and> n \<le> 122 \<or> 48 \<le> n \<and> n \<le> 57 \<or> c = CHR ''-'')"

definition label_ok :: "string \<Rightarrow> bool" where
  "label_ok l \<longleftrightarrow> 0 < length l \<and> length l \<le> 63 \<and> hd l \<noteq> CHR ''-'' \<and> last l \<noteq> CHR ''-'' \<and> list_all label_char l"

definition validateTLSServerNamePattern :: "string \<Rightarrow> string option" where
  "validateTLSServerNamePattern value =
     (if value = '''' \<or> length value > 253 then Some ''must be a non-empty DNS name''
      else
        let wild = has_prefix value ''*.''; name = (if wild then drop 2 value else value)
        in if wild \<and> name = '''' then Some ''wildcard must have a DNS suffix''
           else if \<not> wild \<and> CHR ''*'' \<in> set value then Some ''wildcard is only allowed as the complete left-most label''
           else if has_prefix name ''.'' \<or> has_suffix name ''.'' then Some ''must not begin or end with a dot''
           else if \<not> list_all label_ok (split_on CHR ''.'' name) then Some ''invalid DNS label''
           else None)"

definition parse_ip :: "string \<Rightarrow> addr option" where
  "parse_ip s = (case parse_addr s of Some a \<Rightarrow> if zone_of a = '''' then Some a else None | None \<Rightarrow> None)"

definition validateConnectProxyConfig :: "ConnectProxyConfig \<Rightarrow> string + ConnectProxyConfig" where
  "validateConnectProxyConfig c =
     (let c = (if Protocols c = [] then c\<lparr>Protocols := [ConnectProxyH2]\<rparr> else c)
      in if length (Protocols c) > 2 then Inl ''protocols must not contain more than h3 and h2''
         else if \<not> list_all (\<lambda>p. p = ConnectProxyH2 \<or> p = ConnectProxyH3) (Protocols c) \<or> \<not> distinct (Protocols c)
         then Inl ''invalid or duplicate protocol''
         else if trim_space (ProxyServerName c) \<noteq> ProxyServerName c then Inl ''serverName must not contain leading or trailing whitespace''
         else
           let dns = (ProxyServerName c \<noteq> '''' \<and> parse_ip (ProxyServerName c) = None);
               c = (if dns then c\<lparr>ProxyServerName := to_lower (ProxyServerName c)\<rparr> else c)
           in if dns \<and> CHR ''*'' \<in> set (ProxyServerName c) then Inl ''serverName must not contain a wildcard''
              else if dns \<and> validateTLSServerNamePattern (ProxyServerName c) \<noteq> None then Inl ''invalid serverName''
              else case BasicAuth c of
                None \<Rightarrow> Inr c
              | Some b \<Rightarrow> (case validateBasicAuthConfig b of Some e \<Rightarrow> Inl e | None \<Rightarrow> Inr c))"

definition validateHedgeConfig :: "u64 \<Rightarrow> HedgeConfig \<Rightarrow> string + HedgeConfig" where
  "validateHedgeConfig ruleTimeout c =
     (let c = (if MinDelay c = 0 then c\<lparr>MinDelay := DefaultHedgeMinDelay\<rparr> else c);
          c = (if MaxDelay c = 0 then c\<lparr>MaxDelay := DefaultHedgeMaxDelay\<rparr> else c)
      in if MinDelay c < minHedgeDelay \<or> MinDelay c > maxHedgeDelay then Inl ''minDelay out of range''
         else if MaxDelay c < minHedgeDelay \<or> MaxDelay c > maxHedgeDelay then Inl ''maxDelay out of range''
         else if MinDelay c > MaxDelay c then Inl ''minDelay must not exceed maxDelay''
         else if MaxDelay c \<ge> ruleTimeout then Inl ''maxDelay must be less than rule timeout''
         else Inr c)"

fun server_names :: "string list \<Rightarrow> string list \<Rightarrow> string + string list" where
  "server_names seen [] = Inr []"
| "server_names seen (v # vs) =
     (if v \<noteq> trim_space v then Inl ''serverNames must not have leading or trailing whitespace''
      else
        let v = to_lower v
        in case validateTLSServerNamePattern v of
          Some e \<Rightarrow> Inl e
        | None \<Rightarrow>
            if v \<in> set seen then Inl ''duplicate serverName''
            else map_sum id ((#) v) (server_names (v # seen) vs))"

definition alpn_ok :: "string \<Rightarrow> bool" where
  "alpn_ok p \<longleftrightarrow> 0 < length p \<and> length p \<le> 255 \<and> list_all (\<lambda>c. 0x21 \<le> (of_char c :: nat) \<and> (of_char c :: nat) \<le> 0x7e) p"

definition validateTLSMatchers :: "Target \<Rightarrow> string + Target" where
  "validateTLSMatchers t =
     (if length (ServerNames t) > maxTLSMatchers then Inl ''too many serverNames''
      else if length (ALPN t) > maxTLSMatchers then Inl ''too many alpn entries''
      else case server_names [] (ServerNames t) of
        Inl e \<Rightarrow> Inl e
      | Inr names \<Rightarrow>
          if \<not> list_all alpn_ok (ALPN t) \<or> \<not> distinct (ALPN t) then Inl ''invalid alpn''
          else Inr (t\<lparr>ServerNames := names\<rparr>))"

definition trusted_prefix :: "string \<Rightarrow> prefix option" where
  "trusted_prefix value = (case parse_prefix value of
       None \<Rightarrow> None
     | Some p \<Rightarrow>
         if is4in6 (paddr p) then
           (if pbits p < 96 then None else Some (masked \<lparr>paddr = unmap (paddr p), pbits = pbits p - 96\<rparr>))
         else Some (masked p))"

definition validateProxyProtocolConfig :: "ProxyProtocolConfig \<Rightarrow> string + ProxyProtocolConfig" where
  "validateProxyProtocolConfig c =
     (let c = c\<lparr>Send := to_lower (trim_space (Send c))\<rparr>
      in if Send c \<noteq> '''' \<and> Send c \<noteq> ProxyProtocolV1 \<and> Send c \<noteq> ProxyProtocolV2 then Inl ''invalid send''
         else if \<not> Accept c \<and> TrustedCIDRs c \<noteq> [] then Inl ''trustedCIDRs requires accept=true''
         else if Accept c \<and> TrustedCIDRs c = [] then Inl ''accept=true requires at least one trustedCIDR''
         else if length (TrustedCIDRs c) > maxAccessItems then Inl ''too many trustedCIDRs''
         else case all_some (map trusted_prefix (TrustedCIDRs c)) of
           None \<Rightarrow> Inl ''invalid trusted CIDR''
         | Some ps \<Rightarrow> Inr (c\<lparr>trustedPrefixes := ps\<rparr>))"

definition health_common :: "HealthCheckConfig \<Rightarrow> string + HealthCheckConfig" where
  "health_common c =
     (let c = (if hcType c = '''' then c\<lparr>hcType := HealthCheckTCP\<rparr> else c)
      in if hcType c \<noteq> trim_space (hcType c) then Inl ''type must not have leading or trailing whitespace''
         else
           let c = c\<lparr>hcType := to_lower (hcType c)\<rparr>
           in if hcType c \<noteq> HealthCheckTCP \<and> hcType c \<noteq> HealthCheckHTTP then Inl ''invalid type''
              else
                let c = (if hcInterval c = 0 then c\<lparr>hcInterval := DefaultHealthCheckInterval\<rparr> else c)
                in if hcInterval c < minHealthInterval \<or> hcInterval c > maxHealthInterval then Inl ''interval out of range''
                   else
                     let c = (if hcTimeout c = 0 then c\<lparr>hcTimeout := min DefaultHealthCheckTimeout (hcInterval c)\<rparr> else c)
                     in if hcTimeout c < minHealthTimeout \<or> hcTimeout c > maxHealthTimeout then Inl ''timeout out of range''
                        else if hcTimeout c > hcInterval c then Inl ''timeout must not exceed interval''
                        else
                          let c = (if FailureThreshold c = 0 then c\<lparr>FailureThreshold := DefaultHealthCheckFailures\<rparr> else c);
                              c' = (if SuccessThreshold c = 0 then c\<lparr>SuccessThreshold := DefaultHealthCheckSuccesses\<rparr> else c)
                          in if FailureThreshold c < 1 \<or> FailureThreshold c > maxHealthThreshold then Inl ''failureThreshold out of range''
                             else if SuccessThreshold c' < 1 \<or> SuccessThreshold c' > maxHealthThreshold then Inl ''successThreshold out of range''
                             else Inr c')"

definition health_http :: "HealthCheckConfig \<Rightarrow> string + HealthCheckConfig" where
  "health_http c =
     (let c = (if hcPath c = '''' then c\<lparr>hcPath := ''/''\<rparr> else c)
      in if length (hcPath c) > maxHealthPath then Inl ''path too long''
         else if \<not> has_prefix (hcPath c) ''/'' \<or> has_prefix (hcPath c) ''//'' \<or> \<not> request_uri_ok (hcPath c)
         then Inl ''path must be an HTTP origin-form request target''
         else
           let c = (if StatusMin c = 0 then c\<lparr>StatusMin := 200\<rparr> else c);
               c = (if StatusMax c = 0 then c\<lparr>StatusMax := 399\<rparr> else c)
           in if StatusMin c < 100 \<or> StatusMin c > 599 \<or> StatusMax c < 100 \<or> StatusMax c > 599 then Inl ''status out of range''
              else if StatusMin c > StatusMax c then Inl ''statusMin must not exceed statusMax''
              else Inr c)"

definition validateHealthCheckConfig :: "HealthCheckConfig \<Rightarrow> string + HealthCheckConfig" where
  "validateHealthCheckConfig c = (case health_common c of
       Inl e \<Rightarrow> Inl e
     | Inr c \<Rightarrow>
         if hcType c = HealthCheckTCP then
           (if hcPath c \<noteq> '''' \<or> StatusMin c \<noteq> 0 \<or> StatusMax c \<noteq> 0 then Inl ''path and status range are only valid for http checks''
            else Inr c)
         else health_http c)"

section \<open>Rules\<close>

definition user_agent_ok :: "string \<Rightarrow> bool" where
  "user_agent_ok a \<longleftrightarrow> 0 < length a \<and> length a \<le> maxUserAgentBytes \<and> a = trim_space a
     \<and> list_all (\<lambda>c. 0x20 \<le> (of_char c :: nat) \<and> (of_char c :: nat) \<le> 0x7e) a"

definition validateUserAgents :: "string list \<Rightarrow> string option" where
  "validateUserAgents as =
     (if length as > maxUserAgents then Some ''too many userAgent entries''
      else if \<not> list_all user_agent_ok as \<or> \<not> distinct as then Some ''invalid userAgent''
      else None)"

text \<open>The restrictions of the CONNECT protocols.\<close>

definition connect_checks :: "Rule \<Rightarrow> string option" where
  "connect_checks r =
     (if \<not> IsConnectProtocol (Protocol r) then None
      else if Mode r = ModeRegex \<or> Mode r = ModeTLS then Some ''protocol is not compatible with mode''
      else if Allowlist r = [] \<and> \<not> loopback_host (Listen r) then Some ''non-loopback listener requires an allowlist''
      else if Prewarm r then Some ''protocol cannot use prewarm''
      else if (case HealthCheck r of Some h \<Rightarrow> to_lower (trim_space (hcType h)) = HealthCheckHTTP | None \<Rightarrow> False)
      then Some ''protocol cannot use HTTP healthCheck''
      else if ProxyProtocol r \<noteq> None then Some ''protocol cannot use proxyProtocol''
      else None)"

definition rule_head :: "bool \<Rightarrow> Rule \<Rightarrow> string + Rule" where
  "rule_head ephemeral r =
     (if trim_space (Name r) = '''' then Inl ''name must not be empty''
      else if Name r \<noteq> trim_space (Name r) then Inl ''name must not have leading or trailing whitespace''
      else if validateEndpointPort (Listen r) ephemeral \<noteq> None then Inl ''invalid listen''
      else if Mode r \<notin> set validModes then Inl ''invalid mode''
      else
        let r = (if Protocol r = '''' then r\<lparr>Protocol := ProtocolTCP\<rparr> else r)
        in if Protocol r \<notin> set validProtocols then Inl ''invalid protocol''
           else if UserAgent r \<noteq> [] \<and> \<not> IsConnectProtocol (Protocol r) then Inl ''userAgent is only valid for protocol socks5 or http''
           else if UserAgent r \<noteq> [] \<and> validateUserAgents (UserAgent r) \<noteq> None then Inl ''invalid userAgent''
           else case connect_checks r of
             Some e \<Rightarrow> Inl e
           | None \<Rightarrow>
               if Targets r = [] then Inl ''targets must not be empty''
               else if length (Targets r) > maxTargets then Inl ''too many targets''
               else Inr r)"

definition rule_limits :: "Rule \<Rightarrow> string + Rule" where
  "rule_limits r =
     (if MaxConnections r < 0 then Inl ''maxConnections must not be negative''
      else
        let r = (if MaxConnections r = 0 then r\<lparr>MaxConnections := DefaultMaxConnections\<rparr> else r)
        in if MaxConnections r > maxConnections then Inl ''maxConnections too large''
           else if MaxConnectionsPerIP r < 0 then Inl ''maxConnectionsPerIP must not be negative''
           else
             let r = (if MaxConnectionsPerIP r = 0
                 then r\<lparr>MaxConnectionsPerIP := min DefaultMaxConnectionsPerIP (MaxConnections r)\<rparr> else r)
             in if MaxConnectionsPerIP r > MaxConnections r then Inl ''maxConnectionsPerIP exceeds maxConnections''
                else
                  let r = (if Timeout r = 0 then r\<lparr>Timeout := (if Mode r = ModeRegex then 500 else 3000)\<rparr> else r)
                  in if Timeout r > maxRuleTimeout then Inl ''timeout too large'' else Inr r)"

text \<open>\<open>on_part v x set r\<close> validates an optional part and stores the normalised value.\<close>

definition on_part :: "('a \<Rightarrow> string + 'a) \<Rightarrow> 'a option \<Rightarrow> ('a option \<Rightarrow> Rule \<Rightarrow> Rule) \<Rightarrow> Rule \<Rightarrow> string + Rule" where
  "on_part v x put r = (case x of
       None \<Rightarrow> Inr r
     | Some y \<Rightarrow> (case v y of Inl e \<Rightarrow> Inl e | Inr z \<Rightarrow> Inr (put (Some z) r)))"

definition and_then :: "string + 'a \<Rightarrow> ('a \<Rightarrow> string + 'b) \<Rightarrow> string + 'b" where
  "and_then x f = (case x of Inl e \<Rightarrow> Inl e | Inr y \<Rightarrow> f y)"

definition rule_parts :: "Rule \<Rightarrow> string + Rule" where
  "rule_parts r =
     (if Hedge r \<noteq> None \<and> Mode r \<noteq> ModeBoost then Inl ''hedge is only valid in boost mode''
      else and_then (on_part (validateHedgeConfig (Timeout r)) (Hedge r) (\<lambda>h. Hedge_update (\<lambda>_. h)) r)
        (\<lambda>r. and_then (on_part validateHealthCheckConfig (HealthCheck r) (\<lambda>h. HealthCheck_update (\<lambda>_. h)) r)
          (\<lambda>r. and_then (on_part validateProxyProtocolConfig (ProxyProtocol r) (\<lambda>p. ProxyProtocol_update (\<lambda>_. p)) r)
            (\<lambda>r. if Prewarm r \<and> (case ProxyProtocol r of Some p \<Rightarrow> Send p \<noteq> '''' | None \<Rightarrow> False)
              then Inl ''prewarm cannot be combined with outbound PROXY protocol'' else Inr r))))"

text \<open>One target, given the rule, the addresses seen so far and the TLS fallbacks counted so far.\<close>

definition target_matchers :: "(string \<Rightarrow> bool) \<Rightarrow> Rule \<Rightarrow> Target \<Rightarrow> string + Target" where
  "target_matchers compiles r t =
     (if Mode r = ModeRegex \<and> \<not> compiles (Regexp t) then Inl ''invalid regexp''
      else
        let t = t\<lparr>Re := (if Mode r = ModeRegex then Some (Regexp t) else None)\<rparr>
        in if Mode r = ModeTLS then
             (if Regexp t \<noteq> '''' then Inl ''regexp is not valid in tls mode'' else validateTLSMatchers t)
           else if ServerNames t \<noteq> [] \<or> ALPN t \<noteq> [] then Inl ''serverNames and alpn are only valid in tls mode''
           else Inr t)"

definition target_proxy :: "Rule \<Rightarrow> string list \<Rightarrow> Target \<Rightarrow> string + Target" where
  "target_proxy r seen t =
     (if IsConnectProtocol (Protocol r) then
        (if Address t \<in> set seen then Inl ''protocol requires unique target addresses''
         else case ConnectProxy t of
           None \<Rightarrow> Inl ''connectProxy is required''
         | Some c \<Rightarrow> (case validateConnectProxyConfig c of Inl e \<Rightarrow> Inl e | Inr c \<Rightarrow> Inr (t\<lparr>ConnectProxy := Some c\<rparr>)))
      else if ConnectProxy t \<noteq> None then Inl ''connectProxy is only valid for protocol socks5 or http''
      else Inr t)"

definition tls_fallback :: "Rule \<Rightarrow> Target \<Rightarrow> bool" where
  "tls_fallback r t \<longleftrightarrow> Mode r = ModeTLS \<and> ServerNames t = [] \<and> ALPN t = []"

fun rule_targets ::
  "(string \<Rightarrow> bool) \<Rightarrow> Rule \<Rightarrow> string list \<Rightarrow> nat \<Rightarrow> Target option list \<Rightarrow> string + Target option list" where
  "rule_targets compiles r seen fallbacks [] = Inr []"
| "rule_targets compiles r seen fallbacks (None # ts) = Inl ''target is null''"
| "rule_targets compiles r seen fallbacks (Some t # ts) =
     (if validateEndpoint (Address t) \<noteq> None then Inl ''invalid target address''
      else case target_proxy r seen t of
        Inl e \<Rightarrow> Inl e
      | Inr t \<Rightarrow> (case target_matchers compiles r t of
            Inl e \<Rightarrow> Inl e
          | Inr t \<Rightarrow>
              let fallbacks = (if tls_fallback r t then fallbacks + 1 else fallbacks)
              in if fallbacks > 1 then Inl ''tls mode permits at most one fallback target''
                 else map_sum id ((#) (Some t)) (rule_targets compiles r (Address t # seen) fallbacks ts)))"

definition target_addresses :: "Target option list \<Rightarrow> string set" where
  "target_addresses ts = Address ` set (List.map_filter id ts)"

definition allow_prefix :: "string \<Rightarrow> prefix option" where
  "allow_prefix item = map_option masked (parse_prefix item)"

definition blocked_set :: "(string \<times> bool) list \<Rightarrow> addr set option" where
  "blocked_set bl =
     (if list_all (\<lambda>(item, enabled). parse_addr item \<noteq> None) bl
      then Some (set (map (\<lambda>(item, enabled). unmap (the (parse_addr item))) (filter snd bl))) else None)"

definition rule_access :: "Rule \<Rightarrow> string + Rule" where
  "rule_access r =
     (if length (Allowlist r) > maxAccessItems then Inl ''too many allowlist entries''
      else if length (Blacklist r) > maxAccessItems then Inl ''too many blacklist entries''
      else case all_some (map allow_prefix (Allowlist r)) of
        None \<Rightarrow> Inl ''invalid allowlist CIDR''
      | Some ps \<Rightarrow> (case blocked_set (Blacklist r) of
            None \<Rightarrow> Inl ''invalid blacklist IP''
          | Some b \<Rightarrow> Inr (r\<lparr>allowPrefixes := ps, blockedIPs := b\<rparr>)))"

definition validateRule :: "(string \<Rightarrow> bool) \<Rightarrow> bool \<Rightarrow> Rule \<Rightarrow> string + Rule" where
  "validateRule compiles ephemeral r =
     and_then (rule_head ephemeral r) (\<lambda>r. and_then (rule_limits r) (\<lambda>r. and_then (rule_parts r) (\<lambda>r.
       and_then (rule_targets compiles r [] 0 (Targets r)) (\<lambda>ts.
         let r = r\<lparr>Targets := ts\<rparr>
         in if Hedge r \<noteq> None \<and> card (target_addresses ts) < 2 then Inl ''hedge requires at least two unique target addresses''
            else rule_access r))))"

section \<open>The configuration\<close>

text \<open>What the loop over the rules has seen.\<close>

record rules_seen =
  rsNames :: "string list"
  rsListeners :: "string list"
  rsPrewarm :: "string set"
  rsJobs :: nat

definition listeners_conflict :: "string \<Rightarrow> string \<Rightarrow> bool" where
  "listeners_conflict a b \<longleftrightarrow> \<not> endpointUsesPortZero a \<and> \<not> endpointUsesPortZero b \<and> endpointsConflict a b"

definition rules_step :: "Rule \<Rightarrow> rules_seen \<Rightarrow> string + rules_seen" where
  "rules_step r s =
     (if Name r \<in> set (rsNames s) then Inl ''duplicate name''
      else if list_ex (listeners_conflict (Listen r)) (rsListeners s) then Inl ''duplicate listen address''
      else
        let pre = (if Prewarm r then rsPrewarm s \<union> target_addresses (Targets r) else rsPrewarm s);
            jobs = (if HealthCheck r \<noteq> None then rsJobs s + card (target_addresses (Targets r)) else rsJobs s)
        in if Prewarm r \<and> card pre > maxPrewarmTargets then Inl ''too many prewarm targets''
           else if HealthCheck r \<noteq> None \<and> jobs > maxActiveHealthJobs then Inl ''too many active health checks''
           else Inr \<lparr>rsNames = rsNames s @ [Name r], rsListeners = rsListeners s @ [Listen r], rsPrewarm = pre, rsJobs = jobs\<rparr>)"

fun rules_loop :: "(string \<Rightarrow> bool) \<Rightarrow> bool \<Rightarrow> rules_seen \<Rightarrow> Rule option list \<Rightarrow> string + Rule option list" where
  "rules_loop compiles ephemeral s [] = Inr []"
| "rules_loop compiles ephemeral s (None # rs) = Inl ''rule is null''"
| "rules_loop compiles ephemeral s (Some r # rs) = (case validateRule compiles ephemeral r of
       Inl e \<Rightarrow> Inl e
     | Inr r \<Rightarrow> (case rules_step r s of
           Inl e \<Rightarrow> Inl e
         | Inr s \<Rightarrow> map_sum id ((#) (Some r)) (rules_loop compiles ephemeral s rs)))"

definition validateRules :: "(string \<Rightarrow> bool) \<Rightarrow> bool \<Rightarrow> Rule option list \<Rightarrow> string + Rule option list" where
  "validateRules compiles ephemeral rs =
     (if rs = [] then Inl ''rules must not be empty''
      else if length rs > maxRules then Inl ''too many rules''
      else rules_loop compiles ephemeral \<lparr>rsNames = [], rsListeners = [], rsPrewarm = {}, rsJobs = 0\<rparr> rs)"

definition PrepareRuntimeRules :: "(string \<Rightarrow> bool) \<Rightarrow> Rule option list \<Rightarrow> string + Rule option list" where
  "PrepareRuntimeRules compiles rs = validateRules compiles True rs"

definition validateConfig :: "(string \<Rightarrow> bool) \<Rightarrow> (string \<Rightarrow> stat_result) \<Rightarrow> Config \<Rightarrow> string + Config" where
  "validateConfig compiles stat c =
     and_then (validateLogConfig stat (Log c)) (\<lambda>l.
       and_then (validateMetricsConfig (Metrics c)) (\<lambda>m.
         and_then (validateRules compiles False (Rules c)) (\<lambda>rs.
           if Enabled m \<and> MListen m \<noteq> '''' \<and> list_ex (\<lambda>r. endpointsConflict (MListen m) (Listen (the r))) rs
           then Inl ''metrics listen address conflicts'' else Inr \<lparr>Log = l, Metrics = m, Rules = rs\<rparr>)))"

text \<open>The process-wide configuration: \<open>loaded\<close> is the outcome of reading and decoding a file.\<close>

definition SetGlobal ::
  "(string \<Rightarrow> bool) \<Rightarrow> (string \<Rightarrow> stat_result) \<Rightarrow> Config option \<Rightarrow> Config option \<Rightarrow> string option \<times> Config option" where
  "SetGlobal compiles stat cfg global = (case cfg of
       None \<Rightarrow> (Some ''config is nil'', global)
     | Some c \<Rightarrow> (case validateConfig compiles stat c of Inl e \<Rightarrow> (Some e, global) | Inr c \<Rightarrow> (None, Some c)))"

definition Reload ::
  "(string \<Rightarrow> bool) \<Rightarrow> (string \<Rightarrow> stat_result) \<Rightarrow> string + Config \<Rightarrow> Config option \<Rightarrow> string option \<times> Config option" where
  "Reload compiles stat decoded global = (case and_then decoded (validateConfig compiles stat) of
       Inl e \<Rightarrow> (Some e, global) | Inr c \<Rightarrow> (None, Some c))"

section \<open>Text that normalisation leaves alone\<close>

definition plain_char :: "char \<Rightarrow> bool" where
  "plain_char c \<longleftrightarrow> \<not> ascii_space c \<and> (of_char c :: nat) < 128"

lemma lead_space_plain: "plain_char c \<Longrightarrow> (\<forall>p\<in>set ss. p \<noteq> [] \<and> (of_char (hd p) :: nat) \<ge> 128) \<Longrightarrow> lead_space ss (c # s) = 0"
proof -
  assume c: "plain_char c" and ss: "\<forall>p\<in>set ss. p \<noteq> [] \<and> (of_char (hd p) :: nat) \<ge> 128"
  have "\<not> has_prefix (c # s) p" if "p \<in> set ss" for p
    using ss c that by (cases p) (auto simp: has_prefix_iff plain_char_def)
  then have "find (has_prefix (c # s)) ss = None" by (simp add: find_None_iff)
  then show ?thesis using c by (simp add: lead_space_def plain_char_def)
qed

lemma trim_left_plain: "s = [] \<or> plain_char (hd s) \<Longrightarrow> (\<forall>p\<in>set ss. p \<noteq> [] \<and> (of_char (hd p) :: nat) \<ge> 128) \<Longrightarrow> trim_left ss s = s"
  by (subst trim_left.simps, cases s) (auto simp: lead_space_plain Let_def)

lemma utf8_spaces_high: "\<forall>p\<in>set utf8_spaces. p \<noteq> [] \<and> (of_char (hd p) :: nat) \<ge> 128"
  "\<forall>p\<in>set (map rev utf8_spaces). p \<noteq> [] \<and> (of_char (hd p) :: nat) \<ge> 128"
  by (simp_all add: utf8_spaces_def)

lemma trim_space_plain: "list_all plain_char s \<Longrightarrow> trim_space s = s"
proof -
  assume s: "list_all plain_char s"
  have "trim_left utf8_spaces s = s" using s by (intro trim_left_plain utf8_spaces_high) (cases s; auto)
  moreover have "trim_left (map rev utf8_spaces) (rev s) = rev s"
    using s by (intro trim_left_plain utf8_spaces_high) (cases s rule: rev_cases; auto)
  ultimately show ?thesis by (simp add: trim_space_def)
qed

lemma trim_space_consts [simp]:
  "trim_space '''' = ''''" "trim_space ProxyProtocolV1 = ProxyProtocolV1" "trim_space ProxyProtocolV2 = ProxyProtocolV2"
  "trim_space HealthCheckTCP = HealthCheckTCP" "trim_space HealthCheckHTTP = HealthCheckHTTP"
  by (simp_all add: trim_space_plain plain_char_def ascii_space_def ProxyProtocolV1_def ProxyProtocolV2_def HealthCheckTCP_def HealthCheckHTTP_def)

lemma to_lower_consts [simp]:
  "to_lower '''' = ''''" "to_lower ProxyProtocolV1 = ProxyProtocolV1" "to_lower ProxyProtocolV2 = ProxyProtocolV2"
  "to_lower HealthCheckTCP = HealthCheckTCP" "to_lower HealthCheckHTTP = HealthCheckHTTP"
  by (simp_all add: to_lower_def lower_char_def ProxyProtocolV1_def ProxyProtocolV2_def HealthCheckTCP_def HealthCheckHTTP_def)

lemma split_on_chars: "c \<in> set s \<Longrightarrow> c = x \<or> (\<exists>p\<in>set (split_on x s). c \<in> set p)"
proof (induction s)
  case (Cons a s)
  then show ?case by (cases "split_on x s") (auto split: if_splits)
qed simp

lemma label_char_plain: "label_char c \<Longrightarrow> plain_char c"
  by (auto simp: label_char_def plain_char_def ascii_space_def Let_def)

lemma pattern_plain: "validateTLSServerNamePattern v = None \<Longrightarrow> list_all plain_char v"
proof -
  assume v: "validateTLSServerNamePattern v = None"
  define name where "name = (if has_prefix v ''*.'' then drop 2 v else v)"
  have labels: "list_all label_ok (split_on CHR ''.'' name)"
    using v by (auto simp: validateTLSServerNamePattern_def Let_def name_def split: if_splits)
  have "plain_char c" if "c \<in> set name" for c
    using split_on_chars[OF that, of "CHR ''.''"] labels label_char_plain
    by (auto simp: list_all_iff label_ok_def plain_char_def ascii_space_def)
  moreover have "set v \<subseteq> set ''*.'' \<union> set name"
    by (auto simp: name_def has_prefix_iff)
  ultimately show ?thesis by (fastforce simp: list_all_iff plain_char_def ascii_space_def)
qed

section \<open>Validated parts\<close>

definition hedge_wf :: "u64 \<Rightarrow> HedgeConfig \<Rightarrow> bool" where
  "hedge_wf timeout c \<longleftrightarrow> minHedgeDelay \<le> MinDelay c \<and> MinDelay c \<le> MaxDelay c \<and> MaxDelay c \<le> maxHedgeDelay \<and> MaxDelay c < timeout"

definition health_wf :: "HealthCheckConfig \<Rightarrow> bool" where
  "health_wf c \<longleftrightarrow> (hcType c = HealthCheckTCP \<or> hcType c = HealthCheckHTTP)
     \<and> minHealthInterval \<le> hcInterval c \<and> hcInterval c \<le> maxHealthInterval
     \<and> minHealthTimeout \<le> hcTimeout c \<and> hcTimeout c \<le> maxHealthTimeout \<and> hcTimeout c \<le> hcInterval c
     \<and> 1 \<le> FailureThreshold c \<and> FailureThreshold c \<le> maxHealthThreshold
     \<and> 1 \<le> SuccessThreshold c \<and> SuccessThreshold c \<le> maxHealthThreshold
     \<and> (hcType c = HealthCheckHTTP \<longrightarrow> has_prefix (hcPath c) ''/'' \<and> 100 \<le> StatusMin c \<and> StatusMin c \<le> StatusMax c \<and> StatusMax c \<le> 599)"

definition proxy_wf :: "ConnectProxyConfig \<Rightarrow> bool" where
  "proxy_wf c \<longleftrightarrow> Protocols c \<noteq> [] \<and> distinct (Protocols c) \<and> set (Protocols c) \<subseteq> {ConnectProxyH2, ConnectProxyH3}"

lemma hedge_valid:
  "validateHedgeConfig t c = Inr c' \<Longrightarrow> hedge_wf t c' \<and> validateHedgeConfig t c' = Inr c'"
  by (cases c) (auto simp: validateHedgeConfig_def hedge_wf_def Let_def limit_defs not_less not_le split: if_splits)

lemma connect_valid:
  assumes "validateConnectProxyConfig c = Inr c'" shows "proxy_wf c' \<and> validateConnectProxyConfig c' = Inr c'"
proof -
  define d where "d = (if Protocols c = [] then c\<lparr>Protocols := [ConnectProxyH2]\<rparr> else c)"
  define dns where "dns = (ProxyServerName d \<noteq> [] \<and> parse_ip (ProxyServerName d) = None)"
  define e where "e = (if dns then d\<lparr>ProxyServerName := to_lower (ProxyServerName d)\<rparr> else d)"
  have c: "\<not> length (Protocols d) > 2" "list_all (\<lambda>p. p = ConnectProxyH2 \<or> p = ConnectProxyH3) (Protocols d)" "distinct (Protocols d)"
    "trim_space (ProxyServerName d) = ProxyServerName d" "\<not> (dns \<and> CHR ''*'' \<in> set (ProxyServerName e))"
    "\<not> (dns \<and> validateTLSServerNamePattern (ProxyServerName e) \<noteq> None)"
    "c' = e" "case BasicAuth e of None \<Rightarrow> True | Some b \<Rightarrow> validateBasicAuthConfig b = None"
    using assms unfolding validateConnectProxyConfig_def Let_def d_def[symmetric] dns_def[symmetric] e_def[symmetric]
    by (auto split: if_splits option.splits)
  have pr: "Protocols e = Protocols d" "Protocols d \<noteq> []" by (simp_all add: e_def d_def)
  have tr: "trim_space (ProxyServerName e) = ProxyServerName e"
    using c(4,6) pattern_plain trim_space_plain by (auto simp: e_def)
  have low: "to_lower (ProxyServerName e) = ProxyServerName e" if "dns" using that by (simp add: e_def)
  have same: "dns" if "ProxyServerName e \<noteq> []" "parse_ip (ProxyServerName e) = None"
    using that by (cases dns) (auto simp: e_def dns_def)
  have "validateConnectProxyConfig e = Inr e"
  proof (cases "ProxyServerName e \<noteq> [] \<and> parse_ip (ProxyServerName e) = None")
    case True
    then have "dns" using same by blast
    then show ?thesis using True c pr tr low
      by (auto simp: validateConnectProxyConfig_def Let_def split: option.splits)
  next
    case False
    then show ?thesis using c pr tr
      by (auto simp: validateConnectProxyConfig_def Let_def split: option.splits)
  qed
  then show ?thesis using c pr by (auto simp: proxy_wf_def list_all_iff)
qed

lemma server_names_valid:
  "server_names seen vs = Inr ns \<Longrightarrow> server_names seen ns = Inr ns \<and> length ns = length vs"
proof (induction seen vs arbitrary: ns rule: server_names.induct)
  case (2 seen v vs)
  let ?v = "to_lower v"
  obtain ns' where ok: "validateTLSServerNamePattern ?v = None" "?v \<notin> set seen" "server_names (?v # seen) vs = Inr ns'" "ns = ?v # ns'"
    using "2.prems" by (auto simp: Let_def map_sum_def split: if_splits option.splits sum.splits)
  then have "server_names (?v # seen) ns' = Inr ns' \<and> length ns' = length vs" using "2.prems" "2.IH"[OF _ refl] by (auto split: if_splits)
  moreover have "trim_space ?v = ?v" using pattern_plain[OF ok(1)] trim_space_plain by blast
  ultimately show ?case using ok by (simp add: Let_def)
qed simp

lemma matchers_valid:
  assumes "validateTLSMatchers t = Inr t'" shows "validateTLSMatchers t' = Inr t' \<and> Address t' = Address t \<and> Regexp t' = Regexp t
    \<and> Re t' = Re t \<and> ConnectProxy t' = ConnectProxy t"
proof -
  obtain ns where "server_names [] (ServerNames t) = Inr ns" "t' = t\<lparr>ServerNames := ns\<rparr>"
    "\<not> length (ServerNames t) > maxTLSMatchers" "\<not> length (ALPN t) > maxTLSMatchers" "list_all alpn_ok (ALPN t)" "distinct (ALPN t)"
    using assms by (auto simp: validateTLSMatchers_def split: if_splits sum.splits)
  then show ?thesis using server_names_valid[of "[]" "ServerNames t" ns] by (simp add: validateTLSMatchers_def)
qed

lemma pp_valid:
  assumes "validateProxyProtocolConfig c = Inr c'"
  shows "validateProxyProtocolConfig c' = Inr c' \<and> Send c' \<in> {'''', ProxyProtocolV1, ProxyProtocolV2} \<and> Accept c' = Accept c
    \<and> (Accept c' \<longleftrightarrow> trustedPrefixes c' \<noteq> [])"
proof -
  let ?s = "to_lower (trim_space (Send c))"
  obtain ps where h: "?s \<in> {'''', ProxyProtocolV1, ProxyProtocolV2}" "all_some (map trusted_prefix (TrustedCIDRs c)) = Some ps"
    "c' = c\<lparr>Send := ?s, trustedPrefixes := ps\<rparr>" "Accept c \<longleftrightarrow> TrustedCIDRs c \<noteq> []" "\<not> length (TrustedCIDRs c) > maxAccessItems"
    using assms by (auto simp: validateProxyProtocolConfig_def Let_def split: if_splits option.splits)
  have "length ps = length (TrustedCIDRs c)" using all_some_length[OF h(2)] by simp
  then have "ps \<noteq> [] \<longleftrightarrow> TrustedCIDRs c \<noteq> []" by (cases ps; cases "TrustedCIDRs c") auto
  moreover have "trim_space ?s = ?s" "to_lower ?s = ?s" using h(1) by auto
  ultimately show ?thesis using h by (auto simp: validateProxyProtocolConfig_def Let_def)
qed

definition common_wf :: "HealthCheckConfig \<Rightarrow> bool" where
  "common_wf c \<longleftrightarrow> (hcType c = HealthCheckTCP \<or> hcType c = HealthCheckHTTP)
     \<and> minHealthInterval \<le> hcInterval c \<and> hcInterval c \<le> maxHealthInterval
     \<and> minHealthTimeout \<le> hcTimeout c \<and> hcTimeout c \<le> maxHealthTimeout \<and> hcTimeout c \<le> hcInterval c
     \<and> 1 \<le> FailureThreshold c \<and> FailureThreshold c \<le> maxHealthThreshold
     \<and> 1 \<le> SuccessThreshold c \<and> SuccessThreshold c \<le> maxHealthThreshold"

lemma health_type_nonempty: "hcType c = HealthCheckTCP \<or> hcType c = HealthCheckHTTP \<Longrightarrow>
  hcType c \<noteq> '''' \<and> trim_space (hcType c) = hcType c \<and> to_lower (hcType c) = hcType c"
  by (elim disjE) (simp_all, simp_all add: HealthCheckTCP_def HealthCheckHTTP_def)

lemma common_wf_fixed: "common_wf c \<Longrightarrow> health_common c = Inr c"
proof -
  assume w: "common_wf c"
  have "hcInterval c \<noteq> 0" "hcTimeout c \<noteq> 0"
    using w by (auto simp: common_wf_def limit_defs)
  then show ?thesis using w health_type_nonempty[of c]
    by (simp add: health_common_def common_wf_def Let_def not_less)
qed

lemma health_common_wf: assumes "health_common c = Inr c'"
  shows "common_wf c' \<and> hcPath c' = hcPath c \<and> StatusMin c' = StatusMin c \<and> StatusMax c' = StatusMax c
    \<and> hcType c' = to_lower (if hcType c = '''' then HealthCheckTCP else hcType c)
    \<and> (hcType c \<noteq> '''' \<longrightarrow> trim_space (hcType c) = hcType c)"
proof -
  define c1 where "c1 = (if hcType c = [] then c\<lparr>hcType := HealthCheckTCP\<rparr> else c)"
  define c2 where "c2 = c1\<lparr>hcType := to_lower (hcType c1)\<rparr>"
  define c3 where "c3 = (if hcInterval c2 = 0 then c2\<lparr>hcInterval := DefaultHealthCheckInterval\<rparr> else c2)"
  define c4 where "c4 = (if hcTimeout c3 = 0 then c3\<lparr>hcTimeout := min DefaultHealthCheckTimeout (hcInterval c3)\<rparr> else c3)"
  define c5 where "c5 = (if FailureThreshold c4 = 0 then c4\<lparr>FailureThreshold := DefaultHealthCheckFailures\<rparr> else c4)"
  define c6 where "c6 = (if SuccessThreshold c5 = 0 then c5\<lparr>SuccessThreshold := DefaultHealthCheckSuccesses\<rparr> else c5)"
  note fold = c1_def[symmetric] c2_def[symmetric] c3_def[symmetric] c4_def[symmetric] c5_def[symmetric] c6_def[symmetric]
  have h: "hcType c1 = trim_space (hcType c1)" "hcType c2 = HealthCheckTCP \<or> hcType c2 = HealthCheckHTTP"
    "minHealthInterval \<le> hcInterval c3" "hcInterval c3 \<le> maxHealthInterval"
    "minHealthTimeout \<le> hcTimeout c4" "hcTimeout c4 \<le> maxHealthTimeout" "hcTimeout c4 \<le> hcInterval c4"
    "1 \<le> FailureThreshold c5" "FailureThreshold c5 \<le> maxHealthThreshold"
    "1 \<le> SuccessThreshold c6" "SuccessThreshold c6 \<le> maxHealthThreshold" "c' = c6"
    using assms unfolding health_common_def Let_def fold by (auto simp: not_less not_le split: if_splits)
  have f: "hcType c6 = hcType c2" "hcInterval c6 = hcInterval c3" "hcInterval c4 = hcInterval c3" "hcTimeout c6 = hcTimeout c4"
    "FailureThreshold c6 = FailureThreshold c5" "hcPath c6 = hcPath c" "StatusMin c6 = StatusMin c" "StatusMax c6 = StatusMax c"
    unfolding c6_def c5_def c4_def c3_def by simp_all (simp_all add: c2_def c1_def)
  have "hcType c2 = to_lower (if hcType c = '''' then HealthCheckTCP else hcType c)" by (simp add: c2_def c1_def)
  moreover have "hcType c \<noteq> '''' \<longrightarrow> trim_space (hcType c) = hcType c" using h(1) by (simp add: c1_def split: if_splits)
  ultimately show ?thesis using h f by (simp add: common_wf_def)
qed

lemma health_http_wf: assumes "health_http c = Inr c'"
  shows "health_http c' = Inr c' \<and> (common_wf c' \<longleftrightarrow> common_wf c) \<and> hcType c' = hcType c
    \<and> has_prefix (hcPath c') ''/'' \<and> 100 \<le> StatusMin c' \<and> StatusMin c' \<le> StatusMax c' \<and> StatusMax c' \<le> 599"
proof -
  define c1 where "c1 = (if hcPath c = [] then c\<lparr>hcPath := ''/''\<rparr> else c)"
  define c2 where "c2 = (if StatusMin c1 = 0 then c1\<lparr>StatusMin := 200\<rparr> else c1)"
  define c3 where "c3 = (if StatusMax c2 = 0 then c2\<lparr>StatusMax := 399\<rparr> else c2)"
  note fold = c1_def[symmetric] c2_def[symmetric] c3_def[symmetric]
  have h: "\<not> length (hcPath c1) > maxHealthPath" "has_prefix (hcPath c1) ''/''" "\<not> has_prefix (hcPath c1) ''//''" "request_uri_ok (hcPath c1)"
    "100 \<le> StatusMin c3" "StatusMin c3 \<le> 599" "100 \<le> StatusMax c3" "StatusMax c3 \<le> 599" "StatusMin c3 \<le> StatusMax c3" "c' = c3"
    using assms unfolding health_http_def Let_def fold by (auto simp: not_less not_le split: if_splits)
  have f: "hcPath c3 = hcPath c1" "hcType c3 = hcType c" "common_wf c3 \<longleftrightarrow> common_wf c" "hcPath c1 \<noteq> []"
    unfolding c3_def c2_def c1_def by (simp_all add: common_wf_def)
  then have "health_http c3 = Inr c3" using h by (simp add: health_http_def Let_def)
  then show ?thesis using h f by simp
qed

lemma http_not_tcp [simp]: "HealthCheckHTTP \<noteq> HealthCheckTCP" "HealthCheckTCP \<noteq> HealthCheckHTTP"
  by (simp_all add: HealthCheckTCP_def HealthCheckHTTP_def)

lemma health_valid:
  assumes "validateHealthCheckConfig c = Inr c'"
  shows "health_wf c' \<and> validateHealthCheckConfig c' = Inr c' \<and> (hcType c' = HealthCheckHTTP \<longrightarrow> to_lower (trim_space (hcType c)) = HealthCheckHTTP)"
proof -
  obtain d where d: "health_common c = Inr d" using assms by (auto simp: validateHealthCheckConfig_def split: sum.splits)
  note w = health_common_wf[OF d]
  have ty: "hcType d = HealthCheckHTTP \<longrightarrow> to_lower (trim_space (hcType c)) = HealthCheckHTTP" using w by (auto split: if_splits)
  show ?thesis
  proof (cases "hcType d = HealthCheckTCP")
    case True
    then have "c' = d" "hcPath d = []" "StatusMin d = 0" "StatusMax d = 0"
      using assms d by (auto simp: validateHealthCheckConfig_def split: if_splits)
    then show ?thesis using True w common_wf_fixed[of d]
      by (simp add: validateHealthCheckConfig_def health_wf_def common_wf_def)
  next
    case False
    then have e: "health_http d = Inr c'" using assms d by (simp add: validateHealthCheckConfig_def)
    note hw = health_http_wf[OF e]
    then have "common_wf c'" using w by simp
    then show ?thesis using hw False w ty common_wf_fixed[of c']
      by (auto simp: validateHealthCheckConfig_def health_wf_def common_wf_def)
  qed
qed

section \<open>Validated rules\<close>

lemma and_then_Inr [simp]: "and_then x f = Inr y \<longleftrightarrow> (\<exists>z. x = Inr z \<and> f z = Inr y)"
  by (auto simp: and_then_def split: sum.splits)

lemma and_then_simps [simp]: "and_then (Inr x) f = f x" "and_then (Inl e) f = Inl e"
  by (simp_all add: and_then_def)

definition norm_protocol :: "Rule \<Rightarrow> Rule" where
  "norm_protocol r = (if Protocol r = '''' then r\<lparr>Protocol := ProtocolTCP\<rparr> else r)"

definition head_ok :: "bool \<Rightarrow> Rule \<Rightarrow> bool" where
  "head_ok e r \<longleftrightarrow> trim_space (Name r) \<noteq> '''' \<and> Name r = trim_space (Name r) \<and> validateEndpointPort (Listen r) e = None
     \<and> Mode r \<in> set validModes \<and> Protocol r \<in> set validProtocols
     \<and> (UserAgent r \<noteq> [] \<longrightarrow> IsConnectProtocol (Protocol r) \<and> validateUserAgents (UserAgent r) = None)
     \<and> Targets r \<noteq> [] \<and> length (Targets r) \<le> maxTargets"

lemma rule_head_iff: "rule_head e r = Inr r' \<longleftrightarrow> r' = norm_protocol r \<and> head_ok e r' \<and> connect_checks r' = None"
proof -
  have f: "Name (norm_protocol r) = Name r" "Listen (norm_protocol r) = Listen r" "Mode (norm_protocol r) = Mode r"
    by (simp_all add: norm_protocol_def)
  have "rule_head e r = Inr r' \<longleftrightarrow> r' = norm_protocol r \<and> head_ok e (norm_protocol r) \<and> connect_checks (norm_protocol r) = None"
    unfolding rule_head_def Let_def norm_protocol_def[symmetric] head_ok_def f
    by (auto simp: not_less split: option.splits)
  then show ?thesis by metis
qed

lemma valid_protocol_nonempty: "p \<in> set validProtocols \<Longrightarrow> p \<noteq> ''''"
  by (auto simp: validProtocols_def config_consts)

lemma rule_head_fixed: "head_ok e r \<Longrightarrow> connect_checks r = None \<Longrightarrow> rule_head e r = Inr r"
  using valid_protocol_nonempty[of "Protocol r"] by (auto simp: rule_head_iff norm_protocol_def head_ok_def)

definition limits_wf :: "Rule \<Rightarrow> bool" where
  "limits_wf r \<longleftrightarrow> 1 \<le> MaxConnectionsPerIP r \<and> MaxConnectionsPerIP r \<le> MaxConnections r \<and> MaxConnections r \<le> maxConnections
     \<and> 0 < Timeout r \<and> Timeout r \<le> maxRuleTimeout"

lemma rule_limits_fixed: "limits_wf r \<Longrightarrow> rule_limits r = Inr r"
  by (auto simp: limits_wf_def rule_limits_def Let_def not_less)

lemma rule_limits_wf:
  assumes "rule_limits r = Inr r'"
  shows "limits_wf r' \<and> (\<exists>m i t. r' = r\<lparr>MaxConnections := m, MaxConnectionsPerIP := i, Timeout := t\<rparr>)"
proof -
  define r1 where "r1 = (if MaxConnections r = 0 then r\<lparr>MaxConnections := DefaultMaxConnections\<rparr> else r)"
  define r2 where "r2 = (if MaxConnectionsPerIP r1 = 0
     then r1\<lparr>MaxConnectionsPerIP := min DefaultMaxConnectionsPerIP (MaxConnections r1)\<rparr> else r1)"
  define r3 where "r3 = (if Timeout r2 = 0 then r2\<lparr>Timeout := (if Mode r2 = ModeRegex then 500 else 3000)\<rparr> else r2)"
  note fold = r1_def[symmetric] r2_def[symmetric] r3_def[symmetric]
  have h: "0 \<le> MaxConnections r" "MaxConnections r1 \<le> maxConnections" "0 \<le> MaxConnectionsPerIP r1"
    "MaxConnectionsPerIP r2 \<le> MaxConnections r2" "Timeout r3 \<le> maxRuleTimeout" "r' = r3"
    using assms unfolding rule_limits_def Let_def fold by (auto simp: not_less not_le split: if_splits)
  have "1 \<le> MaxConnections r1" using h(1) by (auto simp: r1_def limit_defs)
  then have i: "1 \<le> MaxConnectionsPerIP r2" "MaxConnections r2 = MaxConnections r1" using h(3) by (auto simp: r2_def limit_defs)
  have t: "0 < Timeout r3" "MaxConnections r3 = MaxConnections r2" "MaxConnectionsPerIP r3 = MaxConnectionsPerIP r2"
    by (auto simp: r3_def word_gt_0)
  have "r1 = r\<lparr>MaxConnections := MaxConnections r1\<rparr>" "r2 = r1\<lparr>MaxConnectionsPerIP := MaxConnectionsPerIP r2\<rparr>"
    "r3 = r2\<lparr>Timeout := Timeout r3\<rparr>" by (simp_all add: r1_def r2_def r3_def)
  then have "r3 = r\<lparr>MaxConnections := MaxConnections r1, MaxConnectionsPerIP := MaxConnectionsPerIP r2, Timeout := Timeout r3\<rparr>"
    by metis
  then show ?thesis using h i t by (auto simp: limits_wf_def)
qed

definition parts_ok :: "Rule \<Rightarrow> bool" where
  "parts_ok r \<longleftrightarrow> (\<forall>h. Hedge r = Some h \<longrightarrow> Mode r = ModeBoost \<and> validateHedgeConfig (Timeout r) h = Inr h)
     \<and> (\<forall>h. HealthCheck r = Some h \<longrightarrow> validateHealthCheckConfig h = Inr h)
     \<and> (\<forall>p. ProxyProtocol r = Some p \<longrightarrow> validateProxyProtocolConfig p = Inr p \<and> (Prewarm r \<longrightarrow> Send p = ''''))"

lemma rule_parts_fixed: "parts_ok r \<Longrightarrow> rule_parts r = Inr r"
proof -
  assume p: "parts_ok r"
  have "on_part (validateHedgeConfig (Timeout r)) (Hedge r) (\<lambda>h. Hedge_update (\<lambda>_. h)) r = Inr r"
    "on_part validateHealthCheckConfig (HealthCheck r) (\<lambda>h. HealthCheck_update (\<lambda>_. h)) r = Inr r"
    "on_part validateProxyProtocolConfig (ProxyProtocol r) (\<lambda>p. ProxyProtocol_update (\<lambda>_. p)) r = Inr r"
    using p by (auto simp: on_part_def parts_ok_def split: option.splits)
  then show ?thesis using p by (auto simp: rule_parts_def parts_ok_def split: option.splits)
qed

lemma on_part_Inr:
  "on_part v x put r = Inr r' \<longleftrightarrow> (x = None \<and> r' = r) \<or> (\<exists>y z. x = Some y \<and> v y = Inr z \<and> r' = put (Some z) r)"
  by (auto simp: on_part_def split: option.splits sum.splits)

lemma rule_parts_ok:
  assumes "rule_parts r = Inr r'"
  shows "parts_ok r' \<and> (\<exists>H C P. r' = r\<lparr>Hedge := H, HealthCheck := C, ProxyProtocol := P\<rparr>
    \<and> (C = None \<longleftrightarrow> HealthCheck r = None) \<and> (P = None \<longleftrightarrow> ProxyProtocol r = None)
    \<and> (\<forall>c. C = Some c \<longrightarrow> (\<exists>c0. HealthCheck r = Some c0 \<and> validateHealthCheckConfig c0 = Inr c)))"
proof -
  obtain r1 r2 where
    1: "on_part (validateHedgeConfig (Timeout r)) (Hedge r) (\<lambda>h. Hedge_update (\<lambda>_. h)) r = Inr r1" and
    2: "on_part validateHealthCheckConfig (HealthCheck r1) (\<lambda>h. HealthCheck_update (\<lambda>_. h)) r1 = Inr r2" and
    3: "on_part validateProxyProtocolConfig (ProxyProtocol r2) (\<lambda>p. ProxyProtocol_update (\<lambda>_. p)) r2 = Inr r'" and
    m: "Hedge r \<noteq> None \<longrightarrow> Mode r = ModeBoost" and
    s: "\<not> (Prewarm r' \<and> (case ProxyProtocol r' of Some p \<Rightarrow> Send p \<noteq> '''' | None \<Rightarrow> False))"
    using assms by (auto simp: rule_parts_def split: if_splits)
  obtain H where H: "r1 = r\<lparr>Hedge := H\<rparr>" "\<forall>h. H = Some h \<longrightarrow> Mode r = ModeBoost \<and> validateHedgeConfig (Timeout r) h = Inr h"
  proof (cases "Hedge r")
    case None
    then show ?thesis using 1 that[of None] by (simp add: on_part_Inr)
  next
    case (Some y)
    then obtain z where "validateHedgeConfig (Timeout r) y = Inr z" "r1 = r\<lparr>Hedge := Some z\<rparr>" using 1 by (auto simp: on_part_Inr)
    then show ?thesis using that[of "Some z"] hedge_valid m Some by simp
  qed
  obtain C where C: "r2 = r1\<lparr>HealthCheck := C\<rparr>" "C = None \<longleftrightarrow> HealthCheck r = None"
    "\<forall>h. C = Some h \<longrightarrow> validateHealthCheckConfig h = Inr h \<and> (\<exists>c0. HealthCheck r = Some c0 \<and> validateHealthCheckConfig c0 = Inr h)"
  proof (cases "HealthCheck r")
    case None
    then show ?thesis using 2 that[of None] H(1) by (simp add: on_part_Inr)
  next
    case (Some y)
    then obtain z where z: "validateHealthCheckConfig y = Inr z" "r2 = r1\<lparr>HealthCheck := Some z\<rparr>" using 2 H(1) by (auto simp: on_part_Inr)
    then show ?thesis using that[of "Some z"] health_valid[OF z(1)] Some by simp
  qed
  obtain P where P: "r' = r2\<lparr>ProxyProtocol := P\<rparr>" "P = None \<longleftrightarrow> ProxyProtocol r = None"
    "\<forall>p. P = Some p \<longrightarrow> validateProxyProtocolConfig p = Inr p"
  proof (cases "ProxyProtocol r")
    case None
    then show ?thesis using 3 that[of None] H(1) C(1) by (simp add: on_part_Inr)
  next
    case (Some y)
    then obtain z where z: "validateProxyProtocolConfig y = Inr z" "r' = r2\<lparr>ProxyProtocol := Some z\<rparr>" using 3 H(1) C(1) by (auto simp: on_part_Inr)
    then show ?thesis using that[of "Some z"] pp_valid[OF z(1)] Some by simp
  qed
  have eq: "r' = r\<lparr>Hedge := H, HealthCheck := C, ProxyProtocol := P\<rparr>" using H(1) C(1) P(1) by simp
  then have "parts_ok r'" using H(2) C(3) P(3) s by (auto simp: parts_ok_def split: option.splits)
  moreover have "\<forall>c. C = Some c \<longrightarrow> (\<exists>c0. HealthCheck r = Some c0 \<and> validateHealthCheckConfig c0 = Inr c)" using C(3) by blast
  ultimately show ?thesis using eq C(2) P(2) by (intro conjI exI[of _ H] exI[of _ C] exI[of _ P]) assumption+
qed

subsection \<open>Targets\<close>

definition target_wf :: "(string \<Rightarrow> bool) \<Rightarrow> Rule \<Rightarrow> Target \<Rightarrow> bool" where
  "target_wf compiles r t \<longleftrightarrow> validateEndpoint (Address t) = None
     \<and> (if IsConnectProtocol (Protocol r) then \<exists>c. ConnectProxy t = Some c \<and> proxy_wf c else ConnectProxy t = None)
     \<and> (if Mode r = ModeRegex then Re t = Some (Regexp t) \<and> compiles (Regexp t) else Re t = None)
     \<and> (if Mode r = ModeTLS then Regexp t = '''' \<and> (\<forall>n\<in>set (ServerNames t). validateTLSServerNamePattern n = None \<and> to_lower n = n)
        else ServerNames t = [] \<and> ALPN t = [])"

lemma server_names_lower:
  "server_names seen vs = Inr ns \<Longrightarrow> \<forall>n\<in>set ns. validateTLSServerNamePattern n = None \<and> to_lower n = n"
proof (induction seen vs arbitrary: ns rule: server_names.induct)
  case (2 seen v vs)
  obtain ns' where ok: "trim_space v = v" "validateTLSServerNamePattern (to_lower v) = None" "to_lower v \<notin> set seen"
    "server_names (to_lower v # seen) vs = Inr ns'" "ns = to_lower v # ns'"
    using "2.prems" by (auto simp: Let_def map_sum_def split: if_splits option.splits sum.splits)
  have tv: "\<not> v \<noteq> trim_space v" using ok(1) by metis
  have "\<forall>n\<in>set ns'. validateTLSServerNamePattern n = None \<and> to_lower n = n" by (rule "2.IH"[OF tv refl ok(2,3,4)])
  then show ?case using ok(2,5) by simp
qed simp

lemma target_step:
  assumes p: "target_proxy r seen t = Inr t1" and m: "target_matchers compiles r t1 = Inr t2" and e: "validateEndpoint (Address t) = None"
    and q: "Mode q = Mode r" "Protocol q = Protocol r"
  shows "Address t2 = Address t \<and> target_proxy q seen t2 = Inr t2 \<and> target_matchers compiles q t2 = Inr t2 \<and> target_wf compiles r t2
    \<and> (IsConnectProtocol (Protocol r) \<longrightarrow> Address t \<notin> set seen)"
proof -
  have t1: "Address t1 = Address t" "Regexp t1 = Regexp t" "ServerNames t1 = ServerNames t" "ALPN t1 = ALPN t"
    "IsConnectProtocol (Protocol r) \<Longrightarrow> Address t \<notin> set seen \<and> (\<exists>c. ConnectProxy t1 = Some c \<and> proxy_wf c \<and> validateConnectProxyConfig c = Inr c)"
    "\<not> IsConnectProtocol (Protocol r) \<Longrightarrow> ConnectProxy t1 = None"
  proof -
    show "Address t1 = Address t" "Regexp t1 = Regexp t" "ServerNames t1 = ServerNames t" "ALPN t1 = ALPN t"
      using p by (auto simp: target_proxy_def split: if_splits option.splits sum.splits)
    show "Address t \<notin> set seen \<and> (\<exists>c. ConnectProxy t1 = Some c \<and> proxy_wf c \<and> validateConnectProxyConfig c = Inr c)"
      if c: "IsConnectProtocol (Protocol r)"
    proof -
      obtain c c' where c': "Address t \<notin> set seen" "validateConnectProxyConfig c = Inr c'" "t1 = t\<lparr>ConnectProxy := Some c'\<rparr>"
        using p c by (auto simp: target_proxy_def split: if_splits option.splits sum.splits)
      then show ?thesis using connect_valid[OF c'(2)] by simp
    qed
    show "ConnectProxy t1 = None" if "\<not> IsConnectProtocol (Protocol r)" using p that by (auto simp: target_proxy_def split: if_splits)
  qed
  let ?re = "if Mode r = ModeRegex then Some (Regexp t1) else None"
  have t2: "Address t2 = Address t1" "Regexp t2 = Regexp t1" "ConnectProxy t2 = ConnectProxy t1" "Re t2 = ?re"
    "Mode r = ModeRegex \<Longrightarrow> compiles (Regexp t1)"
    "Mode r = ModeTLS \<Longrightarrow> Regexp t1 = [] \<and> validateTLSMatchers t2 = Inr t2 \<and> (\<forall>n\<in>set (ServerNames t2). validateTLSServerNamePattern n = None \<and> to_lower n = n)"
    "Mode r \<noteq> ModeTLS \<Longrightarrow> ServerNames t2 = [] \<and> ALPN t2 = []"
  proof -
    let ?t = "t1\<lparr>Re := ?re\<rparr>"
    have reg: "Mode r = ModeRegex \<longrightarrow> compiles (Regexp t1)" using m by (auto simp: target_matchers_def split: if_splits)
    have cases: "if Mode r = ModeTLS then Regexp t1 = [] \<and> validateTLSMatchers ?t = Inr t2 else t2 = ?t \<and> ServerNames t1 = [] \<and> ALPN t1 = []"
      using m reg by (simp add: target_matchers_def Let_def split: if_splits)
    show "Address t2 = Address t1" "Regexp t2 = Regexp t1" "ConnectProxy t2 = ConnectProxy t1" "Re t2 = ?re"
      using cases matchers_valid[of ?t t2] by (cases "Mode r = ModeTLS"; simp)+
    show "compiles (Regexp t1)" if "Mode r = ModeRegex" using reg that by simp
    show "ServerNames t2 = [] \<and> ALPN t2 = []" if "Mode r \<noteq> ModeTLS" using cases that by simp
    show "Regexp t1 = [] \<and> validateTLSMatchers t2 = Inr t2 \<and> (\<forall>n\<in>set (ServerNames t2). validateTLSServerNamePattern n = None \<and> to_lower n = n)"
      if tls: "Mode r = ModeTLS"
    proof -
      have v: "validateTLSMatchers ?t = Inr t2" "Regexp t1 = []" using cases tls by simp_all
      then obtain ns where ns: "server_names [] (ServerNames ?t) = Inr ns" "t2 = ?t\<lparr>ServerNames := ns\<rparr>"
        by (auto simp: validateTLSMatchers_def split: if_splits sum.splits)
      then show ?thesis using matchers_valid[OF v(1)] v(2) server_names_lower[OF ns(1)] by simp
    qed
  qed
  have "target_proxy q seen t2 = Inr t2" using q t1 t2(1,3) by (auto simp: target_proxy_def)
  moreover have id: "t2\<lparr>Re := (if Mode r = ModeRegex then Some (Regexp t2) else None)\<rparr> = t2" using t2(2,4) by simp
  have "target_matchers compiles q t2 = Inr t2" unfolding target_matchers_def Let_def q id using t2 by auto
  moreover have "target_wf compiles r t2" using t1 t2 e by (auto simp: target_wf_def)
  ultimately show ?thesis using t1 t2 by auto
qed

lemma rule_targets_valid:
  assumes "rule_targets compiles r seen fb ts = Inr ts'" and q: "Mode q = Mode r" "Protocol q = Protocol r"
  shows "rule_targets compiles q seen fb ts' = Inr ts' \<and> length ts' = length ts
    \<and> (\<forall>t\<in>set ts'. \<exists>u. t = Some u \<and> target_wf compiles r u)
    \<and> (IsConnectProtocol (Protocol r) \<longrightarrow> distinct (map (Address \<circ> the) ts') \<and> set (map (Address \<circ> the) ts') \<inter> set seen = {})
    \<and> fb + length (filter (\<lambda>t. tls_fallback r (the t)) ts') \<le> max fb 1"
  using assms
proof (induction compiles r seen fb ts arbitrary: ts' rule: rule_targets.induct)
  case (3 compiles r seen fb t ts)
  note q = "3.prems"(2,3)
  obtain t1 t2 where s: "validateEndpoint (Address t) = None" "target_proxy r seen t = Inr t1" "target_matchers compiles r t1 = Inr t2"
    using "3.prems"(1) by (auto split: if_splits sum.splits)
  let ?fb = "if tls_fallback r t2 then fb + 1 else fb"
  obtain us where us: "rule_targets compiles r (Address t2 # seen) ?fb ts = Inr us" "ts' = Some t2 # us" "\<not> ?fb > 1"
    using "3.prems"(1) s by (auto simp: Let_def map_sum_def split: if_splits sum.splits)
  note st = target_step[OF s(2,3,1) q]
  have q': "tls_fallback q u = tls_fallback r u" for u using q by (simp add: tls_fallback_def)
  have IH: "rule_targets compiles q (Address t2 # seen) ?fb us = Inr us \<and> length us = length ts
    \<and> (\<forall>t\<in>set us. \<exists>u. t = Some u \<and> target_wf compiles r u)
    \<and> (IsConnectProtocol (Protocol r) \<longrightarrow> distinct (map (Address \<circ> the) us) \<and> set (map (Address \<circ> the) us) \<inter> set (Address t2 # seen) = {})
    \<and> ?fb + length (filter (\<lambda>t. tls_fallback r (the t)) us) \<le> max ?fb 1"
    using "3.IH"[OF _ s(2,3) refl] s(1) us(1,3) q by (simp add: comp_def)
  have "rule_targets compiles q seen fb (Some t2 # us) = Inr (Some t2 # us)"
    using st IH us(3) s(1) by (simp add: q' Let_def)
  then show ?case using IH st us s(1) by (auto simp: comp_def split: if_splits)
qed auto

subsection \<open>A whole rule\<close>

lemma rule_access_valid:
  assumes "rule_access r = Inr r'"
  shows "rule_access r' = Inr r' \<and> (\<exists>ps b. r' = r\<lparr>allowPrefixes := ps, blockedIPs := b\<rparr>
    \<and> all_some (map allow_prefix (Allowlist r)) = Some ps \<and> blocked_set (Blacklist r) = Some b)"
  using assms by (auto simp: rule_access_def split: if_splits option.splits)

lemma connect_checks_cong:
  assumes "connect_checks r = None" "Mode q = Mode r" "Protocol q = Protocol r" "Allowlist q = Allowlist r" "Listen q = Listen r"
    "Prewarm q = Prewarm r" "ProxyProtocol r = None \<Longrightarrow> ProxyProtocol q = None"
    "\<And>c. HealthCheck q = Some c \<Longrightarrow> \<exists>c0. HealthCheck r = Some c0 \<and> validateHealthCheckConfig c0 = Inr c"
  shows "connect_checks q = None"
proof (cases "IsConnectProtocol (Protocol r)")
  case True
  have "\<not> (case HealthCheck q of Some h \<Rightarrow> to_lower (trim_space (hcType h)) = HealthCheckHTTP | None \<Rightarrow> False)"
  proof (cases "HealthCheck q")
    case (Some c)
    then obtain c0 where c0: "HealthCheck r = Some c0" "validateHealthCheckConfig c0 = Inr c" using assms(8) by blast
    have "to_lower (trim_space (hcType c0)) \<noteq> HealthCheckHTTP" using assms(1) True c0 by (auto simp: connect_checks_def split: if_splits)
    then have "hcType c \<noteq> HealthCheckHTTP" "hcType c = HealthCheckTCP \<or> hcType c = HealthCheckHTTP"
      using health_valid[OF c0(2)] by (auto simp: health_wf_def)
    then show ?thesis using Some by auto
  qed simp
  then show ?thesis using assms(1-7) True by (auto simp: connect_checks_def split: if_splits)
qed (use assms in \<open>simp add: connect_checks_def\<close>)

text \<open>What every component may rely on in a validated rule.\<close>

definition rule_wf :: "(string \<Rightarrow> bool) \<Rightarrow> Rule \<Rightarrow> bool" where
  "rule_wf compiles r \<longleftrightarrow> Name r \<noteq> '''' \<and> Mode r \<in> set validModes \<and> Protocol r \<in> set validProtocols
     \<and> Targets r \<noteq> [] \<and> length (Targets r) \<le> maxTargets
     \<and> (\<forall>t\<in>set (Targets r). \<exists>u. t = Some u \<and> target_wf compiles r u)
     \<and> limits_wf r
     \<and> (\<forall>h. Hedge r = Some h \<longrightarrow> Mode r = ModeBoost \<and> hedge_wf (Timeout r) h \<and> 2 \<le> card (target_addresses (Targets r)))
     \<and> (\<forall>h. HealthCheck r = Some h \<longrightarrow> health_wf h)
     \<and> (\<forall>p. ProxyProtocol r = Some p \<longrightarrow> (Accept p \<longleftrightarrow> trustedPrefixes p \<noteq> []))
     \<and> length (filter (\<lambda>t. tls_fallback r (the t)) (Targets r)) \<le> 1
     \<and> (IsConnectProtocol (Protocol r) \<longrightarrow> Mode r \<noteq> ModeRegex \<and> Mode r \<noteq> ModeTLS \<and> \<not> Prewarm r \<and> ProxyProtocol r = None
         \<and> distinct (map (Address \<circ> the) (Targets r)) \<and> (Allowlist r \<noteq> [] \<or> loopback_host (Listen r)))"

lemma validateRule_valid:
  assumes v: "validateRule compiles e r = Inr r'"
  shows "rule_wf compiles r' \<and> validateRule compiles e r' = Inr r' \<and> Name r' = Name r \<and> Listen r' = Listen r
    \<and> all_some (map allow_prefix (Allowlist r')) = Some (allowPrefixes r') \<and> blocked_set (Blacklist r') = Some (blockedIPs r')"
proof -
  obtain r1 r2 r3 ts where 1: "rule_head e r = Inr r1" and 2: "rule_limits r1 = Inr r2" and 3: "rule_parts r2 = Inr r3"
    and 4: "rule_targets compiles r3 [] 0 (Targets r3) = Inr ts"
    and hd: "\<not> (Hedge r3 \<noteq> None \<and> card (target_addresses ts) < 2)" and 5: "rule_access (r3\<lparr>Targets := ts\<rparr>) = Inr r'"
    using v by (auto simp: validateRule_def Let_def split: if_splits)
  have h: "r1 = norm_protocol r" "head_ok e r1" "connect_checks r1 = None" using 1 unfolding rule_head_iff by blast+
  obtain m i t where r2: "r2 = r1\<lparr>MaxConnections := m, MaxConnectionsPerIP := i, Timeout := t\<rparr>" and lw: "limits_wf r2"
    using rule_limits_wf[OF 2] by blast
  obtain H C P where r3: "r3 = r2\<lparr>Hedge := H, HealthCheck := C, ProxyProtocol := P\<rparr>" and pk: "parts_ok r3"
    and CP: "P = None \<longleftrightarrow> ProxyProtocol r2 = None" "\<forall>c. C = Some c \<longrightarrow> (\<exists>c0. HealthCheck r2 = Some c0 \<and> validateHealthCheckConfig c0 = Inr c)"
    using rule_parts_ok[OF 3] by (elim conjE exE) (rule that)
  obtain ps b where r': "r' = r3\<lparr>Targets := ts, allowPrefixes := ps, blockedIPs := b\<rparr>" and acc: "rule_access r' = Inr r'"
    and ac: "all_some (map allow_prefix (Allowlist r3)) = Some ps" "blocked_set (Blacklist r3) = Some b"
    using rule_access_valid[OF 5] by auto
  have q: "Mode r' = Mode r3" "Protocol r' = Protocol r3" using r' by simp_all
  note tg = rule_targets_valid[OF 4 q]
  have len: "length ts = length (Targets r1)" using tg r2 r3 by simp
  have f: "Name r' = Name r1" "Listen r' = Listen r1" "Mode r' = Mode r1" "Protocol r' = Protocol r1" "UserAgent r' = UserAgent r1"
    "Allowlist r' = Allowlist r1" "Prewarm r' = Prewarm r1" "Targets r' = ts" "ProxyProtocol r' = P" "HealthCheck r' = C" "Hedge r' = Hedge r3"
    "Timeout r' = Timeout r3" "ProxyProtocol r3 = P" "HealthCheck r3 = C" "ProxyProtocol r2 = ProxyProtocol r1" "HealthCheck r2 = HealthCheck r1"
    using r' r3 r2 by simp_all
  have ne: "ts \<noteq> []" using h(2) len by (auto simp: head_ok_def)
  have cc: "connect_checks r' = None" by (rule connect_checks_cong[OF h(3)]) (use f CP in auto)
  have ho: "head_ok e r'" using h(2) ne unfolding head_ok_def f(1-5) f(8) len by blast
  have lw': "limits_wf r'" using lw r' r3 by (simp add: limits_wf_def)
  have pk': "parts_ok r'" using pk f by (simp add: parts_ok_def r')
  have id: "r'\<lparr>Targets := ts\<rparr> = r'" using r' by simp
  have acc': "rule_access (r'\<lparr>Targets := ts\<rparr>) = Inr r'" unfolding id by (rule acc)
  have "validateRule compiles e r' = Inr r'"
    using rule_head_fixed[OF ho cc] rule_limits_fixed[OF lw'] rule_parts_fixed[OF pk'] tg acc' hd f
    by (simp add: validateRule_def)
  moreover have "rule_wf compiles r'"
  proof -
    have a: "Name r' \<noteq> ''''" "Mode r' \<in> set validModes" "Protocol r' \<in> set validProtocols" "length (Targets r') \<le> maxTargets"
      using ho by (auto simp: head_ok_def)
    have b: "\<forall>t\<in>set (Targets r'). \<exists>u. t = Some u \<and> target_wf compiles r' u"
      using tg f by (simp add: target_wf_def q)
    have c: "\<forall>h. Hedge r' = Some h \<longrightarrow> Mode r' = ModeBoost \<and> hedge_wf (Timeout r') h \<and> 2 \<le> card (target_addresses (Targets r'))"
    proof (intro allI impI)
      fix h
      assume s: "Hedge r' = Some h"
      then have "Mode r' = ModeBoost" "validateHedgeConfig (Timeout r') h = Inr h" using pk' by (auto simp: parts_ok_def)
      moreover have "2 \<le> card (target_addresses (Targets r'))" using hd s f(8,11) by auto
      ultimately show "Mode r' = ModeBoost \<and> hedge_wf (Timeout r') h \<and> 2 \<le> card (target_addresses (Targets r'))"
        using hedge_valid by blast
    qed
    have d: "\<forall>h. HealthCheck r' = Some h \<longrightarrow> health_wf h" using pk' health_valid unfolding parts_ok_def by blast
    have g: "\<forall>p. ProxyProtocol r' = Some p \<longrightarrow> (Accept p \<longleftrightarrow> trustedPrefixes p \<noteq> [])" using pk' pp_valid unfolding parts_ok_def by blast
    have k: "length (filter (\<lambda>t. tls_fallback r' (the t)) (Targets r')) \<le> 1" using tg f by (simp add: tls_fallback_def q)
    have l: "IsConnectProtocol (Protocol r') \<longrightarrow> Mode r' \<noteq> ModeRegex \<and> Mode r' \<noteq> ModeTLS \<and> \<not> Prewarm r' \<and> ProxyProtocol r' = None
         \<and> distinct (map (Address \<circ> the) (Targets r')) \<and> (Allowlist r' \<noteq> [] \<or> loopback_host (Listen r'))"
      using cc tg f q by (auto simp: connect_checks_def split: if_splits)
    show ?thesis unfolding rule_wf_def using a b c d g k l lw' ne f(8) by simp
  qed
  moreover have "Name r' = Name r" "Listen r' = Listen r" using f h(1) by (simp_all add: norm_protocol_def)
  ultimately show ?thesis using ac r' by simp
qed

section \<open>Access lists\<close>

lemma length_byte_bits [simp]: "length (byte_bits x) = 8"
  by (simp add: byte_bits_def)

lemma keep_bits_top: "n \<le> 8 \<Longrightarrow> take n (byte_bits (keep_bits n x)) = take n (byte_bits x)"
proof -
  assume n: "n \<le> 8"
  have b: "bit (keep_bits n x) i = bit x i" if "8 - n \<le> i" "i < 8" for i
    using n that by (simp add: keep_bits_def bit_push_bit_iff bit_drop_bit_eq)
  show ?thesis
    by (rule nth_take_lemma) (use n in \<open>auto simp: byte_bits_def nth_Cons' intro!: b\<close>)
qed

lemma mask_bytes_top: "take n (concat (map byte_bits (mask_bytes n xs))) = take n (concat (map byte_bits xs))"
proof (induction n xs rule: mask_bytes.induct)
  case (2 n x xs)
  show ?case
  proof (cases "n \<le> 8")
    case True
    then show ?thesis using keep_bits_top[OF True, of x] by simp
  next
    case False
    then have "keep_bits n x = x" by (simp add: keep_bits_def)
    then show ?thesis using 2 by simp
  qed
qed simp

lemma masked_contains: "prefix_contains (masked p) a \<longleftrightarrow> prefix_contains p a"
  by (cases "paddr p") (auto simp: prefix_contains_def masked_def with_bytes_def addr_bits_def addr_defs mask_bytes_top)

lemma all_some_mem: "all_some (map f xs) = Some ys \<Longrightarrow> set ys = {y. \<exists>x\<in>set xs. f x = Some y} \<and> (\<forall>x\<in>set xs. f x \<noteq> None)"
proof (induction xs arbitrary: ys)
  case (Cons x xs)
  then show ?case by (cases "f x") auto
qed simp

text \<open>C36: the access lists decide by the configured text. For a validated rule, an address is
  allowed exactly when it is valid and the allow list is empty or one of its CIDRs contains the
  unmapped address, and blocked exactly when an enabled entry of the blacklist is the same address
  up to the IPv4-mapped form; every entry of both lists is well formed.\<close>

theorem access_lists_decide:
  assumes "validateRule compiles e r = Inr r'"
  shows "(Allows r' a \<longleftrightarrow> a \<noteq> NoAddr \<and> (Allowlist r' = [] \<or>
        (\<exists>item\<in>set (Allowlist r'). \<exists>p. parse_prefix item = Some p \<and> prefix_contains p (unmap a))))
    \<and> (Blocked r' a \<longleftrightarrow> a \<noteq> NoAddr \<and> (\<exists>item b. (item, True) \<in> set (Blacklist r') \<and> parse_addr item = Some b \<and> unmap b = unmap a))
    \<and> (\<forall>item\<in>set (Allowlist r'). parse_prefix item \<noteq> None) \<and> (\<forall>(item, on)\<in>set (Blacklist r'). parse_addr item \<noteq> None)"
proof -
  note v = validateRule_valid[OF assms]
  have ps: "set (allowPrefixes r') = {y. \<exists>x\<in>set (Allowlist r'). allow_prefix x = Some y}" "\<forall>x\<in>set (Allowlist r'). allow_prefix x \<noteq> None"
    using all_some_mem[of allow_prefix "Allowlist r'" "allowPrefixes r'"] v by auto
  have "list_ex (\<lambda>p. prefix_contains p (unmap a)) (allowPrefixes r') \<longleftrightarrow>
      (\<exists>item\<in>set (Allowlist r'). \<exists>p. parse_prefix item = Some p \<and> prefix_contains p (unmap a))"
    (is "?l \<longleftrightarrow> ?r")
  proof
    assume ?l
    then obtain p x where "p \<in> set (allowPrefixes r')" "prefix_contains p (unmap a)" "x \<in> set (Allowlist r')" "allow_prefix x = Some p"
      unfolding list_ex_iff ps by blast
    moreover then obtain z where "parse_prefix x = Some z" "p = masked z" unfolding allow_prefix_def by blast
    ultimately have "x \<in> set (Allowlist r') \<and> parse_prefix x = Some z \<and> prefix_contains z (unmap a)" using masked_contains by simp
    then show ?r by (intro bexI[of _ x] exI[of _ z]) simp_all
  next
    assume ?r
    then obtain x z where "x \<in> set (Allowlist r')" "parse_prefix x = Some z" "prefix_contains z (unmap a)" by (elim bexE exE conjE)
    then have "masked z \<in> set (allowPrefixes r')" "prefix_contains (masked z) (unmap a)"
      unfolding ps allow_prefix_def using masked_contains by (simp_all, metis)
    then show ?l unfolding list_ex_iff by (intro bexI[of _ "masked z"])
  qed
  then have 1: "Allows r' a \<longleftrightarrow> a \<noteq> NoAddr \<and> (Allowlist r' = [] \<or>
        (\<exists>item\<in>set (Allowlist r'). \<exists>p. parse_prefix item = Some p \<and> prefix_contains p (unmap a)))"
    by (simp add: Allows_def)
  have bl: "list_all (\<lambda>(item, enabled). parse_addr item \<noteq> None) (Blacklist r')"
    "blockedIPs r' = set (map (\<lambda>(item, enabled). unmap (the (parse_addr item))) (filter snd (Blacklist r')))"
    using v by (auto simp: blocked_set_def split: if_splits)
  have "unmap a \<in> blockedIPs r' \<longleftrightarrow> (\<exists>item b. (item, True) \<in> set (Blacklist r') \<and> parse_addr item = Some b \<and> unmap b = unmap a)"
  proof -
    have "\<exists>b. parse_addr item = Some b" if "(item, en) \<in> set (Blacklist r')" for item en using bl(1) that by (auto simp: list_all_iff)
    then show ?thesis unfolding bl(2) by (force simp: image_iff)
  qed
  then have 2: "Blocked r' a \<longleftrightarrow> a \<noteq> NoAddr \<and> (\<exists>item b. (item, True) \<in> set (Blacklist r') \<and> parse_addr item = Some b \<and> unmap b = unmap a)"
    by (simp add: Blocked_def)
  show ?thesis using 1 2 ps(2) bl(1) by (auto simp: allow_prefix_def list_all_iff)
qed

text \<open>An allow list of IPv4-mapped CIDRs admits nobody: the address is unmapped before the
  comparison, the CIDR is not.\<close>

lemma take_bits: "take (8 * k) (concat (map byte_bits xs)) = concat (map byte_bits (take k xs))"
proof (induction k arbitrary: xs)
  case (Suc k)
  then show ?case by (cases xs) simp_all
qed simp

lemma byte_bits_inj: "byte_bits x = byte_bits y \<Longrightarrow> x = y"
proof (rule bit_word_eqI)
  fix n
  assume "byte_bits x = byte_bits y" "n < LENGTH(8)"
  then show "bit x n = bit y n" by (auto simp: byte_bits_def less_Suc_eq numeral_eq_Suc)
qed

lemma concat_bits_inj: "concat (map byte_bits xs) = concat (map byte_bits ys) \<Longrightarrow> length xs = length ys \<Longrightarrow> xs = ys"
proof (induction xs arbitrary: ys)
  case (Cons x xs)
  then show ?case by (cases ys) (auto dest: byte_bits_inj)
qed simp

lemma mapped_bits:
  assumes "mapped4 b" "\<not> mapped4 c" "length b = 16" "length c = 16" "96 \<le> n"
  shows "take n (concat (map byte_bits b)) \<noteq> take n (concat (map byte_bits c))"
proof
  assume "take n (concat (map byte_bits b)) = take n (concat (map byte_bits c))"
  then have "take 96 (take n (concat (map byte_bits b))) = take 96 (take n (concat (map byte_bits c)))" by (rule arg_cong)
  then have "take (8 * 12) (concat (map byte_bits b)) = take (8 * 12) (concat (map byte_bits c))"
    using assms(5) by (simp add: min_def)
  then have "take 12 b = take 12 c" unfolding take_bits by (rule concat_bits_inj) (use assms in simp)
  then show False using assms(1,2) by (simp add: mapped4_def)
qed

lemma mapped_allowlist_admits_nobody:
  assumes v: "validateRule compiles e r = Inr r'" and ne: "Allowlist r' \<noteq> []"
    and m: "\<forall>item\<in>set (Allowlist r'). \<exists>p. parse_prefix item = Some p \<and> is4in6 (paddr p) \<and> 96 \<le> pbits p" and a: "addr_ok a"
  shows "\<not> Allows r' a"
proof
  assume "Allows r' a"
  then obtain p where p: "p \<in> set (allowPrefixes r')" "prefix_contains p (unmap a)" "a \<noteq> NoAddr"
    using ne by (auto simp: Allows_def list_ex_iff)
  then obtain item where item: "item \<in> set (Allowlist r')" "allow_prefix item = Some p"
    using all_some_mem[of allow_prefix "Allowlist r'" "allowPrefixes r'"] validateRule_valid[OF v] by auto
  obtain z where z: "parse_prefix item = Some z" "is4in6 (paddr z)" "96 \<le> pbits z" using m item(1) by blast
  have "p = masked z" using item(2) z(1) by (simp add: allow_prefix_def)
  then have c: "prefix_contains z (unmap a)" using p(2) masked_contains by simp
  obtain b where b: "paddr z = Addr6 b (zone_of (paddr z))" "mapped4 b" using z(2) by (auto simp: addr_defs split: addr.splits)
  have "addr_ok (paddr z)" using z(1) parse_addr_ok by (auto simp: parse_prefix_def Let_def split: list.splits option.splits if_splits)
  then have lb: "length b = 16" using b(1) by (metis addr_ok.simps(3))
  obtain c0 zc where c0: "unmap a = Addr6 c0 zc" "\<not> mapped4 c0"
    using c b(1) p(3) by (cases a) (auto simp: prefix_contains_def unmap_def is4_def is6_def split: if_splits addr.splits)
  have "length c0 = 16" using c0 a by (cases a) (auto simp: unmap_def split: if_splits)
  then have "take (pbits z) (concat (map byte_bits b)) \<noteq> take (pbits z) (concat (map byte_bits c0))"
    using mapped_bits[OF b(2) c0(2) lb _ z(3)] by blast
  then show False using c b(1) c0(1) unfolding prefix_contains_def addr_bits_def by (metis addr_bytes.simps(3))
qed

section \<open>Validated rule sets\<close>

definition job_count :: "Rule option list \<Rightarrow> nat" where
  "job_count rs = sum_list (map (\<lambda>r. case r of
     Some r \<Rightarrow> if HealthCheck r \<noteq> None then card (target_addresses (Targets r)) else 0 | None \<Rightarrow> 0) rs)"

definition prewarm_addresses :: "Rule option list \<Rightarrow> string set" where
  "prewarm_addresses rs = (\<Union>r\<in>set rs. case r of Some r \<Rightarrow> if Prewarm r then target_addresses (Targets r) else {} | None \<Rightarrow> {})"

lemma rules_step_Inr:
  "rules_step r s = Inr s' \<Longrightarrow> Name r \<notin> set (rsNames s) \<and> (\<forall>l\<in>set (rsListeners s). \<not> listeners_conflict (Listen r) l)
    \<and> rsNames s' = rsNames s @ [Name r] \<and> rsListeners s' = rsListeners s @ [Listen r]
    \<and> rsPrewarm s' = (if Prewarm r then rsPrewarm s \<union> target_addresses (Targets r) else rsPrewarm s)
    \<and> rsJobs s' = (if HealthCheck r \<noteq> None then rsJobs s + card (target_addresses (Targets r)) else rsJobs s)
    \<and> (Prewarm r \<longrightarrow> card (rsPrewarm s') \<le> maxPrewarmTargets) \<and> (HealthCheck r \<noteq> None \<longrightarrow> rsJobs s' \<le> maxActiveHealthJobs)"
  unfolding rules_step_def Let_def by (auto simp: list_ex_iff not_less split: if_splits)

lemma rules_loop_valid:
  assumes "rules_loop compiles e s rs = Inr rs'"
  shows "rules_loop compiles e s rs' = Inr rs' \<and> length rs' = length rs
    \<and> (\<forall>r\<in>set rs'. \<exists>u. r = Some u \<and> rule_wf compiles u)
    \<and> distinct (map (Name \<circ> the) rs') \<and> set (map (Name \<circ> the) rs') \<inter> set (rsNames s) = {}
    \<and> sorted_wrt (\<lambda>a b. \<not> listeners_conflict (Listen (the b)) (Listen (the a))) rs'
    \<and> (\<forall>r\<in>set rs'. \<forall>l\<in>set (rsListeners s). \<not> listeners_conflict (Listen (the r)) l)
    \<and> (rsJobs s \<le> maxActiveHealthJobs \<longrightarrow> rsJobs s + job_count rs' \<le> maxActiveHealthJobs)
    \<and> (card (rsPrewarm s) \<le> maxPrewarmTargets \<longrightarrow> card (rsPrewarm s \<union> prewarm_addresses rs') \<le> maxPrewarmTargets)"
  using assms
proof (induction compiles e s rs arbitrary: rs' rule: rules_loop.induct)
  case (1 compiles e s)
  then show ?case by (simp add: job_count_def prewarm_addresses_def)
next
  case (3 compiles e s r rs)
  obtain r1 s1 us where s: "validateRule compiles e r = Inr r1" "rules_step r1 s = Inr s1" "rules_loop compiles e s1 rs = Inr us" "rs' = Some r1 # us"
    using "3.prems" by (auto simp: map_sum_def split: sum.splits)
  note v = validateRule_valid[OF s(1)] and st = rules_step_Inr[OF s(2)] and IH = "3.IH"[OF s(1,2,3)]
  have loop: "rules_loop compiles e s rs' = Inr rs'" using v s(2,4) IH by simp
  have jobs: "rsJobs s \<le> maxActiveHealthJobs \<longrightarrow> rsJobs s + job_count rs' \<le> maxActiveHealthJobs"
    using IH st s(4) by (auto simp: job_count_def split: if_splits)
  have pre: "card (rsPrewarm s \<union> prewarm_addresses rs') \<le> maxPrewarmTargets" if "card (rsPrewarm s) \<le> maxPrewarmTargets"
  proof -
    have "rsPrewarm s \<union> prewarm_addresses rs' = rsPrewarm s1 \<union> prewarm_addresses us"
      using st s(4) by (auto simp: prewarm_addresses_def)
    moreover have "card (rsPrewarm s1) \<le> maxPrewarmTargets" using st that by (cases "Prewarm r1") auto
    ultimately show ?thesis using IH by simp
  qed
  show ?case using loop jobs pre IH st v s(4) by (auto simp: comp_def)
qed simp

text \<open>Which connections a listen text stands for: a missing or unspecified host serves every address,
  a numeric one itself, \<open>localhost\<close> the loopback addresses. Two texts collide if they serve an address
  on the same port, or name the same host; port 0 is chosen by the kernel.\<close>

definition serves_host :: "string \<Rightarrow> addr \<Rightarrow> bool" where
  "serves_host host a \<longleftrightarrow> host = ''''
     \<or> (\<exists>x. parse_addr host = Some x \<and> (x = Addr4 (replicate 4 0) \<or> x = Addr6 (replicate 16 0) '''' \<or> unmap x = unmap a))
     \<or> parse_addr host = None \<and> to_lower host = ''localhost'' \<and> is_loopback (unmap a)"

definition serves :: "string \<Rightarrow> int \<Rightarrow> addr \<Rightarrow> bool" where
  "serves l p a \<longleftrightarrow> (\<exists>host port. split_host_port l = Some (host, port) \<and> atoi port = Some p \<and> serves_host host a)"

definition collide :: "string \<Rightarrow> string \<Rightarrow> bool" where
  "collide l k \<longleftrightarrow> (\<exists>p. p \<noteq> 0 \<and> ((\<exists>a. serves l p a \<and> serves k p a)
     \<or> (\<exists>h1 h2 p1 p2. split_host_port l = Some (h1, p1) \<and> split_host_port k = Some (h2, p2)
          \<and> atoi p1 = Some p \<and> atoi p2 = Some p \<and> parse_addr h1 = None \<and> parse_addr h2 = None \<and> to_lower h1 = to_lower h2)))"

lemma to_lower_localhost: "to_lower ''localhost'' = ''localhost''"
  by code_simp

lemma served_hosts_conflict:
  assumes "serves_host h1 a" "serves_host h2 a" shows "hosts_conflict h1 h2"
  using assms unfolding serves_host_def hosts_conflict_def Let_def equal_fold_def is_unspecified_def
  by (cases "parse_addr h1"; cases "parse_addr h2"; cases "h1 = ''''"; cases "h2 = ''''") (auto simp: to_lower_localhost)

lemma collide_conflict: "collide l k \<Longrightarrow> listeners_conflict l k"
proof -
  assume "collide l k"
  then obtain p h1 h2 p1 p2 where h: "p \<noteq> 0" "split_host_port l = Some (h1, p1)" "split_host_port k = Some (h2, p2)" "atoi p1 = Some p" "atoi p2 = Some p"
    "(\<exists>a. serves_host h1 a \<and> serves_host h2 a) \<or> parse_addr h1 = None \<and> parse_addr h2 = None \<and> to_lower h1 = to_lower h2"
    unfolding collide_def serves_def by fastforce
  have "hosts_conflict h1 h2" using h(6) served_hosts_conflict by (auto simp: hosts_conflict_def equal_fold_def Let_def)
  then show ?thesis using h(1-5) by (simp add: listeners_conflict_def endpointUsesPortZero_def endpointsConflict_def)
qed

definition endpoint_within :: "int \<Rightarrow> string \<Rightarrow> bool" where
  "endpoint_within lo l \<longleftrightarrow> (\<exists>host port n. split_host_port l = Some (host, port) \<and> atoi port = Some n \<and> lo \<le> n \<and> n \<le> 65535)"

lemma endpoint_accepted: "validateEndpointPort l e = None \<Longrightarrow> endpoint_within (if e then 0 else 1) l"
  by (auto simp: validateEndpointPort_def endpoint_within_def split: option.splits if_splits prod.splits)

lemma rules_loop_listen:
  "rules_loop compiles e s rs = Inr rs' \<Longrightarrow> \<forall>r\<in>set rs'. validateEndpointPort (Listen (the r)) e = None"
proof (induction compiles e s rs arbitrary: rs' rule: rules_loop.induct)
  case (3 compiles e s r rs)
  obtain r1 s1 us where s: "validateRule compiles e r = Inr r1" "rules_step r1 s = Inr s1" "rules_loop compiles e s1 rs = Inr us" "rs' = Some r1 # us"
    using "3.prems" by (auto simp: map_sum_def split: sum.splits)
  have "validateRule compiles e r1 = Inr r1" using validateRule_valid[OF s(1)] by blast
  then obtain q where "rule_head e r1 = Inr q" by (auto simp: validateRule_def split: sum.splits)
  then have "validateEndpointPort (Listen r1) e = None" by (auto simp: rule_head_iff head_ok_def norm_protocol_def split: if_splits)
  then show ?case using "3.IH"[OF s(1,2,3)] s(4) by simp
qed simp_all

text \<open>C35: what validation guarantees to the rest of the program. Every rule of an accepted rule set
  is well formed (its targets exist and have valid addresses, its limits and times are in range,
  its optional parts are consistent with its mode and protocol), it listens on a port up to 65535 and
  its targets have ports from 1 on, the names are distinct, no two listeners conflict, and the resource
  caps hold over the whole set. That no two listeners conflict means that no connection could be
  accepted by both: no address is served by both on one port, a wildcard serving every address.\<close>

theorem validated_rules_well_formed:
  assumes "validateRules compiles e rs = Inr rs'"
  shows "rs' \<noteq> [] \<and> length rs' \<le> maxRules \<and> (\<forall>r\<in>set rs'. \<exists>u. r = Some u \<and> rule_wf compiles u)
    \<and> distinct (map (Name \<circ> the) rs')
    \<and> sorted_wrt (\<lambda>a b. \<not> listeners_conflict (Listen (the b)) (Listen (the a))) rs'
    \<and> sorted_wrt (\<lambda>a b. \<not> collide (Listen (the b)) (Listen (the a))) rs'
    \<and> (\<forall>r\<in>set rs'. endpoint_within (if e then 0 else 1) (Listen (the r)) \<and> (\<forall>t\<in>set (Targets (the r)). endpoint_within 1 (Address (the t))))
    \<and> job_count rs' \<le> maxActiveHealthJobs \<and> card (prewarm_addresses rs') \<le> maxPrewarmTargets"
proof -
  let ?s = "\<lparr>rsNames = [], rsListeners = [], rsPrewarm = {}, rsJobs = 0\<rparr>"
  have h: "rs \<noteq> []" "length rs \<le> maxRules" "rules_loop compiles e ?s rs = Inr rs'"
    using assms by (auto simp: validateRules_def split: if_splits)
  note v = rules_loop_valid[OF h(3)]
  have "sorted_wrt (\<lambda>a b. \<not> listeners_conflict (Listen (the b)) (Listen (the a))) rs'" using v by blast
  then have "sorted_wrt (\<lambda>a b. \<not> collide (Listen (the b)) (Listen (the a))) rs'"
    by (rule sorted_wrt_mono_rel[rotated]) (use collide_conflict in blast)
  moreover have "endpoint_within (if e then 0 else 1) (Listen (the r))" if "r \<in> set rs'" for r
    using rules_loop_listen[OF h(3)] that by (intro endpoint_accepted) blast
  moreover have "endpoint_within 1 (Address (the t))" if r: "r \<in> set rs'" "t \<in> set (Targets (the r))" for r t
  proof -
    obtain u where u: "r = Some u" "rule_wf compiles u" using v r(1) by blast
    then obtain w where "t = Some w" "target_wf compiles u w" using r(2) by (auto simp: rule_wf_def)
    then show ?thesis using endpoint_accepted[of "Address w" False] by (simp add: target_wf_def validateEndpoint_def)
  qed
  ultimately show ?thesis using v h(1,2) by auto
qed

text \<open>validation is idempotent: an accepted rule set is accepted again and is not changed any
  more, so validating a configuration at load time and again when it is published or handed to
  the server has the effect of validating it once.\<close>

theorem validation_idempotent:
  assumes "validateRules compiles e rs = Inr rs'" shows "validateRules compiles e rs' = Inr rs'"
proof -
  let ?s = "\<lparr>rsNames = [], rsListeners = [], rsPrewarm = {}, rsJobs = 0\<rparr>"
  have h: "rs \<noteq> []" "length rs \<le> maxRules" "rules_loop compiles e ?s rs = Inr rs'"
    using assms by (auto simp: validateRules_def split: if_splits)
  show ?thesis using rules_loop_valid[OF h(3)] h(1,2) by (auto simp: validateRules_def)
qed

section \<open>A concrete rule set\<close>

definition raw_rule :: "string \<Rightarrow> string \<Rightarrow> Rule" where
  "raw_rule name listen = \<lparr>Name = name, Listen = listen, Mode = ModeBoost, Protocol = '''', Prewarm = False,
     Targets = [Some \<lparr>Regexp = '''', Re = None, Address = ''a:1'', ServerNames = [], ALPN = [], ConnectProxy = None\<rparr>,
       Some \<lparr>Regexp = '''', Re = None, Address = ''b:2'', ServerNames = [], ALPN = [], ConnectProxy = None\<rparr>],
     Timeout = 0, Blacklist = [(''10.0.0.9'', True)], Allowlist = [''10.0.0.0/8''], MaxConnections = 0, MaxConnectionsPerIP = 0,
     HealthCheck = None, Hedge = Some \<lparr>MinDelay = 0, MaxDelay = 0\<rparr>, ProxyProtocol = None, UserAgent = [],
     allowPrefixes = [], blockedIPs = {}\<rparr>"

definition raw_rules :: "Rule option list" where
  "raw_rules = [Some (raw_rule ''x'' '':80''), Some (raw_rule ''y'' '':81'')]"

definition accepted :: "'a + 'b \<Rightarrow> bool" where
  "accepted x = (case x of Inl _ \<Rightarrow> False | Inr _ \<Rightarrow> True)"

lemma accepted_Inr: "accepted x \<Longrightarrow> x = Inr (projr x)"
  by (auto simp: accepted_def split: sum.splits)

lemma raw_rules_accepted: "accepted (validateRules (\<lambda>_. True) False raw_rules)"
  by code_simp

lemma raw_rules_conflict: "validateRules (\<lambda>_. True) False [Some (raw_rule ''x'' '':80''), Some (raw_rule ''y'' ''127.0.0.1:80'')]
  = Inl ''duplicate listen address''"
  by code_simp

theorem validated_rules_well_formed_witness:
  "\<exists>rs'. validateRules (\<lambda>_. True) False raw_rules = Inr rs' \<and> rs' \<noteq> [] \<and> (\<forall>r\<in>set rs'. \<exists>u. r = Some u \<and> rule_wf (\<lambda>_. True) u)"
proof -
  have v: "validateRules (\<lambda>_. True) False raw_rules = Inr (projr (validateRules (\<lambda>_. True) False raw_rules))"
    by (rule accepted_Inr[OF raw_rules_accepted])
  from v validated_rules_well_formed[OF v] show ?thesis by metis
qed

theorem validation_idempotent_witness:
  "\<exists>rs'. validateRules (\<lambda>_. True) False raw_rules = Inr rs' \<and> validateRules (\<lambda>_. True) False rs' = Inr rs' \<and> rs' \<noteq> raw_rules"
proof -
  let ?rs = "projr (validateRules (\<lambda>_. True) False raw_rules)"
  have v: "validateRules (\<lambda>_. True) False raw_rules = Inr ?rs" by (rule accepted_Inr[OF raw_rules_accepted])
  have "map (Timeout \<circ> the) ?rs \<noteq> map (Timeout \<circ> the) raw_rules" by code_simp
  then have "?rs \<noteq> raw_rules" by metis
  with v validation_idempotent[OF v] show ?thesis by blast
qed

theorem access_lists_decide_witness:
  "\<exists>r'. validateRule (\<lambda>_. True) False (raw_rule ''x'' '':80'') = Inr r' \<and> Allows r' (Addr4 [10, 1, 1, 1]) \<and> \<not> Allows r' (Addr4 [11, 1, 1, 1])
     \<and> Blocked r' (Addr4 [10, 0, 0, 9]) \<and> (\<exists>item\<in>set (Allowlist r'). \<exists>p. parse_prefix item = Some p \<and> prefix_contains p (unmap (Addr4 [10, 1, 1, 1])))"
proof -
  let ?v = "validateRule (\<lambda>_. True) False (raw_rule ''x'' '':80'')"
  have "accepted ?v" by code_simp
  then have v: "?v = Inr (projr ?v)" by (rule accepted_Inr)
  have e: "Allows (projr ?v) (Addr4 [10, 1, 1, 1])" "\<not> Allows (projr ?v) (Addr4 [11, 1, 1, 1])" "Blocked (projr ?v) (Addr4 [10, 0, 0, 9])"
    "Allowlist (projr ?v) \<noteq> []" by code_simp+
  then show ?thesis using access_lists_decide[OF v, of "Addr4 [10, 1, 1, 1]"] v by blast
qed

end
