(* ===== verification/Socks5.thy ===== *)
theory Socks5
  imports Connect_Policy TLS_ClientHello Net_Text "HOL-Library.Sublist"
begin

text \<open>
  The inbound SOCKS5 handshake (\<^verbatim>\<open>controller/socks5.go\<close>). A client connection is the bytes the
  client sends before it stops, the bytes written to it, and how many bytes each coming
  \<^verbatim>\<open>Write\<close> call accepts (when the list ends, a call fails).
\<close>

section \<open>The connection\<close>

record sconn =
  inp :: "byte list"
  out :: "byte list"
  accepts :: "nat list"

definition read_conn :: "nat \<Rightarrow> sconn \<Rightarrow> byte list \<times> bool \<times> sconn" where
  "read_conn n c = (let (bs, ok, rest) = read_full n (inp c) in (bs, ok, c\<lparr>inp := rest\<rparr>))"

definition socks5Version :: byte where "socks5Version = 5"
definition socks5MethodNoAuth :: byte where "socks5MethodNoAuth = 0"
definition socks5MethodRejected :: byte where "socks5MethodRejected = 255"
definition socks5CommandConnect :: byte where "socks5CommandConnect = 1"
definition socks5AddressIPv4 :: byte where "socks5AddressIPv4 = 1"
definition socks5AddressDomain :: byte where "socks5AddressDomain = 3"
definition socks5AddressIPv6 :: byte where "socks5AddressIPv6 = 4"
definition socks5ReplySuccess :: byte where "socks5ReplySuccess = 0"
definition socks5ReplyGeneral :: byte where "socks5ReplyGeneral = 1"
definition socks5ReplyNotAllowed :: byte where "socks5ReplyNotAllowed = 2"
definition socks5ReplyHost :: byte where "socks5ReplyHost = 4"
definition socks5ReplyCommand :: byte where "socks5ReplyCommand = 7"
definition socks5ReplyAddressType :: byte where "socks5ReplyAddressType = 8"
definition socks5HandshakeMaxWait :: duration where "socks5HandshakeMaxWait = 10 * second"

lemmas socks5_consts [go_consts] = socks5Version_def socks5MethodNoAuth_def socks5MethodRejected_def
  socks5CommandConnect_def socks5AddressIPv4_def socks5AddressDomain_def socks5AddressIPv6_def
  socks5ReplySuccess_def socks5ReplyGeneral_def socks5ReplyNotAllowed_def socks5ReplyHost_def
  socks5ReplyCommand_def socks5ReplyAddressType_def

text \<open>The write loop; it returns whether everything was written.\<close>

fun write_loop :: "byte list \<Rightarrow> nat list \<Rightarrow> byte list \<Rightarrow> bool \<times> byte list \<times> nat list" where
  "write_loop [] as sent = (True, sent, as)"
| "write_loop (b # bs) [] sent = (False, sent, [])"
| "write_loop (b # bs) (a # as) sent =
     (if a = 0 then (False, sent, as)
      else write_loop (drop a (b # bs)) as (sent @ take a (b # bs)))"

definition writeSOCKS5Bytes :: "sconn \<Rightarrow> byte list \<Rightarrow> bool \<times> sconn" where
  "writeSOCKS5Bytes c payload =
     (let (ok, sent, as) = write_loop payload (accepts c) [] in (ok, c\<lparr>out := out c @ sent, accepts := as\<rparr>))"

definition writeSOCKS5Method :: "sconn \<Rightarrow> byte \<Rightarrow> bool \<times> sconn" where
  "writeSOCKS5Method c m = writeSOCKS5Bytes c [socks5Version, m]"

definition reply_bytes :: "byte \<Rightarrow> byte list" where
  "reply_bytes r = [socks5Version, r, 0, socks5AddressIPv4, 0, 0, 0, 0, 0, 0]"

definition writeSOCKS5Reply :: "sconn \<Rightarrow> byte \<Rightarrow> bool \<times> sconn" where
  "writeSOCKS5Reply c r = writeSOCKS5Bytes c (reply_bytes r)"

section \<open>Domain names\<close>

definition socks5_char :: "byte \<Rightarrow> bool" where
  "socks5_char value \<longleftrightarrow> \<not> ((value < 97 \<or> value > 122) \<and> (value < 65 \<or> value > 90)
     \<and> (value < 48 \<or> value > 57) \<and> value \<noteq> 45 \<and> value \<noteq> 95)"

function domain_loop :: "byte list \<Rightarrow> nat \<Rightarrow> nat \<Rightarrow> nat \<Rightarrow> bool" where
  "domain_loop domain end index labelStart =
     (if \<not> index \<le> end then True
      else if index < end \<and> domain ! index \<noteq> 46 then
        if \<not> socks5_char (domain ! index) then False
        else domain_loop domain end (index + 1) labelStart
      else
        let labelLength = index - labelStart
        in if labelLength = 0 \<or> labelLength > 63 \<or> domain ! labelStart = 45 \<or> domain ! (index - 1) = 45
           then False
           else domain_loop domain end (index + 1) (index + 1))"
  by pat_completeness auto
termination by (relation "measure (\<lambda>(d, e, i, l). e + 1 - i)") auto

declare domain_loop.simps [simp del]

definition validSOCKS5DomainName :: "byte list \<Rightarrow> bool" where
  "validSOCKS5DomainName domain =
     (if length domain = 0 \<or> length domain > 253 \<or> domain ! 0 = 46 then False
      else
        let end = length domain
        in if domain ! (end - 1) = 46 then
             let end = end - 1 in if end = 0 then False else domain_loop domain end 0 0
           else domain_loop domain end 0 0)"

section \<open>The handshake\<close>

datatype socks5_error =
    ReadGreeting | UnsupportedVersion byte | NoMethods | ReadMethods | NoAuthNotOffered | WriteMethod
  | ReadHeader | MalformedHeader | UnsupportedCommand byte | ReadAddress | EmptyDomain | InvalidDomain
  | UnsupportedAddressType byte | ReadPort | ZeroPort

text \<open>The host, or the error with the reply it asks for.\<close>

definition readSOCKS5Host :: "sconn \<Rightarrow> byte \<Rightarrow> (byte \<times> socks5_error + string) \<times> sconn" where
  "readSOCKS5Host c addressType =
     (if addressType = socks5AddressIPv4 then
        let (address, ok, c) = read_conn 4 c
        in (if \<not> ok then Inl (socks5ReplyGeneral, ReadAddress) else Inr (ip_string address), c)
      else if addressType = socks5AddressIPv6 then
        let (address, ok, c) = read_conn 16 c
        in (if \<not> ok then Inl (socks5ReplyGeneral, ReadAddress) else Inr (ip_string address), c)
      else if addressType = socks5AddressDomain then
        let (len, ok, c) = read_conn 1 c
        in if \<not> ok then (Inl (socks5ReplyGeneral, ReadAddress), c)
           else if len ! 0 = 0 then (Inl (socks5ReplyAddressType, EmptyDomain), c)
           else
             let (domain, ok, c) = read_conn (unat (len ! 0)) c
             in (if \<not> ok then Inl (socks5ReplyGeneral, ReadAddress)
                 else if \<not> validSOCKS5DomainName domain then Inl (socks5ReplyAddressType, InvalidDomain)
                 else Inr (bytes_string domain), c)
      else (Inl (socks5ReplyAddressType, UnsupportedAddressType addressType), c))"

definition fail_with :: "sconn \<Rightarrow> byte \<Rightarrow> socks5_error \<Rightarrow> (socks5_error + string) \<times> sconn" where
  "fail_with c reply e = (Inl e, snd (writeSOCKS5Reply c reply))"

definition read_request :: "sconn \<Rightarrow> (socks5_error + string) \<times> sconn" where
  "read_request c =
     (let (request, ok, c) = read_conn 4 c
      in if \<not> ok then (Inl ReadHeader, c)
         else if request ! 0 \<noteq> socks5Version \<or> request ! 2 \<noteq> 0 then fail_with c socks5ReplyGeneral MalformedHeader
         else if request ! 1 \<noteq> socks5CommandConnect
         then fail_with c socks5ReplyCommand (UnsupportedCommand (request ! 1))
         else
           let (host, c) = readSOCKS5Host c (request ! 3)
           in case host of
             Inl (reply, e) \<Rightarrow> fail_with c reply e
           | Inr host \<Rightarrow>
               let (portBytes, ok, c) = read_conn 2 c
               in if \<not> ok then fail_with c socks5ReplyGeneral ReadPort
                  else
                    let port = be16 (portBytes ! 0) (portBytes ! 1)
                    in if port = 0 then fail_with c socks5ReplyGeneral ZeroPort
                       else (Inr (joinHostPort host (nat_string (nat port))), c))"

definition readSOCKS5Handshake :: "sconn \<Rightarrow> (socks5_error + string) \<times> sconn" where
  "readSOCKS5Handshake c =
     (let (greeting, ok, c) = read_conn 2 c
      in if \<not> ok then (Inl ReadGreeting, c)
         else if greeting ! 0 \<noteq> socks5Version then (Inl (UnsupportedVersion (greeting ! 0)), c)
         else if greeting ! 1 = 0 then (Inl NoMethods, snd (writeSOCKS5Method c socks5MethodRejected))
         else
           let (methods, ok, c) = read_conn (unat (greeting ! 1)) c
           in if \<not> ok then (Inl ReadMethods, c)
              else if \<not> list_ex (\<lambda>m. m = socks5MethodNoAuth) methods
              then (Inl NoAuthNotOffered, snd (writeSOCKS5Method c socks5MethodRejected))
              else
                let (ok, c) = writeSOCKS5Method c socks5MethodNoAuth
                in if \<not> ok then (Inl WriteMethod, c) else read_request c)"

text \<open>The conversion to \<^verbatim>\<open>time.Duration\<close> and the product are those of 64-bit integers.\<close>

definition socks5HandshakeTimeout :: "Rule option \<Rightarrow> duration" where
  "socks5HandshakeTimeout rule =
     (let timeout = (case rule of
            Some r \<Rightarrow> if Timeout r > 0 then sint (Timeout r * 1000000) else 3 * second
          | None \<Rightarrow> 3 * second)
      in if timeout > socks5HandshakeMaxWait then socks5HandshakeMaxWait else timeout)"

section \<open>The final reply\<close>

record socks5ClientConn =
  sconn :: sconn
  destination :: string
  replied :: bool
  failureReply :: byte

definition prepareSOCKS5Client :: "sconn \<Rightarrow> socks5_error + socks5ClientConn" where
  "prepareSOCKS5Client c = (case readSOCKS5Handshake c of
       (Inl e, c) \<Rightarrow> Inl e
     | (Inr d, c) \<Rightarrow> Inr \<lparr>sconn = c, destination = d, replied = False, failureReply = 0\<rparr>)"

definition markSOCKS5Connected :: "socks5ClientConn \<Rightarrow> bool \<times> socks5ClientConn" where
  "markSOCKS5Connected client =
     (if replied client then (True, client)
      else let client = client\<lparr>replied := True\<rparr>;
          (ok, c) = writeSOCKS5Reply (sconn client) socks5ReplySuccess
        in (ok, client\<lparr>sconn := c\<rparr>))"

definition failPendingSOCKS5 :: "socks5ClientConn \<Rightarrow> socks5ClientConn" where
  "failPendingSOCKS5 client =
     (if replied client then client
      else let client = client\<lparr>replied := True\<rparr>;
          reply = (if failureReply client = socks5ReplySuccess then socks5ReplyGeneral else failureReply client)
        in client\<lparr>sconn := snd (writeSOCKS5Reply (sconn client) reply)\<rparr>)"

definition connectProxySOCKS5Reply :: "goerr \<Rightarrow> byte" where
  "connectProxySOCKS5Reply err =
     (case connectProxyStatusFailureClass (connectProxyFinalStatusError err) of
        FailurePolicyDenied \<Rightarrow> socks5ReplyNotAllowed
      | FailureDestinationConnect \<Rightarrow> socks5ReplyHost
      | _ \<Rightarrow> socks5ReplyGeneral)"

definition setPendingSOCKS5Failure :: "goerr \<Rightarrow> socks5ClientConn \<Rightarrow> socks5ClientConn" where
  "setPendingSOCKS5Failure err client =
     (if replied client then client else client\<lparr>failureReply := connectProxySOCKS5Reply err\<rparr>)"

section \<open>Domain names: the loop decides the label rule\<close>

definition socks_label :: "byte list \<Rightarrow> bool" where
  "socks_label l \<longleftrightarrow> l \<noteq> [] \<and> length l \<le> 63 \<and> (\<forall>b\<in>set l. socks5_char b) \<and> hd l \<noteq> 45 \<and> last l \<noteq> 45"

text \<open>A host name: at most 253 bytes, one trailing dot allowed, and all its labels well formed.\<close>

definition without_dot :: "byte list \<Rightarrow> byte list" where
  "without_dot d = (if d \<noteq> [] \<and> last d = 46 then butlast d else d)"

definition host_name :: "byte list \<Rightarrow> bool" where
  "host_name d \<longleftrightarrow> length d \<le> 253 \<and> (\<forall>l\<in>set (split_on 46 (without_dot d)). socks_label l)"

lemma label_check:
  assumes "\<forall>b\<in>set cur. socks5_char b"
  shows "\<not> (length cur = 0 \<or> length cur > 63 \<or> (pre @ cur @ q) ! length pre = 45
     \<or> (pre @ cur @ q) ! (length pre + length cur - 1) = 45) \<longleftrightarrow> socks_label cur"
proof (cases "cur = []")
  case False
  then have "(pre @ cur @ q) ! length pre = hd cur" by (simp add: nth_append hd_conv_nth)
  then show ?thesis using False assms nth_last_of_middle[OF False, of pre q] by (auto simp: socks_label_def not_less)
qed (simp add: socks_label_def)

lemma domain_loop_iff:
  assumes "46 \<notin> set cur" "\<forall>b\<in>set cur. socks5_char b"
  shows "domain_loop (pre @ cur @ rest @ suf) (length pre + length cur + length rest) (length pre + length cur) (length pre)
     \<longleftrightarrow> (\<forall>l\<in>set (split_on 46 (cur @ rest)). socks_label l)"
  using assms
proof (induction rest arbitrary: pre cur)
  case Nil
  have "domain_loop (pre @ cur @ [] @ suf) (length pre + length cur + length []) (length pre + length cur) (length pre)
     \<longleftrightarrow> socks_label cur"
    using label_check[OF Nil.prems(2), of pre suf]
    by (subst domain_loop.simps) (auto simp: Let_def domain_loop.simps[of _ _ "Suc _"])
  then show ?case using split_on_no_sep[OF Nil.prems(1)] by simp
next
  case (Cons b rest)
  let ?d = "pre @ cur @ (b # rest) @ suf" and ?e = "length pre + length cur + length (b # rest)"
  have nth: "?d ! (length pre + length cur) = b" by (simp add: nth_append)
  show ?case
  proof (cases "b = 46")
    case True
    have IH: "domain_loop ?d ?e (length pre + length cur + 1) (length pre + length cur + 1)
        \<longleftrightarrow> (\<forall>l\<in>set (split_on 46 rest). socks_label l)"
      using Cons.IH[of "[]" "pre @ cur @ [b]"] by simp
    have "domain_loop ?d ?e (length pre + length cur) (length pre) \<longleftrightarrow>
        socks_label cur \<and> domain_loop ?d ?e (length pre + length cur + 1) (length pre + length cur + 1)"
      using label_check[OF Cons.prems(2), of pre "(b # rest) @ suf"] nth True
      by (subst domain_loop.simps) (auto simp: Let_def)
    then show ?thesis using IH True split_on_append_sep[OF Cons.prems(1), of rest] by auto
  next
    case False
    show ?thesis
    proof (cases "socks5_char b")
      case True
      have "domain_loop ?d ?e (length pre + length cur) (length pre)
          = domain_loop ?d ?e (length pre + length cur + 1) (length pre)"
        using nth False True by (subst domain_loop.simps) simp
      also have "\<dots> \<longleftrightarrow> (\<forall>l\<in>set (split_on 46 ((cur @ [b]) @ rest)). socks_label l)"
        using Cons.IH[of "cur @ [b]" pre] Cons.prems False True by simp
      finally show ?thesis by simp
    next
      case bad: False
      have "\<not> domain_loop ?d ?e (length pre + length cur) (length pre)"
        using nth False bad by (subst domain_loop.simps) simp
      moreover have "\<exists>q ps. split_on 46 ((cur @ [b]) @ rest) = ((cur @ [b]) @ q) # ps"
        by (rule split_on_hd_prefix) (use Cons.prems False in auto)
      then have "\<not> (\<forall>l\<in>set (split_on 46 ((cur @ [b]) @ rest)). socks_label l)"
        using bad by (auto simp: socks_label_def)
      ultimately show ?thesis by simp
    qed
  qed
qed

lemma domain_loop_prefix:
  "domain_loop (d @ suf) (length d) 0 0 \<longleftrightarrow> (\<forall>l\<in>set (split_on 46 d). socks_label l)"
  using domain_loop_iff[of "[]" "[]" d suf] by simp

lemma valid_iff_host_name: "validSOCKS5DomainName d \<longleftrightarrow> host_name d"
proof (cases "d = [] \<or> length d > 253 \<or> d ! 0 = 46")
  case True
  have "\<not> (\<forall>l\<in>set (split_on 46 (without_dot d)). socks_label l)" if "d = [] \<or> d ! 0 = 46"
    using that by (cases d) (auto simp: without_dot_def socks_label_def)
  then show ?thesis using True by (auto simp: validSOCKS5DomainName_def host_name_def)
next
  case False
  then have ne: "d \<noteq> []" and lst: "d ! (length d - 1) = last d" by (auto simp: last_conv_nth)
  show ?thesis
  proof (cases "last d = 46")
    case True
    then have d: "d = butlast d @ [46]" using ne by (metis append_butlast_last_id)
    have "butlast d \<noteq> []" using False d by (metis append_Nil nth_Cons_0)
    then show ?thesis using False lst True ne domain_loop_prefix[of "butlast d" "[46]"] d
      by (auto simp: validSOCKS5DomainName_def host_name_def without_dot_def Let_def)
  next
    case ndot: False
    then show ?thesis using False lst ne domain_loop_prefix[of d "[]"]
      by (simp add: validSOCKS5DomainName_def host_name_def without_dot_def Let_def not_less)
  qed
qed

text \<open>the scan of a domain name decides the label rule: at most 253 bytes, one trailing dot
  allowed, and every label between the dots has 1 to 63 letters, digits, hyphens or underscores and
  neither starts nor ends with a hyphen. Every server name the TLS probe accepts is also accepted
  here.\<close>

theorem validSOCKS5DomainName_iff_host_name:
  "(validSOCKS5DomainName d \<longleftrightarrow> host_name d)
   \<and> (validateTLSClientHelloServerName d = None \<longrightarrow> validSOCKS5DomainName d)"
proof -
  have "host_name d" if "dns_name d"
  proof -
    have "is_ldh b \<Longrightarrow> socks5_char b" for b by (auto simp: is_ldh_def socks5_char_def)
    then have lab: "dns_label l \<Longrightarrow> socks_label l" for l by (auto simp: dns_label_ldh socks_label_def)
    have "last d \<noteq> 46" if "d \<noteq> []"
    proof
      assume "last d = 46"
      then have "d = butlast d @ [46]" using that by (metis append_butlast_last_id)
      then have "[] \<in> set (split_on 46 d)"
        using split_on_snoc_sep[of 46 "butlast d"] by simp
      then show False using \<open>dns_name d\<close> by (auto simp: dns_name_def dns_label_ldh)
    qed
    then show ?thesis using that lab by (auto simp: host_name_def dns_name_def without_dot_def)
  qed
  then show ?thesis using valid_iff_host_name validate_iff by blast
qed

theorem validSOCKS5DomainName_iff_host_name_witness:
  "validSOCKS5DomainName (map (of_char :: char \<Rightarrow> byte) ''a.example'')"
proof -
  have "validateTLSClientHelloServerName (map (of_char :: char \<Rightarrow> byte) ''a.example'') = None" by code_simp
  then show ?thesis using validSOCKS5DomainName_iff_host_name by blast
qed

section \<open>Writes\<close>

lemma write_loop_prefix:
  "write_loop p as sent = (ok, sent', as') \<Longrightarrow> \<exists>x. sent' = sent @ x \<and> prefix x p \<and> (ok \<longrightarrow> x = p)"
proof (induction p as sent rule: write_loop.induct)
  case (3 b bs a as sent)
  show ?case
  proof (cases "a = 0")
    case False
    then obtain x where x: "sent' = (sent @ take a (b # bs)) @ x" "prefix x (drop a (b # bs))" "ok \<longrightarrow> x = drop a (b # bs)"
      using 3 by auto
    have "prefix (take a (b # bs) @ x) (take a (b # bs) @ drop a (b # bs))" using x(2) by (simp only: same_prefix_prefix)
    then show ?thesis using x by (intro exI[of _ "take a (b # bs) @ x"]) simp
  qed (use 3 in auto)
qed auto

lemma writeSOCKS5Bytes_prefix:
  "writeSOCKS5Bytes c p = (ok, c') \<Longrightarrow>
   \<exists>x. out c' = out c @ x \<and> prefix x p \<and> (ok \<longrightarrow> x = p) \<and> inp c' = inp c"
  using write_loop_prefix[of p "accepts c" "[]"]
  by (auto simp: writeSOCKS5Bytes_def Let_def split: prod.splits)

lemma read_conn_frame [simp]:
  "out (snd (snd (read_conn n c))) = out c" "accepts (snd (snd (read_conn n c))) = accepts c"
  by (simp_all add: read_conn_def split_beta Let_def)

lemma readSOCKS5Host_frame [simp]:
  "out (snd (readSOCKS5Host c t)) = out c" "accepts (snd (readSOCKS5Host c t)) = accepts c"
  by (simp_all add: readSOCKS5Host_def split_beta Let_def)

section \<open>What the handshake may answer\<close>

definition failure_reply :: "byte list \<Rightarrow> bool" where
  "failure_reply x \<longleftrightarrow> (\<exists>r. r \<noteq> socks5ReplySuccess \<and> prefix x (reply_bytes r))"

lemma failure_reply_empty: "failure_reply []"
  unfolding failure_reply_def by (intro exI[of _ 1]) (simp add: socks5_consts)

lemma fail_with_out:
  "r \<noteq> socks5ReplySuccess \<Longrightarrow> fst (fail_with c r e) = Inl e
     \<and> (\<exists>x. out (snd (fail_with c r e)) = out c @ x \<and> failure_reply x)"
  using writeSOCKS5Bytes_prefix[of c "reply_bytes r"]
  by (cases "writeSOCKS5Bytes c (reply_bytes r)")
    (auto simp: fail_with_def writeSOCKS5Reply_def failure_reply_def)

lemma readSOCKS5Host_reply: "fst (readSOCKS5Host c t) = Inl (r, e) \<Longrightarrow> r \<noteq> socks5ReplySuccess"
  by (auto simp: readSOCKS5Host_def split_beta Let_def socks5_consts split: if_splits)

definition answers :: "(socks5_error + string) \<times> sconn \<Rightarrow> byte list \<Rightarrow> bool" where
  "answers res o0 \<longleftrightarrow> (case fst res of
       Inr d \<Rightarrow> out (snd res) = o0
     | Inl e \<Rightarrow> (\<exists>x. out (snd res) = o0 @ x \<and> failure_reply x))"

lemma answers_fail: "r \<noteq> socks5ReplySuccess \<Longrightarrow> out c = o0 \<Longrightarrow> answers (fail_with c r e) o0"
  using fail_with_out[of r c e] by (auto simp: answers_def)

lemma read_request_answers: "answers (read_request c) (out c)"
proof -
  have 1: "answers (Inl e, c') o0" if "out c' = o0" for e c' o0
    using that failure_reply_empty by (auto simp: answers_def)
  have 2: "answers (Inr d, c') o0" if "out c' = o0" for d c' o0
    using that by (simp add: answers_def)
  have g: "socks5ReplyGeneral \<noteq> socks5ReplySuccess" "socks5ReplyCommand \<noteq> socks5ReplySuccess"
    by (simp_all add: socks5_consts)
  show ?thesis unfolding read_request_def Let_def split_beta
    by (auto split: sum.split intro!: 1 2 answers_fail g dest: readSOCKS5Host_reply)
qed

definition handshake_answers :: "byte list \<Rightarrow> (socks5_error + string) \<times> sconn \<Rightarrow> bool" where
  "handshake_answers o0 res = (case res of
       (Inr d, c') \<Rightarrow> out c' = o0 @ [socks5Version, socks5MethodNoAuth]
     | (Inl e, c') \<Rightarrow> \<exists>x. out c' = o0 @ x \<and> (prefix x [socks5Version, socks5MethodRejected]
          \<or> (\<exists>r. r \<noteq> socks5ReplySuccess \<and> prefix x ([socks5Version, socks5MethodNoAuth] @ reply_bytes r))))"

lemma handshake_silent: "out c' = o0 \<Longrightarrow> handshake_answers o0 (Inl e, c')"
  by (auto simp: handshake_answers_def intro: exI[of _ "[]"])

lemma handshake_reject: "out c' = o0 \<Longrightarrow> handshake_answers o0 (Inl e, snd (writeSOCKS5Method c' socks5MethodRejected))"
  using writeSOCKS5Bytes_prefix[of c' "[socks5Version, socks5MethodRejected]"]
  by (cases "writeSOCKS5Bytes c' [socks5Version, socks5MethodRejected]")
    (auto simp: handshake_answers_def writeSOCKS5Method_def)

lemma handshake_select:
  assumes "out c' = o0" "writeSOCKS5Method c' socks5MethodNoAuth = (ok, c'')"
  shows "handshake_answers o0 (if \<not> ok then (Inl WriteMethod, c'') else read_request c'')"
proof -
  from writeSOCKS5Bytes_prefix[OF assms(2)[unfolded writeSOCKS5Method_def]] assms(1)
  obtain x where x: "out c'' = o0 @ x" "prefix x [socks5Version, socks5MethodNoAuth]"
    "ok \<longrightarrow> x = [socks5Version, socks5MethodNoAuth]" by auto
  show ?thesis
  proof (cases ok)
    case True
    show ?thesis using x True read_request_answers[of c'']
      by (cases "read_request c''")
        (fastforce simp: handshake_answers_def answers_def failure_reply_def split: sum.splits)
  next
    case False
    have "prefix x ([socks5Version, socks5MethodNoAuth] @ reply_bytes 1)" using x(2) prefix_prefix by blast
    moreover have "(1::byte) \<noteq> socks5ReplySuccess" by (simp add: socks5_consts)
    ultimately have "\<exists>r. r \<noteq> socks5ReplySuccess \<and> prefix x ([socks5Version, socks5MethodNoAuth] @ reply_bytes r)"
      by blast
    then show ?thesis using x(1) False by (simp add: handshake_answers_def)
  qed
qed

lemma handshake_answers_all: "handshake_answers (out c) (readSOCKS5Handshake c)"
proof -
  have select: "\<not> fst (writeSOCKS5Method c' socks5MethodNoAuth) \<Longrightarrow>
      handshake_answers (out c) (Inl WriteMethod, snd (writeSOCKS5Method c' socks5MethodNoAuth))"
    "fst (writeSOCKS5Method c' socks5MethodNoAuth) \<Longrightarrow>
      handshake_answers (out c) (read_request (snd (writeSOCKS5Method c' socks5MethodNoAuth)))"
    if "out c' = out c" for c'
    using handshake_select[OF that, of "fst (writeSOCKS5Method c' socks5MethodNoAuth)"
      "snd (writeSOCKS5Method c' socks5MethodNoAuth)",
      OF prod.collapse[symmetric]] by simp_all
  show ?thesis unfolding readSOCKS5Handshake_def Let_def split_beta
    by (simp add: handshake_silent handshake_reject select)
qed

text \<open>the handshake never acknowledges a tunnel. Whatever the client sends and however its
  connection accepts writes, a handshake that succeeds has written exactly the NO AUTH selection,
  and one that fails has written at most a method rejection, or the selection and then at most one
  reply, whose code is a failure.\<close>

theorem handshake_never_acknowledges:
  "case readSOCKS5Handshake c of
     (Inr d, c') \<Rightarrow> out c' = out c @ [socks5Version, socks5MethodNoAuth]
   | (Inl e, c') \<Rightarrow> \<exists>x. out c' = out c @ x \<and> (prefix x [socks5Version, socks5MethodRejected]
        \<or> (\<exists>r. r \<noteq> socks5ReplySuccess \<and> prefix x ([socks5Version, socks5MethodNoAuth] @ reply_bytes r)))"
  using handshake_answers_all unfolding handshake_answers_def .

section \<open>Round trip\<close>

text \<open>What a client sends to ask for a destination.\<close>

datatype socks_dest = DestIPv4 "byte list" | DestIPv6 "byte list" | DestDomain "byte list"

fun dest_ok :: "socks_dest \<Rightarrow> bool" where
  "dest_ok (DestIPv4 bs) \<longleftrightarrow> length bs = 4"
| "dest_ok (DestIPv6 bs) \<longleftrightarrow> length bs = 16"
| "dest_ok (DestDomain bs) \<longleftrightarrow> host_name bs"

fun dest_host :: "socks_dest \<Rightarrow> string" where
  "dest_host (DestIPv4 bs) = ip_string bs"
| "dest_host (DestIPv6 bs) = ip_string bs"
| "dest_host (DestDomain bs) = bytes_string bs"

fun enc_dest :: "socks_dest \<Rightarrow> byte list" where
  "enc_dest (DestIPv4 bs) = socks5AddressIPv4 # bs"
| "enc_dest (DestIPv6 bs) = socks5AddressIPv6 # bs"
| "enc_dest (DestDomain bs) = socks5AddressDomain # word_of_nat (length bs) # bs"

definition enc_greeting :: "byte list \<Rightarrow> byte list" where
  "enc_greeting methods = [socks5Version, word_of_nat (length methods)] @ methods"

definition enc_connect :: "socks_dest \<Rightarrow> nat \<Rightarrow> byte list" where
  "enc_connect dest port = [socks5Version, socks5CommandConnect, 0] @ enc_dest dest @ enc16 port"

lemma read_conn_append [simp]:
  "inp c = xs @ ys \<Longrightarrow> length xs = n \<Longrightarrow> read_conn n c = (xs, True, c\<lparr>inp := ys\<rparr>)"
  by (auto simp: read_conn_def read_full_def)

lemma unat_len: "n \<le> 255 \<Longrightarrow> unat (word_of_nat n :: byte) = n"
  by (simp add: unat_of_nat)

lemma host_name_len: "host_name d \<Longrightarrow> 0 < length d \<and> length d \<le> 253"
  by (cases d) (auto simp: host_name_def without_dot_def socks_label_def)

lemma readSOCKS5Host_enc:
  assumes "dest_ok dest" "enc_dest dest = t # body" "inp c = body @ rest"
  shows "readSOCKS5Host c t = (Inr (dest_host dest), c\<lparr>inp := rest\<rparr>)"
proof (cases dest)
  case (DestDomain bs)
  have b: "0 < length bs" "length bs \<le> 253" using assms(1) DestDomain host_name_len by auto
  have nz: "(word_of_nat (length bs) :: byte) \<noteq> 0"
  proof
    assume "(word_of_nat (length bs) :: byte) = 0"
    then have "unat (word_of_nat (length bs) :: byte) = 0" by simp
    then show False using b unat_len[of "length bs"] by simp
  qed
  have i: "inp c = [word_of_nat (length bs)] @ bs @ rest" using assms DestDomain by auto
  have 1: "read_conn 1 c = ([word_of_nat (length bs)], True, c\<lparr>inp := bs @ rest\<rparr>)"
    by (rule read_conn_append[OF i]) simp
  have 2: "read_conn (unat (word_of_nat (length bs) :: byte)) (c\<lparr>inp := bs @ rest\<rparr>) = (bs, True, c\<lparr>inp := rest\<rparr>)"
    using b by (subst read_conn_append[of _ bs rest]) (simp_all add: unat_len)
  show ?thesis using assms DestDomain nz
    by (simp add: readSOCKS5Host_def socks5_consts 1[unfolded One_nat_def] 2 Let_def valid_iff_host_name)
qed (use assms in \<open>auto simp: readSOCKS5Host_def socks5_consts Let_def\<close>)

lemma read_request_enc:
  assumes d: "dest_ok dest" and p: "0 < port" "port < 65536" and inp: "inp c = enc_connect dest port @ rest"
  shows "read_request c = (Inr (joinHostPort (dest_host dest) (nat_string port)), c\<lparr>inp := rest\<rparr>)"
proof -
  obtain t body where e: "enc_dest dest = t # body" by (cases dest) auto
  have 4: "read_conn 4 c = ([socks5Version, socks5CommandConnect, 0, t], True, c\<lparr>inp := body @ enc16 port @ rest\<rparr>)"
    using inp by (intro read_conn_append) (simp_all add: enc_connect_def e)
  have 5: "readSOCKS5Host (c\<lparr>inp := body @ enc16 port @ rest\<rparr>) t = (Inr (dest_host dest), c\<lparr>inp := enc16 port @ rest\<rparr>)"
    using readSOCKS5Host_enc[OF d e, of "c\<lparr>inp := body @ enc16 port @ rest\<rparr>" "enc16 port @ rest"] by simp
  have 6: "read_conn 2 (c\<lparr>inp := enc16 port @ rest\<rparr>) = (enc16 port, True, c\<lparr>inp := rest\<rparr>)"
    by (subst read_conn_append[of _ "enc16 port" rest]) simp_all
  have 7: "be16 (enc16 port ! 0) (enc16 port ! Suc 0) = int port"
    using be16_enc16[OF p(2)] by (simp add: enc16_def)
  show ?thesis unfolding read_request_def Let_def 4 split using p(1) by (simp add: 5 6 7)
qed

text \<open>C28: the handshake understands what a client sends. For every list of at most 255 methods that
  offers NO AUTH, every destination (an address or a well-formed host name) and every non-zero
  port, reading the encoded greeting and CONNECT request returns the destination in host:port form,
  answers the method selection, and leaves every byte the client sent after the request for the
  tunnel.\<close>

theorem socks5_handshake_roundtrip:
  assumes m: "length methods \<le> 255" "socks5MethodNoAuth \<in> set methods"
    and d: "dest_ok dest" and p: "0 < port" "port < 65536"
    and inp: "inp c = enc_greeting methods @ enc_connect dest port @ rest"
    and acc: "accepts c = a # as" "2 \<le> a"
  shows "readSOCKS5Handshake c = (Inr (joinHostPort (dest_host dest) (nat_string port)),
     c\<lparr>inp := rest, out := out c @ [socks5Version, socks5MethodNoAuth], accepts := as\<rparr>)"
proof -
  have ne: "methods \<noteq> []" using m(2) by auto
  have nz: "(word_of_nat (length methods) :: byte) \<noteq> 0"
  proof
    assume "(word_of_nat (length methods) :: byte) = 0"
    then have "unat (word_of_nat (length methods) :: byte) = 0" by simp
    then show False using m(1) ne unat_len[of "length methods"] by simp
  qed
  let ?c1 = "c\<lparr>inp := methods @ enc_connect dest port @ rest\<rparr>"
  let ?c2 = "c\<lparr>inp := enc_connect dest port @ rest\<rparr>"
  let ?c3 = "c\<lparr>inp := enc_connect dest port @ rest, out := out c @ [socks5Version, socks5MethodNoAuth], accepts := as\<rparr>"
  have 1: "read_conn 2 c = ([socks5Version, word_of_nat (length methods)], True, ?c1)"
    using inp by (intro read_conn_append) (simp_all add: enc_greeting_def)
  have 2: "read_conn (unat (word_of_nat (length methods) :: byte)) ?c1 = (methods, True, ?c2)"
    by (subst read_conn_append[of _ methods "enc_connect dest port @ rest"]) (simp_all add: unat_len[OF m(1)])
  have "drop a [x, y] = []" "take a [x, y] = [x, y]" for x y :: byte using acc(2) by auto
  then have 3: "writeSOCKS5Method ?c2 socks5MethodNoAuth = (True, ?c3)"
    using acc by (simp add: writeSOCKS5Method_def writeSOCKS5Bytes_def)
  have req: "read_request ?c3 = (Inr (joinHostPort (dest_host dest) (nat_string port)), ?c3\<lparr>inp := rest\<rparr>)"
    using d p by (rule read_request_enc) simp
  have "list_ex (\<lambda>m. m = socks5MethodNoAuth) methods" using m(2) by (simp add: list_ex_iff)
  then show ?thesis
    unfolding readSOCKS5Handshake_def Let_def 1 split using nz by (simp add: 2 3 req)
qed

theorem socks5_handshake_roundtrip_witness:
  "fst (readSOCKS5Handshake \<lparr>inp = enc_greeting [2, 0] @ enc_connect (DestIPv6 (replicate 15 0 @ [1])) 443 @ [22, 3],
      out = [], accepts = [2]\<rparr>) = Inr ''[::1]:443''"
proof -
  have "joinHostPort (dest_host (DestIPv6 (replicate 15 0 @ [1]))) (nat_string 443) = ''[::1]:443''" by code_simp
  then show ?thesis
    by (subst socks5_handshake_roundtrip[where rest = "[22, 3]" and a = 2 and as = "[]"])
      (simp_all add: socks5_consts del: dest_host.simps)
qed

lemma writeSOCKS5Reply_out:
  "\<exists>x. out (snd (writeSOCKS5Reply c r)) = out c @ x \<and> prefix x (reply_bytes r)"
  using writeSOCKS5Bytes_prefix[of c "reply_bytes r"]
  by (cases "writeSOCKS5Bytes c (reply_bytes r)") (auto simp: writeSOCKS5Reply_def)

end
