(* ===== verification/Http_Connect.thy ===== *)
theory Http_Connect
  imports Socks5
begin

text \<open>
  The inbound HTTP/1.1 CONNECT handshake (\<^verbatim>\<open>controller/http_connect.go\<close>) and the dispatch that
  gives both CONNECT front ends one interface to the mode handlers
  (\<^verbatim>\<open>controller/connect_inbound.go\<close>).

  Arguments stand for what is outside the program: \<open>vname\<close> and \<open>vvalue\<close> are
  \<^verbatim>\<open>httpguts.ValidHeaderFieldName\<close> and \<^verbatim>\<open>httpguts.ValidHeaderFieldValue\<close> of \<^verbatim>\<open>golang.org/x/net\<close>;
  \<open>fin\<close> is the error the socket's reads end with; a pair \<open>dl\<close> says whether setting and clearing a
  deadline succeeds; \<open>ahead\<close> is how many bytes behind the headers the buffered reader had already
  taken from the socket.
\<close>

section \<open>Errors with a timeout\<close>

text \<open>\<^verbatim>\<open>errors.As(err, &timeout)\<close> for \<^verbatim>\<open>net.Error\<close>, with the value of \<^verbatim>\<open>Timeout()\<close>.\<close>

fun as_neterr :: "goerr \<Rightarrow> bool option" and as_neterrs :: "goerr list \<Rightarrow> bool option" where
  "as_neterr (ErrNet s timeout) = Some timeout"
| "as_neterr (ErrCtx c) = (if c = DeadlineExceeded then Some True else None)"
| "as_neterr (ErrWrap s e) = as_neterr e"
| "as_neterr (ErrRouteFailure e g) = as_neterr e"
| "as_neterr (ErrSetup e g) = as_neterr e"
| "as_neterr (ErrBulkhead b) = (if bulkhead_unwrap b = Some (ErrCtx DeadlineExceeded) then Some True else None)"
| "as_neterr (ErrJoin es) = as_neterrs es"
| "as_neterr _ = None"
| "as_neterrs [] = None"
| "as_neterrs (e # es) = (case as_neterr e of Some t \<Rightarrow> Some t | None \<Rightarrow> as_neterrs es)"

definition isTimeout :: "goerr \<Rightarrow> bool" where
  "isTimeout e \<longleftrightarrow> as_neterr e = Some True"

section \<open>Constants and state\<close>

definition httpConnectMaxHeaderBytes :: nat where "httpConnectMaxHeaderBytes = 32768"
definition httpConnectMaxHeaders :: nat where "httpConnectMaxHeaders = 100"
definition httpConnectReplyTimeout :: duration where "httpConnectReplyTimeout = 3 * second"

text \<open>The size of the buffer of \<^verbatim>\<open>bufio.NewReader\<close>.\<close>

definition bufio_size :: nat where "bufio_size = 4096"

definition StatusOK :: int where "StatusOK = 200"
definition StatusBadRequest :: int where "StatusBadRequest = 400"
definition StatusForbidden :: int where "StatusForbidden = 403"
definition StatusMethodNotAllowed :: int where "StatusMethodNotAllowed = 405"
definition StatusRequestTimeout :: int where "StatusRequestTimeout = 408"
definition StatusTooManyRequests :: int where "StatusTooManyRequests = 429"
definition StatusRequestHeaderFieldsTooLarge :: int where "StatusRequestHeaderFieldsTooLarge = 431"
definition StatusBadGateway :: int where "StatusBadGateway = 502"
definition StatusServiceUnavailable :: int where "StatusServiceUnavailable = 503"
definition StatusGatewayTimeout :: int where "StatusGatewayTimeout = 504"
definition StatusHTTPVersionNotSupported :: int where "StatusHTTPVersionNotSupported = 505"

lemmas http_status [go_consts] = StatusOK_def StatusBadRequest_def StatusForbidden_def StatusMethodNotAllowed_def
  StatusRequestTimeout_def StatusTooManyRequests_def StatusRequestHeaderFieldsTooLarge_def
  StatusBadGateway_def StatusServiceUnavailable_def StatusGatewayTimeout_def StatusHTTPVersionNotSupported_def

text \<open>\<^verbatim>\<open>http.StatusText\<close> for the statuses the program replies with.\<close>

definition status_text :: "int \<Rightarrow> string" where
  "status_text status = (case map_of
     [(200, ''OK''), (400, ''Bad Request''), (403, ''Forbidden''), (405, ''Method Not Allowed''),
      (408, ''Request Timeout''), (429, ''Too Many Requests''), (431, ''Request Header Fields Too Large''),
      (502, ''Bad Gateway''), (503, ''Service Unavailable''), (504, ''Gateway Timeout''),
      (505, ''HTTP Version Not Supported'')] status of Some t \<Rightarrow> t | None \<Rightarrow> '''')"

record httpConnectClientConn =
  hconn :: sconn
  reader :: "byte list option" \<comment> \<open>the bytes the buffered reader still holds\<close>
  hdestination :: string
  hreplied :: bool
  failureStatus :: int

text \<open>\<^verbatim>\<open>Read\<close> of a buffer of \<open>n\<close> bytes, when the socket delivers at most \<open>k\<close> bytes at once.\<close>

definition http_read :: "nat \<Rightarrow> nat \<Rightarrow> httpConnectClientConn \<Rightarrow> byte list \<times> httpConnectClientConn" where
  "http_read n k conn =
     (let from_socket = (\<lambda>conn. (take (min n k) (inp (hconn conn)),
            conn\<lparr>hconn := (hconn conn)\<lparr>inp := drop (min n k) (inp (hconn conn))\<rparr>\<rparr>))
      in case reader conn of
        Some buffered \<Rightarrow>
          if length buffered > 0 then (take n buffered, conn\<lparr>reader := Some (drop n buffered)\<rparr>)
          else from_socket (conn\<lparr>reader := None\<rparr>)
      | None \<Rightarrow> from_socket conn)"

section \<open>Replies\<close>

definition crlf :: string where "crlf = [CHR 0x0d, CHR 0x0a]"

definition http_response :: "int \<Rightarrow> string" where
  "http_response status =
     (if status = StatusOK then ''HTTP/1.1 200 Connection Established'' @ crlf @ crlf
      else ''HTTP/1.1 '' @ nat_string (nat status) @ '' '' @ status_text status @ crlf @ ''Connection: close'' @ crlf
        @ ''Content-Length: 0'' @ crlf
        @ (if status = StatusMethodNotAllowed then ''Allow: CONNECT'' @ crlf else '''') @ crlf)"

text \<open>
  The response goes out in one \<^verbatim>\<open>Write\<close> (\<^verbatim>\<open>strings.Reader\<close> has a \<^verbatim>\<open>WriteTo\<close>); a write that takes less
  than everything is an error.
\<close>

definition write_once :: "sconn \<Rightarrow> byte list \<Rightarrow> bool \<times> sconn" where
  "write_once c payload = (case accepts c of
       [] \<Rightarrow> (False, c)
     | a # as \<Rightarrow> (length payload \<le> a, c\<lparr>out := out c @ take a payload, accepts := as\<rparr>))"

definition writeHTTPConnectReply :: "bool \<times> bool \<Rightarrow> sconn \<Rightarrow> int \<Rightarrow> bool \<times> sconn" where
  "writeHTTPConnectReply dl c status =
     (if \<not> fst dl then (False, c)
      else let (ok, c) = write_once c (str_bytes (http_response status)) in (ok \<and> snd dl, c))"

definition replyConnected :: "bool \<times> bool \<Rightarrow> httpConnectClientConn \<Rightarrow> bool \<times> httpConnectClientConn" where
  "replyConnected dl conn =
     (if hreplied conn then (True, conn)
      else let conn = conn\<lparr>hreplied := True\<rparr>; (ok, c) = writeHTTPConnectReply dl (hconn conn) StatusOK
        in (ok, conn\<lparr>hconn := c\<rparr>))"

definition replyFailure :: "bool \<times> bool \<Rightarrow> httpConnectClientConn \<Rightarrow> httpConnectClientConn" where
  "replyFailure dl conn =
     (if hreplied conn then conn
      else let conn = conn\<lparr>hreplied := True\<rparr>;
          status = (if failureStatus conn = 0 then StatusBadGateway else failureStatus conn)
        in conn\<lparr>hconn := snd (writeHTTPConnectReply dl (hconn conn) status)\<rparr>)"

definition connectProxyHTTPReply :: "goerr \<Rightarrow> int" where
  "connectProxyHTTPReply err = (case connectProxyFinalStatusError err of
       Some statusErr \<Rightarrow>
         if statusCode statusErr \<in> {StatusForbidden, StatusTooManyRequests, StatusBadGateway,
              StatusServiceUnavailable, StatusGatewayTimeout}
         then statusCode statusErr else StatusBadGateway
     | None \<Rightarrow>
         if err_is err (ErrCtx DeadlineExceeded) \<or> isTimeout err then StatusGatewayTimeout
         else if err_is err ErrCircuitOpen \<or> err_is err ErrActiveHealthUnhealthy \<or> isDialBulkheadError err
         then StatusServiceUnavailable
         else StatusBadGateway)"

section \<open>Reading the headers\<close>

text \<open>\<^verbatim>\<open>ReadSlice\<close> up to a newline: the fragment, how the call ended, and what is left.\<close>

datatype slice_end = SliceLine | SliceFull | SliceErr

definition read_slice :: "byte list \<Rightarrow> byte list \<times> slice_end \<times> byte list" where
  "read_slice s =
     (let i = length (takeWhile (\<lambda>b. b \<noteq> 10) s)
      in if i < length s \<and> i < bufio_size then (take (i + 1) s, SliceLine, drop (i + 1) s)
         else if length s \<ge> bufio_size then (take bufio_size s, SliceFull, drop bufio_size s)
         else (s, SliceErr, []))"

text \<open>The headers, or the status and the error.\<close>

function header_loop :: "goerr \<Rightarrow> byte list \<Rightarrow> nat \<Rightarrow> byte list \<Rightarrow> ((int \<times> goerr) + byte list) \<times> byte list" where
  "header_loop fin header lineStart s =
     (let (fragment, stop, rest) = read_slice s
      in if length header + length fragment > httpConnectMaxHeaderBytes
         then (Inl (StatusRequestHeaderFieldsTooLarge, ErrText ''HTTP CONNECT headers exceed size limit''), rest)
         else let header = header @ fragment
           in case stop of
             SliceFull \<Rightarrow> header_loop fin header lineStart rest
           | SliceErr \<Rightarrow> (Inl (StatusBadRequest, ErrWrap ''read HTTP CONNECT headers'' fin), rest)
           | SliceLine \<Rightarrow>
               if \<not> has_suffix header [13, 10]
               then (Inl (StatusBadRequest, ErrText ''HTTP CONNECT requires CRLF line endings''), rest)
               else if length header - lineStart = 2 then (Inr header, rest)
               else header_loop fin header (length header) rest)"
  by pat_completeness auto
termination
  by (relation "measure (\<lambda>(fin, header, lineStart, s). length s)")
    (auto simp: read_slice_def bufio_size_def Let_def split: if_splits)

declare header_loop.simps [simp del]

definition readHTTPConnectHeader :: "goerr \<Rightarrow> byte list \<Rightarrow> ((int \<times> goerr) + byte list) \<times> byte list" where
  "readHTTPConnectHeader fin s = header_loop fin [] 0 s"

section \<open>Parsing the headers\<close>

text \<open>\<^verbatim>\<open>net.ParseIP\<close>, as the sixteen-byte form.\<close>

definition parse_ip :: "string \<Rightarrow> byte list option" where
  "parse_ip s = (case parse_addr s of
       Some (Addr4 b) \<Rightarrow> Some (replicate 10 0 @ [255, 255] @ b)
     | Some (Addr6 b z) \<Rightarrow> if z = '''' then Some b else None
     | _ \<Rightarrow> None)"

definition normalizeHTTPConnectAuthority :: "string \<Rightarrow> string option" where
  "normalizeHTTPConnectAuthority authority = (case split_host_port authority of
       None \<Rightarrow> None
     | Some (host, portText) \<Rightarrow>
         if host = '''' \<or> portText = '''' then None
         else if \<not> list_all is_digit portText then None
         else case atoi portText of
           None \<Rightarrow> None
         | Some port \<Rightarrow>
             if port < 1 \<or> port > 65535 then None
             else
               let bracket = has_prefix authority ''[''
               in case parse_ip host of
                 Some ip \<Rightarrow>
                   if (CHR '':'' \<in> set host) \<noteq> bracket then None
                   else Some (joinHostPort (to_lower (ip_string ip)) (nat_string (nat port)))
               | None \<Rightarrow>
                   if bracket \<or> \<not> validSOCKS5DomainName (str_bytes host) then None
                   else Some (joinHostPort (to_lower host) (nat_string (nat port))))"

text \<open>\<^verbatim>\<open>strings.Split(s, "\r\n")\<close>, \<^verbatim>\<open>strings.Cut(s, ":")\<close> and \<^verbatim>\<open>strings.Trim(s, " \t")\<close>.\<close>

fun split_crlf :: "string \<Rightarrow> string list" where
  "split_crlf [] = [[]]"
| "split_crlf [c] = [[c]]"
| "split_crlf (c # d # s) =
     (if c = CHR 0x0d \<and> d = CHR 0x0a then [] # split_crlf s
      else case split_crlf (d # s) of [] \<Rightarrow> [[c]] | p # ps \<Rightarrow> (c # p) # ps)"

definition cut_colon :: "string \<Rightarrow> (string \<times> string) option" where
  "cut_colon s =
     (let name = takeWhile (\<lambda>c. c \<noteq> CHR '':'') s
      in if length name < length s then Some (name, drop (length name + 1) s) else None)"

definition is_blank :: "char \<Rightarrow> bool" where
  "is_blank c \<longleftrightarrow> c = CHR '' '' \<or> c = CHR 0x09"

definition trim_blank :: "string \<Rightarrow> string" where
  "trim_blank s = rev (dropWhile is_blank (rev (dropWhile is_blank s)))"

text \<open>The loop over the header lines: the last \<^verbatim>\<open>Host\<close> value and how many there were.\<close>

fun fields_loop :: "(string \<Rightarrow> bool) \<Rightarrow> (string \<Rightarrow> bool) \<Rightarrow> string list \<Rightarrow> string \<Rightarrow> nat \<Rightarrow> (string \<times> nat) option" where
  "fields_loop vname vvalue [] host hostCount = Some (host, hostCount)"
| "fields_loop vname vvalue (line # lines) host hostCount = (case cut_colon line of
       None \<Rightarrow> None
     | Some (name, value) \<Rightarrow>
         if \<not> vname name \<or> \<not> vvalue value then None
         else
           let value = trim_blank value
           in if equal_fold name ''Host'' then fields_loop vname vvalue lines value (hostCount + 1)
              else if equal_fold name ''Transfer-Encoding'' \<or> equal_fold name ''Expect'' then None
              else if equal_fold name ''Content-Length'' \<and> value \<noteq> ''0'' then None
              else fields_loop vname vvalue lines host hostCount)"

definition badRequest :: "(int \<times> goerr) + string" where
  "badRequest = Inl (StatusBadRequest, ErrText ''malformed HTTP CONNECT request'')"

definition parseHTTPConnectHeader :: "(string \<Rightarrow> bool) \<Rightarrow> (string \<Rightarrow> bool) \<Rightarrow> byte list \<Rightarrow> (int \<times> goerr) + string" where
  "parseHTTPConnectHeader vname vvalue header =
     (if \<not> has_suffix header [13, 10, 13, 10] then badRequest
      else
        let lines = split_crlf (bytes_string (take (length header - 4) header));
            parts = split_on (CHR '' '') (hd lines)
        in if length parts \<noteq> 3 \<or> parts ! 0 = '''' \<or> parts ! 1 = '''' then badRequest
           else if parts ! 2 \<noteq> ''HTTP/1.1''
           then Inl (StatusHTTPVersionNotSupported, ErrText ''HTTP CONNECT requires HTTP/1.1'')
           else if length lines - 1 > httpConnectMaxHeaders
           then Inl (StatusRequestHeaderFieldsTooLarge, ErrText ''too many HTTP CONNECT headers'')
           else case fields_loop vname vvalue (tl lines) '''' 0 of
             None \<Rightarrow> badRequest
           | Some (host, hostCount) \<Rightarrow>
               if parts ! 0 \<noteq> ''CONNECT''
               then Inl (StatusMethodNotAllowed, ErrText ''HTTP proxy supports CONNECT only'')
               else case normalizeHTTPConnectAuthority (parts ! 1) of
                 None \<Rightarrow> badRequest
               | Some dest \<Rightarrow>
                   if hostCount \<noteq> 1 then badRequest
                   else case normalizeHTTPConnectAuthority host of
                     None \<Rightarrow> badRequest
                   | Some hostDestination \<Rightarrow>
                       if hostDestination \<noteq> dest then badRequest else Inr dest)"

definition prepareHTTPConnectClient ::
  "(string \<Rightarrow> bool) \<Rightarrow> (string \<Rightarrow> bool) \<Rightarrow> goerr \<Rightarrow> bool \<times> bool \<Rightarrow> bool \<times> bool \<Rightarrow> nat \<Rightarrow> sconn \<Rightarrow>
     (goerr + httpConnectClientConn) \<times> sconn" where
  "prepareHTTPConnectClient vname vvalue fin dl replyDl ahead c =
     (if \<not> fst dl then (Inl (ErrText ''set HTTP CONNECT handshake deadline''), c)
      else
        let (headerResult, rest) = readHTTPConnectHeader fin (inp c);
            c = c\<lparr>inp := drop ahead rest\<rparr>;
            parsed = (case headerResult of
              Inl e \<Rightarrow> Inl e
            | Inr header \<Rightarrow> parseHTTPConnectHeader vname vvalue header)
        in case parsed of
          Inl (status, err) \<Rightarrow>
            let status = (if isTimeout err then StatusRequestTimeout else status)
            in (Inl err, snd (writeHTTPConnectReply replyDl c status))
        | Inr dest \<Rightarrow>
            if \<not> snd dl then (Inl (ErrText ''clear HTTP CONNECT handshake deadline''), c)
            else (Inr \<lparr>hconn = c, reader = Some (take ahead rest), hdestination = dest,
                       hreplied = False, failureStatus = 0\<rparr>, c))"

section \<open>One interface for both front ends\<close>

datatype inbound_conn = HTTPClient httpConnectClientConn | SOCKS5Client socks5ClientConn | PlainConn sconn

definition markConnectClientConnected :: "bool \<times> bool \<Rightarrow> inbound_conn \<Rightarrow> bool \<times> inbound_conn" where
  "markConnectClientConnected dl conn = (case conn of
       HTTPClient client \<Rightarrow> let (ok, client) = replyConnected dl client in (ok, HTTPClient client)
     | SOCKS5Client client \<Rightarrow> let (ok, client) = markSOCKS5Connected client in (ok, SOCKS5Client client)
     | PlainConn c \<Rightarrow> (True, PlainConn c))"

definition failPendingConnectClient :: "bool \<times> bool \<Rightarrow> inbound_conn \<Rightarrow> inbound_conn" where
  "failPendingConnectClient dl conn = (case conn of
       HTTPClient client \<Rightarrow> HTTPClient (replyFailure dl client)
     | SOCKS5Client client \<Rightarrow> SOCKS5Client (failPendingSOCKS5 client)
     | PlainConn c \<Rightarrow> PlainConn c)"

definition setPendingConnectClientFailure :: "goerr \<Rightarrow> inbound_conn \<Rightarrow> inbound_conn" where
  "setPendingConnectClientFailure err conn = (case conn of
       HTTPClient client \<Rightarrow>
         HTTPClient (if \<not> hreplied client then client\<lparr>failureStatus := connectProxyHTTPReply err\<rparr> else client)
     | SOCKS5Client client \<Rightarrow> SOCKS5Client (setPendingSOCKS5Failure err client)
     | PlainConn c \<Rightarrow> PlainConn c)"

section \<open>The authority is canonical\<close>

lemma split_host_port_plain:
  assumes "set h \<inter> set '':[]'' = {}" "CHR '':'' \<notin> set p" "CHR ''['' \<notin> set p" "CHR '']'' \<notin> set p" 
  shows "split_host_port (h @ '':'' @ p) = Some (h, p)"
proof -
  have t: "takeWhile (\<lambda>c. c \<noteq> CHR '':'') (rev (h @ '':'' @ p)) = rev p"
    using assms(2) by (auto simp: takeWhile_append)
  have hd: "hd (h @ '':'' @ p) \<noteq> CHR ''[''" using assms(1) by (cases h) auto
  show ?thesis using assms hd unfolding split_host_port_def Let_def t by auto
qed

lemma split_host_port_bracket:
  assumes "set h \<inter> set ''[]'' = {}" "CHR '':'' \<notin> set p" "CHR ''['' \<notin> set p" "CHR '']'' \<notin> set p"
  shows "split_host_port (''['' @ h @ '']:'' @ p) = Some (h, p)"
proof -
  have t: "takeWhile (\<lambda>c. c \<noteq> CHR '':'') (rev (''['' @ h @ '']:'' @ p)) = rev p"
    using assms(2) by (auto simp: takeWhile_append)
  have b: "takeWhile (\<lambda>c. c \<noteq> CHR '']'') (''['' @ h @ '']:'' @ p) = ''['' @ h"
    using assms(1) by (auto simp: takeWhile_append)
  show ?thesis using assms unfolding split_host_port_def Let_def t b by auto
qed

lemma atoi_nat_string: "n \<le> 65535 \<Longrightarrow> atoi (nat_string n) = Some (int n)"
proof -
  assume n: "n \<le> 65535"
  note s = nat_string_ok[of n]
  have "hd (nat_string n) \<noteq> CHR ''-'' \<and> hd (nat_string n) \<noteq> CHR ''+''"
    using s by (auto simp: list_all_iff is_digit_def dest!: hd_in_set)
  then show ?thesis using s n by (simp add: atoi_def Let_def)
qed

lemma lower_fixed: "(\<And>c. c \<in> set s \<Longrightarrow> lower_char c = c) \<Longrightarrow> to_lower s = s"
  by (simp add: to_lower_def map_idI)

lemma is_digit_lower: "is_digit c \<Longrightarrow> lower_char c = c"
  by (auto simp: is_digit_def lower_char_def)

lemma hex_digit_lower: "d < 16 \<Longrightarrow> lower_char (hex_digit d) = hex_digit d"
  by (auto simp: hex_digit_def lower_char_def)

lemma hex_string_lower: "c \<in> set (hex_string n) \<Longrightarrow> lower_char c = c"
proof (induction n rule: hex_string.induct)
  case (1 n)
  then show ?case by (subst (asm) (2) hex_string.simps) (auto simp: hex_digit_lower split: if_splits)
qed

lemma ipv6_string_lower: "to_lower (ipv6_string b) = ipv6_string b"
proof (rule lower_fixed)
  fix c assume c: "c \<in> set (ipv6_string b)"
  obtain s e where "zero_run (groups16 b) = (s, e)" by (cases "zero_run (groups16 b)")
  then obtain xs where "set xs \<subseteq> hex_string ` UNIV" "c \<in> set (join_with '':'' xs) \<or> c = CHR '':''"
    using c unfolding ipv6_string_def Let_def
    by (auto split: if_splits) (metis image_subsetI rangeI set_map set_take_subset set_drop_subset subset_trans)+
  moreover have "lower_char CHR '':'' = CHR '':''" by (simp add: lower_char_def)
  ultimately show "lower_char c = c" using set_join_with[of "'':''" xs] by (fastforce dest: hex_string_lower)
qed

lemma ipv4_string_lower: "to_lower (ipv4_string b) = ipv4_string b"
  by (rule lower_fixed) (auto dest!: ipv4_string_chars simp: is_digit_lower, simp add: lower_char_def)

text \<open>The printed form of a parsed address parses to the address again.\<close>

lemma parse_ip_length: "parse_ip s = Some b \<Longrightarrow> length b = 16"
  using parse_addr_ok[of s] by (auto simp: parse_ip_def split: option.splits addr.splits if_splits)

lemma ip_string_cases:
  assumes "length b = 16"
  obtains "mapped4 b" "ip_string b = ipv4_string (drop 12 b)" "b = replicate 10 0 @ [255, 255] @ drop 12 b"
  | "\<not> mapped4 b" "ip_string b = ipv6_string b"
proof (cases "mapped4 b")
  case True
  then have "b = (replicate 10 0 @ [255, 255]) @ drop 12 b" unfolding mapped4_def by (metis append_take_drop_id)
  then show ?thesis using True assms that(1) by (simp add: ip_string_def mapped4_def)
qed (use assms that(2) in \<open>simp add: ip_string_def mapped4_def\<close>)

lemma parse_ip_string:
  assumes "length b = 16"
  shows "parse_ip (ip_string b) = Some b" "to_lower (ip_string b) = ip_string b"
    "CHR '':'' \<in> set (ip_string b) \<longleftrightarrow> \<not> mapped4 b" "set (ip_string b) \<inter> set ''[]'' = {}" "ip_string b \<noteq> []"
proof -
  have l: "length (drop 12 b) = 4" using assms by simp
  note p4 = parse_addr4_string[OF l] and p6 = parse_addr6_string[OF assms]
  show "parse_ip (ip_string b) = Some b" using assms
    by (cases rule: ip_string_cases) (auto simp: parse_ip_def p4 p6)
  then show "ip_string b \<noteq> []" by (auto simp: parse_ip_def parse_addr_def)
  show "to_lower (ip_string b) = ip_string b" using assms
    by (cases rule: ip_string_cases) (simp_all add: ipv4_string_lower ipv6_string_lower)
  show "CHR '':'' \<in> set (ip_string b) \<longleftrightarrow> \<not> mapped4 b" using assms
    by (cases rule: ip_string_cases) (auto simp: ipv6_string_colon[OF assms] is_digit_def dest!: ipv4_string_chars)
  show "set (ip_string b) \<inter> set ''[]'' = {}" using assms
    by (cases rule: ip_string_cases) (auto simp: is_digit_def is_hex_def hex_value_def dest!: ipv4_string_chars ipv6_string_chars)
qed

text \<open>Domain names: characters, and stability under lower-casing.\<close>

definition lower_byte :: "byte \<Rightarrow> byte" where
  "lower_byte b = (if 65 \<le> b \<and> b \<le> 90 then b + 32 else b)"

lemma str_bytes_lower: "str_bytes (to_lower s) = map lower_byte (str_bytes s)"
proof -
  have "of_char (lower_char c) = lower_byte (of_char c)" for c
  proof -
    have n: "unat (of_char c :: byte) = (of_char c :: nat)" by (rule unat_of_char)
    have r: "(65 \<le> (of_char c :: byte) \<and> (of_char c :: byte) \<le> 90) \<longleftrightarrow> 65 \<le> (of_char c :: nat) \<and> (of_char c :: nat) \<le> 90"
      by (simp add: word_le_nat_alt n)
    show ?thesis
    proof (cases "65 \<le> (of_char c :: nat) \<and> (of_char c :: nat) \<le> 90")
      case True
      then have l: "(of_char (lower_char c) :: nat) = of_char c + 32" by (simp add: lower_char_def of_char_of)
      have "unat ((of_char c :: byte) + 32) = of_char c + 32"
        using True by (simp add: unat_word_ariths n)
      then have "unat (of_char (lower_char c) :: byte) = unat ((of_char c :: byte) + 32)"
        unfolding unat_of_char l by simp
      then show ?thesis using True r by (simp add: lower_byte_def word_unat_eq_iff)
    qed (use r in \<open>auto simp: lower_byte_def lower_char_def\<close>)
  qed
  then show ?thesis by (simp add: str_bytes_def to_lower_def)
qed

lemma lower_byte_facts:
  "lower_byte b = 46 \<longleftrightarrow> b = 46" "lower_byte b = 45 \<longleftrightarrow> b = 45" "socks5_char b \<Longrightarrow> socks5_char (lower_byte b)"
proof -
  have u: "unat (b + 32) = unat b + 32" if "b \<le> 90" for b :: byte
    using that by (simp add: word_le_nat_alt unat_word_ariths)
  show "lower_byte b = 46 \<longleftrightarrow> b = 46" "lower_byte b = 45 \<longleftrightarrow> b = 45"
    by (auto simp: lower_byte_def word_unat_eq_iff word_le_nat_alt u[unfolded word_le_nat_alt])
  show "socks5_char b \<Longrightarrow> socks5_char (lower_byte b)"
    by (auto simp: socks5_char_def lower_byte_def word_less_nat_alt word_le_nat_alt word_unat_eq_iff u[unfolded word_le_nat_alt])
qed

lemma split_on_map:
  assumes "\<And>x. f x = s \<longleftrightarrow> x = s"
  shows "split_on s (map f xs) = map (map f) (split_on s xs)"
  using assms by (induction xs) (auto split: list.splits)

lemma host_name_lower: "host_name d \<Longrightarrow> host_name (map lower_byte d)"
proof -
  assume h: "host_name d"
  have "without_dot (map lower_byte d) = map lower_byte (without_dot d)"
    by (cases "d = []") (auto simp: without_dot_def last_map lower_byte_facts map_butlast)
  moreover have "socks_label l \<Longrightarrow> socks_label (map lower_byte l)" for l
    by (auto simp: socks_label_def lower_byte_facts hd_map last_map)
  ultimately show ?thesis using h
    by (auto simp: host_name_def split_on_map lower_byte_facts(1))
qed

lemma host_name_chars: "host_name (str_bytes h) \<Longrightarrow> c \<in> set h \<Longrightarrow> socks5_char (of_char c) \<or> c = CHR ''.''"
proof -
  assume h: "host_name (str_bytes h)" and c: "c \<in> set h"
  have inj: "c = CHR ''.''" if "(of_char c :: byte) = 46" for c
  proof -
    have "(of_char c :: nat) = of_char (CHR ''.'')" using unat_of_char[of c] that by simp
    then show ?thesis by (simp only: of_char_eq_iff)
  qed
  have all: "\<forall>b\<in>set d. socks5_char b \<or> b = 46" if "\<forall>l\<in>set (split_on 46 d). \<forall>b\<in>set l. socks5_char b" for d
    using that
  proof (induction d)
    case (Cons b d)
    then show ?case by (cases "split_on 46 d") (auto split: if_splits)
  qed simp
  have "\<forall>b\<in>set (without_dot (str_bytes h)). socks5_char b \<or> b = 46" using h unfolding host_name_def socks_label_def by (intro all) blast
  moreover have "set (str_bytes h) \<subseteq> insert 46 (set (without_dot (str_bytes h)))"
    by (cases "str_bytes h" rule: rev_cases) (auto simp: without_dot_def)
  ultimately have "socks5_char (of_char c) \<or> (of_char c :: byte) = 46" using c by (fastforce simp: str_bytes_def)
  then show ?thesis using inj by blast
qed

lemma parse_ip_lower:
  assumes "host_name (str_bytes h)" "parse_ip h = None"
  shows "parse_ip (to_lower h) = None"
proof (rule ccontr)
  assume "parse_ip (to_lower h) \<noteq> None"
  then obtain a where a: "parse_addr (to_lower h) = Some a" by (auto simp: parse_ip_def split: option.splits)
  have hn: "host_name (str_bytes (to_lower h))" using host_name_lower[OF assms(1)] by (simp add: str_bytes_lower)
  have c: "c \<noteq> CHR '':'' \<and> c \<noteq> CHR ''%''" if "c \<in> set (to_lower h)" for c
    using host_name_chars[OF hn that] by (auto simp: socks5_char_def)
  obtain b where b: "parse_ipv4 (to_lower h) = Some b"
    using a c by (fastforce simp: parse_addr_def find_Some_iff split: option.splits if_splits)
  have dig: "is_digit c \<or> c = CHR ''.''" if "c \<in> set s" "parse_ipv4 s = Some b" for c s b
  proof -
    have "list_all is_digit p" if "p \<in> set (split_on CHR ''.'' s)" for p
    proof -
      have "None \<notin> set (map parse_octet (split_on CHR ''.'' s))"
      proof
        assume n: "None \<in> set (map parse_octet (split_on CHR ''.'' s))"
        have "None \<in> set xs \<Longrightarrow> all_some xs = None" for xs :: "byte option list"
          by (induction xs rule: all_some.induct) auto
        then show False using n \<open>parse_ipv4 s = Some b\<close> by (simp add: parse_ipv4_def Let_def split: if_splits)
      qed
      then show ?thesis using that by (force simp: parse_octet_def split: if_splits)
    qed
    moreover have "\<forall>c\<in>set s. P c \<or> c = CHR ''.''" if "\<forall>p\<in>set (split_on CHR ''.'' s). list_all P p" for P s
      using that
    proof (induction s)
      case (Cons x s)
      then show ?case by (cases "split_on CHR ''.'' s") (auto split: if_splits)
    qed simp
    ultimately show ?thesis using \<open>c \<in> set s\<close> by blast
  qed
  have "to_lower h = h"
  proof (rule lower_fixed)
    fix c assume "c \<in> set h"
    then have "lower_char c \<in> set (to_lower h)" by (simp add: to_lower_def)
    then have "is_digit (lower_char c) \<or> lower_char c = CHR ''.''" using dig b by blast
    then have "(of_char (lower_char c) :: nat) \<le> 57" by (auto simp: is_digit_def)
    then show "lower_char c = c" by (auto simp: lower_char_def of_char_of split: if_splits)
  qed
  then show False using \<open>parse_ip (to_lower h) \<noteq> None\<close> assms(2) by simp
qed

lemma normalize_joined:
  assumes "1 \<le> p" "p \<le> 65535" "h \<noteq> []" "set h \<inter> set ''[]'' = {}"
  shows "normalizeHTTPConnectAuthority (joinHostPort h (nat_string p)) = (case parse_ip h of
       Some ip \<Rightarrow> Some (joinHostPort (to_lower (ip_string ip)) (nat_string p))
     | None \<Rightarrow> if CHR '':'' \<in> set h \<or> \<not> validSOCKS5DomainName (str_bytes h) then None
         else Some (joinHostPort (to_lower h) (nat_string p)))"
proof -
  have d: "CHR '':'' \<notin> set (nat_string p)" "CHR ''['' \<notin> set (nat_string p)" "CHR '']'' \<notin> set (nat_string p)"
    by (auto dest!: nat_string_chars simp: is_digit_def)
  have s: "split_host_port (joinHostPort h (nat_string p)) = Some (h, nat_string p)"
    using split_host_port_plain[of h "nat_string p"] split_host_port_bracket[of h "nat_string p"] assms(4) d
    by (auto simp: joinHostPort_def)
  have b: "has_prefix (joinHostPort h (nat_string p)) ''['' \<longleftrightarrow> CHR '':'' \<in> set h"
    using assms(3,4) by (cases h) (auto simp: joinHostPort_def has_prefix_def)
  note n = nat_string_ok[of p]
  show ?thesis unfolding normalizeHTTPConnectAuthority_def s b Let_def
    using n assms(1-3) by (simp add: atoi_nat_string b split: option.splits)
qed

text \<open>A normalised authority is its own normal form.\<close>

lemma normalize_idem:
  assumes "normalizeHTTPConnectAuthority a = Some d"
  shows "normalizeHTTPConnectAuthority d = Some d"
proof -
  obtain host pt where s: "split_host_port a = Some (host, pt)"
    using assms by (cases "split_host_port a") (auto simp: normalizeHTTPConnectAuthority_def)
  then obtain port where t: "atoi pt = Some port"
    using assms by (cases "atoi pt") (auto simp: normalizeHTTPConnectAuthority_def split: if_splits)
  note r = assms[unfolded normalizeHTTPConnectAuthority_def s Let_def option.case prod.case t]
  have p: "1 \<le> port" "port \<le> 65535" and ne: "host \<noteq> []" using r by (auto split: if_splits)
  have d: "(\<exists>ip. parse_ip host = Some ip \<and> d = joinHostPort (to_lower (ip_string ip)) (nat_string (nat port)))
      \<or> (parse_ip host = None \<and> validSOCKS5DomainName (str_bytes host) \<and> d = joinHostPort (to_lower host) (nat_string (nat port)))"
    using r by (cases "parse_ip host") (auto split: if_splits)
  have np: "1 \<le> nat port" "nat port \<le> 65535" using p by auto
  from d show ?thesis
  proof
    assume "\<exists>ip. parse_ip host = Some ip \<and> d = joinHostPort (to_lower (ip_string ip)) (nat_string (nat port))"
    then obtain ip where ip: "parse_ip host = Some ip" "d = joinHostPort (to_lower (ip_string ip)) (nat_string (nat port))" by blast
    note f = parse_ip_string[OF parse_ip_length[OF ip(1)]]
    show ?thesis using normalize_joined[OF np f(5,4)] f(1,2) ip(2) by simp
  next
    assume h: "parse_ip host = None \<and> validSOCKS5DomainName (str_bytes host) \<and> d = joinHostPort (to_lower host) (nat_string (nat port))"
    then have hn: "host_name (str_bytes host)" by (simp add: valid_iff_host_name)
    have hl: "host_name (str_bytes (to_lower host))" using host_name_lower[OF hn] by (simp add: str_bytes_lower)
    have c: "set (to_lower host) \<inter> set '':[]'' = {}"
      by (auto dest!: host_name_chars[OF hl] simp: socks5_char_def)
    have "normalizeHTTPConnectAuthority d = Some (joinHostPort (to_lower (to_lower host)) (nat_string (nat port)))"
      using normalize_joined[OF np, of "to_lower host"] c ne h hl parse_ip_lower[OF hn]
      by (auto simp: valid_iff_host_name to_lower_def)
    then show ?thesis using h by simp
  qed
qed

section \<open>The header reader takes the header and nothing else\<close>

lemma read_slice_split: "read_slice s = (frag, stop, rest) \<Longrightarrow> frag @ rest = s"
  by (auto simp: read_slice_def Let_def split: if_splits)

lemma header_loop_sound:
  "header_loop fin h ls s = (Inr header, rest) \<Longrightarrow>
     header @ rest = h @ s \<and> length header \<le> httpConnectMaxHeaderBytes \<and> has_suffix header [13, 10]"
proof (induction fin h ls s rule: header_loop.induct)
  case (1 fin h ls s)
  obtain frag stop r where rs: "read_slice s = (frag, stop, r)" by (cases "read_slice s")
  have s: "frag @ r = s" by (rule read_slice_split[OF rs])
  note res = 1(3)[unfolded header_loop.simps[of fin h ls s] rs Let_def prod.case]
  have n: "\<not> length h + length frag > httpConnectMaxHeaderBytes" using res by (auto split: if_splits)
  show ?case
  proof (cases stop)
    case SliceFull
    then have "header_loop fin (h @ frag) ls r = (Inr header, rest)" using res n by simp
    from 1(2)[OF rs[symmetric] refl refl n refl SliceFull this] show ?thesis by (simp add: s)
  next
    case SliceLine
    show ?thesis
    proof (cases "has_suffix (h @ frag) [13, 10] \<and> length (h @ frag) - ls = 2")
      case True
      then show ?thesis using res n SliceLine s by auto
    next
      case False
      then have suf: "\<not> \<not> has_suffix (h @ frag) [13, 10]" and len: "length (h @ frag) - ls \<noteq> 2"
        and rec: "header_loop fin (h @ frag) (length (h @ frag)) r = (Inr header, rest)"
        using res n SliceLine by (auto split: if_splits)
      from 1(1)[OF rs[symmetric] refl refl n refl SliceLine suf len rec] show ?thesis by (simp add: s)
    qed
  qed (use res n in auto)
qed

lemma takeWhile_line: "10 \<notin> set t \<Longrightarrow> takeWhile (\<lambda>b. b \<noteq> (10::byte)) (t @ 10 # rest) = t"
  by (induction t) auto

text \<open>A line of any length, however many buffers it takes, is appended whole.\<close>

lemma header_loop_line:
  assumes "10 \<notin> set t" "length h + length t < httpConnectMaxHeaderBytes"
  shows "header_loop fin h ls (t @ 10 # rest) =
    (if \<not> has_suffix (h @ t @ [10]) [13, 10]
     then (Inl (StatusBadRequest, ErrText ''HTTP CONNECT requires CRLF line endings''), rest)
     else if length (h @ t @ [10]) - ls = 2 then (Inr (h @ t @ [10]), rest)
     else header_loop fin (h @ t @ [10]) (length (h @ t @ [10])) rest)"
  using assms
proof (induction t arbitrary: h rule: length_induct)
  case (1 t)
  let ?s = "t @ 10 # rest"
  have tw: "takeWhile (\<lambda>b. b \<noteq> 10) ?s = t" by (rule takeWhile_line[OF "1.prems"(1)])
  show ?case
  proof (cases "length t < bufio_size")
    case True
    then have "read_slice ?s = (t @ [10], SliceLine, rest)"
      unfolding read_slice_def tw Let_def by simp
    then show ?thesis using "1.prems"(2) by (subst header_loop.simps) (simp add: Let_def)
  next
    case False
    let ?a = "take bufio_size t" and ?b = "drop bufio_size t"
    have rs: "read_slice ?s = (?a, SliceFull, ?b @ 10 # rest)"
      using False unfolding read_slice_def tw Let_def by simp
    have sm: "length (h @ ?a) + length ?b < httpConnectMaxHeaderBytes" "length ?b < length t" "10 \<notin> set ?b"
      using "1.prems" False by (auto simp: bufio_size_def dest: in_set_dropD)
    have e: "(h @ ?a) @ ?b @ [10] = h @ t @ [10]" by simp
    have "header_loop fin h ls ?s = header_loop fin (h @ ?a) ls (?b @ 10 # rest)"
      using "1.prems"(2) by (subst header_loop.simps) (auto simp: rs Let_def)
    then show ?thesis
      using "1.IH"[rule_format, OF sm(2,3,1)] unfolding e by simp
  qed
qed

definition wire_lines :: "byte list list \<Rightarrow> byte list" where
  "wire_lines ls = concat (map (\<lambda>l. l @ [13, 10]) ls)"

lemma wire_lines_simps [simp]: "wire_lines [] = []" "wire_lines (l # ls) = l @ 13 # 10 # wire_lines ls"
  by (simp_all add: wire_lines_def)

lemma header_loop_lines:
  assumes "\<forall>l\<in>set ls. l \<noteq> [] \<and> 10 \<notin> set l" "length h + length (wire_lines ls) + 2 \<le> httpConnectMaxHeaderBytes"
  shows "header_loop fin h (length h) (wire_lines ls @ 13 # 10 # rest) = (Inr (h @ wire_lines ls @ [13, 10]), rest)"
  using assms
proof (induction ls arbitrary: h)
  case Nil
  then show ?case using header_loop_line[of "[13]" h fin "length h" rest] by (simp add: has_suffix_def)
next
  case (Cons l ls)
  have suf: "has_suffix ((h @ l) @ [13, 10]) [13, 10]" by (auto simp: has_suffix_iff)
  have "header_loop fin h (length h) ((l @ [13]) @ 10 # wire_lines ls @ 13 # 10 # rest) =
      header_loop fin (h @ l @ [13, 10]) (length (h @ l @ [13, 10])) (wire_lines ls @ 13 # 10 # rest)"
    using header_loop_line[of "l @ [13]" h fin "length h" "wire_lines ls @ 13 # 10 # rest"] Cons.prems suf by simp
  then show ?case using Cons.IH[of "h @ l @ [13, 10]"] Cons.prems by simp
qed

section \<open>Parsing inverts a well-formed request\<close>

lemma split_crlf_nonempty [simp]: "split_crlf s \<noteq> []"
  by (induction s rule: split_crlf.induct) (auto split: list.splits)

lemma split_crlf_line: "CHR 0x0d \<notin> set l \<Longrightarrow> split_crlf l = [l]"
  by (induction l rule: split_crlf.induct) auto

lemma split_crlf_append: "CHR 0x0d \<notin> set l \<Longrightarrow> split_crlf (l @ crlf @ s) = l # split_crlf s"
proof (induction l rule: split_crlf.induct)
  case (2 c)
  then show ?case by (simp add: crlf_def)
qed (auto simp: crlf_def)

lemma split_crlf_join:
  "ls \<noteq> [] \<Longrightarrow> (\<forall>l\<in>set ls. CHR 0x0d \<notin> set l) \<Longrightarrow> split_crlf (join_with crlf ls) = ls"
  by (induction crlf ls rule: join_with.induct) (auto simp: split_crlf_line split_crlf_append)

lemma wire_lines_join:
  "ls \<noteq> [] \<Longrightarrow> wire_lines (map str_bytes ls) = str_bytes (join_with crlf ls) @ [13, 10]"
  by (induction crlf ls rule: join_with.induct) (auto simp: crlf_def str_bytes_def)

text \<open>Header lines that say nothing about the destination and that the proxy tolerates.\<close>

definition harmless :: "(string \<Rightarrow> bool) \<Rightarrow> (string \<Rightarrow> bool) \<Rightarrow> string \<Rightarrow> bool" where
  "harmless vname vvalue line = (case cut_colon line of
       None \<Rightarrow> False
     | Some (name, value) \<Rightarrow> vname name \<and> vvalue value \<and> \<not> equal_fold name ''Host'' \<and> \<not> equal_fold name ''Transfer-Encoding''
         \<and> \<not> equal_fold name ''Expect'' \<and> (equal_fold name ''Content-Length'' \<longrightarrow> trim_blank value = ''0''))"

lemma fields_loop_harmless:
  "\<forall>l\<in>set ls. harmless vname vvalue l \<Longrightarrow> fields_loop vname vvalue (ls @ ls2) host n = fields_loop vname vvalue ls2 host n"
  by (induction ls) (auto simp: harmless_def Let_def split: option.splits prod.splits)

lemma fields_loop_host:
  assumes "\<forall>l\<in>set before. harmless vname vvalue l" "\<forall>l\<in>set after. harmless vname vvalue l"
    "vname ''Host''" "vvalue ('' '' @ host)"
  shows "fields_loop vname vvalue (before @ (''Host: '' @ host) # after) '''' 0 = Some (trim_blank host, 1)"
proof -
  have c: "cut_colon (''Host: '' @ host) = Some (''Host'', '' '' @ host)" by (simp add: cut_colon_def)
  have f: "equal_fold ''Host'' ''Host''" by (simp add: equal_fold_def)
  have t: "trim_blank ('' '' @ host) = trim_blank host" by (simp add: trim_blank_def is_blank_def)
  have a: "fields_loop vname vvalue after (trim_blank host) (Suc 0) = Some (trim_blank host, 1)"
    using fields_loop_harmless[OF assms(2), of "[]"] by simp
  show ?thesis
    unfolding fields_loop_harmless[OF assms(1)] fields_loop.simps c option.case prod.case t Let_def
    using assms(3,4) a f by simp
qed

definition request_lines :: "string \<Rightarrow> string list \<Rightarrow> string \<Rightarrow> string list \<Rightarrow> string list" where
  "request_lines authority before host after =
     (''CONNECT '' @ authority @ '' HTTP/1.1'') # before @ (''Host: '' @ host) # after"

definition request_header :: "string list \<Rightarrow> byte list" where
  "request_header lines = wire_lines (map str_bytes lines) @ [13, 10]"

lemma parse_request:
  assumes ok: "\<forall>l\<in>set before. harmless vname vvalue l" "\<forall>l\<in>set after. harmless vname vvalue l"
    "vname ''Host''" "vvalue ('' '' @ host)"
    and plain: "\<forall>l\<in>set (request_lines authority before host after). CHR 0x0d \<notin> set l"
    and blank: "CHR '' '' \<notin> set authority" "trim_blank host = host"
    and n: "length before + length after < httpConnectMaxHeaders"
    and norm: "normalizeHTTPConnectAuthority authority = Some d" "normalizeHTTPConnectAuthority host = Some d"
  shows "parseHTTPConnectHeader vname vvalue (request_header (request_lines authority before host after)) = Inr d"
proof -
  let ?ls = "request_lines authority before host after"
  have ne: "?ls \<noteq> []" by (simp add: request_lines_def)
  have h: "request_header ?ls = str_bytes (join_with crlf ?ls) @ [13, 10, 13, 10]"
    by (simp add: request_header_def wire_lines_join[OF ne])
  have sp: "split_crlf (bytes_string (take (length (request_header ?ls) - 4) (request_header ?ls))) = ?ls"
    unfolding h using split_crlf_join[OF ne plain] by simp
  have "authority \<noteq> []" using norm(1) by (auto simp: normalizeHTTPConnectAuthority_def split_host_port_def)
  have parts: "split_on (CHR '' '') (hd ?ls) = [''CONNECT'', authority, ''HTTP/1.1'']"
  proof -
    have "hd ?ls = ''CONNECT'' @ CHR '' '' # authority @ CHR '' '' # ''HTTP/1.1''" by (simp add: request_lines_def)
    moreover have "split_on (CHR '' '') (authority @ CHR '' '' # ''HTTP/1.1'') = [authority, ''HTTP/1.1'']"
      using blank(1) by (subst split_on_append_sep) auto
    ultimately show ?thesis by (simp del: append_Cons add: split_on_append_sep) 
  qed
  have tl: "tl ?ls = before @ (''Host: '' @ host) # after" "length ?ls - 1 = length before + length after + 1"
    by (simp_all add: request_lines_def)
  have suf: "has_suffix (request_header ?ls) [13, 10, 13, 10]" unfolding h by (auto simp: has_suffix_iff)
  show ?thesis
    unfolding parseHTTPConnectHeader_def Let_def sp parts tl fields_loop_host[OF ok]
    using suf n norm blank \<open>authority \<noteq> []\<close> by simp
qed

section \<open>The handshake\<close>

text \<open>The bytes a client connection still delivers: the read-ahead, then the socket.\<close>

definition unread :: "httpConnectClientConn \<Rightarrow> byte list" where
  "unread conn = (case reader conn of Some b \<Rightarrow> b | None \<Rightarrow> []) @ inp (hconn conn)"

lemma http_read_transparent:
  "http_read n k conn = (bs, conn') \<Longrightarrow> bs @ unread conn' = unread conn"
  by (auto simp: http_read_def unread_def Let_def split: option.splits if_splits)

fun http_reads :: "(nat \<times> nat) list \<Rightarrow> httpConnectClientConn \<Rightarrow> byte list \<times> httpConnectClientConn" where
  "http_reads [] conn = ([], conn)"
| "http_reads ((n, k) # reqs) conn =
     (let (bs, conn) = http_read n k conn; (bs', conn) = http_reads reqs conn in (bs @ bs', conn))"

lemma http_reads_transparent: "http_reads reqs conn = (bs, conn') \<Longrightarrow> bs @ unread conn' = unread conn"
  by (induction reqs conn arbitrary: bs conn' rule: http_reads.induct)
    (fastforce simp: Let_def split: prod.splits dest: http_read_transparent)+

lemma parse_Inr:
  assumes "parseHTTPConnectHeader vname vvalue header = Inr d"
  shows "has_suffix header [13, 10, 13, 10]" "normalizeHTTPConnectAuthority d = Some d"
proof -
  show "has_suffix header [13, 10, 13, 10]"
    using assms by (auto simp: parseHTTPConnectHeader_def badRequest_def split: if_splits)
  obtain a where "normalizeHTTPConnectAuthority a = Some d"
    using assms unfolding parseHTTPConnectHeader_def Let_def badRequest_def
    by (auto split: if_splits option.splits prod.splits)
  then show "normalizeHTTPConnectAuthority d = Some d" by (rule normalize_idem)
qed

lemma prepare_request:
  assumes "\<forall>l\<in>set before. harmless vname vvalue l" "\<forall>l\<in>set after. harmless vname vvalue l"
    "vname ''Host''" "vvalue ('' '' @ host)"
    and "\<forall>l\<in>set (request_lines authority before host after). CHR 0x0d \<notin> set l \<and> CHR 0x0a \<notin> set l"
    and "CHR '' '' \<notin> set authority" "trim_blank host = host"
    and "length before + length after < httpConnectMaxHeaders"
    and "length (request_header (request_lines authority before host after)) \<le> httpConnectMaxHeaderBytes"
    and "normalizeHTTPConnectAuthority authority = Some d" "normalizeHTTPConnectAuthority host = Some d"
    and "inp c = request_header (request_lines authority before host after) @ payload"
  shows "prepareHTTPConnectClient vname vvalue fin (True, True) replyDl ahead c =
     (Inr \<lparr>hconn = c\<lparr>inp := drop ahead payload\<rparr>, reader = Some (take ahead payload), hdestination = d,
        hreplied = False, failureStatus = 0\<rparr>, c\<lparr>inp := drop ahead payload\<rparr>)"
proof -
  let ?ls = "request_lines authority before host after"
  have lf: "(10::byte) \<notin> set (str_bytes l)" if "CHR 0x0a \<notin> set l" for l
  proof
    assume "(10::byte) \<in> set (str_bytes l)"
    then obtain x where x: "x \<in> set l" "(of_char x :: byte) = 10" by (auto simp: str_bytes_def)
    then have "(of_char x :: nat) = of_char (CHR 0x0a)" using unat_of_char[of x] by simp
    then show False using x that by (simp only: of_char_eq_iff)
  qed
  have lines: "\<forall>l\<in>set (map str_bytes ?ls). l \<noteq> [] \<and> 10 \<notin> set l"
  proof -
    have "l \<noteq> []" if "l \<in> set ?ls" for l
      using that assms(1,2) by (auto simp: request_lines_def harmless_def cut_colon_def)
    then show ?thesis using assms(5) lf by (auto simp: str_bytes_def)
  qed
  have rd: "readHTTPConnectHeader fin (inp c) = (Inr (request_header ?ls), payload)"
    using header_loop_lines[OF lines, of "[]" fin payload] assms(9,12)
    by (simp add: readHTTPConnectHeader_def request_header_def)
  have ps: "parseHTTPConnectHeader vname vvalue (request_header ?ls) = Inr d"
    by (rule parse_request[OF assms(1-4)]) (use assms in auto)
  show ?thesis
    unfolding prepareHTTPConnectClient_def rd by (simp add: Let_def ps)
qed

text \<open>C38: an HTTP CONNECT client is accepted only for a canonical destination, and not one byte of
  its tunnel is lost. Whatever the client sends, however many bytes the buffered reader took ahead
  and whatever read sizes the relay uses: after a successful handshake nothing has been written to
  the client, the destination is its own normal form (lower-case host or canonical IP literal, port
  1 to 65535), the header taken from the stream has at most 32 KiB and ends with an empty line, and
  what the relay reads, followed by what is still unread, is exactly the input behind the header.\<close>

theorem http_connect_accepts:
  assumes "prepareHTTPConnectClient vname vvalue fin dl replyDl ahead c = (Inr client, c')"
    "http_reads reqs client = (relayed, client')"
  shows "\<exists>header. inp c = header @ relayed @ unread client'
     \<and> length header \<le> httpConnectMaxHeaderBytes \<and> has_suffix header [13, 10, 13, 10]
     \<and> normalizeHTTPConnectAuthority (hdestination client) = Some (hdestination client)
     \<and> out (hconn client) = out c \<and> \<not> hreplied client"
proof -
  obtain hr rest where rd: "readHTTPConnectHeader fin (inp c) = (hr, rest)" by (cases "readHTTPConnectHeader fin (inp c)")
  note p = assms(1)[unfolded prepareHTTPConnectClient_def rd Let_def prod.case]
  obtain header d where hr: "hr = Inr header" and d: "parseHTTPConnectHeader vname vvalue header = Inr d"
    using p by (cases hr; cases "parseHTTPConnectHeader vname vvalue (projr hr)") (auto split: if_splits)
  have cl: "client = \<lparr>hconn = c\<lparr>inp := drop ahead rest\<rparr>, reader = Some (take ahead rest), hdestination = d,
      hreplied = False, failureStatus = 0\<rparr>"
    using p by (auto simp: hr d split: if_splits)
  have "header @ rest = inp c" "length header \<le> httpConnectMaxHeaderBytes"
    using header_loop_sound[of fin "[]" 0 "inp c" header rest] rd hr by (auto simp: readHTTPConnectHeader_def)
  moreover have "unread client = rest" by (simp add: cl unread_def)
  ultimately show ?thesis
    using http_reads_transparent[OF assms(2)] parse_Inr[OF d] by (intro exI[of _ header]) (auto simp: cl)
qed

text \<open>C39: a well-formed CONNECT request round-trips. For every authority that normalises to \<open>d\<close> and
  every \<^verbatim>\<open>Host\<close> value that normalises to the same \<open>d\<close>, with any tolerated header lines before and
  after it (fewer than 100 lines and 32 KiB in all, lines of any length), the handshake succeeds
  with the destination \<open>d\<close>, writes nothing, and leaves exactly the bytes behind the empty line
  unread, also when they arrived in the same packet.\<close>

theorem http_connect_roundtrip:
  assumes "\<forall>l\<in>set before. harmless vname vvalue l" "\<forall>l\<in>set after. harmless vname vvalue l"
    "vname ''Host''" "vvalue ('' '' @ host)"
    and "\<forall>l\<in>set (request_lines authority before host after). CHR 0x0d \<notin> set l \<and> CHR 0x0a \<notin> set l"
    and "CHR '' '' \<notin> set authority" "trim_blank host = host"
    and "length before + length after < httpConnectMaxHeaders"
    and "length (request_header (request_lines authority before host after)) \<le> httpConnectMaxHeaderBytes"
    and "normalizeHTTPConnectAuthority authority = Some d" "normalizeHTTPConnectAuthority host = Some d"
    and "inp c = request_header (request_lines authority before host after) @ payload"
  shows "\<exists>client c'. prepareHTTPConnectClient vname vvalue fin (True, True) replyDl ahead c = (Inr client, c')
     \<and> hdestination client = d \<and> unread client = payload \<and> out (hconn client) = out c"
  using prepare_request[OF assms, of fin replyDl ahead] by (simp add: unread_def)

definition wit_name_ok :: "string \<Rightarrow> bool" where
  "wit_name_ok s \<longleftrightarrow> s \<noteq> '''' \<and> list_all (\<lambda>c. is_digit c \<or> 97 \<le> (of_char (lower_char c) :: nat) \<or> c = CHR ''-'') s"

definition wit_value_ok :: "string \<Rightarrow> bool" where
  "wit_value_ok s \<longleftrightarrow> list_all (\<lambda>c. 32 \<le> (of_char c :: nat) \<or> c = CHR 0x09) s"

definition wit_conn :: sconn where
  "wit_conn = \<lparr>inp = request_header (request_lines ''A.b:080'' [''X: 1''] ''a.B:80'' [''content-length: 0'']) @ [22, 3, 1],
     out = [], accepts = []\<rparr>"

lemma wit_request:
  "\<forall>l\<in>set [''X: 1'']. harmless wit_name_ok wit_value_ok l" "\<forall>l\<in>set [''content-length: 0'']. harmless wit_name_ok wit_value_ok l"
  "wit_name_ok ''Host''" "wit_value_ok ('' '' @ ''a.B:80'')"
  "\<forall>l\<in>set (request_lines ''A.b:080'' [''X: 1''] ''a.B:80'' [''content-length: 0'']). CHR 0x0d \<notin> set l \<and> CHR 0x0a \<notin> set l"
  "CHR '' '' \<notin> set ''A.b:080''" "trim_blank ''a.B:80'' = ''a.B:80''"
  "length [''X: 1''] + length [''content-length: 0''] < httpConnectMaxHeaders"
  "length (request_header (request_lines ''A.b:080'' [''X: 1''] ''a.B:80'' [''content-length: 0''])) \<le> httpConnectMaxHeaderBytes"
  "normalizeHTTPConnectAuthority ''A.b:080'' = Some ''a.b:80''" "normalizeHTTPConnectAuthority ''a.B:80'' = Some ''a.b:80''"
  "inp wit_conn = request_header (request_lines ''A.b:080'' [''X: 1''] ''a.B:80'' [''content-length: 0'']) @ [22, 3, 1]"
  subgoal by code_simp
  subgoal by code_simp
  subgoal by code_simp
  subgoal by code_simp
  subgoal by code_simp
  subgoal by simp
  subgoal by code_simp
  subgoal by (simp add: httpConnectMaxHeaders_def)
  subgoal by (simp add: httpConnectMaxHeaderBytes_def request_header_def request_lines_def str_bytes_def)
  subgoal by code_simp
  subgoal by code_simp
  subgoal by (simp add: wit_conn_def)
  done

theorem http_connect_roundtrip_witness:
  "\<exists>client c'. prepareHTTPConnectClient wit_name_ok wit_value_ok (ErrText ''EOF'') (True, True) (True, True) 2 wit_conn = (Inr client, c')
     \<and> hdestination client = ''a.b:80'' \<and> unread client = [22, 3, 1] \<and> out (hconn client) = out wit_conn"
  by (rule http_connect_roundtrip[OF wit_request])

theorem http_connect_accepts_witness:
  "\<exists>client header. prepareHTTPConnectClient wit_name_ok wit_value_ok (ErrText ''EOF'') (True, True) (True, True) 2 wit_conn
       = (Inr client, wit_conn\<lparr>inp := [1]\<rparr>)
     \<and> inp wit_conn = header @ fst (http_reads [(1, 9), (9, 9)] client) @ unread (snd (http_reads [(1, 9), (9, 9)] client))
     \<and> length header \<le> httpConnectMaxHeaderBytes"
proof -
  define client where "client = \<lparr>hconn = wit_conn\<lparr>inp := [1]\<rparr>, reader = Some [22, 3], hdestination = ''a.b:80'',
    hreplied = False, failureStatus = 0\<rparr>"
  have p: "prepareHTTPConnectClient wit_name_ok wit_value_ok (ErrText ''EOF'') (True, True) (True, True) 2 wit_conn
      = (Inr client, wit_conn\<lparr>inp := [1]\<rparr>)"
    using prepare_request[OF wit_request, of "ErrText ''EOF''" "(True, True)" 2] by (simp add: client_def)
  show ?thesis
    using http_connect_accepts[OF p, of "[(1, 9), (9, 9)]" "fst (http_reads [(1, 9), (9, 9)] client)"
        "snd (http_reads [(1, 9), (9, 9)] client)"] p by auto
qed

section \<open>One final reply\<close>

text \<open>What a mode handler and its deferred failure path may call on a client, with the outcome of
  the deadline calls.\<close>

datatype front_op = is_mark: FMark "bool \<times> bool" | FFail "bool \<times> bool" | FPend goerr

definition front_step ::
  "(bool \<times> bool \<Rightarrow> 'c \<Rightarrow> 'c) \<Rightarrow> (bool \<times> bool \<Rightarrow> 'c \<Rightarrow> 'c) \<Rightarrow> (goerr \<Rightarrow> 'c \<Rightarrow> 'c) \<Rightarrow> front_op \<Rightarrow> 'c \<Rightarrow> 'c" where
  "front_step mark reject record_failure op = (case op of FMark dl \<Rightarrow> mark dl | FFail dl \<Rightarrow> reject dl | FPend e \<Rightarrow> record_failure e)"

lemma front_step_simps [simp]:
  "front_step mark reject pnd (FMark dl) = mark dl" "front_step mark reject pnd (FFail dl) = reject dl"
  "front_step mark reject pnd (FPend e) = pnd e"
  by (simp_all add: front_step_def)

text \<open>The first call that decides the reply.\<close>

fun first_final :: "front_op list \<Rightarrow> front_op option" where
  "first_final [] = None"
| "first_final (FPend e # ops) = first_final ops"
| "first_final (op # ops) = Some op"

text \<open>
  The contract of a CONNECT front end: an answered client is left alone; the first of "connected"
  and "failed" answers, writing a prefix of a success respectively a failure reply; recording a
  failure writes nothing.
\<close>

locale connect_frontend =
  fixes wire :: "'c \<Rightarrow> byte list" and ready answered :: "'c \<Rightarrow> bool"
    and mark reject :: "bool \<times> bool \<Rightarrow> 'c \<Rightarrow> 'c" and record_failure :: "goerr \<Rightarrow> 'c \<Rightarrow> 'c"
    and success failure :: "byte list \<Rightarrow> bool"
  assumes answered_stays: "answered c \<Longrightarrow> mark dl c = c \<and> reject dl c = c \<and> record_failure e c = c"
    and mark_answers: "\<not> answered c \<Longrightarrow> answered (mark dl c) \<and> (\<exists>x r. wire (mark dl c) = wire c @ x \<and> prefix x r \<and> success r)"
    and reject_answers: "\<not> answered c \<Longrightarrow> ready c \<Longrightarrow>
      answered (reject dl c) \<and> (\<exists>x r. wire (reject dl c) = wire c @ x \<and> prefix x r \<and> failure r)"
    and pend_keeps: "\<not> answered c \<Longrightarrow> ready c \<Longrightarrow> \<not> answered (record_failure e c) \<and> ready (record_failure e c) \<and> wire (record_failure e c) = wire c"
begin

lemma answered_run: "answered c \<Longrightarrow> fold (front_step mark reject record_failure) ops c = c"
proof (induction ops)
  case (Cons op ops)
  then show ?case using answered_stays[of c] by (cases op) simp_all
qed simp

lemma single_reply:
  assumes "\<not> answered c" "ready c"
  shows "\<exists>x. wire (fold (front_step mark reject record_failure) ops c) = wire c @ x
     \<and> (case first_final ops of
          None \<Rightarrow> x = []
        | Some op \<Rightarrow> \<exists>r. prefix x r \<and> (if is_mark op then success r else failure r))"
  using assms
proof (induction ops arbitrary: c)
  case (Cons op ops)
  show ?case
  proof (cases op)
    case (FMark dl)
    then show ?thesis using mark_answers[OF Cons.prems(1), of dl] answered_run[of "mark dl c"]
      by auto
  next
    case (FFail dl)
    then show ?thesis using reject_answers[OF Cons.prems, of dl] answered_run[of "reject dl c"]
      by auto
  next
    case (FPend e)
    then show ?thesis using pend_keeps[OF Cons.prems, of e] Cons.IH[of "record_failure e c"] by simp
  qed
qed simp

end

subsection \<open>SOCKS5\<close>

definition socks5_success :: "byte list \<Rightarrow> bool" where
  "socks5_success r \<longleftrightarrow> r = reply_bytes socks5ReplySuccess"

definition socks5_failure :: "byte list \<Rightarrow> bool" where
  "socks5_failure r \<longleftrightarrow> (\<exists>code. code \<noteq> socks5ReplySuccess \<and> r = reply_bytes code)"

interpretation s5: connect_frontend "\<lambda>c. out (sconn c)" "\<lambda>c. True" replied
  "\<lambda>dl c. snd (markSOCKS5Connected c)" "\<lambda>dl. failPendingSOCKS5" setPendingSOCKS5Failure socks5_success socks5_failure
proof unfold_locales
  fix c :: socks5ClientConn and dl :: "bool \<times> bool" and e
  show "replied c \<Longrightarrow> snd (markSOCKS5Connected c) = c \<and> failPendingSOCKS5 c = c \<and> setPendingSOCKS5Failure e c = c"
    by (simp add: markSOCKS5Connected_def failPendingSOCKS5_def setPendingSOCKS5Failure_def)
  assume n: "\<not> replied c"
  show "replied (snd (markSOCKS5Connected c)) \<and>
      (\<exists>x r. out (sconn (snd (markSOCKS5Connected c))) = out (sconn c) @ x \<and> prefix x r \<and> socks5_success r)"
    using n writeSOCKS5Reply_out[of "sconn c" socks5ReplySuccess]
    by (auto simp: markSOCKS5Connected_def Let_def split_beta socks5_success_def)
  let ?r = "if failureReply c = socks5ReplySuccess then socks5ReplyGeneral else failureReply c"
  have "?r \<noteq> socks5ReplySuccess" by (simp add: socks5_consts)
  then have "socks5_failure (reply_bytes ?r)" by (auto simp: socks5_failure_def)
  then show "replied (failPendingSOCKS5 c) \<and>
      (\<exists>x r. out (sconn (failPendingSOCKS5 c)) = out (sconn c) @ x \<and> prefix x r \<and> socks5_failure r)"
    using n writeSOCKS5Reply_out[of "sconn c" ?r]
    by (auto simp: failPendingSOCKS5_def Let_def cong: if_cong)
  show "\<not> replied (setPendingSOCKS5Failure e c) \<and> True \<and> out (sconn (setPendingSOCKS5Failure e c)) = out (sconn c)"
    using n by (simp add: setPendingSOCKS5Failure_def)
qed

subsection \<open>HTTP\<close>

definition http_success :: "byte list \<Rightarrow> bool" where
  "http_success r \<longleftrightarrow> r = str_bytes (http_response StatusOK)"

definition http_failure :: "byte list \<Rightarrow> bool" where
  "http_failure r \<longleftrightarrow> (\<exists>status. status \<in> {StatusForbidden, StatusTooManyRequests, StatusBadGateway,
     StatusServiceUnavailable, StatusGatewayTimeout} \<and> r = str_bytes (http_response status))"

text \<open>The pending status is unset or one of the five statuses the program forwards; in particular
  never a 407 challenge or a success.\<close>

definition pending_ok :: "httpConnectClientConn \<Rightarrow> bool" where
  "pending_ok c \<longleftrightarrow> failureStatus c \<in> {0, StatusForbidden, StatusTooManyRequests, StatusBadGateway,
     StatusServiceUnavailable, StatusGatewayTimeout}"

lemma connectProxyHTTPReply_range:
  "connectProxyHTTPReply err \<in> {StatusForbidden, StatusTooManyRequests, StatusBadGateway,
     StatusServiceUnavailable, StatusGatewayTimeout}"
  by (auto simp: connectProxyHTTPReply_def split: option.splits)

definition pendHTTP :: "goerr \<Rightarrow> httpConnectClientConn \<Rightarrow> httpConnectClientConn" where
  "pendHTTP err client = (if \<not> hreplied client then client\<lparr>failureStatus := connectProxyHTTPReply err\<rparr> else client)"

lemma writeHTTPConnectReply_out:
  "\<exists>x. out (snd (writeHTTPConnectReply dl c status)) = out c @ x \<and> prefix x (str_bytes (http_response status))"
  by (auto simp: writeHTTPConnectReply_def write_once_def take_is_prefix split: list.splits)

interpretation hc: connect_frontend "\<lambda>c. out (hconn c)" pending_ok hreplied
  "\<lambda>dl c. snd (replyConnected dl c)" replyFailure pendHTTP http_success http_failure
proof unfold_locales
  fix c :: httpConnectClientConn and dl :: "bool \<times> bool" and e
  show "hreplied c \<Longrightarrow> snd (replyConnected dl c) = c \<and> replyFailure dl c = c \<and> pendHTTP e c = c"
    by (simp add: replyConnected_def replyFailure_def pendHTTP_def)
  assume n: "\<not> hreplied c"
  show "hreplied (snd (replyConnected dl c)) \<and>
      (\<exists>x r. out (hconn (snd (replyConnected dl c))) = out (hconn c) @ x \<and> prefix x r \<and> http_success r)"
    using n writeHTTPConnectReply_out[of dl "hconn c" StatusOK]
    by (auto simp: replyConnected_def Let_def split_beta http_success_def)
  assume p: "pending_ok c"
  let ?s = "if failureStatus c = 0 then StatusBadGateway else failureStatus c"
  have "http_failure (str_bytes (http_response ?s))" using p by (auto simp: http_failure_def pending_ok_def)
  then show "hreplied (replyFailure dl c) \<and>
      (\<exists>x r. out (hconn (replyFailure dl c)) = out (hconn c) @ x \<and> prefix x r \<and> http_failure r)"
    using n writeHTTPConnectReply_out[of dl "hconn c" ?s]
    by (auto simp: replyFailure_def Let_def cong: if_cong)
  show "\<not> hreplied (pendHTTP e c) \<and> pending_ok (pendHTTP e c) \<and> out (hconn (pendHTTP e c)) = out (hconn c)"
    using n connectProxyHTTPReply_range[of e] by (simp add: pendHTTP_def pending_ok_def)
qed

subsection \<open>The dispatch\<close>

fun inbound_wire :: "inbound_conn \<Rightarrow> byte list" where
  "inbound_wire (HTTPClient c) = out (hconn c)"
| "inbound_wire (SOCKS5Client c) = out (sconn c)"
| "inbound_wire (PlainConn c) = out c"

text \<open>A plain TCP client is owed no reply.\<close>

fun inbound_answered :: "inbound_conn \<Rightarrow> bool" where
  "inbound_answered (HTTPClient c) = hreplied c"
| "inbound_answered (SOCKS5Client c) = replied c"
| "inbound_answered (PlainConn c) = True"

fun inbound_ready :: "inbound_conn \<Rightarrow> bool" where
  "inbound_ready (HTTPClient c) = pending_ok c"
| "inbound_ready _ = True"

definition success_reply :: "byte list \<Rightarrow> bool" where
  "success_reply r \<longleftrightarrow> socks5_success r \<or> http_success r"

definition failure_answer :: "byte list \<Rightarrow> bool" where
  "failure_answer r \<longleftrightarrow> socks5_failure r \<or> http_failure r"

interpretation ib: connect_frontend inbound_wire inbound_ready inbound_answered
  "\<lambda>dl c. snd (markConnectClientConnected dl c)" failPendingConnectClient setPendingConnectClientFailure
  success_reply failure_answer
proof unfold_locales
  fix c :: inbound_conn and dl :: "bool \<times> bool" and e
  show "inbound_answered c \<Longrightarrow> snd (markConnectClientConnected dl c) = c \<and> failPendingConnectClient dl c = c
      \<and> setPendingConnectClientFailure e c = c"
    by (cases c) (simp_all add: markConnectClientConnected_def failPendingConnectClient_def
      setPendingConnectClientFailure_def split_beta s5.answered_stays hc.answered_stays Let_def)
  assume n: "\<not> inbound_answered c"
  show "inbound_answered (snd (markConnectClientConnected dl c)) \<and>
      (\<exists>x r. inbound_wire (snd (markConnectClientConnected dl c)) = inbound_wire c @ x \<and> prefix x r \<and> success_reply r)"
    using n s5.mark_answers hc.mark_answers[of _ dl]
    by (cases c) (fastforce simp: markConnectClientConnected_def split_beta Let_def success_reply_def)+
  assume p: "inbound_ready c"
  show "inbound_answered (failPendingConnectClient dl c) \<and>
      (\<exists>x r. inbound_wire (failPendingConnectClient dl c) = inbound_wire c @ x \<and> prefix x r \<and> failure_answer r)"
    using n p s5.reject_answers hc.reject_answers[of _ dl]
    by (cases c) (fastforce simp: failPendingConnectClient_def failure_answer_def)+
  show "\<not> inbound_answered (setPendingConnectClientFailure e c) \<and> inbound_ready (setPendingConnectClientFailure e c)
      \<and> inbound_wire (setPendingConnectClientFailure e c) = inbound_wire c"
    using n p s5.pend_keeps[of _ e] hc.pend_keeps[of _ e]
    by (cases c) (auto simp: setPendingConnectClientFailure_def pendHTTP_def)
qed

text \<open>C40: a CONNECT client gets at most one final reply, and a success only for a ready tunnel. For
  both front ends, whatever the mode handler and its deferred failure path call, in whatever order
  and with whatever failing writes and deadlines: nothing is written before the first of
  "connected" and "failed", that call writes (a prefix of) one reply, a success reply exactly when
  it is "connected", and nothing is written after it. A plain TCP client is never written to.\<close>

theorem connect_single_reply:
  assumes "\<not> inbound_answered c \<and> inbound_ready c \<or> (\<exists>conn. c = PlainConn conn)"
  shows "\<exists>x. inbound_wire (fold (front_step (\<lambda>dl c. snd (markConnectClientConnected dl c)) failPendingConnectClient
       setPendingConnectClientFailure) ops c) = inbound_wire c @ x
     \<and> (case first_final ops of
          None \<Rightarrow> x = []
        | Some op \<Rightarrow> x = [] \<or> (\<exists>r. prefix x r \<and> (if is_mark op then success_reply r else failure_answer r)))"
  using assms
proof
  assume "\<not> inbound_answered c \<and> inbound_ready c"
  then obtain x where x: "inbound_wire (fold (front_step (\<lambda>dl c. snd (markConnectClientConnected dl c)) failPendingConnectClient
       setPendingConnectClientFailure) ops c) = inbound_wire c @ x"
    "case first_final ops of None \<Rightarrow> x = []
     | Some op \<Rightarrow> \<exists>r. prefix x r \<and> (if is_mark op then success_reply r else failure_answer r)"
    using ib.single_reply[of c ops] by blast
  show ?thesis
    by (rule exI[of _ x], rule conjI[OF x(1)]) (use x(2) in \<open>cases "first_final ops"; simp\<close>)
next
  assume "\<exists>conn. c = PlainConn conn"
  then show ?thesis using ib.answered_run[of c ops] by (auto split: option.splits)
qed

theorem connect_single_reply_witness:
  "\<exists>x r. inbound_wire (fold (front_step (\<lambda>dl c. snd (markConnectClientConnected dl c)) failPendingConnectClient
       setPendingConnectClientFailure) [FPend ErrCircuitOpen, FFail (True, True), FMark (True, True)]
       (HTTPClient \<lparr>hconn = \<lparr>inp = [], out = [], accepts = [5, 500]\<rparr>, reader = None, hdestination = ''d:1'', hreplied = False, failureStatus = 0\<rparr>))
     = x \<and> (x = [] \<or> prefix x r \<and> failure_answer r)"
  using connect_single_reply[of "HTTPClient \<lparr>hconn = \<lparr>inp = [], out = [], accepts = [5, 500]\<rparr>, reader = None,
      hdestination = ''d:1'', hreplied = False, failureStatus = 0\<rparr>" "[FPend ErrCircuitOpen, FFail (True, True), FMark (True, True)]"]
  by (auto simp: pending_ok_def)

end
