(* ===== verification/Log_Limiter.thy ===== *)
theory Log_Limiter
  imports Moto_Prelude "HOL-Library.AList" "HOL-Library.Multiset"
begin

text \<open>
  The rate limiter for repeated CONNECT error logs
  (\<^verbatim>\<open>src/controller/connect_proxy_log_limiter.go\<close>): one token bucket per
  rule/target/protocol/class tuple, bounded by an idle sweep and by least-recently-used
  eviction. The clock value each call reads is an argument.

  The Go map of entries is an association list with distinct keys. Its order stands for the
  iteration order of one \<^verbatim>\<open>range\<close> loop; \<open>evict_order_independent\<close> shows that the outcome of the
  eviction loop does not depend on it.
\<close>

section \<open>State\<close>

definition connectProxyErrorLogBurst :: int where "connectProxyErrorLogBurst = 2"
definition connectProxyErrorLogWindow :: duration where "connectProxyErrorLogWindow = 10 * second"
definition connectProxyErrorLogMaxEntries :: nat where "connectProxyErrorLogMaxEntries = 1024"
definition connectProxyErrorLogIdleTTL :: duration where "connectProxyErrorLogIdleTTL = 5 * minute"

lemmas limiter_consts [go_consts] = connectProxyErrorLogBurst_def connectProxyErrorLogWindow_def
  connectProxyErrorLogMaxEntries_def connectProxyErrorLogIdleTTL_def duration_defs

record connectProxyErrorLogKey =
  lkRule :: string
  lkTarget :: string
  lkProtocol :: string
  lkClass :: string

record connectProxyErrorLogEntry =
  tokens :: int
  lastRefill :: gotime
  lastSeen :: gotime
  lastUsed :: u64
  suppressed :: u64

record connectProxyErrorLogLimiter =
  entries :: "(connectProxyErrorLogKey \<times> connectProxyErrorLogEntry) list"
  lwindow :: duration
  burst :: int
  maxEntries :: nat
  idleTTL :: duration
  nextSweep :: gotime
  nextUse :: u64

definition newConnectProxyErrorLogLimiterWithNow :: connectProxyErrorLogLimiter where
  "newConnectProxyErrorLogLimiterWithNow =
     \<lparr>entries = [], lwindow = connectProxyErrorLogWindow, burst = connectProxyErrorLogBurst,
      maxEntries = connectProxyErrorLogMaxEntries, idleTTL = connectProxyErrorLogIdleTTL,
      nextSweep = 0, nextUse = 0\<rparr>"

section \<open>Operations\<close>

definition idle_entry :: "gotime \<Rightarrow> duration \<Rightarrow> connectProxyErrorLogEntry \<Rightarrow> bool" where
  "idle_entry now ttl e \<longleftrightarrow> \<not> now < lastSeen e \<and> time_sub now (lastSeen e) \<ge> ttl"

definition reclaimIdleLocked :: "gotime \<Rightarrow> bool \<Rightarrow> connectProxyErrorLogLimiter \<Rightarrow> connectProxyErrorLogLimiter" where
  "reclaimIdleLocked now force l =
     (if \<not> force \<and> nextSweep l \<noteq> 0 \<and> now < nextSweep l then l
      else l\<lparr>entries := filter (\<lambda>(k, e). \<not> idle_entry now (idleTTL l) e) (entries l),
             nextSweep := now + idleTTL l\<rparr>)"

text \<open>The loop keeps the first entry with the smallest \<^verbatim>\<open>lastUsed\<close> met so far.\<close>

fun oldest_loop ::
  "(connectProxyErrorLogKey \<times> connectProxyErrorLogEntry) list \<Rightarrow> (connectProxyErrorLogKey \<times> u64) option \<Rightarrow>
     (connectProxyErrorLogKey \<times> u64) option" where
  "oldest_loop [] found = found"
| "oldest_loop ((key, entry) # rest) found =
     oldest_loop rest (case found of
       None \<Rightarrow> Some (key, lastUsed entry)
     | Some (k, use) \<Rightarrow> if lastUsed entry < use then Some (key, lastUsed entry) else found)"

definition evictOldestLocked :: "connectProxyErrorLogLimiter \<Rightarrow> connectProxyErrorLogLimiter" where
  "evictOldestLocked l = (case oldest_loop (entries l) None of
       None \<Rightarrow> l
     | Some (key, use) \<Rightarrow> l\<lparr>entries := filter (\<lambda>(k, e). k \<noteq> key) (entries l)\<rparr>)"

definition refillLocked :: "duration \<Rightarrow> int \<Rightarrow> gotime \<Rightarrow> connectProxyErrorLogEntry \<Rightarrow> connectProxyErrorLogEntry" where
  "refillLocked win bst now entry =
     (if tokens entry \<ge> bst \<or> now < lastRefill entry then entry
      else let elapsed = time_sub now (lastRefill entry); steps = elapsed div win
        in if steps \<le> 0 then entry
           else let missing = bst - tokens entry
             in entry\<lparr>tokens := (if steps \<ge> missing then bst else tokens entry + steps),
                  lastRefill := lastRefill entry + steps * win\<rparr>)"

text \<open>A new entry, after making room for it.\<close>

definition fresh_entry :: "gotime \<Rightarrow> int \<Rightarrow> connectProxyErrorLogEntry" where
  "fresh_entry now bst = \<lparr>tokens = bst, lastRefill = now, lastSeen = now, lastUsed = 0, suppressed = 0\<rparr>"

definition make_room :: "gotime \<Rightarrow> connectProxyErrorLogLimiter \<Rightarrow> connectProxyErrorLogLimiter" where
  "make_room now l =
     (let l = (if length (entries l) \<ge> maxEntries l then reclaimIdleLocked now True l else l)
      in if length (entries l) \<ge> maxEntries l then evictOldestLocked l else l)"

text \<open>The admission decision on an entry: the decision, the reported count, the new entry.\<close>

definition decide_entry ::
  "duration \<Rightarrow> int \<Rightarrow> gotime \<Rightarrow> u64 \<Rightarrow> connectProxyErrorLogEntry \<Rightarrow> (bool \<times> u64) \<times> connectProxyErrorLogEntry" where
  "decide_entry win bst now use entry =
     (let entry = entry\<lparr>lastUsed := use\<rparr>;
          entry = (if lastSeen entry < now then entry\<lparr>lastSeen := now\<rparr> else entry);
          entry = refillLocked win bst now entry
      in if tokens entry > 0
         then ((True, suppressed entry), entry\<lparr>tokens := tokens entry - 1, suppressed := 0\<rparr>)
         else ((False, 0), if suppressed entry \<noteq> - 1 then entry\<lparr>suppressed := suppressed entry + 1\<rparr> else entry))"

definition allow ::
  "gotime \<Rightarrow> connectProxyErrorLogKey \<Rightarrow> connectProxyErrorLogLimiter \<Rightarrow> (bool \<times> u64) \<times> connectProxyErrorLogLimiter" where
  "allow now key l =
     (let l = reclaimIdleLocked now False l;
          (entry, l) = (case map_of (entries l) key of
             Some entry \<Rightarrow> (entry, l)
           | None \<Rightarrow> (fresh_entry now (burst l), make_room now l));
          use = nextUse l + 1;
          (result, entry) = decide_entry (lwindow l) (burst l) now use entry
      in (result, l\<lparr>entries := AList.update key entry (entries l), nextUse := use\<rparr>))"

section \<open>Runs\<close>

type_synonym log_event = "gotime \<times> connectProxyErrorLogKey"

fun log_run :: "log_event list \<Rightarrow> connectProxyErrorLogLimiter \<Rightarrow> (bool \<times> u64) list \<times> connectProxyErrorLogLimiter" where
  "log_run [] l = ([], l)"
| "log_run ((now, key) # evs) l =
     (let (r, l) = allow now key l; (rs, l) = log_run evs l in (r # rs, l))"

text \<open>How many events of \<open>k\<close> a run logs.\<close>

definition logged :: "connectProxyErrorLogKey \<Rightarrow> log_event list \<Rightarrow> connectProxyErrorLogLimiter \<Rightarrow> nat" where
  "logged k evs l = length (filter (\<lambda>((t, k'), (a, s)). k' = k \<and> a) (zip evs (fst (log_run evs l))))"

lemma logged_simps [simp]:
  "logged k [] l = 0"
  "logged k ((now, key) # evs) l =
     (if key = k \<and> fst (fst (allow now key l)) then 1 else 0) + logged k evs (snd (allow now key l))"
  by (auto simp: logged_def split_def Let_def)

section \<open>The table stays bounded\<close>

definition keys_of :: "connectProxyErrorLogLimiter \<Rightarrow> connectProxyErrorLogKey list" where
  "keys_of l = map fst (entries l)"

lemma distinct_fst_filter: "distinct (map fst xs) \<Longrightarrow> distinct (map fst (filter P xs))"
  by (induction xs) auto

lemma reclaim_fields [simp]:
  "lwindow (reclaimIdleLocked now f l) = lwindow l" "burst (reclaimIdleLocked now f l) = burst l"
  "maxEntries (reclaimIdleLocked now f l) = maxEntries l" "idleTTL (reclaimIdleLocked now f l) = idleTTL l"
  "nextUse (reclaimIdleLocked now f l) = nextUse l"
  by (simp_all add: reclaimIdleLocked_def)

lemma reclaim_entries: "\<exists>P. entries (reclaimIdleLocked now f l) = filter P (entries l)"
  by (auto simp: reclaimIdleLocked_def intro: exI[of _ "\<lambda>_. True"])

lemma evict_fields [simp]:
  "lwindow (evictOldestLocked l) = lwindow l" "burst (evictOldestLocked l) = burst l"
  "maxEntries (evictOldestLocked l) = maxEntries l" "idleTTL (evictOldestLocked l) = idleTTL l"
  "nextUse (evictOldestLocked l) = nextUse l"
  by (simp_all add: evictOldestLocked_def split: option.splits prod.splits)

lemma oldest_loop_Some:
  "oldest_loop es found = Some (k, u) \<Longrightarrow> found = Some (k, u) \<or> (\<exists>e. (k, e) \<in> set es \<and> u = lastUsed e)"
  by (induction es found rule: oldest_loop.induct) (fastforce split: option.splits if_splits)+

lemma oldest_loop_None: "oldest_loop es found = None \<longleftrightarrow> es = [] \<and> found = None"
  by (induction es found rule: oldest_loop.induct) (auto split: option.splits)

lemma evict_shrinks:
  assumes "entries l \<noteq> []"
  shows "length (entries (evictOldestLocked l)) < length (entries l)"
proof -
  obtain k u where o: "oldest_loop (entries l) None = Some (k, u)"
    using oldest_loop_None[of "entries l" None] assms by (cases "oldest_loop (entries l) None") auto
  then obtain e where "(k, e) \<in> set (entries l)" using oldest_loop_Some by blast
  then have "length (filter (\<lambda>(k', e). k' \<noteq> k) (entries l)) < length (entries l)"
    by (intro length_filter_less) auto
  then show ?thesis by (simp add: evictOldestLocked_def o)
qed

lemma evict_entries: "\<exists>P. entries (evictOldestLocked l) = filter P (entries l)"
  by (auto simp: evictOldestLocked_def split: option.splits prod.splits intro: exI[of _ "\<lambda>_. True"])

lemma make_room_fields [simp]:
  "lwindow (make_room now l) = lwindow l" "burst (make_room now l) = burst l"
  "maxEntries (make_room now l) = maxEntries l" "idleTTL (make_room now l) = idleTTL l"
  "nextUse (make_room now l) = nextUse l"
  by (simp_all add: make_room_def Let_def)

lemma make_room_entries: "\<exists>P. entries (make_room now l) = filter P (entries l)"
proof -
  let ?l = "if length (entries l) \<ge> maxEntries l then reclaimIdleLocked now True l else l"
  obtain P where P: "entries ?l = filter P (entries l)"
    using reclaim_entries[of now True l] by (cases "length (entries l) \<ge> maxEntries l") (auto intro: that[of "\<lambda>_. True"])
  obtain Q where "entries (evictOldestLocked ?l) = filter Q (entries ?l)" using evict_entries by blast
  then show ?thesis
    using P by (auto simp: make_room_def Let_def)
qed

lemma make_room_makes_room:
  assumes "0 < maxEntries l" "length (entries l) \<le> maxEntries l"
  shows "length (entries (make_room now l)) < maxEntries l"
proof -
  let ?l = "if length (entries l) \<ge> maxEntries l then reclaimIdleLocked now True l else l"
  obtain P where "entries ?l = filter P (entries l)"
    using reclaim_entries[of now True l] by (cases "length (entries l) \<ge> maxEntries l") (auto intro: that[of "\<lambda>_. True"])
  then have le: "length (entries ?l) \<le> maxEntries l"
    using length_filter_le[of P "entries l"] assms by (metis le_trans)
  show ?thesis
  proof (cases "length (entries ?l) \<ge> maxEntries l")
    case True
    then have "entries ?l \<noteq> []" using assms by (metis list.size(3) not_le)
    from evict_shrinks[OF this] show ?thesis
      using le True by (simp add: make_room_def Let_def split: if_splits)
  qed (auto simp: make_room_def Let_def split: if_splits)
qed

lemma allow_cases:
  obtains l1 entry l2 where
    "l1 = reclaimIdleLocked now False l"
    "map_of (entries l1) key = Some entry \<and> l2 = l1
     \<or> map_of (entries l1) key = None \<and> entry = fresh_entry now (burst l) \<and> l2 = make_room now l1"
    "allow now key l = (fst (decide_entry (lwindow l) (burst l) now (nextUse l + 1) entry),
       l2\<lparr>entries := AList.update key (snd (decide_entry (lwindow l) (burst l) now (nextUse l + 1) entry)) (entries l2),
          nextUse := nextUse l + 1\<rparr>)"
  by (cases "map_of (entries (reclaimIdleLocked now False l)) key")
    (auto simp: allow_def Let_def split_def intro: that)

lemma allow_fields [simp]:
  "lwindow (snd (allow now key l)) = lwindow l" "burst (snd (allow now key l)) = burst l"
  "maxEntries (snd (allow now key l)) = maxEntries l" "idleTTL (snd (allow now key l)) = idleTTL l"
  by (rule allow_cases[of now l key]; fastforce)+

definition table_ok :: "connectProxyErrorLogLimiter \<Rightarrow> bool" where
  "table_ok l \<longleftrightarrow> 0 < maxEntries l \<and> length (entries l) \<le> maxEntries l \<and> distinct (keys_of l)"

lemma allow_table_ok:
  assumes "table_ok l"
  shows "table_ok (snd (allow now key l))"
proof (rule allow_cases[of now l key])
  fix l1 entry l2
  let ?e = "snd (decide_entry (lwindow l) (burst l) now (nextUse l + 1) entry)"
  assume l1: "l1 = reclaimIdleLocked now False l"
    and c: "map_of (entries l1) key = Some entry \<and> l2 = l1
     \<or> map_of (entries l1) key = None \<and> entry = fresh_entry now (burst l) \<and> l2 = make_room now l1"
    and a: "allow now key l = (fst (decide_entry (lwindow l) (burst l) now (nextUse l + 1) entry),
       l2\<lparr>entries := AList.update key ?e (entries l2), nextUse := nextUse l + 1\<rparr>)"
  obtain P where P: "entries l1 = filter P (entries l)" using reclaim_entries l1 by blast
  have 1: "length (entries l1) \<le> maxEntries l" "distinct (map fst (entries l1))"
    using assms le_trans[OF length_filter_le[of P "entries l"]] unfolding table_ok_def keys_of_def
    by (auto simp: P distinct_fst_filter)
  have m: "maxEntries l1 = maxEntries l" "0 < maxEntries l" using assms by (auto simp: l1 table_ok_def)
  from c have "length (AList.update key ?e (entries l2)) \<le> maxEntries l \<and> distinct (map fst (entries l2)) \<and> maxEntries l2 = maxEntries l"
  proof
    assume "map_of (entries l1) key = Some entry \<and> l2 = l1"
    then show ?thesis using 1 m by (auto simp: length_AList_update image_iff dest!: map_of_SomeD)
  next
    assume n: "map_of (entries l1) key = None \<and> entry = fresh_entry now (burst l) \<and> l2 = make_room now l1"
    obtain Q where "entries (make_room now l1) = filter Q (entries l1)" using make_room_entries by blast
    then have "distinct (map fst (entries l2))" using n 1 by (simp add: distinct_fst_filter)
    moreover have "length (entries l2) < maxEntries l"
      using make_room_makes_room[of l1 now] n m 1 by simp
    ultimately show ?thesis using n m by (simp add: length_AList_update)
  qed
  then show ?thesis
    using m unfolding a table_ok_def keys_of_def by (simp add: distinct_update)
qed

lemma log_run_table_ok: "table_ok l \<Longrightarrow> table_ok (snd (log_run evs l))"
  by (induction evs arbitrary: l) (auto simp: Let_def split_def allow_table_ok)

section \<open>The rate of every key is bounded\<close>

text \<open>
  The budget of a key at an instant, in nanoseconds: its tokens, each worth one window, plus the
  time since its last refill. A key without an entry has a full bucket.
\<close>

definition entry_budget :: "duration \<Rightarrow> gotime \<Rightarrow> connectProxyErrorLogEntry \<Rightarrow> int" where
  "entry_budget win now e = tokens e * win + (now - lastRefill e)"

definition budget :: "gotime \<Rightarrow> connectProxyErrorLogLimiter \<Rightarrow> connectProxyErrorLogKey \<Rightarrow> int" where
  "budget now l k = (case map_of (entries l) k of
       None \<Rightarrow> burst l * lwindow l
     | Some e \<Rightarrow> entry_budget (lwindow l) now e)"

definition entry_ok :: "gotime \<Rightarrow> connectProxyErrorLogEntry \<Rightarrow> bool" where
  "entry_ok now e \<longleftrightarrow> 0 \<le> tokens e \<and> lastRefill e \<le> lastSeen e \<and> lastSeen e \<le> now"

definition limiter_ok :: "gotime \<Rightarrow> connectProxyErrorLogLimiter \<Rightarrow> bool" where
  "limiter_ok now l \<longleftrightarrow> 0 < lwindow l \<and> 0 < burst l \<and> burst l * lwindow l \<le> idleTTL l
     \<and> table_ok l \<and> (\<forall>(k, e) \<in> set (entries l). entry_ok now e)"

lemma refill_steps: "0 < win \<Longrightarrow> t \<ge> u \<Longrightarrow> time_sub t u div win * win \<le> t - u"
proof -
  assume a: "0 < win" "t \<ge> u"
  have "time_sub t u div win * win \<le> time_sub t u" using a by (simp add: minus_mod_eq_div_mult[symmetric])
  also have "\<dots> \<le> t - u" using a by (simp add: time_sub_def max_duration_def min_duration_def)
  finally show ?thesis .
qed

lemma refill_ok:
  assumes "0 < win" "0 \<le> tokens e" "lastRefill e \<le> now" "lastRefill e \<le> lastSeen e" "now \<le> lastSeen e"
  shows "0 \<le> tokens (refillLocked win bst now e)" "lastRefill (refillLocked win bst now e) \<le> now"
    "lastSeen (refillLocked win bst now e) = lastSeen e" "suppressed (refillLocked win bst now e) = suppressed e"
    "entry_budget win now (refillLocked win bst now e) \<le> entry_budget win now e"
proof -
  note s = refill_steps[OF assms(1,3)]
  show "0 \<le> tokens (refillLocked win bst now e)"
    using assms by (auto simp: refillLocked_def Let_def)
  show "lastRefill (refillLocked win bst now e) \<le> now"
    using assms s by (auto simp: refillLocked_def Let_def)
  show "lastSeen (refillLocked win bst now e) = lastSeen e" "suppressed (refillLocked win bst now e) = suppressed e"
    by (simp_all add: refillLocked_def Let_def)
  have "bst * win \<le> tokens e * win + st * win" if "bst - tokens e \<le> st" for st
    using mult_right_mono[of bst "tokens e + st" win] that assms(1) by (simp add: distrib_right)
  from this[of "time_sub now (lastRefill e) div win"] show "entry_budget win now (refillLocked win bst now e) \<le> entry_budget win now e"
    by (auto simp: refillLocked_def Let_def entry_budget_def distrib_right)
qed

lemma decide_entry_ok:
  fixes bst :: int and use :: u64
  assumes "0 < win" "0 \<le> tokens e" "lastRefill e \<le> lastSeen e" "lastSeen e \<le> now"
  defines "r \<equiv> decide_entry win bst now use e"
  shows "entry_ok now (snd r)"
    and "entry_budget win now (snd r) + (if fst (fst r) then win else 0) \<le> entry_budget win now e"
proof -
  define e1 where "e1 = e\<lparr>lastUsed := use, lastSeen := now\<rparr>"
  have e1: "(if lastSeen (e\<lparr>lastUsed := use\<rparr>) < now then (e\<lparr>lastUsed := use\<rparr>)\<lparr>lastSeen := now\<rparr> else e\<lparr>lastUsed := use\<rparr>) = e1"
    using assms(4) by (auto simp: e1_def)
  define e2 where "e2 = refillLocked win bst now e1"
  have p: "0 \<le> tokens e1" "lastRefill e1 \<le> now" "lastRefill e1 \<le> lastSeen e1" "now \<le> lastSeen e1"
    "entry_budget win now e1 = entry_budget win now e" "lastSeen e1 = now"
    using assms by (auto simp: e1_def entry_budget_def)
  note q = refill_ok[OF assms(1) p(1-4), of bst, folded e2_def]
  have r: "r = (if tokens e2 > 0 then ((True, suppressed e2), e2\<lparr>tokens := tokens e2 - 1, suppressed := 0\<rparr>)
     else ((False, 0), if suppressed e2 \<noteq> - 1 then e2\<lparr>suppressed := suppressed e2 + 1\<rparr> else e2))"
    unfolding r_def decide_entry_def Let_def e1 e2_def[symmetric] ..
  show "entry_ok now (snd r)" using p q by (auto simp: r entry_ok_def)
  show "entry_budget win now (snd r) + (if fst (fst r) then win else 0) \<le> entry_budget win now e"
    using p q by (auto simp: r entry_budget_def algebra_simps)
qed

lemma map_of_filter_distinct:
  "map_of xs k = Some e \<Longrightarrow> distinct (map fst xs) \<Longrightarrow> map_of (filter P xs) k = (if P (k, e) then Some e else None)"
  by (induction xs) (auto simp: map_of_eq_None_iff image_iff split: if_splits)

lemma reclaim_budget:
  assumes "limiter_ok now l"
  shows "limiter_ok now (reclaimIdleLocked now f l)" "budget now (reclaimIdleLocked now f l) k \<le> budget now l k"
proof -
  let ?f = "\<lambda>(k, e). \<not> idle_entry now (idleTTL l) e"
  have d: "distinct (map fst (entries l))" and w: "0 < lwindow l" "0 < burst l" "burst l * lwindow l \<le> idleTTL l"
    and oks: "\<And>k e. (k, e) \<in> set (entries l) \<Longrightarrow> entry_ok now e"
    using assms by (auto simp: limiter_ok_def table_ok_def keys_of_def)
  show "limiter_ok now (reclaimIdleLocked now f l)"
    using assms le_trans[OF length_filter_le[of ?f "entries l"]]
    by (auto simp: limiter_ok_def table_ok_def keys_of_def reclaimIdleLocked_def distinct_fst_filter)
  have "budget now (l\<lparr>entries := filter ?f (entries l), nextSweep := now + idleTTL l\<rparr>) k \<le> budget now l k"
  proof (cases "map_of (entries l) k")
    case None
    then have "map_of (filter ?f (entries l)) k = None" by (auto simp: map_of_eq_None_iff)
    then show ?thesis using None by (simp add: budget_def)
  next
    case (Some e)
    have m: "map_of (filter ?f (entries l)) k = (if idle_entry now (idleTTL l) e then None else Some e)"
      using map_of_filter_distinct[OF Some d, of ?f] by simp
    have "burst l * lwindow l \<le> entry_budget (lwindow l) now e" if i: "idle_entry now (idleTTL l) e"
    proof -
      have ok: "entry_ok now e" using oks map_of_SomeD[OF Some] by blast
      have "0 < idleTTL l" using w by (meson less_le_trans mult_pos_pos)
      then have "idleTTL l \<le> now - lastSeen e"
        using i by (auto simp: idle_entry_def time_sub_def min_duration_def)
      moreover have "0 \<le> tokens e * lwindow l" using ok w by (simp add: entry_ok_def)
      ultimately show ?thesis using w ok[unfolded entry_ok_def] unfolding entry_budget_def by linarith
    qed
    then show ?thesis using m Some by (simp add: budget_def)
  qed
  then show "budget now (reclaimIdleLocked now f l) k \<le> budget now l k"
    by (simp add: reclaimIdleLocked_def)
qed

lemma limiter_ok_mono: "limiter_ok now l \<Longrightarrow> now \<le> now' \<Longrightarrow> limiter_ok now' l"
  by (fastforce simp: limiter_ok_def entry_ok_def)

lemma budget_later: "now \<le> now' \<Longrightarrow> budget now' l k \<le> budget now l k + (now' - now)"
  by (auto simp: budget_def entry_budget_def split: option.splits)

lemma budget_nonneg:
  assumes "limiter_ok now l"
  shows "0 \<le> budget now l k"
proof (cases "map_of (entries l) k")
  case (Some e)
  then have e: "entry_ok now e" and w: "0 < lwindow l"
    using assms map_of_SomeD[OF Some] by (auto simp: limiter_ok_def)
  then have "0 \<le> tokens e * lwindow l" by (simp add: entry_ok_def)
  then show ?thesis using Some e by (simp add: budget_def entry_budget_def entry_ok_def)
qed (use assms in \<open>auto simp: budget_def limiter_ok_def\<close>)

lemma limiter_ok_update:
  assumes "limiter_ok now l" "entry_ok now e" "key \<in> set (keys_of l) \<or> length (entries l) < maxEntries l"
  shows "limiter_ok now (l\<lparr>entries := AList.update key e (entries l), nextUse := u\<rparr>)"
proof -
  have "set (AList.update key e xs) \<subseteq> insert (key, e) (set xs)" for xs
    by (induction xs) auto
  from this[of "entries l"] show ?thesis
    using assms by (auto simp: limiter_ok_def table_ok_def keys_of_def length_AList_update distinct_update)
qed

text \<open>While the table has room, a call charges one window to its key and nothing to the others.\<close>

lemma allow_budget:
  assumes "limiter_ok now l" "key \<in> set (keys_of l) \<or> length (entries l) < maxEntries l"
  shows "limiter_ok now (snd (allow now key l))"
    "budget now (snd (allow now key l)) k + (if key = k \<and> fst (fst (allow now key l)) then lwindow l else 0) \<le> budget now l k"
    "set (keys_of (snd (allow now key l))) \<subseteq> insert key (set (keys_of l))"
proof -
  obtain l1 entry l2 where l1: "l1 = reclaimIdleLocked now False l"
    and c: "map_of (entries l1) key = Some entry \<and> l2 = l1
     \<or> map_of (entries l1) key = None \<and> entry = fresh_entry now (burst l) \<and> l2 = make_room now l1"
    and a: "allow now key l = (fst (decide_entry (lwindow l) (burst l) now (nextUse l + 1) entry),
       l2\<lparr>entries := AList.update key (snd (decide_entry (lwindow l) (burst l) now (nextUse l + 1) entry)) (entries l2),
          nextUse := nextUse l + 1\<rparr>)"
    by (rule allow_cases)
  define r where "r = decide_entry (lwindow l) (burst l) now (nextUse l + 1) entry"
  note ok1 = reclaim_budget[OF assms(1), of False, folded l1]
  obtain P where P: "entries l1 = filter P (entries l)" using reclaim_entries l1 by blast
  have f: "lwindow l1 = lwindow l" "burst l1 = burst l" "maxEntries l1 = maxEntries l" by (simp_all add: l1)
  have w: "0 < lwindow l" "0 < burst l" using assms(1) by (auto simp: limiter_ok_def)
  have room: "map_of (entries l1) key \<noteq> None \<or> length (entries l1) < maxEntries l1"
  proof (cases "key \<in> set (keys_of l)")
    case True
    show ?thesis
    proof (rule disjCI)
      assume "\<not> length (entries l1) < maxEntries l1"
      then have "\<not> length (filter P (entries l)) < length (entries l)"
        using assms(1) f by (auto simp: P limiter_ok_def table_ok_def)
      then have "filter P (entries l) = entries l"
        by (meson filter_id_conv length_filter_less)
      then show "map_of (entries l1) key \<noteq> None"
        using True by (simp add: P keys_of_def map_of_eq_None_iff)
    qed
  next
    case False
    then show ?thesis using assms(2) f le_less_trans[OF length_filter_le[of P "entries l"]] by (simp add: P)
  qed
  have l2: "l2 = l1" using c room by (auto simp: make_room_def Let_def)
  have e: "0 \<le> tokens entry \<and> lastRefill entry \<le> lastSeen entry \<and> lastSeen entry \<le> now
      \<and> entry_budget (lwindow l) now entry = budget now l1 key"
    using c
  proof
    assume s: "map_of (entries l1) key = Some entry \<and> l2 = l1"
    then have "entry_ok now entry" using ok1(1) map_of_SomeD[of "entries l1" key entry] by (auto simp: limiter_ok_def)
    then show ?thesis using s f by (simp add: entry_ok_def budget_def)
  qed (use w f in \<open>auto simp: fresh_entry_def entry_budget_def budget_def\<close>)
  note d = decide_entry_ok[OF w(1), of entry now "burst l" "nextUse l + 1", folded r_def]
  show "limiter_ok now (snd (allow now key l))"
    unfolding a l2 snd_conv
    by (rule limiter_ok_update[OF ok1(1)]) (use e d room in \<open>auto simp: r_def keys_of_def map_of_eq_None_iff\<close>)
  show "budget now (snd (allow now key l)) k + (if key = k \<and> fst (fst (allow now key l)) then lwindow l else 0) \<le> budget now l k"
    using ok1(2)[of k] e d f unfolding a l2 r_def[symmetric]
    by (cases "key = k") (auto simp: budget_def update_conv' split: option.splits)
  show "set (keys_of (snd (allow now key l))) \<subseteq> insert key (set (keys_of l))"
    unfolding a l2 using P by (auto simp: keys_of_def update_keys split: if_splits)
qed

lemma logged_budget:
  assumes "limiter_ok now0 l" "sorted (now0 # map fst evs)" "\<forall>(t, key) \<in> set evs. t \<le> T" "now0 \<le> T"
    "set (keys_of l) \<subseteq> K" "snd ` set evs \<subseteq> K" "finite K" "card K \<le> maxEntries l"
  shows "int (logged k evs l) * lwindow l \<le> budget now0 l k + (T - now0)"
  using assms
proof (induction evs arbitrary: l now0)
  case Nil
  then show ?case using budget_nonneg[of now0 l k] by simp
next
  case (Cons ev evs)
  obtain now key where ev: "ev = (now, key)" by (cases ev)
  have ok: "limiter_ok now l" and le: "now0 \<le> now" "now \<le> T"
    using Cons.prems limiter_ok_mono[of now0 l now] by (auto simp: ev)
  have room: "key \<in> set (keys_of l) \<or> length (entries l) < maxEntries l"
  proof (rule disjCI)
    assume "\<not> length (entries l) < maxEntries l"
    then have "card K \<le> card (set (keys_of l))"
      using Cons.prems ok distinct_card[of "keys_of l"] by (auto simp: limiter_ok_def table_ok_def keys_of_def)
    then have "set (keys_of l) = K" using Cons.prems by (meson card_seteq)
    then show "key \<in> set (keys_of l)" using Cons.prems by (auto simp: ev)
  qed
  note a = allow_budget[OF ok room]
  let ?l = "snd (allow now key l)"
  have "int (logged k evs ?l) * lwindow ?l \<le> budget now ?l k + (T - now)"
    by (rule Cons.IH) (use Cons.prems a(1,3) in \<open>auto simp: ev\<close>)
  moreover note a(2)[of k] budget_later[OF le(1), of l k]
  ultimately show ?case by (auto simp: ev distrib_right split: if_splits)
qed

lemma new_limiter_ok: "table_ok newConnectProxyErrorLogLimiterWithNow" "limiter_ok now newConnectProxyErrorLogLimiterWithNow"
  by (auto simp: limiter_ok_def table_ok_def keys_of_def newConnectProxyErrorLogLimiterWithNow_def limiter_consts)

text \<open>C37: Repeated CONNECT errors cannot flood the log and cannot grow the limiter's table. In any
  run of a new limiter the table never has more than 1024 entries. When the clock does not go
  back and at most 1024 different rule/target/protocol/class tuples occur, every tuple is logged
  at most twice plus once per complete 10 s window between the first and the last event,
  whatever the interleaving with other tuples and although idle entries are reclaimed and start
  again with a full bucket.\<close>

theorem log_rate_bounded:
  fixes evs :: "log_event list"
  assumes "evs \<noteq> []" "sorted (map fst evs)" "card (snd ` set evs) \<le> connectProxyErrorLogMaxEntries"
  shows "int (logged k evs newConnectProxyErrorLogLimiterWithNow)
           \<le> connectProxyErrorLogBurst + (fst (last evs) - fst (hd evs)) div connectProxyErrorLogWindow
    \<and> length (entries (snd (log_run any_evs newConnectProxyErrorLogLimiterWithNow))) \<le> connectProxyErrorLogMaxEntries"
proof (rule conjI)
  let ?l = newConnectProxyErrorLogLimiterWithNow
  have le: "\<forall>(t, key) \<in> set evs. t \<le> fst (last evs)"
    using assms(1,2) by (induction evs) (auto split: if_splits)
  have s: "sorted (fst (hd evs) # map fst evs)" using assms(1,2) by (cases evs) auto
  have "fst (hd evs) \<le> fst (last evs)" using le assms(1) by (cases evs) auto
  then have "int (logged k evs ?l) * lwindow ?l \<le> budget (fst (hd evs)) ?l k + (fst (last evs) - fst (hd evs))"
    by (intro logged_budget[OF new_limiter_ok(2) s le, of "snd ` set evs"])
      (use assms(3) in \<open>auto simp: keys_of_def newConnectProxyErrorLogLimiterWithNow_def\<close>)
  then show "int (logged k evs ?l) \<le> connectProxyErrorLogBurst + (fst (last evs) - fst (hd evs)) div connectProxyErrorLogWindow"
    by (simp add: budget_def newConnectProxyErrorLogLimiterWithNow_def limiter_consts)
  have "maxEntries (snd (log_run es l)) = maxEntries l" for es l
    by (induction es arbitrary: l) (auto simp: Let_def split_def)
  then show "length (entries (snd (log_run any_evs ?l))) \<le> connectProxyErrorLogMaxEntries"
    using log_run_table_ok[OF new_limiter_ok(1), of any_evs]
    by (simp add: table_ok_def newConnectProxyErrorLogLimiterWithNow_def)
qed

definition wit_log_key :: "string \<Rightarrow> connectProxyErrorLogKey" where
  "wit_log_key c = \<lparr>lkRule = ''r'', lkTarget = ''a:1'', lkProtocol = ''h3'', lkClass = c\<rparr>"

definition wit_log_events :: "log_event list" where
  "wit_log_events = map (\<lambda>(t, c). (t * second, wit_log_key c))
     [(1, ''x''), (1, ''x''), (2, ''y''), (2, ''x''), (11, ''x''), (12, ''x'')]"

theorem log_rate_bounded_witness:
  "logged (wit_log_key ''x'') wit_log_events newConnectProxyErrorLogLimiterWithNow = 3
   \<and> int (logged (wit_log_key ''x'') wit_log_events newConnectProxyErrorLogLimiterWithNow)
        \<le> connectProxyErrorLogBurst + (12 * second - 1 * second) div connectProxyErrorLogWindow"
proof
  show "logged (wit_log_key ''x'') wit_log_events newConnectProxyErrorLogLimiterWithNow = 3" by code_simp
  have "wit_log_events \<noteq> []" "sorted (map fst wit_log_events)" "card (snd ` set wit_log_events) \<le> connectProxyErrorLogMaxEntries"
    by code_simp+
  from conjunct1[OF log_rate_bounded[OF this, of "wit_log_key ''x''"]]
  show "int (logged (wit_log_key ''x'') wit_log_events newConnectProxyErrorLogLimiterWithNow)
        \<le> connectProxyErrorLogBurst + (12 * second - 1 * second) div connectProxyErrorLogWindow"
    by (simp add: wit_log_events_def)
qed

section \<open>Eviction\<close>

lemma oldest_loop_min:
  "oldest_loop es found = Some (k, u) \<Longrightarrow>
     (\<forall>(k', e) \<in> set es. u \<le> lastUsed e) \<and> (case found of None \<Rightarrow> True | Some (k', u') \<Rightarrow> u \<le> u')"
  by (induction es found rule: oldest_loop.induct) (fastforce split: option.splits if_splits)+

text \<open>Whatever order the map iteration takes, the entry removed is the least recently used one.\<close>

lemma evict_order_independent:
  assumes "distinct (map (lastUsed \<circ> snd) (entries l))" "mset (entries l') = mset (entries l)"
  shows "mset (entries (evictOldestLocked l')) = mset (entries (evictOldestLocked l))"
proof (cases "entries l = []")
  case False
  then have ne: "entries l' \<noteq> []" using assms(2) by auto
  have s: "set (entries l') = set (entries l)" using assms(2) by (metis set_mset_mset)
  obtain k u where o: "oldest_loop (entries l) None = Some (k, u)"
    using False oldest_loop_None[of "entries l" None] by (cases "oldest_loop (entries l) None") auto
  obtain k' u' where o': "oldest_loop (entries l') None = Some (k', u')"
    using ne oldest_loop_None[of "entries l'" None] by (cases "oldest_loop (entries l') None") auto
  obtain e e' where e: "(k, e) \<in> set (entries l)" "u = lastUsed e" "(k', e') \<in> set (entries l)" "u' = lastUsed e'"
    using oldest_loop_Some[OF o] oldest_loop_Some[OF o'] s by auto
  have "u \<le> u'" "u' \<le> u" using oldest_loop_min[OF o] oldest_loop_min[OF o'] e s by auto
  then have eq: "(lastUsed \<circ> snd) (k, e) = (lastUsed \<circ> snd) (k', e')" using e(2,4) by simp
  have "inj_on (lastUsed \<circ> snd) (set (entries l))" using assms(1) by (simp add: distinct_map)
  from inj_onD[OF this eq e(1,3)] have "k = k'" by simp
  then show ?thesis using assms(2) by (simp add: evictOldestLocked_def o o' mset_filter)
qed (use assms(2) in \<open>simp add: evictOldestLocked_def\<close>)

section \<open>The reported count\<close>

text \<open>
  The comment on \<^verbatim>\<open>allow\<close> says that the reported count is the number of matching events omitted
  since the preceding allowed log. A reclaimed entry forgets it: below, the third event is
  suppressed and the fourth, five minutes later, is logged with the count 0.
\<close>

lemma reclaim_forgets_suppressed:
  "map fst (fst (log_run (map (\<lambda>t. (t * second, wit_log_key ''x'')) [1, 1, 1, 301]) newConnectProxyErrorLogLimiterWithNow))
     = [True, True, False, True]"
  "map snd (fst (log_run (map (\<lambda>t. (t * second, wit_log_key ''x'')) [1, 1, 1, 301]) newConnectProxyErrorLogLimiterWithNow))
     = [0, 0, 0, 0]"
  by code_simp+

end
