(* ===== verification/Server_Machine.thy ===== *)
theory Server_Machine
  imports Config_Validation "HOL-Library.AList"
begin

text \<open>
  The server (\<^verbatim>\<open>controller/server.go\<close>, \<^verbatim>\<open>generation.go\<close>, \<^verbatim>\<open>server_reload.go\<close>,
  \<^verbatim>\<open>connect_proxy_user_agent.go\<close>): admission of connections, leases on routing generations, and
  hot reload.

  Generations and admission counters are heap objects, named by their identifier. Every mutex
  section and every atomic load is one step; the steps of accepted connections, of running
  \<^verbatim>\<open>retire\<close>, \<^verbatim>\<open>cleanup\<close> and watcher goroutines, of one reload and of shutdown interleave freely.
  A Go map is an association list with distinct keys. Arguments stand for the environment:
  \<open>compiles\<close> for \<^verbatim>\<open>regexp.Compile\<close>, \<open>digest\<close> for the SHA-256 of the JSON form of the rules, \<open>pick\<close> for
  \<^verbatim>\<open>rand.IntN\<close>, \<open>listens\<close> for the result of binding a socket, and booleans for cancelled contexts.
  The sockets themselves, the metrics server, the routing runtime a generation owns and the
  drain timers of \<^verbatim>\<open>Serve\<close> are not part of the state.
\<close>

section \<open>Admission counters\<close>

definition serverGlobalConnectionLimit :: nat where "serverGlobalConnectionLimit = 4096"
definition maxRetiredGenerations :: nat where "maxRetiredGenerations = 8"
definition acceptRetryInitialDelay :: duration where "acceptRetryInitialDelay = 5 * millisecond"
definition acceptRetryMaximumDelay :: duration where "acceptRetryMaximumDelay = second"

lemmas server_consts [go_consts] = serverGlobalConnectionLimit_def maxRetiredGenerations_def
  acceptRetryInitialDelay_def acceptRetryMaximumDelay_def

record listenerAdmission =
  perIP :: "(addr \<times> int) list"
  admActive :: int

definition new_admission :: listenerAdmission where
  "new_admission = \<lparr>perIP = [], admActive = 0\<rparr>"

definition ip_count :: "listenerAdmission \<Rightarrow> addr \<Rightarrow> int" where
  "ip_count a ip = (case map_of (perIP a) ip of Some n \<Rightarrow> n | None \<Rightarrow> 0)"

definition reserveRule :: "Rule \<Rightarrow> listenerAdmission \<Rightarrow> bool \<times> listenerAdmission" where
  "reserveRule rule s =
     (if MaxConnections rule > 0 \<and> admActive s \<ge> MaxConnections rule then (False, s)
      else (True, s\<lparr>admActive := admActive s + 1\<rparr>))"

definition assignReservedIP :: "Rule \<Rightarrow> addr \<Rightarrow> listenerAdmission \<Rightarrow> bool \<times> listenerAdmission" where
  "assignReservedIP rule ip s =
     (if ip = NoAddr then (False, s)
      else if MaxConnectionsPerIP rule > 0 \<and> ip_count s ip \<ge> MaxConnectionsPerIP rule then (False, s)
      else (True, s\<lparr>perIP := AList.update ip (ip_count s ip + 1) (perIP s)\<rparr>))"

definition releasePending :: "listenerAdmission \<Rightarrow> listenerAdmission" where
  "releasePending s = (if admActive s > 0 then s\<lparr>admActive := admActive s - 1\<rparr> else s)"

definition releaseRule :: "addr \<Rightarrow> listenerAdmission \<Rightarrow> listenerAdmission" where
  "releaseRule ip s =
     (let s = (if admActive s > 0 then s\<lparr>admActive := admActive s - 1\<rparr> else s)
      in if ip_count s ip \<le> 1 then s\<lparr>perIP := AList.delete ip (perIP s)\<rparr>
         else s\<lparr>perIP := AList.update ip (ip_count s ip - 1) (perIP s)\<rparr>)"

definition idle :: "listenerAdmission \<Rightarrow> bool" where
  "idle s \<longleftrightarrow> admActive s = 0"

section \<open>Accept loop helpers\<close>

text \<open>The delay before the next \<^verbatim>\<open>Accept\<close> after a retryable error.\<close>

definition next_accept_delay :: "duration \<Rightarrow> duration" where
  "next_accept_delay d =
     (if d = 0 then acceptRetryInitialDelay
      else let d = d * 2 in if d > acceptRetryMaximumDelay then acceptRetryMaximumDelay else d)"

definition runtimeListenerKey :: "string \<Rightarrow> string \<Rightarrow> string" where
  "runtimeListenerKey configured actual = (case split_host_port configured of
       None \<Rightarrow> configured
     | Some (host, portText) \<Rightarrow> if atoi portText = Some 0 then actual else configured)"

definition endpointPortIsZero :: "string \<Rightarrow> bool" where
  "endpointPortIsZero value = (case split_host_port value of
       None \<Rightarrow> False
     | Some (host, portText) \<Rightarrow> atoi portText = Some 0)"

definition validateMetricsListen :: "string \<Rightarrow> string option" where
  "validateMetricsListen value = (case split_host_port value of
       None \<Rightarrow> Some ''invalid metrics listen''
     | Some (host, portText) \<Rightarrow> (case parse_addr host of
         None \<Rightarrow> Some ''metrics listen must use a numeric loopback address''
       | Some addr \<Rightarrow>
           if \<not> is_loopback (unmap addr) then Some ''metrics listen must use a numeric loopback address''
           else (case atoi portText of
             None \<Rightarrow> Some ''invalid metrics listen: port must be between 0 and 65535''
           | Some port \<Rightarrow> if port < 0 \<or> port > 65535
               then Some ''invalid metrics listen: port must be between 0 and 65535'' else None)))"

text \<open>The peer of a connection: the raw IP of a TCP address, or a host:port text.\<close>

datatype remote_addr = TCPAddr "byte list" | OtherAddr string

definition remoteIP :: "remote_addr \<Rightarrow> addr option" where
  "remoteIP ra = (case ra of
       TCPAddr ip \<Rightarrow>
         if length ip = 4 then Some (Addr4 ip)
         else if length ip = 16 then Some (unmap (Addr6 ip '''')) else None
     | OtherAddr s \<Rightarrow> (case split_host_port s of
         None \<Rightarrow> None
       | Some (host, port) \<Rightarrow> map_option unmap (parse_addr host)))"

section \<open>User agents\<close>

definition selectConnectProxyUserAgent :: "(nat \<Rightarrow> nat) \<Rightarrow> string list \<Rightarrow> string \<Rightarrow> string" where
  "selectConnectProxyUserAgent pick userAgents preferred =
     (if preferred \<noteq> '''' \<and> preferred \<in> set userAgents then preferred
      else if userAgents = [] then ''''
      else userAgents ! pick (length userAgents))"

section \<open>Generations\<close>

record ruleBinding =
  brule :: Rule
  connectProxyUserAgent :: string

record routingGeneration =
  genId :: u64
  fingerprint :: nat
  genRules :: "Rule list"
  bindings :: "(string \<times> ruleBinding) list"
  genRetired :: bool
  backgroundStopped :: bool
  refs :: int
  genDone :: bool

text \<open>The loop over the rules of a new generation; \<open>pick i\<close> is the random choice for rule \<open>i\<close>.\<close>

fun bind_loop ::
  "(nat \<Rightarrow> nat \<Rightarrow> nat) \<Rightarrow> nat \<Rightarrow> (Rule \<times> string) list \<Rightarrow> (string \<times> ruleBinding) list \<Rightarrow> string + (string \<times> ruleBinding) list" where
  "bind_loop pick i [] bs = Inr bs"
| "bind_loop pick i ((rule, key) # rest) bs =
     (if key = '''' then Inl ''empty listener key''
      else if map_of bs key \<noteq> None then Inl ''duplicate listener key''
      else bind_loop pick (i + 1) rest
        (bs @ [(key, \<lparr>brule = rule, connectProxyUserAgent =
           (if IsConnectProtocol (Protocol rule) then selectConnectProxyUserAgent (pick i) (UserAgent rule) '''' else '''')\<rparr>)]))"

definition newRoutingGeneration ::
  "(string \<Rightarrow> bool) \<Rightarrow> (Rule list \<Rightarrow> nat) \<Rightarrow> (nat \<Rightarrow> nat \<Rightarrow> nat) \<Rightarrow> u64 \<Rightarrow> Rule option list \<Rightarrow> string list \<Rightarrow>
     string + routingGeneration" where
  "newRoutingGeneration compiles digest pick ident rules listenerKeys =
     (if length listenerKeys \<noteq> length rules then Inl ''listener key count does not match rule count''
      else case PrepareRuntimeRules compiles rules of
        Inl e \<Rightarrow> Inl e
      | Inr clone \<Rightarrow>
          let clone = map the clone
          in case bind_loop pick 0 (zip clone listenerKeys) [] of
            Inl e \<Rightarrow> Inl e
          | Inr bs \<Rightarrow> Inr \<lparr>genId = ident, fingerprint = digest clone, genRules = clone, bindings = bs,
              genRetired = False, backgroundStopped = False, refs = 0, genDone = False\<rparr>)"

definition tryAcquire :: "routingGeneration \<Rightarrow> bool \<times> routingGeneration" where
  "tryAcquire g = (if genRetired g then (False, g) else (True, g\<lparr>refs := refs g + 1\<rparr>))"

text \<open>\<^verbatim>\<open>release\<close>: the generation, and whether the caller goes on to \<^verbatim>\<open>cleanup\<close>.\<close>

definition releaseLease :: "routingGeneration \<Rightarrow> bool \<times> routingGeneration" where
  "releaseLease g =
     (let g = (if refs g > 0 then g\<lparr>refs := refs g - 1\<rparr> else g)
      in (genRetired g \<and> backgroundStopped g \<and> refs g = 0, g))"

text \<open>The two sections of \<^verbatim>\<open>retire\<close>: whether it goes on, and whether it ends in \<^verbatim>\<open>cleanup\<close>.\<close>

definition retire_mark :: "routingGeneration \<Rightarrow> bool \<times> routingGeneration" where
  "retire_mark g = (if genRetired g then (False, g) else (True, g\<lparr>genRetired := True\<rparr>))"

definition retire_stopped :: "routingGeneration \<Rightarrow> bool \<times> routingGeneration" where
  "retire_stopped g = (refs g = 0, g\<lparr>backgroundStopped := True\<rparr>)"

definition cleanup :: "routingGeneration \<Rightarrow> routingGeneration" where
  "cleanup g = g\<lparr>genDone := True\<rparr>"

definition prev_agent :: "routingGeneration \<Rightarrow> string \<Rightarrow> string" where
  "prev_agent previous name =
     (case find (\<lambda>(key, b). IsConnectProtocol (Protocol (brule b)) \<and> Name (brule b) = name) (bindings previous) of
        Some (key, b) \<Rightarrow> connectProxyUserAgent b | None \<Rightarrow> '''')"

definition preserveConnectProxyUserAgentSelections ::
  "(string \<Rightarrow> nat \<Rightarrow> nat) \<Rightarrow> routingGeneration \<Rightarrow> routingGeneration \<Rightarrow> routingGeneration" where
  "preserveConnectProxyUserAgentSelections pick previous next_gen =
     next_gen\<lparr>bindings := map (\<lambda>(key, b). (key,
        if IsConnectProtocol (Protocol (brule b))
        then b\<lparr>connectProxyUserAgent := selectConnectProxyUserAgent (pick (Name (brule b))) (UserAgent (brule b)) (prev_agent previous (Name (brule b)))\<rparr>
        else b)) (bindings next_gen)\<rparr>"

section \<open>The server\<close>

text \<open>\<open>gens\<close> and \<open>admissions\<close> are the heap of generation and admission objects; an entry of
  \<open>listenersByKey\<close> is an open listener with its admission object.\<close>

record Server =
  current :: "u64 option"
  gens :: "u64 \<rightharpoonup> routingGeneration"
  listenersByKey :: "(string \<times> nat) list"
  admissionsByKey :: "(string \<times> nat) list"
  admissions :: "nat \<rightharpoonup> listenerAdmission"
  nextAdmission :: nat
  globalUsed :: nat
  retired :: "u64 list"
  ready :: bool
  serveStarted :: bool
  closed :: bool

definition putGen :: "u64 \<Rightarrow> routingGeneration \<Rightarrow> Server \<Rightarrow> Server" where
  "putGen i g s = s\<lparr>gens := (gens s)(i \<mapsto> g)\<rparr>"

definition putAdm :: "nat \<Rightarrow> listenerAdmission \<Rightarrow> Server \<Rightarrow> Server" where
  "putAdm i a s = s\<lparr>admissions := (admissions s)(i \<mapsto> a)\<rparr>"

definition uses_key :: "Server \<Rightarrow> string \<Rightarrow> u64 \<Rightarrow> bool" where
  "uses_key s key i = (case gens s i of Some g \<Rightarrow> map_of (bindings g) key \<noteq> None | None \<Rightarrow> False)"

definition is_done :: "Server \<Rightarrow> u64 \<Rightarrow> bool" where
  "is_done s i = (case gens s i of Some g \<Rightarrow> genDone g | None \<Rightarrow> True)"

definition admitGlobal :: "Server \<Rightarrow> bool \<times> Server" where
  "admitGlobal s = (if globalUsed s < serverGlobalConnectionLimit then (True, s\<lparr>globalUsed := globalUsed s + 1\<rparr>) else (False, s))"

definition releaseGlobal :: "Server \<Rightarrow> Server" where
  "releaseGlobal s = s\<lparr>globalUsed := globalUsed s - 1\<rparr>"

definition pruneCompletedRetiredLocked :: "Server \<Rightarrow> Server" where
  "pruneCompletedRetiredLocked s = s\<lparr>retired := filter (\<lambda>i. \<not> is_done s i) (retired s)\<rparr>"

definition retiredCount :: "Server \<Rightarrow> nat \<times> Server" where
  "retiredCount s = (let s = pruneCompletedRetiredLocked s in (length (retired s), s))"

definition trackRetired :: "u64 \<Rightarrow> Server \<Rightarrow> Server" where
  "trackRetired i s = s\<lparr>retired := retired s @ [i]\<rparr>"

text \<open>Whether the current generation or a retired one that is not yet cleaned binds the key.\<close>

definition key_in_use :: "Server \<Rightarrow> string \<Rightarrow> bool" where
  "key_in_use s key \<longleftrightarrow> (case current s of Some i \<Rightarrow> uses_key s key i | None \<Rightarrow> False)
     \<or> list_ex (\<lambda>i. \<not> is_done s i \<and> uses_key s key i) (retired s)"

definition adm_idle :: "Server \<Rightarrow> nat \<Rightarrow> bool" where
  "adm_idle s a = (case admissions s a of Some x \<Rightarrow> idle x | None \<Rightarrow> True)"

definition maybeCleanupAdmission :: "string \<Rightarrow> nat \<Rightarrow> Server \<Rightarrow> Server" where
  "maybeCleanupAdmission key a s =
     (if map_of (admissionsByKey s) key \<noteq> Some a \<or> \<not> adm_idle s a then s
      else if key_in_use s key then s
      else s\<lparr>admissionsByKey := AList.delete key (admissionsByKey s)\<rparr>)"

definition pruneAdmissions :: "Server \<Rightarrow> Server" where
  "pruneAdmissions s = s\<lparr>admissionsByKey := filter (\<lambda>(key, a). key_in_use s key \<or> \<not> adm_idle s a) (admissionsByKey s)\<rparr>"

section \<open>Reload\<close>

text \<open>What a reload has prepared when it reaches its commit section: \<open>planStaged\<close> are the new
  listeners with their admission objects.\<close>

record reload_plan =
  planOld :: u64
  planNext :: routingGeneration
  planStaged :: "(string \<times> nat) list"
  planReused :: "string list"
  planRemoved :: "string list"

datatype reload_outcome = ReloadError string | ReloadNoop | ReloadPlanned reload_plan

fun reload_keys :: "Rule option list \<Rightarrow> string + string list" where
  "reload_keys [] = Inr []"
| "reload_keys (None # rules) = Inl ''rule is null''"
| "reload_keys (Some rule # rules) =
     (if endpointPortIsZero (Listen rule) then Inl ''reload does not support ephemeral listen address''
      else case reload_keys rules of Inl e \<Rightarrow> Inl e | Inr keys \<Rightarrow> Inr (Listen rule # keys))"

text \<open>Binding the new listeners one after another; a new listener takes the admission object its
  address had before, or a fresh one.\<close>

fun stage_loop ::
  "(string \<Rightarrow> bool) \<Rightarrow> (string \<times> nat) list \<Rightarrow> string list \<Rightarrow> (string \<times> nat) list \<Rightarrow> string list \<Rightarrow> Server \<Rightarrow>
     (string + (string \<times> nat) list \<times> string list) \<times> Server" where
  "stage_loop listens existing [] staged reused s = (Inr (staged, reused), s)"
| "stage_loop listens existing (key # keys) staged reused s =
     (if map_of existing key \<noteq> None then stage_loop listens existing keys staged (reused @ [key]) s
      else if \<not> listens key then (Inl ''stage listener'', s)
      else case map_of (admissionsByKey s) key of
        Some a \<Rightarrow> stage_loop listens existing keys (staged @ [(key, a)]) reused s
      | None \<Rightarrow> stage_loop listens existing keys (staged @ [(key, nextAdmission s)]) reused
          (s\<lparr>admissions := (admissions s)(nextAdmission s \<mapsto> new_admission), nextAdmission := nextAdmission s + 1\<rparr>))"

text \<open>
  \<^verbatim>\<open>ReloadRules\<close> up to the commit section, as one step: \<^verbatim>\<open>reloadMu\<close> keeps other reloads out, and only
  a reload writes the current generation and the listener table.
\<close>

definition prepareReload ::
  "(string \<Rightarrow> bool) \<Rightarrow> (Rule list \<Rightarrow> nat) \<Rightarrow> (nat \<Rightarrow> nat \<Rightarrow> nat) \<Rightarrow> (string \<Rightarrow> nat \<Rightarrow> nat) \<Rightarrow> (string \<Rightarrow> bool) \<Rightarrow> bool \<Rightarrow> Rule option list \<Rightarrow> Server \<Rightarrow>
     reload_outcome \<times> Server" where
  "prepareReload compiles digest pick repick listens cancelled rules s = (case reload_keys rules of
       Inl e \<Rightarrow> (ReloadError e, s)
     | Inr keys \<Rightarrow> (case current s of
         None \<Rightarrow> (ReloadError ''server has no active routing generation'', s)
       | Some old \<Rightarrow> (case gens s old of
           None \<Rightarrow> (ReloadError ''server has no active routing generation'', s)
         | Some oldGen \<Rightarrow>
             if old + 1 \<le> old then (ReloadError ''routing generation counter overflow'', s)
             else case newRoutingGeneration compiles digest pick (old + 1) rules keys of
               Inl e \<Rightarrow> (ReloadError e, s)
             | Inr next_gen \<Rightarrow>
                 let next_gen = preserveConnectProxyUserAgentSelections repick oldGen next_gen
                 in if fingerprint next_gen = fingerprint oldGen then (ReloadNoop, s)
                    else
                      let (n, s) = retiredCount s
                      in if n \<ge> maxRetiredGenerations
                         then (ReloadError ''reload rejected: routing generations are still draining'', s)
                         else if closed s then (ReloadError ''server is closed'', s)
                         else case stage_loop listens (listenersByKey s) keys [] [] s of
                           (Inl e, s) \<Rightarrow> (ReloadError e, s)
                         | (Inr (staged, reused), s) \<Rightarrow>
                             if cancelled then (ReloadError ''reload cancelled before commit'', s)
                             else (ReloadPlanned \<lparr>planOld = old, planNext = next_gen, planStaged = staged, planReused = reused,
                               planRemoved = filter (\<lambda>key. map_of (bindings next_gen) key = None) (map fst (listenersByKey s))\<rparr>, s))))"

text \<open>The commit section. On success the caller goes on to retire the old generation.\<close>

definition commitReload :: "bool \<Rightarrow> reload_plan \<Rightarrow> Server \<Rightarrow> string option \<times> Server" where
  "commitReload cancelled p s =
     (if cancelled then (Some ''reload cancelled before commit'', s)
      else if closed s then (Some ''server closed before reload commit'', s)
      else if current s \<noteq> Some (planOld p) then (Some ''routing generation changed during reload'', s)
      else
        let s = s\<lparr>listenersByKey := AList.updates (map fst (planStaged p)) (map snd (planStaged p)) (listenersByKey s),
                  admissionsByKey := AList.updates (map fst (planStaged p)) (map snd (planStaged p)) (admissionsByKey s)\<rparr>;
            s = putGen (genId (planNext p)) (planNext p) s;
            s = s\<lparr>current := Some (genId (planNext p))\<rparr>;
            s = s\<lparr>listenersByKey := filter (\<lambda>(key, a). key \<notin> set (planRemoved p)) (listenersByKey s)\<rparr>
        in (None, trackRetired (planOld p) s))"

section \<open>Start and shutdown\<close>

fun start_loop :: "(string \<Rightarrow> bool) \<Rightarrow> (string \<Rightarrow> string) \<Rightarrow> Rule list \<Rightarrow> Server \<Rightarrow> string + Server" where
  "start_loop listens actual [] s = Inr s"
| "start_loop listens actual (rule # rest) s =
     (if \<not> listens (Listen rule) then Inl ''listen''
      else
        let key = runtimeListenerKey (Listen rule) (actual (Listen rule))
        in if map_of (listenersByKey s) key \<noteq> None then Inl ''duplicate runtime listener key''
           else start_loop listens actual rest
             (s\<lparr>listenersByKey := listenersByKey s @ [(key, nextAdmission s)],
                admissionsByKey := admissionsByKey s @ [(key, nextAdmission s)],
                admissions := (admissions s)(nextAdmission s \<mapsto> new_admission), nextAdmission := nextAdmission s + 1\<rparr>))"

definition empty_server :: Server where
  "empty_server = \<lparr>current = None, gens = Map.empty, listenersByKey = [], admissionsByKey = [], admissions = Map.empty,
     nextAdmission = 0, globalUsed = 0, retired = [], ready = False, serveStarted = False, closed = False\<rparr>"

definition NewServerWithMetrics ::
  "(string \<Rightarrow> bool) \<Rightarrow> (Rule list \<Rightarrow> nat) \<Rightarrow> (nat \<Rightarrow> nat \<Rightarrow> nat) \<Rightarrow> (string \<Rightarrow> bool) \<Rightarrow> (string \<Rightarrow> string) \<Rightarrow> Rule option list \<Rightarrow> string \<Rightarrow>
     string + Server" where
  "NewServerWithMetrics compiles digest pick listens actual rules metricsListen = (case PrepareRuntimeRules compiles rules of
       Inl e \<Rightarrow> Inl e
     | Inr rules \<Rightarrow> (case (if metricsListen = '''' then None else validateMetricsListen metricsListen) of
         Some e \<Rightarrow> Inl e
       | None \<Rightarrow> (case start_loop listens actual (map the rules) empty_server of
           Inl e \<Rightarrow> Inl e
         | Inr s \<Rightarrow> (case newRoutingGeneration compiles digest pick 1 rules (map fst (listenersByKey s)) of
             Inl e \<Rightarrow> Inl e
           | Inr g \<Rightarrow>
               if metricsListen \<noteq> '''' \<and> \<not> listens metricsListen then Inl ''listen metrics''
               else Inr (putGen 1 g s\<lparr>current := Some 1\<rparr>)))))"

text \<open>\<^verbatim>\<open>Close\<close> up to the unlock: the generation it goes on to retire.\<close>

definition closeServer :: "Server \<Rightarrow> u64 option \<times> Server" where
  "closeServer s = (if closed s then (None, s) else (current s, s\<lparr>closed := True, ready := False\<rparr>))"

text \<open>The start section of \<^verbatim>\<open>Serve\<close>.\<close>

definition startServe :: "bool \<Rightarrow> Server \<Rightarrow> bool \<times> Server" where
  "startServe cancelled s =
     (if closed s \<or> serveStarted s then (False, s)
      else let s = s\<lparr>serveStarted := True\<rparr> in if cancelled then (False, s) else (True, s\<lparr>ready := True\<rparr>))"

definition Generation :: "Server \<Rightarrow> u64" where
  "Generation s = (case current s of Some i \<Rightarrow> i | None \<Rightarrow> 0)"

section \<open>The machine\<close>

text \<open>
  Where an accepted connection is: its listener's address and admission object, then the
  generation it has loaded, leased for a moment (\<open>Acquired\<close>), or leased for good (\<open>Bound\<close>). After
  \<open>Bound\<close> it takes a global slot, a slot of its rule and a slot of its client address; \<open>Refused\<close>
  to \<open>Leaving\<close> are the deferred releases, in the order they run.
\<close>

datatype conn_state =
    Accepted string nat
  | Loaded string nat u64
  | Acquired string nat u64
  | Bound string nat u64
  | Admitted string nat u64 addr
  | Reserved string nat u64 addr
  | Assigned string nat u64 addr
  | Refused string nat u64
  | Swept string nat u64
  | Unglobal u64
  | Leaving u64
  | Gone

datatype server_task = RetireMark u64 | RetireStop u64 | Cleanup u64 | Watch u64 | Prune

record server_sys =
  srv :: Server
  conns :: "conn_state list"
  tasks :: "server_task list"
  plan :: "reload_plan option"

definition rule_of :: "Server \<Rightarrow> string \<Rightarrow> u64 \<Rightarrow> Rule option" where
  "rule_of s key i = (case gens s i of Some g \<Rightarrow> map_option brule (map_of (bindings g) key) | None \<Rightarrow> None)"

text \<open>The three sections of \<^verbatim>\<open>acquireBinding\<close>.\<close>

definition load_binding :: "string \<Rightarrow> nat \<Rightarrow> Server \<Rightarrow> conn_state" where
  "load_binding key a s = (case current s of
       None \<Rightarrow> Gone
     | Some i \<Rightarrow> if uses_key s key i then Loaded key a i else Gone)"

definition try_binding :: "string \<Rightarrow> nat \<Rightarrow> u64 \<Rightarrow> Server \<Rightarrow> conn_state \<times> Server" where
  "try_binding key a i s = (case gens s i of
       None \<Rightarrow> (Gone, s)
     | Some g \<Rightarrow>
         let (ok, g) = tryAcquire g
         in if ok then (Acquired key a i, putGen i g s)
            else (if current s = Some i then Gone else Accepted key a, s))"

definition drop_lease :: "u64 \<Rightarrow> Server \<Rightarrow> server_task list \<times> Server" where
  "drop_lease i s = (case gens s i of
       None \<Rightarrow> ([], s)
     | Some g \<Rightarrow> let (clean, g) = releaseLease g in (if clean then [Cleanup i] else [], putGen i g s))"

definition confirm_binding :: "string \<Rightarrow> nat \<Rightarrow> u64 \<Rightarrow> Server \<Rightarrow> conn_state \<times> server_task list \<times> Server" where
  "confirm_binding key a i s =
     (if current s = Some i then (Bound key a i, [], s)
      else let (ts, s) = drop_lease i s in (Accepted key a, ts, s))"

text \<open>The checks of the accept loop between the lease and the slot of the rule.\<close>

definition admit_conn :: "remote_addr \<Rightarrow> string \<Rightarrow> nat \<Rightarrow> u64 \<Rightarrow> Server \<Rightarrow> conn_state \<times> Server" where
  "admit_conn peer key a i s = (case rule_of s key i of
       None \<Rightarrow> (Leaving i, s)
     | Some rule \<Rightarrow> (case remoteIP peer of
         None \<Rightarrow> (Leaving i, s)
       | Some ip \<Rightarrow>
           if (case ProxyProtocol rule of Some pp \<Rightarrow> Accept pp \<and> \<not> Trusts pp ip | None \<Rightarrow> False) then (Leaving i, s)
           else let (ok, s) = admitGlobal s in (if ok then Admitted key a i ip else Leaving i, s)))"

definition reserve_conn :: "string \<Rightarrow> nat \<Rightarrow> u64 \<Rightarrow> addr \<Rightarrow> Server \<Rightarrow> conn_state \<times> Server" where
  "reserve_conn key a i ip s = (case (rule_of s key i, admissions s a) of
       (Some rule, Some adm) \<Rightarrow>
         let (ok, adm) = reserveRule rule adm
         in if ok then (Reserved key a i ip, putAdm a adm s) else (Unglobal i, s)
     | _ \<Rightarrow> (Unglobal i, s))"

text \<open>The connection's goroutine up to the dispatch; \<open>client\<close> is the result of
  \<^verbatim>\<open>prepareInboundProxyProtocol\<close>.\<close>

definition assign_conn :: "addr option \<Rightarrow> string \<Rightarrow> nat \<Rightarrow> u64 \<Rightarrow> Server \<Rightarrow> conn_state \<times> Server" where
  "assign_conn client key a i s = (case (client, rule_of s key i, admissions s a) of
       (Some ip, Some rule, Some adm) \<Rightarrow>
         if Blocked rule ip \<or> \<not> Allows rule ip then (Refused key a i, s)
         else let (ok, adm) = assignReservedIP rule ip adm
           in if ok then (Assigned key a i ip, putAdm a adm s) else (Refused key a i, s)
     | _ \<Rightarrow> (Refused key a i, s))"

definition on_adm :: "nat \<Rightarrow> (listenerAdmission \<Rightarrow> listenerAdmission) \<Rightarrow> Server \<Rightarrow> Server" where
  "on_adm a f s = (case admissions s a of Some adm \<Rightarrow> putAdm a (f adm) s | None \<Rightarrow> s)"

text \<open>One step of a connection: its new place, new tasks and the server.\<close>

definition conn_step :: "remote_addr \<Rightarrow> addr option \<Rightarrow> conn_state \<Rightarrow> Server \<Rightarrow> conn_state \<times> server_task list \<times> Server" where
  "conn_step peer client c s = (case c of
       Accepted key a \<Rightarrow> (load_binding key a s, [], s)
     | Loaded key a i \<Rightarrow> (let (c, s) = try_binding key a i s in (c, [], s))
     | Acquired key a i \<Rightarrow> confirm_binding key a i s
     | Bound key a i \<Rightarrow> (let (c, s) = admit_conn peer key a i s in (c, [], s))
     | Admitted key a i ip \<Rightarrow> (let (c, s) = reserve_conn key a i ip s in (c, [], s))
     | Reserved key a i ip \<Rightarrow> (let (c, s) = assign_conn client key a i s in (c, [], s))
     | Assigned key a i ip \<Rightarrow> (Swept key a i, [], on_adm a (releaseRule ip) s)
     | Refused key a i \<Rightarrow> (Swept key a i, [], on_adm a releasePending s)
     | Swept key a i \<Rightarrow> (Unglobal i, [], maybeCleanupAdmission key a s)
     | Unglobal i \<Rightarrow> (Leaving i, [], releaseGlobal s)
     | Leaving i \<Rightarrow> (let (ts, s) = drop_lease i s in (Gone, ts, s))
     | Gone \<Rightarrow> (Gone, [], s))"

text \<open>One step of a background goroutine: what it still has to do, and the server. A watcher waits
  for \<^verbatim>\<open>done\<close>.\<close>

definition on_gen :: "u64 \<Rightarrow> (routingGeneration \<Rightarrow> server_task list \<times> routingGeneration) \<Rightarrow> Server \<Rightarrow> server_task list \<times> Server" where
  "on_gen i f s = (case gens s i of None \<Rightarrow> ([], s) | Some g \<Rightarrow> let (ts, g) = f g in (ts, putGen i g s))"

definition task_step :: "server_task \<Rightarrow> Server \<Rightarrow> server_task list \<times> Server" where
  "task_step t s = (case t of
       RetireMark i \<Rightarrow> on_gen i (\<lambda>g. let (go, g) = retire_mark g in (if go then [RetireStop i] else [], g)) s
     | RetireStop i \<Rightarrow> on_gen i (\<lambda>g. let (clean, g) = retire_stopped g in (if clean then [Cleanup i] else [], g)) s
     | Cleanup i \<Rightarrow> on_gen i (\<lambda>g. ([], cleanup g)) s
     | Watch i \<Rightarrow> if is_done s i then ([Prune], s\<lparr>retired := removeAll i (retired s)\<rparr>) else ([Watch i], s)
     | Prune \<Rightarrow> ([], pruneAdmissions s))"

datatype server_op =
    OAccept string
  | OConn nat remote_addr "addr option"
  | OTask nat
  | OReload "(string \<Rightarrow> bool)" "(Rule list \<Rightarrow> nat)" "(nat \<Rightarrow> nat \<Rightarrow> nat)" "(string \<Rightarrow> nat \<Rightarrow> nat)" "(string \<Rightarrow> bool)" bool "Rule option list"
  | OCommit bool
  | OClose
  | OServe bool
  | ORetireCurrent

fun server_step :: "server_op \<Rightarrow> server_sys \<Rightarrow> server_sys" where
  "server_step (OAccept key) y = (case map_of (listenersByKey (srv y)) key of
       Some a \<Rightarrow> if serveStarted (srv y) \<and> \<not> closed (srv y) then y\<lparr>conns := conns y @ [Accepted key a]\<rparr> else y
     | None \<Rightarrow> y)"
| "server_step (OConn n peer client) y =
     (if n < length (conns y) then
        let (c, ts, s) = conn_step peer client (conns y ! n) (srv y)
        in y\<lparr>srv := s, conns := (conns y)[n := c], tasks := tasks y @ ts\<rparr>
      else y)"
| "server_step (OTask n) y =
     (if n < length (tasks y) then
        let (ts, s) = task_step (tasks y ! n) (srv y)
        in y\<lparr>srv := s, tasks := take n (tasks y) @ drop (Suc n) (tasks y) @ ts\<rparr>
      else y)"
| "server_step (OReload compiles digest pick repick listens cancelled rules) y =
     (if plan y \<noteq> None then y
      else case prepareReload compiles digest pick repick listens cancelled rules (srv y) of
        (ReloadPlanned p, s) \<Rightarrow> y\<lparr>srv := s, plan := Some p\<rparr>
      | (_, s) \<Rightarrow> y\<lparr>srv := s\<rparr>)"
| "server_step (OCommit cancelled) y = (case plan y of
       None \<Rightarrow> y
     | Some p \<Rightarrow> (case commitReload cancelled p (srv y) of
         (None, s) \<Rightarrow> y\<lparr>srv := s, plan := None, tasks := tasks y @ [Watch (planOld p), RetireMark (planOld p)]\<rparr>
       | (Some e, s) \<Rightarrow> y\<lparr>srv := s, plan := None\<rparr>))"
| "server_step OClose y =
     (let (i, s) = closeServer (srv y)
      in y\<lparr>srv := s, tasks := tasks y @ (case i of Some i \<Rightarrow> [RetireMark i] | None \<Rightarrow> [])\<rparr>)"
| "server_step (OServe cancelled) y = y\<lparr>srv := snd (startServe cancelled (srv y))\<rparr>"
| "server_step ORetireCurrent y =
     (if closed (srv y) then y\<lparr>srv := (srv y)\<lparr>ready := False\<rparr>,
        tasks := tasks y @ (case current (srv y) of Some i \<Rightarrow> [RetireMark i] | None \<Rightarrow> [])\<rparr> else y)"

definition server_start :: "server_sys \<Rightarrow> bool" where
  "server_start y \<longleftrightarrow> conns y = [] \<and> tasks y = [] \<and> plan y = None
     \<and> (\<exists>compiles digest pick listens actual rules metricsListen.
          NewServerWithMetrics compiles digest pick listens actual rules metricsListen = Inr (srv y))"

definition server_run :: "server_op list \<Rightarrow> server_sys \<Rightarrow> server_sys" where
  "server_run ops y = fold server_step ops y"

section \<open>Leases\<close>

fun lease :: "conn_state \<Rightarrow> u64 option" where
  "lease (Acquired key a i) = Some i"
| "lease (Bound key a i) = Some i"
| "lease (Admitted key a i ip) = Some i"
| "lease (Reserved key a i ip) = Some i"
| "lease (Assigned key a i ip) = Some i"
| "lease (Refused key a i) = Some i"
| "lease (Swept key a i) = Some i"
| "lease (Unglobal i) = Some i"
| "lease (Leaving i) = Some i"
| "lease _ = None"

text \<open>What one generation owes the connections that lease it and the goroutines that retire it.\<close>

definition gen_ok :: "server_sys \<Rightarrow> u64 \<Rightarrow> routingGeneration \<Rightarrow> bool" where
  "gen_ok y i g \<longleftrightarrow> refs g = int (cnt (\<lambda>c. lease c = Some i) (conns y))
     \<and> (genDone g \<longrightarrow> backgroundStopped g \<and> refs g = 0)
     \<and> (backgroundStopped g \<longrightarrow> genRetired g)
     \<and> (genRetired g \<longrightarrow> backgroundStopped g \<or> RetireStop i \<in> set (tasks y))
     \<and> (backgroundStopped g \<and> refs g = 0 \<longrightarrow> genDone g \<or> Cleanup i \<in> set (tasks y))
     \<and> (Cleanup i \<in> set (tasks y) \<longrightarrow> backgroundStopped g \<and> refs g = 0)
     \<and> (RetireStop i \<in> set (tasks y) \<longrightarrow> genRetired g)
     \<and> (RetireMark i \<in> set (tasks y) \<or> genRetired g \<longrightarrow> current (srv y) \<noteq> Some i \<or> closed (srv y))
     \<and> (current (srv y) \<noteq> Some i \<or> closed (srv y) \<longrightarrow> genRetired g \<or> RetireMark i \<in> set (tasks y))
     \<and> (current (srv y) \<noteq> Some i \<and> \<not> genDone g \<longrightarrow> i \<in> set (retired (srv y)))"

fun task_gen :: "server_task \<Rightarrow> u64 option" where
  "task_gen (RetireMark i) = Some i"
| "task_gen (RetireStop i) = Some i"
| "task_gen (Cleanup i) = Some i"
| "task_gen (Watch i) = Some i"
| "task_gen Prune = None"

definition plan_ok :: "Server \<Rightarrow> reload_plan \<Rightarrow> bool" where
  "plan_ok s p \<longleftrightarrow> current s = Some (planOld p) \<and> genId (planNext p) = planOld p + 1 \<and> planOld p < planOld p + 1
     \<and> refs (planNext p) = 0 \<and> \<not> genRetired (planNext p) \<and> \<not> backgroundStopped (planNext p) \<and> \<not> genDone (planNext p)
     \<and> length (retired s) < maxRetiredGenerations"

definition lease_inv :: "server_sys \<Rightarrow> bool" where
  "lease_inv y \<longleftrightarrow> (\<exists>c. current (srv y) = Some c \<and> c \<in> dom (gens (srv y)) \<and> (\<forall>i\<in>dom (gens (srv y)). i \<le> c))
     \<and> (\<forall>i g. gens (srv y) i = Some g \<longrightarrow> gen_ok y i g)
     \<and> (\<forall>c\<in>set (conns y). \<forall>i. lease c = Some i \<longrightarrow> i \<in> dom (gens (srv y)))
     \<and> (\<forall>t\<in>set (tasks y). \<forall>i. task_gen t = Some i \<longrightarrow> i \<in> dom (gens (srv y)))
     \<and> (\<forall>i\<in>set (retired (srv y)). Watch i \<in> set (tasks y) \<and> current (srv y) \<noteq> Some i)
     \<and> distinct (retired (srv y)) \<and> length (retired (srv y)) \<le> maxRetiredGenerations
     \<and> (\<forall>p. plan y = Some p \<longrightarrow> plan_ok (srv y) p)"

text \<open>A step of a connection keeps its lease, takes one, or gives it back.\<close>

definition same_table :: "Server \<Rightarrow> Server \<Rightarrow> bool" where
  "same_table s t \<longleftrightarrow> current t = current s \<and> retired t = retired s \<and> closed t = closed s"

lemma drop_lease_effect:
  "gens s i = Some g \<Longrightarrow> drop_lease i s = (ts, s') \<Longrightarrow>
     same_table s s' \<and> gens s' = (gens s)(i \<mapsto> snd (releaseLease g)) \<and> ts = (if fst (releaseLease g) then [Cleanup i] else [])
     \<and> admissions s' = admissions s \<and> globalUsed s' = globalUsed s"
  by (auto simp: drop_lease_def same_table_def putGen_def split_beta Let_def)

lemma gens_simps [simp]:
  "gens (releaseGlobal s) = gens s" "gens (maybeCleanupAdmission key a s) = gens s" "gens (on_adm a f s) = gens s"
  "gens (snd (admitGlobal s)) = gens s" "gens (putAdm a x s) = gens s"
  by (simp_all add: releaseGlobal_def maybeCleanupAdmission_def on_adm_def admitGlobal_def putAdm_def split: option.split)

lemma same_table_simps [simp]:
  "same_table s s" "same_table s (releaseGlobal s)" "same_table s (maybeCleanupAdmission key a s)"
  "same_table s (on_adm a f s)" "same_table s (snd (admitGlobal s))" "same_table s (putAdm a x s)" "same_table s (putGen i g s)"
  by (simp_all add: same_table_def releaseGlobal_def maybeCleanupAdmission_def on_adm_def admitGlobal_def putAdm_def putGen_def
      split: option.split)

lemma conn_step_lease:
  assumes "conn_step peer client c s = (c', ts, s')" "\<And>i. lease c = Some i \<Longrightarrow> i \<in> dom (gens s)"
  obtains (keep) "gens s' = gens s" "lease c' = lease c" "ts = []" "same_table s s'"
  | (acquire) i g where "lease c = None" "lease c' = Some i" "gens s i = Some g" "\<not> genRetired g"
      "gens s' = (gens s)(i \<mapsto> g\<lparr>refs := refs g + 1\<rparr>)" "ts = []" "same_table s s'"
  | (give) i g where "lease c = Some i" "lease c' = None" "gens s i = Some g"
      "gens s' = (gens s)(i \<mapsto> snd (releaseLease g))" "ts = (if fst (releaseLease g) then [Cleanup i] else [])" "same_table s s'"
proof (cases c)
  case (Accepted key a)
  then show ?thesis using assms keep by (auto simp: conn_step_def load_binding_def split: option.splits if_splits)
next
  case (Loaded key a i)
  show ?thesis
  proof (cases "\<exists>g. gens s i = Some g \<and> \<not> genRetired g")
    case True
    then obtain g where "gens s i = Some g" "\<not> genRetired g" by blast
    then show ?thesis
      using assms(1) Loaded by (intro acquire[of i g]) (auto simp: conn_step_def try_binding_def tryAcquire_def putGen_def same_table_def)
  next
    case False
    then show ?thesis
      using assms(1) Loaded by (intro keep) (auto simp: conn_step_def try_binding_def tryAcquire_def split: option.splits if_splits)
  qed
next
  case (Acquired key a i)
  then obtain g where g: "gens s i = Some g" using assms(2) by fastforce
  show ?thesis
  proof (cases "current s = Some i")
    case True
    then show ?thesis using assms(1) Acquired by (intro keep) (auto simp: conn_step_def confirm_binding_def)
  next
    case False
    then obtain ts0 s0 where d: "drop_lease i s = (ts0, s0)" "c' = Accepted key a" "ts = ts0" "s' = s0"
      using assms(1) Acquired by (cases "drop_lease i s") (auto simp: conn_step_def confirm_binding_def)
    then show ?thesis using drop_lease_effect[OF g d(1)] Acquired g by (intro give[of i g]) auto
  qed
next
  case (Leaving i)
  then obtain g where g: "gens s i = Some g" using assms(2) by fastforce
  obtain ts0 s0 where d: "drop_lease i s = (ts0, s0)" "c' = Gone" "ts = ts0" "s' = s0"
    using assms(1) Leaving by (cases "drop_lease i s") (auto simp: conn_step_def)
  then show ?thesis using drop_lease_effect[OF g d(1)] Leaving g by (intro give[of i g]) auto
next
  case (Bound key a i)
  then show ?thesis
    using assms(1)
    by (intro keep) (auto simp: conn_step_def admit_conn_def admitGlobal_def same_table_def Let_def split: option.splits if_splits)
next
  case (Admitted key a i ip)
  then show ?thesis
    using assms(1) by (intro keep) (auto simp: conn_step_def reserve_conn_def Let_def split: option.splits if_splits prod.splits)
next
  case (Reserved key a i ip)
  then show ?thesis
    using assms(1) by (intro keep) (auto simp: conn_step_def assign_conn_def Let_def split: option.splits if_splits prod.splits)
next
  case (Assigned key a i ip)
  then show ?thesis using assms(1) by (intro keep) (auto simp: conn_step_def)
next
  case (Refused key a i)
  then show ?thesis using assms(1) by (intro keep) (auto simp: conn_step_def)
next
  case (Swept key a i)
  then show ?thesis using assms(1) by (intro keep) (auto simp: conn_step_def)
next
  case (Unglobal i)
  then show ?thesis using assms(1) by (intro keep) (auto simp: conn_step_def)
next
  case Gone
  then show ?thesis using assms(1) by (intro keep) (auto simp: conn_step_def)
qed

lemma lease_invD:
  assumes "lease_inv y"
  shows "\<exists>c. current (srv y) = Some c \<and> c \<in> dom (gens (srv y)) \<and> (\<forall>i\<in>dom (gens (srv y)). i \<le> c)"
    "gens (srv y) i = Some g \<Longrightarrow> gen_ok y i g"
    "c \<in> set (conns y) \<Longrightarrow> lease c = Some i \<Longrightarrow> i \<in> dom (gens (srv y))"
    "t \<in> set (tasks y) \<Longrightarrow> task_gen t = Some i \<Longrightarrow> i \<in> dom (gens (srv y))"
    "i \<in> set (retired (srv y)) \<Longrightarrow> Watch i \<in> set (tasks y) \<and> current (srv y) \<noteq> Some i"
    "distinct (retired (srv y))" "length (retired (srv y)) \<le> maxRetiredGenerations"
    "plan y = Some p \<Longrightarrow> plan_ok (srv y) p"
  using assms unfolding lease_inv_def by blast+

lemma lease_invI:
  assumes "current (srv y) = Some c" "c \<in> dom (gens (srv y))" "\<And>i. i \<in> dom (gens (srv y)) \<Longrightarrow> i \<le> c"
    "\<And>i g. gens (srv y) i = Some g \<Longrightarrow> gen_ok y i g"
    "\<And>c i. c \<in> set (conns y) \<Longrightarrow> lease c = Some i \<Longrightarrow> i \<in> dom (gens (srv y))"
    "\<And>t i. t \<in> set (tasks y) \<Longrightarrow> task_gen t = Some i \<Longrightarrow> i \<in> dom (gens (srv y))"
    "\<And>i. i \<in> set (retired (srv y)) \<Longrightarrow> Watch i \<in> set (tasks y) \<and> current (srv y) \<noteq> Some i"
    "distinct (retired (srv y))" "length (retired (srv y)) \<le> maxRetiredGenerations"
    "\<And>p. plan y = Some p \<Longrightarrow> plan_ok (srv y) p"
  shows "lease_inv y"
  using assms unfolding lease_inv_def by blast

text \<open>What \<open>gen_ok\<close> looks at.\<close>

lemma gen_ok_frame:
  assumes "gen_ok y i g" "cnt (\<lambda>c. lease c = Some i) (conns y') = cnt (\<lambda>c. lease c = Some i) (conns y)"
    "\<And>t. t \<in> {RetireMark i, RetireStop i, Cleanup i} \<Longrightarrow> t \<in> set (tasks y') \<longleftrightarrow> t \<in> set (tasks y)"
    "current (srv y') = current (srv y)" "closed (srv y') = closed (srv y)"
    "\<not> genDone g \<Longrightarrow> i \<in> set (retired (srv y)) \<Longrightarrow> i \<in> set (retired (srv y'))"
  shows "gen_ok y' i g"
  using assms(1,6) assms(3)[of "RetireMark i"] assms(3)[of "RetireStop i"] assms(3)[of "Cleanup i"]
  unfolding gen_ok_def assms(2,4,5) by blast

lemma lease_count_update:
  assumes "n < length cs"
  shows "cnt (\<lambda>c. lease c = Some i) (cs[n := c']) =
    (cnt (\<lambda>c. lease c = Some i) cs + (if lease c' = Some i then 1 else 0)) - (if lease (cs ! n) = Some i then 1 else 0)"
  using cnt_update[OF assms, of "\<lambda>c. lease c = Some i" c'] by simp

lemma conn_leases_dom:
  assumes "lease_inv y" "n < length (conns y)" "dom (gens (srv y)) \<subseteq> D" "\<And>i. lease c' = Some i \<Longrightarrow> i \<in> D"
  shows "\<forall>c\<in>set ((conns y)[n := c']). \<forall>i. lease c = Some i \<longrightarrow> i \<in> D"
  using assms(3,4) subsetD[OF assms(3) lease_invD(3)[OF assms(1)]]
  by (auto dest!: set_update_subset_insert[THEN subsetD])

lemma conn_lease_inv:
  assumes inv: "lease_inv y" and n: "n < length (conns y)" and st: "conn_step peer client (conns y ! n) (srv y) = (c', ts, s')"
  shows "lease_inv (y\<lparr>srv := s', conns := (conns y)[n := c'], tasks := tasks y @ ts\<rparr>)" (is "lease_inv ?y")
proof -
  let ?c = "conns y ! n" and ?s = "srv y"
  have dom_c: "lease ?c = Some i \<Longrightarrow> i \<in> dom (gens ?s)" for i using lease_invD(3)[OF inv nth_mem[OF n]] .
  note cu = lease_count_update[OF n]
  have table: "same_table ?s s' \<Longrightarrow> dom (gens s') = dom (gens ?s) \<Longrightarrow> (\<And>t i. t \<in> set ts \<Longrightarrow> task_gen t = Some i \<Longrightarrow> i \<in> dom (gens ?s)) \<Longrightarrow>
      (\<And>i. lease c' = Some i \<Longrightarrow> i \<in> dom (gens ?s)) \<Longrightarrow> (\<And>i g. gens s' i = Some g \<Longrightarrow> gen_ok ?y i g) \<Longrightarrow> lease_inv ?y"
    using inv conn_leases_dom[OF inv n, of "dom (gens ?s)" c']
    unfolding lease_inv_def same_table_def by (auto simp: plan_ok_def)
  show ?thesis
  proof (rule conn_step_lease[OF st dom_c])
    assume k: "gens s' = gens ?s" "lease c' = lease ?c" "ts = []" "same_table ?s s'"
    have e: "cnt (\<lambda>c. lease c = Some i) ((conns y)[n := c']) = cnt (\<lambda>c. lease c = Some i) (conns y)" for i
      using cu[of i c'] k(2) cnt_pos[OF n, of "\<lambda>c. lease c = Some i"] by auto
    have "gens s' i = Some g \<Longrightarrow> gen_ok ?y i g" for i g
      using k e[of i] by (intro gen_ok_frame[OF lease_invD(2)[OF inv, of i g]]) (auto simp: same_table_def)
    then show ?thesis using table k dom_c by simp
  next
    fix i g assume k: "lease ?c = None" "lease c' = Some i" "gens ?s i = Some g" "\<not> genRetired g"
      "gens s' = (gens ?s)(i \<mapsto> g\<lparr>refs := refs g + 1\<rparr>)" "ts = []" "same_table ?s s'"
    have "gen_ok ?y j h" if "gens s' j = Some h" for j h
    proof (cases "j = i")
      case True
      then show ?thesis using that k lease_invD(2)[OF inv k(3)] cu[of i c'] by (auto simp: gen_ok_def same_table_def)
    next
      case False
      then show ?thesis using that k cu[of j c']
        by (intro gen_ok_frame[OF lease_invD(2)[OF inv, of j h]]) (auto simp: same_table_def)
    qed
    then show ?thesis using table k by auto
  next
    fix i g assume k: "lease ?c = Some i" "lease c' = None" "gens ?s i = Some g"
      "gens s' = (gens ?s)(i \<mapsto> snd (releaseLease g))" "ts = (if fst (releaseLease g) then [Cleanup i] else [])" "same_table ?s s'"
    have pos: "0 < cnt (\<lambda>c. lease c = Some i) (conns y)" using cnt_pos[OF n, of "\<lambda>c. lease c = Some i"] k(1) by simp
    note ok = lease_invD(2)[OF inv k(3)]
    have rl: "releaseLease g = (genRetired g \<and> backgroundStopped g \<and> refs g = 1, g\<lparr>refs := refs g - 1\<rparr>)"
      using ok pos by (auto simp: releaseLease_def Let_def gen_ok_def)
    have "gen_ok ?y j h" if "gens s' j = Some h" for j h
    proof (cases "j = i")
      case True
      then have h: "h = g\<lparr>refs := refs g - 1\<rparr>" using that k(4) rl by simp
      have ct: "int (cnt (\<lambda>c. lease c = Some i) ((conns y)[n := c'])) = refs g - 1"
        using cu[of i c'] k(1,2) pos ok by (simp add: gen_ok_def)
      have tk: "Cleanup i \<in> set (tasks ?y) \<longleftrightarrow> Cleanup i \<in> set (tasks y) \<or> genRetired g \<and> backgroundStopped g \<and> refs g = 1"
        "RetireStop i \<in> set (tasks ?y) \<longleftrightarrow> RetireStop i \<in> set (tasks y)" "RetireMark i \<in> set (tasks ?y) \<longleftrightarrow> RetireMark i \<in> set (tasks y)"
        using k(5) rl by auto
      have hf: "refs h = refs g - 1" "genDone h = genDone g" "backgroundStopped h = backgroundStopped g" "genRetired h = genRetired g"
        by (simp_all add: h)
      have sf: "current (srv ?y) = current ?s" "closed (srv ?y) = closed ?s" "retired (srv ?y) = retired ?s"
        "cnt (\<lambda>c. lease c = Some i) (conns ?y) = nat (refs g - 1)" "refs g > 0"
        using k(6) ct pos ok by (auto simp: same_table_def gen_ok_def)
      have z: "refs g - 1 = 0 \<longleftrightarrow> refs g = 1" "int (nat (refs g - 1)) = refs g - 1" "refs g \<noteq> 0" using sf(5) by auto
      show ?thesis using ok z(3) unfolding True gen_ok_def hf sf tk z by blast
    next
      case False
      then show ?thesis using that k cu[of j c']
        by (intro gen_ok_frame[OF lease_invD(2)[OF inv, of j h]]) (auto simp: same_table_def)
    qed
    then show ?thesis using table k rl by (auto split: if_splits)
  qed
qed

lemma set_remove_nth: "n < length xs \<Longrightarrow> set (take n xs @ drop (Suc n) xs @ ys) \<union> {xs ! n} = set xs \<union> set ys \<union> {xs ! n}"
  by (subst (3) id_take_nth_drop[of n xs]) auto

lemma task_mem:
  assumes "n < length xs"
  shows "t \<in> set (take n xs @ drop (Suc n) xs @ ys) \<Longrightarrow> t \<in> set xs \<or> t \<in> set ys"
    "t \<noteq> xs ! n \<Longrightarrow> t \<in> set (take n xs @ drop (Suc n) xs @ ys) \<longleftrightarrow> t \<in> set xs \<or> t \<in> set ys"
  using set_remove_nth[OF assms, of ys] assms by (auto dest: in_set_takeD in_set_dropD)

text \<open>Running the task at position \<open>n\<close>: its effect on one generation, or on the retired table.\<close>

definition after_task :: "server_sys \<Rightarrow> nat \<Rightarrow> server_task list \<Rightarrow> Server \<Rightarrow> server_sys" where
  "after_task y n ts s = y\<lparr>srv := s, tasks := take n (tasks y) @ drop (Suc n) (tasks y) @ ts\<rparr>"

lemma after_task_simps [simp]: "srv (after_task y n ts s) = s" "conns (after_task y n ts s) = conns y" "plan (after_task y n ts s) = plan y"
  "tasks (after_task y n ts s) = take n (tasks y) @ drop (Suc n) (tasks y) @ ts"
  by (simp_all add: after_task_def)

lemma after_task_lease_inv:
  assumes inv: "lease_inv y" and n: "n < length (tasks y)"
    and s: "current s = current (srv y)" "closed s = closed (srv y)" "dom (gens s) = dom (gens (srv y))"
    and ts: "\<And>t i. t \<in> set ts \<Longrightarrow> task_gen t = Some i \<Longrightarrow> i \<in> dom (gens (srv y))"
    and r: "retired s = filter P (retired (srv y))"
      "\<And>i. i \<in> set (retired s) \<Longrightarrow> tasks y ! n = Watch i \<Longrightarrow> Watch i \<in> set ts"
    and ok: "\<And>i g. gens s i = Some g \<Longrightarrow> gen_ok (after_task y n ts s) i g"
  shows "lease_inv (after_task y n ts s)"
proof -
  obtain c where c: "current (srv y) = Some c" "c \<in> dom (gens (srv y))" "\<And>i. i \<in> dom (gens (srv y)) \<Longrightarrow> i \<le> c"
    using lease_invD(1)[OF inv] by blast
  have len: "length (retired s) \<le> length (retired (srv y))" unfolding r(1) by (rule length_filter_le)
  show ?thesis
  proof (rule lease_invI[of _ c], simp_all only: after_task_simps)
    show "\<And>t i. t \<in> set (take n (tasks y) @ drop (Suc n) (tasks y) @ ts) \<Longrightarrow> task_gen t = Some i \<Longrightarrow> i \<in> dom (gens s)"
      using task_mem(1)[OF n] lease_invD(4)[OF inv] ts s(3) by metis
    show "Watch i \<in> set (take n (tasks y) @ drop (Suc n) (tasks y) @ ts) \<and> current s \<noteq> Some i" if i: "i \<in> set (retired s)" for i
    proof -
      have "Watch i \<in> set (tasks y)" "current (srv y) \<noteq> Some i" using i lease_invD(5)[OF inv, of i] r(1) by auto
      then show ?thesis using task_mem(2)[OF n, of "Watch i" ts] r(2)[OF i] s(1) by (cases "tasks y ! n = Watch i") auto
    qed
    show "distinct (retired s)" using lease_invD(6)[OF inv] by (simp add: r(1))
    show "length (retired s) \<le> maxRetiredGenerations" using len lease_invD(7)[OF inv] by simp
    show "plan_ok s p" if "plan y = Some p" for p
      using lease_invD(8)[OF inv that] len s(1) by (simp add: plan_ok_def)
  qed (use c s lease_invD(3)[OF inv] ok in auto)
qed

lemma task_lease_inv:
  assumes inv: "lease_inv y" and n: "n < length (tasks y)" and st: "task_step (tasks y ! n) (srv y) = (ts, s')"
  shows "lease_inv (after_task y n ts s')"
proof -
  let ?s = "srv y" and ?t = "tasks y ! n"
  have frame: "gen_ok (after_task y n ts s') j g" if "gens ?s j = Some g" "current s' = current ?s" "closed s' = closed ?s"
      "\<And>t. t \<in> {RetireMark j, RetireStop j, Cleanup j} \<Longrightarrow> t \<noteq> ?t \<and> t \<notin> set ts"
      "\<not> genDone g \<Longrightarrow> j \<in> set (retired ?s) \<Longrightarrow> j \<in> set (retired s')" for j g
    by (rule gen_ok_frame[OF lease_invD(2)[OF inv that(1)]]) (use that task_mem(2)[OF n, of _ ts] in \<open>auto simp del: set_append\<close>)
  have all: "filter (\<lambda>_. True) (retired ?s) = retired ?s" by simp
  show ?thesis
  proof (cases ?t)
    case (RetireMark i)
    obtain g where g: "gens ?s i = Some g" using lease_invD(4)[OF inv nth_mem[OF n], of i] RetireMark by auto
    have mem: "RetireMark i \<in> set (tasks y)" using nth_mem[OF n] RetireMark by simp
    have "retire_mark g = (\<not> genRetired g, g\<lparr>genRetired := True\<rparr>)" by (cases g) (simp add: retire_mark_def)
    then have s': "s' = putGen i (g\<lparr>genRetired := True\<rparr>) ?s" "ts = (if genRetired g then [] else [RetireStop i])"
      using st RetireMark g by (auto simp: task_step_def on_gen_def split: if_splits)
    let ?g = "g\<lparr>genRetired := True\<rparr>" and ?y = "after_task y n ts s'"
    have fld: "current (srv ?y) = current ?s" "closed (srv ?y) = closed ?s" "retired (srv ?y) = retired ?s"
      "conns ?y = conns y" "refs ?g = refs g" "genDone ?g = genDone g" "backgroundStopped ?g = backgroundStopped g" "genRetired ?g = True"
      by (simp_all add: s'(1) putGen_def)
    have tk: "RetireStop i \<in> set (tasks ?y) \<longleftrightarrow> RetireStop i \<in> set (tasks y) \<or> \<not> genRetired g" "Cleanup i \<in> set (tasks ?y) \<longleftrightarrow> Cleanup i \<in> set (tasks y)"
      using task_mem[OF n, of _ ts] RetireMark mem by (auto simp: s'(2) simp del: set_append split: if_splits)
    have "gen_ok ?y i ?g"
      using lease_invD(2)[OF inv g] mem unfolding gen_ok_def fld tk by blast
    then show ?thesis
      using frame g s' RetireMark
      by (intro after_task_lease_inv[OF inv n, where P = "\<lambda>_. True"])
        (auto simp: putGen_def retire_mark_def split: if_splits)
  next
    case (RetireStop i)
    obtain g where g: "gens ?s i = Some g" using lease_invD(4)[OF inv nth_mem[OF n], of i] RetireStop by auto
    have mem: "RetireStop i \<in> set (tasks y)" using nth_mem[OF n] RetireStop by simp
    have s': "s' = putGen i (g\<lparr>backgroundStopped := True\<rparr>) ?s" "ts = (if refs g = 0 then [Cleanup i] else [])"
      using st RetireStop g by (auto simp: task_step_def on_gen_def retire_stopped_def)
    let ?g = "g\<lparr>backgroundStopped := True\<rparr>" and ?y = "after_task y n ts s'"
    have fld: "current (srv ?y) = current ?s" "closed (srv ?y) = closed ?s" "retired (srv ?y) = retired ?s"
      "conns ?y = conns y" "refs ?g = refs g" "genDone ?g = genDone g" "backgroundStopped ?g = True" "genRetired ?g = genRetired g"
      by (simp_all add: s'(1) putGen_def)
    have tk: "RetireMark i \<in> set (tasks ?y) \<longleftrightarrow> RetireMark i \<in> set (tasks y)" "Cleanup i \<in> set (tasks ?y) \<longleftrightarrow> Cleanup i \<in> set (tasks y) \<or> refs g = 0"
      using task_mem[OF n, of _ ts] RetireStop mem by (auto simp: s'(2) simp del: set_append split: if_splits)
    have "gen_ok ?y i ?g"
      using lease_invD(2)[OF inv g] mem unfolding gen_ok_def fld tk by blast
    then show ?thesis
      using frame g s' RetireStop
      by (intro after_task_lease_inv[OF inv n, where P = "\<lambda>_. True"]) (auto simp: putGen_def split: if_splits)
  next
    case (Cleanup i)
    obtain g where g: "gens ?s i = Some g" using lease_invD(4)[OF inv nth_mem[OF n], of i] Cleanup by auto
    have mem: "Cleanup i \<in> set (tasks y)" using nth_mem[OF n] Cleanup by simp
    have s': "s' = putGen i (g\<lparr>genDone := True\<rparr>) ?s" "ts = []"
      using st Cleanup g by (auto simp: task_step_def on_gen_def cleanup_def)
    let ?g = "g\<lparr>genDone := True\<rparr>" and ?y = "after_task y n ts s'"
    have fld: "current (srv ?y) = current ?s" "closed (srv ?y) = closed ?s" "retired (srv ?y) = retired ?s"
      "conns ?y = conns y" "refs ?g = refs g" "genDone ?g = True" "backgroundStopped ?g = backgroundStopped g" "genRetired ?g = genRetired g"
      by (simp_all add: s'(1) putGen_def)
    have tk: "RetireMark i \<in> set (tasks ?y) \<longleftrightarrow> RetireMark i \<in> set (tasks y)" "RetireStop i \<in> set (tasks ?y) \<longleftrightarrow> RetireStop i \<in> set (tasks y)"
      using task_mem[OF n, of _ ts] Cleanup mem by (auto simp: s'(2) simp del: set_append split: if_splits)
    have "gen_ok ?y i ?g"
      using lease_invD(2)[OF inv g] mem unfolding gen_ok_def fld tk by blast
    then show ?thesis
      using frame g s' Cleanup
      by (intro after_task_lease_inv[OF inv n, where P = "\<lambda>_. True"]) (auto simp: putGen_def split: if_splits)
  next
    case (Watch i)
    have i: "i \<in> dom (gens ?s)" using lease_invD(4)[OF inv nth_mem[OF n], of i] Watch by auto
    show ?thesis
    proof (cases "is_done ?s i")
      case True
      then have s': "s' = ?s\<lparr>retired := removeAll i (retired ?s)\<rparr>" "ts = [Prune]" using st Watch by (auto simp: task_step_def)
      have ok: "gen_ok (after_task y n ts s') j g" if "gens ?s j = Some g" for j g
        by (rule frame[OF that]) (use s' Watch True that in \<open>auto simp: is_done_def\<close>)
      show ?thesis
        using ok s' Watch i
        by (intro after_task_lease_inv[OF inv n, where P = "\<lambda>j. j \<noteq> i"]) (auto simp: removeAll_filter_not_eq intro: filter_cong)
    next
      case False
      then have s': "s' = ?s" "ts = [Watch i]" using st Watch by (auto simp: task_step_def)
      show ?thesis using frame s' Watch i by (intro after_task_lease_inv[OF inv n, where P = "\<lambda>_. True"]) auto
    qed
  next
    case Prune
    then have s': "s' = pruneAdmissions ?s" "ts = []" using st by (auto simp: task_step_def)
    show ?thesis
      using frame s' Prune by (intro after_task_lease_inv[OF inv n, where P = "\<lambda>_. True"]) (auto simp: pruneAdmissions_def)
  qed
qed

lemma stage_loop_frame:
  "stage_loop listens existing keys staged reused s = (r, s') \<Longrightarrow>
     gens s' = gens s \<and> same_table s s' \<and> globalUsed s' = globalUsed s \<and> listenersByKey s' = listenersByKey s
     \<and> admissionsByKey s' = admissionsByKey s"
  by (induction listens existing keys staged reused s rule: stage_loop.induct)
    (fastforce simp: same_table_def split: if_splits option.splits)+

lemma new_generation_fresh:
  "newRoutingGeneration compiles digest pick i rules keys = Inr g \<Longrightarrow>
     genId g = i \<and> refs g = 0 \<and> \<not> genRetired g \<and> \<not> backgroundStopped g \<and> \<not> genDone g"
  by (auto simp: newRoutingGeneration_def Let_def split: if_splits sum.splits)

lemma preserve_fields [simp]:
  "genId (preserveConnectProxyUserAgentSelections pick p g) = genId g"
  "refs (preserveConnectProxyUserAgentSelections pick p g) = refs g"
  "genRetired (preserveConnectProxyUserAgentSelections pick p g) = genRetired g"
  "backgroundStopped (preserveConnectProxyUserAgentSelections pick p g) = backgroundStopped g"
  "genDone (preserveConnectProxyUserAgentSelections pick p g) = genDone g"
  "fingerprint (preserveConnectProxyUserAgentSelections pick p g) = fingerprint g"
  by (simp_all add: preserveConnectProxyUserAgentSelections_def)

definition pruned :: "Server \<Rightarrow> Server \<Rightarrow> bool" where
  "pruned s t \<longleftrightarrow> gens t = gens s \<and> current t = current s \<and> closed t = closed s \<and> globalUsed t = globalUsed s
     \<and> listenersByKey t = listenersByKey s \<and> admissionsByKey t = admissionsByKey s
     \<and> (retired t = retired s \<or> retired t = filter (\<lambda>i. \<not> is_done s i) (retired s))"

lemma prepareReload_effect:
  assumes "prepareReload compiles digest pick repick listens cancelled rules s = (r, s')"
  shows "pruned s s'" "r = ReloadPlanned p \<Longrightarrow> plan_ok s' p"
proof -
  consider (early) "s' = s" "\<forall>p. r \<noteq> ReloadPlanned p"
    | (late) keys old oldGen next_gen where "reload_keys rules = Inr keys" "current s = Some old" "gens s old = Some oldGen"
      "\<not> old + 1 \<le> old" "newRoutingGeneration compiles digest pick (old + 1) rules keys = Inr next_gen"
      "fingerprint next_gen \<noteq> fingerprint oldGen"
    using assms by (auto simp: prepareReload_def Let_def split: sum.splits option.splits if_splits)
  then have "pruned s s' \<and> (r = ReloadPlanned p \<longrightarrow> plan_ok s' p)"
  proof cases
    case early
    then show ?thesis by (simp add: pruned_def)
  next
    case late
    define t where "t = pruneCompletedRetiredLocked s"
    define nx where "nx = preserveConnectProxyUserAgentSelections repick oldGen next_gen"
    have t: "gens t = gens s" "current t = current s" "closed t = closed s" "globalUsed t = globalUsed s"
      "listenersByKey t = listenersByKey s" "admissionsByKey t = admissionsByKey s"
      "retired t = filter (\<lambda>i. \<not> is_done s i) (retired s)"
      by (simp_all add: t_def pruneCompletedRetiredLocked_def)
    obtain sr s2 where sl: "stage_loop listens (listenersByKey t) keys [] [] t = (sr, s2)" by (cases "stage_loop listens (listenersByKey t) keys [] [] t")
    note fr = stage_loop_frame[OF sl]
    have nf: "fingerprint nx \<noteq> fingerprint oldGen" using late(6) by (simp add: nx_def)
    have res: "(r, s') = (if length (retired t) \<ge> maxRetiredGenerations then (ReloadError ''reload rejected: routing generations are still draining'', t)
        else if closed t then (ReloadError ''server is closed'', t)
        else case (sr, s2) of (Inl e, s) \<Rightarrow> (ReloadError e, s)
          | (Inr (staged, reused), s) \<Rightarrow> if cancelled then (ReloadError ''reload cancelled before commit'', s)
              else (ReloadPlanned \<lparr>planOld = old, planNext = nx, planStaged = staged, planReused = reused,
                planRemoved = filter (\<lambda>key. map_of (bindings nx) key = None) (map fst (listenersByKey s))\<rparr>, s))"
      using assms late nf sl unfolding prepareReload_def
      by (simp add: Let_def retiredCount_def t_def[symmetric] nx_def[symmetric] cong: if_cong)
    have new: "genId nx = old + 1 \<and> refs nx = 0 \<and> \<not> genRetired nx \<and> \<not> backgroundStopped nx \<and> \<not> genDone nx"
      using new_generation_fresh[OF late(5)] by (simp add: nx_def)
    show ?thesis
      using res fr t new late(2,4)
      by (auto simp: pruned_def same_table_def plan_ok_def split: if_splits sum.splits)
  qed
  then show "pruned s s'" "r = ReloadPlanned p \<Longrightarrow> plan_ok s' p" by auto
qed

lemma pruned_gen_ok:
  assumes "gen_ok y i g" "pruned (srv y) s'" "gens (srv y) i = Some g" "conns y' = conns y" "tasks y' = tasks y" "srv y' = s'"
  shows "gen_ok y' i g"
  by (rule gen_ok_frame[OF assms(1)]) (use assms in \<open>auto simp: pruned_def is_done_def\<close>)

lemma pruned_lease_inv:
  assumes inv: "lease_inv y" and p: "pruned (srv y) s'" and pl: "\<And>q. pl = Some q \<Longrightarrow> plan_ok s' q"
  shows "lease_inv (y\<lparr>srv := s', plan := pl\<rparr>)"
proof -
  obtain c where c: "current (srv y) = Some c" "c \<in> dom (gens (srv y))" "\<And>i. i \<in> dom (gens (srv y)) \<Longrightarrow> i \<le> c"
    using lease_invD(1)[OF inv] by blast
  have r: "set (retired s') \<subseteq> set (retired (srv y))" "distinct (retired s')" "length (retired s') \<le> maxRetiredGenerations"
    using p lease_invD(6,7)[OF inv] le_trans[OF length_filter_le[of "\<lambda>i. \<not> is_done (srv y) i"]] by (auto simp: pruned_def)
  show ?thesis
  proof (rule lease_invI[of _ c])
    fix i g assume "gens (srv (y\<lparr>srv := s', plan := pl\<rparr>)) i = Some g"
    then show "gen_ok (y\<lparr>srv := s', plan := pl\<rparr>) i g"
      using p by (intro pruned_gen_ok[OF lease_invD(2)[OF inv] p]) (auto simp: pruned_def)
  next
    fix i assume "i \<in> set (retired (srv (y\<lparr>srv := s', plan := pl\<rparr>)))"
    then have "i \<in> set (retired (srv y))" using r(1) by auto
    from lease_invD(5)[OF inv this]
    show "Watch i \<in> set (tasks (y\<lparr>srv := s', plan := pl\<rparr>)) \<and> current (srv (y\<lparr>srv := s', plan := pl\<rparr>)) \<noteq> Some i"
      using p by (simp add: pruned_def)
  qed (use p c r pl lease_invD(3,4)[OF inv] in \<open>auto simp: pruned_def\<close>)
qed

lemma commit_lease_inv:
  assumes inv: "lease_inv y" and p: "plan y = Some p" and c: "commitReload cancelled p (srv y) = (None, s')"
  shows "lease_inv (y\<lparr>srv := s', plan := None, tasks := tasks y @ [Watch (planOld p), RetireMark (planOld p)]\<rparr>)" (is "lease_inv ?y")
proof -
  let ?s = "srv y" and ?old = "planOld p" and ?new = "planOld p + 1" and ?nx = "planNext p"
  note pk = lease_invD(8)[OF inv p, unfolded plan_ok_def]
  have cl: "\<not> closed ?s" using c by (auto simp: commitReload_def split: if_splits)
  have s': "gens s' = (gens ?s)(?new \<mapsto> ?nx)" "current s' = Some ?new" "retired s' = retired ?s @ [?old]" "\<not> closed s'"
    using c pk cl by (auto simp: commitReload_def Let_def putGen_def trackRetired_def split: if_splits)
  have dom: "i \<le> ?old" if "i \<in> dom (gens ?s)" for i using lease_invD(1)[OF inv] pk that by auto
  have fresh: "?new \<notin> dom (gens ?s)" using dom pk by (metis leD)
  have old: "?old \<in> dom (gens ?s)" using lease_invD(1)[OF inv] pk by auto
  have lt: "?old < ?new" using pk by blast
  have nl: "cnt (\<lambda>c. lease c = Some ?new) (conns y) = 0" using lease_invD(3)[OF inv] fresh by (auto simp: cnt_zero)
  have nt: "t \<in> set (tasks y) \<Longrightarrow> task_gen t \<noteq> Some ?new" for t using lease_invD(4)[OF inv] fresh by blast
  show ?thesis
  proof (rule lease_invI[of _ ?new])
    fix i g assume g: "gens (srv ?y) i = Some g"
    show "gen_ok ?y i g"
    proof (cases "i = ?new")
      case True
      then have "g = ?nx" using g s'(1) by simp
      then show ?thesis
        using True nl pk s' nt[of "RetireMark ?new"] nt[of "RetireStop ?new"] nt[of "Cleanup ?new"] lt by (auto simp: gen_ok_def)
    next
      case False
      then have gi: "gens ?s i = Some g" using g s'(1) by simp
      then have "i \<le> ?old" using dom by blast
      then show ?thesis
        using lease_invD(2)[OF inv gi] False s' cl pk unfolding gen_ok_def by (cases "i = ?old") auto
    qed
  next
    fix i assume "i \<in> set (retired (srv ?y))"
    then show "Watch i \<in> set (tasks ?y) \<and> current (srv ?y) \<noteq> Some i"
      using lease_invD(5)[OF inv, of i] s' lt dom fresh lease_invD(4)[OF inv, of "Watch i" i] by auto
  next
    show "distinct (retired (srv ?y))" using lease_invD(5)[OF inv, of ?old] lease_invD(6)[OF inv] s'(3) pk by auto
    show "length (retired (srv ?y)) \<le> maxRetiredGenerations" using s'(3) pk by simp
  next
    fix c i assume "c \<in> set (conns ?y)" "lease c = Some i"
    then show "i \<in> dom (gens (srv ?y))" using lease_invD(3)[OF inv, of c i] s'(1) by simp
  next
    fix t i assume "t \<in> set (tasks ?y)" "task_gen t = Some i"
    then show "i \<in> dom (gens (srv ?y))" using lease_invD(4)[OF inv, of t i] s'(1) old by auto
  next
    fix i assume "i \<in> dom (gens (srv ?y))"
    then have "i = ?new \<or> i \<le> ?old" using dom[of i] s'(1) by auto
    then show "i \<le> ?new" using lt by auto
  qed (use s' in simp_all)
qed

lemma frame_lease_inv:
  assumes inv: "lease_inv y" and s: "gens (srv y') = gens (srv y)" "current (srv y') = current (srv y)"
      "retired (srv y') = retired (srv y)" "closed (srv y') = closed (srv y)"
    and c: "\<And>i. cnt (\<lambda>c. lease c = Some i) (conns y') = cnt (\<lambda>c. lease c = Some i) (conns y)"
    and t: "tasks y' = tasks y" "plan y' = plan y \<or> plan y' = None"
  shows "lease_inv y'"
proof -
  obtain k where k: "current (srv y) = Some k" "k \<in> dom (gens (srv y))" "\<And>i. i \<in> dom (gens (srv y)) \<Longrightarrow> i \<le> k"
    using lease_invD(1)[OF inv] by blast
  show ?thesis
  proof (rule lease_invI[of _ k])
    fix i g assume "gens (srv y') i = Some g"
    then show "gen_ok y' i g"
      by (intro gen_ok_frame[OF lease_invD(2)[OF inv, of i g]]) (simp_all add: s c t)
  next
    fix c' i assume "c' \<in> set (conns y')" "lease c' = Some i"
    then have "cnt (\<lambda>c. lease c = Some i) (conns y) \<noteq> 0" unfolding c[of i, symmetric] by (auto simp: cnt_zero)
    then show "i \<in> dom (gens (srv y'))" using lease_invD(3)[OF inv] by (auto simp: cnt_zero s)
  next
    fix p assume "plan y' = Some p"
    then have "plan y = Some p" using t(2) by auto
    from lease_invD(8)[OF inv this] show "plan_ok (srv y') p" by (simp add: plan_ok_def s)
  next
    fix i assume "i \<in> set (retired (srv y'))"
    then show "Watch i \<in> set (tasks y') \<and> current (srv y') \<noteq> Some i" using lease_invD(5)[OF inv, of i] by (simp add: s t)
  next
    fix u i assume "u \<in> set (tasks y')" "task_gen u = Some i"
    then show "i \<in> dom (gens (srv y'))" using lease_invD(4)[OF inv, of u i] by (simp add: s t)
  qed (use s k lease_invD(6,7)[OF inv] in simp_all)
qed

text \<open>\<^verbatim>\<open>Close\<close> and the end of \<^verbatim>\<open>Serve\<close> retire the current generation.\<close>

lemma retire_current_lease_inv:
  assumes inv: "lease_inv y" and s: "gens s' = gens (srv y)" "current s' = current (srv y)" "retired s' = retired (srv y)"
    and c: "closed s'" "current (srv y) = Some i"
  shows "lease_inv (y\<lparr>srv := s', tasks := tasks y @ [RetireMark i]\<rparr>)" (is "lease_inv ?y")
proof (rule lease_invI[of _ i])
  fix j g assume "gens (srv ?y) j = Some g"
  then have "gens (srv y) j = Some g" by (simp add: s)
  from lease_invD(2)[OF inv this] show "gen_ok ?y j g"
    using s c unfolding gen_ok_def by (cases "j = i") auto
next
  fix t j assume "t \<in> set (tasks ?y)" "task_gen t = Some j"
  then show "j \<in> dom (gens (srv ?y))" using lease_invD(1)[OF inv] lease_invD(4)[OF inv, of t j] s(1) c(2) by auto
qed (use lease_invD(1,3,5-8)[OF inv] s c in \<open>auto simp: plan_ok_def\<close>)

lemma step_lease_inv:
  assumes "lease_inv y"
  shows "lease_inv (server_step op y)"
proof (cases op)
  case (OAccept key)
  have "lease_inv (y\<lparr>conns := conns y @ [Accepted key a]\<rparr>)" for a
    by (rule frame_lease_inv[OF assms]) simp_all
  then show ?thesis using assms OAccept by (auto split: option.splits)
next
  case (OConn n peer client)
  then show ?thesis
    using assms conn_lease_inv[OF assms, of n peer client]
    by (cases "conn_step peer client (conns y ! n) (srv y)") auto
next
  case (OTask n)
  then show ?thesis
    using assms task_lease_inv[OF assms, of n] by (cases "task_step (tasks y ! n) (srv y)") (auto simp: after_task_def)
next
  case (OReload compiles digest pick repick listens cancelled rules)
  obtain r s' where pr: "prepareReload compiles digest pick repick listens cancelled rules (srv y) = (r, s')"
    by (cases "prepareReload compiles digest pick repick listens cancelled rules (srv y)")
  note keep = pruned_lease_inv[OF assms prepareReload_effect(1)[OF pr]]
  have none: "lease_inv (y\<lparr>srv := s'\<rparr>)" if "plan y = None"
  proof -
    have "lease_inv (y\<lparr>srv := s', plan := None\<rparr>)" by (rule keep) simp
    moreover have "y\<lparr>srv := s', plan := None\<rparr> = y\<lparr>srv := s'\<rparr>" using that by (cases y) simp
    ultimately show ?thesis by metis
  qed
  have "lease_inv (y\<lparr>srv := s', plan := Some p\<rparr>)" if "r = ReloadPlanned p" for p
    using prepareReload_effect(2)[OF pr that] by (intro keep) simp
  then show ?thesis using assms OReload pr none by (cases r) auto
next
  case (OCommit cancelled)
  have fail: "commitReload cancelled p (srv y) = (Some e, s') \<Longrightarrow> s' = srv y" for p e s'
    by (auto simp: commitReload_def Let_def split: if_splits)
  have drop: "lease_inv (y\<lparr>plan := None\<rparr>)" by (rule frame_lease_inv[OF assms]) simp_all
  show ?thesis
  proof (cases "plan y")
    case (Some p)
    then show ?thesis
      using assms OCommit commit_lease_inv[OF assms Some, of cancelled] drop fail[of p]
      by (cases "commitReload cancelled p (srv y)") (auto split: option.splits)
  qed (use assms OCommit in simp)
next
  case OClose
  obtain i where i: "current (srv y) = Some i" using lease_invD(1)[OF assms] by blast
  show ?thesis
    using assms OClose i retire_current_lease_inv[OF assms, of "(srv y)\<lparr>closed := True, ready := False\<rparr>" i]
    by (auto simp: closeServer_def)
next
  case (OServe cancelled)
  then show ?thesis
    by (intro frame_lease_inv[OF assms]) (auto simp: startServe_def Let_def)
next
  case ORetireCurrent
  obtain i where i: "current (srv y) = Some i" using lease_invD(1)[OF assms] by blast
  then show ?thesis
    using assms ORetireCurrent retire_current_lease_inv[OF assms, of "(srv y)\<lparr>ready := False\<rparr>" i] by auto
qed

lemma start_loop_frame:
  "start_loop listens actual rules s = Inr s' \<Longrightarrow>
     gens s' = gens s \<and> retired s' = retired s \<and> closed s' = closed s \<and> globalUsed s' = globalUsed s"
  by (induction listens actual rules s rule: start_loop.induct) (auto simp: Let_def split: if_splits)

lemma start_lease_inv:
  assumes "server_start y"
  shows "lease_inv y"
proof -
  obtain compiles digest pick listens actual rules m where y: "conns y = []" "tasks y = []" "plan y = None"
    and new: "NewServerWithMetrics compiles digest pick listens actual rules m = Inr (srv y)"
    using assms by (auto simp: server_start_def)
  obtain g s where g: "newRoutingGeneration compiles digest pick 1 (projr (PrepareRuntimeRules compiles rules)) (map fst (listenersByKey s)) = Inr g"
    and s: "start_loop listens actual (map the (projr (PrepareRuntimeRules compiles rules))) empty_server = Inr s" "srv y = putGen 1 g s\<lparr>current := Some 1\<rparr>"
    using new by (auto simp: NewServerWithMetrics_def split: sum.splits option.splits if_splits)
  have f: "gens (srv y) = [1 \<mapsto> g]" "retired (srv y) = []" "\<not> closed (srv y)" "current (srv y) = Some 1"
    using start_loop_frame[OF s(1)] s(2) by (simp_all add: putGen_def empty_server_def)
  show ?thesis
    using new_generation_fresh[OF g] f y unfolding lease_inv_def gen_ok_def by simp
qed

interpretation sv: invariant_system server_start "\<lambda>y z. \<exists>op. z = server_step op y" lease_inv
  by unfold_locales (auto intro: start_lease_inv step_lease_inv)

lemma run_reachable: "(\<lambda>y z. \<exists>op. z = server_step op y)\<^sup>*\<^sup>* y (server_run ops y)"
proof (induction ops arbitrary: y)
  case (Cons op ops)
  have "(\<lambda>y z. \<exists>op. z = server_step op y)\<^sup>*\<^sup>* y (server_step op y)" by blast
  then show ?case using Cons.IH[of "server_step op y"] by (simp add: server_run_def)
qed (simp add: server_run_def)

lemma run_lease_inv: "server_start y \<Longrightarrow> lease_inv (server_run ops y)"
  using sv.reachable_inv run_reachable by blast

end
