(* ===== verification/Server_Quota.thy ===== *)
theory Server_Quota
  imports Server_Machine
begin

text \<open>
  Quotas of the server machine: every admission counter equals the number of connections that
  hold a slot of it, and stays within the limits of the published rules.
\<close>

section \<open>Quotas\<close>

fun global_slot :: "conn_state \<Rightarrow> bool" where
  "global_slot (Admitted key a i ip) = True"
| "global_slot (Reserved key a i ip) = True"
| "global_slot (Assigned key a i ip) = True"
| "global_slot (Refused key a i) = True"
| "global_slot (Swept key a i) = True"
| "global_slot (Unglobal i) = True"
| "global_slot _ = False"

fun rule_slot :: "conn_state \<Rightarrow> nat option" where
  "rule_slot (Reserved key a i ip) = Some a"
| "rule_slot (Assigned key a i ip) = Some a"
| "rule_slot (Refused key a i) = Some a"
| "rule_slot _ = None"

fun ip_slot :: "conn_state \<Rightarrow> (nat \<times> addr) option" where
  "ip_slot (Assigned key a i ip) = Some (a, ip)"
| "ip_slot _ = None"

text \<open>The limits of every rule the server has ever published.\<close>

definition limits :: "int \<Rightarrow> int \<Rightarrow> Server \<Rightarrow> bool" where
  "limits M P s \<longleftrightarrow> 0 \<le> M \<and> 0 \<le> P \<and> (\<forall>i key r. rule_of s key i = Some r \<longrightarrow>
     0 < MaxConnections r \<and> MaxConnections r \<le> M \<and> 0 < MaxConnectionsPerIP r \<and> MaxConnectionsPerIP r \<le> P)"

definition adm_ok :: "server_sys \<Rightarrow> nat \<Rightarrow> listenerAdmission \<Rightarrow> bool" where
  "adm_ok y a adm \<longleftrightarrow> admActive adm = int (cnt (\<lambda>c. rule_slot c = Some a) (conns y))
     \<and> (\<forall>ip. ip_count adm ip = int (cnt (\<lambda>c. ip_slot c = Some (a, ip)) (conns y)))
     \<and> (\<forall>M P. limits M P (srv y) \<longrightarrow> admActive adm \<le> M \<and> (\<forall>ip. ip_count adm ip \<le> P))"

definition quota_inv :: "server_sys \<Rightarrow> bool" where
  "quota_inv y \<longleftrightarrow> globalUsed (srv y) = cnt global_slot (conns y) \<and> globalUsed (srv y) \<le> serverGlobalConnectionLimit
     \<and> (\<forall>a adm. admissions (srv y) a = Some adm \<longrightarrow> adm_ok y a adm)
     \<and> (\<forall>c\<in>set (conns y). \<forall>a. rule_slot c = Some a \<longrightarrow> a \<in> dom (admissions (srv y)))
     \<and> (\<forall>a\<in>dom (admissions (srv y)). a < nextAdmission (srv y))"

lemma ip_count_simps [simp]:
  "ip_count (s\<lparr>admActive := n\<rparr>) ip = ip_count s ip"
  "ip_count (s\<lparr>perIP := AList.update ip' n (perIP s)\<rparr>) ip = (if ip = ip' then n else ip_count s ip)"
  "ip_count (s\<lparr>perIP := AList.delete ip' (perIP s)\<rparr>) ip = (if ip = ip' then 0 else ip_count s ip)"
  by (auto simp: ip_count_def update_conv' delete_conv')

text \<open>A step of a connection keeps its slots, or takes or gives back exactly one.\<close>

definition slots :: "conn_state \<Rightarrow> bool \<times> nat option \<times> (nat \<times> addr) option" where
  "slots c = (global_slot c, rule_slot c, ip_slot c)"

lemma slots_sel [simp]: "slots c = (x, y, z) \<longleftrightarrow> global_slot c = x \<and> rule_slot c = y \<and> ip_slot c = z"
  by (auto simp: slots_def)

definition same_rules :: "Server \<Rightarrow> Server \<Rightarrow> bool" where
  "same_rules s t \<longleftrightarrow> nextAdmission t = nextAdmission s \<and> (\<forall>i key. rule_of t key i = rule_of s key i)"

lemma same_rulesI: "gens t = gens s \<Longrightarrow> nextAdmission t = nextAdmission s \<Longrightarrow> same_rules s t"
  by (simp add: same_rules_def rule_of_def)

lemma same_rules_limits: "same_rules s t \<Longrightarrow> limits M P t = limits M P s"
  by (simp add: same_rules_def limits_def)

lemma putGen_same_rules: "gens s i = Some g \<Longrightarrow> bindings g' = bindings g \<Longrightarrow> same_rules s (putGen i g' s)"
  by (simp add: same_rules_def rule_of_def putGen_def)

lemma try_binding_slots:
  "try_binding key a i s = (c, s') \<Longrightarrow> slots c = (False, None, None) \<and> same_rules s s' \<and> admissions s' = admissions s \<and> globalUsed s' = globalUsed s"
  by (auto simp: try_binding_def tryAcquire_def Let_def split: option.splits if_splits
      intro!: same_rulesI putGen_same_rules) (auto simp: putGen_def)

lemma drop_lease_slots:
  "drop_lease i s = (ts, s') \<Longrightarrow> same_rules s s' \<and> admissions s' = admissions s \<and> globalUsed s' = globalUsed s"
  by (auto simp: drop_lease_def releaseLease_def Let_def split: option.splits if_splits
      intro!: same_rulesI putGen_same_rules) (auto simp: putGen_def)

lemma conn_step_slots:
  assumes st: "conn_step peer client c s = (c', ts, s')" and dom: "\<And>a. rule_slot c = Some a \<Longrightarrow> a \<in> dom (admissions s)"
  obtains (keep) "admissions s' = admissions s" "globalUsed s' = globalUsed s" "slots c' = slots c" "same_rules s s'"
  | (take_global) "slots c = (False, None, None)" "slots c' = (True, None, None)" "globalUsed s < serverGlobalConnectionLimit"
      "globalUsed s' = globalUsed s + 1" "admissions s' = admissions s" "same_rules s s'"
  | (give_global) "slots c = (True, None, None)" "slots c' = (False, None, None)" "globalUsed s' = globalUsed s - 1"
      "admissions s' = admissions s" "same_rules s s'"
  | (reserve) a r adm key i where "slots c = (True, None, None)" "slots c' = (True, Some a, None)" "admissions s a = Some adm"
      "rule_of s key i = Some r" "\<not> (MaxConnections r > 0 \<and> admActive adm \<ge> MaxConnections r)"
      "admissions s' = (admissions s)(a \<mapsto> adm\<lparr>admActive := admActive adm + 1\<rparr>)" "globalUsed s' = globalUsed s" "same_rules s s'"
  | (assign) a ip r adm key i where "slots c = (True, Some a, None)" "slots c' = (True, Some a, Some (a, ip))" "admissions s a = Some adm"
      "rule_of s key i = Some r" "\<not> (MaxConnectionsPerIP r > 0 \<and> ip_count adm ip \<ge> MaxConnectionsPerIP r)"
      "admissions s' = (admissions s)(a \<mapsto> adm\<lparr>perIP := AList.update ip (ip_count adm ip + 1) (perIP adm)\<rparr>)" "globalUsed s' = globalUsed s" "same_rules s s'"
  | (drop_pending) a adm where "slots c = (True, Some a, None)" "slots c' = (True, None, None)" "admissions s a = Some adm"
      "admissions s' = (admissions s)(a \<mapsto> releasePending adm)" "globalUsed s' = globalUsed s" "same_rules s s'"
  | (drop_assigned) a ip adm where "slots c = (True, Some a, Some (a, ip))" "slots c' = (True, None, None)" "admissions s a = Some adm"
      "admissions s' = (admissions s)(a \<mapsto> releaseRule ip adm)" "globalUsed s' = globalUsed s" "same_rules s s'"
proof (cases c)
  case (Accepted key a)
  then show ?thesis using st
    by (intro keep) (auto simp: conn_step_def load_binding_def slots_def intro!: same_rulesI split: option.splits if_splits)
next
  case (Loaded key a i)
  then show ?thesis using st try_binding_slots[of key a i s]
    by (intro keep) (auto simp: conn_step_def slots_def split: prod.splits)
next
  case (Acquired key a i)
  then show ?thesis using st drop_lease_slots[of i s]
    by (intro keep) (auto simp: conn_step_def confirm_binding_def slots_def intro!: same_rulesI split: prod.splits if_splits)
next
  case (Leaving i)
  then show ?thesis using st drop_lease_slots[of i s]
    by (intro keep) (auto simp: conn_step_def slots_def split: prod.splits)
next
  case (Bound key a i)
  show ?thesis
  proof (cases "\<exists>ip. c' = Admitted key a i ip")
    case True
    then show ?thesis using st Bound
      by (intro take_global) (auto simp: conn_step_def admit_conn_def admitGlobal_def Let_def slots_def intro!: same_rulesI split: option.splits if_splits)
  next
    case False
    then show ?thesis using st Bound
      by (intro keep) (auto simp: conn_step_def admit_conn_def admitGlobal_def Let_def slots_def intro!: same_rulesI split: option.splits if_splits)
  qed
next
  case (Admitted key a i ip)
  show ?thesis
  proof (cases "c' = Reserved key a i ip")
    case True
    obtain r adm where ra: "rule_of s key i = Some r" "admissions s a = Some adm"
      using st Admitted True by (auto simp: conn_step_def reserve_conn_def Let_def split: option.splits)
    show ?thesis
      by (rule reserve[of a adm key i r])
        (use st Admitted True ra in \<open>auto simp: conn_step_def reserve_conn_def reserveRule_def putAdm_def slots_def
           intro!: same_rulesI split: if_splits\<close>)
  next
    case False
    then show ?thesis using st Admitted
      by (intro keep) (auto simp: conn_step_def reserve_conn_def Let_def slots_def intro!: same_rulesI split: option.splits if_splits prod.splits)
  qed
next
  case (Reserved key a i ip)
  show ?thesis
  proof (cases "\<exists>ip'. c' = Assigned key a i ip'")
    case True
    then obtain ip' where ip': "c' = Assigned key a i ip'" by blast
    then obtain r adm where ra: "client = Some ip'" "rule_of s key i = Some r" "admissions s a = Some adm"
      using st Reserved by (auto simp: conn_step_def assign_conn_def Let_def split: option.splits if_splits prod.splits)
    show ?thesis
      by (rule assign[of a ip' adm key i r])
        (use st Reserved ip' ra in \<open>auto simp: conn_step_def assign_conn_def assignReservedIP_def putAdm_def slots_def
           intro!: same_rulesI split: if_splits\<close>)
  next
    case False
    then show ?thesis using st Reserved
      by (intro keep) (auto simp: conn_step_def assign_conn_def Let_def slots_def intro!: same_rulesI split: option.splits if_splits prod.splits)
  qed
next
  case (Assigned key a i ip)
  then obtain adm where "admissions s a = Some adm" using dom by fastforce
  then show ?thesis using st Assigned
    by (intro drop_assigned[of a ip adm]) (auto simp: conn_step_def on_adm_def putAdm_def slots_def intro!: same_rulesI)
next
  case (Refused key a i)
  then obtain adm where "admissions s a = Some adm" using dom by fastforce
  then show ?thesis using st Refused
    by (intro drop_pending[of a adm]) (auto simp: conn_step_def on_adm_def putAdm_def slots_def intro!: same_rulesI)
next
  case (Swept key a i)
  then show ?thesis using st
    by (intro keep) (auto simp: conn_step_def maybeCleanupAdmission_def slots_def intro!: same_rulesI)
next
  case (Unglobal i)
  then show ?thesis using st
    by (intro give_global) (auto simp: conn_step_def releaseGlobal_def slots_def intro!: same_rulesI)
next
  case Gone
  then show ?thesis using st by (intro keep) (auto simp: conn_step_def slots_def intro!: same_rulesI)
qed

lemma slot_counts:
  assumes "n < length cs"
  shows "int (cnt global_slot (cs[n := c'])) = int (cnt global_slot cs) + (if global_slot c' then 1 else 0) - (if global_slot (cs ! n) then 1 else 0)"
    "int (cnt (\<lambda>c. rule_slot c = x) (cs[n := c'])) = int (cnt (\<lambda>c. rule_slot c = x) cs) + (if rule_slot c' = x then 1 else 0) - (if rule_slot (cs ! n) = x then 1 else 0)"
    "int (cnt (\<lambda>c. ip_slot c = z) (cs[n := c'])) = int (cnt (\<lambda>c. ip_slot c = z) cs) + (if ip_slot c' = z then 1 else 0) - (if ip_slot (cs ! n) = z then 1 else 0)"
  using cnt_update[OF assms, of global_slot c'] cnt_update[OF assms, of "\<lambda>c. rule_slot c = x" c']
    cnt_update[OF assms, of "\<lambda>c. ip_slot c = z" c'] by (auto split: if_splits)

lemma adm_okI:
  assumes "admActive adm = int (cnt (\<lambda>c. rule_slot c = Some a) (conns y))"
    "\<And>ip. ip_count adm ip = int (cnt (\<lambda>c. ip_slot c = Some (a, ip)) (conns y))"
    "\<And>M P. limits M P (srv y) \<Longrightarrow> admActive adm \<le> M"
    "\<And>M P ip. limits M P (srv y) \<Longrightarrow> ip_count adm ip \<le> P"
  shows "adm_ok y a adm"
  using assms unfolding adm_ok_def by blast

lemma adm_okD:
  assumes "adm_ok y a adm"
  shows "admActive adm = int (cnt (\<lambda>c. rule_slot c = Some a) (conns y))"
    "ip_count adm ip = int (cnt (\<lambda>c. ip_slot c = Some (a, ip)) (conns y))"
    "limits M P (srv y) \<Longrightarrow> admActive adm \<le> M"
    "limits M P (srv y) \<Longrightarrow> ip_count adm ip \<le> P"
  using assms unfolding adm_ok_def by blast+

lemma conn_quota_inv:
  assumes inv: "quota_inv y" and n: "n < length (conns y)" and st: "conn_step peer client (conns y ! n) (srv y) = (c', ts, s')"
  shows "quota_inv (y\<lparr>srv := s', conns := (conns y)[n := c'], tasks := tasks y @ ts\<rparr>)" (is "quota_inv ?y")
proof -
  let ?c = "conns y ! n" and ?s = "srv y"
  note iv = inv[unfolded quota_inv_def]
  have dom: "a \<in> dom (admissions ?s)" if "rule_slot ?c = Some a" for a using iv nth_mem[OF n] that by blast
  note sc1 = slot_counts(1)[OF n, where c' = c']
  have sc2: "int (cnt (\<lambda>c. rule_slot c = Some a) ((conns y)[n := c'])) = int (cnt (\<lambda>c. rule_slot c = Some a) (conns y)) + (if rule_slot c' = Some a then 1 else 0) - (if rule_slot (conns y ! n) = Some a then 1 else 0)" for a
    using slot_counts(2)[OF n, where c' = c'] .
  have sc3: "int (cnt (\<lambda>c. ip_slot c = Some (a, ip)) ((conns y)[n := c'])) = int (cnt (\<lambda>c. ip_slot c = Some (a, ip)) (conns y)) + (if ip_slot c' = Some (a, ip) then 1 else 0) - (if ip_slot (conns y ! n) = Some (a, ip) then 1 else 0)" for a ip
    using slot_counts(3)[OF n, where c' = c'] .
  have doms: "c \<in> set ((conns y)[n := c']) \<Longrightarrow> rule_slot c = Some a \<Longrightarrow> (\<And>a. rule_slot c' = Some a \<Longrightarrow> a \<in> dom (admissions ?s))
      \<Longrightarrow> a \<in> dom (admissions ?s)" for c a
    using iv set_update_subset_insert[of "conns y" n c'] by blast
  have frame: "adm_ok ?y a adm" if "admissions ?s a = Some adm" "same_rules ?s s'"
      "rule_slot c' = Some a \<longleftrightarrow> rule_slot ?c = Some a" "\<And>ip. ip_slot c' = Some (a, ip) \<longleftrightarrow> ip_slot ?c = Some (a, ip)" for a adm
  proof -
    have ok: "adm_ok y a adm" using iv that(1) by blast
    show ?thesis
      by (rule adm_okI) (use adm_okD[OF ok] that sc2[of a] sc3[of a] same_rules_limits in simp_all)
  qed
  have fin: "quota_inv ?y" if "same_rules ?s s'" "dom (admissions s') = dom (admissions ?s)"
      "int (globalUsed s') = int (globalUsed ?s) + (if global_slot c' then 1 else 0) - (if global_slot ?c then 1 else 0)"
      "globalUsed s' \<le> serverGlobalConnectionLimit" "\<And>a. rule_slot c' = Some a \<Longrightarrow> a \<in> dom (admissions ?s)"
      "\<And>a adm. admissions s' a = Some adm \<Longrightarrow> adm_ok ?y a adm"
    using iv that sc1 doms unfolding quota_inv_def same_rules_def by auto
  have pos: "0 < cnt P (conns y)" if "P ?c" for P by (rule cnt_pos[OF n, of P]) (rule that)
  show ?thesis
  proof (rule conn_step_slots[OF st dom])
    assume k: "admissions s' = admissions ?s" "globalUsed s' = globalUsed ?s" "slots c' = slots ?c" "same_rules ?s s'"
    then have "global_slot c' = global_slot ?c" "rule_slot c' = rule_slot ?c" "ip_slot c' = ip_slot ?c" by (auto simp: slots_def)
    then show ?thesis using k iv dom frame by (intro fin) auto
  next
    assume "slots ?c = (False, None, None)" "slots c' = (True, None, None)" "globalUsed ?s < serverGlobalConnectionLimit"
      "globalUsed s' = globalUsed ?s + 1" "admissions s' = admissions ?s" "same_rules ?s s'"
    then show ?thesis using frame by (intro fin) auto
  next
    assume k: "slots ?c = (True, None, None)" "slots c' = (False, None, None)" "globalUsed s' = globalUsed ?s - 1"
      "admissions s' = admissions ?s" "same_rules ?s s'"
    have "0 < globalUsed ?s" using pos[of global_slot] k(1) iv by simp
    then show ?thesis using k iv frame by (intro fin) auto
  next
    fix a r adm key i assume k: "slots ?c = (True, None, None)" "slots c' = (True, Some a, None)" "admissions ?s a = Some adm"
      "rule_of ?s key i = Some r" "\<not> (MaxConnections r > 0 \<and> admActive adm \<ge> MaxConnections r)"
      "admissions s' = (admissions ?s)(a \<mapsto> adm\<lparr>admActive := admActive adm + 1\<rparr>)" "globalUsed s' = globalUsed ?s" "same_rules ?s s'"
    have ok: "adm_ok y a adm" using iv k(3) by blast
    have "admActive adm + 1 \<le> M" if "limits M P ?s" for M P
    proof -
      have "0 < MaxConnections r \<and> MaxConnections r \<le> M" using that k(4) by (auto simp: limits_def)
      then show ?thesis using k(5) by auto
    qed
    then have "adm_ok ?y a (adm\<lparr>admActive := admActive adm + 1\<rparr>)"
      using adm_okD[OF ok] k(1,2) sc2[of a] sc3[of a] same_rules_limits[OF k(8)] by (intro adm_okI) simp_all
    then show ?thesis using k iv frame by (intro fin) (auto split: if_splits)
  next
    fix a ip r adm key i assume k: "slots ?c = (True, Some a, None)" "slots c' = (True, Some a, Some (a, ip))" "admissions ?s a = Some adm"
      "rule_of ?s key i = Some r" "\<not> (MaxConnectionsPerIP r > 0 \<and> ip_count adm ip \<ge> MaxConnectionsPerIP r)"
      "admissions s' = (admissions ?s)(a \<mapsto> adm\<lparr>perIP := AList.update ip (ip_count adm ip + 1) (perIP adm)\<rparr>)" "globalUsed s' = globalUsed ?s" "same_rules ?s s'"
    have ok: "adm_ok y a adm" using iv k(3) by blast
    have "ip_count adm ip + 1 \<le> P" if "limits M P ?s" for M P
    proof -
      have "0 < MaxConnectionsPerIP r \<and> MaxConnectionsPerIP r \<le> P" using that k(4) by (auto simp: limits_def)
      then show ?thesis using k(5) by auto
    qed
    then have "adm_ok ?y a (adm\<lparr>perIP := AList.update ip (ip_count adm ip + 1) (perIP adm)\<rparr>)"
      using adm_okD[OF ok] k(1,2) sc2[of a] sc3[of a] same_rules_limits[OF k(8)] by (intro adm_okI) simp_all
    then show ?thesis using k iv dom frame by (intro fin) (auto split: if_splits)
  next
    fix a adm assume k: "slots ?c = (True, Some a, None)" "slots c' = (True, None, None)" "admissions ?s a = Some adm"
      "admissions s' = (admissions ?s)(a \<mapsto> releasePending adm)" "globalUsed s' = globalUsed ?s" "same_rules ?s s'"
    have ok: "adm_ok y a adm" using iv k(3) by blast
    have "0 < admActive adm" using ok pos[of "\<lambda>c. rule_slot c = Some a"] k(1) by (simp add: adm_ok_def)
    then have "adm_ok ?y a (releasePending adm)"
      using adm_okD[OF ok] k(1,2) sc2[of a] sc3[of a] same_rules_limits[OF k(6)] unfolding releasePending_def by (intro adm_okI) force+
    then show ?thesis using k iv frame by (intro fin) (auto split: if_splits)
  next
    fix a ip adm assume k: "slots ?c = (True, Some a, Some (a, ip))" "slots c' = (True, None, None)" "admissions ?s a = Some adm"
      "admissions s' = (admissions ?s)(a \<mapsto> releaseRule ip adm)" "globalUsed s' = globalUsed ?s" "same_rules ?s s'"
    have ok: "adm_ok y a adm" using iv k(3) by blast
    have p: "0 < admActive adm" "0 < ip_count adm ip"
      using ok pos[of "\<lambda>c. rule_slot c = Some a"] pos[of "\<lambda>c. ip_slot c = Some (a, ip)"] k(1) by (simp_all add: adm_ok_def)
    have rr: "admActive (releaseRule ip adm) = admActive adm - 1" "ip_count (releaseRule ip adm) x = ip_count adm x - (if x = ip then 1 else 0)" for x
      using p by (auto simp: releaseRule_def Let_def ip_count_def update_conv' delete_conv')
    have "adm_ok ?y a (releaseRule ip adm)"
    proof (rule adm_okI)
      show "admActive (releaseRule ip adm) = int (cnt (\<lambda>c. rule_slot c = Some a) (conns ?y))"
        using adm_okD(1)[OF ok] rr(1) sc2[of a] k(1,2) by simp
      show "ip_count (releaseRule ip adm) x = int (cnt (\<lambda>c. ip_slot c = Some (a, x)) (conns ?y))" for x
        using adm_okD(2)[OF ok, of x] rr(2)[of x] sc3[of a x] k(1,2) by simp
      show "admActive (releaseRule ip adm) \<le> M" if "limits M P (srv ?y)" for M P
        using that adm_okD(3)[OF ok, of M P] same_rules_limits[OF k(6)] rr(1) by simp
      show "ip_count (releaseRule ip adm) x \<le> P" if "limits M P (srv ?y)" for M P x
        using that adm_okD(4)[OF ok, of M P x] same_rules_limits[OF k(6)] rr(2)[of x] by (cases "x = ip") simp_all
    qed
    then show ?thesis using k iv frame by (intro fin) (auto split: if_splits)
  qed
qed

text \<open>The other steps leave the slots alone, publish rules or create idle admission objects.\<close>

definition grows :: "Server \<Rightarrow> Server \<Rightarrow> bool" where
  "grows s t \<longleftrightarrow> globalUsed t = globalUsed s \<and> nextAdmission s \<le> nextAdmission t
     \<and> (\<forall>i key r. rule_of s key i = Some r \<longrightarrow> rule_of t key i = Some r)
     \<and> (\<forall>a. a < nextAdmission s \<longrightarrow> admissions t a = admissions s a)
     \<and> (\<forall>a adm. nextAdmission s \<le> a \<longrightarrow> admissions t a = Some adm \<longrightarrow> a < nextAdmission t \<and> adm = new_admission)"

lemma grows_limits: "grows s t \<Longrightarrow> limits M P t \<Longrightarrow> limits M P s"
  by (fastforce simp: grows_def limits_def)

lemma growsI:
  assumes "globalUsed t = globalUsed s" "nextAdmission t = nextAdmission s" "admissions t = admissions s"
    "\<And>i key r. rule_of s key i = Some r \<Longrightarrow> rule_of t key i = Some r" "\<forall>a\<in>dom (admissions s). a < nextAdmission s"
  shows "grows s t"
  using assms unfolding grows_def by (auto simp: domIff) (metis domI leD)+

lemma new_admission_counts [simp]: "admActive new_admission = 0" "ip_count new_admission ip = 0"
  by (simp_all add: new_admission_def ip_count_def)

lemma grows_quota_inv:
  assumes inv: "quota_inv y" and g: "grows (srv y) s'" and cs: "conns y' = conns y @ cs" "\<forall>c\<in>set cs. slots c = (False, None, None)"
    and s: "srv y' = s'"
  shows "quota_inv y'"
proof -
  note iv = inv[unfolded quota_inv_def]
  have z: "cnt global_slot cs = 0" "cnt (\<lambda>c. rule_slot c = Some a) cs = 0" "cnt (\<lambda>c. ip_slot c = Some (a, ip)) cs = 0" for a ip
    using cs(2) by (auto simp: cnt_zero)
  have slot: "a < nextAdmission (srv y)" if "c \<in> set (conns y)" "rule_slot c = Some a" for c a using iv that by blast
  have ipr: "rule_slot c = Some a" if "ip_slot c = Some (a, ip)" for c a ip using that by (cases c) auto
  have ok: "adm_ok y' a adm" if a: "admissions s' a = Some adm" for a adm
  proof (cases "a < nextAdmission (srv y)")
    case True
    then have "admissions (srv y) a = Some adm" using a g by (simp add: grows_def)
    then have ok: "adm_ok y a adm" using iv by blast
    show ?thesis
      by (rule adm_okI) (use adm_okD(1,2)[OF ok] adm_okD(3,4)[OF ok grows_limits[OF g]] cs(1) z s in simp_all)
  next
    case False
    then have n: "adm = new_admission" using a g by (auto simp: grows_def not_less)
    have nr: "cnt (\<lambda>c. rule_slot c = Some a) (conns y) = 0" using False slot by (auto simp: cnt_zero)
    then have "cnt (\<lambda>c. ip_slot c = Some (a, ip)) (conns y) = 0" for ip using ipr by (auto simp: cnt_zero)
    then show ?thesis
      using n nr cs(1) z by (intro adm_okI) (simp_all add: limits_def)
  qed
  have "a \<in> dom (admissions s')" if c: "c \<in> set (conns y')" "rule_slot c = Some a" for c a
  proof -
    have "c \<in> set (conns y)" using c cs by auto
    then have "a \<in> dom (admissions (srv y))" "a < nextAdmission (srv y)" using iv c(2) slot by blast+
    then show ?thesis using g by (auto simp: grows_def)
  qed
  moreover have "a < nextAdmission s'" if "a \<in> dom (admissions s')" for a
    using g that by (cases "a < nextAdmission (srv y)") (auto simp: grows_def)
  ultimately show ?thesis
    using iv ok g z(1) cs(1) s unfolding quota_inv_def grows_def by auto
qed

lemma grows_trans: assumes "grows s t" "grows t u" shows "grows s u"
proof -
  have st: "nextAdmission s \<le> nextAdmission t" "nextAdmission t \<le> nextAdmission u" using assms by (auto simp: grows_def)
  have "a < nextAdmission u \<and> adm = new_admission" if "nextAdmission s \<le> a" "admissions u a = Some adm" for a adm
  proof (cases "a < nextAdmission t")
    case True
    then have "admissions t a = Some adm" using assms(2) that(2) by (simp add: grows_def)
    then show ?thesis using assms(1) that(1) True st(2) by (auto simp: grows_def)
  next
    case False
    then show ?thesis using assms(2) that(2) by (auto simp: grows_def not_less)
  qed
  moreover have "admissions u a = admissions s a" if "a < nextAdmission s" for a
    using assms that st by (simp add: grows_def)
  ultimately show ?thesis using assms st by (simp add: grows_def)
qed

lemma adm_alloc_grows:
  assumes "\<forall>a\<in>dom (admissions s). a < nextAdmission s"
  shows "grows s (s\<lparr>admissions := (admissions s)(nextAdmission s \<mapsto> new_admission), nextAdmission := nextAdmission s + 1\<rparr>)"
proof -
  have "admissions s a = None" if "nextAdmission s \<le> a" for a using assms that by (meson domIff leD)
  then show ?thesis by (simp add: grows_def rule_of_def)
qed

lemma stage_loop_grows:
  "stage_loop listens existing keys staged reused s = (r, s') \<Longrightarrow> \<forall>a\<in>dom (admissions s). a < nextAdmission s \<Longrightarrow> grows s s'"
proof (induction listens existing keys staged reused s arbitrary: r rule: stage_loop.induct)
  case (2 listens existing key keys staged reused s)
  show ?case
  proof (cases "map_of existing key = None \<and> listens key \<and> map_of (admissionsByKey s) key = None")
    case True
    have "\<forall>a\<in>dom (admissions (s\<lparr>admissions := (admissions s)(nextAdmission s \<mapsto> new_admission), nextAdmission := nextAdmission s + 1\<rparr>)).
        a < nextAdmission (s\<lparr>admissions := (admissions s)(nextAdmission s \<mapsto> new_admission), nextAdmission := nextAdmission s + 1\<rparr>)"
      using 2(5) by (auto simp: less_Suc_eq)
    then have "grows (s\<lparr>admissions := (admissions s)(nextAdmission s \<mapsto> new_admission), nextAdmission := nextAdmission s + 1\<rparr>) s'"
      using True 2(4) by (intro 2(2)) auto
    then show ?thesis by (rule grows_trans[OF adm_alloc_grows[OF 2(5)]])
  next
    case False
    then show ?thesis using 2 by (auto split: if_splits option.splits intro: growsI)
  qed
qed (auto intro: growsI)

lemma pruned_same: "gens t = gens s \<Longrightarrow> rule_of t key i = rule_of s key i"
  by (simp add: rule_of_def)

lemma quota_adm_dom: "quota_inv y \<Longrightarrow> \<forall>a\<in>dom (admissions (srv y)). a < nextAdmission (srv y)"
  by (simp add: quota_inv_def)

lemma prepareReload_grows:
  assumes "prepareReload compiles digest pick repick listens cancelled rules s = (r, s')" "\<forall>a\<in>dom (admissions s). a < nextAdmission s"
  shows "grows s s'"
proof -
  define t where "t = pruneCompletedRetiredLocked s"
  have t: "admissions t = admissions s" "nextAdmission t = nextAdmission s" "grows s t"
    using assms(2) by (auto simp: t_def pruneCompletedRetiredLocked_def rule_of_def intro!: growsI)
  have s: "grows s s" using assms(2) by (auto intro: growsI)
  consider "s' = s" | "s' = t" | keys sr where "stage_loop listens (listenersByKey t) keys [] [] t = (sr, s')"
    using assms(1) by (auto simp: prepareReload_def Let_def retiredCount_def t_def[symmetric] split: sum.splits option.splits if_splits prod.splits)
  then show ?thesis
  proof cases
    case 3
    have "grows t s'" using stage_loop_grows[OF 3] assms(2) t by simp
    then show ?thesis by (rule grows_trans[OF t(3)])
  qed (use s t in auto)
qed

lemma task_grows:
  assumes "task_step t s = (ts, s')" "\<forall>a\<in>dom (admissions s). a < nextAdmission s"
  shows "grows s s'"
proof (rule growsI[OF _ _ _ _ assms(2)])
  have sh: "globalUsed s' = globalUsed s \<and> nextAdmission s' = nextAdmission s \<and> admissions s' = admissions s"
    using assms(1) by (cases t) (auto simp: task_step_def on_gen_def putGen_def pruneAdmissions_def Let_def split: option.splits if_splits prod.splits)
  then show "globalUsed s' = globalUsed s" "nextAdmission s' = nextAdmission s" "admissions s' = admissions s" by auto
  have "rule_of s' key i = rule_of s key i" for key i
    using assms(1)
    by (cases t) (auto simp: task_step_def on_gen_def putGen_def pruneAdmissions_def Let_def rule_of_def retire_mark_def retire_stopped_def cleanup_def
        split: option.splits if_splits prod.splits)
  then show "\<And>i key r. rule_of s key i = Some r \<Longrightarrow> rule_of s' key i = Some r" by simp
qed

lemma commit_grows:
  assumes inv: "lease_inv y" and p: "plan y = Some p" and c: "commitReload cancelled p (srv y) = (e, s')"
    and d: "\<forall>a\<in>dom (admissions (srv y)). a < nextAdmission (srv y)"
  shows "grows (srv y) s'"
proof (rule growsI[OF _ _ _ _ d])
  show "globalUsed s' = globalUsed (srv y)" "nextAdmission s' = nextAdmission (srv y)" "admissions s' = admissions (srv y)"
    using c by (auto simp: commitReload_def Let_def putGen_def trackRetired_def split: if_splits)
  note pk = lease_invD(8)[OF inv p, unfolded plan_ok_def]
  have fresh: "planOld p + 1 \<notin> dom (gens (srv y))" using lease_invD(1)[OF inv] pk by (metis leD option.inject)
  fix i key r assume r: "rule_of (srv y) key i = Some r"
  then have "i \<noteq> planOld p + 1" using fresh by (auto simp: rule_of_def split: option.splits)
  moreover have "gens s' = gens (srv y) \<or> gens s' = (gens (srv y))(planOld p + 1 \<mapsto> planNext p)"
    using c pk by (auto simp: commitReload_def Let_def putGen_def trackRetired_def split: if_splits)
  ultimately show "rule_of s' key i = Some r" using r by (auto simp: rule_of_def)
qed

definition server_inv :: "server_sys \<Rightarrow> bool" where
  "server_inv y \<longleftrightarrow> lease_inv y \<and> quota_inv y"

lemma step_quota_inv:
  assumes inv: "lease_inv y" and q: "quota_inv y"
  shows "quota_inv (server_step op y)"
proof (cases op)
  case (OAccept key)
  have "quota_inv (y\<lparr>conns := conns y @ [Accepted key a]\<rparr>)" for a
    by (rule grows_quota_inv[OF q, of "srv y" _ "[Accepted key a]"]) (use quota_adm_dom[OF q] in \<open>auto intro: growsI\<close>)
  then show ?thesis using q OAccept by (auto split: option.splits)
next
  case (OConn n peer client)
  then show ?thesis
    using q conn_quota_inv[OF q, of n peer client]
    by (cases "conn_step peer client (conns y ! n) (srv y)") auto
next
  case (OTask n)
  have "quota_inv (y\<lparr>srv := s', tasks := take n (tasks y) @ drop (Suc n) (tasks y) @ ts\<rparr>)" if "task_step (tasks y ! n) (srv y) = (ts, s')" for ts s'
    by (rule grows_quota_inv[OF q task_grows[OF that quota_adm_dom[OF q]], of _ "[]"]) simp_all
  then show ?thesis using q OTask by (cases "task_step (tasks y ! n) (srv y)") auto
next
  case (OReload compiles digest pick repick listens cancelled rules)
  obtain r s' where pr: "prepareReload compiles digest pick repick listens cancelled rules (srv y) = (r, s')"
    by (cases "prepareReload compiles digest pick repick listens cancelled rules (srv y)")
  note g = grows_quota_inv[OF q prepareReload_grows[OF pr quota_adm_dom[OF q]], of _ "[]"]
  have "quota_inv (y\<lparr>srv := s'\<rparr>)" "\<And>p. quota_inv (y\<lparr>srv := s', plan := p\<rparr>)" by (rule g; simp)+
  then show ?thesis using q OReload pr by (cases r) auto
next
  case (OCommit cancelled)
  have "quota_inv (y\<lparr>srv := s', plan := pl\<rparr>)" "quota_inv (y\<lparr>srv := s', plan := pl, tasks := ts\<rparr>)"
    if "plan y = Some p" "commitReload cancelled p (srv y) = (e, s')" for p e s' pl ts
    by (rule grows_quota_inv[OF q commit_grows[OF inv that quota_adm_dom[OF q]], of _ "[]"]; simp)+
  then show ?thesis using q OCommit
    by (cases "plan y") (auto split: prod.splits option.splits)
next
  case OClose
  have "grows (srv y) (snd (closeServer (srv y)))"
    by (rule growsI[OF _ _ _ _ quota_adm_dom[OF q]]) (auto simp: closeServer_def rule_of_def)
  then show ?thesis using OClose
    by (intro grows_quota_inv[OF q, of "snd (closeServer (srv y))" _ "[]"]) (simp_all add: split_beta Let_def)
next
  case (OServe cancelled)
  have "grows (srv y) (snd (startServe cancelled (srv y)))"
    by (rule growsI[OF _ _ _ _ quota_adm_dom[OF q]]) (auto simp: startServe_def Let_def rule_of_def)
  then show ?thesis using OServe
    by (intro grows_quota_inv[OF q, of "snd (startServe cancelled (srv y))" _ "[]"]) simp_all
next
  case ORetireCurrent
  have "grows (srv y) ((srv y)\<lparr>ready := False\<rparr>)"
    by (rule growsI[OF _ _ _ _ quota_adm_dom[OF q]]) (auto simp: rule_of_def)
  then show ?thesis using q ORetireCurrent
    by (cases "closed (srv y)") (auto intro!: grows_quota_inv[OF q, of "(srv y)\<lparr>ready := False\<rparr>" _ "[]"])
qed

definition fresh_adm :: "Server \<Rightarrow> bool" where
  "fresh_adm s \<longleftrightarrow> globalUsed s = 0 \<and> (\<forall>a adm. admissions s a = Some adm \<longrightarrow> adm = new_admission \<and> a < nextAdmission s)"

lemma start_loop_quota: "start_loop listens actual rules s = Inr s' \<Longrightarrow> fresh_adm s \<Longrightarrow> fresh_adm s'"
proof (induction listens actual rules s rule: start_loop.induct)
  case (2 listens actual rule rest s)
  let ?t = "s\<lparr>listenersByKey := listenersByKey s @ [(runtimeListenerKey (Listen rule) (actual (Listen rule)), nextAdmission s)],
    admissionsByKey := admissionsByKey s @ [(runtimeListenerKey (Listen rule) (actual (Listen rule)), nextAdmission s)],
    admissions := (admissions s)(nextAdmission s \<mapsto> new_admission), nextAdmission := nextAdmission s + 1\<rparr>"
  have "fresh_adm ?t" using 2(3) by (auto simp: fresh_adm_def less_Suc_eq)
  then show ?case using 2(2) by (intro 2(1)) (auto simp: Let_def split: if_splits)
qed simp

lemma start_quota_inv:
  assumes "server_start y"
  shows "quota_inv y"
proof -
  obtain compiles digest pick listens actual rules m where y: "conns y = []"
    and new: "NewServerWithMetrics compiles digest pick listens actual rules m = Inr (srv y)"
    using assms by (auto simp: server_start_def)
  obtain g s where "newRoutingGeneration compiles digest pick 1 (projr (PrepareRuntimeRules compiles rules)) (map fst (listenersByKey s)) = Inr g"
    and s: "start_loop listens actual (map the (projr (PrepareRuntimeRules compiles rules))) empty_server = Inr s" "srv y = putGen 1 g s\<lparr>current := Some 1\<rparr>"
    using new by (auto simp: NewServerWithMetrics_def split: sum.splits option.splits if_splits)
  have f: "globalUsed s = 0" "admissions s a = Some adm \<Longrightarrow> adm = new_admission" "admissions s a = Some adm \<Longrightarrow> a < nextAdmission s" for a adm
    using start_loop_quota[OF s(1)] by (simp_all add: empty_server_def fresh_adm_def)
  have "adm_ok y a adm" if "admissions (srv y) a = Some adm" for a adm
    using f(2)[of a adm] that s(2) y by (intro adm_okI) (simp_all add: putGen_def limits_def)
  then show ?thesis using s(2) y f(1,3) unfolding quota_inv_def by (auto simp: putGen_def)
qed

interpretation sq: invariant_system server_start "\<lambda>y z. \<exists>op. z = server_step op y" server_inv
  by unfold_locales (auto simp: server_inv_def intro: start_lease_inv start_quota_inv step_lease_inv step_quota_inv)

lemma run_quota_inv: "server_start y \<Longrightarrow> quota_inv (server_run ops y)"
  using sq.reachable_inv run_reachable by (auto simp: server_inv_def)

end
