(* ===== verification/Server_Properties.thy ===== *)
theory Server_Properties
  imports Server_Quota
begin

text \<open>
  What the server machine guarantees on every run: the listener table and the published rules, the
  atomicity of reloads, a refinement of the lease protocol to an atomic specification, the safety
  and liveness of leases, and a bound on every admission object, with a concrete run.
\<close>

section \<open>The listener table and the published rules\<close>

definition keys :: "routingGeneration \<Rightarrow> string set" where
  "keys g = set (map fst (bindings g))"

definition rules_ok :: "routingGeneration \<Rightarrow> bool" where
  "rules_ok g \<longleftrightarrow> (\<forall>r\<in>set (map (brule \<circ> snd) (bindings g)). \<exists>compiles. rule_wf compiles r)"

definition open_keys :: "Server \<Rightarrow> string set" where
  "open_keys s = set (map fst (listenersByKey s))"

definition plan_keys :: "Server \<Rightarrow> reload_plan \<Rightarrow> bool" where
  "plan_keys s p \<longleftrightarrow> rules_ok (planNext p) \<and> set (map fst (planStaged p)) \<union> set (planReused p) = keys (planNext p)
     \<and> set (planReused p) \<subseteq> open_keys s \<and> set (planRemoved p) = open_keys s - keys (planNext p)"

definition publish_inv :: "server_sys \<Rightarrow> bool" where
  "publish_inv y \<longleftrightarrow> (\<forall>i g. gens (srv y) i = Some g \<longrightarrow> rules_ok g)
     \<and> (\<forall>i g. current (srv y) = Some i \<longrightarrow> gens (srv y) i = Some g \<longrightarrow> open_keys (srv y) = keys g)
     \<and> (\<forall>p. plan y = Some p \<longrightarrow> plan_keys (srv y) p)"

lemma bind_loop_bindings:
  "bind_loop pick i ps bs = Inr bs' \<Longrightarrow> map fst bs' = map fst bs @ map snd ps \<and> map (brule \<circ> snd) bs' = map (brule \<circ> snd) bs @ map fst ps"
  by (induction pick i ps bs rule: bind_loop.induct) (auto split: if_splits)

lemma prepared_rules_wf:
  assumes "PrepareRuntimeRules compiles rs = Inr rs'"
  shows "\<forall>r\<in>set (map the rs'). rule_wf compiles r" "length rs' = length rs"
proof -
  have "rules_loop compiles True \<lparr>rsNames = [], rsListeners = [], rsPrewarm = {}, rsJobs = 0\<rparr> rs = Inr rs'"
    using assms by (auto simp: PrepareRuntimeRules_def validateRules_def split: if_splits)
  from rules_loop_valid[OF this] show "\<forall>r\<in>set (map the rs'). rule_wf compiles r" "length rs' = length rs" by auto
qed

lemma new_generation_published:
  assumes "newRoutingGeneration compiles digest pick i rs ks = Inr g"
  shows "keys g = set ks" "rules_ok g"
proof -
  obtain clone bs where p: "PrepareRuntimeRules compiles rs = Inr clone" "bind_loop pick 0 (zip (map the clone) ks) [] = Inr bs"
    "length ks = length rs" "bindings g = bs"
    using assms by (auto simp: newRoutingGeneration_def Let_def split: if_splits sum.splits)
  note b = bind_loop_bindings[OF p(2)] and w = prepared_rules_wf[OF p(1)]
  show "keys g = set ks" using b p(3,4) w(2) unfolding keys_def by simp
  have "set (map (brule \<circ> snd) (bindings g)) \<subseteq> set (map the clone)"
    using b p(4) set_zip_leftD by fastforce
  then show "rules_ok g" using w(1) unfolding rules_ok_def by blast
qed

lemma preserve_published [simp]:
  "keys (preserveConnectProxyUserAgentSelections repick p g) = keys g"
  "rules_ok (preserveConnectProxyUserAgentSelections repick p g) = rules_ok g"
proof -
  have "map fst (bindings (preserveConnectProxyUserAgentSelections repick p g)) = map fst (bindings g)"
    by (simp add: preserveConnectProxyUserAgentSelections_def split_def)
  then show "keys (preserveConnectProxyUserAgentSelections repick p g) = keys g" unfolding keys_def by metis
  have "map (brule \<circ> snd) (bindings (preserveConnectProxyUserAgentSelections repick p g)) = map (brule \<circ> snd) (bindings g)"
    by (simp add: preserveConnectProxyUserAgentSelections_def split_def)
  then show "rules_ok (preserveConnectProxyUserAgentSelections repick p g) = rules_ok g" unfolding rules_ok_def by metis
qed

lemma stage_loop_keys:
  "stage_loop listens existing ks staged reused s = (Inr (staged', reused'), s') \<Longrightarrow>
     set (map fst staged') \<union> set reused' = set (map fst staged) \<union> set reused \<union> set ks
     \<and> (set reused \<subseteq> dom (map_of existing) \<longrightarrow> set reused' \<subseteq> dom (map_of existing))"
  by (induction listens existing ks staged reused s rule: stage_loop.induct) (auto split: if_splits option.splits)

lemma prepareReload_keys:
  assumes "prepareReload compiles digest pick repick listens cancelled rules s = (ReloadPlanned p, s')"
  shows "plan_keys s' p"
proof -
  define t where "t = pruneCompletedRetiredLocked s"
  have t: "listenersByKey t = listenersByKey s" by (simp add: t_def pruneCompletedRetiredLocked_def)
  obtain ks old oldGen next_gen staged reused where n: "newRoutingGeneration compiles digest pick (old + 1) rules ks = Inr next_gen"
    and sl: "stage_loop listens (listenersByKey t) ks [] [] t = (Inr (staged, reused), s')"
    and p: "p = \<lparr>planOld = old, planNext = preserveConnectProxyUserAgentSelections repick oldGen next_gen, planStaged = staged, planReused = reused,
      planRemoved = filter (\<lambda>key. map_of (bindings (preserveConnectProxyUserAgentSelections repick oldGen next_gen)) key = None) (map fst (listenersByKey s'))\<rparr>"
    using assms
    by (auto simp: prepareReload_def Let_def retiredCount_def t_def[symmetric] split: sum.splits option.splits if_splits prod.splits)
  have l: "listenersByKey s' = listenersByKey t" using stage_loop_frame[OF sl] by blast
  have k: "map_of (bindings g) key = None \<longleftrightarrow> key \<notin> keys g" for g key by (simp add: keys_def map_of_eq_None_iff)
  show ?thesis
    using stage_loop_keys[OF sl] new_generation_published[OF n] l unfolding plan_keys_def p
    by (auto simp: k open_keys_def dom_map_of_conv_image_fst)
qed

text \<open>Steps that leave the bindings of every generation and the listener table alone.\<close>

definition same_bindings :: "Server \<Rightarrow> Server \<Rightarrow> bool" where
  "same_bindings s t \<longleftrightarrow> current t = current s \<and> listenersByKey t = listenersByKey s
     \<and> (\<forall>i. map_option bindings (gens t i) = map_option bindings (gens s i))"

lemma same_bindings_trans: "same_bindings s t \<Longrightarrow> same_bindings t u \<Longrightarrow> same_bindings s u"
  by (simp add: same_bindings_def)

lemma same_bindingsI: "current t = current s \<Longrightarrow> listenersByKey t = listenersByKey s \<Longrightarrow> gens t = gens s \<Longrightarrow> same_bindings s t"
  by (simp add: same_bindings_def)

lemma putGen_same_bindings: "gens s i = Some g \<Longrightarrow> bindings g' = bindings g \<Longrightarrow> same_bindings s (putGen i g' s)"
  by (simp add: same_bindings_def putGen_def)

lemma drop_lease_bindings: "drop_lease i s = (ts, s') \<Longrightarrow> same_bindings s s'"
  by (auto simp: drop_lease_def releaseLease_def Let_def split: option.splits if_splits intro!: putGen_same_bindings same_bindingsI)

lemma conn_same_bindings:
  assumes "conn_step peer client c s = (c', ts, s')"
  shows "same_bindings s s'"
proof (cases c)
  case (Loaded key a i)
  then show ?thesis using assms
    by (auto simp: conn_step_def try_binding_def tryAcquire_def Let_def split: option.splits if_splits prod.splits
        intro!: putGen_same_bindings same_bindingsI)
next
  case (Acquired key a i)
  then show ?thesis using assms
    by (auto simp: conn_step_def confirm_binding_def split: if_splits prod.splits intro: drop_lease_bindings same_bindingsI)
next
  case (Leaving i)
  then show ?thesis using assms by (auto simp: conn_step_def split: prod.splits intro: drop_lease_bindings)
qed (use assms in \<open>auto simp: conn_step_def admit_conn_def admitGlobal_def reserve_conn_def assign_conn_def on_adm_def putAdm_def
    maybeCleanupAdmission_def releaseGlobal_def Let_def split: option.splits if_splits prod.splits intro!: same_bindingsI\<close>)

lemma task_same_bindings: "task_step t s = (ts, s') \<Longrightarrow> same_bindings s s'"
  by (cases t) (auto simp: task_step_def on_gen_def pruneAdmissions_def Let_def retire_mark_def retire_stopped_def cleanup_def
      split: option.splits if_splits prod.splits intro!: putGen_same_bindings same_bindingsI)

lemma same_bindings_publish:
  assumes inv: "publish_inv y" and s: "same_bindings (srv y) (srv y')" and p: "plan y' = plan y \<or> (\<forall>p. plan y' = Some p \<longrightarrow> plan_keys (srv y') p)"
  shows "publish_inv y'"
proof -
  have k: "\<exists>g'. gens (srv y) i = Some g' \<and> keys g' = keys g \<and> rules_ok g' = rules_ok g" if "gens (srv y') i = Some g" for i g
  proof -
    have "map_option bindings (gens (srv y) i) = Some (bindings g)" using s that unfolding same_bindings_def by (metis option.map(2))
    then show ?thesis by (auto simp: keys_def rules_ok_def)
  qed
  have o: "open_keys (srv y') = open_keys (srv y)" "current (srv y') = current (srv y)" using s by (simp_all add: same_bindings_def open_keys_def)
  have "plan_keys (srv y') q = plan_keys (srv y) q" for q by (simp add: plan_keys_def o)
  then show ?thesis using inv p k o unfolding publish_inv_def by metis
qed

lemma commit_publish:
  assumes inv: "publish_inv y" and p: "plan y = Some p" and c: "commitReload cancelled p (srv y) = (None, s')"
    and s: "srv y' = s'" "plan y' = None"
  shows "publish_inv y'"
proof -
  note pk = inv[unfolded publish_inv_def, THEN conjunct2, THEN conjunct2, rule_format, OF p, unfolded plan_keys_def]
  have g: "gens s' = (gens (srv y))(genId (planNext p) \<mapsto> planNext p)" "current s' = Some (genId (planNext p))"
    and l: "listenersByKey s' = filter (\<lambda>(key, a). key \<notin> set (planRemoved p))
      (AList.updates (map fst (planStaged p)) (map snd (planStaged p)) (listenersByKey (srv y)))"
    using c by (auto simp: commitReload_def Let_def putGen_def trackRetired_def split: if_splits)
  have up: "set (map fst (AList.updates (map fst (planStaged p)) (map snd (planStaged p)) (listenersByKey (srv y))))
      = open_keys (srv y) \<union> set (map fst (planStaged p))"
    using arg_cong[OF updates_conv'[of "map fst (planStaged p)" "map snd (planStaged p)" "listenersByKey (srv y)"], of dom]
    by (simp add: open_keys_def dom_map_of_conv_image_fst Un_commute)
  have fk: "set (map fst (filter (\<lambda>(key, a). key \<notin> R) xs)) = set (map fst xs) - R" for R :: "string set" and xs :: "(string \<times> nat) list" by force
  have "open_keys s' = (open_keys (srv y) \<union> set (map fst (planStaged p))) - set (planRemoved p)"
    unfolding open_keys_def l fk up[unfolded open_keys_def] ..
  then have "open_keys s' = keys (planNext p)" using pk by blast
  moreover have "rules_ok h" if "gens s' i = Some h" for i h using that inv pk g(1) by (auto simp: publish_inv_def split: if_splits)
  ultimately show ?thesis using g s unfolding publish_inv_def by auto
qed

lemma step_publish_inv:
  assumes inv: "publish_inv y"
  shows "publish_inv (server_step op y)"
proof (cases op)
  case (OAccept key)
  have "publish_inv (y\<lparr>conns := conns y @ [Accepted key a]\<rparr>)" for a
    by (rule same_bindings_publish[OF inv]) (auto intro: same_bindingsI)
  then show ?thesis using inv OAccept by (auto split: option.splits)
next
  case (OConn n peer client)
  then show ?thesis
    using inv conn_same_bindings[of peer client "conns y ! n" "srv y"]
    by (cases "conn_step peer client (conns y ! n) (srv y)") (auto intro!: same_bindings_publish[OF inv])
next
  case (OTask n)
  then show ?thesis
    using inv task_same_bindings[of "tasks y ! n" "srv y"]
    by (cases "task_step (tasks y ! n) (srv y)") (auto intro!: same_bindings_publish[OF inv])
next
  case (OReload compiles digest pick repick listens cancelled rules)
  obtain r s' where pr: "prepareReload compiles digest pick repick listens cancelled rules (srv y) = (r, s')"
    by (cases "prepareReload compiles digest pick repick listens cancelled rules (srv y)")
  have sb: "same_bindings (srv y) s'" using prepareReload_effect(1)[OF pr] by (auto simp: pruned_def intro: same_bindingsI)
  have "publish_inv (y\<lparr>srv := s'\<rparr>)" by (rule same_bindings_publish[OF inv]) (use sb in auto)
  moreover have "publish_inv (y\<lparr>srv := s', plan := Some p\<rparr>)" if "r = ReloadPlanned p" for p
    by (rule same_bindings_publish[OF inv]) (use sb prepareReload_keys[OF pr[unfolded that]] in auto)
  ultimately show ?thesis using inv OReload pr by (cases r) auto
next
  case (OCommit cancelled)
  have fail: "commitReload cancelled p (srv y) = (Some e, s') \<Longrightarrow> s' = srv y" for p e s'
    by (auto simp: commitReload_def Let_def split: if_splits)
  have drop: "publish_inv (y\<lparr>plan := None\<rparr>)" by (rule same_bindings_publish[OF inv]) (auto intro: same_bindingsI)
  show ?thesis
  proof (cases "plan y")
    case (Some p)
    then show ?thesis
      using OCommit commit_publish[OF inv Some, of cancelled] drop fail[of p]
      by (cases "commitReload cancelled p (srv y)") (auto split: option.splits)
  qed (use inv OCommit in simp)
next
  case OClose
  then show ?thesis
    by (intro same_bindings_publish[OF inv]) (auto simp: closeServer_def split_beta Let_def intro!: same_bindingsI)
next
  case (OServe cancelled)
  then show ?thesis
    by (intro same_bindings_publish[OF inv]) (auto simp: startServe_def Let_def intro!: same_bindingsI)
next
  case ORetireCurrent
  then show ?thesis
    by (intro same_bindings_publish[OF inv]) (auto intro!: same_bindingsI)
qed

lemma start_publish_inv:
  assumes "server_start y"
  shows "publish_inv y"
proof -
  obtain compiles digest pick listens actual rules m where y: "plan y = None"
    and new: "NewServerWithMetrics compiles digest pick listens actual rules m = Inr (srv y)"
    using assms by (auto simp: server_start_def)
  obtain g s where g: "newRoutingGeneration compiles digest pick 1 (projr (PrepareRuntimeRules compiles rules)) (map fst (listenersByKey s)) = Inr g"
    and s: "start_loop listens actual (map the (projr (PrepareRuntimeRules compiles rules))) empty_server = Inr s" "srv y = putGen 1 g s\<lparr>current := Some 1\<rparr>"
    using new by (auto simp: NewServerWithMetrics_def split: sum.splits option.splits if_splits)
  have "gens (srv y) = [1 \<mapsto> g]" using start_loop_frame[OF s(1)] s(2) by (simp add: putGen_def empty_server_def)
  then show ?thesis using new_generation_published[OF g] s(2) y unfolding publish_inv_def open_keys_def by (auto simp: putGen_def)
qed

interpretation sp: invariant_system server_start "\<lambda>y z. \<exists>op. z = server_step op y" publish_inv
  by unfold_locales (auto intro: start_publish_inv step_publish_inv)

lemma run_publish_inv: "server_start y \<Longrightarrow> publish_inv (server_run ops y)"
  using sp.reachable_inv run_reachable by blast

lemma published_rule_wf:
  assumes "publish_inv y" "rule_of (srv y) key i = Some r"
  shows "\<exists>compiles. rule_wf compiles r"
proof -
  obtain g b where g: "gens (srv y) i = Some g" and b: "map_of (bindings g) key = Some b" "r = brule b"
    using assms(2) by (auto simp: rule_of_def split: option.splits)
  have "r \<in> set (map (brule \<circ> snd) (bindings g))" using map_of_SomeD[OF b(1)] b(2) by force
  then show ?thesis using assms(1) g unfolding publish_inv_def rules_ok_def by blast
qed

text \<open>Validation bounds the limits of every rule that is ever published.\<close>

lemma run_limits:
  assumes "server_start y"
  shows "limits maxConnections maxConnections (srv (server_run ops y))"
proof -
  have "limits_wf r" if "rule_of (srv (server_run ops y)) key i = Some r" for key i r
    using published_rule_wf[OF run_publish_inv[OF assms] that] by (auto simp: rule_wf_def)
  then show ?thesis by (fastforce simp: limits_def limits_wf_def limit_defs)
qed

lemma gen_okD:
  assumes "gen_ok y i g"
  shows "refs g = int (cnt (\<lambda>c. lease c = Some i) (conns y))" "genDone g \<Longrightarrow> refs g = 0"
    "current (srv y) \<noteq> Some i \<or> closed (srv y) \<Longrightarrow> genRetired g \<or> RetireMark i \<in> set (tasks y)"
    "genRetired g \<Longrightarrow> backgroundStopped g \<or> RetireStop i \<in> set (tasks y)"
    "backgroundStopped g \<Longrightarrow> refs g = 0 \<Longrightarrow> genDone g \<or> Cleanup i \<in> set (tasks y)"
    "current (srv y) \<noteq> Some i \<Longrightarrow> \<not> genDone g \<Longrightarrow> i \<in> set (retired (srv y))"
    "RetireMark i \<in> set (tasks y) \<or> genRetired g \<Longrightarrow> current (srv y) \<noteq> Some i \<or> closed (srv y)"
    "Cleanup i \<in> set (tasks y) \<Longrightarrow> refs g = 0 \<and> genRetired g"
  using assms unfolding gen_ok_def by simp_all

section \<open>An atomic specification of leases\<close>

text \<open>
  What the lease protocol promises: a connection leases the current generation in one atomic step,
  and a generation is cleaned up only when it is not current, or the server is closed, and no
  connection leases it.
\<close>

record lease_state =
  lCurrent :: "u64 option"
  lLeases :: "u64 \<Rightarrow> nat"
  lCleaned :: "u64 set"
  lClosed :: bool

inductive lease_spec :: "lease_state \<Rightarrow> lease_state \<Rightarrow> bool" where
  spec_acquire: "lCurrent a = Some i \<Longrightarrow> i \<notin> lCleaned a \<Longrightarrow> lease_spec a (a\<lparr>lLeases := (lLeases a)(i := lLeases a i + 1)\<rparr>)"
| spec_release: "0 < lLeases a i \<Longrightarrow> lease_spec a (a\<lparr>lLeases := (lLeases a)(i := lLeases a i - 1)\<rparr>)"
| spec_publish: "\<not> lClosed a \<Longrightarrow> lCurrent a = Some i \<Longrightarrow> i < j \<Longrightarrow> lLeases a j = 0 \<Longrightarrow> j \<notin> lCleaned a \<Longrightarrow> lease_spec a (a\<lparr>lCurrent := Some j\<rparr>)"
| spec_clean: "lLeases a i = 0 \<Longrightarrow> lCurrent a \<noteq> Some i \<or> lClosed a \<Longrightarrow> lease_spec a (a\<lparr>lCleaned := insert i (lCleaned a)\<rparr>)"
| spec_close: "lease_spec a (a\<lparr>lClosed := True\<rparr>)"

definition spec_safe :: "lease_state \<Rightarrow> bool" where
  "spec_safe a \<longleftrightarrow> (\<forall>i\<in>lCleaned a. lLeases a i = 0 \<and> (lCurrent a = Some i \<longrightarrow> lClosed a))"

text \<open>The leases the specification sees: those \<^verbatim>\<open>acquireBinding\<close> has returned. The momentary lease of a
  connection that still has to compare the generation with the current one is not among them.\<close>

definition held :: "conn_state \<Rightarrow> u64 option" where
  "held c = (case c of Acquired key a i \<Rightarrow> None | _ \<Rightarrow> lease c)"

definition abs_lease :: "server_sys \<Rightarrow> lease_state" where
  "abs_lease y = \<lparr>lCurrent = current (srv y), lLeases = (\<lambda>i. cnt (\<lambda>c. held c = Some i) (conns y)),
     lCleaned = {i. \<exists>g. gens (srv y) i = Some g \<and> genDone g}, lClosed = closed (srv y)\<rparr>"

lemma abs_lease_eqI:
  assumes "current (srv y') = current (srv y)" "closed (srv y') = closed (srv y)"
    "\<And>i. cnt (\<lambda>c. held c = Some i) (conns y') = cnt (\<lambda>c. held c = Some i) (conns y)"
    "\<And>i. (\<exists>g. gens (srv y') i = Some g \<and> genDone g) \<longleftrightarrow> (\<exists>g. gens (srv y) i = Some g \<and> genDone g)"
  shows "abs_lease y' = abs_lease y"
  using assms by (simp add: abs_lease_def)

lemma held_lease: "held c = Some i \<Longrightarrow> lease c = Some i"
  by (auto simp: held_def split: conn_state.splits)

lemma held_None: "lease c = None \<Longrightarrow> held c = None"
  by (auto simp: held_def split: conn_state.splits)

lemma held_simps [simp]: "held (Acquired key a i) = None" "held (Bound key a i) = Some i" "held (Leaving i) = Some i" "held Gone = None"
  "held (Accepted key a) = None"
  by (simp_all add: held_def)

lemma held_same: "(\<And>key a i. c \<noteq> Acquired key a i) \<Longrightarrow> held c = lease c"
  by (auto simp: held_def split: conn_state.splits)

lemma held_count:
  assumes "n < length cs"
  shows "cnt (\<lambda>c. held c = Some i) (cs[n := c']) + (if held (cs ! n) = Some i then 1 else 0)
    = cnt (\<lambda>c. held c = Some i) cs + (if held c' = Some i then 1 else 0)"
  using cnt_update[OF assms, of "\<lambda>c. held c = Some i" c'] .

text \<open>A step of a connection changes what it holds only when it confirms its lease or leaves.\<close>

lemma conn_step_held:
  assumes st: "conn_step peer client c s = (c', ts, s')" and dom: "\<And>i. lease c = Some i \<Longrightarrow> i \<in> dom (gens s)"
  obtains (keep) "held c' = held c"
  | (confirm) i where "held c = None" "lease c = Some i" "held c' = Some i" "current s = Some i"
  | (leave) i where "held c = Some i" "held c' = None"
proof (rule conn_step_lease[OF st dom])
  assume k: "lease c' = lease c"
  show ?thesis
  proof (cases "held c' = held c")
    case False
    then obtain key a i where c: "c = Acquired key a i \<or> c' = Acquired key a i" using k held_same[of c] held_same[of c'] by metis
    have "c = Acquired key a i"
      using c st k False by (cases c) (auto simp: conn_step_def load_binding_def try_binding_def confirm_binding_def admit_conn_def reserve_conn_def
          assign_conn_def Let_def split: option.splits if_splits prod.splits)
    then show ?thesis using st k by (intro confirm[of i]) (auto simp: conn_step_def confirm_binding_def split: if_splits prod.splits)
  qed (rule keep)
next
  fix i assume k: "lease c = None" "lease c' = Some i"
  then obtain key a where "c' = Acquired key a i"
    using st by (cases c) (auto simp: conn_step_def load_binding_def try_binding_def Let_def split: option.splits if_splits prod.splits)
  moreover have "held c = None" using k(1) by (rule held_None)
  ultimately show ?thesis by (intro keep) simp
next
  fix i assume k: "lease c = Some i" "lease c' = None"
  have "held c' = None" using k(2) by (rule held_None)
  then show ?thesis using keep leave by (cases "held c") auto
qed

text \<open>The concrete steps simulate the specification.\<close>

definition lease_spec_opt :: "lease_state \<Rightarrow> lease_state \<Rightarrow> bool" where
  "lease_spec_opt a b \<longleftrightarrow> a = b \<or> lease_spec a b"

lemma cleaned_dom: "lease_inv y \<Longrightarrow> cnt (\<lambda>c. lease c = Some i) (conns y) \<noteq> 0 \<Longrightarrow> i \<notin> lCleaned (abs_lease y)"
proof
  assume h: "lease_inv y" "cnt (\<lambda>c. lease c = Some i) (conns y) \<noteq> 0" "i \<in> lCleaned (abs_lease y)"
  then obtain g where g: "gens (srv y) i = Some g" "genDone g" by (auto simp: abs_lease_def)
  show False using gen_okD(1,2)[OF lease_invD(2)[OF h(1) g(1)]] g(2) h(2) by simp
qed

lemma conn_simulates:
  assumes inv: "lease_inv y" and n: "n < length (conns y)" and st: "conn_step peer client (conns y ! n) (srv y) = (c', ts, s')"
  shows "lease_spec_opt (abs_lease y) (abs_lease (y\<lparr>srv := s', conns := (conns y)[n := c'], tasks := tasks y @ ts\<rparr>))"
    (is "lease_spec_opt ?a (abs_lease ?y)")
proof -
  let ?c = "conns y ! n"
  have dom: "lease ?c = Some i \<Longrightarrow> i \<in> dom (gens (srv y))" for i using lease_invD(3)[OF inv nth_mem[OF n]] .
  have fr: "current s' = current (srv y) \<and> closed s' = closed (srv y)
      \<and> (\<forall>i. (\<exists>g. gens s' i = Some g \<and> genDone g) \<longleftrightarrow> (\<exists>g. gens (srv y) i = Some g \<and> genDone g))"
    by (rule conn_step_lease[OF st dom]) (auto simp: same_table_def releaseLease_def Let_def)
  have ab: "abs_lease ?y = ?a\<lparr>lLeases := \<lambda>i. cnt (\<lambda>c. held c = Some i) ((conns y)[n := c'])\<rparr>"
    using fr by (simp add: abs_lease_def)
  note hc = held_count[OF n, of _ c']
  show ?thesis
  proof (rule conn_step_held[OF st dom])
    assume "held c' = held ?c"
    then have "lLeases ?a = (\<lambda>i. cnt (\<lambda>c. held c = Some i) ((conns y)[n := c']))" using hc by (auto simp: abs_lease_def)
    then show ?thesis using ab unfolding lease_spec_opt_def by simp
  next
    fix i assume k: "held ?c = None" "lease ?c = Some i" "held c' = Some i" "current (srv y) = Some i"
    have "lLeases (abs_lease ?y) = (lLeases ?a)(i := lLeases ?a i + 1)" using hc k by (auto simp: abs_lease_def fun_eq_iff)
    moreover have "i \<notin> lCleaned ?a" using cleaned_dom[OF inv] cnt_pos[OF n, of "\<lambda>c. lease c = Some i"] k(2) by simp
    ultimately show ?thesis using ab k(4) spec_acquire[of ?a i] unfolding lease_spec_opt_def by (simp add: abs_lease_def)
  next
    fix i assume k: "held ?c = Some i" "held c' = None"
    have "lLeases (abs_lease ?y) j = ((lLeases ?a)(i := lLeases ?a i - 1)) j" for j using hc[of j] k by (auto simp: abs_lease_def split: if_splits)
    then have "lLeases (abs_lease ?y) = (lLeases ?a)(i := lLeases ?a i - 1)" by blast
    moreover have "0 < lLeases ?a i" using cnt_pos[OF n, of "\<lambda>c. held c = Some i"] k(1) by (simp add: abs_lease_def)
    ultimately show ?thesis using ab spec_release[of ?a i] unfolding lease_spec_opt_def by (simp add: abs_lease_def)
  qed
qed

lemma task_simulates:
  assumes inv: "lease_inv y" and n: "n < length (tasks y)" and st: "task_step (tasks y ! n) (srv y) = (ts, s')"
  shows "lease_spec_opt (abs_lease y) (abs_lease (after_task y n ts s'))"
proof (cases "\<exists>i. tasks y ! n = Cleanup i")
  case True
  then obtain i where i: "tasks y ! n = Cleanup i" by blast
  then obtain g where g: "gens (srv y) i = Some g" using lease_invD(4)[OF inv nth_mem[OF n], of i] by auto
  have s': "s' = putGen i (g\<lparr>genDone := True\<rparr>) (srv y)" using st i g by (auto simp: task_step_def on_gen_def cleanup_def)
  note ok = gen_okD[OF lease_invD(2)[OF inv g]]
  have m: "Cleanup i \<in> set (tasks y)" using nth_mem[OF n] i by simp
  have "cnt (\<lambda>c. held c = Some i) (conns y) \<le> cnt (\<lambda>c. lease c = Some i) (conns y)" by (rule cnt_mono) (rule held_lease)
  then have z: "lLeases (abs_lease y) i = 0" using ok(1,8) m by (simp add: abs_lease_def)
  have c: "lCurrent (abs_lease y) \<noteq> Some i \<or> lClosed (abs_lease y)" using ok(7,8) m by (simp add: abs_lease_def)
  have "abs_lease (after_task y n ts s') = (abs_lease y)\<lparr>lCleaned := insert i (lCleaned (abs_lease y))\<rparr>"
    using s' by (auto simp: abs_lease_def putGen_def)
  then show ?thesis using spec_clean[OF z c] unfolding lease_spec_opt_def by simp
next
  case False
  then have "abs_lease (after_task y n ts s') = abs_lease y"
    using st by (intro abs_lease_eqI) (auto simp: task_step_def on_gen_def putGen_def pruneAdmissions_def retire_mark_def retire_stopped_def Let_def
        split: server_task.splits option.splits if_splits prod.splits)
  then show ?thesis unfolding lease_spec_opt_def by simp
qed

lemma commit_simulates:
  assumes inv: "lease_inv y" and p: "plan y = Some p" and c: "commitReload cancelled p (srv y) = (None, s')" and y': "srv y' = s'" "conns y' = conns y"
  shows "lease_spec (abs_lease y) (abs_lease y')"
proof -
  note pk = lease_invD(8)[OF inv p, unfolded plan_ok_def]
  let ?new = "planOld p + 1"
  have s': "gens s' = (gens (srv y))(?new \<mapsto> planNext p)" "current s' = Some ?new" "closed s' = closed (srv y)" "\<not> closed (srv y)"
    using c pk by (auto simp: commitReload_def Let_def putGen_def trackRetired_def split: if_splits)
  have fresh: "?new \<notin> dom (gens (srv y))" using lease_invD(1)[OF inv] pk by (metis leD option.inject)
  have z: "cnt (\<lambda>c. held c = Some ?new) (conns y) = 0" 
    using lease_invD(3)[OF inv] fresh held_lease unfolding cnt_zero by blast
  have "abs_lease y' = (abs_lease y)\<lparr>lCurrent := Some ?new\<rparr>" using s' y' fresh pk by (auto simp: abs_lease_def)
  then show ?thesis
    using spec_publish[of "abs_lease y" "planOld p" ?new] pk s'(4) z fresh by (auto simp: abs_lease_def)
qed

lemma step_simulates:
  assumes inv: "lease_inv y"
  shows "lease_spec_opt (abs_lease y) (abs_lease (server_step op y))"
proof (cases op)
  case (OAccept key)
  have "abs_lease (y\<lparr>conns := conns y @ [Accepted key a]\<rparr>) = abs_lease y" for a by (rule abs_lease_eqI) simp_all
  then show ?thesis using OAccept by (auto simp: lease_spec_opt_def split: option.splits)
next
  case (OConn n peer client)
  then show ?thesis
    using conn_simulates[OF inv, of n peer client]
    by (cases "conn_step peer client (conns y ! n) (srv y)") (auto simp: lease_spec_opt_def)
next
  case (OTask n)
  then show ?thesis
    using task_simulates[OF inv, of n] by (cases "task_step (tasks y ! n) (srv y)") (auto simp: lease_spec_opt_def after_task_def)
next
  case (OReload compiles digest pick repick listens cancelled rules)
  obtain r s' where pr: "prepareReload compiles digest pick repick listens cancelled rules (srv y) = (r, s')"
    by (cases "prepareReload compiles digest pick repick listens cancelled rules (srv y)")
  have "abs_lease (y\<lparr>srv := s'\<rparr>) = abs_lease y" "\<And>p. abs_lease (y\<lparr>srv := s', plan := p\<rparr>) = abs_lease y"
    using prepareReload_effect(1)[OF pr] by (auto simp: pruned_def abs_lease_def)
  then show ?thesis using OReload pr by (cases r) (auto simp: lease_spec_opt_def)
next
  case (OCommit cancelled)
  have fail: "commitReload cancelled p (srv y) = (Some e, s') \<Longrightarrow> s' = srv y" for p e s'
    by (auto simp: commitReload_def Let_def split: if_splits)
  have drop: "abs_lease (y\<lparr>plan := None\<rparr>) = abs_lease y" by (simp add: abs_lease_def)
  show ?thesis
  proof (cases "plan y")
    case (Some p)
    then show ?thesis
      using OCommit commit_simulates[OF inv Some, of cancelled] drop fail[of p]
      by (cases "commitReload cancelled p (srv y)") (auto simp: lease_spec_opt_def split: option.splits)
  qed (use OCommit in \<open>simp add: lease_spec_opt_def\<close>)
next
  case OClose
  have "abs_lease (server_step OClose y) = (abs_lease y)\<lparr>lClosed := True\<rparr>"
    by (auto simp: abs_lease_def closeServer_def split_beta Let_def)
  then show ?thesis using OClose spec_close[of "abs_lease y"] by (simp add: lease_spec_opt_def)
next
  case (OServe cancelled)
  then have "abs_lease (server_step op y) = abs_lease y" by (auto simp: abs_lease_def startServe_def Let_def)
  then show ?thesis by (simp add: lease_spec_opt_def)
next
  case ORetireCurrent
  then have "abs_lease (server_step op y) = abs_lease y" by (auto simp: abs_lease_def)
  then show ?thesis by (simp add: lease_spec_opt_def)
qed

interpretation sr: refinement_system server_start "\<lambda>y z. \<exists>op. z = server_step op y" lease_inv abs_lease lease_spec
  by unfold_locales (use step_simulates in \<open>auto simp: lease_spec_opt_def\<close>)

lemma spec_keeps_safe: "lease_spec a b \<Longrightarrow> spec_safe a \<Longrightarrow> spec_safe b"
  by (induction rule: lease_spec.induct) (auto simp: spec_safe_def)

lemma spec_run_safe: "lease_spec\<^sup>*\<^sup>* a b \<Longrightarrow> spec_safe a \<Longrightarrow> spec_safe b"
  by (induction rule: rtranclp_induct) (auto intro: spec_keeps_safe)

text \<open>C1: The lease protocol refines an atomic one: whatever the interleaving of the three sections of
  \<^verbatim>\<open>acquireBinding\<close> with publications, releases and the two sections of \<^verbatim>\<open>retire\<close>, the server behaves
  as if a connection leased the current generation in a single step and a generation were cleaned
  up in a single step, never while it is leased. The momentary lease of a generation that turns out
  to be replaced is invisible.\<close>

theorem leases_refine_spec:
  assumes "server_start y"
  shows "lease_spec\<^sup>*\<^sup>* (abs_lease y) (abs_lease (server_run ops y)) \<and> spec_safe (abs_lease (server_run ops y))"
proof -
  have r: "lease_spec\<^sup>*\<^sup>* (abs_lease y) (abs_lease (server_run ops y))"
    by (rule sr.reachable_refines[OF assms run_reachable])
  have "spec_safe (abs_lease y)"
  proof -
    have c: "conns y = []" using assms by (simp add: server_start_def)
    have "\<not> genDone g" if g: "gens (srv y) i = Some g" "current (srv y) = Some i" "\<not> closed (srv y)" for i g
      using gen_okD(7,2)[OF lease_invD(2)[OF start_lease_inv[OF assms] g(1)]] lease_invD(2)[OF start_lease_inv[OF assms] g(1)] g(2,3)
      unfolding gen_ok_def by blast
    then show ?thesis using c by (auto simp: spec_safe_def abs_lease_def)
  qed
  then show ?thesis using spec_run_safe[OF r] r by blast
qed

section \<open>Atomic publication\<close>

lemma same_bindings_refl: "same_bindings s s"
  by (simp add: same_bindings_def)

lemma same_bindings_rule_of: "same_bindings s t \<Longrightarrow> rule_of t key i = rule_of s key i"
  unfolding same_bindings_def rule_of_def by (cases "gens t i"; cases "gens s i") (metis option.map option.simps)+

lemma commit_fails: "commitReload cancelled p s = (Some e, s') \<Longrightarrow> s' = s"
  by (auto simp: commitReload_def Let_def split: if_splits)

text \<open>Only a successful commit changes a rule or a listener.\<close>

lemma step_bindings:
  "same_bindings (srv y) (srv (server_step op y)) \<or>
     (\<exists>cancelled p. op = OCommit cancelled \<and> plan y = Some p \<and> commitReload cancelled p (srv y) = (None, srv (server_step op y)))"
proof (cases op)
  case (OConn n peer client)
  then show ?thesis
    using conn_same_bindings[of peer client "conns y ! n" "srv y"]
    by (cases "conn_step peer client (conns y ! n) (srv y)") (auto simp: same_bindings_refl)
next
  case (OTask n)
  then show ?thesis
    using task_same_bindings[of "tasks y ! n" "srv y"] by (cases "task_step (tasks y ! n) (srv y)") (auto simp: same_bindings_refl)
next
  case (OReload compiles digest pick repick listens cancelled rules)
  obtain r s' where pr: "prepareReload compiles digest pick repick listens cancelled rules (srv y) = (r, s')"
    by (cases "prepareReload compiles digest pick repick listens cancelled rules (srv y)")
  have "same_bindings (srv y) s'" using prepareReload_effect(1)[OF pr] by (auto simp: pruned_def intro: same_bindingsI)
  then show ?thesis using OReload pr by (cases r) (auto simp: same_bindings_refl)
next
  case (OCommit cancelled)
  then show ?thesis
    by (cases "plan y"; cases "commitReload cancelled (the (plan y)) (srv y)")
      (auto simp: same_bindings_refl split: option.splits dest: commit_fails)
qed (auto simp: closeServer_def startServe_def Let_def split_beta split: option.splits intro!: same_bindingsI)

lemma step_atomic:
  assumes inv: "lease_inv z" "publish_inv z" and s: "s = srv z" and t: "t = srv (server_step op z)"
  shows "current t = current s \<and> listenersByKey t = listenersByKey s \<and> (\<forall>key i. rule_of t key i = rule_of s key i)
    \<or> (\<exists>i g. current s = Some i \<and> i < i + 1 \<and> current t = Some (i + 1) \<and> gens s (i + 1) = None \<and> gens t = (gens s)(i + 1 \<mapsto> g)
         \<and> open_keys t = keys g \<and> rules_ok g)"
proof -
  consider "same_bindings s t" | cancelled p where "op = OCommit cancelled" "plan z = Some p" "commitReload cancelled p s = (None, t)"
    using step_bindings[of z op] unfolding s t by blast
  then show ?thesis
  proof cases
    case 1
    then show ?thesis using same_bindings_rule_of[OF 1] by (simp add: same_bindings_def)
  next
    case 2
    note pk = lease_invD(8)[OF inv(1) 2(2), unfolded plan_ok_def]
    have new: "planOld p + 1 \<notin> dom (gens s)" using lease_invD(1)[OF inv(1)] pk unfolding s by (metis leD option.inject)
    have u: "gens t = (gens s)(planOld p + 1 \<mapsto> planNext p)" "current t = Some (planOld p + 1)" "current s = Some (planOld p)"
      using 2(3) pk by (auto simp: s commitReload_def Let_def putGen_def trackRetired_def split: if_splits)
    have "publish_inv (server_step op z)" by (rule step_publish_inv[OF inv(2)])
    moreover have "gens t (planOld p + 1) = Some (planNext p)" using u by simp
    ultimately have "open_keys t = keys (planNext p)" "rules_ok (planNext p)" using u(2) unfolding publish_inv_def t[symmetric] by blast+
    then show ?thesis using u new pk by auto
  qed
qed

text \<open>C2: A reload takes effect at once or not at all: a step of the server either changes no rule, no
  listener and not the current generation (so a failed, cancelled or unfinished reload leaves the
  running configuration as it was), or it installs the next generation, whose rules passed
  validation, together with exactly the listeners its rules bind.\<close>

theorem reload_atomic:
  assumes "server_start y" "s = srv (server_run ops y)" "t = srv (server_step op (server_run ops y))"
  shows "current t = current s \<and> listenersByKey t = listenersByKey s \<and> (\<forall>key i. rule_of t key i = rule_of s key i)
    \<or> (\<exists>i g. current s = Some i \<and> i < i + 1 \<and> current t = Some (i + 1) \<and> gens s (i + 1) = None \<and> gens t = (gens s)(i + 1 \<mapsto> g)
         \<and> open_keys t = keys g \<and> rules_ok g)"
  by (rule step_atomic[OF run_lease_inv[OF assms(1)] run_publish_inv[OF assms(1)] assms(2,3)])

text \<open>C6: Whatever reloads have been attempted, the open listeners are exactly those the rules of the
  current generation bind, and every rule a connection can be dispatched to has passed validation.\<close>

theorem listeners_match_rules:
  assumes "server_start y"
  shows "\<exists>i g. current (srv (server_run ops y)) = Some i \<and> gens (srv (server_run ops y)) i = Some g
    \<and> open_keys (srv (server_run ops y)) = keys g
    \<and> (\<forall>key j r. rule_of (srv (server_run ops y)) key j = Some r \<longrightarrow> (\<exists>compiles. rule_wf compiles r))"
proof -
  let ?s = "srv (server_run ops y)"
  obtain i g where i: "current ?s = Some i" "gens ?s i = Some g" using lease_invD(1)[OF run_lease_inv[OF assms]] by blast
  have "\<exists>compiles. rule_wf compiles r" if "rule_of ?s key j = Some r" for key j r
    using published_rule_wf[OF run_publish_inv[OF assms] that] .
  then show ?thesis using i run_publish_inv[OF assms, of ops] unfolding publish_inv_def by blast
qed

section \<open>Leases, cleanup and quotas of every run\<close>

text \<open>C3: In every reachable state of the server, under any interleaving of connections, reloads,
  retire and cleanup goroutines and shutdown, a generation that some connection still leases has not
  been cleaned up, and its reference count is exactly the number of connections that lease it.\<close>

theorem leased_generation_alive:
  assumes "server_start y" "c \<in> set (conns (server_run ops y))" "lease c = Some i"
  shows "\<exists>g. gens (srv (server_run ops y)) i = Some g \<and> \<not> genDone g \<and> 0 < refs g
    \<and> refs g = int (cnt (\<lambda>c. lease c = Some i) (conns (server_run ops y)))"
proof -
  let ?z = "server_run ops y"
  have inv: "lease_inv ?z" by (rule run_lease_inv[OF assms(1)])
  obtain g where g: "gens (srv ?z) i = Some g" using lease_invD(3)[OF inv assms(2,3)] by blast
  have "cnt (\<lambda>c. lease c = Some i) (conns ?z) \<noteq> 0" using assms(2,3) by (auto simp: cnt_zero)
  then show ?thesis using gen_okD(1,2)[OF lease_invD(2)[OF inv g]] g by auto
qed

text \<open>C5: No generation leaks: once the retire and cleanup goroutines have run, every generation that
  was replaced or belongs to a closed server and is leased by no connection has been cleaned up.\<close>

theorem retired_generation_cleaned:
  assumes "server_start y" "gens (srv (server_run ops y)) i = Some g"
    and "current (srv (server_run ops y)) \<noteq> Some i \<or> closed (srv (server_run ops y))"
    and "\<forall>t\<in>set (tasks (server_run ops y)). t = Prune \<or> (\<exists>j. t = Watch j)"
    and "\<forall>c\<in>set (conns (server_run ops y)). lease c \<noteq> Some i"
  shows "genDone g"
proof -
  let ?z = "server_run ops y"
  have inv: "lease_inv ?z" by (rule run_lease_inv[OF assms(1)])
  note ok = gen_okD[OF lease_invD(2)[OF inv assms(2)]]
  have nt: "RetireMark i \<notin> set (tasks ?z)" "RetireStop i \<notin> set (tasks ?z)" "Cleanup i \<notin> set (tasks ?z)"
    using assms(4) by blast+
  have "refs g = 0" using ok(1) assms(5) by (simp add: cnt_zero)
  moreover have "genRetired g" using ok(3)[OF assms(3)] nt(1) by simp
  then have "backgroundStopped g" using ok(4) nt(2) by simp
  ultimately show ?thesis using ok(5) nt(3) by simp
qed

text \<open>However many reloads are attempted, at most eight replaced generations are alive at a time.\<close>

theorem draining_generations_bounded:
  assumes "server_start y"
  shows "card {i. \<exists>g. gens (srv (server_run ops y)) i = Some g \<and> \<not> genDone g \<and> current (srv (server_run ops y)) \<noteq> Some i} \<le> maxRetiredGenerations"
    (is "card ?A \<le> _")
proof -
  have inv: "lease_inv (server_run ops y)" by (rule run_lease_inv[OF assms])
  have "?A \<subseteq> set (retired (srv (server_run ops y)))" using gen_okD(6)[OF lease_invD(2)[OF inv]] by blast
  then have "card ?A \<le> length (retired (srv (server_run ops y)))"
    using card_mono[of "set (retired (srv (server_run ops y)))" ?A] card_length[of "retired (srv (server_run ops y))"] by simp
  then show ?thesis using lease_invD(7)[OF inv] by simp
qed

text \<open>Every admission object stays within the limits validation allows any rule; \<open>Server_Admission\<close>
  has the limits of each listener.\<close>

lemma objects_within_limits:
  assumes "server_start y" "limits M P (srv (server_run ops y))" "a \<in> dom (admissions (srv (server_run ops y)))"
  shows "cnt global_slot (conns (server_run ops y)) \<le> serverGlobalConnectionLimit
    \<and> int (cnt (\<lambda>c. rule_slot c = Some a) (conns (server_run ops y))) \<le> M
    \<and> int (cnt (\<lambda>c. ip_slot c = Some (a, ip)) (conns (server_run ops y))) \<le> P"
proof -
  let ?z = "server_run ops y"
  have q: "quota_inv ?z" by (rule run_quota_inv[OF assms(1)])
  obtain adm where "admissions (srv ?z) a = Some adm" using assms(3) by blast
  then have "adm_ok ?z a adm" using q by (simp add: quota_inv_def)
  then show ?thesis using assms(2) q by (auto simp: adm_ok_def quota_inv_def)
qed

section \<open>A concrete server\<close>

definition demo_start :: "string + Server" where
  "demo_start = NewServerWithMetrics (\<lambda>_. True) length (\<lambda>_ _. 0) (\<lambda>_. True) (\<lambda>a. a) raw_rules ''''"

lemma demo_accepted: "accepted demo_start"
  by code_simp

definition demo_sys :: server_sys where
  "demo_sys = \<lparr>srv = projr demo_start, conns = [], tasks = [], plan = None\<rparr>"

lemma demo_sys_start: "server_start demo_sys"
proof -
  have "demo_start = Inr (srv demo_sys)" using accepted_Inr[OF demo_accepted] by (simp add: demo_sys_def)
  then show ?thesis unfolding server_start_def demo_start_def by (intro conjI exI) (auto simp: demo_sys_def)
qed

definition demo_peer :: remote_addr where "demo_peer = TCPAddr [10, 0, 0, 1]"
definition demo_client :: addr where "demo_client = Addr4 [10, 0, 0, 1]"

text \<open>Two connections; the first holds its slots. Then a reload to one rule is committed and the old
  generation is retired while the connection still leases it.\<close>

definition demo_before :: "server_op list" where
  "demo_before = [OServe False, OAccept '':80'', OAccept '':81''] @ replicate 6 (OConn 0 demo_peer (Some demo_client))
     @ [OReload (\<lambda>_. True) length (\<lambda>_ _. 0) (\<lambda>_ _. 0) (\<lambda>_. True) False [Some (raw_rule ''x'' '':80'')]]"

definition demo_ops :: "server_op list" where
  "demo_ops = demo_before @ [OCommit False, OTask 1, OTask 1]"

definition demo_drain :: "server_op list" where
  "demo_drain = demo_ops @ replicate 4 (OConn 0 demo_peer None) @ [OTask 1]"

text \<open>What the witnesses look at.\<close>

definition observe :: "server_sys \<Rightarrow> u64 option list \<times> u64 option \<times> (bool \<times> bool \<times> int) option \<times> server_task list \<times> u64 list \<times> string list \<times> listenerAdmission option" where
  "observe z = (map lease (conns z), current (srv z), map_option (\<lambda>g. (genRetired g, genDone g, refs g)) (gens (srv z) 1), tasks z,
     retired (srv z), map fst (listenersByKey (srv z)), admissions (srv z) 0)"

lemma demo_observed:
  "observe (server_run demo_ops demo_sys) = ([Some 1, None], Some 2, Some (True, False, 1), [Watch 1], [1], ['':80''],
     Some \<lparr>perIP = [(demo_client, 1)], admActive = 1\<rparr>)"
  by code_simp

lemma drain_observed:
  "observe (server_run demo_drain demo_sys) = ([None, None], Some 2, Some (True, True, 0), [Watch 1], [1], ['':80''],
     Some \<lparr>perIP = [], admActive = 0\<rparr>)"
  by code_simp

theorem leased_generation_alive_witness:
  "\<exists>g. gens (srv (server_run demo_ops demo_sys)) 1 = Some g \<and> \<not> genDone g \<and> refs g = 1 \<and> genRetired g"
proof -
  let ?z = "server_run demo_ops demo_sys"
  have o: "map lease (conns ?z) = [Some 1, None]" "map_option (\<lambda>g. (genRetired g, genDone g, refs g)) (gens (srv ?z) 1) = Some (True, False, 1)"
    using demo_observed by (simp_all add: observe_def)
  then obtain c where "c \<in> set (conns ?z)" "lease c = Some 1" by (cases "conns ?z") auto
  from leased_generation_alive[OF demo_sys_start this] o(2) show ?thesis by auto
qed

theorem retired_generation_cleaned_witness:
  "\<exists>g. gens (srv (server_run demo_drain demo_sys)) 1 = Some g \<and> genDone g"
proof -
  let ?z = "server_run demo_drain demo_sys"
  have o: "map lease (conns ?z) = [None, None]" "current (srv ?z) = Some 2" "tasks ?z = [Watch 1]" "gens (srv ?z) 1 \<noteq> None"
    using drain_observed by (auto simp: observe_def)
  obtain g where g: "gens (srv ?z) 1 = Some g" using o(4) by blast
  have "lease c \<noteq> Some 1" if "c \<in> set (conns ?z)" for c
  proof -
    have "lease c \<in> set (map lease (conns ?z))" using that by auto
    then show ?thesis unfolding o(1) by auto
  qed
  with retired_generation_cleaned[OF demo_sys_start g] o(2,3) g show ?thesis by simp
qed

theorem draining_generations_bounded_witness:
  "card {i. \<exists>g. gens (srv (server_run demo_ops demo_sys)) i = Some g \<and> \<not> genDone g \<and> current (srv (server_run demo_ops demo_sys)) \<noteq> Some i} \<le> 8
   \<and> retired (srv (server_run demo_ops demo_sys)) = [1]"
  using draining_generations_bounded[OF demo_sys_start, of demo_ops] demo_observed by (simp add: maxRetiredGenerations_def observe_def)

theorem reload_atomic_witness:
  "\<exists>g. gens (srv (server_step (OCommit False) (server_run demo_before demo_sys))) 2 = Some g \<and> rules_ok g"
proof -
  let ?s = "srv (server_run demo_before demo_sys)" and ?t = "srv (server_step (OCommit False) (server_run demo_before demo_sys))"
  have "current ?s = Some 1" "current ?t = Some 2" by code_simp+
  with reload_atomic[OF demo_sys_start, of ?s demo_before ?t "OCommit False"] show ?thesis by auto
qed

theorem listeners_match_rules_witness:
  "\<exists>g. gens (srv (server_run demo_ops demo_sys)) 2 = Some g \<and> keys g = {'':80''}"
proof -
  have "current (srv (server_run demo_ops demo_sys)) = Some 2" "open_keys (srv (server_run demo_ops demo_sys)) = {'':80''}"
    using demo_observed by (simp_all add: observe_def open_keys_def flip: list.set_map)
  with listeners_match_rules[OF demo_sys_start, of demo_ops] show ?thesis by auto
qed

theorem leases_refine_spec_witness:
  "lease_spec\<^sup>*\<^sup>* (abs_lease demo_sys) (abs_lease (server_run demo_ops demo_sys)) \<and> lCurrent (abs_lease (server_run demo_ops demo_sys)) = Some 2"
proof -
  have "current (srv (server_run demo_ops demo_sys)) = Some 2" using demo_observed by (simp add: observe_def)
  with leases_refine_spec[OF demo_sys_start, of demo_ops] show ?thesis by (simp add: abs_lease_def)
qed

end
