(* ===== verification/Server_Admission.thy ===== *)
theory Server_Admission
  imports Server_Properties
begin

text \<open>
  Admission per listener: which listener a connection's slots belong to, how the table of admission
  objects follows the open listeners through reloads and cleanups, and that every slot is taken under
  the limits of the rule its connection leases.
\<close>

section \<open>Slots and the rules they are taken under\<close>

fun listener_slot :: "conn_state \<Rightarrow> (string \<times> nat) option" where
  "listener_slot (Reserved key a i ip) = Some (key, a)"
| "listener_slot (Assigned key a i ip) = Some (key, a)"
| "listener_slot (Refused key a i) = Some (key, a)"
| "listener_slot _ = None"

fun client_slot :: "conn_state \<Rightarrow> (string \<times> nat \<times> addr) option" where
  "client_slot (Assigned key a i ip) = Some (key, a, ip)"
| "client_slot _ = None"

text \<open>How many connections a listener holds on one admission object, in all and from one client.\<close>

definition on_listener :: "server_sys \<Rightarrow> string \<Rightarrow> nat \<Rightarrow> nat" where
  "on_listener y key a = cnt (\<lambda>c. listener_slot c = Some (key, a)) (conns y)"

definition from_client :: "server_sys \<Rightarrow> string \<Rightarrow> nat \<Rightarrow> addr \<Rightarrow> nat" where
  "from_client y key a ip = cnt (\<lambda>c. client_slot c = Some (key, a, ip)) (conns y)"

text \<open>No rule published for this listener, now or before, allows more than \<open>M\<close> and \<open>P\<close>.\<close>

definition rules_within :: "string \<Rightarrow> int \<Rightarrow> int \<Rightarrow> Server \<Rightarrow> bool" where
  "rules_within key M P s \<longleftrightarrow> 0 \<le> M \<and> 0 \<le> P
     \<and> (\<forall>i r. rule_of s key i = Some r \<longrightarrow> MaxConnections r \<le> M \<and> MaxConnectionsPerIP r \<le> P)"

lemma slot_of_listener: "listener_slot c = Some (key, a) \<Longrightarrow> rule_slot c = Some a"
  by (cases c) simp_all

lemma slot_of_client: "client_slot c = Some (key, a, ip) \<Longrightarrow> ip_slot c = Some (a, ip)"
  by (cases c) simp_all

lemma slot_keys: "rule_slot c = Some a \<Longrightarrow> \<exists>key. listener_slot c = Some (key, a)"
  by (cases c) simp_all

text \<open>A connection takes the slot of its listener only under the limit of the rule it leases, and the
  slot of its client likewise.\<close>

lemma takes_listener:
  assumes "conn_step peer client c s = (c', ts, s')" "listener_slot c' = Some (key, a)" "listener_slot c \<noteq> Some (key, a)"
  obtains i ip r adm where "c = Admitted key a i ip" "c' = Reserved key a i ip" "rule_of s key i = Some r" "admissions s a = Some adm"
    "MaxConnections r \<le> 0 \<or> admActive adm < MaxConnections r"
proof (cases c)
  case (Admitted key' a' i ip)
  then have k: "key' = key" "a' = a" "c' = Reserved key a i ip"
    using assms by (auto simp: conn_step_def reserve_conn_def Let_def split: option.splits prod.splits if_splits)
  obtain r adm where "rule_of s key i = Some r" "admissions s a = Some adm" "fst (reserveRule r adm)"
    using assms(1) Admitted k by (auto simp: conn_step_def reserve_conn_def Let_def split: option.splits prod.splits if_splits)
  then show ?thesis using that Admitted k by (auto simp: reserveRule_def split: if_splits)
next
  case (Reserved key' a' i ip)
  then show ?thesis using assms by (auto simp: conn_step_def assign_conn_def Let_def split: option.splits prod.splits if_splits)
qed (use assms in \<open>auto simp: conn_step_def load_binding_def try_binding_def confirm_binding_def admit_conn_def Let_def
      split: option.splits prod.splits if_splits\<close>)

lemma takes_client:
  assumes "conn_step peer client c s = (c', ts, s')" "client_slot c' = Some (key, a, ip)" "client_slot c \<noteq> Some (key, a, ip)"
  obtains i ip' r adm where "c = Reserved key a i ip'" "c' = Assigned key a i ip" "rule_of s key i = Some r" "admissions s a = Some adm"
    "MaxConnectionsPerIP r \<le> 0 \<or> ip_count adm ip < MaxConnectionsPerIP r"
proof (cases c)
  case (Reserved key' a' i ip')
  then have k: "key' = key" "a' = a" "c' = Assigned key a i ip" "client = Some ip"
    using assms by (auto simp: conn_step_def assign_conn_def Let_def split: option.splits prod.splits if_splits)
  obtain r adm where "rule_of s key i = Some r" "admissions s a = Some adm" "fst (assignReservedIP r ip adm)"
    using assms(1) Reserved k by (auto simp: conn_step_def assign_conn_def Let_def split: option.splits prod.splits if_splits)
  then show ?thesis using that Reserved k by (auto simp: assignReservedIP_def split: if_splits)
next
  case (Admitted key' a' i ip')
  then show ?thesis using assms by (auto simp: conn_step_def reserve_conn_def Let_def split: option.splits prod.splits if_splits)
qed (use assms in \<open>auto simp: conn_step_def load_binding_def try_binding_def confirm_binding_def admit_conn_def Let_def
      split: option.splits prod.splits if_splits\<close>)

section \<open>The table of admission objects\<close>

text \<open>The object of an open listener is the one registered for its address, and a reload under way
  has staged no other object for an address than the one registered for it, if there is one.\<close>

definition registry_inv :: "server_sys \<Rightarrow> bool" where
  "registry_inv y \<longleftrightarrow> distinct (map fst (admissionsByKey (srv y)))
     \<and> (\<forall>key a. map_of (listenersByKey (srv y)) key = Some a \<longrightarrow> map_of (admissionsByKey (srv y)) key = Some a)
     \<and> (\<forall>p key a. plan y = Some p \<longrightarrow> (key, a) \<in> set (planStaged p) \<longrightarrow> map_of (admissionsByKey (srv y)) key \<in> {None, Some a})"

text \<open>Outside a commit the table only loses idle objects of addresses no longer in use.\<close>

definition trimmed :: "Server \<Rightarrow> Server \<Rightarrow> bool" where
  "trimmed s t \<longleftrightarrow> listenersByKey t = listenersByKey s
     \<and> (\<exists>keep. admissionsByKey t = filter keep (admissionsByKey s)
          \<and> (\<forall>key a. (key, a) \<in> set (admissionsByKey s) \<longrightarrow> keep (key, a) \<or> (\<not> key_in_use s key \<and> adm_idle s a)))"

lemma trimmed_same: "listenersByKey t = listenersByKey s \<Longrightarrow> admissionsByKey t = admissionsByKey s \<Longrightarrow> trimmed s t"
  by (auto simp: trimmed_def intro!: exI[of _ "\<lambda>x. True"])

lemma map_of_filter_keys:
  "distinct (map fst xs) \<Longrightarrow> map_of (filter keep xs) k = (case map_of xs k of Some a \<Rightarrow> if keep (k, a) then Some a else None | None \<Rightarrow> None)"
  by (induction xs) (auto split: option.splits simp: map_of_eq_None_iff)

lemma map_of_filter_out: "map_of (filter (\<lambda>(k, a). k \<notin> R) xs) key = (if key \<in> R then None else map_of xs key)"
  by (induction xs) auto

lemma trimmed_cleanup:
  assumes "distinct (map fst (admissionsByKey s))"
  shows "trimmed s (maybeCleanupAdmission key a s)"
proof (cases "map_of (admissionsByKey s) key = Some a \<and> adm_idle s a \<and> \<not> key_in_use s key")
  case True
  then have m: "maybeCleanupAdmission key a s = s\<lparr>admissionsByKey := filter (\<lambda>x. key \<noteq> fst x) (admissionsByKey s)\<rparr>"
    by (simp add: maybeCleanupAdmission_def AList.delete_eq split_def)
  have "b = a" if "(key, b) \<in> set (admissionsByKey s)" for b using True that assms by (simp add: map_of_is_SomeI)
  then show ?thesis using True unfolding m trimmed_def by (auto intro!: exI[of _ "\<lambda>x. key \<noteq> fst x"])
next
  case False
  then have "maybeCleanupAdmission key a s = s" by (auto simp: maybeCleanupAdmission_def)
  then show ?thesis by (simp add: trimmed_same)
qed

lemma conn_trimmed:
  assumes "conn_step peer client c s = (c', ts, s')" "distinct (map fst (admissionsByKey s))"
  shows "trimmed s s'"
proof (cases c)
  case (Swept key a i)
  then show ?thesis using assms trimmed_cleanup by (auto simp: conn_step_def)
qed (use assms in \<open>auto simp: conn_step_def load_binding_def try_binding_def confirm_binding_def drop_lease_def admit_conn_def admitGlobal_def
      reserve_conn_def assign_conn_def on_adm_def putAdm_def putGen_def releaseGlobal_def Let_def
      split: option.splits prod.splits if_splits intro!: trimmed_same\<close>)

lemma task_trimmed: "task_step t s = (ts, s') \<Longrightarrow> trimmed s s'"
proof (cases t)
  case Prune
  assume "task_step t s = (ts, s')"
  then show ?thesis using Prune by (auto simp: task_step_def pruneAdmissions_def trimmed_def intro!: exI[of _ "\<lambda>(key, a). key_in_use s key \<or> \<not> adm_idle s a"])
qed (auto simp: task_step_def on_gen_def putGen_def Let_def split: option.splits prod.splits if_splits intro!: trimmed_same)

lemma stage_loop_staged:
  "stage_loop listens existing ks staged reused s = (Inr (staged', reused'), s') \<Longrightarrow>
   \<forall>(key, a)\<in>set staged. map_of (admissionsByKey s) key \<in> {None, Some a} \<Longrightarrow>
   \<forall>(key, a)\<in>set staged'. map_of (admissionsByKey s') key \<in> {None, Some a}"
  by (induction listens existing ks staged reused s rule: stage_loop.induct) (auto split: if_splits option.splits)

lemma prepare_trimmed:
  assumes "prepareReload compiles digest pick repick listens cancelled rules s = (r, s')"
  shows "listenersByKey s' = listenersByKey s \<and> admissionsByKey s' = admissionsByKey s"
    and "r = ReloadPlanned p \<Longrightarrow> (key, a) \<in> set (planStaged p) \<Longrightarrow> map_of (admissionsByKey s') key \<in> {None, Some a}"
proof -
  show "listenersByKey s' = listenersByKey s \<and> admissionsByKey s' = admissionsByKey s"
    using prepareReload_effect(1)[OF assms] by (simp add: pruned_def)
next
  define t where "t = pruneCompletedRetiredLocked s"
  assume r: "r = ReloadPlanned p" "(key, a) \<in> set (planStaged p)"
  obtain ks reused where "stage_loop listens (listenersByKey t) ks [] [] t = (Inr (planStaged p, reused), s')"
    using assms unfolding r(1)
    by (auto simp: prepareReload_def Let_def retiredCount_def t_def[symmetric] split: sum.splits option.splits if_splits prod.splits)
  from stage_loop_staged[OF this] r(2) show "map_of (admissionsByKey s') key \<in> {None, Some a}" by force
qed

text \<open>Every step but a commit trims the table; a commit enters the staged objects in both tables.\<close>

definition entered :: "server_sys \<Rightarrow> server_sys \<Rightarrow> bool" where
  "entered y y' \<longleftrightarrow> (\<exists>p. plan y = Some p \<and> plan y' = None
     \<and> admissionsByKey (srv y') = AList.updates (map fst (planStaged p)) (map snd (planStaged p)) (admissionsByKey (srv y))
     \<and> listenersByKey (srv y') = filter (\<lambda>(key, a). key \<notin> set (planRemoved p))
          (AList.updates (map fst (planStaged p)) (map snd (planStaged p)) (listenersByKey (srv y))))"

lemma step_registry:
  assumes d: "distinct (map fst (admissionsByKey (srv y)))"
  shows "trimmed (srv y) (srv (server_step op y))
      \<and> (plan (server_step op y) = None \<or> plan (server_step op y) = plan y
          \<or> (\<exists>p. plan (server_step op y) = Some p \<and> (\<forall>(key, a)\<in>set (planStaged p). map_of (admissionsByKey (srv (server_step op y))) key \<in> {None, Some a})))
    \<or> entered y (server_step op y)"
proof (cases op)
  case (OConn n peer client)
  then show ?thesis using conn_trimmed[OF _ d, of peer client "conns y ! n"]
    by (cases "conn_step peer client (conns y ! n) (srv y)") (auto intro: trimmed_same)
next
  case (OTask n)
  then show ?thesis using task_trimmed[of "tasks y ! n" "srv y"] by (cases "task_step (tasks y ! n) (srv y)") (auto intro: trimmed_same)
next
  case (OReload compiles digest pick repick listens cancelled rules)
  obtain r s' where pr: "prepareReload compiles digest pick repick listens cancelled rules (srv y) = (r, s')"
    by (cases "prepareReload compiles digest pick repick listens cancelled rules (srv y)")
  have "trimmed (srv y) s'" using prepare_trimmed(1)[OF pr] by (auto intro: trimmed_same)
  then show ?thesis using OReload pr prepare_trimmed(2)[OF pr] by (cases r) (auto intro: trimmed_same)
next
  case (OCommit cancelled)
  show ?thesis
  proof (cases "plan y")
    case (Some p)
    obtain e s' where c: "commitReload cancelled p (srv y) = (e, s')" by (cases "commitReload cancelled p (srv y)")
    show ?thesis
    proof (cases e)
      case None
      then show ?thesis using c OCommit Some by (auto simp: entered_def commitReload_def Let_def putGen_def trackRetired_def split: if_splits)
    next
      case (Some e')
      then have "s' = srv y" using c commit_fails by blast
      then show ?thesis using c OCommit \<open>plan y = Some p\<close> Some by (auto intro: trimmed_same)
    qed
  qed (use OCommit in \<open>auto intro: trimmed_same\<close>)
qed (auto simp: closeServer_def startServe_def Let_def split_beta split: option.splits intro!: trimmed_same)

lemma enteredE:
  assumes "entered y y'"
  obtains p where "plan y = Some p" "plan y' = None"
    "admissionsByKey (srv y') = AList.updates (map fst (planStaged p)) (map snd (planStaged p)) (admissionsByKey (srv y))"
    "listenersByKey (srv y') = filter (\<lambda>(key, a). key \<notin> set (planRemoved p))
       (AList.updates (map fst (planStaged p)) (map snd (planStaged p)) (listenersByKey (srv y)))"
  using assms unfolding entered_def by (elim exE conjE) (erule (3) that)

lemma updates_same:
  "map_of (AList.updates (map fst st) (map snd st) xs) key = Some a \<Longrightarrow> (map_of xs key = Some a \<Longrightarrow> map_of ys key = Some a) \<Longrightarrow>
   map_of (AList.updates (map fst st) (map snd st) ys) key = Some a"
proof (induction st arbitrary: xs ys)
  case (Cons p st)
  have "map_of (AList.update (fst p) (snd p) xs) key = Some a \<Longrightarrow> map_of (AList.update (fst p) (snd p) ys) key = Some a"
    using Cons.prems(2) by (auto simp: update_conv' split: if_splits)
  then show ?case using Cons.IH[of "AList.update (fst p) (snd p) xs" "AList.update (fst p) (snd p) ys"] Cons.prems(1) by simp
qed simp

lemma updates_kept:
  "map_of xs key = Some a \<Longrightarrow> \<forall>(k, b)\<in>set st. k = key \<longrightarrow> b = a \<Longrightarrow> map_of (AList.updates (map fst st) (map snd st) xs) key = Some a"
  by (induction st arbitrary: xs) (auto simp: update_conv')

lemma key_open_in_use:
  assumes l: "lease_inv y" and p: "publish_inv y" and k: "map_of (listenersByKey (srv y)) key = Some a"
  shows "key_in_use (srv y) key"
proof -
  obtain i g where i: "current (srv y) = Some i" "gens (srv y) i = Some g" using lease_invD(1)[OF l] by blast
  have "key \<in> open_keys (srv y)" using k by (force simp: open_keys_def dest: map_of_SomeD)
  then have "key \<in> keys g" using p i unfolding publish_inv_def by blast
  then show ?thesis using i by (auto simp: key_in_use_def uses_key_def keys_def map_of_eq_None_iff)
qed

lemma trimmed_map_of:
  assumes "trimmed s t" "distinct (map fst (admissionsByKey s))"
  shows "map_of (admissionsByKey t) key = map_of (admissionsByKey s) key
    \<or> (map_of (admissionsByKey t) key = None \<and> \<not> key_in_use s key \<and> (\<exists>a. map_of (admissionsByKey s) key = Some a \<and> adm_idle s a))"
proof -
  obtain keep where k: "admissionsByKey t = filter keep (admissionsByKey s)"
    "\<And>key a. (key, a) \<in> set (admissionsByKey s) \<Longrightarrow> keep (key, a) \<or> \<not> key_in_use s key \<and> adm_idle s a"
    using assms(1) unfolding trimmed_def by blast
  show ?thesis using k(2)[of key] unfolding k(1) map_of_filter_keys[OF assms(2)]
    by (cases "map_of (admissionsByKey s) key") (auto dest: map_of_SomeD)
qed

lemma registry_inv_trimmed:
  assumes inv: "registry_inv y" "lease_inv y" "publish_inv y" and t: "trimmed (srv y) (srv y')"
    and p: "plan y' = None \<or> plan y' = plan y \<or> (\<exists>p. plan y' = Some p \<and> (\<forall>(key, a)\<in>set (planStaged p). map_of (admissionsByKey (srv y')) key \<in> {None, Some a}))"
  shows "registry_inv y'"
proof -
  have d: "distinct (map fst (admissionsByKey (srv y)))" using inv(1) by (simp add: registry_inv_def)
  note m = trimmed_map_of[OF t d]
  have "distinct (map fst (admissionsByKey (srv y')))" using t d by (auto simp: trimmed_def distinct_map_filter)
  moreover have "map_of (admissionsByKey (srv y')) key = Some a" if "map_of (listenersByKey (srv y')) key = Some a" for key a
  proof -
    have l: "map_of (listenersByKey (srv y)) key = Some a" using that t by (simp add: trimmed_def)
    then have "map_of (admissionsByKey (srv y)) key = Some a" using inv(1) by (simp add: registry_inv_def)
    then show ?thesis using m[of key] key_open_in_use[OF inv(2,3) l] by auto
  qed
  moreover have "map_of (admissionsByKey (srv y')) key \<in> {None, Some a}" if q: "plan y' = Some q" "(key, a) \<in> set (planStaged q)" for q key a
    using p
  proof (elim disjE exE conjE)
    assume "plan y' = plan y"
    then have "map_of (admissionsByKey (srv y)) key \<in> {None, Some a}" using inv(1) q unfolding registry_inv_def by metis
    then show ?thesis using m[of key] by auto
  qed (use q in auto)
  ultimately show ?thesis unfolding registry_inv_def by blast
qed

lemma step_registry_inv:
  assumes inv: "registry_inv y" "lease_inv y" "publish_inv y"
  shows "registry_inv (server_step op y)"
proof -
  have d: "distinct (map fst (admissionsByKey (srv y)))" using inv(1) by (simp add: registry_inv_def)
  from step_registry[OF d, of op] show ?thesis
  proof (elim disjE)
    assume "entered y (server_step op y)"
    then obtain p where "plan y = Some p" and p: "plan (server_step op y) = None"
      "admissionsByKey (srv (server_step op y)) = AList.updates (map fst (planStaged p)) (map snd (planStaged p)) (admissionsByKey (srv y))"
      "listenersByKey (srv (server_step op y)) = filter (\<lambda>(key, a). key \<notin> set (planRemoved p))
             (AList.updates (map fst (planStaged p)) (map snd (planStaged p)) (listenersByKey (srv y)))"
      by (rule enteredE)
    have "map_of (admissionsByKey (srv (server_step op y))) key = Some a" if "map_of (listenersByKey (srv (server_step op y))) key = Some a" for key a
      using that inv(1) unfolding p(2,3) map_of_filter_out registry_inv_def by (auto split: if_splits intro: updates_same)
    then show ?thesis using p(1) d unfolding registry_inv_def p(2) by (simp add: distinct_updates)
  qed (rule registry_inv_trimmed[OF inv]; blast)
qed

lemma start_loop_tables:
  "start_loop listens actual rules s = Inr s' \<Longrightarrow> admissionsByKey s = listenersByKey s \<and> distinct (map fst (listenersByKey s)) \<Longrightarrow>
   admissionsByKey s' = listenersByKey s' \<and> distinct (map fst (listenersByKey s'))"
  by (induction listens actual rules s rule: start_loop.induct) (auto simp: Let_def map_of_eq_None_iff split: if_splits)

lemma start_registry_inv:
  assumes "server_start y"
  shows "registry_inv y"
proof -
  obtain compiles digest pick listens actual rules m where y: "plan y = None"
    and new: "NewServerWithMetrics compiles digest pick listens actual rules m = Inr (srv y)"
    using assms by (auto simp: server_start_def)
  obtain g s where "newRoutingGeneration compiles digest pick 1 (projr (PrepareRuntimeRules compiles rules)) (map fst (listenersByKey s)) = Inr g"
    and "start_loop listens actual (map the (projr (PrepareRuntimeRules compiles rules))) empty_server = Inr s" "srv y = putGen 1 g s\<lparr>current := Some 1\<rparr>"
    using new by (auto simp: NewServerWithMetrics_def split: sum.splits option.splits if_splits)
  then show ?thesis using start_loop_tables[of listens actual _ empty_server s] y
    by (simp add: registry_inv_def putGen_def empty_server_def)
qed

section \<open>The slots of a listener stay within its own rules\<close>

definition listener_inv :: "server_sys \<Rightarrow> bool" where
  "listener_inv y \<longleftrightarrow> (\<forall>key a M P. rules_within key M P (srv y) \<longrightarrow>
     int (on_listener y key a) \<le> M \<and> (\<forall>ip. int (from_client y key a ip) \<le> P))"

lemma published_positive:
  assumes "publish_inv y" "rule_of (srv y) key i = Some r"
  shows "0 < MaxConnections r \<and> 0 < MaxConnectionsPerIP r"
  using published_rule_wf[OF assms] by (auto simp: rule_wf_def limits_wf_def limit_defs)

text \<open>The connections that hold a slot after a step in which one takes it.\<close>

lemma taken_under_limit:
  assumes q: "quota_inv y" "publish_inv y" and n: "n < length (conns y)"
    and st: "conn_step peer client (conns y ! n) (srv y) = (c', ts, s')"
    and t: "listener_slot c' = Some (key, a)" "listener_slot (conns y ! n) \<noteq> Some (key, a)"
  shows "\<exists>i r. lease c' = Some i \<and> rule_of (srv y) key i = Some r \<and> int (cnt (\<lambda>c. rule_slot c = Some a) ((conns y)[n := c'])) \<le> MaxConnections r"
proof -
  obtain i ip r adm where c: "conns y ! n = Admitted key a i ip" "c' = Reserved key a i ip" "rule_of (srv y) key i = Some r" "admissions (srv y) a = Some adm"
    "MaxConnections r \<le> 0 \<or> admActive adm < MaxConnections r" using takes_listener[OF st t] by blast
  have "adm_ok y a adm" using q(1) c(4) by (simp add: quota_inv_def)
  then have "admActive adm = int (cnt (\<lambda>c. rule_slot c = Some a) (conns y))" by (rule adm_okD)
  moreover have "int (cnt (\<lambda>c. rule_slot c = Some a) ((conns y)[n := c'])) = int (cnt (\<lambda>c. rule_slot c = Some a) (conns y)) + 1"
    using slot_counts(2)[OF n, of "Some a" c'] c(1,2) by simp
  ultimately show ?thesis using c published_positive[OF q(2) c(3)] by (intro exI[of _ i] exI[of _ r]) auto
qed

lemma taken_under_client_limit:
  assumes q: "quota_inv y" "publish_inv y" and n: "n < length (conns y)"
    and st: "conn_step peer client (conns y ! n) (srv y) = (c', ts, s')"
    and t: "client_slot c' = Some (key, a, ip)" "client_slot (conns y ! n) \<noteq> Some (key, a, ip)"
  shows "\<exists>i r. lease c' = Some i \<and> rule_of (srv y) key i = Some r \<and> int (cnt (\<lambda>c. ip_slot c = Some (a, ip)) ((conns y)[n := c'])) \<le> MaxConnectionsPerIP r"
proof -
  obtain i ip' r adm where c: "conns y ! n = Reserved key a i ip'" "c' = Assigned key a i ip" "rule_of (srv y) key i = Some r" "admissions (srv y) a = Some adm"
    "MaxConnectionsPerIP r \<le> 0 \<or> ip_count adm ip < MaxConnectionsPerIP r" using takes_client[OF st t] by blast
  have "adm_ok y a adm" using q(1) c(4) by (simp add: quota_inv_def)
  then have "ip_count adm ip = int (cnt (\<lambda>c. ip_slot c = Some (a, ip)) (conns y))" by (rule adm_okD)
  moreover have "int (cnt (\<lambda>c. ip_slot c = Some (a, ip)) ((conns y)[n := c'])) = int (cnt (\<lambda>c. ip_slot c = Some (a, ip)) (conns y)) + 1"
    using slot_counts(3)[OF n, of "Some (a, ip)" c'] c(1,2) by simp
  ultimately show ?thesis using c published_positive[OF q(2) c(3)] by (intro exI[of _ i] exI[of _ r]) auto
qed

lemma within_step: "rules_within key M P t \<Longrightarrow> (\<And>i r. rule_of s key i = Some r \<Longrightarrow> rule_of t key i = Some r) \<Longrightarrow> rules_within key M P s"
  by (fastforce simp: rules_within_def)

lemma step_rules:
  assumes "lease_inv y" "publish_inv y" "rule_of (srv y) key i = Some r"
  shows "rule_of (srv (server_step op y)) key i = Some r"
  using step_atomic[OF assms(1,2) refl refl, of op]
proof
  assume "\<exists>i g. current (srv y) = Some i \<and> i < i + 1 \<and> current (srv (server_step op y)) = Some (i + 1) \<and> gens (srv y) (i + 1) = None
    \<and> gens (srv (server_step op y)) = (gens (srv y))(i + 1 \<mapsto> g) \<and> open_keys (srv (server_step op y)) = keys g \<and> rules_ok g"
  then obtain j g where "gens (srv y) (j + 1) = None" "gens (srv (server_step op y)) = (gens (srv y))(j + 1 \<mapsto> g)" by blast
  then show ?thesis using assms(3) by (auto simp: rule_of_def split: if_splits option.splits)
qed (use assms(3) in auto)

lemma slots_new:
  assumes "\<And>n peer client. op \<noteq> OConn n peer client"
  shows "conns (server_step op y) = conns y \<or> (\<exists>key a. conns (server_step op y) = conns y @ [Accepted key a])"
  using assms by (cases op) (auto simp: Let_def split: option.splits prod.splits reload_outcome.splits)

lemma cnt_grows:
  assumes "n < length xs" "\<not> Q v \<or> Q (xs ! n)" shows "cnt Q (xs[n := v]) \<le> cnt Q xs"
  using cnt_update[OF assms(1), of Q v] assms(2) by (auto split: if_splits)

lemma step_listener_inv:
  assumes inv: "listener_inv y" "lease_inv y" "publish_inv y" "quota_inv y"
  shows "listener_inv (server_step op y)"
  unfolding listener_inv_def
proof (intro allI impI)
  fix key a M P assume w': "rules_within key M P (srv (server_step op y))"
  have w: "rules_within key M P (srv y)" by (rule within_step[OF w' step_rules[OF inv(2,3)]])
  have old: "int (on_listener y key a) \<le> M" "int (from_client y key a ip) \<le> P" for ip using inv(1) w unfolding listener_inv_def by blast+
  show "int (on_listener (server_step op y) key a) \<le> M \<and> (\<forall>ip. int (from_client (server_step op y) key a ip) \<le> P)"
  proof (cases "\<exists>n peer client. op = OConn n peer client \<and> n < length (conns y)")
    case False
    then have "conns (server_step op y) = conns y \<or> (\<exists>key a. conns (server_step op y) = conns y @ [Accepted key a])"
      using slots_new[of op y] by (cases op) auto
    then show ?thesis using old by (auto simp: on_listener_def from_client_def)
  next
    case True
    then obtain n peer client where op: "op = OConn n peer client" and n: "n < length (conns y)" by blast
    obtain c' ts s' where st: "conn_step peer client (conns y ! n) (srv y) = (c', ts, s')" by (rule prod_cases3)
    have cs: "conns (server_step op y) = (conns y)[n := c']" using op n st by simp
    have "int (cnt (\<lambda>c. listener_slot c = Some (key, a)) ((conns y)[n := c'])) \<le> M"
    proof (cases "listener_slot c' = Some (key, a) \<and> listener_slot (conns y ! n) \<noteq> Some (key, a)")
      case True
      then obtain i r where r: "rule_of (srv y) key i = Some r" "int (cnt (\<lambda>c. rule_slot c = Some a) ((conns y)[n := c'])) \<le> MaxConnections r"
        using taken_under_limit[OF inv(4,3) n st] by blast
      have "MaxConnections r \<le> M" using w r(1) by (auto simp: rules_within_def)
      moreover have "cnt (\<lambda>c. listener_slot c = Some (key, a)) ((conns y)[n := c']) \<le> cnt (\<lambda>c. rule_slot c = Some a) ((conns y)[n := c'])"
        by (rule cnt_mono) (rule slot_of_listener)
      ultimately show ?thesis using r(2) by linarith
    next
      case False
      then have "cnt (\<lambda>c. listener_slot c = Some (key, a)) ((conns y)[n := c']) \<le> cnt (\<lambda>c. listener_slot c = Some (key, a)) (conns y)"
        by (intro cnt_grows[OF n]) blast
      then show ?thesis using old(1) unfolding on_listener_def by linarith
    qed
    moreover have "int (cnt (\<lambda>c. client_slot c = Some (key, a, ip)) ((conns y)[n := c'])) \<le> P" for ip
    proof (cases "client_slot c' = Some (key, a, ip) \<and> client_slot (conns y ! n) \<noteq> Some (key, a, ip)")
      case True
      then obtain i r where r: "rule_of (srv y) key i = Some r" "int (cnt (\<lambda>c. ip_slot c = Some (a, ip)) ((conns y)[n := c'])) \<le> MaxConnectionsPerIP r"
        using taken_under_client_limit[OF inv(4,3) n st] by blast
      have "MaxConnectionsPerIP r \<le> P" using w r(1) by (auto simp: rules_within_def)
      moreover have "cnt (\<lambda>c. client_slot c = Some (key, a, ip)) ((conns y)[n := c']) \<le> cnt (\<lambda>c. ip_slot c = Some (a, ip)) ((conns y)[n := c'])"
        by (rule cnt_mono) (rule slot_of_client)
      ultimately show ?thesis using r(2) by linarith
    next
      case False
      then have "cnt (\<lambda>c. client_slot c = Some (key, a, ip)) ((conns y)[n := c']) \<le> cnt (\<lambda>c. client_slot c = Some (key, a, ip)) (conns y)"
        by (intro cnt_grows[OF n]) blast
      then show ?thesis using old(2)[of ip] unfolding from_client_def by linarith
    qed
    ultimately show ?thesis by (simp add: on_listener_def from_client_def cs)
  qed
qed

definition admission_inv :: "server_sys \<Rightarrow> bool" where
  "admission_inv y \<longleftrightarrow> server_inv y \<and> publish_inv y \<and> registry_inv y \<and> listener_inv y"

lemma start_listener_inv: "server_start y \<Longrightarrow> listener_inv y"
  by (auto simp: listener_inv_def rules_within_def on_listener_def from_client_def server_start_def)

interpretation sa: invariant_system server_start "\<lambda>y z. \<exists>op. z = server_step op y" admission_inv
  by unfold_locales (auto simp: admission_inv_def server_inv_def
      intro: start_lease_inv start_quota_inv start_publish_inv start_registry_inv start_listener_inv
        step_lease_inv step_quota_inv step_publish_inv step_registry_inv step_listener_inv)

lemma run_admission_inv: "server_start y \<Longrightarrow> admission_inv (server_run ops y)"
  using sa.reachable_inv run_reachable by blast

lemma registered_kept:
  assumes inv: "registry_inv y" "quota_inv y" and r: "map_of (admissionsByKey (srv y)) key = Some a"
    and c: "c \<in> set (conns y)" "rule_slot c = Some a"
  shows "map_of (admissionsByKey (srv (server_step op y))) key = Some a"
proof -
  have d: "distinct (map fst (admissionsByKey (srv y)))" using inv(1) by (simp add: registry_inv_def)
  obtain adm where adm: "admissions (srv y) a = Some adm" using inv(2) c unfolding quota_inv_def by blast
  then have "adm_ok y a adm" using inv(2) by (simp add: quota_inv_def)
  moreover have "cnt (\<lambda>c. rule_slot c = Some a) (conns y) \<noteq> 0" using c by (auto simp: cnt_zero)
  ultimately have busy: "\<not> adm_idle (srv y) a" using adm adm_okD(1) by (fastforce simp: adm_idle_def idle_def)
  from step_registry[OF d, of op] show ?thesis
  proof
    assume "trimmed (srv y) (srv (server_step op y))
      \<and> (plan (server_step op y) = None \<or> plan (server_step op y) = plan y
          \<or> (\<exists>p. plan (server_step op y) = Some p \<and> (\<forall>(key, a)\<in>set (planStaged p). map_of (admissionsByKey (srv (server_step op y))) key \<in> {None, Some a})))"
    then show ?thesis using trimmed_map_of[OF _ d, of "srv (server_step op y)" key] r busy by auto
  next
    assume "entered y (server_step op y)"
    then obtain p where p: "plan y = Some p"
      "admissionsByKey (srv (server_step op y)) = AList.updates (map fst (planStaged p)) (map snd (planStaged p)) (admissionsByKey (srv y))"
      by (rule enteredE)
    have "b = a" if "(key, b) \<in> set (planStaged p)" for b
    proof -
      have "map_of (admissionsByKey (srv y)) key \<in> {None, Some b}" using inv(1) p(1) that unfolding registry_inv_def by blast
      then show ?thesis using r by simp
    qed
    then show ?thesis unfolding p(2) by (intro updates_kept[OF r]) auto
  qed
qed

text \<open>C4: Admission quotas. Whatever connections, reloads and cleanups have gone before: the server
  holds at most 4096 global slots. If no rule ever published for a listener allows more than \<open>M\<close>
  connections or \<open>P\<close> per client, the listener never holds more, whatever the limits of other listeners
  are. The counters of an open listener are the ones registered for its address, and no step replaces
  or drops registered counters on which a connection still holds a slot, so that a listener that is
  removed and added again goes on counting. And a step in which a connection takes a slot of its
  listener, or of its client, leaves no more of them on those counters than the rule of the very
  generation it leases allows. (A connection accepted just before its listener was removed may still
  count on the counters that listener had, which is why the bounds are per counter object.)\<close>

theorem quotas_respected:
  fixes ops op y
  assumes "server_start y"
  defines "z \<equiv> server_run ops y" and "z' \<equiv> server_step op (server_run ops y)"
  shows "cnt global_slot (conns z) \<le> 4096
    \<and> (rules_within key M P (srv z) \<longrightarrow> int (on_listener z key a) \<le> M \<and> int (from_client z key a ip) \<le> P)
    \<and> (map_of (listenersByKey (srv z)) key = Some a \<longrightarrow> map_of (admissionsByKey (srv z)) key = Some a)
    \<and> (map_of (admissionsByKey (srv z)) key = Some a \<and> list_ex (\<lambda>c. rule_slot c = Some a) (conns z)
         \<longrightarrow> map_of (admissionsByKey (srv z')) key = Some a)
    \<and> (n < length (conns z) \<and> listener_slot (conns z' ! n) = Some (key, a) \<and> listener_slot (conns z ! n) \<noteq> Some (key, a)
         \<longrightarrow> (\<exists>i r. lease (conns z' ! n) = Some i \<and> rule_of (srv z) key i = Some r
               \<and> int (cnt (\<lambda>c. rule_slot c = Some a) (conns z')) \<le> MaxConnections r))
    \<and> (n < length (conns z) \<and> client_slot (conns z' ! n) = Some (key, a, ip) \<and> client_slot (conns z ! n) \<noteq> Some (key, a, ip)
         \<longrightarrow> (\<exists>i r. lease (conns z' ! n) = Some i \<and> rule_of (srv z) key i = Some r
               \<and> int (cnt (\<lambda>c. ip_slot c = Some (a, ip)) (conns z')) \<le> MaxConnectionsPerIP r))"
proof (intro conjI impI)
  have inv: "publish_inv z" "quota_inv z" "registry_inv z" "listener_inv z"
    using run_admission_inv[OF assms(1), of ops] by (simp_all add: z_def admission_inv_def server_inv_def)
  show "cnt global_slot (conns z) \<le> 4096" using inv(2) by (simp add: quota_inv_def serverGlobalConnectionLimit_def)
  show "int (on_listener z key a) \<le> M" "int (from_client z key a ip) \<le> P" if "rules_within key M P (srv z)"
    using inv(4) that unfolding listener_inv_def by blast+
  show "map_of (admissionsByKey (srv z)) key = Some a" if "map_of (listenersByKey (srv z)) key = Some a"
    using inv(3) that unfolding registry_inv_def by blast
  show "map_of (admissionsByKey (srv z')) key = Some a"
    if "map_of (admissionsByKey (srv z)) key = Some a \<and> list_ex (\<lambda>c. rule_slot c = Some a) (conns z)"
    using that registered_kept[OF inv(3,2)] by (auto simp: list_ex_iff z'_def z_def)
  have moved: "\<exists>peer client c' ts s'. conn_step peer client (conns z ! n) (srv z) = (c', ts, s') \<and> conns z' = (conns z)[n := c'] \<and> conns z' ! n = c'"
    if n: "n < length (conns z)" "conns z' ! n \<noteq> conns z ! n"
  proof (cases "\<exists>m peer client. op = OConn m peer client \<and> m < length (conns z)")
    case True
    then obtain m peer client where op: "op = OConn m peer client" "m < length (conns z)" by blast
    obtain c' ts s' where st: "conn_step peer client (conns z ! m) (srv z) = (c', ts, s')" by (rule prod_cases3)
    have cs: "conns z' = (conns z)[m := c']" using op st by (simp add: z'_def z_def)
    then have "m = n" using n by (metis nth_list_update_neq)
    then show ?thesis using st cs n by auto
  next
    case False
    then have "conns z' = conns z \<or> (\<exists>key a. conns z' = conns z @ [Accepted key a])"
      using slots_new[of op z] unfolding z'_def z_def by (cases op) auto
    then show ?thesis using n by (auto simp: nth_append)
  qed
  show "\<exists>i r. lease (conns z' ! n) = Some i \<and> rule_of (srv z) key i = Some r
      \<and> int (cnt (\<lambda>c. rule_slot c = Some a) (conns z')) \<le> MaxConnections r"
    if t: "n < length (conns z) \<and> listener_slot (conns z' ! n) = Some (key, a) \<and> listener_slot (conns z ! n) \<noteq> Some (key, a)"
  proof -
    obtain peer client c' ts s' where st: "conn_step peer client (conns z ! n) (srv z) = (c', ts, s')" "conns z' = (conns z)[n := c']" "conns z' ! n = c'"
      using moved t by metis
    have "listener_slot c' = Some (key, a)" using t st(3) by simp
    from taken_under_limit[OF inv(2,1) conjunct1[OF t] st(1) this] t show ?thesis unfolding st(2)[symmetric] st(3) by blast
  qed
  show "\<exists>i r. lease (conns z' ! n) = Some i \<and> rule_of (srv z) key i = Some r
      \<and> int (cnt (\<lambda>c. ip_slot c = Some (a, ip)) (conns z')) \<le> MaxConnectionsPerIP r"
    if t: "n < length (conns z) \<and> client_slot (conns z' ! n) = Some (key, a, ip) \<and> client_slot (conns z ! n) \<noteq> Some (key, a, ip)"
  proof -
    obtain peer client c' ts s' where st: "conn_step peer client (conns z ! n) (srv z) = (c', ts, s')" "conns z' = (conns z)[n := c']" "conns z' ! n = c'"
      using moved t by metis
    have "client_slot c' = Some (key, a, ip)" using t st(3) by simp
    from taken_under_client_limit[OF inv(2,1) conjunct1[OF t] st(1) this] t show ?thesis unfolding st(2)[symmetric] st(3) by blast
  qed
qed

section \<open>Taking a slot\<close>

definition demo_admitted :: "server_op list" where
  "demo_admitted = [OServe False, OAccept '':80''] @ replicate 4 (OConn 0 demo_peer (Some demo_client))"

definition observe_slots :: "server_op \<Rightarrow> server_sys \<Rightarrow> nat \<times> (string \<times> nat) option \<times> (string \<times> nat) option \<times> nat option" where
  "observe_slots op z = (length (conns z), listener_slot (conns z ! 0), listener_slot (conns (server_step op z) ! 0), map_of (listenersByKey (srv z)) '':80'')"

lemma slots_observed:
  "observe_slots (OConn 0 demo_peer (Some demo_client)) (server_run demo_admitted demo_sys) = (1, None, Some ('':80'', 0), Some 0)"
  by code_simp

theorem quotas_respected_witness:
  "(\<exists>i r. lease (conns (server_run (demo_admitted @ [OConn 0 demo_peer (Some demo_client)]) demo_sys) ! 0) = Some i
      \<and> rule_of (srv (server_run demo_admitted demo_sys)) '':80'' i = Some r
      \<and> int (cnt (\<lambda>c. rule_slot c = Some 0) (conns (server_run (demo_admitted @ [OConn 0 demo_peer (Some demo_client)]) demo_sys))) \<le> MaxConnections r)
   \<and> map_of (admissionsByKey (srv (server_run demo_admitted demo_sys))) '':80'' = Some 0"
proof -
  let ?op = "OConn 0 demo_peer (Some demo_client)" and ?z = "server_run demo_admitted demo_sys"
  have o: "(length (conns ?z), listener_slot (conns ?z ! 0), listener_slot (conns (server_step ?op ?z) ! 0), map_of (listenersByKey (srv ?z)) '':80'')
      = (1, None, Some ('':80'', 0), Some 0)" by (rule slots_observed[unfolded observe_slots_def])
  note q = quotas_respected[OF demo_sys_start, where ops = demo_admitted and op = ?op and n = 0 and key = "'':80''" and a = 0,
      THEN conjunct2, THEN conjunct2]
  have "map_of (admissionsByKey (srv ?z)) '':80'' = Some 0" using q[THEN conjunct1] o by (simp only: prod.inject)
  moreover have "0 < length (conns ?z) \<and> listener_slot (conns (server_step ?op ?z) ! 0) = Some ('':80'', 0) \<and> listener_slot (conns ?z ! 0) \<noteq> Some ('':80'', 0)"
    using o by (simp only: prod.inject) simp
  from q[THEN conjunct2, THEN conjunct2, THEN conjunct1, rule_format, OF this]
  have "\<exists>i r. lease (conns (server_step ?op ?z) ! 0) = Some i \<and> rule_of (srv ?z) '':80'' i = Some r
      \<and> int (cnt (\<lambda>c. rule_slot c = Some 0) (conns (server_step ?op ?z))) \<le> MaxConnections r" .
  moreover have "server_run (demo_admitted @ [?op]) demo_sys = server_step ?op ?z" by (simp only: server_run_def fold_append fold_simps comp_apply id_apply)
  ultimately show ?thesis by (simp only: simp_thms)
qed

end
