(* ===== verification/Boost_Cache.thy ===== *)
theory Boost_Cache
  imports Route_Health "HOL-Library.AList"
begin

text \<open>
  The winner cache of the boost mode (\<^verbatim>\<open>controller/boost.go\<close>): which target won the last race of a
  rule, with the tokens and decisions that keep a late result from overwriting a newer one.

  The map of entries is an association list with distinct keys, in the order an iteration visits
  them; \<open>pick\<close> chooses the entry an eviction hits. A decision state is a heap object, named by a
  number, with its reference count in \<open>refCounts\<close>. Every operation is one critical section and
  takes the clock reading it makes as an argument.
\<close>

section \<open>Data\<close>

definition boostWinnerTTL :: duration where "boostWinnerTTL = 30 * second"
definition boostRevalidateAfter :: duration where "boostRevalidateAfter = boostWinnerTTL div 2"
definition boostRevalidateLimit :: duration where "boostRevalidateLimit = 2 * second"
definition boostWinnerCacheMax :: nat where "boostWinnerCacheMax = 256"

lemmas boost_consts [go_consts] = boostWinnerTTL_def boostRevalidateAfter_def boostRevalidateLimit_def boostWinnerCacheMax_def

record boostWinnerEntry =
  bwAddr :: string
  bwExpires :: gotime
  bwGeneration :: u64

record boostWinnerToken =
  tkKey :: string
  tkAddr :: string
  tkGeneration :: u64

definition no_token :: boostWinnerToken where
  "no_token = \<lparr>tkKey = '''', tkAddr = '''', tkGeneration = 0\<rparr>"

record boostWinnerCacheRegistry =
  winners :: "(string \<times> boostWinnerEntry) list"
  nextWinner :: u64
  decisions :: "string \<rightharpoonup> nat"
  refCounts :: "nat \<Rightarrow> int"
  nextDecision :: nat

record boostWinnerDecision =
  dcKey :: string
  dcState :: nat
  dcExpires :: gotime
  dcReleased :: bool

definition new_cache :: boostWinnerCacheRegistry where
  "new_cache = \<lparr>winners = [], nextWinner = 0, decisions = Map.empty, refCounts = (\<lambda>_. 0), nextDecision = 0\<rparr>"

fun targetByAddress :: "Target option list \<Rightarrow> string \<Rightarrow> Target option" where
  "targetByAddress [] address = None"
| "targetByAddress (t # ts) address =
     (if address = '''' then None
      else case t of
        Some u \<Rightarrow> if Address u = address then Some u else targetByAddress ts address
      | None \<Rightarrow> targetByAddress ts address)"

section \<open>Operations\<close>

definition deleteBoostWinnerLocked :: "string \<Rightarrow> boostWinnerCacheRegistry \<Rightarrow> boostWinnerCacheRegistry" where
  "deleteBoostWinnerLocked key c = c\<lparr>winners := AList.delete key (winners c), decisions := (decisions c)(key := None)\<rparr>"

definition loadBoostWinnerToken ::
  "gotime \<Rightarrow> string \<Rightarrow> boostWinnerCacheRegistry \<Rightarrow> boostWinnerEntry option \<times> boostWinnerCacheRegistry" where
  "loadBoostWinnerToken now key c = (case map_of (winners c) key of
       None \<Rightarrow> (None, c)
     | Some e \<Rightarrow> if \<not> now < bwExpires e then (None, deleteBoostWinnerLocked key c) else (Some e, c))"

definition loadBoostWinner ::
  "gotime \<Rightarrow> string \<Rightarrow> boostWinnerCacheRegistry \<Rightarrow> (string \<times> gotime) option \<times> boostWinnerCacheRegistry" where
  "loadBoostWinner now key c = (let (e, c) = loadBoostWinnerToken now key c in (map_option (\<lambda>e. (bwAddr e, bwExpires e)) e, c))"

definition deleteBoostWinnerIfCurrent :: "boostWinnerToken \<Rightarrow> boostWinnerCacheRegistry \<Rightarrow> bool \<times> boostWinnerCacheRegistry" where
  "deleteBoostWinnerIfCurrent token c =
     (if tkKey token = '''' \<or> tkGeneration token = 0 then (False, c)
      else case map_of (winners c) (tkKey token) of
        None \<Rightarrow> (False, c)
      | Some e \<Rightarrow> if bwGeneration e \<noteq> tkGeneration token \<or> bwAddr e \<noteq> tkAddr token then (False, c)
          else (True, deleteBoostWinnerLocked (tkKey token) c))"

text \<open>Whether a cached entry is rejected: its target is still in the rule and its circuit is open
  (\<open>isOpen\<close>, from a snapshot of the route) or its protocol is penalised.\<close>

definition unusable_winner :: "(string \<Rightarrow> bool) \<Rightarrow> (Target \<Rightarrow> duration) \<Rightarrow> Rule \<Rightarrow> boostWinnerEntry \<Rightarrow> bool" where
  "unusable_winner isOpen pen rule e = (case targetByAddress (Targets rule) (bwAddr e) of
       None \<Rightarrow> False
     | Some t \<Rightarrow> \<not> (\<not> isOpen (Address t) \<and> pen t = 0))"

definition loadUsableBoostWinnerToken ::
  "(string \<Rightarrow> bool) \<Rightarrow> (Target \<Rightarrow> duration) \<Rightarrow> gotime \<Rightarrow> string \<Rightarrow> Rule \<Rightarrow> boostWinnerCacheRegistry \<Rightarrow>
     boostWinnerEntry option \<times> boostWinnerCacheRegistry" where
  "loadUsableBoostWinnerToken isOpen pen now key rule c = (case loadBoostWinnerToken now key c of
       (None, c) \<Rightarrow> (None, c)
     | (Some e, c) \<Rightarrow>
         if unusable_winner isOpen pen rule e
         then (None, snd (deleteBoostWinnerIfCurrent \<lparr>tkKey = key, tkAddr = bwAddr e, tkGeneration = bwGeneration e\<rparr> c))
         else (Some e, c))"

definition evict_one :: "nat \<Rightarrow> string \<Rightarrow> boostWinnerCacheRegistry \<Rightarrow> boostWinnerCacheRegistry" where
  "evict_one pick key c =
     (if map_of (winners c) key = None \<and> length (winners c) \<ge> boostWinnerCacheMax
      then deleteBoostWinnerLocked (fst (winners c ! (pick mod length (winners c)))) c else c)"

definition storeBoostWinnerLocked ::
  "nat \<Rightarrow> gotime \<Rightarrow> string \<Rightarrow> string \<Rightarrow> boostWinnerCacheRegistry \<Rightarrow> boostWinnerToken \<times> boostWinnerCacheRegistry" where
  "storeBoostWinnerLocked pick now key addr c =
     (let c = evict_one pick key c;
          g = (if nextWinner c + 1 = 0 then 1 else nextWinner c + 1)
      in (\<lparr>tkKey = key, tkAddr = addr, tkGeneration = g\<rparr>,
          c\<lparr>nextWinner := g, decisions := (decisions c)(key := None),
            winners := AList.update key \<lparr>bwAddr = addr, bwExpires = now + boostWinnerTTL, bwGeneration = g\<rparr> (winners c)\<rparr>))"

definition beginBoostWinnerDecision ::
  "gotime \<Rightarrow> string \<Rightarrow> boostWinnerCacheRegistry \<Rightarrow> boostWinnerDecision \<times> boostWinnerCacheRegistry" where
  "beginBoostWinnerDecision now key c =
     (let c = (case map_of (winners c) key of
                 Some e \<Rightarrow> if \<not> now < bwExpires e then deleteBoostWinnerLocked key c else c
               | None \<Rightarrow> c);
          c = (case decisions c key of
                 Some i \<Rightarrow> c
               | None \<Rightarrow> c\<lparr>decisions := (decisions c)(key \<mapsto> nextDecision c), refCounts := (refCounts c)(nextDecision c := 0),
                   nextDecision := nextDecision c + 1\<rparr>);
          i = the (decisions c key);
          c = c\<lparr>refCounts := (refCounts c)(i := refCounts c i + 1)\<rparr>
      in (\<lparr>dcKey = key, dcState = i, dcExpires = (case map_of (winners c) key of Some e \<Rightarrow> bwExpires e | None \<Rightarrow> 0),
           dcReleased = False\<rparr>, c))"

definition releaseBoostWinnerDecisionLocked ::
  "boostWinnerDecision \<Rightarrow> boostWinnerCacheRegistry \<Rightarrow> boostWinnerDecision \<times> boostWinnerCacheRegistry" where
  "releaseBoostWinnerDecisionLocked d c =
     (if dcReleased d then (d, c)
      else
        let c = c\<lparr>refCounts := (refCounts c)(dcState d := refCounts c (dcState d) - 1)\<rparr>
        in (d\<lparr>dcReleased := True\<rparr>,
            if refCounts c (dcState d) = 0 \<and> decisions c (dcKey d) = Some (dcState d)
            then c\<lparr>decisions := (decisions c)(dcKey d := None)\<rparr> else c))"

definition publishBoostWinnerDecision ::
  "nat \<Rightarrow> gotime \<Rightarrow> string \<Rightarrow> boostWinnerDecision \<Rightarrow> boostWinnerCacheRegistry \<Rightarrow>
     boostWinnerToken \<times> boostWinnerDecision \<times> boostWinnerCacheRegistry" where
  "publishBoostWinnerDecision pick now addr d c =
     (if dcReleased d then (no_token, d, c)
      else
        let isCurrent = (decisions c (dcKey d) = Some (dcState d) \<and> (dcExpires d = 0 \<or> now < dcExpires d));
            (d, c) = releaseBoostWinnerDecisionLocked d c
        in if \<not> isCurrent then (no_token, d, c)
           else let (t, c) = storeBoostWinnerLocked pick now (dcKey d) addr c in (t, d, c))"

definition replaceBoostWinnerIfCurrent ::
  "nat \<Rightarrow> gotime \<Rightarrow> boostWinnerToken \<Rightarrow> string \<Rightarrow> boostWinnerCacheRegistry \<Rightarrow> boostWinnerToken \<times> boostWinnerCacheRegistry" where
  "replaceBoostWinnerIfCurrent pick now token addr c =
     (if tkKey token = '''' \<or> tkGeneration token = 0 then (no_token, c)
      else case map_of (winners c) (tkKey token) of
        None \<Rightarrow> (no_token, c)
      | Some e \<Rightarrow> if bwGeneration e \<noteq> tkGeneration token \<or> bwAddr e \<noteq> tkAddr token \<or> \<not> now < bwExpires e then (no_token, c)
          else storeBoostWinnerLocked pick now (tkKey token) addr c)"

record cachedBoostOutcome =
  winnerAddr :: string
  cachedFailed :: bool
  cachedFailureNeutral :: bool
  fallbackStarted :: bool
  hedged :: bool

definition reconcileCachedBoostWinner ::
  "nat \<Rightarrow> gotime \<Rightarrow> boostWinnerToken \<Rightarrow> cachedBoostOutcome \<Rightarrow> bool \<Rightarrow> boostWinnerCacheRegistry \<Rightarrow>
     bool \<times> boostWinnerToken \<times> boostWinnerCacheRegistry" where
  "reconcileCachedBoostWinner pick now cachedToken out succeeded c =
     (if \<not> succeeded then
        (False, no_token, if cachedFailed out then snd (deleteBoostWinnerIfCurrent cachedToken c) else c)
      else if winnerAddr out = tkAddr cachedToken then (True, cachedToken, c)
      else if cachedFailureNeutral out then (False, no_token, c)
      else let (t, c) = replaceBoostWinnerIfCurrent pick now cachedToken (winnerAddr out) c in (False, t, c))"

text \<open>The hedge delay; \<open>average\<close> is the latency average of the cached route, if it has one.\<close>

definition cachedBoostHedgeDelay :: "Rule \<Rightarrow> duration option \<Rightarrow> duration" where
  "cachedBoostHedgeDelay rule average = (case Hedge rule of
       None \<Rightarrow> 0
     | Some h \<Rightarrow>
         let minimum = sint (MinDelay h * 1000000); maximum = sint (MaxDelay h * 1000000);
             delay = (case average of Some e \<Rightarrow> 2 * e | None \<Rightarrow> minimum);
             delay = (if delay < minimum then minimum else delay)
         in if delay > maximum then maximum else delay)"

section \<open>The cache shared by many requests\<close>

record cache_sys =
  cache :: boostWinnerCacheRegistry
  heldDecisions :: "boostWinnerDecision list"

datatype cache_op =
    KLoad gotime string
  | KStore nat gotime string string
  | KBegin gotime string
  | KRelease nat
  | KPublish nat gotime string nat
  | KReplace nat gotime boostWinnerToken string
  | KDelete string
  | KDeleteIf boostWinnerToken

fun cache_step :: "cache_op \<Rightarrow> cache_sys \<Rightarrow> cache_sys" where
  "cache_step (KLoad now key) y = y\<lparr>cache := snd (loadBoostWinnerToken now key (cache y))\<rparr>"
| "cache_step (KStore pick now key addr) y = y\<lparr>cache := snd (storeBoostWinnerLocked pick now key addr (cache y))\<rparr>"
| "cache_step (KBegin now key) y = (let (d, c) = beginBoostWinnerDecision now key (cache y) in y\<lparr>heldDecisions := heldDecisions y @ [d], cache := c\<rparr>)"
| "cache_step (KRelease n) y =
     (if n < length (heldDecisions y) then
        let (d, c) = releaseBoostWinnerDecisionLocked (heldDecisions y ! n) (cache y) in y\<lparr>heldDecisions := (heldDecisions y)[n := d], cache := c\<rparr>
      else y)"
| "cache_step (KPublish pick now addr n) y =
     (if n < length (heldDecisions y) then
        let (t, d, c) = publishBoostWinnerDecision pick now addr (heldDecisions y ! n) (cache y) in y\<lparr>heldDecisions := (heldDecisions y)[n := d], cache := c\<rparr>
      else y)"
| "cache_step (KReplace pick now token addr) y = y\<lparr>cache := snd (replaceBoostWinnerIfCurrent pick now token addr (cache y))\<rparr>"
| "cache_step (KDelete key) y = y\<lparr>cache := deleteBoostWinnerLocked key (cache y)\<rparr>"
| "cache_step (KDeleteIf token) y = y\<lparr>cache := snd (deleteBoostWinnerIfCurrent token (cache y))\<rparr>"

definition cache_run :: "cache_op list \<Rightarrow> cache_sys \<Rightarrow> cache_sys" where
  "cache_run ops y = fold cache_step ops y"

definition cache_start :: "cache_sys \<Rightarrow> bool" where
  "cache_start y \<longleftrightarrow> cache y = new_cache \<and> heldDecisions y = []"

section \<open>Invariant\<close>

definition live :: "nat \<Rightarrow> boostWinnerDecision \<Rightarrow> bool" where
  "live i d \<longleftrightarrow> dcState d = i \<and> \<not> dcReleased d"

definition wf_winners :: "boostWinnerCacheRegistry \<Rightarrow> bool" where
  "wf_winners c \<longleftrightarrow> distinct (map fst (winners c)) \<and> length (winners c) \<le> boostWinnerCacheMax"

definition cache_inv :: "cache_sys \<Rightarrow> bool" where
  "cache_inv y \<longleftrightarrow> wf_winners (cache y)
     \<and> (\<forall>k i. decisions (cache y) k = Some i \<longrightarrow> (\<exists>d\<in>set (heldDecisions y). live i d \<and> dcKey d = k))
     \<and> (\<forall>i. refCounts (cache y) i = int (cnt (live i) (heldDecisions y)))
     \<and> (\<forall>d\<in>set (heldDecisions y). dcState d < nextDecision (cache y))
     \<and> (\<forall>d\<in>set (heldDecisions y). \<forall>e\<in>set (heldDecisions y). dcState d = dcState e \<longrightarrow> dcKey d = dcKey e)"

lemma cache_invD:
  assumes "cache_inv y"
  shows "wf_winners (cache y)" "decisions (cache y) k = Some i \<Longrightarrow> \<exists>d\<in>set (heldDecisions y). live i d \<and> dcKey d = k"
    "refCounts (cache y) i = int (cnt (live i) (heldDecisions y))" "d \<in> set (heldDecisions y) \<Longrightarrow> dcState d < nextDecision (cache y)"
    "d \<in> set (heldDecisions y) \<Longrightarrow> e \<in> set (heldDecisions y) \<Longrightarrow> dcState d = dcState e \<Longrightarrow> dcKey d = dcKey e"
  using assms unfolding cache_inv_def by blast+

lemma cache_invI:
  assumes "wf_winners (cache y)" "\<And>k i. decisions (cache y) k = Some i \<Longrightarrow> \<exists>d\<in>set (heldDecisions y). live i d \<and> dcKey d = k"
    "\<And>i. refCounts (cache y) i = int (cnt (live i) (heldDecisions y))" "\<And>d. d \<in> set (heldDecisions y) \<Longrightarrow> dcState d < nextDecision (cache y)"
    "\<And>d e. d \<in> set (heldDecisions y) \<Longrightarrow> e \<in> set (heldDecisions y) \<Longrightarrow> dcState d = dcState e \<Longrightarrow> dcKey d = dcKey e"
  shows "cache_inv y"
  using assms unfolding cache_inv_def by blast

text \<open>Operations that only forget decisions.\<close>

definition forgets :: "boostWinnerCacheRegistry \<Rightarrow> boostWinnerCacheRegistry \<Rightarrow> bool" where
  "forgets c c' \<longleftrightarrow> decisions c' \<subseteq>\<^sub>m decisions c \<and> refCounts c' = refCounts c \<and> nextDecision c' = nextDecision c
     \<and> (wf_winners c \<longrightarrow> wf_winners c')
     \<and> (\<forall>k. decisions c' k \<noteq> None \<longrightarrow> map_of (winners c') k = map_of (winners c) k)"

lemma forgets_refl [simp]: "forgets c c"
  by (simp add: forgets_def)

lemma forgets_decisions:
  assumes "forgets c c'" "decisions c' k = Some i"
  shows "decisions c k = Some i \<and> map_of (winners c') k = map_of (winners c) k"
proof -
  have "decisions c' k = decisions c k" using assms unfolding forgets_def map_le_def by (metis domI)
  moreover have "decisions c' k \<noteq> None" using assms(2) by simp
  then have "map_of (winners c') k = map_of (winners c) k" using assms(1) unfolding forgets_def by blast
  ultimately show ?thesis using assms(2) by simp
qed

lemma forgets_trans: "forgets a b \<Longrightarrow> forgets b c \<Longrightarrow> forgets a c"
  unfolding forgets_def by (metis map_le_def map_le_trans domIff)

lemma length_delete_le: "length (AList.delete k xs) \<le> length xs"
  by (simp add: AList.delete_eq)

lemma delete_forgets [simp]: "forgets c (deleteBoostWinnerLocked key c)"
  using length_delete_le[of key "winners c"]
  by (auto simp: forgets_def deleteBoostWinnerLocked_def wf_winners_def map_le_def AList.distinct_delete delete_conv')

lemma load_forgets [simp]: "forgets c (snd (loadBoostWinnerToken now key c))"
  by (auto simp: loadBoostWinnerToken_def split: option.split)

lemma delete_if_forgets [simp]: "forgets c (snd (deleteBoostWinnerIfCurrent token c))"
  by (auto simp: deleteBoostWinnerIfCurrent_def split: option.split)

lemma evict_room:
  assumes "wf_winners c"
  shows "wf_winners (evict_one pick key c) \<and>
    (map_of (winners (evict_one pick key c)) key \<noteq> None \<or> length (winners (evict_one pick key c)) < boostWinnerCacheMax)"
proof (cases "map_of (winners c) key = None \<and> length (winners c) \<ge> boostWinnerCacheMax")
  case True
  let ?i = "pick mod length (winners c)"
  have ne: "0 < length (winners c)" using True by (auto simp: boostWinnerCacheMax_def)
  then have "winners c ! ?i \<in> set (winners c)" by simp
  then have "length (AList.delete (fst (winners c ! ?i)) (winners c)) < length (winners c)"
    unfolding AList.delete_eq by (rule length_filter_less) (simp add: split_def)
  moreover have "wf_winners (deleteBoostWinnerLocked (fst (winners c ! ?i)) c)"
    using assms delete_forgets by (auto simp: forgets_def)
  ultimately show ?thesis using True assms by (auto simp: evict_one_def deleteBoostWinnerLocked_def wf_winners_def)
next
  case False
  then show ?thesis using assms by (auto simp: evict_one_def)
qed

lemma evict_forgets: "forgets c (evict_one pick key c)"
  by (simp add: evict_one_def)

lemma store_forgets [simp]: "forgets c (snd (storeBoostWinnerLocked pick now key addr c))"
proof -
  let ?c = "evict_one pick key c"
  have "wf_winners (snd (storeBoostWinnerLocked pick now key addr c))" if "wf_winners c"
    using evict_room[OF that, of pick key]
    by (auto simp: storeBoostWinnerLocked_def Let_def wf_winners_def length_AList_update distinct_update map_of_eq_None_iff)
  moreover have "forgets c ?c" by (rule evict_forgets)
  moreover have "decisions (snd (storeBoostWinnerLocked pick now key addr c)) = (decisions ?c)(key := None)"
    "refCounts (snd (storeBoostWinnerLocked pick now key addr c)) = refCounts ?c"
    "nextDecision (snd (storeBoostWinnerLocked pick now key addr c)) = nextDecision ?c"
    "\<And>k. k \<noteq> key \<Longrightarrow> map_of (winners (snd (storeBoostWinnerLocked pick now key addr c))) k = map_of (winners ?c) k"
    by (simp_all add: storeBoostWinnerLocked_def Let_def update_conv')
  ultimately show ?thesis
    unfolding forgets_def map_le_def by (auto simp: dom_def split: if_splits)
qed

lemma replace_forgets [simp]: "forgets c (snd (replaceBoostWinnerIfCurrent pick now token addr c))"
  by (auto simp: replaceBoostWinnerIfCurrent_def split: option.split)

lemma forgets_inv:
  assumes inv: "cache_inv y" and f: "forgets (cache y) c"
  shows "cache_inv (y\<lparr>cache := c\<rparr>)"
proof -
  note fs = f[unfolded forgets_def]
  have d: "decisions (cache y) k = Some i" if "decisions c k = Some i" for k i using fs that unfolding map_le_def by (metis domI)
  show ?thesis
  proof (rule cache_invI, goal_cases)
    case (2 k i)
    then show ?case using cache_invD(2)[OF inv d[of k i]] by simp
  next
    case (5 d e)
    then show ?case using cache_invD(5)[OF inv, of d e] by simp
  qed (use cache_invD(1,3,4)[OF inv] fs in auto)
qed

lemma live_released [simp]: "\<not> live i (d\<lparr>dcReleased := True\<rparr>)"
  by (simp add: live_def)

lemma release_inv:
  assumes inv: "cache_inv y" and n: "n < length (heldDecisions y)"
    and r: "releaseBoostWinnerDecisionLocked (heldDecisions y ! n) (cache y) = (d', c')"
  shows "cache_inv (y\<lparr>heldDecisions := (heldDecisions y)[n := d'], cache := c'\<rparr>)"
proof (cases "dcReleased (heldDecisions y ! n)")
  case True
  then have "d' = heldDecisions y ! n" "c' = cache y" using r by (auto simp: releaseBoostWinnerDecisionLocked_def)
  then show ?thesis using inv n by simp
next
  case False
  let ?d = "heldDecisions y ! n" and ?hs = "(heldDecisions y)[n := d']"
  note iv = inv[unfolded cache_inv_def]
  have d': "d' = ?d\<lparr>dcReleased := True\<rparr>" using r False by (auto simp: releaseBoostWinnerDecisionLocked_def Let_def)
  have c': "refCounts c' = (refCounts (cache y))(dcState ?d := refCounts (cache y) (dcState ?d) - 1)" "winners c' = winners (cache y)"
    "nextDecision c' = nextDecision (cache y)"
    "decisions c' = (if refCounts c' (dcState ?d) = 0 \<and> decisions (cache y) (dcKey ?d) = Some (dcState ?d)
       then (decisions (cache y))(dcKey ?d := None) else decisions (cache y))"
    using r False by (auto simp: releaseBoostWinnerDecisionLocked_def Let_def)
  have ct: "int (cnt (live i) ?hs) = int (cnt (live i) (heldDecisions y)) - (if live i ?d then 1 else 0)" for i
    using cnt_update[OF n, of "live i" d'] d' by (auto split: if_splits)
  have rc: "refCounts c' i = int (cnt (live i) ?hs)" for i
    using iv ct[of i] False by (auto simp: c'(1) live_def)
  have mem: "\<exists>e\<in>set (heldDecisions y). dcState e = dcState d \<and> dcKey e = dcKey d" if "d \<in> set ?hs" for d
  proof -
    have "d = d' \<or> d \<in> set (heldDecisions y)" using that set_update_subset_insert[of "heldDecisions y" n d'] by blast
    then show ?thesis using d' nth_mem[OF n] by auto
  qed
  have dec: "\<exists>d\<in>set ?hs. live i d \<and> dcKey d = k" if k: "decisions c' k = Some i" for k i
  proof -
    have old: "decisions (cache y) k = Some i" using k c'(4) by (auto split: if_splits)
    then obtain e where e: "e \<in> set (heldDecisions y)" "live i e" "dcKey e = k" using iv by blast
    show ?thesis
    proof (cases "i = dcState ?d")
      case True
      then have "dcKey ?d = k" using iv e nth_mem[OF n] by (metis live_def)
      then have "refCounts c' i \<noteq> 0" using k c'(4) old True by (auto split: if_splits)
      then have "cnt (live i) ?hs \<noteq> 0" using rc[of i] by simp
      then obtain f where "f \<in> set ?hs" "live i f" by (auto simp: cnt_zero)
      moreover have "dcKey f = k"
        using mem[OF calculation(1)] calculation(2) e iv by (metis live_def)
      ultimately show ?thesis by blast
    next
      case False
      obtain m where m: "m < length (heldDecisions y)" "e = heldDecisions y ! m" using e(1) by (auto simp: in_set_conv_nth)
      then have "m \<noteq> n" using False e(2) by (auto simp: live_def)
      then have "e \<in> set ?hs" using m by (metis length_list_update nth_list_update_neq nth_mem)
      then show ?thesis using e by blast
    qed
  qed
  have "dcState d < nextDecision c'" if d: "d \<in> set ?hs" for d using mem[OF d] cache_invD(4)[OF inv] c'(3) by metis
  moreover have "dcKey d = dcKey e" if de: "d \<in> set ?hs" "e \<in> set ?hs" "dcState d = dcState e" for d e
  proof -
    obtain d0 e0 where "d0 \<in> set (heldDecisions y)" "dcState d0 = dcState d" "dcKey d0 = dcKey d"
      "e0 \<in> set (heldDecisions y)" "dcState e0 = dcState e" "dcKey e0 = dcKey e" using mem[OF de(1)] mem[OF de(2)] by blast
    then show ?thesis using cache_invD(5)[OF inv, of d0 e0] de(3) by simp
  qed
  moreover have "wf_winners c'" using iv by (simp add: wf_winners_def c'(2))
  ultimately have "wf_winners c'" "\<And>d. d \<in> set ?hs \<Longrightarrow> dcState d < nextDecision c'"
    "\<And>d e. d \<in> set ?hs \<Longrightarrow> e \<in> set ?hs \<Longrightarrow> dcState d = dcState e \<Longrightarrow> dcKey d = dcKey e" by blast+
  note facts = this rc dec
  show ?thesis
  proof (rule cache_invI, goal_cases)
    case (5 d e)
    then show ?case using facts(3)[of d e] by simp
  qed (use facts(1,2,4,5) in simp_all)
qed

lemma begin_effect:
  assumes "beginBoostWinnerDecision now key c = (d, c')"
  obtains c0 where "c0 = c \<or> c0 = deleteBoostWinnerLocked key c" "dcKey d = key" "\<not> dcReleased d" "winners c' = winners c0"
    "decisions c' = (decisions c0)(key \<mapsto> dcState d)"
    "decisions c0 key = Some (dcState d) \<and> nextDecision c' = nextDecision c0 \<and> refCounts c' = (refCounts c0)(dcState d := refCounts c0 (dcState d) + 1)
     \<or> decisions c0 key = None \<and> dcState d = nextDecision c0 \<and> nextDecision c' = nextDecision c0 + 1 \<and> refCounts c' = (refCounts c0)(dcState d := 1)"
proof -
  define c0 where "c0 = (case map_of (winners c) key of Some e \<Rightarrow> if \<not> now < bwExpires e then deleteBoostWinnerLocked key c else c | None \<Rightarrow> c)"
  have "c0 = c \<or> c0 = deleteBoostWinnerLocked key c" by (auto simp: c0_def split: option.split)
  then show ?thesis
    using assms unfolding beginBoostWinnerDecision_def c0_def[symmetric]
    by (intro that[of c0]) (auto simp: Let_def map_upd_triv split: option.splits)
qed

lemma begin_inv:
  assumes inv: "cache_inv y" and b: "beginBoostWinnerDecision now key (cache y) = (d, c')"
  shows "cache_inv (y\<lparr>heldDecisions := heldDecisions y @ [d], cache := c'\<rparr>)"
proof -
  obtain c0 where c0: "c0 = cache y \<or> c0 = deleteBoostWinnerLocked key (cache y)" "dcKey d = key" "\<not> dcReleased d" "winners c' = winners c0"
    "decisions c' = (decisions c0)(key \<mapsto> dcState d)"
    and cs: "decisions c0 key = Some (dcState d) \<and> nextDecision c' = nextDecision c0 \<and> refCounts c' = (refCounts c0)(dcState d := refCounts c0 (dcState d) + 1)
     \<or> decisions c0 key = None \<and> dcState d = nextDecision c0 \<and> nextDecision c' = nextDecision c0 + 1 \<and> refCounts c' = (refCounts c0)(dcState d := 1)"
    by (rule begin_effect[OF b])
  define z where "z = y\<lparr>cache := c0\<rparr>"
  have "forgets (cache y) c0" using c0(1) by auto
  from forgets_inv[OF inv this] have z: "cache_inv z" by (simp add: z_def)
  have hz: "heldDecisions z = heldDecisions y" "cache z = c0" by (simp_all add: z_def)
  note zi = cache_invD[OF z, unfolded hz]
  have fresh: "cnt (live (nextDecision c0)) (heldDecisions y) = 0" using zi(4) by (fastforce simp: cnt_zero live_def)
  have key: "dcKey e = key" if e: "e \<in> set (heldDecisions y)" "dcState e = dcState d" for e
    using cs
  proof
    assume "decisions c0 key = Some (dcState d) \<and> nextDecision c' = nextDecision c0 \<and> refCounts c' = (refCounts c0)(dcState d := refCounts c0 (dcState d) + 1)"
    then obtain f where "f \<in> set (heldDecisions y)" "live (dcState d) f" "dcKey f = key" using zi(2)[of key "dcState d"] by blast
    then show ?thesis using zi(5)[of e f] e by (simp add: live_def)
  next
    assume "decisions c0 key = None \<and> dcState d = nextDecision c0 \<and> nextDecision c' = nextDecision c0 + 1 \<and> refCounts c' = (refCounts c0)(dcState d := 1)"
    then show ?thesis using zi(4)[OF e(1)] e(2) by simp
  qed
  show ?thesis
  proof (rule cache_invI, goal_cases)
    case 1
    then show ?case using zi(1) c0(4) by (simp add: wf_winners_def)
  next
    case (2 k i)
    show ?case
    proof (cases "k = key")
      case True
      then show ?thesis using 2 c0(2,3,5) by (simp add: live_def)
    next
      case False
      then show ?thesis using 2 c0(5) zi(2)[of k i] by auto
    qed
  next
    case (3 i)
    then show ?case using cs zi(3)[of i] fresh c0(3) by (auto simp: live_def)
  next
    case (4 e)
    have "dcState d < nextDecision c'"
    proof (cases "decisions c0 key = None")
      case False
      then obtain f where "f \<in> set (heldDecisions y)" "live (dcState d) f" using cs zi(2)[of key "dcState d"] by auto
      then show ?thesis using cs zi(4)[of f] False by (auto simp: live_def)
    qed (use cs in simp)
    moreover have "nextDecision c0 \<le> nextDecision c'" using cs by auto
    ultimately show ?case using 4 zi(4)[of e] by auto
  next
    case (5 e f)
    then have "e \<in> set (heldDecisions y) \<or> e = d" "f \<in> set (heldDecisions y) \<or> f = d" by auto
    then show ?case using zi(5)[of e f] key[of e] key[of f] c0(2) 5(3) by auto
  qed
qed

lemma publish_cases:
  assumes "publishBoostWinnerDecision pick now addr d c = (t, d', c')"
  obtains (no) "t = no_token" "d' = fst (releaseBoostWinnerDecisionLocked d c)" "c' = snd (releaseBoostWinnerDecisionLocked d c)"
  | (yes) "\<not> dcReleased d" "decisions c (dcKey d) = Some (dcState d)" "dcExpires d = 0 \<or> now < dcExpires d"
      "d' = fst (releaseBoostWinnerDecisionLocked d c)"
      "storeBoostWinnerLocked pick now (dcKey d) addr (snd (releaseBoostWinnerDecisionLocked d c)) = (t, c')"
proof (cases "dcReleased d")
  case True
  then show ?thesis using assms by (intro no) (auto simp: publishBoostWinnerDecision_def releaseBoostWinnerDecisionLocked_def)
next
  case False
  obtain d1 c1 where r: "releaseBoostWinnerDecisionLocked d c = (d1, c1)" by (cases "releaseBoostWinnerDecisionLocked d c")
  have k: "dcKey d1 = dcKey d" using r by (auto simp: releaseBoostWinnerDecisionLocked_def Let_def split: if_splits)
  show ?thesis
  proof (cases "decisions c (dcKey d) = Some (dcState d) \<and> (dcExpires d = 0 \<or> now < dcExpires d)")
    case True
    then show ?thesis using assms False r k
      by (cases "storeBoostWinnerLocked pick now (dcKey d) addr c1") (intro yes, auto simp: publishBoostWinnerDecision_def)
  next
    case False
    then show ?thesis using assms \<open>\<not> dcReleased d\<close> r by (intro no) (auto simp: publishBoostWinnerDecision_def)
  qed
qed

lemma step_cache_inv:
  assumes inv: "cache_inv y"
  shows "cache_inv (cache_step op y)"
proof (cases op)
  case (KBegin now key)
  then show ?thesis using begin_inv[OF inv] by (cases "beginBoostWinnerDecision now key (cache y)") auto
next
  case (KRelease n)
  then show ?thesis using inv release_inv[OF inv] by (cases "releaseBoostWinnerDecisionLocked (heldDecisions y ! n) (cache y)") auto
next
  case (KPublish pick now addr n)
  show ?thesis
  proof (cases "n < length (heldDecisions y)")
    case True
    let ?d = "heldDecisions y ! n"
    obtain d1 c1 where r: "releaseBoostWinnerDecisionLocked ?d (cache y) = (d1, c1)" by (cases "releaseBoostWinnerDecisionLocked ?d (cache y)")
    note ri = release_inv[OF inv True r]
    obtain t d' c' where p: "publishBoostWinnerDecision pick now addr ?d (cache y) = (t, d', c')"
      by (cases "publishBoostWinnerDecision pick now addr ?d (cache y)")
    have "d' = d1 \<and> forgets c1 c'"
      by (rule publish_cases[OF p]) (use r store_forgets[of c1 pick now "dcKey ?d" addr] in auto)
    then show ?thesis using forgets_inv[OF ri, of c'] KPublish True p by simp
  qed (use inv KPublish in simp)
qed (auto intro: forgets_inv[OF inv])

interpretation bc: invariant_system cache_start "\<lambda>y z. \<exists>op. z = cache_step op y" cache_inv
proof unfold_locales
  fix y assume "cache_start y"
  then show "cache_inv y" by (simp add: cache_start_def cache_inv_def new_cache_def wf_winners_def)
qed (auto intro: step_cache_inv)

lemma cache_run_reachable: "(\<lambda>y z. \<exists>op. z = cache_step op y)\<^sup>*\<^sup>* y (cache_run ops y)"
proof (induction ops arbitrary: y)
  case (Cons op ops)
  have "(\<lambda>y z. \<exists>op. z = cache_step op y)\<^sup>*\<^sup>* y (cache_step op y)" by blast
  then show ?case using Cons.IH[of "cache_step op y"] by (simp add: cache_run_def)
qed (simp add: cache_run_def)

lemma cache_run_inv: "cache_start y \<Longrightarrow> cache_inv (cache_run ops y)"
  using bc.reachable_inv cache_run_reachable by blast

section \<open>Late results\<close>

text \<open>A decision object keeps its key and state.\<close>

definition same_decision :: "boostWinnerDecision \<Rightarrow> boostWinnerDecision \<Rightarrow> bool" where
  "same_decision d e \<longleftrightarrow> dcKey e = dcKey d \<and> dcState e = dcState d"

lemma release_same [simp]: "same_decision d (fst (releaseBoostWinnerDecisionLocked d c))"
  by (simp add: releaseBoostWinnerDecisionLocked_def same_decision_def Let_def)

text \<open>One step: the clock of decision states advances, decisions keep their identity, and the entry of
  a key whose decision state survives is not touched.\<close>

definition follows :: "cache_sys \<Rightarrow> cache_sys \<Rightarrow> bool" where
  "follows y z \<longleftrightarrow> nextDecision (cache y) \<le> nextDecision (cache z) \<and> length (heldDecisions y) \<le> length (heldDecisions z)
     \<and> (\<forall>n<length (heldDecisions y). same_decision (heldDecisions y ! n) (heldDecisions z ! n))
     \<and> (\<forall>k i. decisions (cache z) k = Some i \<longrightarrow> i < nextDecision (cache y) \<longrightarrow>
          decisions (cache y) k = Some i \<and> map_of (winners (cache z)) k = map_of (winners (cache y)) k)"

lemma follows_refl [simp]: "follows y y"
  by (simp add: follows_def same_decision_def)

lemma follows_trans: assumes "follows x y" "follows y z" shows "follows x z"
proof -
  have "decisions (cache x) k = Some i \<and> map_of (winners (cache z)) k = map_of (winners (cache x)) k"
    if "decisions (cache z) k = Some i" "i < nextDecision (cache x)" for k i
  proof -
    have i: "i < nextDecision (cache y)" using assms(1) that(2) by (simp add: follows_def)
    then show ?thesis using assms that unfolding follows_def by metis
  qed
  moreover have "same_decision (heldDecisions x ! n) (heldDecisions z ! n)" if "n < length (heldDecisions x)" for n
    using assms that unfolding follows_def same_decision_def by (metis order.strict_trans2)
  ultimately show ?thesis using assms unfolding follows_def by (meson order.trans)
qed

lemma forgets_follows: "forgets (cache y) c \<Longrightarrow> follows y (y\<lparr>cache := c\<rparr>)"
  using forgets_decisions[of "cache y" c] by (auto simp: follows_def forgets_def same_decision_def)

lemma release_follows:
  assumes "n < length (heldDecisions y)" "releaseBoostWinnerDecisionLocked (heldDecisions y ! n) (cache y) = (d', c')"
  shows "follows y (y\<lparr>heldDecisions := (heldDecisions y)[n := d'], cache := c'\<rparr>)"
proof -
  have "same_decision (heldDecisions y ! n) d'" using release_same[of "heldDecisions y ! n" "cache y"] assms(2) by simp
  moreover have "winners c' = winners (cache y)" "nextDecision c' = nextDecision (cache y)"
    "decisions c' k = Some i \<Longrightarrow> decisions (cache y) k = Some i" for k i
    using assms(2) by (auto simp: releaseBoostWinnerDecisionLocked_def Let_def split: if_splits)
  ultimately show ?thesis using assms(1) by (auto simp: follows_def nth_list_update same_decision_def)
qed

lemma begin_follows:
  assumes "beginBoostWinnerDecision now key (cache y) = (d, c')"
  shows "follows y (y\<lparr>heldDecisions := heldDecisions y @ [d], cache := c'\<rparr>)"
proof (rule begin_effect[OF assms])
  fix c0 assume c0: "c0 = cache y \<or> c0 = deleteBoostWinnerLocked key (cache y)" "winners c' = winners c0"
    "decisions c' = (decisions c0)(key \<mapsto> dcState d)"
    and cs: "decisions c0 key = Some (dcState d) \<and> nextDecision c' = nextDecision c0 \<and> refCounts c' = (refCounts c0)(dcState d := refCounts c0 (dcState d) + 1)
     \<or> decisions c0 key = None \<and> dcState d = nextDecision c0 \<and> nextDecision c' = nextDecision c0 + 1 \<and> refCounts c' = (refCounts c0)(dcState d := 1)"
  have f: "forgets (cache y) c0" using c0(1) by auto
  have n0: "nextDecision c0 = nextDecision (cache y)" using f by (simp add: forgets_def)
  have "decisions c0 k = Some i \<and> map_of (winners c') k = map_of (winners (cache y)) k \<and> decisions (cache y) k = Some i"
    if k: "decisions c' k = Some i" "i < nextDecision (cache y)" for k i
  proof -
    have "decisions c0 k = Some i" using k cs c0(3) n0 by (auto split: if_splits)
    then show ?thesis using forgets_decisions[OF f] c0(2) by simp
  qed
  then show ?thesis using cs n0 by (auto simp: follows_def nth_append same_decision_def)
qed

lemma step_follows: "follows y (cache_step op y)"
proof (cases op)
  case (KBegin now key)
  then show ?thesis using begin_follows by (cases "beginBoostWinnerDecision now key (cache y)") auto
next
  case (KRelease n)
  then show ?thesis using release_follows by (cases "releaseBoostWinnerDecisionLocked (heldDecisions y ! n) (cache y)") auto
next
  case (KPublish pick now addr n)
  show ?thesis
  proof (cases "n < length (heldDecisions y)")
    case True
    let ?d = "heldDecisions y ! n"
    obtain d1 c1 where r: "releaseBoostWinnerDecisionLocked ?d (cache y) = (d1, c1)" by (cases "releaseBoostWinnerDecisionLocked ?d (cache y)")
    obtain t d' c' where p: "publishBoostWinnerDecision pick now addr ?d (cache y) = (t, d', c')"
      by (cases "publishBoostWinnerDecision pick now addr ?d (cache y)")
    have "d' = d1 \<and> forgets c1 c'"
      by (rule publish_cases[OF p]) (use r store_forgets[of c1 pick now "dcKey ?d" addr] in auto)
    then show ?thesis
      using follows_trans[OF release_follows[OF True r] forgets_follows[of _ c']] KPublish True p by simp
  qed (use KPublish in simp)
qed (auto intro: forgets_follows)

lemma run_follows: "follows y (cache_run ops y)"
proof (induction ops arbitrary: y)
  case (Cons op ops)
  show ?case using follows_trans[OF step_follows[of y op] Cons.IH] by (simp add: cache_run_def)
qed (simp add: cache_run_def)

text \<open>C7: The result of a race is published only if the cached winner of its rule has not been touched
  since the race began. If publishing succeeds, then at every moment since the decision was begun
  the entry of the rule was the one the race started from (a refresh, deletion, expiry or eviction
  in between, even one that was undone, makes the late result stay unpublished), and the published
  entry names the winner under the generation of the returned token.\<close>

theorem boost_publish_only_if_untouched:
  assumes "cache_start s" "y = cache_run ops0 s" "y0 = cache_step (KBegin now key) y"
    and "publishBoostWinnerDecision pick now' addr (heldDecisions (cache_run ops y0) ! length (heldDecisions y)) (cache (cache_run ops y0)) = (t, d', c')"
    and "t \<noteq> no_token"
  shows "(\<forall>m. map_of (winners (cache (cache_run (take m ops) y0))) key = map_of (winners (cache y0)) key)
    \<and> map_of (winners c') key = Some \<lparr>bwAddr = addr, bwExpires = now' + boostWinnerTTL, bwGeneration = tkGeneration t\<rparr>
    \<and> tkGeneration t \<noteq> 0"
proof -
  let ?z = "cache_run ops y0" and ?n = "length (heldDecisions y)"
  let ?e = "heldDecisions ?z ! ?n"
  obtain d c where b: "beginBoostWinnerDecision now key (cache y) = (d, c)" by (cases "beginBoostWinnerDecision now key (cache y)")
  have y0: "heldDecisions y0 = heldDecisions y @ [d]" "cache y0 = c" using assms(3) b by simp_all
  have "cache_inv y0" using step_cache_inv[OF cache_run_inv[OF assms(1)]] assms(2,3) by blast
  then have d: "dcState d < nextDecision (cache y0)" using cache_invD(4)[of y0 d] y0 by simp
  have dk: "dcKey d = key" by (rule begin_effect[OF b]) simp
  have e: "dcKey ?e = key" "dcState ?e = dcState d"
    using run_follows[of y0 ops] y0 dk by (auto simp: follows_def same_decision_def nth_append dest!: spec[of _ ?n])
  have yes: "decisions (cache ?z) key = Some (dcState d) \<and>
      (\<exists>c1. storeBoostWinnerLocked pick now' key addr c1 = (t, c'))"
    by (rule publish_cases[OF assms(4)]) (use assms(5) e in auto)
  have "map_of (winners (cache (cache_run (take m ops) y0))) key = map_of (winners (cache y0)) key" for m
  proof -
    let ?u = "cache_run (take m ops) y0"
    have z: "?z = cache_run (drop m ops) ?u" unfolding cache_run_def by (metis append_take_drop_id fold_append comp_apply)
    have "dcState d < nextDecision (cache ?u)" using run_follows[of y0 "take m ops"] d by (simp add: follows_def)
    then have "decisions (cache ?u) key = Some (dcState d)" using run_follows[of ?u "drop m ops"] yes unfolding z follows_def by blast
    then show ?thesis using run_follows[of y0 "take m ops"] d unfolding follows_def by blast
  qed
  moreover obtain c1 where "storeBoostWinnerLocked pick now' key addr c1 = (t, c')" using yes by blast
  then have "map_of (winners c') key = Some \<lparr>bwAddr = addr, bwExpires = now' + boostWinnerTTL, bwGeneration = tkGeneration t\<rparr>" "tkGeneration t \<noteq> 0"
    by (auto simp: storeBoostWinnerLocked_def Let_def update_conv' split: if_splits)
  ultimately show ?thesis by blast
qed

text \<open>The cache stays bounded and keeps no trace of finished races: on every run it has at most 256
  entries with distinct keys, every decision state it still knows belongs to a race that is running,
  and once all decisions are released or published it knows none.\<close>

theorem boost_cache_bounded:
  assumes "cache_start y"
  shows "length (winners (cache (cache_run ops y))) \<le> boostWinnerCacheMax \<and> distinct (map fst (winners (cache (cache_run ops y))))
    \<and> dom (decisions (cache (cache_run ops y))) \<subseteq> dcKey ` {d \<in> set (heldDecisions (cache_run ops y)). \<not> dcReleased d}
    \<and> ((\<forall>d\<in>set (heldDecisions (cache_run ops y)). dcReleased d) \<longrightarrow> decisions (cache (cache_run ops y)) = Map.empty)"
proof -
  let ?z = "cache_run ops y"
  have inv: "cache_inv ?z" by (rule cache_run_inv[OF assms])
  have d: "\<exists>d\<in>set (heldDecisions ?z). \<not> dcReleased d \<and> dcKey d = k" if "decisions (cache ?z) k = Some i" for k i
    using cache_invD(2)[OF inv that] by (auto simp: live_def)
  then have "decisions (cache ?z) = Map.empty" if "\<forall>d\<in>set (heldDecisions ?z). dcReleased d"
    using that by (intro ext) (metis option.exhaust)
  moreover have "dom (decisions (cache ?z)) \<subseteq> dcKey ` {d \<in> set (heldDecisions ?z). \<not> dcReleased d}" using d by force
  ultimately show ?thesis using cache_invD(1)[OF inv] by (auto simp: wf_winners_def)
qed

section \<open>A concrete cache\<close>

definition demo_cache :: cache_sys where
  "demo_cache = \<lparr>cache = new_cache, heldDecisions = []\<rparr>"

definition demo_races :: "cache_op list" where
  "demo_races = [KStore 0 0 ''r'' ''a'', KBegin 10 ''r'', KBegin 20 ''s'', KBegin 30 ''r'', KRelease 0]"

lemma demo_published:
  "fst (publishBoostWinnerDecision 0 50 ''b'' (heldDecisions (cache_run demo_races demo_cache) ! 2) (cache (cache_run demo_races demo_cache)))
     = \<lparr>tkKey = ''r'', tkAddr = ''b'', tkGeneration = 2\<rparr>
   \<and> length (heldDecisions (cache_run (take 3 demo_races) demo_cache)) = 2
   \<and> list_all dcReleased (heldDecisions (cache_run (demo_races @ [KRelease 1, KRelease 2]) demo_cache))"
  by code_simp

theorem boost_publish_only_if_untouched_witness:
  "let y = cache_run (take 3 demo_races) demo_cache; y0 = cache_step (KBegin 30 ''r'') y;
       (t, d', c') = publishBoostWinnerDecision 0 50 ''b'' (heldDecisions (cache_run [KRelease 0] y0) ! length (heldDecisions y)) (cache (cache_run [KRelease 0] y0))
   in t = \<lparr>tkKey = ''r'', tkAddr = ''b'', tkGeneration = 2\<rparr>
     \<and> (\<forall>m. map_of (winners (cache (cache_run (take m [KRelease 0]) y0))) ''r'' = map_of (winners (cache y0)) ''r'')"
proof -
  let ?y = "cache_run (take 3 demo_races) demo_cache"
  let ?begun = "cache_step (KBegin 30 ''r'') ?y"
  let ?p = "publishBoostWinnerDecision 0 50 ''b'' (heldDecisions (cache_run [KRelease 0] ?begun) ! length (heldDecisions ?y)) (cache (cache_run [KRelease 0] ?begun))"
  have s: "cache_start demo_cache" by (simp add: cache_start_def demo_cache_def)
  obtain t d' c' where p: "?p = (t, d', c')" by (cases ?p)
  have n: "length (heldDecisions ?y) = 2" using demo_published by blast
  have "cache_run [KRelease 0] ?begun = cache_run demo_races demo_cache" by (simp add: demo_races_def cache_run_def)
  then have "fst ?p = \<lparr>tkKey = ''r'', tkAddr = ''b'', tkGeneration = 2\<rparr>" unfolding n using demo_published by simp
  then have t: "t = \<lparr>tkKey = ''r'', tkAddr = ''b'', tkGeneration = 2\<rparr>" using p by simp
  then have "t \<noteq> no_token" by (simp add: no_token_def)
  from boost_publish_only_if_untouched[OF s refl refl p this] show ?thesis unfolding Let_def p prod.case using t by blast
qed

theorem boost_cache_bounded_witness:
  "length (winners (cache (cache_run demo_races demo_cache))) \<le> 256 \<and> decisions (cache (cache_run (demo_races @ [KRelease 1, KRelease 2]) demo_cache)) = Map.empty"
proof -
  have s: "cache_start demo_cache" by (simp add: cache_start_def demo_cache_def)
  have "list_all dcReleased (heldDecisions (cache_run (demo_races @ [KRelease 1, KRelease 2]) demo_cache))" using demo_published by blast
  then show ?thesis
    using boost_cache_bounded[OF s, of demo_races] boost_cache_bounded[OF s, of "demo_races @ [KRelease 1, KRelease 2]"]
    by (simp add: boostWinnerCacheMax_def list_all_iff)
qed

end
