(* ===== verification/Route_Errors.thy ===== *)
theory Route_Errors
  imports Route_Health
begin

text \<open>
  What the error of a dial says about the route it took (\<^verbatim>\<open>controller/connect_proxy.go\<close>): errors that
  prove the proxy reachable are neutral, errors that every request sharing a connection setup received
  are counted once for the setup, all others count against the route.
\<close>

section \<open>Neutral errors\<close>

definition errConnectProxyProtocolUnavailable :: goerr where
  "errConnectProxyProtocolUnavailable = ErrText ''CONNECT proxy protocol is unavailable in this build''"
definition errConnectProxyProtocolCoolingDown :: goerr where
  "errConnectProxyProtocolCoolingDown = ErrText ''CONNECT proxy protocol is cooling down after a transport failure''"

text \<open>\<^verbatim>\<open>errors.As\<close> for a status error.\<close>

fun as_status :: "goerr \<Rightarrow> connectProxyStatusError option" and as_statuses :: "goerr list \<Rightarrow> connectProxyStatusError option" where
  "as_status (ErrStatus s) = Some s"
| "as_status (ErrWrap t e) = as_status e"
| "as_status (ErrRouteFailure e g) = as_status e"
| "as_status (ErrSetup e g) = as_status e"
| "as_status (ErrJoin es) = as_statuses es"
| "as_status _ = None"
| "as_statuses [] = None"
| "as_statuses (e # es) = (case as_status e of Some s \<Rightarrow> Some s | None \<Rightarrow> as_statuses es)"

definition connectProxyStatusIsRouteNeutral :: "int \<Rightarrow> bool" where
  "connectProxyStatusIsRouteNeutral code \<longleftrightarrow> code = 403 \<or> code = 502 \<or> code = 503 \<or> code = 504"

definition connectProxyStatusProvesFallbackReachable :: "int \<Rightarrow> bool" where
  "connectProxyStatusProvesFallbackReachable code = connectProxyStatusIsRouteNeutral code"

definition connectProxyStatusAllowsProtocolFallback :: "int \<Rightarrow> bool" where
  "connectProxyStatusAllowsProtocolFallback code \<longleftrightarrow> code = 405 \<or> code = 501 \<or> code = 505"

text \<open>A neutral error that is not a join: local stream capacity, a neutral status, one of the three
  sentinels, or a wrapper (\<open>inner\<close>) of a neutral error.\<close>

definition neutral_plain :: "goerr \<Rightarrow> bool \<Rightarrow> bool" where
  "neutral_plain e inner =
     (if err_is e ErrProtocolCapacity then True
      else case as_status e of
        Some s \<Rightarrow> connectProxyStatusIsRouteNeutral (statusCode s)
      | None \<Rightarrow> e = errConnectProxyProtocolUnavailable \<or> e = errConnectProxyProtocolCoolingDown \<or> inner)"

fun connectProxyErrorIsRouteNeutral :: "goerr \<Rightarrow> bool" and all_neutral :: "goerr list \<Rightarrow> bool" where
  "connectProxyErrorIsRouteNeutral (ErrJoin es) =
     (if es = [] then False
      else case as_status (last es) of
        Some s \<Rightarrow> connectProxyStatusIsRouteNeutral (statusCode s)
      | None \<Rightarrow> if err_is (ErrJoin es) ErrProtocolCapacity then True else all_neutral es)"
| "connectProxyErrorIsRouteNeutral (ErrWrap t e) = neutral_plain (ErrWrap t e) (connectProxyErrorIsRouteNeutral e)"
| "connectProxyErrorIsRouteNeutral (ErrRouteFailure e g) = neutral_plain (ErrRouteFailure e g) (connectProxyErrorIsRouteNeutral e)"
| "connectProxyErrorIsRouteNeutral (ErrSetup e g) = neutral_plain (ErrSetup e g) (connectProxyErrorIsRouteNeutral e)"
| "connectProxyErrorIsRouteNeutral (ErrText t) = neutral_plain (ErrText t) False"
| "connectProxyErrorIsRouteNeutral (ErrNet t b) = neutral_plain (ErrNet t b) False"
| "connectProxyErrorIsRouteNeutral (ErrStatus s) = neutral_plain (ErrStatus s) False"
| "connectProxyErrorIsRouteNeutral (ErrBulkhead b) = neutral_plain (ErrBulkhead b) False"
| "connectProxyErrorIsRouteNeutral (ErrCtx c) = neutral_plain (ErrCtx c) False"
| "connectProxyErrorIsRouteNeutral ErrCircuitOpen = neutral_plain ErrCircuitOpen False"
| "connectProxyErrorIsRouteNeutral ErrActiveHealthUnhealthy = neutral_plain ErrActiveHealthUnhealthy False"
| "connectProxyErrorIsRouteNeutral ErrBulkheadSaturated = neutral_plain ErrBulkheadSaturated False"
| "connectProxyErrorIsRouteNeutral ErrProtocolCapacity = neutral_plain ErrProtocolCapacity False"
| "connectProxyErrorIsRouteNeutral ErrRouteReachable = neutral_plain ErrRouteReachable False"
| "all_neutral [] = True"
| "all_neutral (e # es) = (connectProxyErrorIsRouteNeutral e \<and> all_neutral es)"

section \<open>Shared setup failures\<close>

text \<open>The result is the group with \<^verbatim>\<open>true\<close>, or \<open>None\<close> for \<^verbatim>\<open>nil, false\<close>; \<open>joined_groups\<close> is the loop over the
  children of a join with the group selected so far.\<close>

fun connectProxyExclusiveSetupFailureGroup :: "goerr \<Rightarrow> nat option"
  and joined_groups :: "goerr list \<Rightarrow> nat option \<Rightarrow> nat option" where
  "connectProxyExclusiveSetupFailureGroup (ErrJoin es) =
     (if connectProxyErrorIsRouteNeutral (ErrJoin es) then None else joined_groups es None)"
| "connectProxyExclusiveSetupFailureGroup (ErrSetup e g) =
     (if connectProxyErrorIsRouteNeutral (ErrSetup e g) then None
      else case g of Some g \<Rightarrow> Some g | None \<Rightarrow> connectProxyExclusiveSetupFailureGroup e)"
| "connectProxyExclusiveSetupFailureGroup (ErrWrap t e) =
     (if connectProxyErrorIsRouteNeutral (ErrWrap t e) then None else connectProxyExclusiveSetupFailureGroup e)"
| "connectProxyExclusiveSetupFailureGroup (ErrRouteFailure e g) =
     (if connectProxyErrorIsRouteNeutral (ErrRouteFailure e g) then None else connectProxyExclusiveSetupFailureGroup e)"
| "connectProxyExclusiveSetupFailureGroup _ = None"
| "joined_groups [] selected = selected"
| "joined_groups (e # es) selected =
     (if connectProxyErrorIsRouteNeutral e then joined_groups es selected
      else case connectProxyExclusiveSetupFailureGroup e of
        None \<Rightarrow> None
      | Some g \<Rightarrow> if selected \<noteq> None \<and> selected \<noteq> Some g then None else joined_groups es (Some g))"

definition connectProxyRouteObservationError :: "goerr option \<Rightarrow> goerr option" where
  "connectProxyRouteObservationError err =
     (case err of
        None \<Rightarrow> None
      | Some e \<Rightarrow>
          if connectProxyErrorIsRouteNeutral e then Some ErrRouteReachable
          else case connectProxyExclusiveSetupFailureGroup e of
              Some g \<Rightarrow> Some (ErrRouteFailure e (Some g))
            | None \<Rightarrow> Some e)"

text \<open>The reference: the failures a composite is made of, each with the setup it is attributed to.
  What is neutral at some level counts for nothing there.\<close>

fun failure_causes :: "goerr \<Rightarrow> nat option list" and causes_of :: "goerr list \<Rightarrow> nat option list" where
  "failure_causes (ErrJoin es) = (if connectProxyErrorIsRouteNeutral (ErrJoin es) then [] else causes_of es)"
| "failure_causes (ErrSetup e (Some g)) = (if connectProxyErrorIsRouteNeutral (ErrSetup e (Some g)) then [] else [Some g])"
| "failure_causes (ErrSetup e None) = (if connectProxyErrorIsRouteNeutral (ErrSetup e None) then [] else failure_causes e)"
| "failure_causes (ErrWrap t e) = (if connectProxyErrorIsRouteNeutral (ErrWrap t e) then [] else failure_causes e)"
| "failure_causes (ErrRouteFailure e g) = (if connectProxyErrorIsRouteNeutral (ErrRouteFailure e g) then [] else failure_causes e)"
| "failure_causes e = (if connectProxyErrorIsRouteNeutral e then [] else [None])"
| "causes_of [] = []"
| "causes_of (e # es) = (if connectProxyErrorIsRouteNeutral e then [] else if failure_causes e = [] then [None] else failure_causes e) @ causes_of es"

lemma exclusive_causes:
  "(connectProxyExclusiveSetupFailureGroup e = Some g \<longleftrightarrow> failure_causes e \<noteq> [] \<and> set (failure_causes e) = {Some g})"
  "(joined_groups es sel = Some g \<longleftrightarrow>
      (case sel of None \<Rightarrow> causes_of es \<noteq> [] \<and> set (causes_of es) = {Some g} | Some h \<Rightarrow> h = g \<and> set (causes_of es) \<subseteq> {Some g}))"
proof (induction e and es sel arbitrary: g and g rule: connectProxyExclusiveSetupFailureGroup_joined_groups.induct)
  case (2 e grp)
  then show ?case by (cases grp) auto
next
  case (7 e es selected)
  show ?case
  proof (cases "connectProxyErrorIsRouteNeutral e")
    case True
    then show ?thesis using 7(1) by (simp split: option.splits)
  next
    case False
    show ?thesis
    proof (cases "connectProxyExclusiveSetupFailureGroup e")
      case None
      then have "failure_causes e = [] \<or> (\<forall>g. set (failure_causes e) \<noteq> {Some g})" using 7(2)[OF False] by fastforce
      then have "failure_causes e = [] \<or> (\<forall>g. \<not> set (failure_causes e) \<subseteq> {Some g})" by (metis set_empty subset_singletonD)
      then have "\<not> set (if failure_causes e = [] then [None] else failure_causes e) \<subseteq> {Some g}" by auto
      then have "\<not> set (causes_of (e # es)) \<subseteq> {Some g}" using False unfolding causes_of.simps by (metis Un_subset_iff set_append)
      moreover have "joined_groups (e # es) selected = None" using None False by simp
      ultimately show ?thesis by (cases selected) (auto simp del: causes_of.simps joined_groups.simps)
    next
      case (Some h)
      then have "failure_causes e \<noteq> []" "set (failure_causes e) = {Some h}" using 7(2)[OF False, of h] by blast+
      then show ?thesis using Some False 7(3)[OF False Some, of g] by (cases selected) auto
    qed
  qed
qed (auto split: option.splits)

definition shared_cause :: "nat option list \<Rightarrow> nat option" where
  "shared_cause xs = (case remdups xs of [Some g] \<Rightarrow> Some g | _ \<Rightarrow> None)"

lemma remdups_single: "remdups xs = [y] \<longleftrightarrow> xs \<noteq> [] \<and> set xs = {y}"
proof
  assume r: "xs \<noteq> [] \<and> set xs = {y}"
  then have s: "set (remdups xs) = {y}" by simp
  have "distinct (remdups xs)" by simp
  then show "remdups xs = [y]" using s by (cases "remdups xs") (auto simp: subset_singleton_iff)
next
  assume "remdups xs = [y]"
  then have "set (remdups xs) = {y}" by simp
  then show "xs \<noteq> [] \<and> set xs = {y}" by auto
qed

lemma shared_cause_iff: "shared_cause xs = Some g \<longleftrightarrow> xs \<noteq> [] \<and> set xs = {Some g}"
proof -
  have "shared_cause xs = Some g \<longleftrightarrow> remdups xs = [Some g]"
    unfolding shared_cause_def by (cases "remdups xs") (simp_all split: list.splits option.splits)
  then show ?thesis by (simp only: remdups_single)
qed

text \<open>C12: a failure is booked on a shared connection setup exactly if every failure in it, at whatever depth
  of joins and wrappers, came from that one setup; a neutral error is booked as reachability, anything
  else as a failure of the route itself.\<close>

theorem observation_attributes_shared_setups:
  "connectProxyRouteObservationError (Some e) =
     Some (if connectProxyErrorIsRouteNeutral e then ErrRouteReachable
           else case shared_cause (failure_causes e) of Some g \<Rightarrow> ErrRouteFailure e (Some g) | None \<Rightarrow> e)"
proof -
  have "connectProxyExclusiveSetupFailureGroup e = shared_cause (failure_causes e)"
    using exclusive_causes(1)[of e] shared_cause_iff[of "failure_causes e"] by (metis not_None_eq)
  then show ?thesis by (simp add: connectProxyRouteObservationError_def split: option.splits)
qed

end
