(* ===== verification/Boost_Race.thy ===== *)
theory Boost_Race
  imports Boost_Cache Route_Errors
begin

text \<open>
  The races of the boost mode (\<^verbatim>\<open>controller/boost.go\<close>): which targets are dialled, at most two at a
  time, which connection wins and what happens to the others.

  A race is a loop that waits for the results of the dials it has started, for its context and, for
  a cached winner, for the hedge timer; every such event is one step. A dial in flight is a record in
  \<open>inFlight\<close>; a connection is whatever the dialer returns. The rest of the server, which changes
  while the race waits, is a value \<open>'w\<close> that every step receives: target selection reads the
  registry and the clock in it, health checks and exploration leases are looked up in it.
\<close>

definition errBoostMaintenanceSaturated :: goerr where
  "errBoostMaintenanceSaturated = ErrText ''boost maintenance dial capacity saturated''"

section \<open>State\<close>

record raceDial =
  rdAddr :: string
  rdTryOnly :: bool
  rdDelayed :: bool

record race_state =
  attempted :: "string list"
  actualAttempts :: nat
  inFlight :: "raceDial list"
  healthExcluded :: bool
  maintenanceLimited :: bool
  globalLimited :: bool
  fallbackTryOnly :: bool
  capacityErr :: "goerr option"
  dialErrors :: "goerr list"

record raceCandidate = routeTargetSelection +
  recoveryProbe :: bool

definition cand_addr :: "raceCandidate \<Rightarrow> string" where
  "cand_addr c = Address (starget c)"

text \<open>What a race asks of the rest of the server. \<open>selecting\<close> gives the arguments of
  \<^verbatim>\<open>selectTargetSelections\<close> at the moment of the call: canary claims, penalties before and after
  them, the clock and the registry.\<close>

record 'w race_env =
  selecting :: "'w \<Rightarrow> 'w claimer \<times> (Target \<Rightarrow> duration) \<times> (Target \<Rightarrow> duration) \<times> gotime \<times> routeHealthRegistry"
  unhealthy :: "string \<Rightarrow> 'w \<Rightarrow> bool"
  explores :: "Target \<Rightarrow> 'w \<Rightarrow> bool \<times> 'w"
  releaseProbe :: "Target \<Rightarrow> u64 \<Rightarrow> 'w \<Rightarrow> 'w"

definition candidate_of :: "routeTargetSelection \<Rightarrow> raceCandidate" where
  "candidate_of s = \<lparr>starget = starget s, protocolProbe = protocolProbe s, periodicExplorer = periodicExplorer s, recoveryProbe = False\<rparr>"

definition select_candidates :: "'w race_env \<Rightarrow> Rule \<Rightarrow> string list \<Rightarrow> bool \<Rightarrow> 'w \<Rightarrow> raceCandidate list \<times> 'w" where
  "select_candidates env rule tried reserve w =
     (let (clm, pen, pen2, now, reg) = selecting env w;
          (sel, w) = selectTargetSelections clm pen pen2 rule (int (length (Targets rule))) now (set tried) reserve reg w
      in (map candidate_of sel, w))"

section \<open>Starting dials\<close>

definition mark :: "string \<Rightarrow> string list \<Rightarrow> string list" where
  "mark a xs = (if a \<in> set xs then xs else xs @ [a])"

text \<open>The loop over the candidates of one selection; \<open>stop\<close> tells which candidate must not be raced
  against others.\<close>

fun launch_candidates ::
  "'w race_env \<Rightarrow> (raceCandidate \<Rightarrow> bool) \<Rightarrow> nat \<Rightarrow> nat \<Rightarrow> bool \<Rightarrow> bool \<Rightarrow> raceCandidate list \<Rightarrow> nat \<Rightarrow> 'a race_state_scheme \<Rightarrow> 'w \<Rightarrow>
     nat \<times> 'a race_state_scheme \<times> 'w" where
  "launch_candidates env stop limit capacity immediate delayed [] launched st w = (launched, st, w)"
| "launch_candidates env stop limit capacity immediate delayed (c # cs) launched st w =
     (if launched = capacity \<or> actualAttempts st \<ge> limit then (launched, st, w)
      else
        let st = st\<lparr>attempted := mark (cand_addr c) (attempted st)\<rparr>
        in if unhealthy env (cand_addr c) w then
             launch_candidates env stop limit capacity immediate delayed cs launched (st\<lparr>healthExcluded := True\<rparr>)
               (releaseProbe env (starget c) (protocolProbe c) w)
           else
             let (claimed, w) = (if periodicExplorer c then explores env (starget c) w else (True, w))
             in if \<not> claimed then
                  launch_candidates env stop limit capacity immediate delayed cs launched st (releaseProbe env (starget c) (protocolProbe c) w)
                else
                  let st = st\<lparr>actualAttempts := actualAttempts st + 1,
                        inFlight := inFlight st @ [\<lparr>rdAddr = cand_addr c, rdTryOnly = immediate, rdDelayed = delayed\<rparr>]\<rparr>
                  in if stop c then (launched + 1, st, w)
                     else launch_candidates env stop limit capacity immediate delayed cs (launched + 1) st w)"

lemma mark_length: "length xs \<le> length (mark a xs)"
  by (simp add: mark_def)

lemma launch_candidates_grows:
  "launch_candidates env stop limit capacity immediate delayed cs launched st w = (l, st', w') \<Longrightarrow> length (attempted st) \<le> length (attempted st')"
proof (induction env stop limit capacity immediate delayed cs launched st w rule: launch_candidates.induct)
  case (2 env stop limit capacity immediate delayed c cs launched st w)
  then show ?case using mark_length[of "attempted st" "cand_addr c"] le_trans
    by (fastforce simp: Let_def split: if_splits prod.splits)
qed simp

text \<open>The loop around it: select among the targets not tried yet until something was started.\<close>

function fill_loop ::
  "'w race_env \<Rightarrow> ('a race_state_scheme \<Rightarrow> 'w \<Rightarrow> raceCandidate list \<times> 'w) \<Rightarrow> (raceCandidate \<Rightarrow> bool) \<Rightarrow> nat \<Rightarrow> nat \<Rightarrow> nat \<Rightarrow> bool \<Rightarrow> bool \<Rightarrow>
     'a race_state_scheme \<Rightarrow> 'w \<Rightarrow> nat \<times> 'a race_state_scheme \<times> 'w" where
  "fill_loop env offer stop targets limit capacity immediate delayed st w =
     (if actualAttempts st < limit \<and> length (attempted st) < targets then
        let (cs, w) = offer st w
        in if cs = [] then (0, st, w)
           else let (launched, st', w) = launch_candidates env stop limit capacity immediate delayed cs 0 st w
             in if launched > 0 \<or> length (attempted st') = length (attempted st) then (launched, st', w)
                else fill_loop env offer stop targets limit capacity immediate delayed st' w
      else (0, st, w))"
  by pat_completeness auto
termination
proof (relation "measure (\<lambda>(env, offer, stop, targets, limit, capacity, immediate, delayed, st, w). targets - length (attempted st))")
  fix env offer stop targets limit capacity immediate delayed st w x cs w1 x' launched y st' w2
  assume a: "actualAttempts (st :: 'b race_state_scheme) < limit \<and> length (attempted st) < targets"
    and l: "x' = launch_candidates env stop limit capacity immediate delayed cs 0 st w1" "(launched, y) = x'" "(st', w2) = y"
    and n: "\<not> (launched > 0 \<or> length (attempted st') = length (attempted st))"
  have "length (attempted st) \<le> length (attempted st')" using launch_candidates_grows l by metis
  then show "((env, offer, stop, targets, limit, capacity, immediate, delayed, st', w2), env, offer, stop, targets, limit, capacity, immediate, delayed, st, w)
      \<in> measure (\<lambda>(env, offer, stop, targets, limit, capacity, immediate, delayed, st, w). targets - length (attempted st))"
    using a n by auto
qed auto

declare fill_loop.simps [simp del]

section \<open>The race among fresh dials\<close>

text \<open>A race owned by a recovery probe is given the probe's address and canary.\<close>

definition fresh_choose ::
  "'w race_env \<Rightarrow> Rule \<Rightarrow> (string \<times> u64) option \<Rightarrow> race_state \<Rightarrow> 'w \<Rightarrow> raceCandidate list \<times> 'w" where
  "fresh_choose env rule rlease st w =
     (case (case rlease of
              Some (address, probe) \<Rightarrow> if address \<notin> set (attempted st) then map_option (\<lambda>t. (t, probe)) (targetByAddress (Targets rule) address) else None
            | None \<Rightarrow> None) of
        Some (t, probe) \<Rightarrow> ([\<lparr>starget = t, protocolProbe = probe, periodicExplorer = False, recoveryProbe = True\<rparr>], w)
      | None \<Rightarrow> select_candidates env rule (attempted st) (rlease = None \<and> inFlight st = [] \<and> actualAttempts st = 0) w)"

definition launchAvailable ::
  "'w race_env \<Rightarrow> Rule \<Rightarrow> (string \<times> u64) option \<Rightarrow> bool \<Rightarrow> race_state \<Rightarrow> 'w \<Rightarrow> race_state \<times> 'w" where
  "launchAvailable env rule rlease immediate st w =
     (let limit = connectProxyTargetAttemptLimit rule in
      if actualAttempts st \<ge> limit then (st, w)
      else
        let capacity = 2 - length (inFlight st)
        in if capacity = 0 then (st, w)
           else snd (fill_loop env (fresh_choose env rule rlease) (\<lambda>c. protocolProbe c \<noteq> 0 \<or> recoveryProbe c)
             (length (Targets rule)) limit capacity immediate False st w))"

datatype 'c race_phase =
    Racing race_state
  | Draining 'c string race_state \<comment> \<open>a winner is chosen, the losers still owe their results\<close>
  | DrainLate goerr race_state \<comment> \<open>the context is done\<close>
  | Finished "goerr + 'c \<times> string"

record 'c race =
  phase :: "'c race_phase"
  closedConns :: "'c list"

text \<open>An event: the result of the dial at a position of \<open>inFlight\<close>, with the reading of \<^verbatim>\<open>ctx.Err()\<close>
  the race makes if this result ends it; or the context is done.\<close>

datatype 'c race_event = Result nat "'c option" "goerr option" "ctxErr option" | CtxDone ctxErr

definition take_dial :: "nat \<Rightarrow> 'a race_state_scheme \<Rightarrow> 'a race_state_scheme" where
  "take_dial k st = st\<lparr>inFlight := take k (inFlight st) @ drop (Suc k) (inFlight st)\<rparr>"

definition race_failure :: "ctxErr option \<Rightarrow> race_state \<Rightarrow> goerr" where
  "race_failure ctxNow st = (case ctxNow of
       Some e \<Rightarrow> ErrCtx e
     | None \<Rightarrow>
         if dialErrors st = [] then
           (case capacityErr st of
              Some e \<Rightarrow> e
            | None \<Rightarrow>
                if maintenanceLimited st then errBoostMaintenanceSaturated
                else if healthExcluded st then ErrWrap ''all boost targets unavailable'' ErrActiveHealthUnhealthy
                else ErrWrap ''all boost targets unavailable'' ErrCircuitOpen)
         else (case capacityErr st of
              Some e \<Rightarrow> ErrJoin [ErrWrap ''all attempted boost targets failed'' (ErrJoin (dialErrors st)), e]
            | None \<Rightarrow> ErrWrap ''all boost targets failed'' (ErrJoin (dialErrors st))))"

definition give_back :: "'a race_state_scheme \<Rightarrow> 'a race_state_scheme" where
  "give_back st = st\<lparr>actualAttempts := actualAttempts st - 1\<rparr>"

text \<open>A failed result of the fresh race.\<close>

definition race_failed ::
  "'w race_env \<Rightarrow> Rule \<Rightarrow> (string \<times> u64) option \<Rightarrow> string \<Rightarrow> goerr option \<Rightarrow> race_state \<Rightarrow> 'w \<Rightarrow> race_state \<times> 'w" where
  "race_failed env rule rlease addr err st w =
     (let is = (\<lambda>t. case err of Some e \<Rightarrow> err_is e t | None \<Rightarrow> False);
          relaunch = (\<lambda>st. if \<not> maintenanceLimited st \<and> \<not> globalLimited st
            then launchAvailable env rule rlease (fallbackTryOnly st) st w else (st, w))
      in if is ErrActiveHealthUnhealthy \<or> is ErrCircuitOpen then
           relaunch (give_back (if is ErrActiveHealthUnhealthy then st\<lparr>healthExcluded := True\<rparr> else st))
         else case err of
           Some e \<Rightarrow>
             if isDialBulkheadError e then
               if isDialTargetBulkheadSaturationErr e
               then launchAvailable env rule rlease True (give_back (st\<lparr>capacityErr := Some e\<rparr>)\<lparr>fallbackTryOnly := True\<rparr>) w
               else (st\<lparr>capacityErr := Some e, globalLimited := True\<rparr>, w)
             else if err_is e errBoostMaintenanceSaturated then (st\<lparr>maintenanceLimited := True\<rparr>, w)
             else relaunch (if err_is e (ErrCtx Canceled) then st else st\<lparr>dialErrors := dialErrors st @ [ErrWrap addr e]\<rparr>)
         | None \<Rightarrow> relaunch st)"

definition race_start :: "'w race_env \<Rightarrow> Rule \<Rightarrow> (string \<times> u64) option \<Rightarrow> ctxErr option \<Rightarrow> ctxErr option \<Rightarrow> 'w \<Rightarrow> 'c race \<times> 'w" where
  "race_start env rule rlease ctxFirst ctxNow w =
     (if Targets rule = [] then (\<lparr>phase = Finished (Inl (ErrText ''boost rule has no targets'')), closedConns = []\<rparr>, w)
      else case ctxFirst of
        Some e \<Rightarrow> (\<lparr>phase = Finished (Inl (ErrCtx e)), closedConns = []\<rparr>, w)
      | None \<Rightarrow>
          let (st, w) = launchAvailable env rule rlease False
                \<lparr>attempted = [], actualAttempts = 0, inFlight = [], healthExcluded = False, maintenanceLimited = False,
                 globalLimited = False, fallbackTryOnly = False, capacityErr = None, dialErrors = []\<rparr> w
          in (\<lparr>phase = (if inFlight st = [] then Finished (Inl (race_failure ctxNow st)) else Racing st), closedConns = []\<rparr>, w))"

definition race_step ::
  "'w race_env \<Rightarrow> Rule \<Rightarrow> (string \<times> u64) option \<Rightarrow> 'c race_event \<Rightarrow> 'c race \<times> 'w \<Rightarrow> 'c race \<times> 'w" where
  "race_step env rule rlease ev = (\<lambda>(r, w). case (phase r, ev) of
       (Racing st, Result k conn err ctxNow) \<Rightarrow>
         if \<not> k < length (inFlight st) then (r, w)
         else
           let addr = rdAddr (inFlight st ! k); st = take_dial k st
           in (case (conn, err) of
                (Some c, None) \<Rightarrow> (r\<lparr>phase := (if inFlight st = [] then Finished (Inr (c, addr)) else Draining c addr st)\<rparr>, w)
              | _ \<Rightarrow>
                  let closes = (case conn of Some c \<Rightarrow> [c] | None \<Rightarrow> []);
                      (st, w) = race_failed env rule rlease addr err st w
                  in (\<lparr>phase = (if inFlight st = [] then Finished (Inl (race_failure ctxNow st)) else Racing st),
                       closedConns = closedConns r @ closes\<rparr>, w))
     | (Racing st, CtxDone e) \<Rightarrow> (r\<lparr>phase := DrainLate (ErrCtx e) st\<rparr>, w)
     | (Draining c addr st, Result k conn err ctxNow) \<Rightarrow>
         if \<not> k < length (inFlight st) then (r, w)
         else
           let st = take_dial k st
           in (\<lparr>phase = (if inFlight st = [] then Finished (Inr (c, addr)) else Draining c addr st),
                closedConns = closedConns r @ (case conn of Some c \<Rightarrow> [c] | None \<Rightarrow> [])\<rparr>, w)
     | (Draining c addr st, CtxDone e) \<Rightarrow> (r\<lparr>phase := DrainLate (ErrCtx e) st, closedConns := closedConns r @ [c]\<rparr>, w)
     | (DrainLate e st, Result k conn err ctxNow) \<Rightarrow>
         if \<not> k < length (inFlight st) then (r, w)
         else
           let st = take_dial k st
           in (\<lparr>phase = (if inFlight st = [] then Finished (Inl e) else DrainLate e st),
                closedConns = closedConns r @ (case conn of Some c \<Rightarrow> [c] | None \<Rightarrow> [])\<rparr>, w)
     | _ \<Rightarrow> (r, w))"

text \<open>A run: every event comes with the state the rest of the server is in when it happens.\<close>

definition race_run ::
  "'w race_env \<Rightarrow> Rule \<Rightarrow> (string \<times> u64) option \<Rightarrow> ('c race_event \<times> 'w) list \<Rightarrow> 'c race \<Rightarrow> 'c race" where
  "race_run env rule rlease evs r = fold (\<lambda>(ev, w) r. fst (race_step env rule rlease ev (r, w))) evs r"

section \<open>Filling the window\<close>

text \<open>What starting dials does to a race: the dials \<open>ls\<close> are new, to addresses not tried before.\<close>

definition launched_ok :: "string set \<Rightarrow> 'a race_state_scheme \<Rightarrow> 'a race_state_scheme \<Rightarrow> raceDial list \<Rightarrow> bool" where
  "launched_ok A st st' ls \<longleftrightarrow> inFlight st' = inFlight st @ ls \<and> actualAttempts st' = actualAttempts st + length ls
     \<and> set (attempted st) \<subseteq> set (attempted st') \<and> set (attempted st') \<subseteq> set (attempted st) \<union> A
     \<and> distinct (map rdAddr ls) \<and> set (map rdAddr ls) \<inter> set (attempted st) = {} \<and> set (map rdAddr ls) \<subseteq> set (attempted st')
     \<and> (distinct (attempted st) \<longrightarrow> distinct (attempted st')) \<and> length (attempted st) + length ls \<le> length (attempted st')
     \<and> maintenanceLimited st' = maintenanceLimited st \<and> globalLimited st' = globalLimited st \<and> fallbackTryOnly st' = fallbackTryOnly st
     \<and> capacityErr st' = capacityErr st \<and> dialErrors st' = dialErrors st \<and> race_state.more st' = race_state.more st"

lemma launched_ok_refl: "launched_ok A st st []"
  by (simp add: launched_ok_def)

lemma launched_ok_trans: "launched_ok A a b ls \<Longrightarrow> launched_ok A b c ms \<Longrightarrow> launched_ok A a c (ls @ ms)"
  unfolding launched_ok_def by (elim conjE, intro conjI; simp; blast)

lemma launch_candidates_ok:
  assumes "launch_candidates env stop limit capacity immediate delayed cs launched st w = (l, st', w')"
    and "distinct (map cand_addr cs)" "set (map cand_addr cs) \<inter> set (attempted st) = {}" "set (map cand_addr cs) \<subseteq> A"
    and "launched \<le> capacity" "actualAttempts st \<le> limit"
  shows "\<exists>ls. launched_ok A st st' ls \<and> l = launched + length ls \<and> l \<le> capacity \<and> actualAttempts st' \<le> limit
    \<and> (\<forall>d\<in>set ls. rdDelayed d = delayed \<and> rdTryOnly d = immediate)"
  using assms
proof (induction cs arbitrary: launched st w)
  case Nil
  then show ?case using launched_ok_refl[of A st] by auto
next
  case (Cons c cs)
  let ?a = "cand_addr c"
  let ?m = "st\<lparr>attempted := mark ?a (attempted st)\<rparr>"
  let ?d = "\<lparr>rdAddr = ?a, rdTryOnly = immediate, rdDelayed = delayed\<rparr>"
  let ?g = "?m\<lparr>actualAttempts := actualAttempts st + 1, inFlight := inFlight st @ [?d]\<rparr>"
  have new: "?a \<notin> set (attempted st)" "?a \<in> A" "?a \<notin> set (map cand_addr cs)" using Cons.prems(2,3,4) by auto
  have mk: "mark ?a (attempted st) = attempted st @ [?a]" using new by (simp add: mark_def)
  have m: "launched_ok A st (?m\<lparr>healthExcluded := h\<rparr>) []" "launched_ok A st ?m []" for h using new mk by (auto simp: launched_ok_def)
  have g: "launched_ok A st ?g [?d]" using new mk by (auto simp: launched_ok_def)
  have dis: "distinct (map cand_addr cs)" "set (map cand_addr cs) \<inter> set (mark ?a (attempted st)) = {}" "set (map cand_addr cs) \<subseteq> A"
    using Cons.prems(2,3,4) mk by auto
  have ext: "\<exists>ls. launched_ok A st st' ls \<and> l = launched + length ls \<and> l \<le> capacity \<and> actualAttempts st' \<le> limit
        \<and> (\<forall>d\<in>set ls. rdDelayed d = delayed \<and> rdTryOnly d = immediate)"
    if "launched_ok A st u ds" "launched_ok A u st' ls" "l = launched + length ds + length ls" "l \<le> capacity" "actualAttempts st' \<le> limit"
      "\<forall>d\<in>set (ds @ ls). rdDelayed d = delayed \<and> rdTryOnly d = immediate" for u ds ls
    using launched_ok_trans[OF that(1,2)] that(3-6) by (intro exI[of _ "ds @ ls"]) simp
  show ?case
  proof (cases "launched = capacity \<or> actualAttempts st \<ge> limit")
    case True
    then show ?thesis using Cons.prems(1,5,6) launched_ok_refl[of A st] by (intro exI[of _ "[]"]) auto
  next
    case go: False
    show ?thesis
    proof (cases "unhealthy env ?a w")
      case True
      then have l: "launch_candidates env stop limit capacity immediate delayed cs launched (?m\<lparr>healthExcluded := True\<rparr>)
          (releaseProbe env (starget c) (protocolProbe c) w) = (l, st', w')"
        using Cons.prems(1) go by simp
      from Cons.IH[OF this dis(1) _ dis(3)] dis(2) Cons.prems(5,6) obtain ls where
        "launched_ok A (?m\<lparr>healthExcluded := True\<rparr>) st' ls" "l = launched + length ls" "l \<le> capacity" "actualAttempts st' \<le> limit"
        "\<forall>d\<in>set ls. rdDelayed d = delayed \<and> rdTryOnly d = immediate" by auto
      then show ?thesis by (intro ext[OF m(1)]) simp_all
    next
      case healthy: False
      obtain cl w1 where cw: "(if periodicExplorer c then explores env (starget c) w else (True, w)) = (cl, w1)" by fastforce
      show ?thesis
      proof (cases cl)
        case False
        then have l: "launch_candidates env stop limit capacity immediate delayed cs launched ?m
            (releaseProbe env (starget c) (protocolProbe c) w1) = (l, st', w')"
          using Cons.prems(1) go healthy cw by simp
        from Cons.IH[OF this dis(1) _ dis(3)] dis(2) Cons.prems(5,6) obtain ls where
          "launched_ok A ?m st' ls" "l = launched + length ls" "l \<le> capacity" "actualAttempts st' \<le> limit"
          "\<forall>d\<in>set ls. rdDelayed d = delayed \<and> rdTryOnly d = immediate" by auto
        then show ?thesis by (intro ext[OF m(2)]) simp_all
      next
        case claimed: True
        have cap: "launched + 1 \<le> capacity" "actualAttempts st + 1 \<le> limit" using go Cons.prems(5,6) by auto
        show ?thesis
        proof (cases "stop c")
          case True
          then have "l = launched + 1" "st' = ?g" using Cons.prems(1) go healthy cw claimed by simp_all
          then show ?thesis using cap by (intro ext[OF g, of "[]"]) (simp_all add: launched_ok_refl)
        next
          case False
          then have l: "launch_candidates env stop limit capacity immediate delayed cs (launched + 1) ?g w1 = (l, st', w')"
            using Cons.prems(1) go healthy cw claimed by simp
          from Cons.IH[OF this dis(1) _ dis(3)] dis(2) cap obtain ls where
            "launched_ok A ?g st' ls" "l = launched + 1 + length ls" "l \<le> capacity" "actualAttempts st' \<le> limit"
            "\<forall>d\<in>set ls. rdDelayed d = delayed \<and> rdTryOnly d = immediate" by auto
          then show ?thesis by (intro ext[OF g]) simp_all
        qed
      qed
    qed
  qed
qed

text \<open>A source of candidates: what it offers has not been tried, and comes from a set of addresses.\<close>

locale candidate_source =
  fixes offer :: "'a race_state_scheme \<Rightarrow> 'w \<Rightarrow> raceCandidate list \<times> 'w" and A :: "string set"
  assumes offers_new: "offer st w = (cs, w') \<Longrightarrow>
    distinct (map cand_addr cs) \<and> set (map cand_addr cs) \<inter> set (attempted st) = {} \<and> set (map cand_addr cs) \<subseteq> A"
begin

lemma fill_ok:
  assumes "fill_loop env offer stop targets limit capacity immediate delayed st w = (l, st', w')" "actualAttempts st \<le> limit"
  shows "\<exists>ls. launched_ok A st st' ls \<and> l = length ls \<and> l \<le> capacity \<and> actualAttempts st' \<le> limit
    \<and> (\<forall>d\<in>set ls. rdDelayed d = delayed \<and> rdTryOnly d = immediate)"
  using assms
proof (induction "targets - length (attempted st)" arbitrary: st w rule: less_induct)
  case less
  show ?case
  proof (cases "actualAttempts st < limit \<and> length (attempted st) < targets")
    case False
    have "fill_loop env offer stop targets limit capacity immediate delayed st w = (0, st, w)"
      by (subst fill_loop.simps) (rule if_not_P[OF False])
    then have "l = 0" "st' = st" using less.prems(1) by simp_all
    then show ?thesis using launched_ok_refl[of A st] less.prems(2) by (intro exI[of _ "[]"]) simp
  next
    case go: True
    obtain cs w1 where c: "offer st w = (cs, w1)" by fastforce
    show ?thesis
    proof (cases "cs = []")
      case True
      then have "fill_loop env offer stop targets limit capacity immediate delayed st w = (0, st, w1)"
        by (subst fill_loop.simps) (simp add: go c)
      then have "l = 0" "st' = st" using less.prems(1) by simp_all
      then show ?thesis using launched_ok_refl[of A st] less.prems(2) by (intro exI[of _ "[]"]) simp
    next
      case some: False
      obtain n u w2 where lc: "launch_candidates env stop limit capacity immediate delayed cs 0 st w1 = (n, u, w2)"
        by (metis prod_cases3)
      obtain ls where ls: "launched_ok A st u ls" "n = length ls" "n \<le> capacity" "actualAttempts u \<le> limit"
        "\<forall>d\<in>set ls. rdDelayed d = delayed \<and> rdTryOnly d = immediate"
        using launch_candidates_ok[OF lc, of A] offers_new[OF c] less.prems(2) by auto
      show ?thesis
      proof (cases "n > 0 \<or> length (attempted u) = length (attempted st)")
        case True
        then have "fill_loop env offer stop targets limit capacity immediate delayed st w = (n, u, w2)"
          by (subst fill_loop.simps) (simp add: go c some lc)
        then have "l = n" "st' = u" using less.prems(1) by simp_all
        then show ?thesis using ls by blast
      next
        case False
        then have "fill_loop env offer stop targets limit capacity immediate delayed st w
            = fill_loop env offer stop targets limit capacity immediate delayed u w2"
          by (subst fill_loop.simps) (simp add: go c some lc)
        then have f: "fill_loop env offer stop targets limit capacity immediate delayed u w2 = (l, st', w')" using less.prems(1) by simp
        have "targets - length (attempted u) < targets - length (attempted st)" using launch_candidates_grows[OF lc] False go by auto
        from less.hyps[OF this f ls(4)] obtain ms where
          ms: "launched_ok A u st' ms" "l = length ms" "l \<le> capacity" "actualAttempts st' \<le> limit"
          "\<forall>d\<in>set ms. rdDelayed d = delayed \<and> rdTryOnly d = immediate" by blast
        have "ls = []" using False ls(2) by simp
        then show ?thesis using launched_ok_trans[OF ls(1) ms(1)] ms by (intro exI[of _ ms]) simp
      qed
    qed
  qed
qed

end

abbreviation addresses :: "Rule \<Rightarrow> string set" where
  "addresses rule \<equiv> Address ` {t. Some t \<in> set (Targets rule)}"

lemma select_candidates_new:
  assumes "select_candidates env rule tried reserve w = (cs, w')"
  shows "distinct (map cand_addr cs) \<and> set (map cand_addr cs) \<inter> set tried = {} \<and> set (map cand_addr cs) \<subseteq> addresses rule"
proof -
  obtain clm pen pen2 now reg where a: "selecting env w = (clm, pen, pen2, now, reg)" by (metis prod_cases5)
  obtain sel w1 where s: "selectTargetSelections clm pen pen2 rule (int (length (Targets rule))) now (set tried) reserve reg w = (sel, w1)"
    by fastforce
  have cs: "cs = map candidate_of sel" using assms a s by (simp add: select_candidates_def)
  have m: "map cand_addr cs = map (Address \<circ> starget) sel" by (simp add: cs cand_addr_def candidate_of_def)
  show ?thesis using selection_promises[OF s] by (auto simp: m admissible_def)
qed

lemma targetByAddress_some: "targetByAddress ts a = Some t \<Longrightarrow> Some t \<in> set ts \<and> Address t = a"
  by (induction ts a rule: targetByAddress.induct) (auto split: if_splits option.splits)

interpretation fresh: candidate_source "fresh_choose env rule rlease" "addresses rule"
proof
  fix st :: race_state and w w' :: 'a and cs
  assume offer: "fresh_choose env rule rlease st w = (cs, w')"
  then show "distinct (map cand_addr cs) \<and> set (map cand_addr cs) \<inter> set (attempted st) = {} \<and> set (map cand_addr cs) \<subseteq> addresses rule"
  proof (cases rlease)
    case None
    then show ?thesis using offer select_candidates_new by (fastforce simp: fresh_choose_def)
  next
    case (Some p)
    obtain a probe where p: "p = (a, probe)" by fastforce
    show ?thesis
    proof (cases "if a \<notin> set (attempted st) then map_option (\<lambda>t. (t, probe)) (targetByAddress (Targets rule) a) else None")
      case None
      then show ?thesis using offer select_candidates_new by (fastforce simp: fresh_choose_def Some p)
    next
      case (Some q)
      then obtain t where t: "q = (t, probe)" "targetByAddress (Targets rule) a = Some t" "a \<notin> set (attempted st)"
        by (auto split: if_splits)
      then have "cs = [\<lparr>starget = t, protocolProbe = probe, periodicExplorer = False, recoveryProbe = True\<rparr>]"
        using offer by (simp add: fresh_choose_def \<open>rlease = Some p\<close> p)
      then show ?thesis using targetByAddress_some[OF t(2)] t(3) by (auto simp: cand_addr_def)
    qed
  qed
qed

section \<open>The window after a result\<close>

text \<open>What a step may do to the dials in flight: the new ones go to addresses not tried before, at
  most two are in flight, and the attempts stay below the rule's limit.\<close>

definition race_bounds :: "Rule \<Rightarrow> race_state \<Rightarrow> bool" where
  "race_bounds rule st \<longleftrightarrow> length (inFlight st) \<le> 2 \<and> actualAttempts st \<le> connectProxyTargetAttemptLimit rule"

definition refilled :: "string set \<Rightarrow> race_state \<Rightarrow> race_state \<Rightarrow> bool" where
  "refilled A st st' \<longleftrightarrow> (\<exists>ls. inFlight st' = inFlight st @ ls \<and> distinct (map rdAddr ls)
     \<and> set (map rdAddr ls) \<inter> set (attempted st) = {} \<and> set (map rdAddr ls) \<subseteq> set (attempted st'))
     \<and> set (attempted st) \<subseteq> set (attempted st') \<and> set (attempted st') \<subseteq> set (attempted st) \<union> A"

lemma launched_refilled: "launched_ok A st st' ls \<Longrightarrow> refilled A st st'"
  by (auto simp: launched_ok_def refilled_def)

lemma refilled_same: "inFlight st' = inFlight st \<Longrightarrow> attempted st' = attempted st \<Longrightarrow> refilled A st st'"
  by (simp add: refilled_def)

lemma refilled_from: "refilled A u st' \<Longrightarrow> inFlight u = inFlight st \<Longrightarrow> attempted u = attempted st \<Longrightarrow> refilled A st st'"
  by (simp add: refilled_def)

lemma launchAvailable_ok:
  assumes "launchAvailable env rule rlease immediate st w = (st', w')" "race_bounds rule st"
  shows "refilled (addresses rule) st st' \<and> race_bounds rule st'"
proof -
  let ?lim = "connectProxyTargetAttemptLimit rule" and ?cap = "2 - length (inFlight st)"
  let ?fill = "fill_loop env (fresh_choose env rule rlease) (\<lambda>c. protocolProbe c \<noteq> 0 \<or> recoveryProbe c)
             (length (Targets rule)) ?lim ?cap immediate False st w"
  show ?thesis
  proof (cases "actualAttempts st \<ge> ?lim \<or> ?cap = 0")
    case True
    then have "st' = st" using assms(1) by (auto simp: launchAvailable_def Let_def split: if_splits)
    then show ?thesis using assms(2) by (simp add: refilled_same)
  next
    case False
    obtain l u w1 where f: "?fill = (l, u, w1)" by (rule prod_cases3)
    have c: "\<not> actualAttempts st \<ge> ?lim" "\<not> ?cap = 0" using False by auto
    have "launchAvailable env rule rlease immediate st w = snd ?fill" unfolding launchAvailable_def Let_def by (simp only: c if_False)
    then have "st' = u" unfolding f using assms(1) by simp
    moreover have "actualAttempts st \<le> ?lim" using assms(2) by (simp add: race_bounds_def)
    ultimately obtain ls where ls: "launched_ok (addresses rule) st st' ls" "length ls \<le> ?cap" "actualAttempts st' \<le> ?lim"
      using fresh.fill_ok[OF f] by blast
    have "length (inFlight st') = length (inFlight st) + length ls" using ls(1) by (simp add: launched_ok_def)
    then have "length (inFlight st') \<le> 2" using ls(2) c(2) by linarith
    then show ?thesis using ls launched_refilled by (simp add: race_bounds_def)
  qed
qed

lemma race_failed_ok:
  assumes "race_failed env rule rlease addr err st w = (st', w')" "race_bounds rule st"
  shows "refilled (addresses rule) st st' \<and> race_bounds rule st'"
proof -
  have step: "refilled (addresses rule) st v \<and> race_bounds rule v"
    if "(if b then launchAvailable env rule rlease t u w else (u, w)) = (v, w')" "inFlight u = inFlight st"
      "attempted u = attempted st" "actualAttempts u \<le> actualAttempts st" for b t u v
  proof -
    have bu: "race_bounds rule u" using that(2,4) assms(2) by (simp add: race_bounds_def)
    show ?thesis
    proof (cases b)
      case True
      then show ?thesis using launchAvailable_ok[of env rule rlease t u w v w'] that bu refilled_from by auto
    next
      case False
      then show ?thesis using that bu by (auto simp: refilled_same)
    qed
  qed
  have direct: "refilled (addresses rule) st v \<and> race_bounds rule v"
    if "launchAvailable env rule rlease t u w = (v, w')" "inFlight u = inFlight st"
      "attempted u = attempted st" "actualAttempts u \<le> actualAttempts st" for t u v
    using step[of True t u v] that by simp
  show ?thesis
  proof (cases err)
    case None
    then show ?thesis using assms(1) by (intro step) (auto simp: race_failed_def Let_def)
  next
    case (Some e)
    consider (route) "err_is e ErrActiveHealthUnhealthy \<or> err_is e ErrCircuitOpen"
      | (target) "\<not> (err_is e ErrActiveHealthUnhealthy \<or> err_is e ErrCircuitOpen)" "isDialBulkheadError e" "isDialTargetBulkheadSaturationErr e"
      | (global) "\<not> (err_is e ErrActiveHealthUnhealthy \<or> err_is e ErrCircuitOpen)" "isDialBulkheadError e" "\<not> isDialTargetBulkheadSaturationErr e"
      | (saturated) "\<not> (err_is e ErrActiveHealthUnhealthy \<or> err_is e ErrCircuitOpen)" "\<not> isDialBulkheadError e" "err_is e errBoostMaintenanceSaturated"
      | (other) "\<not> (err_is e ErrActiveHealthUnhealthy \<or> err_is e ErrCircuitOpen)" "\<not> isDialBulkheadError e" "\<not> err_is e errBoostMaintenanceSaturated"
      by blast
    then show ?thesis
    proof cases
      case route
      then show ?thesis using assms(1) unfolding race_failed_def Let_def Some option.case
        by (simp only: if_True simp_thms) (erule step, simp_all add: give_back_def)
    next
      case target
      then have "launchAvailable env rule rlease True (give_back (st\<lparr>capacityErr := Some e\<rparr>)\<lparr>fallbackTryOnly := True\<rparr>) w = (st', w')"
        using assms(1) by (simp add: race_failed_def Some)
      from direct[OF this] show ?thesis by (simp add: give_back_def)
    next
      case global
      then have "st' = st\<lparr>capacityErr := Some e, globalLimited := True\<rparr>" using assms(1) by (simp add: race_failed_def Some)
      then show ?thesis using assms(2) by (simp add: refilled_same race_bounds_def)
    next
      case saturated
      then have "st' = st\<lparr>maintenanceLimited := True\<rparr>" using assms(1) by (simp add: race_failed_def Some)
      then show ?thesis using assms(2) by (simp add: refilled_same race_bounds_def)
    next
      case other
      then show ?thesis using assms(1) unfolding race_failed_def Let_def Some option.case
        by (simp only: if_False if_True simp_thms) (erule step, simp_all)
    qed
  qed
qed

section \<open>What a race has seen\<close>

fun pending :: "'c race_phase \<Rightarrow> raceDial list" where
  "pending (Racing st) = inFlight st"
| "pending (Draining c addr st) = inFlight st"
| "pending (DrainLate e st) = inFlight st"
| "pending (Finished out) = []"

fun taken :: "'c race_phase \<Rightarrow> 'c race_event \<Rightarrow> (string \<times> 'c option \<times> goerr option) list" where
  "taken p (Result k conn err ctxNow) = (if k < length (pending p) then [(rdAddr (pending p ! k), conn, err)] else [])"
| "taken p (CtxDone e) = []"

fun race_results ::
  "'w race_env \<Rightarrow> Rule \<Rightarrow> (string \<times> u64) option \<Rightarrow> ('c race_event \<times> 'w) list \<Rightarrow> 'c race \<Rightarrow> (string \<times> 'c option \<times> goerr option) list" where
  "race_results env rule rlease [] r = []"
| "race_results env rule rlease ((ev, w) # evs) r =
     taken (phase r) ev @ race_results env rule rlease evs (fst (race_step env rule rlease ev (r, w)))"

definition tried :: "(string \<times> 'c option \<times> goerr option) list \<Rightarrow> string list" where
  "tried tr = map fst tr"

definition delivered :: "(string \<times> 'c option \<times> goerr option) list \<Rightarrow> 'c list" where
  "delivered tr = List.map_filter (fst \<circ> snd) tr"

fun succeeded :: "string \<times> 'c option \<times> goerr option \<Rightarrow> bool" where
  "succeeded (a, Some c, None) = True"
| "succeeded _ = False"

fun kept :: "'c race_phase \<Rightarrow> 'c multiset" where
  "kept (Draining c addr st) = {#c#}"
| "kept (Finished (Inr (c, addr))) = {#c#}"
| "kept _ = {#}"

fun winner_of :: "'c race_phase \<Rightarrow> ('c \<times> string) option" where
  "winner_of (Draining c addr st) = Some (c, addr)"
| "winner_of (Finished (Inr (c, addr))) = Some (c, addr)"
| "winner_of _ = None"

section \<open>The invariant\<close>

definition live_ok :: "Rule \<Rightarrow> string list \<Rightarrow> race_state \<Rightarrow> bool" where
  "live_ok rule ds st \<longleftrightarrow> race_bounds rule st \<and> distinct (ds @ map rdAddr (inFlight st))
     \<and> set (ds @ map rdAddr (inFlight st)) \<subseteq> set (attempted st) \<and> set (attempted st) \<subseteq> addresses rule"

fun phase_ok :: "Rule \<Rightarrow> string list \<Rightarrow> 'c race_phase \<Rightarrow> bool" where
  "phase_ok rule ds (Racing st) = (live_ok rule ds st \<and> inFlight st \<noteq> [])"
| "phase_ok rule ds (Draining c addr st) = (live_ok rule ds st \<and> inFlight st \<noteq> [])"
| "phase_ok rule ds (DrainLate e st) = (live_ok rule ds st \<and> inFlight st \<noteq> [])"
| "phase_ok rule ds (Finished out) = (distinct ds \<and> set ds \<subseteq> addresses rule)"

fun outcome_ok :: "bool \<Rightarrow> (string \<times> 'c option \<times> goerr option) list \<Rightarrow> 'c race_phase \<Rightarrow> bool" where
  "outcome_ok cancelled tr (Racing st) = (\<forall>x\<in>set tr. \<not> succeeded x)"
| "outcome_ok cancelled tr (Draining c addr st) = ((addr, Some c, None) \<in> set tr)"
| "outcome_ok cancelled tr (DrainLate e st) = cancelled"
| "outcome_ok cancelled tr (Finished (Inr (c, addr))) = ((addr, Some c, None) \<in> set tr)"
| "outcome_ok cancelled tr (Finished (Inl e)) = (\<not> cancelled \<longrightarrow> (\<forall>x\<in>set tr. \<not> succeeded x))"

definition race_ok :: "Rule \<Rightarrow> bool \<Rightarrow> (string \<times> 'c option \<times> goerr option) list \<Rightarrow> 'c race \<Rightarrow> bool" where
  "race_ok rule cancelled tr r \<longleftrightarrow> phase_ok rule (tried tr) (phase r) \<and> outcome_ok cancelled tr (phase r)
     \<and> mset (delivered tr) = mset (closedConns r) + kept (phase r)"

lemma tried_simps [simp]: "tried [] = []" "tried (tr @ us) = tried tr @ tried us" "tried [x] = [fst x]"
  by (simp_all add: tried_def)

lemma delivered_simps [simp]:
  "delivered [] = []" "delivered (tr @ us) = delivered tr @ delivered us"
  "delivered [(a, None, e)] = []" "delivered [(a, Some c, e)] = [c]"
  by (simp_all add: delivered_def List.map_filter_def)

lemma live_finished: "live_ok rule ds st \<Longrightarrow> inFlight st = [] \<Longrightarrow> phase_ok rule ds (Finished out)"
  by (auto simp: live_ok_def)

text \<open>Taking a dial out of the window moves its address to the tried ones.\<close>

lemma live_take:
  assumes "live_ok rule ds st" "k < length (inFlight st)"
  shows "live_ok rule (ds @ [rdAddr (inFlight st ! k)]) (take_dial k st)"
proof -
  obtain pre d post where s: "inFlight st = pre @ d # post" "length pre = k" "inFlight st ! k = d"
    using id_take_nth_drop[OF assms(2)] assms(2) by (metis length_take min.absorb4)
  then have "inFlight (take_dial k st) = pre @ post" by (auto simp: take_dial_def)
  then show ?thesis using assms(1) s by (simp add: live_ok_def race_bounds_def) (auto simp: take_dial_def)
qed

lemma live_refilled:
  assumes "live_ok rule ds st" "refilled (addresses rule) st st'" "race_bounds rule st'"
  shows "live_ok rule ds st'"
proof -
  let ?old = "ds @ map rdAddr (inFlight st)"
  have l: "distinct ?old" "set ?old \<subseteq> set (attempted st)" "set (attempted st) \<subseteq> addresses rule"
    using assms(1) by (simp_all only: live_ok_def)
  obtain ls where ls: "inFlight st' = inFlight st @ ls" "distinct (map rdAddr ls)"
    "set (map rdAddr ls) \<inter> set (attempted st) = {}" "set (map rdAddr ls) \<subseteq> set (attempted st')"
    and a: "set (attempted st) \<subseteq> set (attempted st')" "set (attempted st') \<subseteq> set (attempted st) \<union> addresses rule"
    using assms(2) unfolding refilled_def by blast
  have e: "ds @ map rdAddr (inFlight st') = ?old @ map rdAddr ls" unfolding ls(1) by simp
  have "distinct (?old @ map rdAddr ls)" unfolding distinct_append[of ?old] using l ls(2,3) by blast
  moreover have "set (?old @ map rdAddr ls) \<subseteq> set (attempted st')"
    unfolding set_append[of ?old] by (rule Un_least[OF order_trans[OF l(2) a(1)] ls(4)])
  moreover have "set (attempted st') \<subseteq> addresses rule" by (rule order_trans[OF a(2) Un_least[OF l(3) order_refl]])
  ultimately show ?thesis using assms(3) unfolding live_ok_def e by blast
qed

lemma race_startE:
  assumes "race_start env rule rlease ctxFirst ctxNow w = (r, w')"
  shows "race_ok rule b [] r"
proof -
  let ?st = "\<lparr>attempted = [], actualAttempts = 0, inFlight = [], healthExcluded = False, maintenanceLimited = False,
                 globalLimited = False, fallbackTryOnly = False, capacityErr = None, dialErrors = []\<rparr> :: race_state"
  obtain st w1 where l: "launchAvailable env rule rlease False ?st w = (st, w1)" by fastforce
  have "live_ok rule [] ?st" by (simp add: live_ok_def race_bounds_def)
  moreover have "refilled (addresses rule) ?st st" "race_bounds rule st"
    using launchAvailable_ok[OF l] by (simp_all add: race_bounds_def)
  ultimately have "live_ok rule [] st" by (rule live_refilled)
  then show ?thesis using assms l by (auto simp: race_start_def race_ok_def split: if_splits option.splits)
qed

text \<open>A step that takes no result changes nothing but the phase.\<close>

lemma race_step_ok:
  assumes "race_ok rule cancelled tr r"
  shows "race_ok rule (cancelled \<or> (\<exists>e. ev = CtxDone e)) (tr @ taken (phase r) ev) (fst (race_step env rule rlease ev (r, w)))"
proof (cases ev)
  case (CtxDone e)
  then show ?thesis using assms
    by (cases "phase r") (auto simp: race_ok_def race_step_def split: sum.splits elim: outcome_ok.elims)
next
  case (Result k conn err ctxNow)
  show ?thesis
  proof (cases "k < length (pending (phase r))")
    case False
    then have "taken (phase r) ev = []" "fst (race_step env rule rlease ev (r, w)) = r"
      by (cases "phase r"; simp add: Result race_step_def)+
    then show ?thesis using assms by (simp add: Result)
  next
    case k: True
    have t: "tried tr @ [rdAddr (pending (phase r) ! k)] = tried (tr @ taken (phase r) ev)" using k by (simp add: Result)
    have closes: "delivered (tr @ taken (phase r) ev) = delivered tr @ (case conn of Some c \<Rightarrow> [c] | None \<Rightarrow> [])"
      using k by (cases conn) (simp_all add: Result)
    show ?thesis
    proof (cases "phase r")
      case (Draining c addr st)
      have "live_ok rule (tried (tr @ taken (phase r) ev)) (take_dial k st)"
        using live_take[of rule "tried tr" st k] assms k unfolding t[symmetric] by (simp add: race_ok_def Draining)
      then show ?thesis using assms k closes live_finished[of rule "tried (tr @ taken (phase r) ev)" "take_dial k st"]
        by (simp add: race_ok_def race_step_def Result Draining Let_def split: option.splits)
    next
      case (DrainLate e st)
      have "live_ok rule (tried (tr @ taken (phase r) ev)) (take_dial k st)"
        using live_take[of rule "tried tr" st k] assms k unfolding t[symmetric] by (simp add: race_ok_def DrainLate)
      then show ?thesis using assms k closes live_finished[of rule "tried (tr @ taken (phase r) ev)" "take_dial k st"]
        by (simp add: race_ok_def race_step_def Result DrainLate Let_def split: option.splits)
    next
      case (Finished out)
      then show ?thesis using k by simp
    next
      case (Racing st)
      let ?tr = "tr @ taken (phase r) ev" and ?u = "take_dial k st" and ?a = "rdAddr (inFlight st ! k)"
      have live: "live_ok rule (tried ?tr) ?u"
        using live_take[of rule "tried tr" st k] assms k unfolding t[symmetric] by (simp add: race_ok_def Racing)
      have kk: "k < length (inFlight st)" using k Racing by simp
      have old: "\<forall>x\<in>set tr. \<not> succeeded x" "mset (delivered tr) = mset (closedConns r)" using assms by (simp_all add: race_ok_def Racing)
      show ?thesis
      proof (cases "\<exists>c. conn = Some c \<and> err = None")
        case True
        then obtain c where c: "conn = Some c" "err = None" by blast
        then have "race_step env rule rlease ev (r, w)
            = (r\<lparr>phase := (if inFlight ?u = [] then Finished (Inr (c, ?a)) else Draining c ?a ?u)\<rparr>, w)"
          using kk by (simp add: race_step_def Result Racing Let_def)
        then show ?thesis using live live_finished[OF live] old closes c kk by (simp add: race_ok_def Result Racing)
      next
        case False
        obtain v w1 where f: "race_failed env rule rlease ?a err ?u w = (v, w1)" by fastforce
        have step: "race_step env rule rlease ev (r, w)
            = (\<lparr>phase = (if inFlight v = [] then Finished (Inl (race_failure ctxNow v)) else Racing v),
                closedConns = closedConns r @ (case conn of Some c \<Rightarrow> [c] | None \<Rightarrow> [])\<rparr>, w1)"
          using kk False f by (cases conn; cases err) (simp_all add: race_step_def Result Racing Let_def)
        have "race_bounds rule ?u" using live by (simp add: live_ok_def)
        then have "refilled (addresses rule) ?u v" "race_bounds rule v" using race_failed_ok[OF f] by simp_all
        then have "live_ok rule (tried ?tr) v" by (rule live_refilled[OF live])
        moreover have "\<not> succeeded (?a, conn, err)" using False by (cases conn; cases err) simp_all
        ultimately show ?thesis using step old closes kk live_finished[of rule "tried ?tr" v]
          by (simp add: race_ok_def Result Racing)
      qed
    qed
  qed
qed

definition cancelled_by :: "('c race_event \<times> 'w) list \<Rightarrow> bool" where
  "cancelled_by evs \<longleftrightarrow> (\<exists>x\<in>set evs. \<exists>e. fst x = CtxDone e)"

lemma race_run_ok:
  assumes "race_ok rule b tr r"
  shows "race_ok rule (b \<or> cancelled_by evs) (tr @ race_results env rule rlease evs r) (race_run env rule rlease evs r)"
  using assms
proof (induction evs arbitrary: b tr r)
  case Nil
  then show ?case by (simp add: race_run_def cancelled_by_def)
next
  case (Cons x evs)
  obtain ev w where x: "x = (ev, w)" by fastforce
  show ?case using Cons.IH[OF race_step_ok[OF Cons.prems, of ev env rlease w]]
    by (simp add: x race_run_def cancelled_by_def disj_assoc)
qed

lemma race_from_start:
  "race_ok rule (cancelled_by evs) (race_results env rule rlease evs (fst (race_start env rule rlease cf cn w)))
     (race_run env rule rlease evs (fst (race_start env rule rlease cf cn w)))"
  using race_run_ok[OF race_startE[of env rule rlease cf cn w, OF surjective_pairing, of False], of evs env rlease] by simp

lemma finite_somes: "finite {t. Some t \<in> set ts}"
  by (rule finite_subset[of _ "the ` set ts"]) force+

lemma addresses_length: "length (filter (\<lambda>t. t \<noteq> None) ts) \<ge> card (Address ` {t. Some t \<in> set ts})"
proof (induction ts)
  case (Cons t ts)
  show ?case
  proof (cases t)
    case None
    then show ?thesis using Cons by simp
  next
    case (Some y)
    have "Address ` {t. Some t \<in> set (Some y # ts)} = insert (Address y) (Address ` {t. Some t \<in> set ts})" by auto
    moreover have "finite (Address ` {t. Some t \<in> set ts})"
      by (rule finite_imageI[OF finite_somes])
    ultimately show ?thesis using Some Cons by (simp add: card_insert_if)
  qed
qed simp

lemma race_size: "race_ok rule b tr r \<Longrightarrow> length tr + length (pending (phase r)) \<le> length (Targets rule)"
proof -
  assume r: "race_ok rule b tr r"
  have d: "distinct (tried tr @ map rdAddr (pending (phase r)))" "set (tried tr @ map rdAddr (pending (phase r))) \<subseteq> addresses rule"
    using r by (cases "phase r"; auto simp: race_ok_def live_ok_def)+
  have "finite (addresses rule)"
    by (rule finite_imageI[OF finite_somes])
  then have "length (tried tr @ map rdAddr (pending (phase r))) \<le> card (addresses rule)"
    using d card_mono distinct_card by metis
  also have "\<dots> \<le> length (Targets rule)" using addresses_length le_trans length_filter_le by blast
  finally show ?thesis by (simp add: tried_def)
qed

section \<open>Every result ends a dial\<close>

text \<open>The results a run delivers: every result of a dial that is then in flight, whichever of them it is.\<close>

fun delivers :: "'c race_phase \<Rightarrow> 'c race_event \<Rightarrow> bool" where
  "delivers p (Result k conn err ctxNow) = (k < length (pending p))"
| "delivers p (CtxDone e) = False"

fun deliveries :: "'w race_env \<Rightarrow> Rule \<Rightarrow> (string \<times> u64) option \<Rightarrow> ('c race_event \<times> 'w) list \<Rightarrow> 'c race \<Rightarrow> nat" where
  "deliveries env rule rlease [] r = 0"
| "deliveries env rule rlease ((ev, w) # evs) r =
     (if delivers (phase r) ev then 1 else 0) + deliveries env rule rlease evs (fst (race_step env rule rlease ev (r, w)))"

lemma deliveries_results: "deliveries env rule rlease evs r = length (race_results env rule rlease evs r)"
proof (induction evs arbitrary: r)
  case (Cons x evs)
  have "length (taken p ev) = (if delivers p ev then 1 else 0)" for p and ev :: "'b race_event" by (cases ev) simp_all
  then show ?case using Cons.IH by (cases x) (simp del: taken.simps delivers.simps)
qed simp

lemma race_progress: "race_ok rule b tr r \<Longrightarrow> (\<exists>out. phase r = Finished out) \<or> 0 < length (pending (phase r))"
  by (cases "phase r") (simp_all add: race_ok_def)

section \<open>Properties\<close>

text \<open>C8: at any moment of a race between fresh connections, whatever the order in which its dials
  finish and whatever the routing state does meanwhile, at most two dials are in flight, no address is
  dialled twice, and every address dialled is one of the rule's targets.\<close>

theorem race_window:
  fixes env :: "'w race_env" and evs :: "('c race_event \<times> 'w) list"
  shows "let r0 = fst (race_start env rule rlease ctxFirst ctxNow w); dials = pending (phase (race_run env rule rlease evs r0));
       addrs = tried (race_results env rule rlease evs r0) @ map rdAddr dials
     in length dials \<le> 2 \<and> distinct addrs \<and> set addrs \<subseteq> addresses rule"
proof -
  let ?r = "race_run env rule rlease evs (fst (race_start env rule rlease ctxFirst ctxNow w))"
  from race_from_start[where env = env and rule = rule and rlease = rlease and evs = evs and cf = ctxFirst and cn = ctxNow and w = w]
  show ?thesis unfolding Let_def
    by (cases "phase ?r") (simp_all add: race_ok_def live_ok_def race_bounds_def, (blast intro: order_trans)+)
qed

text \<open>every connection a dial of the race delivers is closed by the race, except the one it returns
  (or is about to return); the returned one was delivered without an error by a dial to the address it is returned with.\<close>

theorem race_connections_accounted:
  fixes env :: "'w race_env" and evs :: "('c race_event \<times> 'w) list"
  shows "let r0 = fst (race_start env rule rlease ctxFirst ctxNow w); r = race_run env rule rlease evs r0; tr = race_results env rule rlease evs r0
     in mset (delivered tr) = mset (closedConns r) + image_mset fst (mset_set (set_option (winner_of (phase r))))
       \<and> set_option (winner_of (phase r)) \<subseteq> {(c, addr). (addr, Some c, None) \<in> set tr}"
proof -
  let ?r = "race_run env rule rlease evs (fst (race_start env rule rlease ctxFirst ctxNow w))"
  have k: "image_mset fst (mset_set (set_option (winner_of p))) = kept p" for p :: "'c race_phase"
    by (cases p rule: winner_of.cases) simp_all
  from race_from_start[where env = env and rule = rule and rlease = rlease and evs = evs and cf = ctxFirst and cn = ctxNow and w = w]
  show ?thesis unfolding Let_def k by (cases "phase ?r" rule: winner_of.cases) (simp_all add: race_ok_def)
qed

text \<open>a race that ends with an error although its context was not done has had no usable connection
  from any of its dials.\<close>

theorem race_fails_without_success:
  fixes env :: "'w race_env" and evs :: "('c race_event \<times> 'w) list"
  assumes "phase (race_run env rule rlease evs (fst (race_start env rule rlease ctxFirst ctxNow w))) = Finished (Inl e)"
    and "\<not> cancelled_by evs"
  shows "\<forall>(addr, conn, err)\<in>set (race_results env rule rlease evs (fst (race_start env rule rlease ctxFirst ctxNow w))). \<not> succeeded (addr, conn, err)"
  using race_from_start[where env = env and rule = rule and rlease = rlease and evs = evs and cf = ctxFirst and cn = ctxNow and w = w] assms
  by (auto simp: race_ok_def)

text \<open>C9: a race ends. Whatever the results are, in whatever order the dials finish and whether or not the
  context is cancelled meanwhile, at every moment the race is over or some dial is still in flight, whose
  result it will take; a race of a rule with \<open>n\<close> targets takes at most \<open>n\<close> results in all, and it is over
  when it has taken \<open>n\<close>.\<close>

theorem race_terminates:
  fixes env :: "'w race_env" and evs :: "('c race_event \<times> 'w) list"
  shows "let r0 = fst (race_start env rule rlease ctxFirst ctxNow w); r = race_run env rule rlease evs r0; n = deliveries env rule rlease evs r0
     in n \<le> length (Targets rule)
       \<and> ((\<exists>out. phase r = Finished out) \<or> (0 < length (pending (phase r)) \<and> n < length (Targets rule)))"
proof -
  let ?start = "fst (race_start env rule rlease ctxFirst ctxNow w) :: 'c race"
  have ok: "race_ok rule (cancelled_by evs) (race_results env rule rlease evs ?start) (race_run env rule rlease evs ?start)"
    by (rule race_from_start)
  have last: "n \<le> (m :: nat) \<and> (P \<or> (0 < k \<and> n < m))" if "n + k \<le> m" "P \<or> 0 < k" for n m k P using that by auto
  show ?thesis unfolding Let_def deliveries_results by (rule last[OF race_size[OF ok] race_progress[OF ok]])
qed

section \<open>A race\<close>

text \<open>A rule with three targets: the first dial fails, the race starts another, which wins while the
  second is still in flight.\<close>

definition wit_race_env :: "unit race_env" where
  "wit_race_env = \<lparr>selecting = (\<lambda>w. ((\<lambda>t u. ((0, False), u)), (\<lambda>t. 0), (\<lambda>t. 0), 0, newRouteHealthRegistry)),
     unhealthy = (\<lambda>a w. False), explores = (\<lambda>t w. (True, w)), releaseProbe = (\<lambda>t p w. w)\<rparr>"

definition wit_race_start :: "nat race" where
  "wit_race_start = fst (race_start wit_race_env wit_rule None None None ())"

definition wit_lost :: "(nat race_event \<times> unit) list" where
  "wit_lost = [(Result 0 None (Some ErrCircuitOpen) None, ()), (Result 0 None (Some (ErrText ''refused'')) None, ()), (Result 0 (Some 7) (Some ErrCircuitOpen) None, ())]"

definition wit_won :: "(nat race_event \<times> unit) list" where
  "wit_won = [(Result 0 None (Some ErrCircuitOpen) None, ()), (Result 1 (Some 7) None None, ()), (Result 0 (Some 8) None None, ())]"

lemma wit_race_runs:
  "(let r = race_run wit_race_env wit_rule None wit_won wit_race_start in (winner_of (phase r), closedConns r)) = (Some (7, ''c''), [8])"
  by code_simp

theorem race_fails_without_success_witness:
  "\<forall>(addr, conn, err)\<in>set (race_results wit_race_env wit_rule None wit_lost wit_race_start). \<not> succeeded (addr, conn, err)"
proof -
  have "(case phase (race_run wit_race_env wit_rule None wit_lost wit_race_start) of
      Finished (Inl e) \<Rightarrow> err_is e (ErrText ''refused'') | _ \<Rightarrow> False)" by code_simp
  then obtain e where e: "phase (race_run wit_race_env wit_rule None wit_lost wit_race_start) = Finished (Inl e)"
    by (auto split: race_phase.splits sum.splits)
  have "\<not> cancelled_by wit_lost" by (simp add: cancelled_by_def wit_lost_def)
  from race_fails_without_success[OF e[unfolded wit_race_start_def] this] show ?thesis unfolding wit_race_start_def .
qed

section \<open>One dial of a race\<close>

text \<open>What the goroutine of one candidate does to the resources it was given, in order. Its
  surroundings answer: the admission budget, the health check after admission, the protocol
  restriction of a recovery canary, the route registry, the dialer and the protocol setup.\<close>

datatype 'c dial_effect =
    is_Admitted: Admitted
  | is_AdmissionReturned: AdmissionReturned
  | is_AttemptBegun: AttemptBegun
  | is_Dialled: Dialled
  | is_ConnClosed: ConnClosed 'c
  | is_AttemptObserved: AttemptObserved "goerr option"
  | is_ProbeReleased: ProbeReleased
  | is_ExplorationReleased: ExplorationReleased
  | is_Delivered: Delivered "'c option" "goerr option"

record 'c dial_answers =
  acquireErr :: "goerr option"
  unhealthyNow :: bool
  http3Restricted :: bool
  beginErr :: "goerr option"
  dialAnswer :: "'c option \<times> goerr option"
  prepareAnswer :: "goerr option"

definition finish_dial :: "'c option \<Rightarrow> goerr option \<Rightarrow> 'c dial_effect list" where
  "finish_dial conn err = [ProbeReleased, ExplorationReleased, Delivered conn err]"

text \<open>The protocol setup is optional.\<close>

definition run_dial :: "raceCandidate \<Rightarrow> bool \<Rightarrow> 'c dial_answers \<Rightarrow> 'c dial_effect list" where
  "run_dial c prepares ans =
     (case acquireErr ans of
        Some e \<Rightarrow> finish_dial None (Some e)
      | None \<Rightarrow> Admitted #
          (if unhealthyNow ans then AdmissionReturned # finish_dial None (Some ErrActiveHealthUnhealthy)
           else if recoveryProbe c \<and> protocolProbe c \<noteq> 0 \<and> http3Restricted ans
           then AdmissionReturned # finish_dial None (Some ErrCircuitOpen)
           else case beginErr ans of
               Some e \<Rightarrow> AdmissionReturned # finish_dial None (Some e)
             | None \<Rightarrow>
                 let (conn, err) = dialAnswer ans;
                     err = (if err = None \<and> conn = None then Some (ErrText ''dial returned a nil connection'') else err);
                     (conn, err, closes) =
                       (case (err, conn, if prepares then prepareAnswer ans else None) of
                          (None, Some cn, Some e) \<Rightarrow> (None, Some e, [ConnClosed cn])
                        | _ \<Rightarrow> (conn, err, []))
                 in [AttemptBegun, Dialled, AdmissionReturned] @ closes @ AttemptObserved (connectProxyRouteObservationError err) # finish_dial conn err))"

text \<open>The launch of the cached race hands admission, health checks, the route attempt and metrics to the
  route dialer; it closes what the dialer or the setup reject and reports a setup failure itself.\<close>

definition run_cached_dial :: "'c option \<times> goerr option \<Rightarrow> goerr option \<Rightarrow> 'c dial_effect list" where
  "run_cached_dial answer prepared =
     (let (conn, err) = answer;
          err = (if err = None \<and> conn = None then Some (ErrText ''cached boost dial returned a nil connection'') else err)
      in case (conn, err) of
           (Some cn, Some e) \<Rightarrow> [Dialled, ConnClosed cn] @ finish_dial None err
         | (Some cn, None) \<Rightarrow>
             (case prepared of
                Some e \<Rightarrow> [Dialled, AttemptObserved (Some e), ConnClosed cn] @ finish_dial None (Some e)
              | None \<Rightarrow> Dialled # finish_dial conn None)
         | (None, _) \<Rightarrow> Dialled # finish_dial None err)"

definition conn_list :: "'c option \<Rightarrow> 'c list" where
  "conn_list conn = (case conn of Some c \<Rightarrow> [c] | None \<Rightarrow> [])"

definition balanced_dial :: "'c option \<Rightarrow> 'c dial_effect list \<Rightarrow> bool" where
  "balanced_dial dialled es \<longleftrightarrow>
     length (filter is_ProbeReleased es) = 1 \<and> length (filter is_ExplorationReleased es) = 1
     \<and> length (filter is_Admitted es) = length (filter is_AdmissionReturned es)
     \<and> (\<exists>conn err. filter is_Delivered es = [Delivered conn err]
          \<and> filter is_ConnClosed es @ map ConnClosed (conn_list conn)
              = (if filter is_Dialled es = [] then [] else map ConnClosed (conn_list dialled)))"

lemma cached_dial_balanced: "balanced_dial (fst answer) (run_cached_dial answer prepared)"
proof -
  obtain conn err where a: "answer = (conn, err)" by fastforce
  show ?thesis unfolding run_cached_dial_def finish_dial_def balanced_dial_def conn_list_def Let_def a
    by (cases conn; cases err; cases prepared) simp_all
qed

lemma fresh_dial_balanced:
  "balanced_dial (fst (dialAnswer ans)) (run_dial c prepares ans)"
  "length (filter is_AttemptObserved (run_dial c prepares ans)) = length (filter is_AttemptBegun (run_dial c prepares ans))"
proof -
  obtain conn err where a: "dialAnswer ans = (conn, err)" by fastforce
  show "balanced_dial (fst (dialAnswer ans)) (run_dial c prepares ans)"
    unfolding run_dial_def finish_dial_def balanced_dial_def conn_list_def Let_def a
    by (cases "acquireErr ans"; cases "beginErr ans"; cases conn; cases err; cases "if prepares then prepareAnswer ans else None") simp_all
  show "length (filter is_AttemptObserved (run_dial c prepares ans)) = length (filter is_AttemptBegun (run_dial c prepares ans))"
    unfolding run_dial_def finish_dial_def Let_def a
    by (cases "acquireErr ans"; cases "beginErr ans"; cases conn; cases err; cases "if prepares then prepareAnswer ans else None") simp_all
qed

text \<open>whatever its surroundings answer, the goroutine of a dial gives back each lease once and the
  admission as often as it got it, delivers one result, and either closes or delivers the connection the
  dialer returned, never both; a dial of the fresh race reports on the route attempt exactly if it began one.\<close>

theorem race_dial_balanced:
  "balanced_dial (fst (dialAnswer ans)) (run_dial c prepares ans)
   \<and> length (filter is_AttemptObserved (run_dial c prepares ans)) = length (filter is_AttemptBegun (run_dial c prepares ans))
   \<and> balanced_dial (fst answer) (run_cached_dial answer prepared)"
  by (simp only: fresh_dial_balanced cached_dial_balanced simp_thms)

end
