(* ===== verification/Boost_Cached.thy ===== *)
theory Boost_Cached
  imports Boost_Race
begin

text \<open>
  The race that starts from a cached winner (\<^verbatim>\<open>raceCachedBoostTargetWithDial\<close> in
  \<^verbatim>\<open>controller/boost.go\<close>): the cached target is dialled alone; alternatives join it when it fails, or
  one at a time when the hedge timer fires while it is still connecting.
\<close>

section \<open>State\<close>

record cached_state = race_state +
  hedgingEnabled :: bool
  delayedHedge :: bool
  primaryFailed :: bool
  hedgeArmed :: bool \<comment> \<open>\<^verbatim>\<open>hedgeReady\<close> is not nil\<close>
  hedgeScheduled :: bool
  primaryStarted :: bool
  delayedStarted :: bool
  exclusiveProbe :: bool
  sawCachedFailure :: bool
  sawNeutralFailure :: bool
  sawFallback :: bool

datatype 'c cached_mode =
    Waiting
  | Winning 'c string
  | Losing goerr
  | Over "goerr + 'c \<times> string"

record 'c cached_race =
  cmode :: "'c cached_mode"
  cstate :: cached_state
  cclosed :: "'c list"

text \<open>The start callbacks of the dialer are events too; the one of the cached dial tells whether the
  request's deadline leaves no room for the hedge delay.\<close>

datatype 'c cached_event =
    Arrived nat "'c option" "goerr option" "ctxErr option"
  | HedgeFired
  | PrimaryStarted bool
  | DelayedStarted
  | Cancelled ctxErr

definition cached_outcome :: "'c cached_race \<Rightarrow> cachedBoostOutcome" where
  "cached_outcome r = \<lparr>winnerAddr = (case cmode r of Over (Inr (c, addr)) \<Rightarrow> addr | _ \<Rightarrow> ''''),
     cachedFailed = sawCachedFailure (cstate r), cachedFailureNeutral = sawNeutralFailure (cstate r),
     fallbackStarted = sawFallback (cstate r), hedged = delayedStarted (cstate r)\<rparr>"

section \<open>Alternatives\<close>

definition cached_choose :: "'w race_env \<Rightarrow> Rule \<Rightarrow> 'a race_state_scheme \<Rightarrow> 'w \<Rightarrow> raceCandidate list \<times> 'w" where
  "cached_choose env rule st w = select_candidates env rule (attempted st) (inFlight st = [] \<and> actualAttempts st = 0) w"

definition launchAlternatives ::
  "'w race_env \<Rightarrow> Rule \<Rightarrow> nat \<Rightarrow> bool \<Rightarrow> bool \<Rightarrow> cached_state \<Rightarrow> 'w \<Rightarrow> nat \<times> cached_state \<times> 'w" where
  "launchAlternatives env rule limit delayed immediate st w =
     (if limit = 0 \<or> globalLimited st \<or> actualAttempts st \<ge> connectProxyTargetAttemptLimit rule then (0, st, w)
      else
        let (launched, st, w) = fill_loop env (cached_choose env rule) (\<lambda>c. protocolProbe c \<noteq> 0) (length (Targets rule))
              (connectProxyTargetAttemptLimit rule) limit immediate delayed st w
        in (launched, if launched > 0 then st\<lparr>sawFallback := True\<rparr> else st, w))"

definition alternatives :: "'w race_env \<Rightarrow> Rule \<Rightarrow> bool \<Rightarrow> bool \<Rightarrow> cached_state \<Rightarrow> 'w \<Rightarrow> cached_state \<times> 'w" where
  "alternatives env rule delayed immediate st w = snd (launchAlternatives env rule (2 - length (inFlight st)) delayed immediate st w)"

section \<open>A failed result\<close>

text \<open>The cached route is out: alternatives fill the window without waiting for the timer.\<close>

definition open_window :: "cached_state \<Rightarrow> cached_state" where
  "open_window st = st\<lparr>hedgingEnabled := True, delayedHedge := False, hedgeArmed := False\<rparr>"

definition continue_window :: "'w race_env \<Rightarrow> Rule \<Rightarrow> cached_state \<Rightarrow> 'w \<Rightarrow> cached_state \<times> 'w" where
  "continue_window env rule st w =
     (if hedgingEnabled st \<and> \<not> globalLimited st
      then alternatives env rule (delayedHedge st) (delayedHedge st \<or> fallbackTryOnly st) st w else (st, w))"

definition route_refused :: "bool \<Rightarrow> goerr \<Rightarrow> cached_state \<Rightarrow> cached_state" where
  "route_refused isCached e st =
     (let st = give_back (if err_is e ErrActiveHealthUnhealthy then st\<lparr>healthExcluded := True\<rparr> else st)
      in if isCached then open_window (st\<lparr>primaryFailed := True, sawCachedFailure := True\<rparr>) else st)"

definition capacity_refused ::
  "'w race_env \<Rightarrow> Rule \<Rightarrow> bool \<Rightarrow> raceDial \<Rightarrow> goerr \<Rightarrow> cached_state \<Rightarrow> 'w \<Rightarrow> cached_state \<times> 'w" where
  "capacity_refused env rule isCached d e st w =
     (if rdDelayed d \<and> \<not> isCached then
        let st = give_back (st\<lparr>attempted := removeAll (rdAddr d) (attempted st)\<rparr>)
        in if primaryFailed st then alternatives env rule False (fallbackTryOnly st) (st\<lparr>delayedHedge := False\<rparr>) w else (st, w)
      else if isDialTargetBulkheadSaturationErr e
      then alternatives env rule False True (open_window (give_back (st\<lparr>fallbackTryOnly := True, capacityErr := Some e\<rparr>))) w
      else (st\<lparr>globalLimited := True, capacityErr := Some e, hedgeArmed := False\<rparr>, w))"

definition dial_failed :: "Rule \<Rightarrow> bool \<Rightarrow> string \<Rightarrow> goerr option \<Rightarrow> cached_state \<Rightarrow> cached_state" where
  "dial_failed rule isCached addr err st =
     (let st = (case err of
            Some e \<Rightarrow>
              if err_is e (ErrCtx Canceled) then st
              else
                let st = st\<lparr>dialErrors := dialErrors st @ [ErrWrap addr e]\<rparr>
                in if isCached
                   then (if IsConnectProtocol (Protocol rule) \<and> connectProxyErrorIsRouteNeutral e
                         then st\<lparr>primaryFailed := True, sawNeutralFailure := True\<rparr>
                         else st\<lparr>primaryFailed := True, sawCachedFailure := True\<rparr>)
                   else st
          | None \<Rightarrow> st)
      in if isCached \<and> \<not> globalLimited st then open_window st else st)"

definition cached_failed ::
  "'w race_env \<Rightarrow> Rule \<Rightarrow> string \<Rightarrow> raceDial \<Rightarrow> goerr option \<Rightarrow> cached_state \<Rightarrow> 'w \<Rightarrow> cached_state \<times> 'w" where
  "cached_failed env rule cachedAddr d err st w =
     (let isCached = (rdAddr d = cachedAddr)
      in case err of
           Some e \<Rightarrow>
             if err_is e ErrActiveHealthUnhealthy \<or> err_is e ErrCircuitOpen
             then continue_window env rule (route_refused isCached e st) w
             else if isDialBulkheadError e then capacity_refused env rule isCached d e st w
             else continue_window env rule (dial_failed rule isCached (rdAddr d) err st) w
         | None \<Rightarrow> continue_window env rule (dial_failed rule isCached (rdAddr d) err st) w)"

section \<open>The race\<close>

definition cached_failure :: "ctxErr option \<Rightarrow> cached_state \<Rightarrow> goerr" where
  "cached_failure ctxNow st = (case ctxNow of
       Some e \<Rightarrow> ErrCtx e
     | None \<Rightarrow> (case capacityErr st of
           Some e \<Rightarrow> if dialErrors st \<noteq> [] then ErrJoin (dialErrors st @ [e]) else e
         | None \<Rightarrow>
             if dialErrors st \<noteq> [] then ErrWrap ''cached boost targets failed'' (ErrJoin (dialErrors st))
             else if healthExcluded st then ErrWrap ''all cached boost alternatives unavailable'' ErrActiveHealthUnhealthy
             else ErrWrap ''all cached boost alternatives unavailable'' ErrCircuitOpen))"

definition cached_initial :: "Rule \<Rightarrow> string \<Rightarrow> u64 \<Rightarrow> bool \<Rightarrow> cached_state" where
  "cached_initial rule cachedAddr probe controlled =
     \<lparr>attempted = [cachedAddr], actualAttempts = 1, inFlight = [\<lparr>rdAddr = cachedAddr, rdTryOnly = False, rdDelayed = False\<rparr>],
      healthExcluded = False, maintenanceLimited = False, globalLimited = False, fallbackTryOnly = False, capacityErr = None, dialErrors = [],
      hedgingEnabled = False, delayedHedge = False, primaryFailed = False, hedgeArmed = (controlled \<or> Hedge rule \<noteq> None),
      hedgeScheduled = False, primaryStarted = False, delayedStarted = False, exclusiveProbe = (probe \<noteq> 0),
      sawCachedFailure = False, sawNeutralFailure = False, sawFallback = False\<rparr>"

text \<open>\<open>probe\<close> is the canary claimed for the cached target when it carries a protocol penalty, 0 if
  there is none; \<open>controlled\<close> tells whether the caller passes a hedge signal of its own.\<close>

definition cached_start :: "Rule \<Rightarrow> string \<Rightarrow> u64 \<Rightarrow> bool \<Rightarrow> ctxErr option \<Rightarrow> 'c cached_race" where
  "cached_start rule cachedAddr probe controlled ctxFirst =
     (let refuse = (\<lambda>e. \<lparr>cmode = Over (Inl e), cstate = (cached_initial rule cachedAddr probe controlled)\<lparr>inFlight := []\<rparr>, cclosed = []\<rparr>)
      in if Targets rule = [] then refuse (ErrText ''cached boost rule has no targets'')
         else if cachedAddr = '''' then refuse (ErrText ''cached boost target is empty'')
         else case ctxFirst of
           Some e \<Rightarrow> refuse (ErrCtx e)
         | None \<Rightarrow> \<lparr>cmode = Waiting, cstate = cached_initial rule cachedAddr probe controlled, cclosed = []\<rparr>)"

definition on_hedge :: "'w race_env \<Rightarrow> Rule \<Rightarrow> cached_state \<Rightarrow> 'w \<Rightarrow> cached_state \<times> 'w" where
  "on_hedge env rule st w =
     (if \<not> hedgeArmed st then (st, w)
      else if \<not> hedgeScheduled st then (st\<lparr>hedgeArmed := False\<rparr>, w)
      else alternatives env rule True True (st\<lparr>hedgingEnabled := True, delayedHedge := True, hedgeArmed := False\<rparr>) w)"

definition onPrimaryStart :: "Rule \<Rightarrow> bool \<Rightarrow> cached_state \<Rightarrow> cached_state" where
  "onPrimaryStart rule tooLate st =
     (if primaryStarted st then st
      else if Hedge rule = None \<or> exclusiveProbe st \<or> tooLate then st\<lparr>primaryStarted := True\<rparr>
      else st\<lparr>hedgeScheduled := True, primaryStarted := True\<rparr>)"

definition cached_arrived ::
  "'w race_env \<Rightarrow> Rule \<Rightarrow> string \<Rightarrow> nat \<Rightarrow> 'c option \<Rightarrow> goerr option \<Rightarrow> ctxErr option \<Rightarrow> 'c cached_race \<Rightarrow> 'w \<Rightarrow> 'c cached_race \<times> 'w" where
  "cached_arrived env rule cachedAddr k conn err ctxNow r w =
     (let st = cstate r in
      if \<not> k < length (inFlight st) then (r, w)
      else
        let d = inFlight st ! k; st = take_dial k st
        in case cmode r of
             Waiting \<Rightarrow>
               (case (conn, err) of
                  (Some c, None) \<Rightarrow>
                    (r\<lparr>cmode := (if inFlight st = [] then Over (Inr (c, rdAddr d)) else Winning c (rdAddr d)), cstate := st\<rparr>, w)
                | _ \<Rightarrow>
                    let (st, w) = cached_failed env rule cachedAddr d err st w
                    in (\<lparr>cmode = (if inFlight st = [] then Over (Inl (cached_failure ctxNow st)) else Waiting), cstate = st,
                         cclosed = cclosed r @ conn_list conn\<rparr>, w))
           | Winning c addr \<Rightarrow>
               (\<lparr>cmode = (if inFlight st = [] then Over (Inr (c, addr)) else Winning c addr), cstate = st, cclosed = cclosed r @ conn_list conn\<rparr>, w)
           | Losing e \<Rightarrow>
               (\<lparr>cmode = (if inFlight st = [] then Over (Inl e) else Losing e), cstate = st, cclosed = cclosed r @ conn_list conn\<rparr>, w)
           | Over out \<Rightarrow> (r, w))"

definition cached_step ::
  "'w race_env \<Rightarrow> Rule \<Rightarrow> string \<Rightarrow> 'c cached_event \<Rightarrow> 'c cached_race \<Rightarrow> 'w \<Rightarrow> 'c cached_race \<times> 'w" where
  "cached_step env rule cachedAddr ev r w =
     (case ev of
        Arrived k conn err ctxNow \<Rightarrow> cached_arrived env rule cachedAddr k conn err ctxNow r w
      | HedgeFired \<Rightarrow>
          (case cmode r of
             Waiting \<Rightarrow> let (st, w) = on_hedge env rule (cstate r) w in (r\<lparr>cstate := st\<rparr>, w)
           | _ \<Rightarrow> (r, w))
      | PrimaryStarted tooLate \<Rightarrow>
          (if cachedAddr \<in> rdAddr ` set (inFlight (cstate r)) then (r\<lparr>cstate := onPrimaryStart rule tooLate (cstate r)\<rparr>, w) else (r, w))
      | DelayedStarted \<Rightarrow>
          (if \<exists>d\<in>set (inFlight (cstate r)). rdDelayed d then (r\<lparr>cstate := (cstate r)\<lparr>delayedStarted := True\<rparr>\<rparr>, w) else (r, w))
      | Cancelled e \<Rightarrow> (case cmode r of Waiting \<Rightarrow> (r\<lparr>cmode := Losing (ErrCtx e)\<rparr>, w) | _ \<Rightarrow> (r, w)))"

definition cached_run ::
  "'w race_env \<Rightarrow> Rule \<Rightarrow> string \<Rightarrow> ('c cached_event \<times> 'w) list \<Rightarrow> 'c cached_race \<Rightarrow> 'c cached_race" where
  "cached_run env rule cachedAddr evs r = fold (\<lambda>(ev, w) r. fst (cached_step env rule cachedAddr ev r w)) evs r"

section \<open>The window\<close>

interpretation cachedr: candidate_source "cached_choose env rule" "addresses rule"
  by standard (unfold cached_choose_def, rule select_candidates_new)

lemma same_more:
  fixes u st :: cached_state
  assumes "race_state.more u = race_state.more st"
  shows "hedgingEnabled u = hedgingEnabled st" "delayedHedge u = delayedHedge st" "hedgeArmed u = hedgeArmed st"
    "hedgeScheduled u = hedgeScheduled st" "exclusiveProbe u = exclusiveProbe st" "primaryFailed u = primaryFailed st"
    "primaryStarted u = primaryStarted st"
  using assms by (cases u; cases st; simp)+

text \<open>What a call for alternatives adds: dials with the given delay flag, to new addresses.\<close>

definition added :: "Rule \<Rightarrow> bool \<Rightarrow> cached_state \<Rightarrow> cached_state \<Rightarrow> raceDial list \<Rightarrow> bool" where
  "added rule delayed st st' ls \<longleftrightarrow> inFlight st' = inFlight st @ ls \<and> distinct (map rdAddr ls)
     \<and> set (map rdAddr ls) \<inter> set (attempted st) = {} \<and> set (map rdAddr ls) \<subseteq> set (attempted st')
     \<and> set (attempted st) \<subseteq> set (attempted st') \<and> set (attempted st') \<subseteq> set (attempted st) \<union> addresses rule
     \<and> (distinct (attempted st) \<longrightarrow> distinct (attempted st')) \<and> length (attempted st) + length ls \<le> length (attempted st')
     \<and> (\<forall>d\<in>set ls. rdDelayed d = delayed) \<and> (globalLimited st \<longrightarrow> ls = []) \<and> globalLimited st' = globalLimited st
     \<and> hedgingEnabled st' = hedgingEnabled st \<and> delayedHedge st' = delayedHedge st \<and> hedgeArmed st' = hedgeArmed st
     \<and> hedgeScheduled st' = hedgeScheduled st \<and> exclusiveProbe st' = exclusiveProbe st \<and> primaryStarted st' = primaryStarted st \<and> primaryFailed st' = primaryFailed st"

definition sized :: "Rule \<Rightarrow> cached_state \<Rightarrow> bool" where
  "sized rule st \<longleftrightarrow> length (inFlight st) \<le> 2 \<and> actualAttempts st \<le> connectProxyTargetAttemptLimit rule"

lemma added_none: "added rule delayed st st []"
  by (simp add: added_def)

lemma alternatives_ok:
  assumes "alternatives env rule delayed immediate st w = (st', w')" "sized rule st"
  shows "\<exists>ls. added rule delayed st st' ls \<and> sized rule st'"
proof -
  let ?lim = "connectProxyTargetAttemptLimit rule" and ?cap = "2 - length (inFlight st)"
  let ?fill = "fill_loop env (cached_choose env rule) (\<lambda>c. protocolProbe c \<noteq> 0) (length (Targets rule)) ?lim ?cap immediate delayed st w"
  show ?thesis
  proof (cases "?cap = 0 \<or> globalLimited st \<or> actualAttempts st \<ge> ?lim")
    case True
    have "alternatives env rule delayed immediate st w = (st, w)"
      unfolding alternatives_def launchAlternatives_def if_P[OF True] by simp
    then show ?thesis using assms added_none by auto
  next
    case False
    obtain l u w1 where f: "?fill = (l, u, w1)" by (rule prod_cases3)
    have "alternatives env rule delayed immediate st w = (if l > 0 then u\<lparr>sawFallback := True\<rparr> else u, w1)"
      unfolding alternatives_def launchAlternatives_def if_not_P[OF False] Let_def f by simp
    then have s: "st' = (if l > 0 then u\<lparr>sawFallback := True\<rparr> else u)" using assms(1) by simp
    have "actualAttempts st \<le> ?lim" using assms(2) by (simp add: sized_def)
    from cachedr.fill_ok[OF f this] obtain ls where ls: "launched_ok (addresses rule) st u ls" "length ls \<le> ?cap"
      "actualAttempts u \<le> ?lim" "\<forall>d\<in>set ls. rdDelayed d = delayed" by blast
    have more: "race_state.more u = race_state.more st" using ls(1) by (simp only: launched_ok_def)
    have "added rule delayed st st' ls"
      using ls(1,4) same_more[OF more] False unfolding s added_def launched_ok_def by simp
    moreover have "length (inFlight st) + length ls \<le> 2" using ls(2) assms(2) unfolding sized_def by linarith
    moreover have "length (inFlight u) = length (inFlight st) + length ls" using ls(1) by (simp add: launched_ok_def)
    ultimately show ?thesis using ls(3) by (auto simp: sized_def s)
  qed
qed

section \<open>The invariant\<close>

definition reserve_of :: "cached_state \<Rightarrow> nat" where
  "reserve_of st = (if hedgeArmed st \<or> (\<exists>d\<in>set (inFlight st). rdDelayed d) then 1 else 0)"

definition potential :: "nat \<Rightarrow> cached_state \<Rightarrow> nat" where
  "potential n st = length (inFlight st) + (n - length (attempted st)) + reserve_of st"

definition window_ok :: "Rule \<Rightarrow> string \<Rightarrow> cached_state \<Rightarrow> bool" where
  "window_ok rule cachedAddr st \<longleftrightarrow> sized rule st \<and> distinct (map rdAddr (inFlight st)) \<and> distinct (attempted st)
     \<and> set (map rdAddr (inFlight st)) \<subseteq> set (attempted st) \<and> cachedAddr \<in> set (attempted st)
     \<and> set (attempted st) \<subseteq> insert cachedAddr (addresses rule)
     \<and> (hedgeScheduled st \<longrightarrow> \<not> exclusiveProbe st \<and> Hedge rule \<noteq> None)"

text \<open>While the race waits: at most one optional dial, and next to the cached dial only that.\<close>

definition waiting_ok :: "string \<Rightarrow> cached_state \<Rightarrow> bool" where
  "waiting_ok cachedAddr st \<longleftrightarrow>
     length (filter rdDelayed (inFlight st)) \<le> 1
     \<and> (\<forall>d\<in>set (inFlight st). rdAddr d = cachedAddr \<longrightarrow> \<not> rdDelayed d)
     \<and> (cachedAddr \<in> rdAddr ` set (inFlight st) \<longrightarrow> (\<forall>d\<in>set (inFlight st). rdAddr d \<noteq> cachedAddr \<longrightarrow> rdDelayed d))
     \<and> (hedgeArmed st \<longrightarrow> \<not> hedgingEnabled st \<and> \<not> delayedHedge st \<and> map rdAddr (inFlight st) = [cachedAddr])
     \<and> (\<not> hedgingEnabled st \<longrightarrow> set (map rdAddr (inFlight st)) \<subseteq> {cachedAddr})
     \<and> (delayedHedge st \<longrightarrow> globalLimited st \<or> cachedAddr \<in> rdAddr ` set (inFlight st))
     \<and> (globalLimited st \<longrightarrow> \<not> hedgeArmed st)
     \<and> (primaryFailed st \<longrightarrow> cachedAddr \<notin> rdAddr ` set (inFlight st))
     \<and> (hedgingEnabled st \<and> cachedAddr \<in> rdAddr ` set (inFlight st) \<longrightarrow> delayedHedge st)"

lemma waitingD:
  assumes "waiting_ok cachedAddr st"
  shows "length (filter rdDelayed (inFlight st)) \<le> 1"
    and "\<forall>d\<in>set (inFlight st). rdAddr d = cachedAddr \<longrightarrow> \<not> rdDelayed d"
    and "cachedAddr \<in> rdAddr ` set (inFlight st) \<longrightarrow> (\<forall>d\<in>set (inFlight st). rdAddr d \<noteq> cachedAddr \<longrightarrow> rdDelayed d)"
    and "hedgeArmed st \<longrightarrow> \<not> hedgingEnabled st \<and> \<not> delayedHedge st \<and> map rdAddr (inFlight st) = [cachedAddr]"
    and "\<not> hedgingEnabled st \<longrightarrow> set (map rdAddr (inFlight st)) \<subseteq> {cachedAddr}"
    and "delayedHedge st \<longrightarrow> globalLimited st \<or> cachedAddr \<in> rdAddr ` set (inFlight st)"
    and "globalLimited st \<longrightarrow> \<not> hedgeArmed st"
    and "primaryFailed st \<longrightarrow> cachedAddr \<notin> rdAddr ` set (inFlight st)"
    and "hedgingEnabled st \<and> cachedAddr \<in> rdAddr ` set (inFlight st) \<longrightarrow> delayedHedge st"
  using assms unfolding waiting_ok_def by - (elim conjE, assumption)+

abbreviation cached_known :: "Rule \<Rightarrow> string \<Rightarrow> nat" where
  "cached_known rule cachedAddr \<equiv> card (insert cachedAddr (addresses rule))"

lemma attempted_fits: "window_ok rule cachedAddr st \<Longrightarrow> length (attempted st) \<le> cached_known rule cachedAddr"
  unfolding window_ok_def
  by (metis card_mono distinct_card finite_imageI finite_insert finite_somes)

lemma added_window:
  assumes "window_ok rule cachedAddr u" "added rule delayed u st' ls" "sized rule st'"
  shows "window_ok rule cachedAddr st'"
proof -
  have w: "distinct (map rdAddr (inFlight u))" "distinct (attempted u)" "set (map rdAddr (inFlight u)) \<subseteq> set (attempted u)"
    "cachedAddr \<in> set (attempted u)" "set (attempted u) \<subseteq> insert cachedAddr (addresses rule)"
    "hedgeScheduled u \<longrightarrow> \<not> exclusiveProbe u \<and> Hedge rule \<noteq> None"
    using assms(1) unfolding window_ok_def by - (elim conjE, assumption)+
  have a: "inFlight st' = inFlight u @ ls" "distinct (map rdAddr ls)" "set (map rdAddr ls) \<inter> set (attempted u) = {}"
    "set (map rdAddr ls) \<subseteq> set (attempted st')" "set (attempted u) \<subseteq> set (attempted st')"
    "set (attempted st') \<subseteq> set (attempted u) \<union> addresses rule" "distinct (attempted u) \<longrightarrow> distinct (attempted st')"
    "hedgeScheduled st' = hedgeScheduled u" "exclusiveProbe st' = exclusiveProbe u"
    using assms(2) unfolding added_def by - (elim conjE, assumption)+
  have m: "map rdAddr (inFlight st') = map rdAddr (inFlight u) @ map rdAddr ls" by (simp add: a(1))
  have "distinct (map rdAddr (inFlight st'))" unfolding m distinct_append using w(1,3) a(2,3) by blast
  moreover have "set (map rdAddr (inFlight st')) \<subseteq> set (attempted st')"
    unfolding m set_append by (rule Un_least[OF order_trans[OF w(3) a(5)] a(4)])
  moreover have "set (attempted st') \<subseteq> insert cachedAddr (addresses rule)" using a(6) w(5) by blast
  ultimately show ?thesis using assms(3) w a by (simp only: window_ok_def simp_thms) blast
qed

lemma added_potential:
  assumes "window_ok rule cachedAddr u" "added rule delayed u st' ls" "sized rule st'"
  shows "potential (cached_known rule cachedAddr) st' + reserve_of u \<le> potential (cached_known rule cachedAddr) u + reserve_of st'"
proof -
  have "length (attempted st') \<le> cached_known rule cachedAddr" by (rule attempted_fits[OF added_window[OF assms]])
  moreover have "length (attempted u) + length ls \<le> length (attempted st')" "inFlight st' = inFlight u @ ls"
    using assms(2) unfolding added_def by - (elim conjE, assumption)+
  ultimately show ?thesis unfolding potential_def by simp
qed

text \<open>Alternatives the race needs, once the cached dial is out of the window.\<close>

lemma needed_ok:
  assumes "alternatives env rule False immediate u w = (st', w')" "window_ok rule cachedAddr u" "waiting_ok cachedAddr u"
    and "hedgingEnabled u" "\<not> delayedHedge u" "\<not> hedgeArmed u" "cachedAddr \<notin> rdAddr ` set (inFlight u)"
  shows "window_ok rule cachedAddr st' \<and> waiting_ok cachedAddr st'
    \<and> potential (cached_known rule cachedAddr) st' \<le> potential (cached_known rule cachedAddr) u \<and> hedgingEnabled st'
    \<and> primaryStarted st' = primaryStarted u \<and> hedgeScheduled st' = hedgeScheduled u"
proof -
  have "sized rule u" using assms(2) by (simp add: window_ok_def)
  from alternatives_ok[OF assms(1) this] obtain ls where ls: "added rule False u st' ls" "sized rule st'" by blast
  have a: "inFlight st' = inFlight u @ ls" "\<forall>d\<in>set ls. rdDelayed d = False" "set (map rdAddr ls) \<inter> set (attempted u) = {}"
    "hedgingEnabled st' = hedgingEnabled u" "delayedHedge st' = delayedHedge u" "hedgeArmed st' = hedgeArmed u"
    "primaryStarted st' = primaryStarted u" "hedgeScheduled st' = hedgeScheduled u"
    using ls(1) unfolding added_def by - (elim conjE, assumption)+
  have c: "cachedAddr \<notin> rdAddr ` set (inFlight st')"
    using assms(2,7) a(1,3) by (auto simp: window_ok_def)
  have f: "filter rdDelayed ls = []" using a(2) by simp
  have "reserve_of st' = reserve_of u" using a(1,2,6) by (auto simp: reserve_of_def)
  moreover have "waiting_ok cachedAddr st'"
    using assms(3-6) c f a unfolding waiting_ok_def by (simp add: image_iff) metis
  ultimately show ?thesis using added_window[OF assms(2) ls] added_potential[OF assms(2) ls] a assms(4) by simp
qed

text \<open>The optional alternative of a cached dial that is still in flight.\<close>

lemma optional_ok:
  assumes "alternatives env rule True immediate u w = (st', w')" "window_ok rule cachedAddr u" "\<not> primaryFailed u"
    and "hedgingEnabled u" "delayedHedge u" "\<not> hedgeArmed u" "inFlight u = [d]" "rdAddr d = cachedAddr" "\<not> rdDelayed d"
  shows "window_ok rule cachedAddr st' \<and> waiting_ok cachedAddr st'
    \<and> potential (cached_known rule cachedAddr) st' \<le> potential (cached_known rule cachedAddr) u + 1 \<and> hedgingEnabled st'
    \<and> primaryStarted st' = primaryStarted u \<and> hedgeScheduled st' = hedgeScheduled u"
proof -
  have "sized rule u" using assms(2) by (simp add: window_ok_def)
  from alternatives_ok[OF assms(1) this] obtain ls where ls: "added rule True u st' ls" "sized rule st'" by blast
  have a: "inFlight st' = inFlight u @ ls" "\<forall>d\<in>set ls. rdDelayed d = True" "set (map rdAddr ls) \<inter> set (attempted u) = {}"
    "hedgingEnabled st' = hedgingEnabled u" "delayedHedge st' = delayedHedge u" "hedgeArmed st' = hedgeArmed u"
    "primaryStarted st' = primaryStarted u" "hedgeScheduled st' = hedgeScheduled u" "primaryFailed st' = primaryFailed u"
    using ls(1) unfolding added_def by - (elim conjE, assumption)+
  have len: "length ls \<le> 1" using ls(2) a(1) assms(7) by (simp add: sized_def)
  have c: "cachedAddr \<notin> rdAddr ` set ls" using assms(2) a(3) by (auto simp: window_ok_def)
  have f: "filter rdDelayed ls = ls" using a(2) by (simp add: filter_id_conv)
  have "reserve_of u = 0" "reserve_of st' \<le> 1" using assms(6,7,9) by (simp_all add: reserve_of_def)
  moreover have "waiting_ok cachedAddr st'"
    unfolding waiting_ok_def using assms(3-9) len c f a(2) by (auto simp: a(1,4-9) image_iff)
  ultimately show ?thesis using added_window[OF assms(2) ls] added_potential[OF assms(2) ls] a assms(4) by simp
qed

lemma alternatives_limited: "globalLimited st \<Longrightarrow> alternatives env rule delayed immediate st w = (st, w)"
  by (simp add: alternatives_def launchAlternatives_def)

section \<open>A result while the race waits\<close>

text \<open>\<open>good n st\<close>: the invariant of a waiting race and a bound on the results it can still receive.\<close>

definition good :: "Rule \<Rightarrow> string \<Rightarrow> nat \<Rightarrow> cached_state \<Rightarrow> bool" where
  "good rule cachedAddr n st \<longleftrightarrow> window_ok rule cachedAddr st \<and> waiting_ok cachedAddr st \<and> potential (cached_known rule cachedAddr) st \<le> n"

definition taken_from :: "cached_state \<Rightarrow> raceDial \<Rightarrow> cached_state \<Rightarrow> bool" where
  "taken_from st d u \<longleftrightarrow> (\<exists>pre post. inFlight st = pre @ d # post \<and> inFlight u = pre @ post)
     \<and> attempted u = attempted st \<and> actualAttempts u \<le> actualAttempts st
     \<and> hedgeScheduled u = hedgeScheduled st \<and> exclusiveProbe u = exclusiveProbe st"

lemma taken_window:
  assumes "window_ok rule cachedAddr st" "taken_from st d u"
  shows "window_ok rule cachedAddr u"
  using assms unfolding window_ok_def taken_from_def sized_def by (elim conjE exE) (intro conjI; auto)

lemma taken_other:
  assumes "window_ok rule cachedAddr st" "taken_from st d u" "e \<in> set (inFlight u)"
  shows "rdAddr e \<noteq> rdAddr d"
proof -
  obtain pre post where p: "inFlight st = pre @ d # post" "inFlight u = pre @ post" using assms(2) by (auto simp: taken_from_def)
  have "distinct (map rdAddr (pre @ d # post))" using assms(1) p by (simp add: window_ok_def)
  then have "rdAddr d \<notin> rdAddr ` set (pre @ post)" by auto
  then show ?thesis using assms(3) p by (metis image_eqI)
qed

lemma taken_potential:
  assumes "taken_from st d u" "reserve_of u \<le> reserve_of st"
  shows "potential n u + 1 \<le> potential n st"
  using assms unfolding taken_from_def potential_def by auto

lemma reserve_le: "reserve_of st \<le> 1"
  by (simp add: reserve_of_def)

text \<open>The cached dial is out: what remains of the window counts as optional at most once.\<close>

lemma cached_out:
  assumes "good rule cachedAddr (Suc n) st" "taken_from st d u" "rdAddr d = cachedAddr \<or> \<not> rdDelayed d"
    and "hedgingEnabled u" "\<not> delayedHedge u" "\<not> hedgeArmed u"
  shows "good rule cachedAddr n u \<and> cachedAddr \<notin> rdAddr ` set (inFlight u)"
proof -
  have w: "window_ok rule cachedAddr st" "waiting_ok cachedAddr st" "potential (cached_known rule cachedAddr) st \<le> Suc n"
    using assms(1) by (simp_all add: good_def)
  have dis: "d \<in> set (inFlight st)" "set (inFlight u) \<subseteq> set (inFlight st)" using assms(2) by (auto simp: taken_from_def)
  have c: "cachedAddr \<notin> rdAddr ` set (inFlight u)"
  proof
    assume "cachedAddr \<in> rdAddr ` set (inFlight u)"
    then obtain e where e: "e \<in> set (inFlight u)" "rdAddr e = cachedAddr" by auto
    then have "rdAddr d \<noteq> cachedAddr" using taken_other[OF w(1) assms(2)] by metis
    moreover have "cachedAddr \<in> rdAddr ` set (inFlight st)" using e dis(2) by auto
    ultimately show False using waitingD(3)[OF w(2)] dis(1) assms(3) by blast
  qed
  have r: "reserve_of u \<le> reserve_of st" using dis(2) assms(6) by (auto simp: reserve_of_def)
  have f: "length (filter rdDelayed (inFlight u)) \<le> length (filter rdDelayed (inFlight st))"
    using assms(2) by (auto simp: taken_from_def)
  have "waiting_ok cachedAddr u"
    using w(2) f c dis(2) assms(4-6) unfolding waiting_ok_def by auto
  then show ?thesis using taken_window[OF w(1) assms(2)] taken_potential[OF assms(2) r, of "cached_known rule cachedAddr"] w(3) c
    by (simp add: good_def)
qed

lemma others_unarmed:
  "waiting_ok cachedAddr st \<Longrightarrow> d \<in> set (inFlight st) \<Longrightarrow> rdAddr d \<noteq> cachedAddr \<Longrightarrow> \<not> hedgeArmed st \<and> hedgingEnabled st"
  unfolding waiting_ok_def by (metis image_eqI list.set_map singletonD subsetD list.set(1,2))

text \<open>A result after which nothing is started.\<close>

lemma window_rests:
  assumes "good rule cachedAddr (Suc n) st" "taken_from st d u" "hedgingEnabled u = hedgingEnabled st" "delayedHedge u = delayedHedge st"
    and "\<not> hedgeArmed u" "rdAddr d = cachedAddr \<longrightarrow> globalLimited u" "globalLimited st \<longrightarrow> globalLimited u"
    and "primaryFailed u \<longrightarrow> primaryFailed st \<or> rdAddr d = cachedAddr"
  shows "good rule cachedAddr n u"
proof -
  have w: "window_ok rule cachedAddr st" "waiting_ok cachedAddr st" "potential (cached_known rule cachedAddr) st \<le> Suc n"
    using assms(1) by (simp_all add: good_def)
  have sub: "set (inFlight u) \<subseteq> set (inFlight st)" using assms(2) by (auto simp: taken_from_def)
  have r: "reserve_of u \<le> reserve_of st" using sub assms(5) by (auto simp: reserve_of_def)
  have f: "length (filter rdDelayed (inFlight u)) \<le> length (filter rdDelayed (inFlight st))"
    using assms(2) by (auto simp: taken_from_def)
  have c: "cachedAddr \<in> rdAddr ` set (inFlight u) \<Longrightarrow> cachedAddr \<in> rdAddr ` set (inFlight st) \<and> rdAddr d \<noteq> cachedAddr"
  proof -
    assume "cachedAddr \<in> rdAddr ` set (inFlight u)"
    then obtain e where "e \<in> set (inFlight u)" "rdAddr e = cachedAddr" by auto
    then show ?thesis using taken_other[OF w(1) assms(2), of e] sub by (metis image_eqI subsetD)
  qed
  have c2: "cachedAddr \<in> rdAddr ` set (inFlight st) \<Longrightarrow> rdAddr d \<noteq> cachedAddr \<Longrightarrow> cachedAddr \<in> rdAddr ` set (inFlight u)"
    using assms(2) by (auto simp: taken_from_def)
  have "waiting_ok cachedAddr u" unfolding waiting_ok_def
  proof (intro conjI)
    show "length (filter rdDelayed (inFlight u)) \<le> 1" using w(2) f by (simp add: waiting_ok_def)
    show "\<forall>d\<in>set (inFlight u). rdAddr d = cachedAddr \<longrightarrow> \<not> rdDelayed d" using w(2) sub by (auto simp: waiting_ok_def)
    show "cachedAddr \<in> rdAddr ` set (inFlight u) \<longrightarrow> (\<forall>d\<in>set (inFlight u). rdAddr d \<noteq> cachedAddr \<longrightarrow> rdDelayed d)"
    proof (intro impI ballI)
      fix e
      assume e: "cachedAddr \<in> rdAddr ` set (inFlight u)" "e \<in> set (inFlight u)" "rdAddr e \<noteq> cachedAddr"
      show "rdDelayed e" by (rule waitingD(3)[OF w(2), rule_format, OF conjunct1[OF c[OF e(1)]] subsetD[OF sub e(2)] e(3)])
    qed
    show "\<not> hedgingEnabled u \<longrightarrow> set (map rdAddr (inFlight u)) \<subseteq> {cachedAddr}"
      unfolding assms(3) using waitingD(5)[OF w(2)] image_mono[OF sub, of rdAddr] by (metis list.set_map order_trans)
    show "delayedHedge u \<longrightarrow> globalLimited u \<or> cachedAddr \<in> rdAddr ` set (inFlight u)"
      using waitingD(6)[OF w(2)] c2 assms(4,6,7) by blast
    show "primaryFailed u \<longrightarrow> cachedAddr \<notin> rdAddr ` set (inFlight u)" using waitingD(8)[OF w(2)] c assms(8) by blast
    show "hedgingEnabled u \<and> cachedAddr \<in> rdAddr ` set (inFlight u) \<longrightarrow> delayedHedge u"
      using waitingD(9)[OF w(2)] c assms(3,4) by blast
  qed (use assms(5) in simp_all)
  then show ?thesis using taken_window[OF w(1) assms(2)] taken_potential[OF assms(2) r, of "cached_known rule cachedAddr"] w(3)
    by (simp add: good_def)
qed

text \<open>A result other than the cached one, and the cached dial is still in flight: the result was the
  optional dial's.\<close>

lemma beside_cached:
  assumes "good rule cachedAddr (Suc n) st" "taken_from st d u" "rdAddr d \<noteq> cachedAddr" "cachedAddr \<in> rdAddr ` set (inFlight u)"
    and "hedgeArmed u = hedgeArmed st"
  shows "\<exists>c. inFlight u = [c] \<and> rdAddr c = cachedAddr \<and> \<not> rdDelayed c \<and> rdDelayed d \<and> \<not> hedgeArmed st \<and> hedgingEnabled st \<and> delayedHedge st
    \<and> \<not> primaryFailed st \<and> potential (cached_known rule cachedAddr) u + 1 \<le> n"
proof -
  have w: "window_ok rule cachedAddr st" "waiting_ok cachedAddr st" "potential (cached_known rule cachedAddr) st \<le> Suc n"
    using assms(1) by (simp_all add: good_def)
  obtain pre post where p: "inFlight st = pre @ d # post" "inFlight u = pre @ post" using assms(2) by (auto simp: taken_from_def)
  have d: "d \<in> set (inFlight st)" and c: "cachedAddr \<in> rdAddr ` set (inFlight st)" using p assms(4) by auto
  have "length (inFlight u) \<le> 1" using w(1) p by (simp add: window_ok_def sized_def)
  then obtain c where e: "inFlight u = [c]" "rdAddr c = cachedAddr" using assms(4) by (cases "inFlight u") auto
  have a: "\<not> hedgeArmed st" "hedgingEnabled st" using others_unarmed[OF w(2) d assms(3)] by simp_all
  have f: "rdDelayed d" "\<not> rdDelayed c" "delayedHedge st" "\<not> primaryFailed st"
  proof -
    have inn: "c \<in> set (inFlight st)" using e(1) p by (auto simp: append_eq_Cons_conv)
    note q = waitingD[OF w(2)]
    show "rdDelayed d" using q(3) d c assms(3) by blast
    show "\<not> rdDelayed c" using q(2) inn e(2) by blast
    show "delayedHedge st" using q(9) a(2) c by blast
    show "\<not> primaryFailed st" using q(8) c by blast
  qed
  have "reserve_of st = 1" "reserve_of u = 0" using d f e a assms(5) by (auto simp: reserve_of_def)
  moreover have "attempted u = attempted st" using assms(2) by (simp add: taken_from_def)
  ultimately have "potential (cached_known rule cachedAddr) u + 1 \<le> n" using w(3) p unfolding potential_def by simp
  then show ?thesis using e f a by blast
qed

lemma goodD:
  assumes "good rule cachedAddr n st"
  shows "window_ok rule cachedAddr st" "waiting_ok cachedAddr st" "potential (cached_known rule cachedAddr) st \<le> n"
  using assms by (simp_all add: good_def)

lemma needed_good:
  assumes "alternatives env rule False immediate u w = (st', w')" "good rule cachedAddr n u \<and> cachedAddr \<notin> rdAddr ` set (inFlight u)"
    and "hedgingEnabled u" "\<not> delayedHedge u" "\<not> hedgeArmed u"
  shows "good rule cachedAddr n st'"
  using needed_ok[OF assms(1)] assms(2-5) goodD[of rule cachedAddr n u] unfolding good_def by fastforce

text \<open>The window is filled after a result that changed nothing but the errors seen.\<close>

lemma continue_ok:
  assumes "good rule cachedAddr (Suc n) st" "taken_from st d u" "hedgingEnabled u = hedgingEnabled st" "delayedHedge u = delayedHedge st"
    and "hedgeArmed u = hedgeArmed st" "globalLimited u = globalLimited st"
    and "rdAddr d = cachedAddr \<longrightarrow> globalLimited u" "primaryFailed u \<longrightarrow> primaryFailed st \<or> rdAddr d = cachedAddr"
    and "continue_window env rule u w = (st', w')"
  shows "good rule cachedAddr n st'"
proof -
  note w = goodD[OF assms(1)]
  have din: "d \<in> set (inFlight st)" using assms(2) by (auto simp: taken_from_def)
  have ar: "\<not> hedgeArmed u"
  proof (cases "rdAddr d = cachedAddr")
    case True
    then have "globalLimited st" using assms(6,7) by simp
    then show ?thesis using waitingD(7)[OF w(2)] assms(5) by simp
  next
    case False
    then show ?thesis using others_unarmed[OF w(2) din] assms(5) by simp
  qed
  have rest: "good rule cachedAddr n u"
    by (rule window_rests[OF assms(1-4) ar assms(7) _ assms(8)]) (simp add: assms(6))
  show ?thesis
  proof (cases "hedgingEnabled u \<and> \<not> globalLimited u")
    case False
    then show ?thesis using rest assms(9) by (simp add: continue_window_def split: if_splits)
  next
    case True
    then have other: "rdAddr d \<noteq> cachedAddr" using assms(7) by blast
    have al: "alternatives env rule (delayedHedge u) (delayedHedge u \<or> fallbackTryOnly u) u w = (st', w')"
      using assms(9) unfolding continue_window_def if_P[OF True] .
    show ?thesis
    proof (cases "cachedAddr \<in> rdAddr ` set (inFlight u)")
      case False
      have "\<not> delayedHedge u" using waitingD(6)[OF goodD(2)[OF rest]] False True by blast
      then have "alternatives env rule False (delayedHedge u \<or> fallbackTryOnly u) u w = (st', w')" using al by simp
      from needed_good[OF this conjI[OF rest False]] show ?thesis using True ar \<open>\<not> delayedHedge u\<close> by blast
    next
      case c: True
      from beside_cached[OF assms(1,2) other c assms(5)] obtain c where
        c: "inFlight u = [c]" "rdAddr c = cachedAddr" "\<not> rdDelayed c" "delayedHedge st" "\<not> primaryFailed st"
        "potential (cached_known rule cachedAddr) u + 1 \<le> n" by blast
      have dh: "delayedHedge u" by (rule iffD2[OF assms(4) c(4)])
      have "alternatives env rule True (delayedHedge u \<or> fallbackTryOnly u) u w = (st', w')" using al dh by simp
      moreover have "\<not> primaryFailed u" using assms(8) c(5) other by blast
      ultimately show ?thesis
        using optional_ok[OF _ goodD(1)[OF rest] _ _ dh ar c(1-3)] True c(6) unfolding good_def by fastforce
    qed
  qed
qed

lemma taken_take_dial: "k < length (inFlight st) \<Longrightarrow> taken_from st (inFlight st ! k) (take_dial k st)"
proof -
  assume "k < length (inFlight st)"
  then have "inFlight st = take k (inFlight st) @ inFlight st ! k # drop (Suc k) (inFlight st)" by (rule id_take_nth_drop)
  moreover have "inFlight (take_dial k st) = take k (inFlight st) @ drop (Suc k) (inFlight st)" by (simp add: take_dial_def)
  ultimately show ?thesis unfolding taken_from_def by (intro conjI; (blast | simp add: take_dial_def))
qed

lemma taken_from_same:
  "taken_from st d v \<Longrightarrow> inFlight u = inFlight v \<Longrightarrow> attempted u = attempted v \<Longrightarrow> actualAttempts u \<le> actualAttempts v \<Longrightarrow>
   hedgeScheduled u = hedgeScheduled v \<Longrightarrow> exclusiveProbe u = exclusiveProbe v \<Longrightarrow> taken_from st d u"
  unfolding taken_from_def by auto

lemma opened_ok:
  assumes "good rule cachedAddr (Suc n) st" "taken_from st d v" "rdAddr d = cachedAddr \<or> \<not> rdDelayed d"
    and "alternatives env rule False immediate (open_window v) w = (st', w')"
  shows "good rule cachedAddr n st'"
proof -
  have "taken_from st d (open_window v)" by (rule taken_from_same[OF assms(2)]) (simp_all add: open_window_def)
  from needed_good[OF assms(4) cached_out[OF assms(1) this assms(3)]] show ?thesis by (simp add: open_window_def)
qed

text \<open>An optional dial that found no capacity: its address may be tried again.\<close>

lemma optional_out:
  assumes "good rule cachedAddr (Suc n) st" "taken_from st d u0" "rdAddr d \<noteq> cachedAddr" "rdDelayed d"
    and "u = give_back (u0\<lparr>attempted := removeAll (rdAddr d) (attempted u0)\<rparr>)"
    and "hedgingEnabled u0 = hedgingEnabled st" "delayedHedge u0 = delayedHedge st" "hedgeArmed u0 = hedgeArmed st"
    "globalLimited u0 = globalLimited st" "primaryFailed u0 = primaryFailed st"
  shows "good rule cachedAddr n u"
proof -
  note w = goodD[OF assms(1)]
  obtain pre post where p: "inFlight st = pre @ d # post" "inFlight u0 = pre @ post" using assms(2) by (auto simp: taken_from_def)
  have din: "d \<in> set (inFlight st)" using p by simp
  have a: "\<not> hedgeArmed st" using others_unarmed[OF w(2) din assms(3)] by simp
  have au: "attempted u0 = attempted st" using assms(2) by (simp add: taken_from_def)
  have f: "filter rdDelayed pre = []" "filter rdDelayed post = []" using waitingD(1)[OF w(2)] assms(4) by (simp_all add: p(1))
  have ar: "\<not> hedgeArmed u0" using a by (rule contrapos_nn) (rule iffD1[OF assms(8)])
  have rest: "good rule cachedAddr n u0"
    by (rule window_rests[OF assms(1,2,6,7) ar]) (use assms(3,9,10) in simp_all)
  have same: "inFlight u = inFlight u0" "hedgingEnabled u = hedgingEnabled u0" "delayedHedge u = delayedHedge u0" "hedgeArmed u = hedgeArmed u0"
    "globalLimited u = globalLimited u0" "primaryFailed u = primaryFailed u0" "hedgeScheduled u = hedgeScheduled u0" "exclusiveProbe u = exclusiveProbe u0"
    "attempted u = removeAll (rdAddr d) (attempted st)" "actualAttempts u \<le> actualAttempts u0"
    by (simp_all add: assms(5) give_back_def au)
  have wait: "waiting_ok cachedAddr u" using goodD(2)[OF rest] unfolding waiting_ok_def same .
  have inn: "rdAddr d \<in> set (attempted st)" "distinct (attempted st)" using w(1) din by (auto simp: window_ok_def)
  have other: "rdAddr d \<notin> set (map rdAddr (inFlight u0))"
  proof
    assume "rdAddr d \<in> set (map rdAddr (inFlight u0))"
    then obtain e where "e \<in> set (inFlight u0)" "rdAddr e = rdAddr d" by auto
    then show False using taken_other[OF w(1) assms(2), of e] by blast
  qed
  have win: "window_ok rule cachedAddr u"
  proof -
    note q = goodD(1)[OF rest, unfolded window_ok_def sized_def au]
    have "set (map rdAddr (inFlight u0)) \<subseteq> set (removeAll (rdAddr d) (attempted st))" using q other by (auto simp del: set_map)
    moreover have "cachedAddr \<in> set (removeAll (rdAddr d) (attempted st))" using q assms(3) by auto
    moreover have "set (removeAll (rdAddr d) (attempted st)) \<subseteq> insert cachedAddr (addresses rule)" using q by auto
    moreover have "actualAttempts u \<le> connectProxyTargetAttemptLimit rule" using q same(10) by linarith
    moreover have "length (inFlight u0) \<le> 2" "distinct (map rdAddr (inFlight u0))" "distinct (removeAll (rdAddr d) (attempted st))"
      "hedgeScheduled u0 \<longrightarrow> \<not> exclusiveProbe u0 \<and> Hedge rule \<noteq> None" using q by (simp_all add: distinct_removeAll)
    ultimately show ?thesis unfolding window_ok_def sized_def same(1-9) by - (intro conjI; assumption)
  qed
  have len: "length (attempted u) + 1 = length (attempted st)" using inn
    by (simp add: same distinct_remove1_removeAll[symmetric] length_remove1 Suc_pred[OF length_pos_if_in_set])
  have "length (attempted st) \<le> cached_known rule cachedAddr" by (rule attempted_fits[OF w(1)])
  moreover have "reserve_of st = 1" "reserve_of u = 0" using din assms(4) ar f by (auto simp: reserve_of_def same p(2) filter_empty_conv)
  moreover have "length (inFlight u) + 1 = length (inFlight st)" by (simp add: same(1) p)
  ultimately have "potential (cached_known rule cachedAddr) u + 1 \<le> potential (cached_known rule cachedAddr) st"
    unfolding potential_def using len by linarith
  then show ?thesis using win wait w(3) by (simp add: good_def)
qed

lemma route_refused_open: "route_refused True e u =
    open_window ((give_back (if err_is e ErrActiveHealthUnhealthy then u\<lparr>healthExcluded := True\<rparr> else u))\<lparr>primaryFailed := True, sawCachedFailure := True\<rparr>)"
  by (simp add: route_refused_def)

lemma continue_open: "continue_window env rule (open_window v) w
    = (if \<not> globalLimited v then alternatives env rule False (fallbackTryOnly v) (open_window v) w else (open_window v, w))"
  by (simp add: continue_window_def open_window_def)

lemma opened_continue:
  assumes "good rule cachedAddr (Suc n) st" "taken_from st d v" "rdAddr d = cachedAddr"
    and "continue_window env rule (open_window v) w = (st', w')"
  shows "good rule cachedAddr n st'"
proof (cases "globalLimited v")
  case True
  have "taken_from st d (open_window v)" by (rule taken_from_same[OF assms(2)]) (simp_all add: open_window_def)
  from cached_out[OF assms(1) this disjI1[OF assms(3)]] have "good rule cachedAddr n (open_window v)" by (simp add: open_window_def)
  then show ?thesis using assms(4) True by (simp add: continue_open)
next
  case False
  then have "alternatives env rule False (fallbackTryOnly v) (open_window v) w = (st', w')" using assms(4) by (simp add: continue_open)
  from opened_ok[OF assms(1,2) disjI1[OF assms(3)] this] show ?thesis .
qed

lemma cached_failed_ok:
  assumes "good rule cachedAddr (Suc n) st" "taken_from st d u" "cached_failed env rule cachedAddr d err u w = (st', w')"
    and same: "hedgingEnabled u = hedgingEnabled st" "delayedHedge u = delayedHedge st" "hedgeArmed u = hedgeArmed st"
      "globalLimited u = globalLimited st" "primaryFailed u = primaryFailed st"
  shows "good rule cachedAddr n st'"
proof -
  have din: "d \<in> set (inFlight st)" using assms(2) by (auto simp: taken_from_def)
  note w = goodD[OF assms(1)]
  have quiet: "good rule cachedAddr n st'"
    if "continue_window env rule v w = (st', w')" "taken_from st d v" "hedgingEnabled v = hedgingEnabled u" "delayedHedge v = delayedHedge u"
      "hedgeArmed v = hedgeArmed u" "globalLimited v = globalLimited u" "rdAddr d = cachedAddr \<longrightarrow> globalLimited v"
      "primaryFailed v \<longrightarrow> primaryFailed u \<or> rdAddr d = cachedAddr" for v
    using continue_ok[OF assms(1) that(2) trans[OF that(3) same(1)] trans[OF that(4) same(2)] trans[OF that(5) same(3)]
        trans[OF that(6) same(4)] that(7) _ that(1)] that(8) same(5) by blast
  have plain: "good rule cachedAddr n st'" if c: "continue_window env rule (dial_failed rule (rdAddr d = cachedAddr) (rdAddr d) err u) w = (st', w')"
  proof (cases "rdAddr d = cachedAddr \<and> \<not> globalLimited u")
    case True
    let ?v = "dial_failed rule True (rdAddr d) err u"
    obtain v where v: "?v = open_window v" "taken_from st d v"
    proof -
      show ?thesis using True assms(2) by (intro that[of "dial_failed rule True (rdAddr d) err (u\<lparr>globalLimited := True\<rparr>)\<lparr>globalLimited := False\<rparr>"])
        (auto simp: dial_failed_def open_window_def Let_def taken_from_def split: option.splits)
    qed
    show ?thesis using opened_continue[OF assms(1) v(2)] c True v(1) by simp
  next
    case False
    show ?thesis
      by (rule quiet[OF c]) (use False assms(2) in \<open>auto simp: dial_failed_def Let_def taken_from_def split: option.splits if_splits\<close>)
  qed
  show ?thesis
  proof (cases err)
    case None
    then show ?thesis using assms(3) plain by (simp add: cached_failed_def Let_def)
  next
    case (Some e)
    consider (route) "err_is e ErrActiveHealthUnhealthy \<or> err_is e ErrCircuitOpen"
      | (capacity) "\<not> (err_is e ErrActiveHealthUnhealthy \<or> err_is e ErrCircuitOpen)" "isDialBulkheadError e"
      | (other) "\<not> (err_is e ErrActiveHealthUnhealthy \<or> err_is e ErrCircuitOpen)" "\<not> isDialBulkheadError e" by blast
    then show ?thesis
    proof cases
      case other
      then show ?thesis using assms(3) Some plain by (simp add: cached_failed_def Let_def)
    next
      case route
      then have c: "continue_window env rule (route_refused (rdAddr d = cachedAddr) e u) w = (st', w')"
        using assms(3) by (simp add: cached_failed_def Some Let_def)
      show ?thesis
      proof (cases "rdAddr d = cachedAddr")
        case True
        have "taken_from st d ((give_back (if err_is e ErrActiveHealthUnhealthy then u\<lparr>healthExcluded := True\<rparr> else u))\<lparr>primaryFailed := True, sawCachedFailure := True\<rparr>)"
          by (rule taken_from_same[OF assms(2)]) (simp_all add: give_back_def)
        from opened_continue[OF assms(1) this True] show ?thesis using c True by (simp add: route_refused_open)
      next
        case False
        show ?thesis
          by (rule quiet[OF c]) (use False assms(2) in \<open>auto simp: route_refused_def Let_def give_back_def taken_from_def\<close>)
      qed
    next
      case capacity
      then have c: "capacity_refused env rule (rdAddr d = cachedAddr) d e u w = (st', w')"
        using assms(3) by (simp add: cached_failed_def Some Let_def)
      show ?thesis
      proof (cases "rdDelayed d \<and> rdAddr d \<noteq> cachedAddr")
        case True
        define v where "v = give_back (u\<lparr>attempted := removeAll (rdAddr d) (attempted u)\<rparr>)"
        have g: "good rule cachedAddr n v" by (rule optional_out[OF assms(1,2) _ _ v_def same]) (use True in simp_all)
        have c: "(if primaryFailed v then alternatives env rule False (fallbackTryOnly v) (v\<lparr>delayedHedge := False\<rparr>) w else (v, w)) = (st', w')"
        proof -
          have "capacity_refused env rule (rdAddr d = cachedAddr) d e u w
              = (if primaryFailed v then alternatives env rule False (fallbackTryOnly v) (v\<lparr>delayedHedge := False\<rparr>) w else (v, w))"
            using True by (simp only: capacity_refused_def v_def Let_def if_True simp_thms)
          then show ?thesis using c by (simp only:)
        qed
        show ?thesis
        proof (cases "primaryFailed v")
          case False
          then show ?thesis using c g by simp
        next
          case pf: True
          have a: "\<not> hedgeArmed st" "hedgingEnabled st" using others_unarmed[OF w(2) din] True by simp_all
          have f: "hedgingEnabled v = hedgingEnabled u" "hedgeArmed v = hedgeArmed u" by (simp_all add: v_def give_back_def)
          have hv: "hedgingEnabled v" "\<not> hedgeArmed v" using a f same(1,3) by (simp_all only: simp_thms)
          have out: "cachedAddr \<notin> rdAddr ` set (inFlight v)" using waitingD(8)[OF goodD(2)[OF g]] pf by blast
          have "good rule cachedAddr n (v\<lparr>delayedHedge := False\<rparr>)"
            using g out unfolding good_def window_ok_def waiting_ok_def potential_def reserve_of_def sized_def by simp
          moreover have "alternatives env rule False (fallbackTryOnly v) (v\<lparr>delayedHedge := False\<rparr>) w = (st', w')" using c pf by simp
          ultimately show ?thesis using needed_good out hv by fastforce
        qed
      next
        case False
        then have fd: "rdAddr d = cachedAddr \<or> \<not> rdDelayed d" by blast
        show ?thesis
        proof (cases "isDialTargetBulkheadSaturationErr e")
          case True
          have "taken_from st d (give_back (u\<lparr>fallbackTryOnly := True, capacityErr := Some e\<rparr>))"
            by (rule taken_from_same[OF assms(2)]) (simp_all add: give_back_def)
          moreover have "alternatives env rule False True (open_window (give_back (u\<lparr>fallbackTryOnly := True, capacityErr := Some e\<rparr>))) w = (st', w')"
            using c False True by (simp add: capacity_refused_def)
          ultimately show ?thesis by (rule opened_ok[OF assms(1) _ fd])
        next
          case glob: False
          then have v: "st' = u\<lparr>globalLimited := True, capacityErr := Some e, hedgeArmed := False\<rparr>"
            using c False by (simp add: capacity_refused_def)
          have t: "taken_from st d st'" unfolding v by (rule taken_from_same[OF assms(2)]) simp_all
          have "hedgingEnabled st' = hedgingEnabled u" "delayedHedge st' = delayedHedge u" "primaryFailed st' = primaryFailed u" "globalLimited st'" "\<not> hedgeArmed st'"
            by (simp_all add: v)
          then show ?thesis using window_rests[OF assms(1) t trans[OF _ same(1)] trans[OF _ same(2)]] same(5) by blast
        qed
      qed
    qed
  qed
qed

section \<open>What the hedge timer knows\<close>

definition same_hedge :: "cached_state \<Rightarrow> cached_state \<Rightarrow> bool" where
  "same_hedge st st' \<longleftrightarrow> hedgeScheduled st' = hedgeScheduled st \<and> exclusiveProbe st' = exclusiveProbe st"

lemma same_hedge_trans: "same_hedge a b \<Longrightarrow> same_hedge b c \<Longrightarrow> same_hedge a c"
  by (simp add: same_hedge_def)

lemma alternatives_hedge:
  assumes "alternatives env rule delayed immediate st w = (st', w')"
  shows "same_hedge st st'"
proof -
  let ?lim = "connectProxyTargetAttemptLimit rule" and ?cap = "2 - length (inFlight st)"
  let ?fill = "fill_loop env (cached_choose env rule) (\<lambda>c. protocolProbe c \<noteq> 0) (length (Targets rule)) ?lim ?cap immediate delayed st w"
  show ?thesis
  proof (cases "?cap = 0 \<or> globalLimited st \<or> actualAttempts st \<ge> ?lim")
    case True
    have "alternatives env rule delayed immediate st w = (st, w)"
      unfolding alternatives_def launchAlternatives_def if_P[OF True] by simp
    then show ?thesis using assms by (simp add: same_hedge_def)
  next
    case False
    obtain l u w1 where f: "?fill = (l, u, w1)" by (rule prod_cases3)
    have "alternatives env rule delayed immediate st w = (if l > 0 then u\<lparr>sawFallback := True\<rparr> else u, w1)"
      unfolding alternatives_def launchAlternatives_def if_not_P[OF False] Let_def f by simp
    then have s: "st' = (if l > 0 then u\<lparr>sawFallback := True\<rparr> else u)" using assms by simp
    have "actualAttempts st \<le> ?lim" using False by simp
    from cachedr.fill_ok[OF f this] have "race_state.more u = race_state.more st" by (auto simp: launched_ok_def)
    from same_more[OF this] show ?thesis by (simp add: s same_hedge_def)
  qed
qed

lemma continue_hedge: "continue_window env rule st w = (st', w') \<Longrightarrow> same_hedge st st'"
  by (auto simp: continue_window_def same_hedge_def split: if_splits dest: alternatives_hedge[unfolded same_hedge_def])

lemma cached_failed_hedge:
  assumes "cached_failed env rule cachedAddr d err st w = (st', w')"
  shows "same_hedge st st'"
proof -
  have r: "same_hedge st (route_refused b e st)" for b e
    by (simp add: same_hedge_def route_refused_def give_back_def open_window_def Let_def)
  have f: "same_hedge st (dial_failed rule b a err st)" for b a
    by (simp add: same_hedge_def dial_failed_def open_window_def Let_def split: option.splits)
  have c: "same_hedge st v" if "capacity_refused env rule b d e st w = (v, w')" for b e v
    using that unfolding capacity_refused_def Let_def
    by (auto split: if_splits dest!: alternatives_hedge simp: same_hedge_def give_back_def open_window_def)
  show ?thesis
  proof (cases err)
    case None
    then have "continue_window env rule (dial_failed rule (rdAddr d = cachedAddr) (rdAddr d) err st) w = (st', w')"
      using assms by (simp add: cached_failed_def Let_def)
    then show ?thesis by (rule same_hedge_trans[OF f continue_hedge])
  next
    case (Some e)
    show ?thesis
    proof (cases "err_is e ErrActiveHealthUnhealthy \<or> err_is e ErrCircuitOpen")
      case True
      then have "continue_window env rule (route_refused (rdAddr d = cachedAddr) e st) w = (st', w')"
        using assms by (simp add: cached_failed_def Some Let_def)
      then show ?thesis by (rule same_hedge_trans[OF r continue_hedge])
    next
      case route: False
      show ?thesis
      proof (cases "isDialBulkheadError e")
        case True
        then show ?thesis using assms route c by (simp add: cached_failed_def Some Let_def)
      next
        case False
        then have "continue_window env rule (dial_failed rule (rdAddr d = cachedAddr) (rdAddr d) err st) w = (st', w')"
          using assms route by (simp add: cached_failed_def Some Let_def)
        then show ?thesis by (rule same_hedge_trans[OF f continue_hedge])
      qed
    qed
  qed
qed

section \<open>The whole race\<close>

fun cached_taken :: "'c cached_race \<Rightarrow> 'c cached_event \<Rightarrow> (string \<times> 'c option \<times> goerr option) list" where
  "cached_taken r (Arrived k conn err ctxNow) =
     (if k < length (inFlight (cstate r)) then [(rdAddr (inFlight (cstate r) ! k), conn, err)] else [])"
| "cached_taken r _ = []"

fun cached_results ::
  "'w race_env \<Rightarrow> Rule \<Rightarrow> string \<Rightarrow> ('c cached_event \<times> 'w) list \<Rightarrow> 'c cached_race \<Rightarrow> (string \<times> 'c option \<times> goerr option) list" where
  "cached_results env rule cachedAddr [] r = []"
| "cached_results env rule cachedAddr ((ev, w) # evs) r =
     cached_taken r ev @ cached_results env rule cachedAddr evs (fst (cached_step env rule cachedAddr ev r w))"

fun held_by :: "'c cached_mode \<Rightarrow> 'c list" where
  "held_by (Winning c addr) = [c]"
| "held_by (Over (Inr (c, addr))) = [c]"
| "held_by _ = []"

fun mode_ok :: "Rule \<Rightarrow> string \<Rightarrow> nat \<Rightarrow> (string \<times> 'c option \<times> goerr option) list \<Rightarrow> bool \<Rightarrow> 'c cached_mode \<Rightarrow> cached_state \<Rightarrow> bool" where
  "mode_ok rule cachedAddr n tr cancelled Waiting st =
     (length tr \<le> n \<and> good rule cachedAddr (n - length tr) st \<and> inFlight st \<noteq> [] \<and> (\<forall>x\<in>set tr. \<not> succeeded x))"
| "mode_ok rule cachedAddr n tr cancelled (Winning c addr) st =
     (length tr + length (inFlight st) \<le> n \<and> window_ok rule cachedAddr st \<and> inFlight st \<noteq> [] \<and> (addr, Some c, None) \<in> set tr)"
| "mode_ok rule cachedAddr n tr cancelled (Losing e) st =
     (length tr + length (inFlight st) \<le> n \<and> window_ok rule cachedAddr st \<and> inFlight st \<noteq> [] \<and> cancelled)"
| "mode_ok rule cachedAddr n tr cancelled (Over (Inr (c, addr))) st = (length tr \<le> n \<and> inFlight st = [] \<and> (addr, Some c, None) \<in> set tr)"
| "mode_ok rule cachedAddr n tr cancelled (Over (Inl e)) st =
     (length tr \<le> n \<and> inFlight st = [] \<and> (\<not> cancelled \<longrightarrow> (\<forall>x\<in>set tr. \<not> succeeded x)))"

definition hedge_ok :: "Rule \<Rightarrow> string \<Rightarrow> bool \<Rightarrow> bool \<Rightarrow> (string \<times> 'c option \<times> goerr option) list \<Rightarrow> cached_state \<Rightarrow> bool" where
  "hedge_ok rule cachedAddr probing fired tr st \<longleftrightarrow>
     (cachedAddr \<in> set (tried tr) \<or> (fired \<and> hedgeScheduled st) \<or> set (tried tr @ map rdAddr (inFlight st)) \<subseteq> {cachedAddr})
     \<and> (hedgeScheduled st \<longrightarrow> \<not> exclusiveProbe st \<and> Hedge rule \<noteq> None) \<and> exclusiveProbe st = probing"

definition cached_ok ::
  "Rule \<Rightarrow> string \<Rightarrow> nat \<Rightarrow> bool \<Rightarrow> bool \<Rightarrow> bool \<Rightarrow> (string \<times> 'c option \<times> goerr option) list \<Rightarrow> 'c cached_race \<Rightarrow> bool" where
  "cached_ok rule cachedAddr n probing cancelled fired tr r \<longleftrightarrow>
     mode_ok rule cachedAddr n tr cancelled (cmode r) (cstate r) \<and> hedge_ok rule cachedAddr probing fired tr (cstate r)
     \<and> mset (delivered tr) = mset (cclosed r) + mset (held_by (cmode r))"

lemma cached_start_ok:
  "cached_ok rule cachedAddr (cached_known rule cachedAddr + 1) (probe \<noteq> 0) b c [] (cached_start rule cachedAddr probe controlled ctxFirst)"
proof -
  let ?st = "cached_initial rule cachedAddr probe controlled"
  have h: "hedge_ok rule cachedAddr (probe \<noteq> 0) c [] ?st" "hedge_ok rule cachedAddr (probe \<noteq> 0) c [] (?st\<lparr>inFlight := []\<rparr>)"
    by (simp_all add: hedge_ok_def cached_initial_def)
  have g: "good rule cachedAddr (cached_known rule cachedAddr + 1) ?st" if "Targets rule \<noteq> []"
  proof -
    have "card (insert cachedAddr (addresses rule)) > 0" by (simp add: card_gt_0_iff finite_somes)
    moreover have "connectProxyTargetAttemptLimit rule \<ge> 1" using that
      by (cases "Targets rule") (auto simp: connectProxyTargetAttemptLimit_def connectProxyMaxTargetAttempts_def)
    ultimately show ?thesis
      by (simp add: good_def window_ok_def sized_def waiting_ok_def potential_def reserve_of_def cached_initial_def)
  qed
  show ?thesis using h g
    by (auto simp: cached_start_def cached_ok_def Let_def cached_initial_def split: option.splits)
qed

lemma mode_ok_mono: "mode_ok rule cachedAddr n tr b m st \<Longrightarrow> (b \<Longrightarrow> c) \<Longrightarrow> mode_ok rule cachedAddr n tr c m st"
  by (cases "(rule, cachedAddr, n, tr, b, m, st)" rule: mode_ok.cases) auto

lemma hedge_ok_mono: "hedge_ok rule cachedAddr p f tr st \<Longrightarrow> (f \<Longrightarrow> g) \<Longrightarrow> hedge_ok rule cachedAddr p g tr st"
  by (auto simp: hedge_ok_def)

lemma hedge_result:
  assumes "hedge_ok rule cachedAddr p f tr st" "d \<in> set (inFlight st)" "same_hedge st st'"
  shows "hedge_ok rule cachedAddr p f (tr @ [(rdAddr d, conn, err)]) st'"
  using assms unfolding hedge_ok_def same_hedge_def by auto

lemma good_potential: "good rule cachedAddr n st \<Longrightarrow> length (inFlight st) \<le> n"
  unfolding good_def potential_def by simp

lemma same_hedge_take: "same_hedge st (take_dial k st)"
  by (simp add: same_hedge_def take_dial_def)

lemma arrived_ok:
  assumes "cached_ok rule cachedAddr n p cn f tr r" and k: "k < length (inFlight (cstate r))"
  shows "cached_ok rule cachedAddr n p cn f (tr @ [(rdAddr (inFlight (cstate r) ! k), conn, err)])
    (fst (cached_arrived env rule cachedAddr k conn err ctxNow r w))"
proof -
  let ?st = "cstate r"
  define d where "d = inFlight ?st ! k"
  define u where "u = take_dial k ?st"
  let ?tr = "tr @ [(rdAddr d, conn, err)]"
  have tk: "taken_from ?st d u" unfolding d_def u_def by (rule taken_take_dial[OF k])
  have din: "d \<in> set (inFlight ?st)" using k by (simp add: d_def)
  have len: "length (inFlight ?st) = Suc (length (inFlight u))" using tk by (auto simp: taken_from_def)
  have ok: "mode_ok rule cachedAddr n tr cn (cmode r) ?st" "hedge_ok rule cachedAddr p f tr ?st"
    "mset (delivered tr) = mset (cclosed r) + mset (held_by (cmode r))" using assms(1) by (simp_all add: cached_ok_def)
  have hu: "hedge_ok rule cachedAddr p f ?tr u" unfolding u_def by (rule hedge_result[OF ok(2) din same_hedge_take])
  have conns: "delivered ?tr = delivered tr @ conn_list conn" by (cases conn) (simp_all add: conn_list_def)
  have unfold: "cached_arrived env rule cachedAddr k conn err ctxNow r w =
      (case cmode r of
             Waiting \<Rightarrow>
               (case (conn, err) of
                  (Some c, None) \<Rightarrow> (r\<lparr>cmode := (if inFlight u = [] then Over (Inr (c, rdAddr d)) else Winning c (rdAddr d)), cstate := u\<rparr>, w)
                | _ \<Rightarrow>
                    let (st, w) = cached_failed env rule cachedAddr d err u w
                    in (\<lparr>cmode = (if inFlight st = [] then Over (Inl (cached_failure ctxNow st)) else Waiting), cstate = st,
                         cclosed = cclosed r @ conn_list conn\<rparr>, w))
           | Winning c addr \<Rightarrow>
               (\<lparr>cmode = (if inFlight u = [] then Over (Inr (c, addr)) else Winning c addr), cstate = u, cclosed = cclosed r @ conn_list conn\<rparr>, w)
           | Losing e \<Rightarrow>
               (\<lparr>cmode = (if inFlight u = [] then Over (Inl e) else Losing e), cstate = u, cclosed = cclosed r @ conn_list conn\<rparr>, w)
           | Over out \<Rightarrow> (r, w))"
    unfolding cached_arrived_def Let_def u_def d_def using k by simp
  have goal: "cached_ok rule cachedAddr n p cn f ?tr (fst (cached_arrived env rule cachedAddr k conn err ctxNow r w))"
  proof (cases "cmode r")
    case (Winning c addr)
    have "window_ok rule cachedAddr u" using ok(1) taken_window[OF _ tk] by (simp add: Winning)
    then show ?thesis using ok hu conns len unfolding unfold by (simp add: Winning cached_ok_def)
  next
    case (Losing e)
    have "window_ok rule cachedAddr u" using ok(1) taken_window[OF _ tk] by (simp add: Losing)
    then show ?thesis using ok hu conns len unfolding unfold by (simp add: Losing cached_ok_def)
  next
    case (Over out)
    then have "inFlight ?st = []" using ok(1) by (cases out) auto
    then show ?thesis using k by simp
  next
    case Waiting
    have g: "length tr \<le> n" "good rule cachedAddr (n - length tr) ?st" "\<forall>x\<in>set tr. \<not> succeeded x" using ok(1) by (simp_all add: Waiting)
    define m where "m = n - length ?tr"
    have m: "n - length tr = Suc m" "length ?tr + length (inFlight u) \<le> n" using good_potential[OF g(2)] g(1) len by (simp_all add: m_def)
    have gs: "good rule cachedAddr (Suc m) ?st" using g(2) m(1) by simp
    show ?thesis
    proof (cases "\<exists>c. conn = Some c \<and> err = None")
      case True
      then obtain c where c: "conn = Some c" "err = None" by blast
      have "window_ok rule cachedAddr u" by (rule taken_window[OF goodD(1)[OF gs] tk])
      then show ?thesis using ok(3) hu conns m(2) c unfolding unfold by (simp add: Waiting cached_ok_def conn_list_def)
    next
      case False
      obtain v w1 where f: "cached_failed env rule cachedAddr d err u w = (v, w1)" by fastforce
      have v: "good rule cachedAddr m v" by (rule cached_failed_ok[OF gs tk f]) (simp_all add: u_def take_dial_def)
      have "same_hedge ?st v" by (rule same_hedge_trans[OF same_hedge_take cached_failed_hedge[OF f[unfolded u_def]]])
      then have hv: "hedge_ok rule cachedAddr p f ?tr v" by (rule hedge_result[OF ok(2) din])
      have ns: "\<not> succeeded (rdAddr d, conn, err)" using False by (cases conn; cases err) simp_all
      have "cached_arrived env rule cachedAddr k conn err ctxNow r w
          = (\<lparr>cmode = (if inFlight v = [] then Over (Inl (cached_failure ctxNow v)) else Waiting), cstate = v,
              cclosed = cclosed r @ conn_list conn\<rparr>, w1)"
        unfolding unfold using False f by (cases conn; cases err) (simp_all add: Waiting)
      then show ?thesis using ok(3) hv conns m v ns g(3) by (simp add: Waiting cached_ok_def m_def)
    qed
  qed
  then show ?thesis unfolding d_def .
qed

lemma good_disarm: "good rule cachedAddr n st \<Longrightarrow> good rule cachedAddr n (st\<lparr>hedgeArmed := False\<rparr>)"
  unfolding good_def window_ok_def waiting_ok_def potential_def reserve_of_def sized_def by (auto split: if_splits)

lemma on_hedge_ok:
  assumes "good rule cachedAddr n st" "inFlight st \<noteq> []" "on_hedge env rule st w = (st', w')"
  shows "good rule cachedAddr n st' \<and> inFlight st' \<noteq> [] \<and> same_hedge st st' \<and> (hedgeScheduled st \<or> inFlight st' = inFlight st)"
proof (cases "hedgeArmed st \<and> hedgeScheduled st")
  case False
  then have "st' = st \<or> st' = st\<lparr>hedgeArmed := False\<rparr>" using assms(3) by (auto simp: on_hedge_def split: if_splits)
  then show ?thesis using assms(1,2) good_disarm[OF assms(1)] by (auto simp: same_hedge_def)
next
  case True
  define u where "u = st\<lparr>hedgingEnabled := True, delayedHedge := True, hedgeArmed := False\<rparr>"
  note w = goodD[OF assms(1)]
  have al: "alternatives env rule True True u w = (st', w')" using assms(3) True by (simp add: on_hedge_def u_def)
  obtain c where c: "inFlight u = [c]" "rdAddr c = cachedAddr" using waitingD(4)[OF w(2)] True by (auto simp: u_def map_eq_Cons_conv)
  have nd: "\<not> rdDelayed c" using waitingD(2)[OF w(2)] c by (simp add: u_def)
  have pf: "\<not> primaryFailed u" using waitingD(8)[OF w(2)] c by (auto simp: u_def)
  have win: "window_ok rule cachedAddr u" using w(1) by (simp add: u_def window_ok_def sized_def)
  have r: "reserve_of u = 0" "reserve_of st = 1" using c nd True by (auto simp: u_def reserve_of_def)
  have p0: "potential (cached_known rule cachedAddr) u + 1 = potential (cached_known rule cachedAddr) st"
    unfolding potential_def r by (simp add: u_def)
  have hu: "hedgingEnabled u" "delayedHedge u" "\<not> hedgeArmed u" by (simp_all add: u_def)
  note opt = optional_ok[OF al win pf hu c nd]
  have p1: "potential (cached_known rule cachedAddr) st' \<le> potential (cached_known rule cachedAddr) u + 1" by (rule opt[THEN conjunct2, THEN conjunct2, THEN conjunct1])
  have "potential (cached_known rule cachedAddr) st' \<le> n" by (rule order_trans[OF p1[unfolded p0] w(3)])
  then have "good rule cachedAddr n st'" unfolding good_def using opt[THEN conjunct1] opt[THEN conjunct2, THEN conjunct1] by (intro conjI)
  moreover have "inFlight st' \<noteq> []"
  proof -
    have "sized rule u" using win by (simp add: window_ok_def)
    from alternatives_ok[OF al this] obtain ls where "inFlight st' = inFlight u @ ls" unfolding added_def by blast
    then show ?thesis using c by simp
  qed
  moreover have "same_hedge st st'"
    by (rule same_hedge_trans[OF _ alternatives_hedge[OF al]]) (simp add: u_def same_hedge_def)
  ultimately show ?thesis using True by simp
qed

lemma good_flags: "good rule cachedAddr n st \<Longrightarrow> inFlight u = inFlight st \<Longrightarrow> attempted u = attempted st \<Longrightarrow> actualAttempts u = actualAttempts st \<Longrightarrow>
   hedgeArmed u = hedgeArmed st \<Longrightarrow> hedgingEnabled u = hedgingEnabled st \<Longrightarrow> delayedHedge u = delayedHedge st \<Longrightarrow> globalLimited u = globalLimited st \<Longrightarrow>
   primaryFailed u = primaryFailed st \<Longrightarrow> (hedgeScheduled u \<longrightarrow> \<not> exclusiveProbe u \<and> Hedge rule \<noteq> None) \<Longrightarrow> good rule cachedAddr n u \<and> window_ok rule cachedAddr u"
  unfolding good_def window_ok_def waiting_ok_def potential_def reserve_of_def sized_def by (elim conjE, intro conjI; (assumption | simp only: simp_thms))

lemma window_flags: "window_ok rule cachedAddr st \<Longrightarrow> inFlight u = inFlight st \<Longrightarrow> attempted u = attempted st \<Longrightarrow> actualAttempts u = actualAttempts st \<Longrightarrow>
   (hedgeScheduled u \<longrightarrow> \<not> exclusiveProbe u \<and> Hedge rule \<noteq> None) \<Longrightarrow> window_ok rule cachedAddr u"
  unfolding window_ok_def sized_def by (elim conjE, intro conjI; (assumption | simp only: simp_thms))

definition same_window :: "cached_state \<Rightarrow> cached_state \<Rightarrow> bool" where
  "same_window st u \<longleftrightarrow> inFlight u = inFlight st \<and> attempted u = attempted st \<and> actualAttempts u = actualAttempts st
     \<and> hedgeArmed u = hedgeArmed st \<and> hedgingEnabled u = hedgingEnabled st \<and> delayedHedge u = delayedHedge st
     \<and> globalLimited u = globalLimited st \<and> primaryFailed u = primaryFailed st"

lemma mode_flags:
  assumes "mode_ok rule cachedAddr n tr b m st" "same_window st u" "hedgeScheduled u \<longrightarrow> \<not> exclusiveProbe u \<and> Hedge rule \<noteq> None"
  shows "mode_ok rule cachedAddr n tr b m u"
proof -
  have s: "inFlight u = inFlight st" "attempted u = attempted st" "actualAttempts u = actualAttempts st" "hedgeArmed u = hedgeArmed st"
    "hedgingEnabled u = hedgingEnabled st" "delayedHedge u = delayedHedge st" "globalLimited u = globalLimited st" "primaryFailed u = primaryFailed st"
    using assms(2) unfolding same_window_def by - (elim conjE, assumption)+
  show ?thesis
  proof (cases m)
    case Waiting
    then show ?thesis using assms(1) good_flags[OF _ s assms(3)] s(1) by simp
  next
    case (Over out)
    then show ?thesis using assms(1) s(1) by (cases out) auto
  next
    case (Winning c a)
    then show ?thesis using assms(1) window_flags[OF _ s(1-3) assms(3)] s(1) by simp
  next
    case (Losing e)
    then show ?thesis using assms(1) window_flags[OF _ s(1-3) assms(3)] s(1) by simp
  qed
qed

definition is_cancel :: "'c cached_event \<Rightarrow> bool" where
  "is_cancel ev \<longleftrightarrow> (case ev of Cancelled e \<Rightarrow> True | _ \<Rightarrow> False)"

definition is_fire :: "'c cached_event \<Rightarrow> bool" where
  "is_fire ev \<longleftrightarrow> (case ev of HedgeFired \<Rightarrow> True | _ \<Rightarrow> False)"

lemma flags_ok:
  assumes "cached_ok rule cachedAddr n p cn f tr r" "same_window (cstate r) u" "exclusiveProbe u = exclusiveProbe (cstate r)"
    and "hedgeScheduled (cstate r) \<longrightarrow> hedgeScheduled u" "hedgeScheduled u \<longrightarrow> \<not> exclusiveProbe u \<and> Hedge rule \<noteq> None"
  shows "cached_ok rule cachedAddr n p cn f tr (r\<lparr>cstate := u\<rparr>)"
proof -
  have "mode_ok rule cachedAddr n tr cn (cmode r) u" using assms(1) by (intro mode_flags[OF _ assms(2,5)]) (simp add: cached_ok_def)
  moreover have "inFlight u = inFlight (cstate r)" using assms(2) by (simp add: same_window_def)
  then have "hedge_ok rule cachedAddr p f tr u" using assms(1,3-5) by (auto simp: hedge_ok_def cached_ok_def)
  ultimately show ?thesis using assms(1) by (simp add: cached_ok_def)
qed

lemma cached_step_ok:
  assumes "cached_ok rule cachedAddr n p cn f tr r"
  shows "cached_ok rule cachedAddr n p (cn \<or> is_cancel ev) (f \<or> is_fire ev) (tr @ cached_taken r ev) (fst (cached_step env rule cachedAddr ev r w))"
proof (cases ev)
  case (Arrived k conn err ctxNow)
  show ?thesis
  proof (cases "k < length (inFlight (cstate r))")
    case True
    then show ?thesis using arrived_ok[OF assms True] by (simp add: Arrived cached_step_def is_cancel_def is_fire_def)
  next
    case False
    then show ?thesis using assms by (simp add: Arrived cached_step_def cached_arrived_def Let_def is_cancel_def is_fire_def)
  qed
next
  case (PrimaryStarted tooLate)
  have sched: "hedgeScheduled (cstate r) \<longrightarrow> \<not> exclusiveProbe (cstate r) \<and> Hedge rule \<noteq> None"
    using assms unfolding cached_ok_def hedge_ok_def by blast
  have "cached_ok rule cachedAddr n p cn f tr (r\<lparr>cstate := onPrimaryStart rule tooLate (cstate r)\<rparr>)"
    by (rule flags_ok[OF assms]) (use sched in \<open>simp_all add: onPrimaryStart_def same_window_def\<close>)
  then show ?thesis using assms by (simp add: PrimaryStarted cached_step_def is_cancel_def is_fire_def)
next
  case DelayedStarted
  have sched: "hedgeScheduled (cstate r) \<longrightarrow> \<not> exclusiveProbe (cstate r) \<and> Hedge rule \<noteq> None"
    using assms unfolding cached_ok_def hedge_ok_def by blast
  have "cached_ok rule cachedAddr n p cn f tr (r\<lparr>cstate := (cstate r)\<lparr>delayedStarted := True\<rparr>\<rparr>)"
    by (rule flags_ok[OF assms]) (use sched in \<open>simp_all add: same_window_def\<close>)
  then show ?thesis using assms by (simp add: DelayedStarted cached_step_def is_cancel_def is_fire_def)
next
  case (Cancelled e)
  show ?thesis
  proof (cases "cmode r")
    case Waiting
    have m: "length tr \<le> n" "good rule cachedAddr (n - length tr) (cstate r)" "inFlight (cstate r) \<noteq> []"
      using assms by (simp_all add: cached_ok_def Waiting)
    then have "length tr + length (inFlight (cstate r)) \<le> n" using good_potential[OF m(2)] by simp
    then show ?thesis using assms m(3) goodD(1)[OF m(2)] by (simp add: cached_ok_def Waiting Cancelled cached_step_def is_cancel_def is_fire_def)
  qed (use assms mode_ok_mono in \<open>fastforce simp: cached_ok_def Cancelled cached_step_def is_cancel_def is_fire_def\<close>)+
next
  case HedgeFired
  show ?thesis
  proof (cases "cmode r")
    case Waiting
    have m: "length tr \<le> n" "good rule cachedAddr (n - length tr) (cstate r)" "inFlight (cstate r) \<noteq> []" "\<forall>x\<in>set tr. \<not> succeeded x"
      "hedge_ok rule cachedAddr p f tr (cstate r)" "mset (delivered tr) = mset (cclosed r)"
      using assms by (simp_all add: cached_ok_def Waiting)
    obtain u w1 where u: "on_hedge env rule (cstate r) w = (u, w1)" by fastforce
    note h = on_hedge_ok[OF m(2,3) u]
    have "hedge_ok rule cachedAddr p True tr u" using m(5) h by (auto simp: hedge_ok_def same_hedge_def image_subset_iff)
    then show ?thesis using m h u by (simp add: cached_ok_def Waiting HedgeFired cached_step_def is_cancel_def is_fire_def)
  qed (use assms hedge_ok_mono in \<open>fastforce simp: cached_ok_def HedgeFired cached_step_def is_cancel_def is_fire_def\<close>)+
qed

lemma cached_run_ok:
  assumes "cached_ok rule cachedAddr n p cn f tr r"
  shows "cached_ok rule cachedAddr n p (cn \<or> list_ex (is_cancel \<circ> fst) evs) (f \<or> list_ex (is_fire \<circ> fst) evs)
    (tr @ cached_results env rule cachedAddr evs r) (cached_run env rule cachedAddr evs r)"
  using assms
proof (induction evs arbitrary: cn f tr r)
  case Nil
  then show ?case by (simp add: cached_run_def)
next
  case (Cons x evs)
  obtain ev w where x: "x = (ev, w)" by fastforce
  show ?case using Cons.IH[OF cached_step_ok[OF Cons.prems, of ev env w]] by (simp add: x cached_run_def disj_assoc)
qed

lemma cached_from_start:
  "cached_ok rule cachedAddr (cached_known rule cachedAddr + 1) (probe \<noteq> 0) (list_ex (is_cancel \<circ> fst) evs) (list_ex (is_fire \<circ> fst) evs)
    (cached_results env rule cachedAddr evs (cached_start rule cachedAddr probe controlled ctxFirst))
    (cached_run env rule cachedAddr evs (cached_start rule cachedAddr probe controlled ctxFirst))"
  using cached_run_ok[OF cached_start_ok[of rule cachedAddr probe False False controlled ctxFirst]] by simp

lemma mode_progress: "mode_ok rule cachedAddr n tr b m st \<Longrightarrow> (\<exists>out. m = Over out \<and> inFlight st = []) \<or> inFlight st \<noteq> []"
  by (cases "(rule, cachedAddr, n, tr, b, m, st)" rule: mode_ok.cases) auto

lemma mode_count: "mode_ok rule cachedAddr n tr b m st \<Longrightarrow> length tr + length (inFlight st) \<le> n"
proof (cases m)
  case Waiting
  assume "mode_ok rule cachedAddr n tr b m st"
  then have "length tr \<le> n" "good rule cachedAddr (n - length tr) st" by (simp_all add: Waiting)
  then show ?thesis using good_potential by fastforce
next
  case (Over out)
  assume "mode_ok rule cachedAddr n tr b m st"
  then show ?thesis by (cases out) (auto simp: Over)
qed simp_all

text \<open>The results a run delivers: every result of a dial that is then in flight, whichever of them it is.\<close>

fun cached_delivers :: "'c cached_race \<Rightarrow> 'c cached_event \<Rightarrow> bool" where
  "cached_delivers r (Arrived k conn err ctxNow) = (k < length (inFlight (cstate r)))"
| "cached_delivers r ev = False"

fun cached_deliveries :: "'w race_env \<Rightarrow> Rule \<Rightarrow> string \<Rightarrow> ('c cached_event \<times> 'w) list \<Rightarrow> 'c cached_race \<Rightarrow> nat" where
  "cached_deliveries env rule cachedAddr [] r = 0"
| "cached_deliveries env rule cachedAddr ((ev, w) # evs) r =
     (if cached_delivers r ev then 1 else 0) + cached_deliveries env rule cachedAddr evs (fst (cached_step env rule cachedAddr ev r w))"

lemma cached_deliveries_results: "cached_deliveries env rule cachedAddr evs r = length (cached_results env rule cachedAddr evs r)"
proof (induction evs arbitrary: r)
  case (Cons x evs)
  have "length (cached_taken r ev) = (if cached_delivers r ev then 1 else 0)" for ev by (cases ev) simp_all
  then show ?case using Cons.IH by (cases x) simp
qed simp

section \<open>Properties\<close>

text \<open>C10: at any moment of a race that began with a cached winner, under any order of results, timer and
  callbacks, at most two dials are in flight, to different addresses, all of them the cached one or
  targets of the rule; and no dial other than the cached one has been made before the cached dial
  reported or the hedge timer fired, which counts only without a protocol canary and with hedging
  configured.\<close>

theorem cached_race_window:
  fixes env :: "'w race_env" and evs :: "('c cached_event \<times> 'w) list"
  shows "let r0 = cached_start rule cachedAddr probe controlled ctxFirst; r = cached_run env rule cachedAddr evs r0;
       dials = map rdAddr (inFlight (cstate r)); seen = tried (cached_results env rule cachedAddr evs r0)
     in length dials \<le> 2 \<and> distinct dials \<and> set dials \<subseteq> insert cachedAddr (addresses rule)
       \<and> (cachedAddr \<in> set seen \<or> (list_ex (is_fire \<circ> fst) evs \<and> probe = 0 \<and> Hedge rule \<noteq> None) \<or> set (seen @ dials) \<subseteq> {cachedAddr})"
proof -
  let ?start = "cached_start rule cachedAddr probe controlled ctxFirst :: 'c cached_race"
  let ?r = "cached_run env rule cachedAddr evs ?start"
  note ok = cached_from_start[where env = env and rule = rule and cachedAddr = cachedAddr and evs = evs and probe = probe
      and controlled = controlled and ctxFirst = ctxFirst, unfolded cached_ok_def]
  have w: "inFlight (cstate ?r) = [] \<or> window_ok rule cachedAddr (cstate ?r)"
    using ok by (cases "cmode ?r" rule: held_by.cases) (auto simp: good_def)
  then have "length (inFlight (cstate ?r)) \<le> 2 \<and> distinct (map rdAddr (inFlight (cstate ?r)))
      \<and> set (map rdAddr (inFlight (cstate ?r))) \<subseteq> insert cachedAddr (addresses rule)"
  proof
    assume "inFlight (cstate ?r) = []"
    then show ?thesis by simp
  next
    assume w: "window_ok rule cachedAddr (cstate ?r)"
    then have "length (inFlight (cstate ?r)) \<le> 2" "distinct (map rdAddr (inFlight (cstate ?r)))"
      "set (map rdAddr (inFlight (cstate ?r))) \<subseteq> set (attempted (cstate ?r))"
      "set (attempted (cstate ?r)) \<subseteq> insert cachedAddr (addresses rule)"
      unfolding window_ok_def sized_def by - (elim conjE, assumption)+
    then show ?thesis by - (intro conjI; (assumption | (erule order_trans, assumption)))
  qed
  moreover have "cachedAddr \<in> set (tried (cached_results env rule cachedAddr evs ?start))
      \<or> (list_ex (is_fire \<circ> fst) evs \<and> probe = 0 \<and> Hedge rule \<noteq> None)
      \<or> set (tried (cached_results env rule cachedAddr evs ?start) @ map rdAddr (inFlight (cstate ?r))) \<subseteq> {cachedAddr}"
    using ok unfolding hedge_ok_def by blast
  ultimately show ?thesis unfolding Let_def by simp
qed

text \<open>of the connections the dials of the cached race deliver, each is closed by the race except the one
  it returns, and that one was delivered without an error by a dial to the address it is returned with.\<close>

theorem cached_race_connections:
  fixes env :: "'w race_env" and evs :: "('c cached_event \<times> 'w) list"
  shows "let r0 = cached_start rule cachedAddr probe controlled ctxFirst; r = cached_run env rule cachedAddr evs r0;
       tr = cached_results env rule cachedAddr evs r0
     in mset (delivered tr) = mset (cclosed r) + mset (held_by (cmode r))
       \<and> (case cmode r of Winning c addr \<Rightarrow> (addr, Some c, None) \<in> set tr | Over (Inr (c, addr)) \<Rightarrow> (addr, Some c, None) \<in> set tr | _ \<Rightarrow> True)"
proof -
  let ?r = "cached_run env rule cachedAddr evs (cached_start rule cachedAddr probe controlled ctxFirst)"
  note ok = cached_from_start[where env = env and rule = rule and cachedAddr = cachedAddr and evs = evs and probe = probe
      and controlled = controlled and ctxFirst = ctxFirst, unfolded cached_ok_def]
  show ?thesis unfolding Let_def using ok by (cases "cmode ?r" rule: held_by.cases) simp_all
qed

text \<open>C11: the cached race ends. Whatever the results are and in whatever order the dials finish, however
  timer, callbacks and cancellation come between them, at every moment the race is over or some dial is
  still in flight; with \<open>n\<close> targets it takes at most \<open>n + 1\<close> results in all, and it is over when it has taken
  that many. The one more is an optional dial that found no capacity and is made again.\<close>

theorem cached_race_terminates:
  fixes env :: "'w race_env" and evs :: "('c cached_event \<times> 'w) list"
  assumes "cachedAddr \<in> addresses rule"
  shows "let r0 = cached_start rule cachedAddr probe controlled ctxFirst; r = cached_run env rule cachedAddr evs r0;
       n = cached_deliveries env rule cachedAddr evs r0
     in n \<le> length (Targets rule) + 1
       \<and> ((\<exists>out. cmode r = Over out) \<or> (0 < length (inFlight (cstate r)) \<and> n < length (Targets rule) + 1))"
proof -
  let ?start = "cached_start rule cachedAddr probe controlled ctxFirst :: 'c cached_race"
  let ?r = "cached_run env rule cachedAddr evs ?start" and ?tr = "cached_results env rule cachedAddr evs ?start"
  have m: "mode_ok rule cachedAddr (cached_known rule cachedAddr + 1) ?tr (list_ex (is_cancel \<circ> fst) evs) (cmode ?r) (cstate ?r)"
    using cached_from_start unfolding cached_ok_def by blast
  have "card (addresses rule) \<le> length (Targets rule)" using addresses_length le_trans length_filter_le by blast
  then have k: "cached_known rule cachedAddr \<le> length (Targets rule)" using assms by (simp add: insert_absorb)
  show ?thesis using mode_count[OF m] mode_progress[OF m] k unfolding Let_def cached_deliveries_results
    by (cases "inFlight (cstate ?r)") auto
qed

section \<open>A race\<close>

text \<open>The hedge timer fires, the optional dial finds no capacity, the cached dial fails, and of the two
  alternatives that follow the second wins.\<close>

definition wit_hedged_rule :: Rule where
  "wit_hedged_rule = wit_rule\<lparr>Protocol := '''', Hedge := Some \<lparr>MinDelay = 1, MaxDelay = 2\<rparr>\<rparr>"

definition wit_cached_events :: "(nat cached_event \<times> unit) list" where
  "wit_cached_events = map (\<lambda>ev. (ev, ()))
     [PrimaryStarted False, HedgeFired, Arrived 1 None (Some (ErrBulkhead \<lparr>errTarget = ''a'', cause = None, saturated = True, scope = dialSaturationTarget\<rparr>)) None,
      Arrived 0 None (Some (ErrText ''refused'')) None, Arrived 0 None (Some (ErrText ''refused'')) None, Arrived 0 (Some 9) None None,
      Arrived 0 (Some 8) None None]"

lemma wit_cached_run:
  "(let start = cached_start wit_hedged_rule ''b'' 0 False None; r = cached_run wit_race_env wit_hedged_rule ''b'' wit_cached_events start
    in (cmode r, cclosed r, cached_outcome r, tried (cached_results wit_race_env wit_hedged_rule ''b'' wit_cached_events start)))
   = (Over (Inr (9, ''c'')), [],
      \<lparr>winnerAddr = ''c'', cachedFailed = True, cachedFailureNeutral = False, fallbackStarted = True, hedged = False\<rparr>,
      [''a'', ''b'', ''a'', ''c''])"
  by code_simp

theorem cached_race_terminates_witness:
  "let r0 = cached_start wit_hedged_rule ''b'' 0 False None; r = cached_run wit_race_env wit_hedged_rule ''b'' wit_cached_events r0;
       n = cached_deliveries wit_race_env wit_hedged_rule ''b'' wit_cached_events r0
     in n \<le> length (Targets wit_hedged_rule) + 1
       \<and> ((\<exists>out. cmode r = Over out) \<or> (0 < length (inFlight (cstate r)) \<and> n < length (Targets wit_hedged_rule) + 1))"
proof (rule cached_race_terminates)
  show "''b'' \<in> addresses wit_hedged_rule"
    by (rule image_eqI[of _ _ "the (wit_target ''b'')"]) (simp_all add: wit_hedged_rule_def wit_rule_def wit_target_def)
qed

text \<open>In this run the bound is reached: three targets, four results, the last of them out of order.\<close>

lemma wit_cached_deliveries:
  "cached_deliveries wit_race_env wit_hedged_rule ''b'' wit_cached_events (cached_start wit_hedged_rule ''b'' 0 False None)
     = length (Targets wit_hedged_rule) + 1"
  by code_simp

end
