(* ===== verification/Active_Health.thy ===== *)
theory Active_Health
  imports Config_Validation
begin

text \<open>
  Active health checks (\<^verbatim>\<open>controller/active_health.go\<close>): one checker per rule and target address probes
  the target at jittered intervals; thresholds of consecutive results mark a target unhealthy and
  healthy again.

  A rule pointer is the position of the rule in its configuration. The checkers of one generation are
  program counters next to the manager's state; the probe slots are process-wide, so the slots other
  generations hold are part of the state and change on their own. The probe itself, a TCP connect or
  an HTTP request, is the result an event carries.
\<close>

section \<open>State\<close>

definition activeHealthMaxConcurrentProbes :: nat where "activeHealthMaxConcurrentProbes = 32"
definition activeHealthJitterPercent :: int where "activeHealthJitterPercent = 10"
definition activeHealthRecoveryConfirmCap :: duration where "activeHealthRecoveryConfirmCap = 1500 * millisecond"

type_synonym activeHealthKey = "nat \<times> string"

record activeHealthState =
  isUnhealthy :: bool
  consecutiveFailures :: int
  consecutiveSuccesses :: int
  requiredSuccesses :: int
  nextProbeAt :: gotime
  probeInFlight :: bool
  lastProbeSuccess :: gotime
  lastRecovery :: gotime

definition new_health_state :: activeHealthState where
  "new_health_state = \<lparr>isUnhealthy = False, consecutiveFailures = 0, consecutiveSuccesses = 0, requiredSuccesses = 0,
     nextProbeAt = 0, probeInFlight = False, lastProbeSuccess = 0, lastRecovery = 0\<rparr>"

record activeHealthJob =
  jkey :: activeHealthKey
  jtarget :: string
  jcheck :: HealthCheckConfig
  jproxyProtocol :: string
  failureConclusive :: bool

datatype checker =
    Scheduling bool \<comment> \<open>about to sleep; whether this is the first time\<close>
  | Waiting
  | AwaitingSlot
  | Probing
  | Exited

record activeHealthManager =
  hstates :: "activeHealthKey \<rightharpoonup> activeHealthState"
  hstarted :: bool
  hcancelled :: bool
  checkers :: "(activeHealthJob \<times> checker) list"
  otherProbes :: nat \<comment> \<open>slots held by other generations\<close>

definition newActiveHealthManager :: activeHealthManager where
  "newActiveHealthManager = \<lparr>hstates = Map.empty, hstarted = False, hcancelled = False, checkers = [], otherProbes = 0\<rparr>"

definition probing :: "activeHealthJob \<times> checker \<Rightarrow> bool" where
  "probing c \<longleftrightarrow> snd c = Probing"

definition activeHealthProbeSlots :: "activeHealthManager \<Rightarrow> nat" where
  "activeHealthProbeSlots m = otherProbes m + cnt probing (checkers m)"

section \<open>Results\<close>

definition observeLocked :: "gotime \<Rightarrow> HealthCheckConfig \<Rightarrow> bool \<Rightarrow> activeHealthState \<Rightarrow> activeHealthState" where
  "observeLocked now check success st =
     (let st = st\<lparr>requiredSuccesses := SuccessThreshold check\<rparr>
      in if success then
           let st = st\<lparr>consecutiveFailures := 0, lastProbeSuccess := now\<rparr>
           in if \<not> isUnhealthy st then st\<lparr>consecutiveSuccesses := 0\<rparr>
              else
                let st = st\<lparr>consecutiveSuccesses := consecutiveSuccesses st + 1\<rparr>
                in if consecutiveSuccesses st \<ge> SuccessThreshold check
                   then st\<lparr>isUnhealthy := False, consecutiveSuccesses := 0, lastRecovery := now\<rparr>
                   else st
         else
           let st = st\<lparr>consecutiveSuccesses := 0\<rparr>
           in if isUnhealthy st then st
              else
                let st = st\<lparr>consecutiveFailures := consecutiveFailures st + 1\<rparr>
                in if consecutiveFailures st \<ge> FailureThreshold check
                   then st\<lparr>isUnhealthy := True, consecutiveFailures := 0\<rparr>
                   else st)"

text \<open>The result of a finished probe.\<close>

definition probe_result :: "gotime \<Rightarrow> activeHealthJob \<Rightarrow> bool \<Rightarrow> activeHealthState \<Rightarrow> activeHealthState" where
  "probe_result now job success st =
     (if success \<or> failureConclusive job then observeLocked now (jcheck job) success st
      else st\<lparr>consecutiveSuccesses := 0\<rparr>)"

definition healthUnhealthy :: "activeHealthManager \<Rightarrow> nat option \<Rightarrow> string \<Rightarrow> bool" where
  "healthUnhealthy m rule address =
     (case rule of
        None \<Rightarrow> False
      | Some r \<Rightarrow> address \<noteq> '''' \<and> (case hstates m (r, address) of Some st \<Rightarrow> isUnhealthy st | None \<Rightarrow> False))"

section \<open>Jobs\<close>

definition activeHealthFailureConclusive :: "Rule option \<Rightarrow> Target option \<Rightarrow> bool" where
  "activeHealthFailureConclusive rule tgt =
     (case (rule, tgt) of
        (Some r, Some t) \<Rightarrow>
          (case (HealthCheck r, ConnectProxy t) of
             (Some check, Some proxy) \<Rightarrow> hcType check \<noteq> HealthCheckTCP \<or> ConnectProxyH3 \<notin> set (Protocols proxy)
           | _ \<Rightarrow> True)
      | _ \<Rightarrow> True)"

definition make_inconclusive :: "activeHealthKey \<Rightarrow> activeHealthJob list \<Rightarrow> activeHealthJob list" where
  "make_inconclusive key jobs = map (\<lambda>j. if jkey j = key then j\<lparr>failureConclusive := False\<rparr> else j) jobs"

fun target_jobs :: "nat \<Rightarrow> Rule \<Rightarrow> HealthCheckConfig \<Rightarrow> Target option list \<Rightarrow> activeHealthJob list \<Rightarrow> activeHealthJob list" where
  "target_jobs i rule check [] jobs = jobs"
| "target_jobs i rule check (None # ts) jobs = target_jobs i rule check ts jobs"
| "target_jobs i rule check (Some t # ts) jobs =
     (if Address t = '''' then target_jobs i rule check ts jobs
      else
        let key = (i, Address t); conclusive = activeHealthFailureConclusive (Some rule) (Some t)
        in if key \<in> jkey ` set jobs
           then target_jobs i rule check ts
                  (if conclusive then jobs else make_inconclusive key jobs)
           else target_jobs i rule check ts
                  (jobs @ [\<lparr>jkey = key, jtarget = Address t, jcheck = check,
                     jproxyProtocol = (case ProxyProtocol rule of Some pp \<Rightarrow> Send pp | None \<Rightarrow> ''''), failureConclusive = conclusive\<rparr>]))"

fun health_jobs :: "nat \<Rightarrow> Rule option list \<Rightarrow> activeHealthJob list \<Rightarrow> activeHealthJob list" where
  "health_jobs i [] jobs = jobs"
| "health_jobs i (rule # rules) jobs =
     health_jobs (Suc i) rules
       (case rule of
          Some r \<Rightarrow> (case HealthCheck r of Some check \<Rightarrow> target_jobs i r check (Targets r) jobs | None \<Rightarrow> jobs)
        | None \<Rightarrow> jobs)"

definition prepare_state :: "activeHealthJob \<Rightarrow> (activeHealthKey \<rightharpoonup> activeHealthState) \<Rightarrow> (activeHealthKey \<rightharpoonup> activeHealthState)" where
  "prepare_state job states =
     (let st = (case states (jkey job) of Some st \<Rightarrow> st | None \<Rightarrow> new_health_state)
      in states(jkey job \<mapsto> st\<lparr>requiredSuccesses := SuccessThreshold (jcheck job), nextProbeAt := 0, probeInFlight := False\<rparr>))"

definition health_start :: "Rule option list \<Rightarrow> activeHealthManager \<Rightarrow> activeHealthManager" where
  "health_start rules m =
     (if hstarted m then m
      else
        let jobs = health_jobs 0 rules []
        in m\<lparr>hstates := fold prepare_state jobs (hstates m), hstarted := True, checkers := map (\<lambda>job. (job, Scheduling True)) jobs\<rparr>)"

section \<open>Delays\<close>

text \<open>\<open>random\<close> is what \<^verbatim>\<open>rand.Int64N(maximum + 1)\<close> returns.\<close>

definition activeHealthRandomDuration :: "(int \<Rightarrow> int) \<Rightarrow> duration \<Rightarrow> duration" where
  "activeHealthRandomDuration random maximum = (if maximum \<le> 0 then 0 else random (maximum + 1))"

definition activeHealthInitialDelay :: "(int \<Rightarrow> int) \<Rightarrow> duration \<Rightarrow> duration" where
  "activeHealthInitialDelay random interval = activeHealthRandomDuration random (interval * activeHealthJitterPercent div 100)"

definition activeHealthIntervalDelay :: "(int \<Rightarrow> int) \<Rightarrow> duration \<Rightarrow> duration" where
  "activeHealthIntervalDelay random interval =
     (let spread = interval * activeHealthJitterPercent div 100
      in if spread \<le> 0 then interval else interval - spread + activeHealthRandomDuration random (2 * spread))"

definition probe_interval :: "activeHealthJob \<Rightarrow> duration" where
  "probe_interval job = uint (hcInterval (jcheck job)) * millisecond"

definition nextProbeDelay :: "(int \<Rightarrow> int) \<Rightarrow> activeHealthJob \<Rightarrow> activeHealthManager \<Rightarrow> duration" where
  "nextProbeDelay random job m =
     (let confirmRecovery = (hcType (jcheck job) = HealthCheckTCP
            \<and> (case hstates m (jkey job) of Some st \<Rightarrow> isUnhealthy st \<and> consecutiveSuccesses st = 1 | None \<Rightarrow> False))
      in activeHealthIntervalDelay random
           (if confirmRecovery then min (probe_interval job) activeHealthRecoveryConfirmCap else probe_interval job))"

section \<open>The checkers\<close>

datatype health_event =
    Start "Rule option list"
  | Cancel
  | Schedule nat gotime "int \<Rightarrow> int"
  | Wake nat \<comment> \<open>the timer of a checker fires\<close>
  | Leave nat \<comment> \<open>a waiting checker sees the cancelled context\<close>
  | TakeSlot nat
  | Finish nat gotime bool
  | OtherTakes
  | OtherReturns

definition put_state :: "activeHealthKey \<Rightarrow> (activeHealthState \<Rightarrow> activeHealthState) \<Rightarrow> activeHealthManager \<Rightarrow> activeHealthManager" where
  "put_state key f m = m\<lparr>hstates := (hstates m)(key := map_option f (hstates m key))\<rparr>"

definition set_checker :: "nat \<Rightarrow> checker \<Rightarrow> activeHealthManager \<Rightarrow> activeHealthManager" where
  "set_checker c pc m = m\<lparr>checkers := (checkers m)[c := (fst (checkers m ! c), pc)]\<rparr>"

definition checker_exit :: "nat \<Rightarrow> activeHealthManager \<Rightarrow> activeHealthManager" where
  "checker_exit c m =
     set_checker c Exited (put_state (jkey (fst (checkers m ! c))) (\<lambda>st. st\<lparr>nextProbeAt := 0, probeInFlight := False\<rparr>) m)"

definition health_step :: "health_event \<Rightarrow> activeHealthManager \<Rightarrow> activeHealthManager" where
  "health_step ev m =
     (case ev of
        Start rules \<Rightarrow> health_start rules m
      | Cancel \<Rightarrow> if hstarted m then m\<lparr>hcancelled := True\<rparr> else m
      | Schedule c now random \<Rightarrow>
          (if c < length (checkers m) then
             let job = fst (checkers m ! c)
             in case snd (checkers m ! c) of
                  Scheduling first \<Rightarrow>
                    let delay = (if first then activeHealthInitialDelay random (probe_interval job) else nextProbeDelay random job m)
                    in set_checker c Waiting (put_state (jkey job) (\<lambda>st. st\<lparr>nextProbeAt := now + max delay 0\<rparr>) m)
                | _ \<Rightarrow> m
           else m)
      | Wake c \<Rightarrow>
          (if c < length (checkers m) \<and> snd (checkers m ! c) = Waiting
           then (if hcancelled m then checker_exit c m else set_checker c AwaitingSlot m) else m)
      | Leave c \<Rightarrow>
          (if c < length (checkers m) \<and> hcancelled m \<and> (snd (checkers m ! c) = Waiting \<or> snd (checkers m ! c) = AwaitingSlot)
           then checker_exit c m else m)
      | TakeSlot c \<Rightarrow>
          (if c < length (checkers m) \<and> snd (checkers m ! c) = AwaitingSlot \<and> activeHealthProbeSlots m < activeHealthMaxConcurrentProbes
           then (if hcancelled m then checker_exit c m
                 else
                   let job = fst (checkers m ! c);
                       st = (case hstates m (jkey job) of Some st \<Rightarrow> st | None \<Rightarrow> new_health_state\<lparr>requiredSuccesses := SuccessThreshold (jcheck job)\<rparr>)
                   in set_checker c Probing (m\<lparr>hstates := (hstates m)(jkey job \<mapsto> st\<lparr>nextProbeAt := 0, probeInFlight := True\<rparr>)\<rparr>))
           else m)
      | Finish c now success \<Rightarrow>
          (if c < length (checkers m) \<and> snd (checkers m ! c) = Probing then
             let job = fst (checkers m ! c); m' = put_state (jkey job) (\<lambda>st. st\<lparr>probeInFlight := False\<rparr>) m
             in if hcancelled m then checker_exit c m'
                else set_checker c (Scheduling False) (put_state (jkey job) (probe_result now job success) m')
           else m)
      | OtherTakes \<Rightarrow> if activeHealthProbeSlots m < activeHealthMaxConcurrentProbes then m\<lparr>otherProbes := otherProbes m + 1\<rparr> else m
      | OtherReturns \<Rightarrow> m\<lparr>otherProbes := otherProbes m - 1\<rparr>)"

definition health_run :: "health_event list \<Rightarrow> activeHealthManager \<Rightarrow> activeHealthManager" where
  "health_run evs m = fold health_step evs m"

section \<open>Hysteresis\<close>

text \<open>The reference: what a history of conclusive results, newest first, says about a target. It is
  unhealthy after \<open>F\<close> failures in a row, healthy after \<open>S\<close> successes in a row, and otherwise what it
  was.\<close>

fun settled :: "nat \<Rightarrow> nat \<Rightarrow> bool list \<Rightarrow> bool" where
  "settled F S [] = False"
| "settled F S (b # h) =
     (if F \<le> length (takeWhile Not (b # h)) then True
      else if S \<le> length (takeWhile id (b # h)) then False
      else settled F S h)"

definition follows_history :: "nat \<Rightarrow> nat \<Rightarrow> bool list \<Rightarrow> activeHealthState \<Rightarrow> bool" where
  "follows_history F S h st \<longleftrightarrow> isUnhealthy st = settled F S h
     \<and> (if isUnhealthy st
        then consecutiveSuccesses st = int (length (takeWhile id h)) \<and> consecutiveFailures st = 0 \<and> length (takeWhile id h) < S
        else consecutiveFailures st = int (length (takeWhile Not h)) \<and> consecutiveSuccesses st = 0 \<and> length (takeWhile Not h) < F)"

lemma follows_start: "1 \<le> F \<Longrightarrow> \<not> isUnhealthy st \<Longrightarrow> consecutiveFailures st = 0 \<Longrightarrow> consecutiveSuccesses st = 0 \<Longrightarrow> follows_history F S [] st"
  by (simp add: follows_history_def)

lemma follows_observe:
  assumes "follows_history F S h st" "FailureThreshold check = int F" "SuccessThreshold check = int S" "1 \<le> F" "1 \<le> S"
  shows "follows_history F S (b # h) (observeLocked now check b st)"
proof (cases "isUnhealthy st")
  case True
  then show ?thesis using assms
    by (cases b; cases "S \<le> Suc (length (takeWhile id h))") (simp_all add: follows_history_def observeLocked_def Let_def)
next
  case False
  then show ?thesis using assms
    by (cases b; cases "F \<le> Suc (length (takeWhile Not h))") (simp_all add: follows_history_def observeLocked_def Let_def)
qed

lemma follows_cong:
  "follows_history F S h st \<Longrightarrow> isUnhealthy st' = isUnhealthy st \<Longrightarrow> consecutiveFailures st' = consecutiveFailures st \<Longrightarrow>
   consecutiveSuccesses st' = consecutiveSuccesses st \<Longrightarrow> follows_history F S h st'"
  by (simp add: follows_history_def)

section \<open>Jobs\<close>

lemma keys_inconclusive [simp]: "map jkey (make_inconclusive key jobs) = map jkey jobs"
  by (simp add: make_inconclusive_def)

lemma keyset_inconclusive [simp]: "jkey ` set (make_inconclusive key jobs) = jkey ` set jobs"
  by (metis keys_inconclusive list.set_map)

lemma target_jobs_distinct: "distinct (map jkey jobs) \<Longrightarrow> distinct (map jkey (target_jobs i rule check ts jobs))"
  by (induction i rule check ts jobs rule: target_jobs.induct) (auto simp: Let_def)

text \<open>What a job records: whether no target of its address keeps an independent HTTP/3 path.\<close>

definition job_for :: "nat \<Rightarrow> Rule \<Rightarrow> HealthCheckConfig \<Rightarrow> Target list \<Rightarrow> activeHealthJob \<Rightarrow> bool" where
  "job_for i rule check seen j \<longleftrightarrow> jcheck j = check \<and> jtarget j = snd (jkey j) \<and> snd (jkey j) \<noteq> ''''
     \<and> snd (jkey j) \<in> Address ` set seen
     \<and> (failureConclusive j \<longleftrightarrow> (\<forall>t\<in>set seen. Address t = snd (jkey j) \<longrightarrow> activeHealthFailureConclusive (Some rule) (Some t)))"

definition jobs_for :: "nat \<Rightarrow> Rule \<Rightarrow> HealthCheckConfig \<Rightarrow> Target list \<Rightarrow> activeHealthJob list \<Rightarrow> bool" where
  "jobs_for i rule check seen jobs \<longleftrightarrow> (\<forall>t\<in>set seen. Address t = '''' \<or> (i, Address t) \<in> jkey ` set jobs)
     \<and> (\<forall>j\<in>set jobs. fst (jkey j) = i \<longrightarrow> job_for i rule check seen j)"

lemma jobs_forI:
  assumes "\<And>t. t \<in> set seen \<Longrightarrow> Address t = '''' \<or> (i, Address t) \<in> jkey ` set jobs"
    and "\<And>j. j \<in> set jobs \<Longrightarrow> fst (jkey j) = i \<Longrightarrow> job_for i rule check seen j"
  shows "jobs_for i rule check seen jobs"
  using assms unfolding jobs_for_def by blast

lemma jobs_for_again:
  assumes "jobs_for i rule check seen jobs" "(i, Address t) \<in> jkey ` set jobs" "Address t \<noteq> ''''"
  shows "jobs_for i rule check (seen @ [t])
     (if activeHealthFailureConclusive (Some rule) (Some t) then jobs else make_inconclusive (i, Address t) jobs)"
proof (cases "activeHealthFailureConclusive (Some rule) (Some t)")
  case True
  then show ?thesis using assms by (auto simp: jobs_for_def job_for_def)
next
  case False
  have "jobs_for i rule check (seen @ [t]) (make_inconclusive (i, Address t) jobs)"
  proof (rule jobs_forI)
    fix u assume "u \<in> set (seen @ [t])"
    then show "Address u = '''' \<or> (i, Address u) \<in> jkey ` set (make_inconclusive (i, Address t) jobs)"
      using assms(1,2) by (auto simp: jobs_for_def)
  next
    fix j assume j: "j \<in> set (make_inconclusive (i, Address t) jobs)" "fst (jkey j) = i"
    have "j \<in> (\<lambda>k. if jkey k = (i, Address t) then k\<lparr>failureConclusive := False\<rparr> else k) ` set jobs"
      using j(1) by (simp only: make_inconclusive_def set_map)
    then obtain k where k: "k \<in> set jobs" "j = (if jkey k = (i, Address t) then k\<lparr>failureConclusive := False\<rparr> else k)"
      by (rule imageE) (rule that)
    have "jkey k = jkey j" using k(2) by (simp split: if_splits)
    then have "job_for i rule check seen k" using assms(1) k(1) j(2) unfolding jobs_for_def by metis
    show "job_for i rule check (seen @ [t]) j"
    proof (cases "jkey k = (i, Address t)")
      case True
      then have "j = k\<lparr>failureConclusive := False\<rparr>" "snd (jkey k) = Address t" using k(2) by simp_all
      then show ?thesis using \<open>job_for i rule check seen k\<close> False by (simp add: job_for_def)
    next
      case other: False
      then have "j = k" using k(2) by simp
      moreover have "snd (jkey k) \<noteq> Address t" using other j(2) \<open>jkey k = jkey j\<close> by (metis prod.collapse)
      ultimately show ?thesis using \<open>job_for i rule check seen k\<close> by (simp add: job_for_def)
    qed
  qed
  then show ?thesis using False by simp
qed

lemma jobs_for_new:
  assumes "jobs_for i rule check seen jobs" "(i, Address t) \<notin> jkey ` set jobs" "Address t \<noteq> ''''"
    and "jkey j = (i, Address t)" "jtarget j = Address t" "jcheck j = check"
      "failureConclusive j = activeHealthFailureConclusive (Some rule) (Some t)"
  shows "jobs_for i rule check (seen @ [t]) (jobs @ [j])"
proof (rule jobs_forI)
  fix u assume "u \<in> set (seen @ [t])"
  then show "Address u = '''' \<or> (i, Address u) \<in> jkey ` set (jobs @ [j])" using assms(1,4) by (auto simp: jobs_for_def)
next
  fix k assume k: "k \<in> set (jobs @ [j])" "fst (jkey k) = i"
  have new: "\<forall>u\<in>set seen. Address u \<noteq> Address t" using assms(1-3) by (auto simp: jobs_for_def)
  show "job_for i rule check (seen @ [t]) k"
  proof (cases "k = j")
    case True
    then show ?thesis using assms(3-7) new by (auto simp: job_for_def)
  next
    case False
    then have "k \<in> set jobs" using k(1) by simp
    then have "job_for i rule check seen k" "snd (jkey k) \<noteq> Address t"
      using assms(1,2) k(2) by (auto simp: jobs_for_def image_iff prod_eq_iff)
    then show ?thesis by (auto simp: job_for_def)
  qed
qed

lemma map_filter_id_simps [simp]: "List.map_filter id [] = []" "List.map_filter id (None # xs) = List.map_filter id xs"
  "List.map_filter id (Some x # xs) = x # List.map_filter id xs"
  by (simp_all add: List.map_filter_def)

lemma target_jobs_for:
  "jobs_for i rule check seen jobs \<Longrightarrow> jobs_for i rule check (seen @ List.map_filter id ts) (target_jobs i rule check ts jobs)"
proof (induction i rule check ts jobs arbitrary: seen rule: target_jobs.induct)
  case (3 i rule check t ts jobs)
  show ?case
  proof (cases "Address t = ''''")
    case True
    have "jobs_for i rule check (seen @ [t]) jobs" using 3(4) True by (auto simp: jobs_for_def job_for_def)
    from 3(1)[OF True this] show ?thesis using True by simp
  next
    case addr: False
    show ?thesis
    proof (cases "(i, Address t) \<in> jkey ` set jobs")
      case True
      from 3(2)[OF addr refl refl True jobs_for_again[OF 3(4) True addr]] show ?thesis using True addr by (simp add: Let_def)
    next
      case False
      let ?j = "\<lparr>jkey = (i, Address t), jtarget = Address t, jcheck = check,
         jproxyProtocol = (case ProxyProtocol rule of Some pp \<Rightarrow> Send pp | None \<Rightarrow> ''''),
         failureConclusive = activeHealthFailureConclusive (Some rule) (Some t)\<rparr>"
      have "jobs_for i rule check (seen @ [t]) (jobs @ [?j])" by (rule jobs_for_new[OF 3(4) False addr]) simp_all
      from 3(3)[OF addr refl refl False this] show ?thesis using False addr by (simp add: Let_def)
    qed
  qed
qed simp_all

lemma health_jobs_distinct: "distinct (map jkey jobs) \<Longrightarrow> distinct (map jkey (health_jobs i rules jobs))"
  by (induction i rules jobs rule: health_jobs.induct) (auto split: option.splits simp: target_jobs_distinct)

lemma target_jobs_others: "j \<in> set (target_jobs i rule check ts jobs) \<Longrightarrow> fst (jkey j) \<noteq> i \<Longrightarrow> j \<in> set jobs"
proof (induction i rule check ts jobs rule: target_jobs.induct)
  case (3 i rule check t ts jobs)
  have keep: "j \<in> set (make_inconclusive (i, Address t) jobs) \<Longrightarrow> j \<in> set jobs" if "fst (jkey j) \<noteq> i"
    using that by (auto simp: make_inconclusive_def split: if_splits)
  show ?case
  proof (cases "Address t = ''''")
    case True
    then show ?thesis using 3 by simp
  next
    case addr: False
    show ?thesis
    proof (cases "(i, Address t) \<in> jkey ` set jobs")
      case True
      from 3(2)[OF addr refl refl True _ 3(5)] 3(4) True addr keep[OF 3(5)] show ?thesis by (auto simp: Let_def split: if_splits)
    next
      case False
      from 3(3)[OF addr refl refl False _ 3(5)] 3(4,5) False addr show ?thesis by (auto simp: Let_def)
    qed
  qed
qed simp_all

definition known_targets :: "Rule \<Rightarrow> Target list" where
  "known_targets r = List.map_filter id (Targets r)"

text \<open>The jobs are exactly those of the rules with a check: one for each address.\<close>

definition jobs_ok :: "Rule option list \<Rightarrow> nat \<Rightarrow> activeHealthJob list \<Rightarrow> bool" where
  "jobs_ok rules n jobs \<longleftrightarrow> distinct (map jkey jobs)
     \<and> (\<forall>j\<in>set jobs. fst (jkey j) < n \<and> (\<exists>r check. rules ! fst (jkey j) = Some r \<and> HealthCheck r = Some check
          \<and> job_for (fst (jkey j)) r check (known_targets r) j))
     \<and> (\<forall>i < n. \<forall>r check. rules ! i = Some r \<and> HealthCheck r = Some check
          \<longrightarrow> (\<forall>t\<in>set (known_targets r). Address t \<noteq> '''' \<longrightarrow> (i, Address t) \<in> jkey ` set jobs))"

lemma target_jobs_keys: "k \<in> jkey ` set jobs \<Longrightarrow> k \<in> jkey ` set (target_jobs i rule check ts jobs)"
proof (induction i rule check ts jobs rule: target_jobs.induct)
  case (3 i rule check t ts jobs)
  show ?case
  proof (cases "Address t = ''''")
    case True
    then show ?thesis using 3(1)[OF True 3(4)] by simp
  next
    case addr: False
    show ?thesis
    proof (cases "(i, Address t) \<in> jkey ` set jobs")
      case True
      have "k \<in> jkey ` set (if activeHealthFailureConclusive (Some rule) (Some t) then jobs else make_inconclusive (i, Address t) jobs)"
        using 3(4) by (cases "activeHealthFailureConclusive (Some rule) (Some t)") (simp_all only: if_True if_False keyset_inconclusive)
      from 3(2)[OF addr refl refl True this] show ?thesis using True addr by (simp only: target_jobs.simps Let_def if_True if_False)
    next
      case False
      from 3(3)[OF addr refl refl False] 3(4) show ?thesis using False addr by (simp add: Let_def)
    qed
  qed
qed simp_all

lemma jobs_ok_rule:
  assumes "jobs_ok rules n jobs" "rules ! n = Some r" "HealthCheck r = Some check"
  shows "jobs_ok rules (Suc n) (target_jobs n r check (Targets r) jobs)"
proof -
  let ?jobs = "target_jobs n r check (Targets r) jobs"
  have old: "\<forall>j\<in>set jobs. fst (jkey j) < n" using assms(1) by (auto simp: jobs_ok_def)
  then have "jobs_for n r check [] jobs" by (auto simp: jobs_for_def)
  from target_jobs_for[OF this, of "Targets r"] have new: "jobs_for n r check (known_targets r) ?jobs" by (simp add: known_targets_def)
  show ?thesis unfolding jobs_ok_def
  proof (intro conjI ballI allI impI)
    show "distinct (map jkey ?jobs)" using assms(1) by (simp add: jobs_ok_def target_jobs_distinct)
  next
    fix j assume j: "j \<in> set ?jobs"
    show "fst (jkey j) < Suc n"
      using target_jobs_others[OF j] old by (metis less_Suc_eq)
    show "\<exists>r check. rules ! fst (jkey j) = Some r \<and> HealthCheck r = Some check \<and> job_for (fst (jkey j)) r check (known_targets r) j"
    proof (cases "fst (jkey j) = n")
      case True
      then have "job_for n r check (known_targets r) j" using new j by (simp add: jobs_for_def)
      then show ?thesis using assms(2,3) True by auto
    next
      case False
      then have "j \<in> set jobs" by (rule target_jobs_others[OF j])
      then show ?thesis using assms(1) by (simp add: jobs_ok_def)
    qed
  next
    fix i r2 check2 t
    assume i: "i < Suc n" "rules ! i = Some r2 \<and> HealthCheck r2 = Some check2" "t \<in> set (known_targets r2)" "Address t \<noteq> ''''"
    show "(i, Address t) \<in> jkey ` set ?jobs"
    proof (cases "i = n")
      case True
      then show ?thesis using new i(2-4) assms(2) by (auto simp: jobs_for_def)
    next
      case False
      then have "i < n" using i(1) by simp
      then have "(i, Address t) \<in> jkey ` set jobs" using assms(1) i(2-4) unfolding jobs_ok_def by blast
      then show ?thesis by (rule target_jobs_keys)
    qed
  qed
qed

lemma jobs_ok_skip:
  assumes "jobs_ok rules n jobs" "rules ! n = None \<or> (\<exists>r. rules ! n = Some r \<and> HealthCheck r = None)"
  shows "jobs_ok rules (Suc n) jobs"
  using assms unfolding jobs_ok_def less_Suc_eq by fastforce

lemma health_jobs_ok:
  "jobs_ok (done_rules @ rules) (length done_rules) jobs \<Longrightarrow>
   jobs_ok (done_rules @ rules) (length (done_rules @ rules)) (health_jobs (length done_rules) rules jobs)"
proof (induction rules arbitrary: done_rules jobs)
  case (Cons rule rules)
  have nth: "(done_rules @ rule # rules) ! length done_rules = rule" by simp
  have "jobs_ok ((done_rules @ [rule]) @ rules) (length (done_rules @ [rule]))
      (case rule of Some r \<Rightarrow> (case HealthCheck r of Some check \<Rightarrow> target_jobs (length done_rules) r check (Targets r) jobs | None \<Rightarrow> jobs) | None \<Rightarrow> jobs)"
    using jobs_ok_skip[OF Cons.prems] jobs_ok_rule[OF Cons.prems] nth by (auto split: option.splits)
  from Cons.IH[OF this] show ?case by simp
qed simp

lemma start_jobs_ok: "jobs_ok rules (length rules) (health_jobs 0 rules [])"
proof -
  have "jobs_ok ([] @ rules) (length []) []" by (simp add: jobs_ok_def)
  from health_jobs_ok[OF this] show ?thesis by simp
qed

section \<open>What the checkers have observed\<close>

definition step_observed :: "health_event \<Rightarrow> activeHealthManager \<Rightarrow> activeHealthKey \<Rightarrow> bool list" where
  "step_observed ev m key =
     (case ev of
        Finish c now success \<Rightarrow>
          (if c < length (checkers m) \<and> snd (checkers m ! c) = Probing \<and> \<not> hcancelled m \<and> jkey (fst (checkers m ! c)) = key
           then [success] else [])
      | _ \<Rightarrow> [])"

fun health_observed :: "health_event list \<Rightarrow> activeHealthManager \<Rightarrow> activeHealthKey \<Rightarrow> bool list" where
  "health_observed [] m key = []"
| "health_observed (ev # evs) m key = step_observed ev m key @ health_observed evs (health_step ev m) key"

definition valid_job :: "activeHealthJob \<Rightarrow> bool" where
  "valid_job j \<longleftrightarrow> 1 \<le> FailureThreshold (jcheck j) \<and> 1 \<le> SuccessThreshold (jcheck j)"

definition tracks :: "activeHealthJob \<Rightarrow> bool list \<Rightarrow> activeHealthState \<Rightarrow> bool" where
  "tracks j h st \<longleftrightarrow>
     (if failureConclusive j then follows_history (nat (FailureThreshold (jcheck j))) (nat (SuccessThreshold (jcheck j))) h st
      else \<not> isUnhealthy st)"

definition running :: "activeHealthJob list \<Rightarrow> (activeHealthKey \<Rightarrow> bool list) \<Rightarrow> activeHealthManager \<Rightarrow> bool" where
  "running jobs H m \<longleftrightarrow> map fst (checkers m) = jobs \<and> hstarted m
     \<and> (\<forall>j\<in>set jobs. \<exists>st. hstates m (jkey j) = Some st \<and> tracks j (H (jkey j)) st)"

definition same_verdict :: "activeHealthState \<Rightarrow> activeHealthState \<Rightarrow> bool" where
  "same_verdict st st' \<longleftrightarrow> isUnhealthy st' = isUnhealthy st \<and> consecutiveFailures st' = consecutiveFailures st
     \<and> consecutiveSuccesses st' = consecutiveSuccesses st"

lemma tracks_same: "tracks j h st \<Longrightarrow> same_verdict st st' \<Longrightarrow> tracks j h st'"
  unfolding tracks_def same_verdict_def using follows_cong by (metis (no_types))

lemma tracks_result:
  assumes "tracks j h st" "valid_job j"
  shows "tracks j (b # h) (probe_result now j b st)"
proof (cases "failureConclusive j")
  case True
  have "FailureThreshold (jcheck j) = int (nat (FailureThreshold (jcheck j)))" "SuccessThreshold (jcheck j) = int (nat (SuccessThreshold (jcheck j)))"
    "1 \<le> nat (FailureThreshold (jcheck j))" "1 \<le> nat (SuccessThreshold (jcheck j))" using assms(2) by (auto simp: valid_job_def)
  from follows_observe[OF _ this] assms(1) True show ?thesis by (simp add: tracks_def probe_result_def)
next
  case False
  then have "\<not> isUnhealthy st" using assms(1) by (simp add: tracks_def)
  then have "\<not> isUnhealthy (probe_result now j b st)" using False by (cases b) (simp_all add: probe_result_def observeLocked_def)
  then show ?thesis using False by (simp add: tracks_def)
qed

lemma map_fst_update: "c < length xs \<Longrightarrow> map fst (xs[c := (fst (xs ! c), v)]) = map fst xs"
  by (metis fst_conv list_update_id map_update nth_map)

lemma checker_fst_set [simp]: "c < length (checkers m) \<Longrightarrow> map fst (checkers (set_checker c pc m)) = map fst (checkers m)"
  by (simp add: set_checker_def map_fst_update)

lemma checker_fields [simp]:
  "hstates (set_checker c pc m) = hstates m" "hstarted (set_checker c pc m) = hstarted m" "hcancelled (set_checker c pc m) = hcancelled m"
  "checkers (put_state key f m) = checkers m" "hstarted (put_state key f m) = hstarted m" "hcancelled (put_state key f m) = hcancelled m"
  "otherProbes (set_checker c pc m) = otherProbes m" "otherProbes (put_state key f m) = otherProbes m"
  "hstates (put_state key f m) = (hstates m)(key := map_option f (hstates m key))"
  by (simp_all add: set_checker_def put_state_def)

lemma running_put:
  assumes "running jobs H m" "checkers m' = checkers m \<or> map fst (checkers m') = map fst (checkers m)" "hstarted m'"
    and "hstates m' = (hstates m)(key := st')" "\<And>st. hstates m key = Some st \<Longrightarrow> \<exists>u. st' = Some u \<and> same_verdict st u"
  shows "running jobs H m'"
  unfolding running_def
proof (intro conjI ballI)
  fix j assume j: "j \<in> set jobs"
  then obtain st where st: "hstates m (jkey j) = Some st" "tracks j (H (jkey j)) st" using assms(1) unfolding running_def by blast
  show "\<exists>st. hstates m' (jkey j) = Some st \<and> tracks j (H (jkey j)) st"
  proof (cases "jkey j = key")
    case True
    then obtain u where "st' = Some u" "same_verdict st u" using assms(5) st(1) by blast
    then show ?thesis using True assms(4) tracks_same[OF st(2)] by auto
  next
    case False
    then show ?thesis using assms(4) st by simp
  qed
qed (use assms(1-3) in \<open>auto simp: running_def\<close>)

lemma running_exit:
  assumes "running jobs H m" "c < length (checkers m)"
  shows "running jobs H (checker_exit c m)"
  by (rule running_put[OF assms(1), of _ "jkey (fst (checkers m ! c))"
        "map_option (\<lambda>st. st\<lparr>nextProbeAt := 0, probeInFlight := False\<rparr>) (hstates m (jkey (fst (checkers m ! c))))"])
    (use assms in \<open>auto simp: checker_exit_def same_verdict_def running_def\<close>)

lemma running_step:
  assumes "running jobs H m" "\<forall>j\<in>set jobs. valid_job j" "distinct (map jkey jobs)"
  shows "running jobs (\<lambda>k. step_observed ev m k @ H k) (health_step ev m)"
proof -
  have quiet: ?thesis if "\<And>k. step_observed ev m k = []" "running jobs H (health_step ev m)"
  proof -
    have "(\<lambda>k. step_observed ev m k @ H k) = H" by (rule ext) (simp add: that(1))
    then show ?thesis using that(2) by simp
  qed
  have flag: "running jobs H m'" if "checkers m' = checkers m" "hstates m' = hstates m" "hstarted m'" for m'
    using assms(1) that by (simp add: running_def)
  have pc: "running jobs H (set_checker c p m)" if "c < length (checkers m)" for c p
    using assms(1) that by (simp add: running_def)
  have started: "hstarted m" using assms(1) by (simp add: running_def)
  show ?thesis
  proof (cases ev)
    case (Start rules)
    then show ?thesis using assms(1) started by (simp add: step_observed_def health_step_def health_start_def)
  next
    case Cancel
    have "running jobs H (m\<lparr>hcancelled := True\<rparr>)" by (rule flag) (simp_all add: started)
    then show ?thesis using started by (simp add: Cancel step_observed_def health_step_def)
  next
    case (Wake c)
    have "running jobs H (health_step ev m)" unfolding Wake health_step_def using assms(1) running_exit[OF assms(1), of c] pc by simp
    then show ?thesis by (intro quiet) (simp_all add: Wake step_observed_def)
  next
    case (Leave c)
    have "running jobs H (health_step ev m)" unfolding Leave health_step_def using assms(1) running_exit[OF assms(1), of c] by simp
    then show ?thesis by (intro quiet) (simp_all add: Leave step_observed_def)
  next
    case OtherTakes
    have "running jobs H (m\<lparr>otherProbes := otherProbes m + 1\<rparr>)" by (rule flag) (simp_all add: started)
    then show ?thesis using assms(1) by (simp add: OtherTakes step_observed_def health_step_def)
  next
    case OtherReturns
    have "running jobs H (m\<lparr>otherProbes := otherProbes m - 1\<rparr>)" by (rule flag) (simp_all add: started)
    then show ?thesis using assms(1) by (simp add: OtherReturns step_observed_def health_step_def)
  next
    case (Schedule c now random)
    have "running jobs H (set_checker c Waiting (put_state key (\<lambda>st. st\<lparr>nextProbeAt := t\<rparr>) m))" if "c < length (checkers m)" for key t
      by (rule running_put[OF assms(1), of _ key "map_option (\<lambda>st. st\<lparr>nextProbeAt := t\<rparr>) (hstates m key)"])
        (use that started in \<open>auto simp: same_verdict_def\<close>)
    then have "running jobs H (health_step ev m)" unfolding Schedule health_step_def
      using assms(1) by (simp add: Let_def split: checker.splits)
    then show ?thesis by (intro quiet) (simp_all add: Schedule step_observed_def)
  next
    case (TakeSlot c)
    have "running jobs H (health_step ev m)"
    proof (cases "c < length (checkers m) \<and> snd (checkers m ! c) = AwaitingSlot \<and> activeHealthProbeSlots m < activeHealthMaxConcurrentProbes")
      case False
      then have "health_step ev m = m" unfolding TakeSlot health_step_def by (simp only: health_event.case if_False)
      then show ?thesis using assms(1) by simp
    next
      case True
      let ?job = "fst (checkers m ! c)"
      let ?st = "case hstates m (jkey ?job) of Some st \<Rightarrow> st | None \<Rightarrow> new_health_state\<lparr>requiredSuccesses := SuccessThreshold (jcheck ?job)\<rparr>"
      show ?thesis
      proof (cases "hcancelled m")
        case True
        then show ?thesis using \<open>c < length (checkers m) \<and> _\<close> running_exit[OF assms(1), of c] unfolding TakeSlot health_step_def by simp
      next
        case False
        have "running jobs H (set_checker c Probing (m\<lparr>hstates := (hstates m)(jkey ?job \<mapsto> ?st\<lparr>nextProbeAt := 0, probeInFlight := True\<rparr>)\<rparr>))"
          by (rule running_put[OF assms(1), of _ "jkey ?job" "Some (?st\<lparr>nextProbeAt := 0, probeInFlight := True\<rparr>)"])
            (use True started in \<open>auto simp: same_verdict_def set_checker_def map_fst_update\<close>)
        then show ?thesis using True False unfolding TakeSlot health_step_def by (simp add: Let_def)
      qed
    qed
    then show ?thesis by (intro quiet) (simp_all add: TakeSlot step_observed_def)
  next
    case (Finish c now success)
    show ?thesis
    proof (cases "c < length (checkers m) \<and> snd (checkers m ! c) = Probing")
      case False
      then show ?thesis using assms(1) unfolding Finish health_step_def step_observed_def by auto
    next
      case c: True
      let ?job = "fst (checkers m ! c)"
      let ?m = "put_state (jkey ?job) (\<lambda>st. st\<lparr>probeInFlight := False\<rparr>) m"
      have job: "?job \<in> set jobs" using assms(1) c by (auto simp: running_def)
      have m1: "running jobs H ?m"
        by (rule running_put[OF assms(1), of _ "jkey ?job" "map_option (\<lambda>st. st\<lparr>probeInFlight := False\<rparr>) (hstates m (jkey ?job))"])
          (use started in \<open>auto simp: same_verdict_def\<close>)
      show ?thesis
      proof (cases "hcancelled m")
        case True
        then have "health_step ev m = checker_exit c ?m" using c by (simp add: Finish health_step_def Let_def)
        moreover have "step_observed ev m k = []" for k using True by (simp add: Finish step_observed_def)
        ultimately show ?thesis using running_exit[OF m1, of c] c by (intro quiet) simp_all
      next
        case False
        let ?n = "set_checker c (Scheduling False) (put_state (jkey ?job) (probe_result now ?job success) ?m)"
        have step: "health_step ev m = ?n" using c False by (simp add: Finish health_step_def Let_def)
        have obs: "step_observed ev m k = (if k = jkey ?job then [success] else [])" for k
          using c False by (auto simp: Finish step_observed_def)
        show ?thesis unfolding step running_def
        proof (intro conjI ballI)
          show "map fst (checkers ?n) = jobs" using assms(1) c by (simp add: running_def)
          show "hstarted ?n" using started by simp
        next
          fix j assume j: "j \<in> set jobs"
          then obtain st where st: "hstates ?m (jkey j) = Some st" "tracks j (H (jkey j)) st" using m1 unfolding running_def by blast
          show "\<exists>st. hstates ?n (jkey j) = Some st \<and> tracks j (step_observed ev m (jkey j) @ H (jkey j)) st"
          proof (cases "jkey j = jkey ?job")
            case True
            then have "j = ?job" using assms(3) j job by (metis distinct_map inj_onD)
            moreover have "valid_job j" using assms(2) j by blast
            moreover have "hstates ?n (jkey j) = Some (probe_result now ?job success st)" using st(1) True by auto
            ultimately show ?thesis using True tracks_result[OF st(2), of success now] by (simp only: obs if_True append.simps) blast
          next
            case False
            then show ?thesis using st by (simp add: obs)
          qed
        qed
      qed
    qed
  qed
qed

lemma running_run:
  assumes "running jobs H m" "\<forall>j\<in>set jobs. valid_job j" "distinct (map jkey jobs)"
  shows "running jobs (\<lambda>k. rev (health_observed evs m k) @ H k) (health_run evs m)"
  using assms(1)
proof (induction evs arbitrary: m H)
  case Nil
  then show ?case by (simp add: health_run_def)
next
  case (Cons ev evs)
  have o: "rev (step_observed ev m k) = step_observed ev m k" for k by (auto simp: step_observed_def split: health_event.splits)
  show ?case using Cons.IH[OF running_step[OF Cons.prems assms(2,3), of ev]] by (simp add: health_run_def o)
qed

lemma prepare_states:
  assumes "distinct (map jkey jobs)" "j \<in> set jobs" "\<forall>j\<in>set jobs. states (jkey j) = None"
  shows "\<exists>st. fold prepare_state jobs states (jkey j) = Some st \<and> same_verdict new_health_state st"
  using assms
proof (induction jobs arbitrary: states)
  case (Cons k jobs)
  have other: "fold prepare_state js s (jkey k) = s (jkey k)" if "jkey k \<notin> jkey ` set js" for js s
    using that by (induction js arbitrary: s) (auto simp: prepare_state_def Let_def)
  show ?case
  proof (cases "j = k")
    case True
    have "jkey k \<notin> jkey ` set jobs" using Cons.prems(1) by auto
    then have "fold prepare_state (k # jobs) states (jkey j) = prepare_state k states (jkey k)" using True other by simp
    moreover have "\<exists>st. prepare_state k states (jkey k) = Some st \<and> same_verdict new_health_state st"
      using Cons.prems(3) by (simp add: prepare_state_def Let_def same_verdict_def)
    ultimately show ?thesis by simp
  next
    case False
    then have j: "j \<in> set jobs" using Cons.prems(2) by simp
    have "\<forall>i\<in>set jobs. prepare_state k states (jkey i) = None"
      using Cons.prems(1,3) by (auto simp: prepare_state_def Let_def image_iff)
    then show ?thesis using Cons.IH[OF _ j] Cons.prems(1) by simp
  qed
qed simp

section \<open>The slots\<close>

lemma cnt_set_checker:
  "c < length (checkers m) \<Longrightarrow> cnt probing (checkers (set_checker c pc m)) + (if snd (checkers m ! c) = Probing then 1 else 0)
     = cnt probing (checkers m) + (if pc = Probing then 1 else 0)"
  using cnt_update[of c "checkers m" probing "(fst (checkers m ! c), pc)"] by (simp add: set_checker_def probing_def)

text \<open>A checker's flag in its state says that it is probing; the slots are never oversubscribed.\<close>

definition flags_ok :: "activeHealthManager \<Rightarrow> bool" where
  "flags_ok m \<longleftrightarrow> (\<forall>c < length (checkers m). \<exists>st. hstates m (jkey (fst (checkers m ! c))) = Some st
     \<and> (probeInFlight st \<longleftrightarrow> snd (checkers m ! c) = Probing))"

definition health_inv :: "activeHealthManager \<Rightarrow> bool" where
  "health_inv m \<longleftrightarrow> distinct (map (jkey \<circ> fst) (checkers m)) \<and> flags_ok m
     \<and> activeHealthProbeSlots m \<le> activeHealthMaxConcurrentProbes"

lemma flags_update:
  assumes "flags_ok m" "distinct (map (jkey \<circ> fst) (checkers m))" "c < length (checkers m)"
    and "checkers m' = (checkers m)[c := (fst (checkers m ! c), pc)]"
    and "hstates m' = (hstates m)(jkey (fst (checkers m ! c)) := st')"
    and "\<And>st. hstates m (jkey (fst (checkers m ! c))) = Some st \<Longrightarrow> (probeInFlight st \<longleftrightarrow> snd (checkers m ! c) = Probing) \<Longrightarrow>
      \<exists>u. st' = Some u \<and> (probeInFlight u \<longleftrightarrow> pc = Probing)"
  shows "flags_ok m'"
  unfolding flags_ok_def
proof (intro allI impI)
  fix d assume "d < length (checkers m')"
  then have d: "d < length (checkers m)" by (simp add: assms(4))
  show "\<exists>st. hstates m' (jkey (fst (checkers m' ! d))) = Some st \<and> (probeInFlight st \<longleftrightarrow> snd (checkers m' ! d) = Probing)"
  proof (cases "d = c")
    case True
    then show ?thesis using assms(1,3,6) by (auto simp: assms(4,5) flags_ok_def)
  next
    case False
    then have "jkey (fst (checkers m ! d)) \<noteq> jkey (fst (checkers m ! c))"
      using assms(2,3) d by (auto simp: distinct_conv_nth)
    then show ?thesis using assms(1) d False by (simp add: assms(4,5) flags_ok_def)
  qed
qed

lemma keys_update: "c < length xs \<Longrightarrow> map (jkey \<circ> fst) (xs[c := (fst (xs ! c), pc)]) = map (jkey \<circ> fst) xs"
  by (metis map_fst_update list.map_comp)

text \<open>One checker moves and the slots follow.\<close>

lemma inv_checker:
  assumes "health_inv m" "c < length (checkers m)" "checkers m' = (checkers m)[c := (fst (checkers m ! c), pc)]"
    and "hstates m' = (hstates m)(jkey (fst (checkers m ! c)) := st')" "otherProbes m' = otherProbes m"
    and "\<And>st. hstates m (jkey (fst (checkers m ! c))) = Some st \<Longrightarrow> (probeInFlight st \<longleftrightarrow> snd (checkers m ! c) = Probing) \<Longrightarrow>
      \<exists>u. st' = Some u \<and> (probeInFlight u \<longleftrightarrow> pc = Probing)"
    and "pc = Probing \<Longrightarrow> snd (checkers m ! c) = Probing \<or> activeHealthProbeSlots m < activeHealthMaxConcurrentProbes"
  shows "health_inv m'"
proof -
  have k: "distinct (map (jkey \<circ> fst) (checkers m))" "flags_ok m" "activeHealthProbeSlots m \<le> activeHealthMaxConcurrentProbes"
    using assms(1) by (simp_all add: health_inv_def)
  have "cnt probing (checkers m') + (if snd (checkers m ! c) = Probing then 1 else 0)
     = cnt probing (checkers m) + (if pc = Probing then 1 else 0)"
    using cnt_set_checker[OF assms(2), of pc] by (simp add: assms(3) set_checker_def)
  then have "activeHealthProbeSlots m' \<le> activeHealthMaxConcurrentProbes"
    using k(3) assms(5,7) by (simp add: activeHealthProbeSlots_def split: if_splits)
  moreover have "flags_ok m'" by (rule flags_update[OF k(2,1) assms(2,3,4,6)])
  moreover have "distinct (map (jkey \<circ> fst) (checkers m'))" using k(1) keys_update[OF assms(2)] by (simp only: assms(3))
  ultimately show ?thesis by (simp add: health_inv_def)
qed

lemma inv_exit:
  assumes "health_inv m" "c < length (checkers m)"
  shows "health_inv (checker_exit c m)"
  by (rule inv_checker[OF assms, of _ Exited "map_option (\<lambda>st. st\<lparr>nextProbeAt := 0, probeInFlight := False\<rparr>) (hstates m (jkey (fst (checkers m ! c))))"])
    (auto simp: checker_exit_def set_checker_def put_state_def)

lemma inv_move:
  assumes "health_inv m" "c < length (checkers m)" "snd (checkers m ! c) \<noteq> Probing" "pc \<noteq> Probing"
  shows "health_inv (set_checker c pc m)"
  by (rule inv_checker[OF assms(1,2), of _ pc "hstates m (jkey (fst (checkers m ! c)))"])
    (use assms(3,4) in \<open>auto simp: set_checker_def\<close>)

lemma inv_start:
  assumes "health_inv m" "checkers m = [] \<or> hstarted m"
  shows "health_inv (health_start rules m)"
proof (cases "hstarted m")
  case True
  then show ?thesis using assms(1) by (simp add: health_start_def)
next
  case False
  let ?jobs = "health_jobs 0 rules []"
  have d: "distinct (map jkey ?jobs)" using start_jobs_ok by (simp add: jobs_ok_def)
  have e: "checkers m = []" using assms(2) False by blast
  have other: "fold prepare_state js s k = s k" if "k \<notin> jkey ` set js" for js s k
    using that by (induction js arbitrary: s) (auto simp: prepare_state_def Let_def)
  have "\<exists>st. fold prepare_state js s (jkey j) = Some st \<and> \<not> probeInFlight st" if "j \<in> set js" "distinct (map jkey js)" for js s j
    using that
  proof (induction js arbitrary: s)
    case (Cons k js)
    show ?case
    proof (cases "j \<in> set js")
      case True
      then show ?thesis using Cons by simp
    next
      case False
      then have "j = k" "jkey k \<notin> jkey ` set js" using Cons.prems by auto
      then have "fold prepare_state (k # js) s (jkey j) = prepare_state k s (jkey k)" using other[of "jkey k" js] by simp
      moreover have "\<exists>st. prepare_state k s (jkey k) = Some st \<and> \<not> probeInFlight st" by (simp add: prepare_state_def Let_def)
      ultimately show ?thesis by simp
    qed
  qed simp
  then have "flags_ok (health_start rules m)" using False d by (auto simp: flags_ok_def health_start_def Let_def)
  moreover have "cnt probing (map (\<lambda>job. (job, Scheduling True)) ?jobs) = 0" by (auto simp: cnt_zero probing_def)
  then have "activeHealthProbeSlots (health_start rules m) \<le> activeHealthMaxConcurrentProbes"
    using assms(1) False e by (simp add: health_inv_def activeHealthProbeSlots_def health_start_def Let_def)
  moreover have "distinct (map (jkey \<circ> fst) (checkers (health_start rules m)))"
    using d False by (simp add: health_start_def Let_def o_def)
  ultimately show ?thesis by (simp add: health_inv_def)
qed

definition health_ok :: "activeHealthManager \<Rightarrow> bool" where
  "health_ok m \<longleftrightarrow> health_inv m \<and> (checkers m = [] \<or> hstarted m)"

lemma started_kept: "checkers m = [] \<or> hstarted m \<Longrightarrow> checkers (health_step ev m) = [] \<or> hstarted (health_step ev m)"
  by (cases ev) (auto simp: health_step_def health_start_def Let_def checker_exit_def split: checker.splits if_splits)

lemma inv_health_step:
  assumes "health_inv m" "checkers m = [] \<or> hstarted m"
  shows "health_inv (health_step ev m)"
proof (cases ev)
  case (Start rules)
  then show ?thesis using inv_start[OF assms] by (simp add: health_step_def)
next
  case Cancel
  then show ?thesis using assms(1) by (simp add: health_step_def health_inv_def flags_ok_def activeHealthProbeSlots_def)
next
  case (Schedule c now random)
  have "health_inv (set_checker c Waiting (put_state (jkey (fst (checkers m ! c))) (\<lambda>st. st\<lparr>nextProbeAt := t\<rparr>) m))"
    if "c < length (checkers m)" "snd (checkers m ! c) = Scheduling first" for t first
    by (rule inv_checker[OF assms(1) that(1), of _ Waiting "map_option (\<lambda>st. st\<lparr>nextProbeAt := t\<rparr>) (hstates m (jkey (fst (checkers m ! c))))"])
      (use that(2) in \<open>auto simp: set_checker_def put_state_def\<close>)
  then show ?thesis using assms(1) by (simp add: Schedule health_step_def Let_def split: checker.splits)
next
  case (Wake c)
  then show ?thesis using assms(1) inv_exit[OF assms(1), of c] inv_move[OF assms(1), of c AwaitingSlot] by (simp add: health_step_def)
next
  case (Leave c)
  then show ?thesis using assms(1) inv_exit[OF assms(1), of c] by (simp add: health_step_def)
next
  case (TakeSlot c)
  let ?job = "fst (checkers m ! c)"
  let ?st = "case hstates m (jkey ?job) of Some st \<Rightarrow> st | None \<Rightarrow> new_health_state\<lparr>requiredSuccesses := SuccessThreshold (jcheck ?job)\<rparr>"
  have "health_inv (set_checker c Probing (m\<lparr>hstates := (hstates m)(jkey ?job \<mapsto> ?st\<lparr>nextProbeAt := 0, probeInFlight := True\<rparr>)\<rparr>))"
    if "c < length (checkers m)" "activeHealthProbeSlots m < activeHealthMaxConcurrentProbes"
    by (rule inv_checker[OF assms(1) that(1), of _ Probing "Some (?st\<lparr>nextProbeAt := 0, probeInFlight := True\<rparr>)"])
      (use that(2) in \<open>auto simp: set_checker_def\<close>)
  then show ?thesis using assms(1) inv_exit[OF assms(1), of c] by (simp add: TakeSlot health_step_def Let_def)
next
  case (Finish c now success)
  let ?job = "fst (checkers m ! c)" let ?m = "put_state (jkey ?job) (\<lambda>st. st\<lparr>probeInFlight := False\<rparr>) m"
  have "health_inv (set_checker c (Scheduling False) (put_state (jkey ?job) (probe_result now ?job success) ?m))" if "c < length (checkers m)"
    by (rule inv_checker[OF assms(1) that, of _ "Scheduling False"
          "map_option (probe_result now ?job success) (map_option (\<lambda>st. st\<lparr>probeInFlight := False\<rparr>) (hstates m (jkey ?job)))"])
      (auto simp: set_checker_def put_state_def probe_result_def observeLocked_def Let_def)
  moreover have "health_inv (checker_exit c ?m)" if "c < length (checkers m)"
    by (rule inv_checker[OF assms(1) that, of _ Exited
          "map_option (\<lambda>st. st\<lparr>nextProbeAt := 0, probeInFlight := False\<rparr>) (map_option (\<lambda>st. st\<lparr>probeInFlight := False\<rparr>) (hstates m (jkey ?job)))"])
      (auto simp: checker_exit_def set_checker_def put_state_def)
  ultimately show ?thesis using assms(1) by (simp add: Finish health_step_def Let_def)
next
  case OtherTakes
  then show ?thesis using assms(1) by (auto simp: health_step_def health_inv_def flags_ok_def activeHealthProbeSlots_def)
next
  case OtherReturns
  then show ?thesis using assms(1) by (auto simp: health_step_def health_inv_def flags_ok_def activeHealthProbeSlots_def)
qed

interpretation ah: invariant_system "\<lambda>m. m = newActiveHealthManager" "\<lambda>m m'. \<exists>ev. m' = health_step ev m" health_ok
proof
  show "m = newActiveHealthManager \<Longrightarrow> health_ok m" for m
    by (simp add: health_ok_def health_inv_def flags_ok_def newActiveHealthManager_def activeHealthProbeSlots_def cnt_def)
  show "health_ok m \<Longrightarrow> \<exists>ev. m' = health_step ev m \<Longrightarrow> health_ok m'" for m m'
    using inv_health_step started_kept by (auto simp: health_ok_def)
qed

lemma health_run_reachable: "(\<lambda>m m'. \<exists>ev. m' = health_step ev m)\<^sup>*\<^sup>* m (health_run evs m)"
proof (induction evs arbitrary: m)
  case (Cons ev evs)
  have "(\<lambda>m m'. \<exists>ev. m' = health_step ev m) m (health_step ev m)" by blast
  then show ?case using Cons.IH[of "health_step ev m"] by (simp add: health_run_def converse_rtranclp_into_rtranclp)
qed (simp add: health_run_def)

section \<open>Properties\<close>

text \<open>C16: under every interleaving of the checkers of a generation, and of the probes of other generations,
  at most 32 probes run at a time; the checkers have different rule and address pairs, and the state
  of each says that a probe is in flight exactly while its checker is probing.\<close>

theorem probe_slots_respected:
  fixes evs :: "health_event list"
  defines "m \<equiv> health_run evs newActiveHealthManager"
  shows "otherProbes m + cnt probing (checkers m) \<le> 32 \<and> distinct (map (jkey \<circ> fst) (checkers m))
    \<and> list_all (\<lambda>(job, pc). \<exists>st. hstates m (jkey job) = Some st \<and> probeInFlight st = (pc = Probing)) (checkers m)"
proof -
  have "health_ok m" unfolding m_def by (rule ah.reachable_inv[OF refl health_run_reachable])
  moreover have "list_all (\<lambda>(job, pc). \<exists>st. hstates m (jkey job) = Some st \<and> probeInFlight st = (pc = Probing)) (checkers m)"
    if "flags_ok m" using that by (simp add: flags_ok_def list_all_length split_beta)
  ultimately show ?thesis by (simp add: health_ok_def health_inv_def activeHealthProbeSlots_def activeHealthMaxConcurrentProbes_def)
qed

text \<open>C15: what active health says about a target is decided by the results of its own probes alone, in
  whatever order the checkers run: it is unhealthy exactly if no target of its address keeps an
  HTTP/3 path of its own and, going back through the results, a streak of failures of the configured
  length is found before one of successes.\<close>

theorem active_health_follows_results:
  assumes "i < length rules" "rules ! i = Some r" "HealthCheck r = Some check" "a \<noteq> ''''" "\<exists>t. Some t \<in> set (Targets r) \<and> Address t = a"
    and "\<And>r' check'. Some r' \<in> set rules \<Longrightarrow> HealthCheck r' = Some check' \<Longrightarrow> 1 \<le> FailureThreshold check' \<and> 1 \<le> SuccessThreshold check'"
  shows "let m0 = health_start rules newActiveHealthManager in
    healthUnhealthy (health_run evs m0) (Some i) a \<longleftrightarrow>
      (\<forall>t. Some t \<in> set (Targets r) \<and> Address t = a \<longrightarrow> activeHealthFailureConclusive (Some r) (Some t))
      \<and> settled (nat (FailureThreshold check)) (nat (SuccessThreshold check)) (rev (health_observed evs m0 (i, a)))"
proof -
  let ?start = "health_start rules newActiveHealthManager" and ?jobs = "health_jobs 0 rules []"
  have ok: "jobs_ok rules (length rules) ?jobs" by (rule start_jobs_ok)
  then have dist: "distinct (map jkey ?jobs)" by (simp add: jobs_ok_def)
  have of_job: "\<exists>r check. rules ! fst (jkey j) = Some r \<and> HealthCheck r = Some check \<and> fst (jkey j) < length rules
      \<and> job_for (fst (jkey j)) r check (known_targets r) j" if "j \<in> set ?jobs" for j
    using ok that unfolding jobs_ok_def by blast
  have known: "t \<in> set (known_targets r) \<longleftrightarrow> Some t \<in> set (Targets r)" for t
    by (force simp: known_targets_def List.map_filter_def)
  have valid: "\<forall>j\<in>set ?jobs. valid_job j"
    using of_job assms(6) by (fastforce simp: valid_job_def job_for_def dest: nth_mem)
  have "running ?jobs (\<lambda>k. []) ?start" unfolding running_def
  proof (intro conjI ballI)
    show "map fst (checkers ?start) = ?jobs" by (simp add: health_start_def newActiveHealthManager_def Let_def o_def)
    show "hstarted ?start" by (simp add: health_start_def Let_def)
  next
    fix j assume j: "j \<in> set ?jobs"
    have "\<forall>j\<in>set ?jobs. (Map.empty :: activeHealthKey \<rightharpoonup> activeHealthState) (jkey j) = None" by simp
    from prepare_states[OF dist j this] obtain st where
      "fold prepare_state ?jobs Map.empty (jkey j) = Some st" "same_verdict new_health_state st" by blast
    moreover have "tracks j [] new_health_state"
      using valid j by (auto simp: tracks_def new_health_state_def valid_job_def intro!: follows_start)
    ultimately show "\<exists>st. hstates ?start (jkey j) = Some st \<and> tracks j [] st"
      using tracks_same by (auto simp: health_start_def newActiveHealthManager_def Let_def)
  qed
  from running_run[OF this valid dist, of evs]
  have run: "running ?jobs (\<lambda>k. rev (health_observed evs ?start k)) (health_run evs ?start)" by simp
  have "(i, a) \<in> jkey ` set ?jobs" using ok assms(1-5) known unfolding jobs_ok_def by blast
  then obtain j where j: "j \<in> set ?jobs" "jkey j = (i, a)" by auto
  then have jf: "job_for i r check (known_targets r) j" using of_job[OF j(1)] assms(2,3) by simp
  obtain st where st: "hstates (health_run evs ?start) (i, a) = Some st" "tracks j (rev (health_observed evs ?start (i, a))) st"
    using run j unfolding running_def by fastforce
  have "isUnhealthy st \<longleftrightarrow> failureConclusive j \<and> settled (nat (FailureThreshold check)) (nat (SuccessThreshold check)) (rev (health_observed evs ?start (i, a)))"
  proof -
    have "jcheck j = check" using jf by (simp add: job_for_def)
    then show ?thesis using st(2) by (cases "failureConclusive j") (simp_all add: tracks_def follows_history_def)
  qed
  then show ?thesis using st(1) jf j(2) assms(4) known by (auto simp: healthUnhealthy_def job_for_def Let_def)
qed

text \<open>C17: the delay to the next probe is the configured interval up to a tenth more or less, however the
  random source answers; only the confirmation of a recovering TCP target may come earlier, and then
  its base is at most one and a half seconds.\<close>

theorem probe_delay_bounded:
  assumes "\<And>n. 0 < n \<Longrightarrow> 0 \<le> random n \<and> random n < n"
  shows "let d = nextProbeDelay random job m; i = probe_interval job; base = min i activeHealthRecoveryConfirmCap in
    (i - i div 10 \<le> d \<and> d \<le> i + i div 10)
    \<or> (hcType (jcheck job) = HealthCheckTCP \<and> (\<exists>st. hstates m (jkey job) = Some st \<and> isUnhealthy st \<and> consecutiveSuccesses st = 1)
       \<and> base - base div 10 \<le> d \<and> d \<le> base + base div 10)"
proof -
  have b: "i - i div 10 \<le> activeHealthIntervalDelay random i \<and> activeHealthIntervalDelay random i \<le> i + i div 10" if "0 \<le> i" for i
  proof -
    have s: "i * 10 div 100 = i div 10" by simp
    show ?thesis using assms[of "2 * (i div 10) + 1"] that
      by (auto simp: activeHealthIntervalDelay_def activeHealthRandomDuration_def activeHealthJitterPercent_def Let_def s)
  qed
  have i: "0 \<le> probe_interval job" by (simp add: probe_interval_def millisecond_def)
  then have "0 \<le> min (probe_interval job) activeHealthRecoveryConfirmCap" by (simp add: activeHealthRecoveryConfirmCap_def millisecond_def)
  from b[OF i] b[OF this] show ?thesis unfolding nextProbeDelay_def Let_def by (auto split: option.splits)
qed

section \<open>A history\<close>

definition wit_health_rule :: Rule where
  "wit_health_rule = \<lparr>Name = ''r'', Listen = '''', Mode = ModeNormal, Protocol = '''', Prewarm = False,
     Targets = [Some \<lparr>Regexp = '''', Re = None, Address = ''a'', ServerNames = [], ALPN = [], ConnectProxy = None\<rparr>],
     Timeout = 0, Blacklist = [], Allowlist = [], MaxConnections = 0, MaxConnectionsPerIP = 0,
     HealthCheck = Some \<lparr>hcType = HealthCheckTCP, hcInterval = 1000, hcTimeout = 500, FailureThreshold = 2, SuccessThreshold = 2,
       hcPath = '''', StatusMin = 200, StatusMax = 399\<rparr>,
     Hedge = None, ProxyProtocol = None, UserAgent = [], allowPrefixes = [], blockedIPs = {}\<rparr>"

text \<open>Two failures, then one success: the target is unhealthy.\<close>

definition wit_health_events :: "health_event list" where
  "wit_health_events = concat (map (\<lambda>b. [Schedule 0 0 (\<lambda>n. 0), Wake 0, TakeSlot 0, Finish 0 0 b]) [False, False, True])"

theorem active_health_follows_results_witness:
  "healthUnhealthy (health_run wit_health_events (health_start [Some wit_health_rule] newActiveHealthManager)) (Some 0) ''a''"
proof -
  let ?check = "the (HealthCheck wit_health_rule)"
  have h: "0 < length [Some wit_health_rule]" "[Some wit_health_rule] ! 0 = Some wit_health_rule"
    "HealthCheck wit_health_rule = Some ?check" "''a'' \<noteq> ''''"
    "\<exists>t. Some t \<in> set (Targets wit_health_rule) \<and> Address t = ''a''" by (simp_all add: wit_health_rule_def)
  have v: "1 \<le> FailureThreshold c \<and> 1 \<le> SuccessThreshold c" if "Some r \<in> set [Some wit_health_rule]" "HealthCheck r = Some c" for r c
    using that by (auto simp: wit_health_rule_def)
  have "settled 2 2 (rev (health_observed wit_health_events (health_start [Some wit_health_rule] newActiveHealthManager) (0, ''a'')))"
    by code_simp
  moreover have "nat (FailureThreshold ?check) = 2" "nat (SuccessThreshold ?check) = 2" by (simp_all add: wit_health_rule_def)
  moreover have "\<forall>t. Some t \<in> set (Targets wit_health_rule) \<and> Address t = ''a'' \<longrightarrow> activeHealthFailureConclusive (Some wit_health_rule) (Some t)"
    by (simp add: wit_health_rule_def activeHealthFailureConclusive_def)
  ultimately show ?thesis using active_health_follows_results[where evs = wit_health_events, OF h v] by (simp only: Let_def)
qed

definition wit_health_job :: activeHealthJob where
  "wit_health_job = hd (health_jobs 0 [Some wit_health_rule] [])"

theorem probe_delay_bounded_witness:
  "(let d = nextProbeDelay (\<lambda>n. n - 1) wit_health_job newActiveHealthManager in 900 * millisecond \<le> d \<and> d \<le> 1100 * millisecond)"
proof -
  have r: "0 < n \<Longrightarrow> 0 \<le> (\<lambda>n. n - 1) n \<and> (\<lambda>n. n - 1) n < n" for n :: int by simp
  have i: "probe_interval wit_health_job = 1000 * millisecond" by code_simp
  have "hstates newActiveHealthManager (jkey wit_health_job) = None" by (simp add: newActiveHealthManager_def)
  then show ?thesis
    using probe_delay_bounded[of "\<lambda>n. n - 1" wit_health_job newActiveHealthManager, OF r]
    by (simp add: Let_def i millisecond_def)
qed

end
