(* ===== verification/Runtime_State.thy ===== *)
theory Runtime_State
  imports Active_Health Boost_Cache
begin

text \<open>
  What a reload hands from one routing generation to the next (\<^verbatim>\<open>controller/runtime_state.go\<close>). A rule
  pointer is a position in its rule set; \<^verbatim>\<open>json.Marshal\<close>, which decides whether a rule is unchanged, is
  the argument \<open>encode\<close> (it may fail), about which nothing is assumed. The rules of a validated
  configuration and their targets are not nil; the code would panic on a nil one, which has no addresses
  here. The runtime's prewarm pools, CONNECT sessions and round-robin counters are never inherited, and
  are not part of the record.
\<close>

section \<open>Unchanged rules\<close>

fun index_configs :: "(Rule option \<Rightarrow> string option) \<Rightarrow> nat \<Rightarrow> Rule option list \<Rightarrow> (string \<Rightarrow> nat list) \<Rightarrow> (string \<Rightarrow> nat list)" where
  "index_configs encode i [] oldByConfig = oldByConfig"
| "index_configs encode i (rule # rules) oldByConfig =
     index_configs encode (Suc i) rules
       (case encode rule of Some key \<Rightarrow> oldByConfig(key := oldByConfig key @ [i]) | None \<Rightarrow> oldByConfig)"

fun pair_configs :: "(Rule option \<Rightarrow> string option) \<Rightarrow> nat \<Rightarrow> Rule option list \<Rightarrow> (string \<Rightarrow> nat list) \<Rightarrow> (nat \<times> nat) list" where
  "pair_configs encode j [] oldByConfig = []"
| "pair_configs encode j (rule # rules) oldByConfig =
     (case encode rule of
        None \<Rightarrow> pair_configs encode (Suc j) rules oldByConfig
      | Some key \<Rightarrow>
          (case oldByConfig key of
             [] \<Rightarrow> pair_configs encode (Suc j) rules oldByConfig
           | i # rest \<Rightarrow> (i, j) # pair_configs encode (Suc j) rules (oldByConfig(key := rest))))"

definition unchangedRulePairs :: "(Rule option \<Rightarrow> string option) \<Rightarrow> Rule option list \<Rightarrow> Rule option list \<Rightarrow> (nat \<times> nat) list" where
  "unchangedRulePairs encode oldRules newRules = pair_configs encode 0 newRules (index_configs encode 0 oldRules (\<lambda>_. []))"

section \<open>Inheritance\<close>

record routingRuntime =
  routes :: routeHealthRegistry
  health :: activeHealthManager
  boost :: boostWinnerCacheRegistry

definition inherited_route :: "routeHealthState \<Rightarrow> routeHealthState" where
  "inherited_route st = st\<lparr>halfOpen := False, halfOpenAttempt := 0, minValidAttempt := 0\<rparr>"

definition pair_addresses :: "Rule option \<Rightarrow> string list" where
  "pair_addresses rule = (case rule of Some r \<Rightarrow> map Address (List.map_filter id (Targets r)) | None \<Rightarrow> [])"

definition inherit_route :: "routeHealthRegistry \<Rightarrow> Rule option \<Rightarrow> string \<Rightarrow> routeHealthRegistry \<Rightarrow> routeHealthRegistry" where
  "inherit_route previous old addr r =
     (case old of
        None \<Rightarrow> r
      | Some rule \<Rightarrow>
          (case routeKey rule addr of
             None \<Rightarrow> r
           | Some key \<Rightarrow> (case states previous key of None \<Rightarrow> r | Some st \<Rightarrow> putState key (inherited_route st) r)))"

definition inherit_routes :: "routeHealthRegistry \<Rightarrow> Rule option list \<Rightarrow> Rule option list \<Rightarrow> (nat \<times> nat) list \<Rightarrow> routeHealthRegistry \<Rightarrow> routeHealthRegistry" where
  "inherit_routes previous oldRules newRules pairs =
     fold (\<lambda>(i, j). fold (inherit_route previous (oldRules ! i)) (pair_addresses (newRules ! j))) pairs"

definition inherit_winner :: "gotime \<Rightarrow> boostWinnerCacheRegistry \<Rightarrow> Rule option \<Rightarrow> boostWinnerCacheRegistry \<Rightarrow> boostWinnerCacheRegistry" where
  "inherit_winner now previous old c =
     (case old of
        None \<Rightarrow> c
      | Some rule \<Rightarrow>
          (case map_of (winners previous) (boostRuleKey rule) of
             None \<Rightarrow> c
           | Some entry \<Rightarrow>
               if now < bwExpires entry
               then c\<lparr>winners := AList.update (boostRuleKey rule) entry (winners c),
                      nextWinner := (if bwGeneration entry > nextWinner c then bwGeneration entry else nextWinner c)\<rparr>
               else c))"

definition inherit_winners :: "gotime \<Rightarrow> boostWinnerCacheRegistry \<Rightarrow> Rule option list \<Rightarrow> (nat \<times> nat) list \<Rightarrow> boostWinnerCacheRegistry \<Rightarrow> boostWinnerCacheRegistry" where
  "inherit_winners now previous oldRules pairs = fold (\<lambda>(i, j). inherit_winner now previous (oldRules ! i)) pairs"

definition inherit_check :: "activeHealthManager \<Rightarrow> nat \<Rightarrow> nat \<Rightarrow> string \<Rightarrow> activeHealthManager \<Rightarrow> activeHealthManager" where
  "inherit_check previous i j addr m =
     (case hstates previous (i, addr) of None \<Rightarrow> m | Some st \<Rightarrow> m\<lparr>hstates := (hstates m)((j, addr) \<mapsto> st)\<rparr>)"

definition inherit_checks :: "activeHealthManager \<Rightarrow> Rule option list \<Rightarrow> (nat \<times> nat) list \<Rightarrow> activeHealthManager \<Rightarrow> activeHealthManager" where
  "inherit_checks previous newRules pairs =
     fold (\<lambda>(i, j). fold (inherit_check previous i j) (pair_addresses (newRules ! j))) pairs"

definition inheritUnchangedState ::
  "(Rule option \<Rightarrow> string option) \<Rightarrow> gotime \<Rightarrow> routingRuntime \<Rightarrow> Rule option list \<Rightarrow> Rule option list \<Rightarrow> routingRuntime \<Rightarrow> routingRuntime" where
  "inheritUnchangedState encode now previous oldRules newRules rt =
     (let pairs = unchangedRulePairs encode oldRules newRules
      in if pairs = [] then rt
         else rt\<lparr>routes := inherit_routes (routes previous) oldRules newRules pairs (routes rt),
                health := inherit_checks (health previous) newRules pairs (health rt),
                boost := inherit_winners now (boost previous) oldRules pairs (boost rt)\<rparr>)"

text \<open>\<^verbatim>\<open>routingRuntime.clear\<close>, once the revalidations of the rules are over.\<close>

definition routing_clear :: "Rule option list \<Rightarrow> routingRuntime \<Rightarrow> routingRuntime" where
  "routing_clear rules rt =
     rt\<lparr>routes := clear_registry rules (routes rt),
        boost := fold (\<lambda>rule c. case rule of Some rule \<Rightarrow> deleteBoostWinnerLocked (boostRuleKey rule) c | None \<Rightarrow> c) rules (boost rt)\<rparr>"

section \<open>The pairs are a maximal matching\<close>

definition pool_of :: "(Rule option \<Rightarrow> string option) \<Rightarrow> Rule option list \<Rightarrow> nat set \<Rightarrow> string \<Rightarrow> nat list" where
  "pool_of encode olds used key = filter (\<lambda>i. encode (olds ! i) = Some key \<and> i \<notin> used) [0..<length olds]"

lemma index_pool:
  "index_configs encode (length xs) ys (pool_of encode xs {}) = pool_of encode (xs @ ys) {}"
proof (induction ys arbitrary: xs)
  case (Cons y ys)
  have old: "filter (\<lambda>i. encode ((xs @ [y]) ! i) = Some k) [0..<length xs] = filter (\<lambda>i. encode (xs ! i) = Some k) [0..<length xs]" for k
    by (rule filter_cong) (simp_all add: nth_append)
  have "(case encode y of Some key \<Rightarrow> (pool_of encode xs {})(key := pool_of encode xs {} key @ [length xs]) | None \<Rightarrow> pool_of encode xs {})
      = pool_of encode (xs @ [y]) {}"
    by (rule ext) (simp add: pool_of_def old split: option.split)
  then show ?case using Cons.IH[of "xs @ [y]"] by simp
qed simp

text \<open>The pairing again, over the set of old rules already used.\<close>

definition pick :: "(Rule option \<Rightarrow> string option) \<Rightarrow> Rule option list \<Rightarrow> nat set \<Rightarrow> Rule option \<Rightarrow> nat option" where
  "pick encode olds used y =
     (if encode y = None then None else find (\<lambda>i. encode (olds ! i) = encode y \<and> i \<notin> used) [0..<length olds])"

fun matched :: "(Rule option \<Rightarrow> string option) \<Rightarrow> Rule option list \<Rightarrow> nat \<Rightarrow> Rule option list \<Rightarrow> nat set \<Rightarrow> (nat \<times> nat) list" where
  "matched encode olds n [] used = []"
| "matched encode olds n (y # ys) used =
     (case pick encode olds used y of
        None \<Rightarrow> matched encode olds (Suc n) ys used
      | Some i \<Rightarrow> (i, n) # matched encode olds (Suc n) ys (insert i used))"

lemma pick_some:
  assumes "pick encode olds used y = Some i"
  shows "i < length olds \<and> i \<notin> used \<and> encode y \<noteq> None \<and> encode (olds ! i) = encode y"
  using assms by (auto simp: pick_def find_Some_iff split: if_splits)

lemma pick_none: "pick encode olds used y = None \<Longrightarrow> i < length olds \<Longrightarrow> encode y \<noteq> None \<Longrightarrow> encode (olds ! i) = encode y \<Longrightarrow> i \<in> used"
  by (auto simp: pick_def find_None_iff split: if_splits)

lemma find_filter: "find P xs = (case filter P xs of [] \<Rightarrow> None | x # _ \<Rightarrow> Some x)"
  by (induction xs) simp_all

lemma pick_pool: "encode y = Some key \<Longrightarrow> pick encode olds used y = (case pool_of encode olds used key of [] \<Rightarrow> None | i # rest \<Rightarrow> Some i)"
  by (simp add: pick_def pool_of_def find_filter)

lemma pool_rest:
  assumes "encode y = Some key" "pool_of encode olds used key = i # rest"
  shows "(pool_of encode olds used)(key := rest) = pool_of encode olds (insert i used)"
proof
  fix k
  have i: "encode (olds ! i) = Some key"
  proof -
    have "i \<in> set (pool_of encode olds used key)" unfolding assms(2) by simp
    then show ?thesis by (simp add: pool_of_def)
  qed
  have "distinct (i # rest)" unfolding assms(2)[symmetric] pool_of_def by simp
  then have "rest = filter (\<lambda>x. x \<noteq> i) (pool_of encode olds used key)" unfolding assms(2) by (auto simp: filter_id_conv intro: sym)
  also have "\<dots> = pool_of encode olds (insert i used) key" unfolding pool_of_def filter_filter by (rule filter_cong) auto
  finally have "rest = pool_of encode olds (insert i used) key" .
  moreover have "pool_of encode olds used k = pool_of encode olds (insert i used) k" if "k \<noteq> key"
    unfolding pool_of_def by (rule filter_cong) (use i that in auto)
  ultimately show "((pool_of encode olds used)(key := rest)) k = pool_of encode olds (insert i used) k" by simp
qed

lemma pair_matched: "pair_configs encode n ys (pool_of encode olds used) = matched encode olds n ys used"
proof (induction ys arbitrary: n used)
  case (Cons y ys)
  show ?case
  proof (cases "encode y")
    case None
    then show ?thesis using Cons.IH by (simp add: pick_def)
  next
    case (Some key)
    show ?thesis
    proof (cases "pool_of encode olds used key")
      case Nil
      then show ?thesis using Cons.IH Some by (simp add: pick_pool[of encode y key, OF Some])
    next
      case (Cons i rest)
      then show ?thesis using Cons.IH Some by (simp add: pick_pool[of encode y key, OF Some] pool_rest[of encode y key, OF Some Cons])
    qed
  qed
qed simp

lemma matched_range:
  "(i, j) \<in> set (matched encode olds n ys used) \<Longrightarrow>
   n \<le> j \<and> j < n + length ys \<and> i < length olds \<and> i \<notin> used \<and> encode (ys ! (j - n)) \<noteq> None \<and> encode (olds ! i) = encode (ys ! (j - n))"
proof (induction encode olds n ys used rule: matched.induct)
  case (2 encode olds n y ys used)
  show ?case
  proof (cases "pick encode olds used y")
    case None
    then have "n < j" "j < n + length (y # ys)" and r: "i < length olds \<and> i \<notin> used \<and> encode (ys ! (j - Suc n)) \<noteq> None \<and> encode (olds ! i) = encode (ys ! (j - Suc n))"
      using 2 by auto
    then show ?thesis by (simp add: nth_Cons' Suc_diff_Suc[symmetric])
  next
    case (Some k)
    show ?thesis
    proof (cases "(i, j) = (k, n)")
      case True
      then show ?thesis using pick_some[OF Some] by simp
    next
      case False
      then have "n < j" "j < n + length (y # ys)" and r: "i < length olds \<and> i \<notin> used \<and> encode (ys ! (j - Suc n)) \<noteq> None \<and> encode (olds ! i) = encode (ys ! (j - Suc n))"
        using 2(2)[OF Some] 2(3) Some by auto
      then show ?thesis by (simp add: nth_Cons' Suc_diff_Suc[symmetric])
    qed
  qed
qed simp

lemma matched_distinct:
  "distinct (map fst (matched encode olds n ys used)) \<and> distinct (map snd (matched encode olds n ys used))"
proof (induction encode olds n ys used rule: matched.induct)
  case (2 encode olds n y ys used)
  show ?case
  proof (cases "pick encode olds used y")
    case (Some k)
    have "k \<notin> fst ` set (matched encode olds (Suc n) ys (insert k used))" "n \<notin> snd ` set (matched encode olds (Suc n) ys (insert k used))"
      using matched_range[of _ _ encode olds "Suc n" ys "insert k used"] by fastforce+
    then show ?thesis using 2(2)[OF Some] Some by simp
  qed (use 2 in simp)
qed simp

lemma matched_maximal:
  "j < length ys \<Longrightarrow> i < length olds \<Longrightarrow> encode (olds ! i) \<noteq> None \<Longrightarrow> encode (olds ! i) = encode (ys ! j) \<Longrightarrow>
   n + j \<in> snd ` set (matched encode olds n ys used) \<or> i \<in> used \<or> i \<in> fst ` set (matched encode olds n ys used)"
proof (induction encode olds n ys used arbitrary: j rule: matched.induct)
  case (2 encode olds n y ys used)
  show ?case
  proof (cases "pick encode olds used y")
    case None
    show ?thesis
    proof (cases j)
      case 0
      then show ?thesis using pick_none[OF None 2(4)] 2(5,6) by simp
    next
      case (Suc m)
      then show ?thesis using 2(1)[OF None, of m] 2(3-6) None by simp
    qed
  next
    case (Some k)
    show ?thesis
    proof (cases j)
      case 0
      then show ?thesis using Some by simp
    next
      case (Suc m)
      then show ?thesis using 2(2)[OF Some, of m] 2(3-6) Some by auto
    qed
  qed
qed simp

lemma unchanged_matched: "unchangedRulePairs encode olds news = matched encode olds 0 news {}"
proof -
  have "pool_of encode [] {} = (\<lambda>_. [])" by (rule ext) (simp add: pool_of_def)
  then have "index_configs encode 0 olds (\<lambda>_. []) = pool_of encode olds {}" using index_pool[of encode "[]" olds] by simp
  then show ?thesis by (simp add: unchangedRulePairs_def pair_matched)
qed

text \<open>C13: unchanged rules are paired one to one, each old rule with a new rule of the same serialised
  configuration, and no pair is missed: of an old and a new rule with the same configuration one at
  least is paired.\<close>

theorem unchanged_rules_matched:
  fixes encode :: "Rule option \<Rightarrow> string option" and oldRules newRules :: "Rule option list"
  defines "pairs \<equiv> unchangedRulePairs encode oldRules newRules"
  shows "distinct (map fst pairs) \<and> distinct (map snd pairs)
     \<and> set pairs \<subseteq> {(i, j). i < length oldRules \<and> j < length newRules \<and> encode (newRules ! j) \<noteq> None \<and> encode (oldRules ! i) = encode (newRules ! j)}
     \<and> {(i, j). i < length oldRules \<and> j < length newRules \<and> encode (newRules ! j) \<noteq> None \<and> encode (oldRules ! i) = encode (newRules ! j)}
        \<subseteq> {(i, j). i \<in> fst ` set pairs \<or> j \<in> snd ` set pairs}"
proof -
  have p: "pairs = matched encode oldRules 0 newRules {}" unfolding pairs_def by (rule unchanged_matched)
  have "set pairs \<subseteq> {(i, j). i < length oldRules \<and> j < length newRules \<and> encode (newRules ! j) \<noteq> None \<and> encode (oldRules ! i) = encode (newRules ! j)}"
    using matched_range[of _ _ encode oldRules 0 newRules "{}"] unfolding p by fastforce
  moreover have "{(i, j). i < length oldRules \<and> j < length newRules \<and> encode (newRules ! j) \<noteq> None \<and> encode (oldRules ! i) = encode (newRules ! j)}
        \<subseteq> {(i, j). i \<in> fst ` set pairs \<or> j \<in> snd ` set pairs}"
    using matched_maximal[of _ newRules _ oldRules encode 0 "{}"] unfolding p by fastforce
  ultimately show ?thesis using matched_distinct[of encode oldRules 0 newRules "{}"] unfolding p by blast
qed

section \<open>What the next generation starts with\<close>

lemma update_map_of: "map_of (AList.update k v xs) = (map_of xs)(k \<mapsto> v)"
  by (rule ext) (simp add: update_conv)

lemma inherit_route_states:
  "states (inherit_route previous old addr r) k =
     (if old \<noteq> None \<and> routeKey (the old) addr = Some k \<and> states previous k \<noteq> None
      then map_option inherited_route (states previous k) else states r k)"
  by (auto simp: inherit_route_def split: option.split)

lemma inherit_target_states:
  "states (fold (inherit_route previous old) addrs r) k =
     (if old \<noteq> None \<and> k \<in> {k. \<exists>a\<in>set addrs. routeKey (the old) a = Some k} \<and> states previous k \<noteq> None
      then map_option inherited_route (states previous k) else states r k)"
  by (induction addrs arbitrary: r) (simp_all add: inherit_route_states)

text \<open>What is inherited, in terms of the rules themselves: the targets of a rule, the routes of the
  targets of the paired rules, and the keys of the paired rules' winners.\<close>

definition rule_target_addresses :: "Rule option \<Rightarrow> string set" where
  "rule_target_addresses rule = {a. \<exists>r t. rule = Some r \<and> Some t \<in> set (Targets r) \<and> Address t = a}"

lemma pair_addresses_set: "set (pair_addresses rule) = rule_target_addresses rule"
  by (cases rule) (force simp: pair_addresses_def rule_target_addresses_def List.map_filter_def)+

definition inherited_keys :: "Rule option list \<Rightarrow> Rule option list \<Rightarrow> (nat \<times> nat) list \<Rightarrow> routeHealthKey set" where
  "inherited_keys olds news pairs =
     {k. \<exists>(i, j)\<in>set pairs. \<exists>rule. olds ! i = Some rule \<and> (\<exists>a\<in>rule_target_addresses (news ! j). routeKey rule a = Some k)}"

lemma inherit_routes_states:
  "states (inherit_routes previous olds news pairs r) k =
     (if k \<in> inherited_keys olds news pairs \<and> states previous k \<noteq> None
      then map_option inherited_route (states previous k) else states r k)"
proof (induction pairs arbitrary: r)
  case Nil
  then show ?case by (simp add: inherit_routes_def inherited_keys_def)
next
  case (Cons p pairs)
  obtain i j where p: "p = (i, j)" by (cases p)
  let ?r = "fold (inherit_route previous (olds ! i)) (pair_addresses (news ! j)) r"
  have e: "inherit_routes previous olds news (p # pairs) r = inherit_routes previous olds news pairs ?r"
    by (simp add: inherit_routes_def p)
  show ?case unfolding e Cons.IH inherit_target_states
    by (cases "olds ! i") (auto simp: inherited_keys_def p pair_addresses_set)
qed

lemma inherit_check_states:
  "hstates (fold (inherit_check previous i j) addrs m) (a, b) =
     (if a = j \<and> b \<in> set addrs \<and> hstates previous (i, b) \<noteq> None then hstates previous (i, b) else hstates m (a, b))"
  by (induction addrs arbitrary: m) (auto simp: inherit_check_def split: option.split)

lemma inherit_checks_states:
  "distinct (map snd pairs) \<Longrightarrow>
   hstates (inherit_checks previous news pairs m) (j, b) =
     (case map_of (map prod.swap pairs) j of
        Some i \<Rightarrow> if b \<in> set (pair_addresses (news ! j)) \<and> hstates previous (i, b) \<noteq> None then hstates previous (i, b) else hstates m (j, b)
      | None \<Rightarrow> hstates m (j, b))"
proof (induction pairs arbitrary: m)
  case Nil
  then show ?case by (simp add: inherit_checks_def)
next
  case (Cons p pairs)
  obtain i j' where p: "p = (i, j')" by (cases p)
  let ?m = "fold (inherit_check previous i j') (pair_addresses (news ! j')) m"
  have e: "inherit_checks previous news (p # pairs) m = inherit_checks previous news pairs ?m"
    by (simp add: inherit_checks_def p)
  have n: "map_of (map prod.swap pairs) j' = None" using Cons.prems by (force simp: p map_of_eq_None_iff)
  have d: "distinct (map snd pairs)" using Cons.prems by simp
  show ?case unfolding e Cons.IH[OF d] inherit_check_states by (auto simp: p n split: option.split)
qed

definition inherited_rules :: "Rule option list \<Rightarrow> (nat \<times> nat) list \<Rightarrow> string set" where
  "inherited_rules olds pairs = {key. \<exists>(i, j)\<in>set pairs. \<exists>rule. olds ! i = Some rule \<and> key = boostRuleKey rule}"

lemma inherit_winner_map:
  "map_of (winners (inherit_winner now previous old c)) k =
     (if old \<noteq> None \<and> k = boostRuleKey (the old) \<and> (\<exists>e. map_of (winners previous) k = Some e \<and> now < bwExpires e)
      then map_of (winners previous) k else map_of (winners c) k)"
  by (auto simp: inherit_winner_def update_map_of split: option.split)

lemma inherit_winners_next:
  assumes "list_all (\<lambda>(k, e). bwGeneration e \<le> nextWinner c) (winners c)"
  shows "list_all (\<lambda>(k, e). bwGeneration e \<le> nextWinner (inherit_winners now previous olds pairs c)) (winners (inherit_winners now previous olds pairs c))"
  using assms
proof (induction pairs arbitrary: c)
  case (Cons p pairs)
  obtain i j where p: "p = (i, j)" by (cases p)
  have "(k, e) \<in> set (AList.update key v ws) \<Longrightarrow> (k, e) = (key, v) \<or> (k, e) \<in> set ws" for k e key v and ws :: "(string \<times> boostWinnerEntry) list"
    by (induction ws) (auto split: if_splits)
  then have "list_all (\<lambda>(k, e). bwGeneration e \<le> nextWinner (inherit_winner now previous (olds ! i) c)) (winners (inherit_winner now previous (olds ! i) c))"
    using Cons.prems by (fastforce simp: list_all_iff inherit_winner_def split: option.split)
  from Cons.IH[OF this] show ?case by (simp add: inherit_winners_def p)
qed (simp add: inherit_winners_def)

lemma inherit_winners_map:
  "map_of (winners (inherit_winners now previous olds pairs c)) k =
     (if k \<in> inherited_rules olds pairs \<and> (\<exists>e. map_of (winners previous) k = Some e \<and> now < bwExpires e)
      then map_of (winners previous) k else map_of (winners c) k)"
proof (induction pairs arbitrary: c)
  case Nil
  then show ?case by (simp add: inherit_winners_def inherited_rules_def)
next
  case (Cons p pairs)
  obtain i j where p: "p = (i, j)" by (cases p)
  have e: "inherit_winners now previous olds (p # pairs) c = inherit_winners now previous olds pairs (inherit_winner now previous (olds ! i) c)"
    by (simp add: inherit_winners_def p)
  show ?case unfolding e Cons.IH inherit_winner_map by (cases "olds ! i") (auto simp: inherited_rules_def p)
qed

definition newRoutingRuntime :: routingRuntime where
  "newRoutingRuntime = \<lparr>routes = newRouteHealthRegistry, health = newActiveHealthManager, boost = new_cache\<rparr>"

lemma inherit_nothing [simp]:
  "inherit_routes previous olds news [] = id" "inherit_checks hs news [] = id" "inherit_winners now ws olds [] = id"
  by (simp_all add: inherit_routes_def inherit_checks_def inherit_winners_def)

lemma inherit_parts:
  fixes encode olds news defines "pairs \<equiv> unchangedRulePairs encode olds news"
  shows "inheritUnchangedState encode now previous olds news rt =
     rt\<lparr>routes := inherit_routes (routes previous) olds news pairs (routes rt),
        health := inherit_checks (health previous) news pairs (health rt),
        boost := inherit_winners now (boost previous) olds pairs (boost rt)\<rparr>"
  by (cases "pairs = []") (simp_all add: inheritUnchangedState_def pairs_def Let_def)

lemma pairs_distinct: "distinct (map snd (unchangedRulePairs encode olds news))"
  using matched_distinct by (simp add: unchanged_matched)

text \<open>C14: a new generation starts with exactly what the unchanged rules learnt: the circuits of their
  targets as they were, except that no half-open probe, attempt number or lower bound on attempts is
  taken over; the active checks of each paired rule's targets, unchanged; and their unexpired winners,
  unchanged, all of them numbered no later than the new generation's own counter. Every other rule
  starts afresh.\<close>

theorem reload_keeps_what_unchanged_rules_learnt:
  fixes encode :: "Rule option \<Rightarrow> string option" and olds news :: "Rule option list" and previous :: routingRuntime and now :: gotime
  defines "pairs \<equiv> unchangedRulePairs encode olds news"
  defines "rt \<equiv> inheritUnchangedState encode now previous olds news newRoutingRuntime"
  shows "(states (routes rt) k =
          (if k \<in> inherited_keys olds news pairs
           then map_option (\<lambda>st. st\<lparr>halfOpen := False, halfOpenAttempt := 0, minValidAttempt := 0\<rparr>) (states (routes previous) k) else None))
     \<and> (hstates (health rt) (j, addr) =
          (case map_of (map prod.swap pairs) j of
             Some i \<Rightarrow> if addr \<in> rule_target_addresses (news ! j) then hstates (health previous) (i, addr) else None
           | None \<Rightarrow> None))
     \<and> (map_of (winners (boost rt)) key =
          (if key \<in> inherited_rules olds pairs
           then Option.bind (map_of (winners (boost previous)) key) (\<lambda>e. if now < bwExpires e then Some e else None) else None))
     \<and> list_all (\<lambda>(k, e). bwGeneration e \<le> nextWinner (boost rt)) (winners (boost rt))"
proof -
  have d: "distinct (map snd pairs)" unfolding pairs_def by (rule pairs_distinct)
  have new: "states (routes newRoutingRuntime) = Map.empty" "hstates (health newRoutingRuntime) = Map.empty" "winners (boost newRoutingRuntime) = []"
    by (simp_all add: newRoutingRuntime_def newRouteHealthRegistry_def newActiveHealthManager_def new_cache_def)
  have rt: "rt = newRoutingRuntime\<lparr>routes := inherit_routes (routes previous) olds news pairs (routes newRoutingRuntime),
        health := inherit_checks (health previous) news pairs (health newRoutingRuntime),
        boost := inherit_winners now (boost previous) olds pairs (boost newRoutingRuntime)\<rparr>"
    unfolding rt_def pairs_def by (rule inherit_parts)
  have "states (routes rt) k =
      (if k \<in> inherited_keys olds news pairs
       then map_option (\<lambda>st. st\<lparr>halfOpen := False, halfOpenAttempt := 0, minValidAttempt := 0\<rparr>) (states (routes previous) k) else None)"
    by (simp add: rt inherit_routes_states new inherited_route_def[abs_def])
  moreover have "hstates (health rt) (j, addr) =
          (case map_of (map prod.swap pairs) j of
             Some i \<Rightarrow> if addr \<in> rule_target_addresses (news ! j) then hstates (health previous) (i, addr) else None
           | None \<Rightarrow> None)"
    by (auto simp: rt inherit_checks_states[OF d] new pair_addresses_set split: option.split)
  moreover have "map_of (winners (boost rt)) key =
          (if key \<in> inherited_rules olds pairs
           then Option.bind (map_of (winners (boost previous)) key) (\<lambda>e. if now < bwExpires e then Some e else None) else None)"
    by (cases "map_of (winners (boost previous)) key") (simp_all add: rt inherit_winners_map new)
  moreover have "list_all (\<lambda>(k, e). bwGeneration e \<le> nextWinner (boost rt)) (winners (boost rt))"
    using inherit_winners_next[of new_cache] by (simp add: rt newRoutingRuntime_def new_cache_def)
  ultimately show ?thesis by blast
qed

text \<open>A generation never inherits a probe in flight, and the circuits it inherits keep the invariant of
  the registry, whatever the previous generation went through.\<close>

lemma circuit_ok_inherited: "circuit_ok st \<Longrightarrow> circuit_ok (inherited_route st)"
  by (simp add: circuit_ok_def inherited_route_def)

lemma registry_ok_inherit: "registry_ok previous \<Longrightarrow> registry_ok r \<Longrightarrow> registry_ok (inherit_routes previous olds news pairs r)"
  unfolding registry_ok_def inherit_routes_states by (auto intro: circuit_ok_inherited)

lemma inherited_circuits_idle:
  "registry_ok (inherit_routes (route_run ops newRouteHealthRegistry) olds news pairs newRouteHealthRegistry)
   \<and> (\<forall>st\<in>ran (states (inherit_routes (route_run ops newRouteHealthRegistry) olds news pairs newRouteHealthRegistry)). \<not> halfOpen st)"
proof
  show "registry_ok (inherit_routes (route_run ops newRouteHealthRegistry) olds news pairs newRouteHealthRegistry)"
    by (rule registry_ok_inherit[OF route_run_ok route_run_ok[of "[]", unfolded route_run_def list.simps fold_simps]])
  show "\<forall>st\<in>ran (states (inherit_routes (route_run ops newRouteHealthRegistry) olds news pairs newRouteHealthRegistry)). \<not> halfOpen st"
    by (auto simp: ran_def inherit_routes_states newRouteHealthRegistry_def inherited_route_def split: if_splits)
qed

lemma inherit_winners_bounded:
  assumes "wf_winners previous" shows "wf_winners (inherit_winners now previous olds pairs new_cache)"
proof -
  have d: "distinct (map fst (winners (inherit_winners now previous olds ps c)))" if "distinct (map fst (winners c))" for ps c
    using that by (induction ps arbitrary: c) (auto simp: inherit_winners_def inherit_winner_def distinct_update split: option.split)
  let ?ws = "winners (inherit_winners now previous olds pairs new_cache)"
  have "fst ` set ?ws \<subseteq> fst ` set (winners previous)"
  proof
    fix k assume "k \<in> fst ` set ?ws"
    then have "map_of ?ws k \<noteq> None" by (simp add: map_of_eq_None_iff)
    then have "map_of (winners previous) k \<noteq> None" by (auto simp: inherit_winners_map new_cache_def split: if_splits)
    then show "k \<in> fst ` set (winners previous)" by (simp add: map_of_eq_None_iff)
  qed
  then have "card (fst ` set ?ws) \<le> card (fst ` set (winners previous))" by (intro card_mono) auto
  moreover have "card (fst ` set ?ws) = length ?ws" using distinct_card[OF d[of new_cache pairs]] by (simp add: new_cache_def)
  moreover have "card (fst ` set (winners previous)) = length (winners previous)" using assms distinct_card[of "map fst (winners previous)"] by (simp add: wf_winners_def)
  ultimately show ?thesis using assms d[of new_cache pairs] by (simp add: wf_winners_def new_cache_def)
qed

end
