(* ===== verification/Spec2Isabelle.thy ===== *)
theory Spec2Isabelle
  imports TLS_Routing H3_Rule_Breaker Route_Health Proxy_Protocol Config_Validation Http_Connect Log_Limiter Server_Admission Boost_Cached Runtime_State
begin

text \<open>
  A verification development of moto, a TCP gateway written in Go.

  \<^bold>\<open>The program.\<close> \<^verbatim>\<open>src/config\<close> reads and validates a set of rules; a rule binds a listening address to
  targets and says how a target is chosen (normal, regex, boost, roundrobin, tls) and how the client
  is spoken to (plain, SOCKS5, HTTP CONNECT, PROXY protocol). \<^verbatim>\<open>src/controller\<close> is the gateway: the
  server accepts connections, checks access and quotas, leases the current routing generation and
  dispatches the connection to a handler; handlers pick targets by their observed health, dial them
  under a shared bulkhead, possibly through HTTP/2 or HTTP/3 CONNECT proxies, and relay bytes. A hot
  reload publishes a new generation while old connections keep theirs.

  \<^bold>\<open>The theories.\<close> One theory per component; definitions keep the names of the Go functions they
  translate, and the text at the head of each theory names the files.
  \<^item> \<open>Moto_Prelude\<close>: times and machine integers, Go's saturating and wrapping arithmetic, readers over a
    byte stream, association lists, and the locales \<open>invariant_system\<close> and \<open>refinement_system\<close>, which
    are interpreted on every component whose critical sections interleave.
  \<^item> \<open>Net_Text\<close>: the text functions of Go's library the sources rely on (\<^verbatim>\<open>net.SplitHostPort\<close>, \<^verbatim>\<open>netip\<close>
    parsing and prefixes, \<^verbatim>\<open>strconv.Atoi\<close>, \<^verbatim>\<open>strings.EqualFold\<close>, UTF-8).
  \<^item> \<open>Moto_Config\<close>, \<open>Config_Validation\<close>: \<^verbatim>\<open>config/setting.go\<close>. Validation yields well-formed rules, is
    idempotent, and the compiled access lists decide exactly as written.
  \<^item> \<open>TLS_ClientHello\<close>, \<open>TLS_Routing\<close>: \<^verbatim>\<open>tls_clienthello.go\<close>, \<^verbatim>\<open>tls_routing.go\<close>. The probe reads at most
    the ClientHello and never loses a byte; parsing inverts a reference encoder; target selection.
  \<^item> \<open>Dial_Bulkhead\<close>: \<^verbatim>\<open>dial_bulkhead.go\<close>. Limits hold on every interleaving, no wakeup is lost.
  \<^item> \<open>Route_Health\<close>: \<^verbatim>\<open>route_health.go\<close> and target choice. Circuits, half-open probes, recovery leases.
  \<^item> \<open>Route_Errors\<close>: the classification of dial errors in \<^verbatim>\<open>connect_proxy.go\<close>: neutral errors, failures shared
    by the requests of one connection setup, failures of the route.
  \<^item> \<open>Boost_Cache\<close>: the winner cache of \<^verbatim>\<open>boost.go\<close>. A late race never overwrites a newer winner; the cache
    and its book-keeping stay bounded.
  \<^item> \<open>Boost_Race\<close>, \<open>Boost_Cached\<close>: the two races of \<^verbatim>\<open>boost.go\<close>, whose events (results of dials, the hedge
    timer, callbacks, cancellation) come in any order. At most two dials at a time, no address twice,
    every connection closed or returned, and an end after a bounded number of results. The locale
    \<open>candidate_source\<close> states what both races need from target selection.
  \<^item> \<open>Active_Health\<close>: \<^verbatim>\<open>active_health.go\<close>: the checkers of a generation, their probe slots and thresholds, in
    every interleaving. What they say of a target follows from its own results alone.
  \<^item> \<open>Runtime_State\<close>: \<^verbatim>\<open>runtime_state.go\<close>: what a reload hands on. Unchanged rules are matched one to one,
    and the next generation starts with exactly what they learnt.
  \<^item> \<open>H3_Degradation\<close>, \<open>H3_Rule_Breaker\<close>: the HTTP/3 quality window, the UDP black-hole detector and the
    circuit breaker that moves a rule from HTTP/3 to HTTP/2 and back.
  \<^item> \<open>Connect_Policy\<close>: \<^verbatim>\<open>connect_proxy_policy.go\<close>, \<^verbatim>\<open>connect_proxy_error.go\<close>: classifying failures and the
    sequential attempts over the targets.
  \<^item> \<open>Socks5\<close>, \<open>Http_Connect\<close>: the two CONNECT front ends; the locale \<open>connect_frontend\<close> states the reply
    discipline both keep.
  \<^item> \<open>Proxy_Protocol\<close>: \<^verbatim>\<open>proxy_protocol.go\<close> and its use at both ends.
  \<^item> \<open>Log_Limiter\<close>: the token buckets of the CONNECT error log.
  \<^item> \<open>Server_Machine\<close>, \<open>Server_Quota\<close>, \<open>Server_Properties\<close>, \<open>Server_Admission\<close>: \<^verbatim>\<open>server.go\<close>,
    \<^verbatim>\<open>generation.go\<close>, \<^verbatim>\<open>server_reload.go\<close>: the server as a machine whose mutex sections interleave. Leases
    refine an atomic specification, reloads are atomic, retired generations are cleaned up, and every
    listener stays within the limits of its own rules through reloads.

  \<^bold>\<open>Modelling conventions.\<close> State is passed explicitly; a mutex section or an atomic access is one step.
  Errors are values of a sum or option type. Clocks, random choices, the results of system calls and
  of cancelled contexts are arguments. Times are integers (nanoseconds); integers whose width matters
  are words. Go maps are maps or association lists with distinct keys. Loops are recursive functions
  with termination proofs; the only fuel is the length of the input a reader still has, which every
  iteration shortens, so it cannot run out. Third-party code (regular expressions, \<^verbatim>\<open>x/net\<close> header
  syntax, SHA-256) is an argument of the definitions that use it.

  \<^bold>\<open>Not modelled.\<close> The byte relay, sockets and timers, the HTTP/2 and HTTP/3 transports, their pools,
  rotation and draining, prewarming, the network operations of active health probes, metrics rendering,
  logging set-up, signal handling and the JSON decoder: either input and output, or goroutine structures that
  the current machine does not cover yet. Proof of liveness is limited to the absence of lost wakeups
  and lost cleanups; fairness of the Go scheduler is not assumed anywhere.
\<close>

end
